(* ===== verification/Prelude.thy ===== *)
theory Prelude
  imports Main "HOL-Library.List_Lexorder" "HOL-Library.Char_ord" "HOL-Library.Multiset"
begin

text \<open>
  Shared vocabulary of the development: the named collections the component proofs
  draw on, the type synonyms of the model, and the generic facts on lists, sorting and
  maps that several components need.

  Go strings are byte strings; a Go string is a \<^typ>\<open>string\<close> here, one \<^typ>\<open>char\<close> per byte.
  The order on \<^typ>\<open>string\<close> is the lexicographic one of List\_Lexorder over the byte order
  of Char\_ord, which is the order of Go's \<open><\<close> on strings and of \<open>sort.Strings\<close>.
\<close>

named_theorems go_std "characteristic facts of the standard-library functions the code calls"
named_theorems frame_simps "fields an operation leaves alone"
named_theorems bucket_simps "unfolding of the coverage policy and bucket tests"

type_synonym go_string = string

text \<open>The two multi-byte punctuation marks the messages use, in UTF-8.\<close>

definition em_dash :: string where
  "em_dash = [CHR 0xE2, CHR 0x80, CHR 0x94]"

definition ellipsis :: string where
  "ellipsis = [CHR 0xE2, CHR 0x80, CHR 0xA6]"

subsection \<open>Sorting a collection that was walked in arbitrary order\<close>

text \<open>
  Go walks a map in an unspecified order; the code then sorts what it collected. The
  next facts say that the result does not depend on the walk.
\<close>

lemma sort_perm_eq:
  fixes xs ys :: "'a::linorder list"
  assumes "mset xs = mset ys"
  shows "sort xs = sort ys"
  using assms by (metis properties_for_sort sorted_sort mset_sort)

lemma sort_map_distinct_eq:
  fixes f :: "'k \<Rightarrow> 'a::linorder"
  assumes "distinct xs" and "distinct ys" and "set xs = set ys"
  shows "sort (map f xs) = sort (map f ys)"
proof -
  have "mset xs = mset ys"
    using assms by (simp add: set_eq_iff_mset_eq_distinct)
  then have "mset (map f xs) = mset (map f ys)" by simp
  then show ?thesis by (rule sort_perm_eq)
qed

lemma sorted_list_of_set_code_eq:
  fixes xs :: "'a::linorder list"
  assumes "distinct xs" and "set xs = A"
  shows "sorted_list_of_set A = sort xs"
  using assms by (metis sorted_list_of_set_sort_remdups distinct_remdups_id)

subsection \<open>Folds that accumulate\<close>

lemma fold_invariant_all:
  assumes "P s" and "\<And>x t. x \<in> set xs \<Longrightarrow> P t \<Longrightarrow> P (f x t)"
  shows "P (fold f xs s)"
  using assms by (induction xs arbitrary: s) auto

lemma fold_field_frame:
  assumes "\<And>x t. x \<in> set xs \<Longrightarrow> g (f x t) = g t"
  shows "g (fold f xs s) = g s"
  using assms by (induction xs arbitrary: s) auto

lemma map_of_filter_none:
  "k \<notin> fst ` set ps \<Longrightarrow> map_of ps k = None"
  by (simp add: map_of_eq_None_iff)

end
