(* ===== verification/GoStd.thy ===== *)
theory GoStd
  imports Prelude
begin

text \<open>
  The functions of Go's standard library the modelled code calls, over byte strings:
  \<open>strings\<close> (HasPrefix, TrimPrefix, TrimSpace, Split, Join, LastIndexByte), \<open>unicode/utf8\<close>
  (rune decoding and encoding, with RuneError for an invalid byte), \<open>strconv\<close> (FormatUint,
  ParseUint, Quote) and \<open>strings.ToLower\<close> over a rune mapping parameter. Every definition computes.
  The table \<open>strconv.IsPrint\<close> consults above Latin-1 is the argument \<open>tbl\<close> of \<^term>\<open>quote\<close>'s
  definitions; nothing below depends on its content.
\<close>

section \<open>Prefixes, suffixes, joining, splitting\<close>

fun has_prefix :: "string \<Rightarrow> string \<Rightarrow> bool" where
  "has_prefix s [] = True"
| "has_prefix [] (p # ps) = False"
| "has_prefix (c # cs) (p # ps) = (c = p \<and> has_prefix cs ps)"

definition nl :: string where
  "nl = [CHR 0x0A]"

definition has_suffix :: "string \<Rightarrow> string \<Rightarrow> bool" where
  "has_suffix s p = has_prefix (rev s) (rev p)"

definition trim_prefix :: "string \<Rightarrow> string \<Rightarrow> string" where
  "trim_prefix s p = (if has_prefix s p then drop (length p) s else s)"

definition trim_suffix :: "string \<Rightarrow> string \<Rightarrow> string" where
  "trim_suffix s p = (if has_suffix s p then take (length s - length p) s else s)"

text \<open>\<open>strings.Cut\<close> at a separator that is not empty: the part before it, and the rest where it is found.\<close>

fun cut_at :: "string \<Rightarrow> string \<Rightarrow> string \<times> string option" where
  "cut_at sep [] = ([], None)"
| "cut_at sep (c # cs) =
     (if has_prefix (c # cs) sep then ([], Some (drop (length sep) (c # cs)))
      else case cut_at sep cs of (a, r) \<Rightarrow> (c # a, r))"

fun join :: "string list \<Rightarrow> string \<Rightarrow> string" where
  "join [] sep = []"
| "join [x] sep = x"
| "join (x # y # ys) sep = x @ sep @ join (y # ys) sep"

fun split_on :: "char \<Rightarrow> string \<Rightarrow> string list" where
  "split_on d [] = [[]]"
| "split_on d (c # cs) =
     (if c = d then [] # split_on d cs
      else (case split_on d cs of [] \<Rightarrow> [[c]] | l # ls \<Rightarrow> (c # l) # ls))"

text \<open>The part of \<open>s\<close> after its last byte \<open>d\<close>, or all of \<open>s\<close> when \<open>d\<close> does not occur.\<close>

definition after_last :: "char \<Rightarrow> string \<Rightarrow> string" where
  "after_last d s = rev (takeWhile (\<lambda>c. c \<noteq> d) (rev s))"

lemma has_prefix_iff [go_std]: "has_prefix s p \<longleftrightarrow> (\<exists>r. s = p @ r)"
  by (induction s p rule: has_prefix.induct) auto

lemma has_prefix_append [simp]: "has_prefix (p @ r) p"
  by (auto simp: has_prefix_iff)

lemma trim_prefix_append [simp]: "trim_prefix (p @ r) p = r"
  by (simp add: trim_prefix_def)

lemma split_on_nonempty [simp]: "split_on d s \<noteq> []"
  by (cases s) (auto split: list.splits)

lemma split_on_no_delim [simp]: "d \<notin> set s \<Longrightarrow> split_on d s = [s]"
  by (induction s) auto

lemma split_on_append [go_std]:
  "d \<notin> set l \<Longrightarrow> split_on d (l @ d # r) = l # split_on d r"
  by (induction l) (auto split: list.splits)

lemma split_on_lines_clean: "l \<in> set (split_on d s) \<Longrightarrow> d \<notin> set l"
proof (induction s arbitrary: l)
  case Nil
  then show ?case by simp
next
  case (Cons c cs)
  then show ?case
    by (cases "split_on d cs") (auto split: if_splits)
qed

lemma join_split_on: "join (split_on d s) [d] = s"
proof (induction s)
  case Nil
  then show ?case by simp
next
  case (Cons c cs)
  obtain l ls where ls: "split_on d cs = l # ls"
    using split_on_nonempty by (metis neq_Nil_conv)
  show ?case
    using Cons ls by (cases ls) auto
qed

lemma after_last_no_delim: "d \<notin> set (after_last d s)"
  using set_takeWhileD by (fastforce simp: after_last_def)

lemma takeWhile_absent: "d \<notin> set m \<Longrightarrow> takeWhile (\<lambda>c. c \<noteq> d) (m @ d # s) = m"
  by (induction m) auto

lemma after_last_append [go_std]:
  assumes "d \<notin> set m"
  shows "after_last d (s @ d # m) = m"
proof -
  have "takeWhile (\<lambda>c. c \<noteq> d) (rev m @ d # rev s) = rev m"
    by (rule takeWhile_absent) (use assms in simp)
  then show ?thesis by (simp add: after_last_def)
qed

section \<open>Unicode white space and \<open>strings.TrimSpace\<close>\<close>

text \<open>The UTF-8 encodings of the runes \<open>unicode.IsSpace\<close> accepts.\<close>

definition space_encodings :: "string list" where
  "space_encodings =
     [[CHR 0x09], [CHR 0x0A], [CHR 0x0B], [CHR 0x0C], [CHR 0x0D], [CHR 0x20],
      [CHR 0xC2, CHR 0x85], [CHR 0xC2, CHR 0xA0], [CHR 0xE1, CHR 0x9A, CHR 0x80],
      [CHR 0xE2, CHR 0x80, CHR 0x80], [CHR 0xE2, CHR 0x80, CHR 0x81],
      [CHR 0xE2, CHR 0x80, CHR 0x82], [CHR 0xE2, CHR 0x80, CHR 0x83],
      [CHR 0xE2, CHR 0x80, CHR 0x84], [CHR 0xE2, CHR 0x80, CHR 0x85],
      [CHR 0xE2, CHR 0x80, CHR 0x86], [CHR 0xE2, CHR 0x80, CHR 0x87],
      [CHR 0xE2, CHR 0x80, CHR 0x88], [CHR 0xE2, CHR 0x80, CHR 0x89],
      [CHR 0xE2, CHR 0x80, CHR 0x8A], [CHR 0xE2, CHR 0x80, CHR 0xA8],
      [CHR 0xE2, CHR 0x80, CHR 0xA9], [CHR 0xE2, CHR 0x80, CHR 0xAF],
      [CHR 0xE2, CHR 0x81, CHR 0x9F], [CHR 0xE3, CHR 0x80, CHR 0x80]]"

text \<open>The encodings \<open>ws\<close> stripped from the front, as long as one of them is there.\<close>

fun strip_fuel :: "nat \<Rightarrow> string list \<Rightarrow> string \<Rightarrow> string" where
  "strip_fuel 0 ws s = s"
| "strip_fuel (Suc n) ws s =
     (case find (has_prefix s) ws of
        None \<Rightarrow> s
      | Some w \<Rightarrow> strip_fuel n ws (drop (length w) s))"

definition trim_left :: "string \<Rightarrow> string" where
  "trim_left s = strip_fuel (length s) space_encodings s"

definition trim_right :: "string \<Rightarrow> string" where
  "trim_right s = rev (strip_fuel (length s) (map rev space_encodings) (rev s))"

definition trim_space :: "string \<Rightarrow> string" where
  "trim_space s = trim_right (trim_left s)"

lemma strip_fuel_suffix: "\<exists>p. s = p @ strip_fuel n ws s"
proof (induction n arbitrary: s)
  case 0
  then show ?case by simp
next
  case (Suc n)
  show ?case
  proof (cases "find (has_prefix s) ws")
    case None
    then show ?thesis by simp
  next
    case (Some w)
    obtain p where "drop (length w) s = p @ strip_fuel n ws (drop (length w) s)"
      using Suc by blast
    then have "s = (take (length w) s @ p) @ strip_fuel n ws (drop (length w) s)"
      by (metis append.assoc append_take_drop_id)
    then show ?thesis using Some by (auto intro: exI [of _ "take (length w) s @ p"])
  qed
qed

text \<open>The fuel \<open>length s\<close> is enough: what is left starts with none of the encodings.\<close>

lemma strip_fuel_done:
  assumes "[] \<notin> set ws" and "length s \<le> n"
  shows "find (has_prefix (strip_fuel n ws s)) ws = None"
  using assms(2)
proof (induction n arbitrary: s)
  case 0
  have "\<not> has_prefix [] w" if "w \<in> set ws" for w
    using that assms(1) by (auto simp: has_prefix_iff)
  with 0 show ?case by (auto simp: find_None_iff)
next
  case (Suc n)
  show ?case
  proof (cases "find (has_prefix s) ws")
    case None
    then show ?thesis by simp
  next
    case (Some w)
    then have w: "w \<in> set ws" "has_prefix s w" by (auto simp: find_Some_iff)
    with assms(1) have "0 < length w" by auto
    moreover from w(2) have "length w \<le> length s" by (auto simp: has_prefix_iff)
    ultimately have "length (drop (length w) s) \<le> n" using Suc.prems by (simp only: length_drop)
    with Some show ?thesis by (simp add: Suc.IH)
  qed
qed

lemma strip_fuel_stable:
  "find (has_prefix s) ws = None \<Longrightarrow> strip_fuel n ws s = s"
  by (cases n) auto

lemma trim_space_Nil [simp]: "trim_space [] = []"
  by (simp add: trim_space_def trim_left_def trim_right_def)

section \<open>UTF-8\<close>

definition byte_val :: "char \<Rightarrow> nat" where
  "byte_val c = of_char c"

definition cont :: "nat \<Rightarrow> nat \<Rightarrow> char \<Rightarrow> bool" where
  "cont lo hi c \<longleftrightarrow> lo \<le> byte_val c \<and> byte_val c \<le> hi"

definition rune_error :: nat where
  "rune_error = 0xFFFD"

text \<open>\<open>utf8.DecodeRune\<close>: the first rune and its width; an invalid byte is \<open>(RuneError, 1)\<close>.\<close>

fun decode_rune :: "string \<Rightarrow> nat \<times> nat" where
  "decode_rune [] = (rune_error, 0)"
| "decode_rune (c0 # cs) =
     (let b0 = byte_val c0 in
      if b0 < 0x80 then (b0, 1)
      else if b0 < 0xC2 then (rune_error, 1)
      else if b0 < 0xE0 then
        (case cs of c1 # _ \<Rightarrow>
            if cont 0x80 0xBF c1 then ((b0 - 0xC0) * 64 + (byte_val c1 - 0x80), 2)
            else (rune_error, 1)
          | _ \<Rightarrow> (rune_error, 1))
      else if b0 < 0xF0 then
        (case cs of c1 # c2 # _ \<Rightarrow>
            if cont (if b0 = 0xE0 then 0xA0 else 0x80) (if b0 = 0xED then 0x9F else 0xBF) c1
               \<and> cont 0x80 0xBF c2
            then ((b0 - 0xE0) * 4096 + (byte_val c1 - 0x80) * 64 + (byte_val c2 - 0x80), 3)
            else (rune_error, 1)
          | _ \<Rightarrow> (rune_error, 1))
      else if b0 < 0xF5 then
        (case cs of c1 # c2 # c3 # _ \<Rightarrow>
            if cont (if b0 = 0xF0 then 0x90 else 0x80) (if b0 = 0xF4 then 0x8F else 0xBF) c1
               \<and> cont 0x80 0xBF c2 \<and> cont 0x80 0xBF c3
            then ((b0 - 0xF0) * 262144 + (byte_val c1 - 0x80) * 4096
                  + (byte_val c2 - 0x80) * 64 + (byte_val c3 - 0x80), 4)
            else (rune_error, 1)
          | _ \<Rightarrow> (rune_error, 1))
      else (rune_error, 1))"

declare decode_rune.simps [simp del]

lemma decode_rune_width_pos: "0 < snd (decode_rune (c # cs))"
  by (simp add: decode_rune.simps Let_def split: list.splits)

lemma decode_rune_ascii:
  "byte_val c < 0x80 \<Longrightarrow> decode_rune (c # cs) = (byte_val c, 1)"
  by (simp add: decode_rune.simps)

text \<open>The rune list of a string (\<open>[]rune(s)\<close>) with the bytes each rune came from.\<close>

function rune_parts :: "string \<Rightarrow> (nat \<times> string) list" where
  "rune_parts [] = []"
| "rune_parts (c # cs) =
     (let (r, w) = decode_rune (c # cs)
      in (r, take w (c # cs)) # rune_parts (drop w (c # cs)))"
  by pat_completeness auto
termination
proof (relation "measure length")
  show "wf (measure length)" by simp
next
  fix c cs x xa y
  assume "x = decode_rune (c # cs)" and "(xa, y) = x"
  then have "0 < y" using decode_rune_width_pos [of c cs] by (metis snd_conv)
  then show "(drop y (c # cs), c # cs) \<in> measure length" by simp
qed

declare rune_parts.simps(2) [simp del]

definition runes :: "string \<Rightarrow> nat list" where
  "runes s = map fst (rune_parts s)"

text \<open>\<open>utf8.AppendRune\<close>: surrogates and values out of range encode as RuneError.\<close>

definition byte_of :: "nat \<Rightarrow> char" where
  "byte_of n = char_of n"

definition valid_rune :: "nat \<Rightarrow> bool" where
  "valid_rune r \<longleftrightarrow> r < 0xD800 \<or> (0xDFFF < r \<and> r \<le> 0x10FFFF)"

definition encode_rune :: "nat \<Rightarrow> string" where
  "encode_rune r0 =
     (let r = (if valid_rune r0 then r0 else rune_error) in
      if r < 0x80 then [byte_of r]
      else if r < 0x800 then [byte_of (0xC0 + r div 64), byte_of (0x80 + r mod 64)]
      else if r < 0x10000 then
        [byte_of (0xE0 + r div 4096), byte_of (0x80 + r div 64 mod 64), byte_of (0x80 + r mod 64)]
      else
        [byte_of (0xF0 + r div 262144), byte_of (0x80 + r div 4096 mod 64),
         byte_of (0x80 + r div 64 mod 64), byte_of (0x80 + r mod 64)])"

definition string_of_runes :: "nat list \<Rightarrow> string" where
  "string_of_runes rs = concat (map encode_rune rs)"

text \<open>\<open>utf8.Valid\<close>.\<close>

definition valid_utf8 :: "string \<Rightarrow> bool" where
  "valid_utf8 s \<longleftrightarrow> list_all (\<lambda>(r, bs). \<not> (r = rune_error \<and> length bs = 1)) (rune_parts s)"

text \<open>\<open>utf8.RuneStart\<close>.\<close>

definition rune_start :: "char \<Rightarrow> bool" where
  "rune_start c \<longleftrightarrow> \<not> (0x80 \<le> byte_val c \<and> byte_val c < 0xC0)"

section \<open>Decimal numbers\<close>

definition digit_char :: "nat \<Rightarrow> char" where
  "digit_char d = char_of (48 + d)"

fun format_uint :: "nat \<Rightarrow> string" where
  "format_uint n = (if n < 10 then [digit_char n] else format_uint (n div 10) @ [digit_char (n mod 10)])"

declare format_uint.simps [simp del]

definition format_int :: "int \<Rightarrow> string" where
  "format_int i = (if i < 0 then ''-'' @ format_uint (nat (- i)) else format_uint (nat i))"

definition is_digit :: "char \<Rightarrow> bool" where
  "is_digit c \<longleftrightarrow> 48 \<le> byte_val c \<and> byte_val c \<le> 57"

definition digits_val :: "string \<Rightarrow> nat" where
  "digits_val s = foldl (\<lambda>n c. 10 * n + (byte_val c - 48)) 0 s"

text \<open>\<open>strconv.ParseUint(s, 10, 32)\<close>; \<^const>\<open>None\<close> is either of its two errors.\<close>

definition parse_uint32 :: "string \<Rightarrow> nat option" where
  "parse_uint32 s =
     (if s \<noteq> [] \<and> list_all is_digit s \<and> digits_val s < 2 ^ 32 then Some (digits_val s) else None)"

lemma byte_val_digit_char: "d < 10 \<Longrightarrow> byte_val (digit_char d) = 48 + d"
  by (simp add: byte_val_def digit_char_def)

lemma is_digit_digit_char: "d < 10 \<Longrightarrow> is_digit (digit_char d)"
  by (simp add: is_digit_def byte_val_digit_char)

lemma format_uint_digits: "list_all is_digit (format_uint n)"
proof (induction n rule: format_uint.induct)
  case (1 n)
  then show ?case
    by (subst format_uint.simps) (auto simp: is_digit_digit_char)
qed

lemma format_uint_nonempty [simp]: "format_uint n \<noteq> []"
  by (subst format_uint.simps) simp

lemma digits_val_format_uint [go_std]: "digits_val (format_uint n) = n"
proof (induction n rule: format_uint.induct)
  case (1 n)
  show ?case
  proof (cases "n < 10")
    case True
    then show ?thesis
      by (subst format_uint.simps) (simp add: digits_val_def byte_val_digit_char)
  next
    case False
    then have "digits_val (format_uint (n div 10)) = n div 10" using 1 by simp
    with False show ?thesis
      by (subst format_uint.simps) (simp add: digits_val_def byte_val_digit_char)
  qed
qed

lemma parse_format_uint [go_std]: "n < 2 ^ 32 \<Longrightarrow> parse_uint32 (format_uint n) = Some n"
  by (simp add: parse_uint32_def format_uint_digits digits_val_format_uint)

lemma parse_uint32_bound: "parse_uint32 s = Some n \<Longrightarrow> n < 2 ^ 32"
  by (auto simp: parse_uint32_def split: if_splits)

lemma format_uint_inj [go_std]: "format_uint m = format_uint n \<longleftrightarrow> m = n"
  by (metis digits_val_format_uint)

section \<open>\<open>strconv.Quote\<close>\<close>

definition hex_digit :: "nat \<Rightarrow> char" where
  "hex_digit n = (if n < 10 then char_of (48 + n) else char_of (87 + n))"

text \<open>The \<open>k\<close> low hexadecimal digits of \<open>n\<close>.\<close>

fun hex_digits :: "nat \<Rightarrow> nat \<Rightarrow> string" where
  "hex_digits 0 n = []"
| "hex_digits (Suc k) n = hex_digits k (n div 16) @ [hex_digit (n mod 16)]"

definition is_print :: "(nat \<Rightarrow> bool) \<Rightarrow> nat \<Rightarrow> bool" where
  "is_print tbl r =
     (if r \<le> 0xFF then (0x20 \<le> r \<and> r < 0x7F) \<or> (0xA1 \<le> r \<and> r \<noteq> 0xAD) else tbl r)"

definition backslash :: char where
  "backslash = CHR 0x5C"

definition escape_rune :: "(nat \<Rightarrow> bool) \<Rightarrow> nat \<Rightarrow> string" where
  "escape_rune tbl r =
     (if r = 0x22 \<or> r = 0x5C then [backslash, byte_of r]
      else if is_print tbl r then encode_rune r
      else if r = 7 then [backslash, CHR 0x61]
      else if r = 8 then [backslash, CHR 0x62]
      else if r = 12 then [backslash, CHR 0x66]
      else if r = 10 then [backslash, CHR 0x6E]
      else if r = 13 then [backslash, CHR 0x72]
      else if r = 9 then [backslash, CHR 0x74]
      else if r = 11 then [backslash, CHR 0x76]
      else if r < 0x20 \<or> r = 0x7F then backslash # CHR 0x78 # hex_digits 2 r
      else if \<not> valid_rune r then backslash # CHR 0x75 # hex_digits 4 rune_error
      else if r < 0x10000 then backslash # CHR 0x75 # hex_digits 4 r
      else backslash # CHR 0x55 # hex_digits 8 r)"

definition quote_part :: "(nat \<Rightarrow> bool) \<Rightarrow> nat \<times> string \<Rightarrow> string" where
  "quote_part tbl rb =
     (case rb of (r, bs) \<Rightarrow>
        if length bs = 1 \<and> r = rune_error
        then backslash # CHR 0x78 # hex_digits 2 (byte_val (hd bs))
        else escape_rune tbl r)"

definition quote :: "(nat \<Rightarrow> bool) \<Rightarrow> string \<Rightarrow> string" where
  "quote tbl s = CHR 0x22 # concat (map (quote_part tbl) (rune_parts s)) @ [CHR 0x22]"

subsection \<open>A quoted string is one line\<close>

lemma byte_val_char_of [simp]:
  fixes n :: nat
  shows "byte_val (char_of n) = n mod 256"
  by (simp add: byte_val_def)

lemma char_ne_by_val: "byte_val c \<noteq> byte_val d \<Longrightarrow> c \<noteq> d"
  by auto

lemma newline_val [simp]: "byte_val (CHR 0x0A) = 10"
  by (simp add: byte_val_def)

lemma byte_val_inj: "byte_val c = byte_val d \<Longrightarrow> c = d"
  unfolding byte_val_def by (simp add: of_char_eq_iff)

lemma newline_eq_char_of:
  fixes n :: nat
  shows "(CHR 0x0A = char_of n) = (n mod 256 = 10)"
proof -
  have "(CHR 0x0A = char_of n) = (byte_val (CHR 0x0A) = byte_val (char_of n))"
    by (rule iffI, erule arg_cong, erule byte_val_inj)
  also have "\<dots> = (n mod 256 = 10)" unfolding newline_val byte_val_char_of by (rule eq_commute)
  finally show ?thesis .
qed

lemma hex_digits_not_newline: "CHR 0x0A \<notin> set (hex_digits k n)"
proof (induction k arbitrary: n)
  case 0
  then show ?case by simp
next
  case (Suc k)
  have "byte_val (hex_digit (n mod 16)) \<noteq> 10"
    by (auto simp: hex_digit_def)
  then have "hex_digit (n mod 16) \<noteq> CHR 0x0A" by (rule_tac char_ne_by_val) simp
  with Suc show ?case by auto
qed

lemma newline_ne_byte_of:
  "0x80 \<le> n \<Longrightarrow> n < 256 \<Longrightarrow> CHR 0x0A \<noteq> byte_of n"
  "n < 0x80 \<Longrightarrow> n \<noteq> 10 \<Longrightarrow> CHR 0x0A \<noteq> byte_of n"
  by (simp_all add: byte_of_def newline_eq_char_of)

lemma encode_rune_not_newline:
  assumes "r \<noteq> 10"
  shows "CHR 0x0A \<notin> set (encode_rune r)"
proof -
  define q where "q = (if valid_rune r then r else rune_error)"
  have q: "q \<noteq> 10" "q \<le> 0x10FFFF"
    using assms by (auto simp: q_def rune_error_def valid_rune_def)
  have enc: "encode_rune r =
     (if q < 0x80 then [byte_of q]
      else if q < 0x800 then [byte_of (0xC0 + q div 64), byte_of (0x80 + q mod 64)]
      else if q < 0x10000 then
        [byte_of (0xE0 + q div 4096), byte_of (0x80 + q div 64 mod 64), byte_of (0x80 + q mod 64)]
      else
        [byte_of (0xF0 + q div 262144), byte_of (0x80 + q div 4096 mod 64),
         byte_of (0x80 + q div 64 mod 64), byte_of (0x80 + q mod 64)])"
    by (simp add: encode_rune_def q_def)
  have low: "CHR 0x0A \<noteq> byte_of (0x80 + m mod 64)" for m
  proof (rule newline_ne_byte_of(1))
    have "m mod 64 < 64" by simp
    then show "0x80 + m mod 64 < 256" by linarith
  qed simp
  have l2: "CHR 0x0A \<noteq> byte_of (0xC0 + q div 64)" if "q < 0x800"
    by (rule newline_ne_byte_of(1)) (use that in linarith)+
  have l3: "CHR 0x0A \<noteq> byte_of (0xE0 + q div 4096)" if "q < 0x10000"
    by (rule newline_ne_byte_of(1)) (use that in linarith)+
  have l4: "CHR 0x0A \<noteq> byte_of (0xF0 + q div 262144)"
    by (rule newline_ne_byte_of(1)) (use q(2) in linarith)+
  have l1: "CHR 0x0A \<noteq> byte_of q" if "q < 0x80"
    using that q(1) by (rule newline_ne_byte_of(2))
  show ?thesis
    unfolding enc using l1 l2 l3 l4 low by (simp only: list.set split: if_split) simp
qed

lemma quote_part_not_newline: "CHR 0x0A \<notin> set (quote_part tbl rb)"
proof -
  obtain r bs where rb: "rb = (r, bs)" by fastforce
  have "r \<noteq> 10" if "is_print tbl r" using that by (auto simp: is_print_def)
  then show ?thesis
    by (auto simp: rb quote_part_def escape_rune_def backslash_def byte_of_def newline_eq_char_of
          hex_digits_not_newline encode_rune_not_newline)
qed

lemma quote_single_line [go_std]: "CHR 0x0A \<notin> set (quote tbl s)"
  by (auto simp: quote_def quote_part_not_newline)

subsection \<open>Lower case\<close>

definition lower_byte :: "char \<Rightarrow> char" where
  "lower_byte c = (if 65 \<le> byte_val c \<and> byte_val c \<le> 90 then char_of (byte_val c + 32) else c)"

text \<open>
  \<open>strings.ToLower\<close>: bytewise on an ASCII string, otherwise by runes with the simple case
  mapping of the Unicode tables, the parameter \<open>lt\<close>, beyond ASCII.
\<close>

definition go_lower :: "(nat \<Rightarrow> nat) \<Rightarrow> string \<Rightarrow> string" where
  "go_lower lt s =
     (if list_all (\<lambda>c. byte_val c < 128) s then map lower_byte s
      else string_of_runes (map (\<lambda>r. if r < 128 then (if 65 \<le> r \<and> r \<le> 90 then r + 32 else r) else lt r) (runes s)))"

end
