(* ===== verification/Proto.thy ===== *)
theory Proto
  imports GoStd
begin

text \<open>
  The protobuf messages of \<open>proto/stipulator/v1\<close> (\<open>ir.proto\<close>, \<open>records.proto\<close>,
  \<open>manifest.proto\<close>) the modelled code reads. A message is a record, an enum a datatype
  with one more constructor for the numbers an open enum carries without a name, a oneof a
  datatype with a constructor for the unset state. A message field that is read through
  its nil-safe getters only is not optional here: the zero record stands for nil.
\<close>

section \<open>Enums\<close>

datatype clause_kind =
  CK_UNSPECIFIED | CK_BEHAVIOR | CK_INVARIANT | CK_STRUCTURAL | CK_WIRE | CK_NUM int

datatype keyword =
  KW_UNSPECIFIED | KW_MUST | KW_MUST_NOT | KW_SHOULD | KW_SHOULD_NOT | KW_MAY | KW_NUM int

datatype binding_role =
  ROLE_UNSPECIFIED | ROLE_IMPLEMENTS | ROLE_TESTS | ROLE_PROVES | ROLE_NUM int

datatype gap_excuse =
  EXCUSE_UNSPECIFIED | EXCUSE_UNCOVERED | EXCUSE_STALE | EXCUSE_BROKEN | EXCUSE_NUM int

datatype edge_kind =
  EK_UNSPECIFIED | EK_REFERENCE | EK_USES_TERM | EK_REFINES | EK_DEPENDS | EK_SUPERSEDES | EK_NUM int

datatype min_evidence =
  ME_UNSPECIFIED | ME_ANALYZER_PROOF | ME_PROPERTY | ME_WITNESS | ME_PROOF_OR_WITNESS
| ME_STATIC | ME_EXEMPT | ME_ATTESTATION | ME_NUM int

text \<open>The generated \<open>String\<close> methods: the value's name, or the number of an unnamed value.\<close>

fun clause_kind_string :: "clause_kind \<Rightarrow> string" where
  "clause_kind_string CK_UNSPECIFIED = ''CLAUSE_KIND_UNSPECIFIED''"
| "clause_kind_string CK_BEHAVIOR = ''CLAUSE_KIND_BEHAVIOR''"
| "clause_kind_string CK_INVARIANT = ''CLAUSE_KIND_INVARIANT''"
| "clause_kind_string CK_STRUCTURAL = ''CLAUSE_KIND_STRUCTURAL''"
| "clause_kind_string CK_WIRE = ''CLAUSE_KIND_WIRE''"
| "clause_kind_string (CK_NUM n) = format_int n"

fun keyword_string :: "keyword \<Rightarrow> string" where
  "keyword_string KW_UNSPECIFIED = ''KEYWORD_UNSPECIFIED''"
| "keyword_string KW_MUST = ''KEYWORD_MUST''"
| "keyword_string KW_MUST_NOT = ''KEYWORD_MUST_NOT''"
| "keyword_string KW_SHOULD = ''KEYWORD_SHOULD''"
| "keyword_string KW_SHOULD_NOT = ''KEYWORD_SHOULD_NOT''"
| "keyword_string KW_MAY = ''KEYWORD_MAY''"
| "keyword_string (KW_NUM n) = format_int n"

fun role_string :: "binding_role \<Rightarrow> string" where
  "role_string ROLE_UNSPECIFIED = ''BINDING_ROLE_UNSPECIFIED''"
| "role_string ROLE_IMPLEMENTS = ''BINDING_ROLE_IMPLEMENTS''"
| "role_string ROLE_TESTS = ''BINDING_ROLE_TESTS''"
| "role_string ROLE_PROVES = ''BINDING_ROLE_PROVES''"
| "role_string (ROLE_NUM n) = format_int n"

fun excuse_string :: "gap_excuse \<Rightarrow> string" where
  "excuse_string EXCUSE_UNSPECIFIED = ''GAP_EXCUSE_UNSPECIFIED''"
| "excuse_string EXCUSE_UNCOVERED = ''GAP_EXCUSE_UNCOVERED''"
| "excuse_string EXCUSE_STALE = ''GAP_EXCUSE_STALE''"
| "excuse_string EXCUSE_BROKEN = ''GAP_EXCUSE_BROKEN''"
| "excuse_string (EXCUSE_NUM n) = format_int n"

fun edge_kind_string :: "edge_kind \<Rightarrow> string" where
  "edge_kind_string EK_UNSPECIFIED = ''EDGE_KIND_UNSPECIFIED''"
| "edge_kind_string EK_REFERENCE = ''EDGE_KIND_REFERENCE''"
| "edge_kind_string EK_USES_TERM = ''EDGE_KIND_USES_TERM''"
| "edge_kind_string EK_REFINES = ''EDGE_KIND_REFINES''"
| "edge_kind_string EK_DEPENDS = ''EDGE_KIND_DEPENDS''"
| "edge_kind_string EK_SUPERSEDES = ''EDGE_KIND_SUPERSEDES''"
| "edge_kind_string (EK_NUM n) = format_int n"

fun min_evidence_string :: "min_evidence \<Rightarrow> string" where
  "min_evidence_string ME_UNSPECIFIED = ''MINIMUM_EVIDENCE_UNSPECIFIED''"
| "min_evidence_string ME_ANALYZER_PROOF = ''MINIMUM_EVIDENCE_ANALYZER_PROOF''"
| "min_evidence_string ME_PROPERTY = ''MINIMUM_EVIDENCE_PROPERTY''"
| "min_evidence_string ME_WITNESS = ''MINIMUM_EVIDENCE_WITNESS''"
| "min_evidence_string ME_PROOF_OR_WITNESS = ''MINIMUM_EVIDENCE_PROOF_OR_WITNESS''"
| "min_evidence_string ME_STATIC = ''MINIMUM_EVIDENCE_STATIC''"
| "min_evidence_string ME_EXEMPT = ''MINIMUM_EVIDENCE_EXEMPT''"
| "min_evidence_string ME_ATTESTATION = ''MINIMUM_EVIDENCE_ATTESTATION''"
| "min_evidence_string (ME_NUM n) = format_int n"

datatype health = HEALTH_UNSPECIFIED | HEALTH_HEALTHY | HEALTH_TEST_FAILED | HEALTH_BUILD_FAILED
  | HEALTH_TIMEOUT | HEALTH_DEGRADED | HEALTH_NUM int

section \<open>The compiled corpus\<close>

record location =
  loc_document :: string
  loc_section_path :: "string list"
  loc_line :: int

record clause =
  cl_ordinal :: nat
  cl_label :: string
  cl_text :: string

record enforcement_pointer =
  ep_name :: string
  ep_start :: int
  ep_end :: int

record requirement =
  req_id :: string
  req_kind :: clause_kind
  req_keyword :: keyword
  req_text :: string
  req_content_hash :: string
  req_source :: string
  req_source_hash :: string
  req_location :: location
  req_clauses :: "clause list"
  req_pointers :: "enforcement_pointer list"

record spec_term =
  term_name :: string
  term_text :: string
  term_content_hash :: string
  term_source :: string
  term_location :: location

datatype node_ref = Ref_Unset | Ref_Requirement string | Ref_Term string

record spec_note =
  note_text :: string
  note_source :: string
  note_attached_to :: node_ref
  note_references :: "node_ref list"
  note_location :: location

record annotation =
  ann_text :: string
  ann_source :: string
  ann_references :: "node_ref list"
  ann_location :: location

record edge =
  edge_from :: node_ref
  edge_to :: node_ref
  edge_knd :: edge_kind

record doc_section =
  sec_heading :: string
  sec_level :: int
  sec_line :: int

record spec_document =
  sd_path :: string
  sd_title :: string
  sd_sections :: "doc_section list"

record spec =
  spec_requirements :: "requirement list"
  spec_terms :: "spec_term list"
  spec_notes :: "spec_note list"
  spec_annotations :: "annotation list"
  spec_edges :: "edge list"
  spec_documents :: "spec_document list"

section \<open>The committed records\<close>

datatype clause_scope = No_Clause | Clause_Ordinal nat | Clause_Label string

record binding =
  b_requirement_id :: string
  b_content_hash :: string
  b_source_hash :: string
  b_backend :: string
  b_symbol :: string
  b_role :: binding_role
  b_shape_hash :: string
  b_clause :: clause_scope

record manual_condition =
  mc_condition :: string
  mc_fired :: bool
  mc_contradicted :: bool

datatype landing_condition =
  LC_Unset | LC_Covered string | LC_Exists string | LC_Manual manual_condition

record gap =
  g_requirement_id :: string
  g_reason :: string
  g_lands :: "landing_condition option"
  g_excuses :: "gap_excuse list"
  g_content_hash :: string
  g_source_hash :: string

record attestation =
  a_requirement_id :: string
  a_content_hash :: string
  a_source_hash :: string
  a_reason :: string

record policy_override =
  po_kind :: clause_kind
  po_keyword :: keyword
  po_minimum :: min_evidence

record manifest =
  mf_policy :: "policy_override list"
  mf_allow_whole_clause_claims :: bool

text \<open>The getters of the landing condition's oneof, as the generated code has them.\<close>

fun lc_covered :: "landing_condition option \<Rightarrow> string" where
  "lc_covered (Some (LC_Covered s)) = s"
| "lc_covered _ = []"

fun lc_exists :: "landing_condition option \<Rightarrow> string" where
  "lc_exists (Some (LC_Exists s)) = s"
| "lc_exists _ = []"

fun lc_manual :: "landing_condition option \<Rightarrow> manual_condition option" where
  "lc_manual (Some (LC_Manual m)) = Some m"
| "lc_manual _ = None"

fun lc_fired :: "landing_condition option \<Rightarrow> bool" where
  "lc_fired (Some (LC_Manual m)) = mc_fired m"
| "lc_fired _ = False"

fun lc_contradicted :: "landing_condition option \<Rightarrow> bool" where
  "lc_contradicted (Some (LC_Manual m)) = mc_contradicted m"
| "lc_contradicted _ = False"

fun lc_has_manual :: "landing_condition option \<Rightarrow> bool" where
  "lc_has_manual (Some (LC_Manual m)) = True"
| "lc_has_manual _ = False"

text \<open>A role that carries a test outcome (the constructor test several files share).\<close>

definition tests_or_proves :: "binding_role \<Rightarrow> bool" where
  "tests_or_proves role \<longleftrightarrow> role = ROLE_TESTS \<or> role = ROLE_PROVES"

end
