(* ===== verification/Remedy.thy ===== *)
theory Remedy
  imports Proto
begin

text \<open>
  The remedy composers of \<open>internal/remedy/remedy.go\<close>: the command lines every finding
  names its repair with. One definition per exported composer, over the same verb and
  flag names; \<open>compose\<close> joins with one space, as the code does.
\<close>

definition flag :: "string \<Rightarrow> string" where
  "flag name = ''--'' @ name"

definition compose :: "string list \<Rightarrow> string" where
  "compose parts = join parts '' ''"

definition remedy_pin :: "string list \<Rightarrow> string" where
  "remedy_pin ids =
     compose ([''stipulator'', ''pin''] @ concat (map (\<lambda>rid. [flag ''req'', rid]) ids))"

definition remedy_unbind :: "string \<Rightarrow> string \<Rightarrow> string \<Rightarrow> string" where
  "remedy_unbind req symbol clause =
     compose ([''stipulator'', ''unbind'', flag ''req'', req]
       @ (if symbol \<noteq> [] then [flag ''symbol'', symbol] else [])
       @ (if clause \<noteq> [] then [flag ''clause'', clause] else []))"

definition remedy_bind :: "string \<Rightarrow> string \<Rightarrow> string \<Rightarrow> string" where
  "remedy_bind req role symbol =
     compose [''stipulator'', ''bind'', flag ''req'', req, flag ''role'', role, flag ''symbol'', symbol]"

definition remedy_retire :: "string \<Rightarrow> string" where
  "remedy_retire rid = compose [''stipulator'', ''dispose'', ''retire'', flag ''id'', rid]"

definition remedy_supersede :: "string list \<Rightarrow> string list \<Rightarrow> bool \<Rightarrow> string" where
  "remedy_supersede from into force =
     compose ([''stipulator'', ''dispose'', ''supersede'', flag ''from'', join from '','',
               flag ''into'', join into '','']
       @ (if force then [flag ''force''] else []))"

definition remedy_attest_requirement :: "string \<Rightarrow> string" where
  "remedy_attest_requirement req = compose [''stipulator'', ''attest'', ''requirement'', flag ''req'', req]"

definition remedy_attest_retract :: "string \<Rightarrow> string" where
  "remedy_attest_retract req = compose [remedy_attest_requirement req, flag ''retract'']"

definition remedy_gap_retract :: "string \<Rightarrow> string" where
  "remedy_gap_retract req = compose [''stipulator'', ''gap'', flag ''req'', req, flag ''retract'']"

definition remedy_prune :: "bool \<Rightarrow> string" where
  "remedy_prune dangling =
     (if dangling then compose [''stipulator'', ''prune'', flag ''dangling'']
      else compose [''stipulator'', ''prune''])"

definition remedy_retarget :: string where
  "remedy_retarget = compose [''stipulator'', ''retarget'']"

definition remedy_compile :: string where
  "remedy_compile = compose [''stipulator'', ''compile'']"

definition remedy_init :: string where
  "remedy_init = compose [''stipulator'', ''init'']"

definition remedy_verify :: string where
  "remedy_verify = compose [''stipulator'', ''verify'']"

definition remedy_policy_init :: string where
  "remedy_policy_init = compose [''stipulator'', ''policy'', ''init'']"

text \<open>Every composition starts with the tool's name.\<close>

lemma compose_tool: "has_prefix (compose (''stipulator'' # ps)) ''stipulator''"
  by (cases ps) (simp_all add: compose_def has_prefix_iff)

end
