(* ===== verification/Records.thy ===== *)
theory Records
  imports Remedy
begin

text \<open>
  The record store and the claims in it: \<open>internal/records/records.go\<close> (the store,
  SymbolMember, BoundSymbols), \<open>internal/records/clause.go\<close> (clause scopes and the
  identity of a claim), \<open>internal/records/consent.go\<close> (the consent surface and the
  judgment of a record's pins), and the label and identifier grammars of
  \<open>internal/profile/transform.go\<close> they use.
\<close>

section \<open>The store\<close>

record binding_file =
  bf_path :: string
  bf_raw :: string
  bf_set :: "binding list"

record gap_file =
  gf_path :: string
  gf_raw :: string
  gf_gap :: gap

record attestation_file =
  af_path :: string
  af_raw :: string
  af_set :: "attestation list"

record store =
  st_bindings :: "binding_file list"
  st_gaps :: "gap_file list"
  st_attestations :: "attestation_file list"
  st_tombstones :: "string list"
  st_tombstones_raw :: "string option"
  st_allow_whole :: bool

text \<open>The nested loop over files and their bindings, as the flat list it visits.\<close>

definition store_bindings :: "store \<Rightarrow> binding list" where
  "store_bindings st = concat (map bf_set (st_bindings st))"

definition symbol_member :: "string \<Rightarrow> string" where
  "symbol_member symbol = after_last (CHR ''.'') symbol"

definition bound_symbols :: "store \<Rightarrow> string \<Rightarrow> string list" where
  "bound_symbols st backend =
     sort (rev (fold (\<lambda>b out.
       if b_backend b \<noteq> backend \<or> b_symbol b = [] \<or> b_symbol b \<in> set out then out
       else b_symbol b # out) (store_bindings st) []))"

section \<open>The identifier and label grammars\<close>

definition lower_alnum :: "char \<Rightarrow> bool" where
  "lower_alnum c \<longleftrightarrow> (97 \<le> byte_val c \<and> byte_val c \<le> 122) \<or> is_digit c"

definition lower_alpha :: "char \<Rightarrow> bool" where
  "lower_alpha c \<longleftrightarrow> 97 \<le> byte_val c \<and> byte_val c \<le> 122"

definition alnum_run :: "string \<Rightarrow> bool" where
  "alnum_run p \<longleftrightarrow> p \<noteq> [] \<and> list_all lower_alnum p"

text \<open>\<open>REQ(-[a-z0-9]+)+\<close>, anchored.\<close>

definition valid_id :: "string \<Rightarrow> bool" where
  "valid_id s =
     (case split_on (CHR ''-'') s of
        p # q # ps \<Rightarrow> p = ''REQ'' \<and> list_all alnum_run (q # ps)
      | _ \<Rightarrow> False)"

text \<open>\<open>[a-z][a-z0-9]*(-[a-z0-9]+)*\<close>, anchored.\<close>

definition valid_clause_label :: "string \<Rightarrow> bool" where
  "valid_clause_label s =
     (case split_on (CHR ''-'') s of
        (c # cs) # ps \<Rightarrow> lower_alpha c \<and> list_all lower_alnum cs \<and> list_all alnum_run ps
      | _ \<Rightarrow> False)"

section \<open>Clause scopes\<close>

definition set_clause :: "(nat \<Rightarrow> bool) \<Rightarrow> binding \<Rightarrow> string \<Rightarrow> string + binding" where
  "set_clause tbl b text0 =
     (let text = trim_space text0 in
      if text = [] then Inr (b\<lparr>b_clause := No_Clause\<rparr>)
      else case parse_uint32 text of
        Some n \<Rightarrow>
          if n = 0 then Inl ''clause ordinal 0: clauses count from 1''
          else Inr (b\<lparr>b_clause := Clause_Ordinal n\<rparr>)
      | None \<Rightarrow>
          if \<not> valid_clause_label text
          then Inl (''clause '' @ quote tbl text @ '' is neither an ordinal nor a label ([a-z][a-z0-9]*(-[a-z0-9]+)*)'')
          else Inr (b\<lparr>b_clause := Clause_Label text\<rparr>))"

definition clause_key :: "binding \<Rightarrow> string" where
  "clause_key b =
     (case b_clause b of
        Clause_Ordinal n \<Rightarrow> ''#'' @ format_uint n
      | Clause_Label l \<Rightarrow> ''`'' @ l @ ''`''
      | No_Clause \<Rightarrow> [])"

definition clause_spelling :: "binding \<Rightarrow> string" where
  "clause_spelling b =
     (case b_clause b of
        Clause_Ordinal n \<Rightarrow> format_uint n
      | Clause_Label l \<Rightarrow> l
      | No_Clause \<Rightarrow> [])"

definition clause_name :: "binding \<Rightarrow> string" where
  "clause_name b =
     (case b_clause b of
        Clause_Ordinal n \<Rightarrow> ''clause '' @ format_uint n
      | Clause_Label l \<Rightarrow> ''clause `'' @ l @ ''`''
      | No_Clause \<Rightarrow> [])"

text \<open>A nil requirement has no clauses.\<close>

definition req_clauses_of :: "requirement option \<Rightarrow> clause list" where
  "req_clauses_of req = (case req of None \<Rightarrow> [] | Some r \<Rightarrow> req_clauses r)"

text \<open>
  The pair \<open>(clause, ok)\<close> of ResolveClause: \<^const>\<open>None\<close> is \<open>ok = false\<close>,
  \<^term>\<open>Some None\<close> an unscoped claim.
\<close>

definition resolve_clause :: "requirement option \<Rightarrow> binding \<Rightarrow> clause option option" where
  "resolve_clause req b =
     (case b_clause b of
        Clause_Ordinal n \<Rightarrow>
          (case find (\<lambda>c. cl_ordinal c = n) (req_clauses_of req) of
             Some c \<Rightarrow> Some (Some c) | None \<Rightarrow> None)
      | Clause_Label l \<Rightarrow>
          if trim_space l = [] then None
          else (case find (\<lambda>c. cl_label c = l) (req_clauses_of req) of
             Some c \<Rightarrow> Some (Some c) | None \<Rightarrow> None)
      | No_Clause \<Rightarrow> Some None)"

definition claim_clause_key :: "requirement option \<Rightarrow> binding \<Rightarrow> string" where
  "claim_clause_key req b =
     (case resolve_clause req b of
        Some None \<Rightarrow> []
      | Some (Some c) \<Rightarrow> ''#'' @ format_uint (cl_ordinal c)
      | None \<Rightarrow> clause_key b)"

definition claim_identity_at :: "requirement option \<Rightarrow> binding \<Rightarrow> string \<Rightarrow> string" where
  "claim_identity_at req b symbol =
     b_requirement_id b @ ''|'' @ b_backend b @ ''|'' @ symbol @ ''|'' @ role_string (b_role b)
       @ ''|'' @ claim_clause_key req b"

definition claim_identity :: "requirement option \<Rightarrow> binding \<Rightarrow> string" where
  "claim_identity req b = claim_identity_at req b (b_symbol b)"

definition requires_clause_scope :: "requirement option \<Rightarrow> binding_role \<Rightarrow> bool \<Rightarrow> bool" where
  "requires_clause_scope req role allow_whole =
     (if allow_whole \<or> req_clauses_of req = [] then False else tests_or_proves role)"

definition clause_head :: "clause \<Rightarrow> string" where
  "clause_head c =
     ''clause '' @ format_uint (cl_ordinal c)
       @ (if cl_label c \<noteq> [] then '' `'' @ cl_label c @ ''`'' else [])"

definition text_prefix :: "string \<Rightarrow> nat \<Rightarrow> string" where
  "text_prefix s n =
     (let r = runes s in if length r \<le> n then s else string_of_runes (take n r) @ ellipsis)"

definition clause_heading :: "clause \<Rightarrow> string" where
  "clause_heading c = clause_head c @ '' ('' @ text_prefix (cl_text c) 60 @ '')''"

definition clause_suffix :: "requirement option \<Rightarrow> binding \<Rightarrow> string" where
  "clause_suffix req b =
     (case resolve_clause req b of
        Some (Some c) \<Rightarrow> '' '' @ clause_heading c
      | _ \<Rightarrow> (if clause_name b \<noteq> [] then '' '' @ clause_name b else []))"

definition clauses_offered :: "requirement option \<Rightarrow> string" where
  "clauses_offered req =
     (if req_clauses_of req = []
      then ''the requirement has no payload list, so it takes only whole-requirement claims''
      else ''its clauses are '' @ join (map clause_heading (req_clauses_of req)) ''; '')"

section \<open>The consent surface\<close>

record hashes =
  h_content :: "string \<rightharpoonup> string"
  h_source :: "string \<rightharpoonup> string"

definition hashes_of :: "spec \<Rightarrow> hashes" where
  "hashes_of sp =
     fold (\<lambda>r h. h\<lparr>h_content := (h_content h)(req_id r \<mapsto> req_content_hash r),
                   h_source := (h_source h)(req_id r \<mapsto> req_source_hash r)\<rparr>)
       (spec_requirements sp) \<lparr>h_content = Map.empty, h_source = Map.empty\<rparr>"

definition by_id :: "spec \<Rightarrow> string \<rightharpoonup> requirement" where
  "by_id sp = fold (\<lambda>r m. m(req_id r \<mapsto> r)) (spec_requirements sp) Map.empty"

definition known :: "hashes \<Rightarrow> string \<Rightarrow> bool" where
  "known h rid \<longleftrightarrow> h_content h rid \<noteq> None"

datatype consent = Consent_Stale | Consent_Current | Consent_Rehash

definition consent_holds :: "consent \<Rightarrow> bool" where
  "consent_holds c \<longleftrightarrow> c \<noteq> Consent_Stale"

definition judge_consent :: "string \<Rightarrow> string \<Rightarrow> string \<Rightarrow> string \<Rightarrow> consent" where
  "judge_consent content_pin source_pin content_hash source_hash =
     (if content_pin = [] then Consent_Stale
      else if content_pin = content_hash then Consent_Current
      else if source_pin \<noteq> [] \<and> source_pin = source_hash then Consent_Rehash
      else Consent_Stale)"

text \<open>Reading a missing key of a string map gives the empty string.\<close>

definition map_get :: "(string \<rightharpoonup> string) \<Rightarrow> string \<Rightarrow> string" where
  "map_get m k = (case m k of None \<Rightarrow> [] | Some v \<Rightarrow> v)"

definition judge :: "hashes \<Rightarrow> string \<Rightarrow> string \<Rightarrow> string \<Rightarrow> consent" where
  "judge h rid content_pin source_pin =
     judge_consent content_pin source_pin (map_get (h_content h) rid) (map_get (h_source h) rid)"

section \<open>Facts on strings the grammars accept\<close>

text \<open>Printable ASCII bytes: none of them starts or ends the encoding of a space.\<close>

definition plain_char :: "char \<Rightarrow> bool" where
  "plain_char c \<longleftrightarrow> 32 < byte_val c \<and> byte_val c < 128"

lemma space_encodings_facts:
  "[] \<notin> set space_encodings"
  "w \<in> set space_encodings \<Longrightarrow> \<not> plain_char (hd w)"
  "w \<in> set space_encodings \<Longrightarrow> \<not> plain_char (last w)"
  by (auto simp: space_encodings_def plain_char_def byte_val_def)

lemma has_prefix_head: "has_prefix s w \<Longrightarrow> w \<noteq> [] \<Longrightarrow> s \<noteq> [] \<and> hd w = hd s"
  by (auto simp: has_prefix_iff hd_append)

lemma trim_left_plain:
  assumes "plain_char c"
  shows "trim_left (c # cs) = c # cs"
proof -
  have "\<not> has_prefix (c # cs) w" if "w \<in> set space_encodings" for w
    using that assms has_prefix_head [of "c # cs" w] space_encodings_facts(1) space_encodings_facts(2) [of w]
    by (cases "w = []") auto
  then have "find (has_prefix (c # cs)) space_encodings = None"
    by (simp add: find_None_iff)
  then show ?thesis by (simp add: trim_left_def strip_fuel_stable)
qed

lemma trim_right_plain:
  assumes "plain_char c"
  shows "trim_right (cs @ [c]) = cs @ [c]"
proof -
  have "\<not> has_prefix (c # rev cs) (rev w)" if "w \<in> set space_encodings" for w
  proof
    assume "has_prefix (c # rev cs) (rev w)"
    moreover have "w \<noteq> []" using that space_encodings_facts(1) by metis
    ultimately have "last w = c" using has_prefix_head by (fastforce simp: hd_rev)
    with that assms space_encodings_facts(3) show False by blast
  qed
  then have "find (has_prefix (c # rev cs)) (map rev space_encodings) = None"
    by (auto simp: find_None_iff)
  then show ?thesis by (simp add: trim_right_def strip_fuel_stable)
qed

lemma trim_right_prefix: "\<exists>q. s = trim_right s @ q"
proof -
  obtain p where "rev s = p @ strip_fuel (length s) (map rev space_encodings) (rev s)"
    using strip_fuel_suffix by blast
  then have "s = rev (strip_fuel (length s) (map rev space_encodings) (rev s)) @ rev p"
    by (metis rev_append rev_rev_ident)
  then show ?thesis by (auto simp: trim_right_def)
qed

lemma trim_space_plain [go_std]:
  assumes "list_all plain_char s"
  shows "trim_space s = s"
proof (cases s rule: rev_cases)
  case Nil
  then show ?thesis by simp
next
  case (snoc ys y)
  obtain c cs where s: "s = c # cs" using snoc by (metis append_is_Nil_conv neq_Nil_conv not_Cons_self2)
  then have "trim_left s = s" using assms by (simp add: trim_left_plain)
  with snoc assms show ?thesis by (simp add: trim_space_def trim_right_plain)
qed

lemma plain_digits: "list_all is_digit s \<Longrightarrow> list_all plain_char s"
  by (auto simp: list_all_iff is_digit_def plain_char_def)

lemma lower_alnum_plain: "lower_alnum c \<Longrightarrow> plain_char c"
  by (auto simp: lower_alnum_def is_digit_def plain_char_def)

lemma list_all_join:
  assumes "\<forall>p\<in>set ps. list_all P p" and "list_all P sep"
  shows "list_all P (join ps sep)"
  using assms by (induction ps sep rule: join.induct) auto

lemma valid_label_shape:
  assumes "valid_clause_label s"
  obtains c cs where "s = c # cs" "lower_alpha c" "list_all plain_char s"
proof -
  obtain c cs ps where sp: "split_on (CHR ''-'') s = (c # cs) # ps"
      and lab: "lower_alpha c" "list_all lower_alnum cs" "list_all alnum_run ps"
    using assms by (auto simp: valid_clause_label_def split: list.splits)
  have s: "s = join ((c # cs) # ps) [CHR ''-'']"
    using join_split_on [of "CHR ''-''" s] sp by simp
  have cp: "plain_char c" using lab(1) by (auto simp: lower_alpha_def plain_char_def)
  have "list_all plain_char p" if "p \<in> set ((c # cs) # ps)" for p
    using that lab cp by (auto simp: list_all_iff alnum_run_def lower_alnum_plain)
  moreover have "plain_char (CHR ''-'')" by (simp add: plain_char_def byte_val_def)
  ultimately have "list_all plain_char s" unfolding s by (auto intro!: list_all_join)
  moreover have "\<exists>cs'. s = c # cs'" unfolding s by (cases ps) auto
  ultimately show thesis using that lab(1) by blast
qed

lemma valid_label_not_number: "valid_clause_label s \<Longrightarrow> parse_uint32 s = None"
  by (erule valid_label_shape) (auto simp: parse_uint32_def is_digit_def lower_alpha_def)

section \<open>Writing and reading a clause scope\<close>

text \<open>The scopes a binding can be given: ordinals count from 1 and fit uint32, labels are labels.\<close>

definition scope_wf :: "clause_scope \<Rightarrow> bool" where
  "scope_wf sc =
     (case sc of No_Clause \<Rightarrow> True
      | Clause_Ordinal n \<Rightarrow> 0 < n \<and> n < 2 ^ 32
      | Clause_Label l \<Rightarrow> valid_clause_label l)"

lemma set_clause_spelling_eq:
  assumes "scope_wf (b_clause b)"
  shows "set_clause tbl b (clause_spelling b) = Inr b"
proof (cases "b_clause b")
  case No_Clause
  then show ?thesis by (simp add: set_clause_def clause_spelling_def)
next
  case (Clause_Ordinal n)
  have "trim_space (format_uint n) = format_uint n"
    by (intro trim_space_plain plain_digits format_uint_digits)
  with Clause_Ordinal assms show ?thesis
    by (simp add: set_clause_def clause_spelling_def scope_wf_def parse_format_uint)
next
  case (Clause_Label l)
  with assms have v: "valid_clause_label l" by (simp add: scope_wf_def)
  then obtain c cs where l: "l = c # cs" "list_all plain_char l" by (rule valid_label_shape)
  then have "trim_space l = l" by (simp add: trim_space_plain)
  with v l(1) Clause_Label show ?thesis
    by (simp add: set_clause_def clause_spelling_def valid_label_not_number)
qed

lemma set_clause_wf_result:
  assumes "set_clause tbl b t = Inr b'"
  shows "scope_wf (b_clause b')"
  using assms
  by (auto simp: set_clause_def Let_def scope_wf_def split: if_splits option.splits
        dest: parse_uint32_bound)

lemma set_clause_frame [frame_simps]:
  assumes "set_clause tbl b t = Inr b'"
  shows "b' = b\<lparr>b_clause := b_clause b'\<rparr>"
  using assms
  by (auto simp: set_clause_def Let_def split: if_splits option.splits)

text \<open>A clause text that SetClause accepts leaves the binding with a well-formed scope
  (an ordinal from 1 that fits uint32, a label of the grammar, or none), changes nothing
  else of it, and the clause spelled back is accepted again with the same result: what
  \<open>--clause\<close> writes, ClauseSpelling reads.\<close>

theorem clause_scope_roundtrip:
  assumes "set_clause tbl b0 txt = Inr b"
  shows "scope_wf (b_clause b) \<and> b = b0\<lparr>b_clause := b_clause b\<rparr>
         \<and> set_clause tbl b (clause_spelling b) = Inr b"
  using assms set_clause_wf_result set_clause_frame set_clause_spelling_eq by blast

definition sample_binding :: binding where
  "sample_binding =
     \<lparr>b_requirement_id = ''REQ-a'', b_content_hash = ''c1'', b_source_hash = ''s1'',
      b_backend = ''go'', b_symbol = ''p.TestA'', b_role = ROLE_TESTS, b_shape_hash = ''h1'',
      b_clause = No_Clause\<rparr>"

lemma set_clause_label_accepted:
  "valid_clause_label l \<Longrightarrow> set_clause tbl b l = Inr (b\<lparr>b_clause := Clause_Label l\<rparr>)"
  using set_clause_spelling_eq [of "b\<lparr>b_clause := Clause_Label l\<rparr>" tbl]
  by (simp add: scope_wf_def clause_spelling_def set_clause_def Let_def
        split: option.splits if_splits)

lemma clause_scope_roundtrip_witness:
  "scope_wf (Clause_Label ''alpha-1'')
   \<and> set_clause (\<lambda>_. False) (sample_binding\<lparr>b_clause := Clause_Label ''alpha-1''\<rparr>) ''alpha-1''
      = Inr (sample_binding\<lparr>b_clause := Clause_Label ''alpha-1''\<rparr>)"
proof -
  have v: "valid_clause_label ''alpha-1''" by code_simp
  show ?thesis
    using clause_scope_roundtrip [OF set_clause_label_accepted [OF v, of "\<lambda>_. False" sample_binding]]
    by (simp add: clause_spelling_def)
qed

section \<open>Identity of a claim\<close>

lemma claim_key_resolved:
  "resolve_clause req b = Some (Some c) \<Longrightarrow> claim_clause_key req b = ''#'' @ format_uint (cl_ordinal c)"
  by (simp add: claim_clause_key_def)

lemma resolve_clause_in:
  "resolve_clause req b = Some (Some c) \<Longrightarrow> c \<in> set (req_clauses_of req)"
  by (auto simp: resolve_clause_def find_Some_iff split: clause_scope.splits option.splits if_splits)

lemma resolve_unscoped_iff:
  "resolve_clause req b = Some None \<longleftrightarrow> b_clause b = No_Clause"
  by (auto simp: resolve_clause_def split: clause_scope.splits option.splits)

lemma resolve_no_requirement:
  "req_clauses_of req = [] \<Longrightarrow> resolve_clause req b \<noteq> Some (Some c)"
  using resolve_clause_in by fastforce

text \<open>The clause part of a claim's identity is the resolved clause, never its spelling: two
  claims that agree on requirement, backend, symbol and role and resolve to clauses of the
  requirement have one ClaimIdentity exactly when the clauses have one ordinal, and a
  scoped claim never has the identity of the whole-requirement claim.\<close>

theorem claim_identity_by_resolved_clause:
  assumes "resolve_clause req b = Some (Some c)" and "resolve_clause req b' = Some (Some c')"
    and "b_requirement_id b = b_requirement_id b'" and "b_backend b = b_backend b'"
    and "b_symbol b = b_symbol b'" and "b_role b = b_role b'"
  shows "(claim_identity req b = claim_identity req b' \<longleftrightarrow> cl_ordinal c = cl_ordinal c')
         \<and> claim_identity req b \<noteq> claim_identity req (b'\<lparr>b_clause := No_Clause\<rparr>)"
  using assms
  by (simp add: claim_identity_def claim_identity_at_def claim_key_resolved format_uint_inj)
     (simp add: claim_clause_key_def resolve_clause_def)

definition sample_clauses :: "clause list" where
  "sample_clauses = [\<lparr>cl_ordinal = 1, cl_label = [], cl_text = ''one''\<rparr>,
                     \<lparr>cl_ordinal = 2, cl_label = ''two'', cl_text = ''the second''\<rparr>]"

definition sample_requirement :: requirement where
  "sample_requirement =
     \<lparr>req_id = ''REQ-a'', req_kind = CK_BEHAVIOR, req_keyword = KW_MUST, req_text = ''a MUST b'',
      req_content_hash = ''c1'', req_source = ''src'', req_source_hash = ''s1'',
      req_location = \<lparr>loc_document = ''d.md'', loc_section_path = [], loc_line = 3\<rparr>,
      req_clauses = sample_clauses, req_pointers = []\<rparr>"

lemma sample_resolve:
  "resolve_clause (Some sample_requirement) (sample_binding\<lparr>b_clause := Clause_Ordinal 2\<rparr>)
     = Some (Some (sample_clauses ! 1))"
  "resolve_clause (Some sample_requirement) (sample_binding\<lparr>b_clause := Clause_Label ''two''\<rparr>)
     = Some (Some (sample_clauses ! 1))"
proof -
  have t: "trim_space ''two'' = ''two''"
    by (rule trim_space_plain) (simp add: plain_char_def byte_val_def)
  show "resolve_clause (Some sample_requirement) (sample_binding\<lparr>b_clause := Clause_Ordinal 2\<rparr>)
     = Some (Some (sample_clauses ! 1))"
    by (simp add: resolve_clause_def req_clauses_of_def sample_requirement_def sample_clauses_def)
  show "resolve_clause (Some sample_requirement) (sample_binding\<lparr>b_clause := Clause_Label ''two''\<rparr>)
     = Some (Some (sample_clauses ! 1))"
    by (simp add: resolve_clause_def req_clauses_of_def sample_requirement_def sample_clauses_def t)
qed

lemma claim_identity_by_resolved_clause_witness:
  "claim_identity (Some sample_requirement) (sample_binding\<lparr>b_clause := Clause_Ordinal 2\<rparr>)
     = claim_identity (Some sample_requirement) (sample_binding\<lparr>b_clause := Clause_Label ''two''\<rparr>)"
  using claim_identity_by_resolved_clause [OF sample_resolve] by simp

section \<open>Consent\<close>

lemma consent_holds_iff:
  "consent_holds (judge_consent cp sp ch sh)
     \<longleftrightarrow> cp \<noteq> [] \<and> (cp = ch \<or> (sp \<noteq> [] \<and> sp = sh))"
  by (auto simp: judge_consent_def consent_holds_def)

lemma judge_current_iff:
  "judge h rid cp sp = Consent_Current \<longleftrightarrow> cp \<noteq> [] \<and> cp = map_get (h_content h) rid"
  by (simp add: judge_def judge_consent_def)

lemma judge_stale_iff:
  "judge h rid cp sp = Consent_Stale
     \<longleftrightarrow> cp = [] \<or> (cp \<noteq> map_get (h_content h) rid
           \<and> (sp = [] \<or> sp \<noteq> map_get (h_source h) rid))"
  by (auto simp: judge_def judge_consent_def)

lemma fold_hashes_dom:
  "dom (h_content (fold (\<lambda>r h. h\<lparr>h_content := (h_content h)(req_id r \<mapsto> req_content_hash r),
                   h_source := (h_source h)(req_id r \<mapsto> req_source_hash r)\<rparr>) rs h0))
     = dom (h_content h0) \<union> req_id ` set rs"
  by (induction rs arbitrary: h0) auto

lemma known_hashes_of [go_std]: "known (hashes_of sp) rid \<longleftrightarrow> rid \<in> req_id ` set (spec_requirements sp)"
  using fold_hashes_dom [of "spec_requirements sp" "\<lparr>h_content = Map.empty, h_source = Map.empty\<rparr>"]
  by (auto simp: known_def hashes_of_def domIff)

lemma fold_by_id_lookup:
  assumes "distinct (map req_id rs)" and "r \<in> set rs"
  shows "fold (\<lambda>r m. m(req_id r \<mapsto> r)) rs m0 (req_id r) = Some r"
  using assms
proof (induction rs arbitrary: m0)
  case Nil
  then show ?case by simp
next
  case (Cons x xs)
  have frame: "fold (\<lambda>r m. m(req_id r \<mapsto> r)) ys m k = m k" if "k \<notin> req_id ` set ys" for ys m k
    using that by (induction ys arbitrary: m) auto
  show ?case
  proof (cases "r = x")
    case True
    have "fold (\<lambda>r m. m(req_id r \<mapsto> r)) xs (m0(req_id x \<mapsto> x)) (req_id x)
            = (m0(req_id x \<mapsto> x)) (req_id x)"
      by (rule frame) (use Cons.prems(1) in auto)
    with True show ?thesis by (simp only: fold_simps comp_apply fun_upd_same)
  next
    case False
    with Cons show ?thesis by simp
  qed
qed

lemma by_id_lookup:
  "distinct (map req_id (spec_requirements sp)) \<Longrightarrow> r \<in> set (spec_requirements sp) \<Longrightarrow>
     by_id sp (req_id r) = Some r"
  by (simp add: by_id_def fold_by_id_lookup)

lemma by_id_dom: "by_id sp rid \<noteq> None \<longleftrightarrow> rid \<in> req_id ` set (spec_requirements sp)"
proof -
  have "dom (fold (\<lambda>r m. m(req_id r \<mapsto> r)) rs m) = dom m \<union> req_id ` set rs"
    for rs and m :: "string \<rightharpoonup> requirement"
    by (induction rs arbitrary: m) auto
  then have "dom (by_id sp) = req_id ` set (spec_requirements sp)"
    unfolding by_id_def by simp
  then show ?thesis by blast
qed

lemma bound_symbols_set:
  "set (bound_symbols st be) =
     {b_symbol b |b. b \<in> set (store_bindings st) \<and> b_backend b = be \<and> b_symbol b \<noteq> []}"
proof -
  have "set (fold (\<lambda>b out. if b_backend b \<noteq> be \<or> b_symbol b = [] \<or> b_symbol b \<in> set out then out
       else b_symbol b # out) bs out)
     = set out \<union> {b_symbol b |b. b \<in> set bs \<and> b_backend b = be \<and> b_symbol b \<noteq> []}" for bs out
    by (induction bs arbitrary: out) auto
  from this [of "store_bindings st" "[]"] show ?thesis
    unfolding bound_symbols_def by simp
qed

lemma bound_symbols_distinct: "distinct (bound_symbols st be)"
proof -
  have "distinct out \<Longrightarrow> distinct (fold (\<lambda>b out. if b_backend b \<noteq> be \<or> b_symbol b = []
       \<or> b_symbol b \<in> set out then out else b_symbol b # out) bs out)" for bs out
    by (induction bs arbitrary: out) auto
  from this [of "[]" "store_bindings st"] show ?thesis
    unfolding bound_symbols_def by simp
qed

end
