(* ===== verification/Author.thy ===== *)
theory Author
  imports Records
begin

text \<open>
  The machine-owned record files: rendering, the refusal to rewrite a file with commentary
  outside its leading header, and the writes of \<open>internal/records/author.go\<close> (AddBinding,
  RemoveBindings, the renderers) with \<open>commentOutsideHeader\<close>, \<open>renderBindingSet\<close> and
  \<open>writeField\<close> of \<open>internal/records/pin.go\<close>. The store is passed and returned: the code
  mutates the loaded binding sets in place.
\<close>

definition lines_of :: "string \<Rightarrow> string list" where
  "lines_of raw = split_on (CHR 0x0A) raw"

definition is_comment :: "string \<Rightarrow> bool" where
  "is_comment line = has_prefix (trim_space line) ''#''"

fun comment_scan :: "bool \<Rightarrow> nat \<Rightarrow> string list \<Rightarrow> nat" where
  "comment_scan in_header i [] = 0"
| "comment_scan in_header i (line # ls) =
     (if in_header \<and> is_comment line then comment_scan True (Suc i) ls
      else if is_comment line then i + 1
      else comment_scan False (Suc i) ls)"

definition comment_outside_header :: "string \<Rightarrow> nat" where
  "comment_outside_header raw = comment_scan True 0 (lines_of raw)"

text \<open>The leading header lines, each written back with its newline.\<close>

definition header_lines :: "string \<Rightarrow> string list" where
  "header_lines raw = takeWhile is_comment (lines_of raw)"

definition unlines :: "string list \<Rightarrow> string" where
  "unlines ls = concat (map (\<lambda>l. l @ nl) ls)"

definition write_field :: "(nat \<Rightarrow> bool) \<Rightarrow> string \<Rightarrow> string \<Rightarrow> string" where
  "write_field tbl name v = (if v \<noteq> [] then ''  '' @ name @ '': '' @ quote tbl v @ nl else [])"

definition render_binding :: "(nat \<Rightarrow> bool) \<Rightarrow> binding \<Rightarrow> string" where
  "render_binding tbl b =
     nl @ ''bindings {'' @ nl
     @ write_field tbl ''requirement_id'' (b_requirement_id b)
     @ write_field tbl ''content_hash'' (b_content_hash b)
     @ write_field tbl ''source_hash'' (b_source_hash b)
     @ write_field tbl ''backend'' (b_backend b)
     @ write_field tbl ''symbol'' (b_symbol b)
     @ ''  role: '' @ role_string (b_role b) @ nl
     @ write_field tbl ''shape_hash'' (b_shape_hash b)
     @ (case b_clause b of
          Clause_Ordinal n \<Rightarrow> ''  clause_ordinal: '' @ format_uint n @ nl
        | Clause_Label l \<Rightarrow> write_field tbl ''clause_label'' l
        | No_Clause \<Rightarrow> [])
     @ ''}'' @ nl"

definition render_binding_set :: "(nat \<Rightarrow> bool) \<Rightarrow> binding_file \<Rightarrow> string" where
  "render_binding_set tbl bf =
     unlines (header_lines (bf_raw bf)) @ concat (map (render_binding tbl) (bf_set bf))"

definition default_header :: string where
  "default_header = ''# proto-file: proto/stipulator/v1/records.proto'' @ nl"

definition render_gap :: "(nat \<Rightarrow> bool) \<Rightarrow> gap \<Rightarrow> string" where
  "render_gap tbl g =
     default_header @ ''# proto-message: stipulator.v1.Gap'' @ nl @ nl
     @ ''requirement_id: '' @ quote tbl (g_requirement_id g) @ nl
     @ ''reason: '' @ quote tbl (g_reason g) @ nl
     @ (if g_content_hash g \<noteq> [] then ''content_hash: '' @ quote tbl (g_content_hash g) @ nl else [])
     @ (if g_source_hash g \<noteq> [] then ''source_hash: '' @ quote tbl (g_source_hash g) @ nl else [])
     @ (case g_lands g of
          Some (LC_Covered c) \<Rightarrow> ''lands { covered: '' @ quote tbl c @ '' }'' @ nl
        | Some (LC_Exists e) \<Rightarrow> ''lands { exists: '' @ quote tbl e @ '' }'' @ nl
        | Some (LC_Manual m) \<Rightarrow>
            ''lands { manual { condition: '' @ quote tbl (mc_condition m)
            @ (if mc_fired m then '' fired: true'' else [])
            @ (if mc_contradicted m then '' contradicted: true'' else [])
            @ '' } }'' @ nl
        | _ \<Rightarrow> [])
     @ concat (map (\<lambda>x. ''excuses: '' @ excuse_string x @ nl) (g_excuses g))"

definition render_attestation :: "(nat \<Rightarrow> bool) \<Rightarrow> attestation \<Rightarrow> string" where
  "render_attestation tbl a =
     nl @ ''attestations {'' @ nl
     @ ''  requirement_id: '' @ quote tbl (a_requirement_id a) @ nl
     @ ''  content_hash: '' @ quote tbl (a_content_hash a) @ nl
     @ (if a_source_hash a \<noteq> [] then ''  source_hash: '' @ quote tbl (a_source_hash a) @ nl else [])
     @ ''  reason: '' @ quote tbl (a_reason a) @ nl
     @ ''}'' @ nl"

definition render_attestations :: "(nat \<Rightarrow> bool) \<Rightarrow> attestation list \<Rightarrow> string" where
  "render_attestations tbl set0 =
     default_header @ ''# proto-message: stipulator.v1.AttestationSet'' @ nl
     @ concat (map (render_attestation tbl) set0)"

definition render_tombstones :: "(nat \<Rightarrow> bool) \<Rightarrow> string list \<Rightarrow> string" where
  "render_tombstones tbl retired =
     default_header @ ''# proto-message: stipulator.v1.Tombstones'' @ nl @ nl
     @ concat (map (\<lambda>r. ''retired: '' @ quote tbl r @ nl) retired)"

definition refuse_comment :: "string \<Rightarrow> nat \<Rightarrow> string \<Rightarrow> string" where
  "refuse_comment path line when =
     path @ '':'' @ format_uint line
       @ '': comment outside the leading header block; move commentary to the commit message '' @ when"

definition bytes_after_header :: "string \<Rightarrow> string" where
  "bytes_after_header raw =
     join (dropWhile (\<lambda>l. trim_space l = [] \<or> is_comment l) (lines_of raw)) nl"

definition render_preserving_header :: "string \<Rightarrow> string \<Rightarrow> string \<Rightarrow> string + string" where
  "render_preserving_header path raw body =
     (let line = comment_outside_header raw in
      if 0 < line then Inl (refuse_comment path line ''first'')
      else let hdr = unlines (header_lines raw) in
        if hdr = [] then Inr body
        else Inr (hdr @ nl @ bytes_after_header body))"

definition render_gap_file :: "(nat \<Rightarrow> bool) \<Rightarrow> gap_file \<Rightarrow> string + string" where
  "render_gap_file tbl gf = render_preserving_header (gf_path gf) (gf_raw gf) (render_gap tbl (gf_gap gf))"

definition render_attestation_file :: "(nat \<Rightarrow> bool) \<Rightarrow> attestation_file \<Rightarrow> string + string" where
  "render_attestation_file tbl af =
     render_preserving_header (af_path af) (af_raw af) (render_attestations tbl (af_set af))"

definition render_file :: "(nat \<Rightarrow> bool) \<Rightarrow> binding_file \<Rightarrow> string + string" where
  "render_file tbl bf =
     (let line = comment_outside_header (bf_raw bf) in
      if 0 < line then Inl (refuse_comment (bf_path bf) line ''first'')
      else Inr (render_binding_set tbl bf))"

definition manual_flags :: "bool \<Rightarrow> bool \<Rightarrow> string list" where
  "manual_flags contradicted fired =
     (if contradicted then [''contradicted''] else []) @ (if fired then [''fired''] else [])"

section \<open>Adding and removing bindings\<close>

fun add_in_files ::
  "(nat \<Rightarrow> bool) \<Rightarrow> binding_file list \<Rightarrow> string \<Rightarrow> binding
     \<Rightarrow> (binding_file list \<times> (string + string)) option" where
  "add_in_files tbl [] path b = None"
| "add_in_files tbl (bf # bfs) path b =
     (if bf_path bf \<noteq> path
      then (case add_in_files tbl bfs path b of
              None \<Rightarrow> None
            | Some (bfs', res) \<Rightarrow> Some (bf # bfs', res))
      else let line = comment_outside_header (bf_raw bf) in
        if 0 < line then Some (bf # bfs, Inl (refuse_comment path line ''first''))
        else let bf' = bf\<lparr>bf_set := bf_set bf @ [b]\<rparr>
             in Some (bf' # bfs, Inr (render_binding_set tbl bf')))"

text \<open>A path no file of the store has renders a fresh file; the store keeps its files.\<close>

definition add_binding ::
  "(nat \<Rightarrow> bool) \<Rightarrow> store \<Rightarrow> string \<Rightarrow> binding \<Rightarrow> store \<times> (string + string)" where
  "add_binding tbl st path b =
     (case add_in_files tbl (st_bindings st) path b of
        Some (bfs, res) \<Rightarrow> (st\<lparr>st_bindings := bfs\<rparr>, res)
      | None \<Rightarrow>
          (st, Inr (render_binding_set tbl
             \<lparr>bf_path = path,
              bf_raw = default_header @ ''# proto-message: stipulator.v1.BindingSet'' @ nl,
              bf_set = [b]\<rparr>)))"

record removal =
  rm_updates :: "string \<rightharpoonup> string"
  rm_deletions :: "string list"
  rm_removed :: nat

fun remove_in_files ::
  "(nat \<Rightarrow> bool) \<Rightarrow> (binding \<Rightarrow> bool) \<Rightarrow> binding_file list \<Rightarrow> removal
     \<Rightarrow> binding_file list \<times> (string + removal)" where
  "remove_in_files tbl fn [] acc = ([], Inr acc)"
| "remove_in_files tbl fn (bf # bfs) acc =
     (let keep = filter (\<lambda>b. \<not> fn b) (bf_set bf);
          matched = length (filter fn (bf_set bf))
      in if matched = 0
         then (case remove_in_files tbl fn bfs acc of (bfs', res) \<Rightarrow> (bf # bfs', res))
         else let line = comment_outside_header (bf_raw bf) in
           if 0 < line then (bf # bfs, Inl (refuse_comment (bf_path bf) line ''first''))
           else let bf' = bf\<lparr>bf_set := keep\<rparr>;
                    acc1 = acc\<lparr>rm_removed := rm_removed acc + matched\<rparr>;
                    acc2 = (if keep = [] then acc1\<lparr>rm_deletions := rm_deletions acc1 @ [bf_path bf]\<rparr>
                            else acc1\<lparr>rm_updates := (rm_updates acc1)(bf_path bf \<mapsto> render_binding_set tbl bf')\<rparr>)
                in (case remove_in_files tbl fn bfs acc2 of (bfs', res) \<Rightarrow> (bf' # bfs', res)))"

definition remove_bindings ::
  "(nat \<Rightarrow> bool) \<Rightarrow> store \<Rightarrow> (binding \<Rightarrow> bool) \<Rightarrow> store \<times> (string + removal)" where
  "remove_bindings tbl st fn =
     (case remove_in_files tbl fn (st_bindings st)
             \<lparr>rm_updates = Map.empty, rm_deletions = [], rm_removed = 0\<rparr> of
        (bfs, res) \<Rightarrow> (st\<lparr>st_bindings := bfs\<rparr>, res))"

section \<open>Lines of a rendered file\<close>

lemma lines_of_unlines:
  assumes "\<forall>l\<in>set ls. CHR 0x0A \<notin> set l"
  shows "lines_of (unlines ls @ s) = ls @ lines_of s"
  using assms
proof (induction ls)
  case Nil
  then show ?case by (simp add: unlines_def)
next
  case (Cons l ls)
  then show ?case
    by (simp add: unlines_def lines_of_def nl_def split_on_append)
qed

lemma unlines_append [simp]: "unlines (xs @ ys) = unlines xs @ unlines ys"
  by (simp add: unlines_def)

lemma unlines_Nil [simp]: "unlines [] = []"
  by (simp add: unlines_def)

lemma header_lines_clean: "\<forall>l\<in>set (header_lines raw). CHR 0x0A \<notin> set l"
  by (metis header_lines_def lines_of_def set_takeWhileD split_on_lines_clean)

lemma header_lines_comments: "\<forall>l\<in>set (header_lines raw). is_comment l"
  by (metis header_lines_def set_takeWhileD)

lemma comment_scan_header:
  "\<forall>l\<in>set hs. is_comment l \<Longrightarrow> comment_scan True i (hs @ ls) = comment_scan True (i + length hs) ls"
  by (induction hs arbitrary: i) auto

lemma comment_scan_none:
  "\<forall>l\<in>set ls. \<not> is_comment l \<Longrightarrow> comment_scan h i ls = 0"
  by (induction ls arbitrary: h i) auto

lemma not_comment_Nil [simp]: "\<not> is_comment []"
  by (simp add: is_comment_def)

lemma not_comment_head:
  assumes "trim_left l = c # cs" and "c \<noteq> CHR ''#''"
  shows "\<not> is_comment l"
proof
  assume "is_comment l"
  then obtain r where "trim_right (c # cs) = CHR ''#'' # r"
    using assms(1) by (auto simp: is_comment_def trim_space_def has_prefix_iff)
  moreover obtain q where "c # cs = trim_right (c # cs) @ q" using trim_right_prefix by blast
  ultimately show False using assms(2) by simp
qed

lemma trim_left_space: "trim_left (CHR '' '' # s) = trim_left s"
proof -
  have "find (has_prefix (CHR '' '' # s)) space_encodings = Some [CHR '' '']"
    by (simp add: space_encodings_def)
  then show ?thesis by (simp add: trim_left_def)
qed

lemma not_comment_field:
  assumes "plain_char c" and "c \<noteq> CHR ''#''"
  shows "\<not> is_comment (c # cs)" and "\<not> is_comment (CHR '' '' # CHR '' '' # c # cs)"
proof -
  show "\<not> is_comment (c # cs)"
    by (rule not_comment_head [of _ c cs]) (simp_all add: trim_left_plain assms)
  show "\<not> is_comment (CHR '' '' # CHR '' '' # c # cs)"
    by (rule not_comment_head [of _ c cs]) (simp_all add: trim_left_space trim_left_plain assms)
qed

text \<open>A line that can stand in a body: one line, not a comment.\<close>

definition body_line :: "string \<Rightarrow> bool" where
  "body_line l \<longleftrightarrow> CHR 0x0A \<notin> set l \<and> \<not> is_comment l"

lemma body_line_field:
  assumes "plain_char c" and "c \<noteq> CHR ''#''" and "CHR 0x0A \<notin> set cs"
  shows "body_line (c # cs)" and "body_line (CHR '' '' # CHR '' '' # c # cs)"
proof -
  have "c \<noteq> CHR 0x0A" using assms(1) by (auto simp: plain_char_def byte_val_def)
  then show "body_line (c # cs)" and "body_line (CHR '' '' # CHR '' '' # c # cs)"
    using assms not_comment_field by (auto simp: body_line_def)
qed

lemma body_line_Nil [simp]: "body_line []"
  by (simp add: body_line_def)

definition body_lines :: "string \<Rightarrow> bool" where
  "body_lines s \<longleftrightarrow> (\<exists>ls. s = unlines ls \<and> (\<forall>l\<in>set ls. body_line l))"

lemma body_lines_Nil [simp]: "body_lines []"
  unfolding body_lines_def by (rule exI [of _ "[]"]) simp

lemma body_lines_append [intro]: "body_lines s \<Longrightarrow> body_lines t \<Longrightarrow> body_lines (s @ t)"
  unfolding body_lines_def by (metis UnE set_append unlines_append)

lemma body_lines_line: "body_line l \<Longrightarrow> body_lines (l @ nl)"
  unfolding body_lines_def by (rule exI [of _ "[l]"]) (simp add: unlines_def)

lemma body_lines_concat: "\<forall>x\<in>set xs. body_lines (f x) \<Longrightarrow> body_lines (concat (map f xs))"
  by (induction xs) auto

lemma digits_not_newline: "list_all is_digit s \<Longrightarrow> CHR 0x0A \<notin> set s"
  by (auto simp: list_all_iff is_digit_def)

lemma role_string_not_newline: "CHR 0x0A \<notin> set (role_string r)"
  by (cases r) (auto simp: format_int_def digits_not_newline format_uint_digits)

lemma body_lines_write_field:
  assumes "plain_char c" and "c \<noteq> CHR ''#''" and "CHR 0x0A \<notin> set cs"
  shows "body_lines (write_field tbl (c # cs) v)"
proof (cases "v = []")
  case True
  then show ?thesis by (simp add: write_field_def)
next
  case False
  have "body_line (CHR '' '' # CHR '' '' # c # (cs @ '': '' @ quote tbl v))"
    using assms quote_single_line by (intro body_line_field(2)) auto
  then have "body_lines ((CHR '' '' # CHR '' '' # c # (cs @ '': '' @ quote tbl v)) @ nl)"
    by (rule body_lines_line)
  with False show ?thesis by (simp add: write_field_def)
qed

lemma body_lines_plain2:
  "plain_char c \<Longrightarrow> c \<noteq> CHR ''#'' \<Longrightarrow> CHR 0x0A \<notin> set cs
     \<Longrightarrow> body_lines (CHR '' '' # CHR '' '' # c # cs @ nl)"
  using body_lines_line [OF body_line_field(2), of c cs] by simp

lemma body_lines_plain0:
  "plain_char c \<Longrightarrow> c \<noteq> CHR ''#'' \<Longrightarrow> CHR 0x0A \<notin> set cs \<Longrightarrow> body_lines (c # cs @ nl)"
  using body_lines_line [OF body_line_field(1), of c cs] by simp

lemma body_lines_nl [simp]: "body_lines nl"
  using body_lines_line [of "[]"] by simp

lemma body_lines_binding: "body_lines (render_binding tbl b)"
proof -
  have open0: "body_lines (''bindings {'' @ nl)"
    using body_lines_plain0 [of "CHR ''b''" "''indings {''"] by (simp add: plain_char_def byte_val_def)
  have close: "body_lines (''}'' @ nl)"
    using body_lines_plain0 [of "CHR ''}''" "[]"] by (simp add: plain_char_def byte_val_def)
  have role: "body_lines (''  role: '' @ role_string (b_role b) @ nl)"
    using body_lines_plain2 [of "CHR ''r''" "''ole: '' @ role_string (b_role b)"]
      role_string_not_newline by (simp add: plain_char_def byte_val_def)
  have ord: "body_lines (''  clause_ordinal: '' @ format_uint n @ nl)" for n
    using body_lines_plain2 [of "CHR ''c''" "''lause_ordinal: '' @ format_uint n"]
      digits_not_newline [OF format_uint_digits] by (simp add: plain_char_def byte_val_def)
  have fields: "body_lines (write_field tbl ''requirement_id'' v)"
      "body_lines (write_field tbl ''content_hash'' v)" "body_lines (write_field tbl ''source_hash'' v)"
      "body_lines (write_field tbl ''backend'' v)" "body_lines (write_field tbl ''symbol'' v)"
      "body_lines (write_field tbl ''shape_hash'' v)" "body_lines (write_field tbl ''clause_label'' v)" for v
    by (rule body_lines_write_field; simp add: plain_char_def byte_val_def)+
  have scope: "body_lines (case b_clause b of
          Clause_Ordinal n \<Rightarrow> ''  clause_ordinal: '' @ format_uint n @ nl
        | Clause_Label l \<Rightarrow> write_field tbl ''clause_label'' l | No_Clause \<Rightarrow> [])"
    using ord fields by (cases "b_clause b") simp_all
  have tail: "body_lines ((''  role: '' @ role_string (b_role b) @ nl)
      @ write_field tbl ''shape_hash'' (b_shape_hash b)
      @ (case b_clause b of
          Clause_Ordinal n \<Rightarrow> ''  clause_ordinal: '' @ format_uint n @ nl
        | Clause_Label l \<Rightarrow> write_field tbl ''clause_label'' l | No_Clause \<Rightarrow> []) @ (''}'' @ nl))"
    by (intro body_lines_append role fields scope close)
  have "body_lines (nl @ (''bindings {'' @ nl)
      @ write_field tbl ''requirement_id'' (b_requirement_id b)
      @ write_field tbl ''content_hash'' (b_content_hash b)
      @ write_field tbl ''source_hash'' (b_source_hash b)
      @ write_field tbl ''backend'' (b_backend b)
      @ write_field tbl ''symbol'' (b_symbol b)
      @ ((''  role: '' @ role_string (b_role b) @ nl)
      @ write_field tbl ''shape_hash'' (b_shape_hash b)
      @ (case b_clause b of
          Clause_Ordinal n \<Rightarrow> ''  clause_ordinal: '' @ format_uint n @ nl
        | Clause_Label l \<Rightarrow> write_field tbl ''clause_label'' l | No_Clause \<Rightarrow> []) @ (''}'' @ nl)))"
    by (intro body_lines_append open0 fields tail body_lines_nl)
  then show ?thesis
    by (simp only: render_binding_def append.assoc)
qed

lemma lines_of_body:
  assumes "\<forall>l\<in>set hs. CHR 0x0A \<notin> set l" and "body_lines s"
  obtains ls where "lines_of (unlines hs @ s) = hs @ ls" "\<forall>l\<in>set ls. \<not> is_comment l" "ls \<noteq> []"
proof -
  obtain bs where bs: "s = unlines bs" "\<forall>l\<in>set bs. body_line l"
    using assms(2) by (auto simp: body_lines_def)
  have "lines_of (unlines (hs @ bs) @ []) = (hs @ bs) @ lines_of []"
    using assms(1) bs(2) by (intro lines_of_unlines) (auto simp: body_line_def)
  then have "lines_of (unlines hs @ s) = hs @ (bs @ [[]])"
    by (simp add: bs(1) lines_of_def)
  then show thesis using that [of "bs @ [[]]"] bs(2) by (auto simp: body_line_def)
qed

lemma header_of_rendered:
  assumes "\<forall>l\<in>set hs. CHR 0x0A \<notin> set l \<and> is_comment l" and "body_lines s"
  shows "header_lines (unlines hs @ s) = hs \<and> comment_outside_header (unlines hs @ s) = 0"
proof -
  obtain ls where ls: "lines_of (unlines hs @ s) = hs @ ls"
      "\<forall>l\<in>set ls. \<not> is_comment l" "ls \<noteq> []"
    using lines_of_body [of hs s] assms by blast
  have "takeWhile is_comment ls = []" using ls(2,3) by (cases ls) auto
  then have "header_lines (unlines hs @ s) = hs"
    using assms(1) ls(1) by (simp add: header_lines_def takeWhile_append2)
  moreover have "comment_outside_header (unlines hs @ s) = 0"
    using assms(1) ls by (simp add: comment_outside_header_def comment_scan_header comment_scan_none)
  ultimately show ?thesis ..
qed

text \<open>Rewriting a binding file keeps the file's leading header lines and produces a file the
  machine-owned check accepts (no comment outside the header), whatever the bindings hold;
  so rendering a rendered file again changes nothing.\<close>

theorem render_binding_set_stable:
  "header_lines (render_binding_set tbl bf) = header_lines (bf_raw bf)
   \<and> comment_outside_header (render_binding_set tbl bf) = 0
   \<and> render_binding_set tbl (bf\<lparr>bf_raw := render_binding_set tbl bf\<rparr>) = render_binding_set tbl bf"
proof -
  have body: "body_lines (concat (map (render_binding tbl) (bf_set bf)))"
    by (simp add: body_lines_concat body_lines_binding)
  have "\<forall>l\<in>set (header_lines (bf_raw bf)). CHR 0x0A \<notin> set l \<and> is_comment l"
    using header_lines_clean header_lines_comments by blast
  from header_of_rendered [OF this body] show ?thesis
    by (simp add: render_binding_set_def)
qed

section \<open>What a removal does\<close>

definition touched :: "(binding \<Rightarrow> bool) \<Rightarrow> binding_file \<Rightarrow> bool" where
  "touched fn bf \<longleftrightarrow> (\<exists>b\<in>set (bf_set bf). fn b)"

definition keep_of :: "(binding \<Rightarrow> bool) \<Rightarrow> binding_file \<Rightarrow> binding_file" where
  "keep_of fn bf = bf\<lparr>bf_set := filter (\<lambda>b. \<not> fn b) (bf_set bf)\<rparr>"

lemma untouched_keep:
  assumes "\<not> touched fn bf"
  shows "keep_of fn bf = bf" "filter fn (bf_set bf) = []"
proof -
  have "filter (\<lambda>b. \<not> fn b) (bf_set bf) = bf_set bf"
    using assms by (auto simp: touched_def filter_id_conv)
  then show "keep_of fn bf = bf" by (simp add: keep_of_def)
  show "filter fn (bf_set bf) = []" using assms by (auto simp: touched_def filter_empty_conv)
qed

lemma touched_matches: "touched fn bf \<longleftrightarrow> length (filter fn (bf_set bf)) \<noteq> 0"
  by (auto simp: touched_def filter_empty_conv)

lemma remove_step:
  "remove_in_files tbl fn (bf # bfs) acc =
     (if \<not> touched fn bf
      then (case remove_in_files tbl fn bfs acc of (bfs', res) \<Rightarrow> (bf # bfs', res))
      else if 0 < comment_outside_header (bf_raw bf)
      then (bf # bfs, Inl (refuse_comment (bf_path bf) (comment_outside_header (bf_raw bf)) ''first''))
      else (case remove_in_files tbl fn bfs
          (if bf_set (keep_of fn bf) = []
           then acc\<lparr>rm_removed := rm_removed acc + length (filter fn (bf_set bf)),
                    rm_deletions := rm_deletions acc @ [bf_path bf]\<rparr>
           else acc\<lparr>rm_removed := rm_removed acc + length (filter fn (bf_set bf)),
                    rm_updates := (rm_updates acc)(bf_path bf \<mapsto> render_binding_set tbl (keep_of fn bf))\<rparr>) of
          (bfs', res) \<Rightarrow> (keep_of fn bf # bfs', res)))"
  unfolding touched_matches by (simp add: Let_def keep_of_def)

declare remove_in_files.simps(2) [simp del]

lemma remove_in_files_ok:
  assumes "remove_in_files tbl fn bfs acc = (bfs', Inr r)"
  shows "bfs' = map (keep_of fn) bfs
    \<and> rm_removed r = rm_removed acc + length (filter fn (concat (map bf_set bfs)))
    \<and> rm_deletions r = rm_deletions acc
        @ map bf_path (filter (\<lambda>bf. touched fn bf \<and> bf_set (keep_of fn bf) = []) bfs)
    \<and> dom (rm_updates r) = dom (rm_updates acc)
        \<union> bf_path ` {bf \<in> set bfs. touched fn bf \<and> bf_set (keep_of fn bf) \<noteq> []}"
  using assms
proof (induction bfs arbitrary: acc bfs')
  case (Cons bf bfs)
  then show ?case
    by (auto simp: remove_step untouched_keep split: if_splits prod.splits)
qed simp

lemma remove_in_files_error:
  assumes "\<exists>bf\<in>set bfs. touched fn bf \<and> 0 < comment_outside_header (bf_raw bf)"
  shows "\<exists>bfs' e. remove_in_files tbl fn bfs acc = (bfs', Inl e)"
  using assms
proof (induction bfs arbitrary: acc)
  case (Cons bf bfs)
  then show ?case by (auto simp: remove_step split: prod.splits) (metis prod.inject)+
qed simp

lemma remove_in_files_no_error:
  assumes "\<forall>bf\<in>set bfs. touched fn bf \<longrightarrow> comment_outside_header (bf_raw bf) = 0"
  shows "\<exists>bfs' r. remove_in_files tbl fn bfs acc = (bfs', Inr r)"
  using assms
proof (induction bfs arbitrary: acc)
  case (Cons bf bfs)
  then obtain g where "\<And>acc. \<exists>r. remove_in_files tbl fn bfs acc = (g acc, Inr r)"
    by (metis list.set_intros(2))
  then show ?case using Cons.prems by (auto simp: remove_step split: prod.splits) (metis prod.inject)+
qed simp

lemma concat_keep: "concat (map bf_set (map (keep_of fn) bfs)) = filter (\<lambda>b. \<not> fn b) (concat (map bf_set bfs))"
  by (induction bfs) (simp_all add: keep_of_def)

text \<open>RemoveBindings succeeds exactly when no file it would touch carries a comment outside its
  header, and then it removes exactly the matching bindings: the store keeps the others in
  order and nothing else of it changes, the reported count is the number that matched, the
  deletions are the touched files left empty and the updates the touched files that are not.\<close>

theorem remove_bindings_exact:
  "(case remove_bindings tbl st fn of
      (st', Inl e) \<Rightarrow> \<exists>bf\<in>set (st_bindings st). touched fn bf \<and> 0 < comment_outside_header (bf_raw bf)
    | (st', Inr r) \<Rightarrow>
        \<not> (\<exists>bf\<in>set (st_bindings st). touched fn bf \<and> 0 < comment_outside_header (bf_raw bf))
        \<and> st' = st\<lparr>st_bindings := map (keep_of fn) (st_bindings st)\<rparr>
        \<and> store_bindings st' = filter (\<lambda>b. \<not> fn b) (store_bindings st)
        \<and> rm_removed r = length (filter fn (store_bindings st))
        \<and> rm_deletions r = map bf_path
            (filter (\<lambda>bf. touched fn bf \<and> bf_set (keep_of fn bf) = []) (st_bindings st))
        \<and> dom (rm_updates r) = bf_path ` {bf \<in> set (st_bindings st).
            touched fn bf \<and> bf_set (keep_of fn bf) \<noteq> []})"
proof -
  define acc0 where "acc0 = \<lparr>rm_updates = Map.empty, rm_deletions = [], rm_removed = 0\<rparr>"
  obtain bfs' res where r: "remove_in_files tbl fn (st_bindings st) acc0 = (bfs', res)"
    by fastforce
  show ?thesis
  proof (cases res)
    case (Inl e)
    then have "\<exists>bf\<in>set (st_bindings st). touched fn bf \<and> 0 < comment_outside_header (bf_raw bf)"
      using r remove_in_files_no_error [of "st_bindings st" fn tbl acc0] by fastforce
    with r Inl show ?thesis by (simp add: remove_bindings_def acc0_def)
  next
    case (Inr rr)
    have "\<not> (\<exists>bf\<in>set (st_bindings st). touched fn bf \<and> 0 < comment_outside_header (bf_raw bf))"
      using r Inr remove_in_files_error [of "st_bindings st" fn tbl acc0] by fastforce
    with r Inr remove_in_files_ok [of tbl fn "st_bindings st" acc0 bfs' rr] show ?thesis
      by (simp add: remove_bindings_def acc0_def store_bindings_def concat_keep [simplified])
  qed
qed

end
