(* ===== verification/Pin.thy ===== *)
theory Pin
  imports Author
begin

text \<open>
  The blanket pin pass of \<open>internal/records/pin.go\<close>: backfill of unset content pins, rehash of
  pins whose consent-source digest still matches, refresh of source pins, rewriting of shape
  pins, over bindings, gaps and attestations, and the shape mismatches the editorial form
  leaves. The three record kinds share one contract, the locale \<open>pinned_record\<close>.
\<close>

section \<open>The consent pass over one record\<close>

datatype pin_note = Pin_Quiet | Pin_Preserved | Pin_Rehashed

text \<open>
  The closure \<open>consentPass\<close>, over a record given by its requirement id, its two pins and the
  write of both; it returns the record, whether it wrote, and what it noted for the report.
\<close>

definition pin_with ::
  "('r \<Rightarrow> string) \<Rightarrow> ('r \<Rightarrow> string) \<Rightarrow> ('r \<Rightarrow> string) \<Rightarrow> (string \<Rightarrow> string \<Rightarrow> 'r \<Rightarrow> 'r)
     \<Rightarrow> hashes \<Rightarrow> 'r \<Rightarrow> 'r \<times> bool \<times> pin_note" where
  "pin_with rid content source set_pins h r =
     (case h_content h (rid r) of
        None \<Rightarrow> (r, False, Pin_Quiet)
      | Some c \<Rightarrow>
          let s = map_get (h_source h) (rid r) in
          (case judge h (rid r) (content r) (source r) of
             Consent_Current \<Rightarrow>
               if source r \<noteq> s then (set_pins c s r, True, Pin_Quiet) else (r, False, Pin_Quiet)
           | Consent_Rehash \<Rightarrow> (set_pins c s r, True, Pin_Rehashed)
           | Consent_Stale \<Rightarrow>
               if content r = [] then (set_pins c s r, True, Pin_Quiet)
               else (r, False, Pin_Preserved)))"

text \<open>
  What the pass needs of a record kind: its two pins read back what was written, and a write
  leaves the requirement id alone.
\<close>

locale pinned_record =
  fixes rid :: "'r \<Rightarrow> string" and content :: "'r \<Rightarrow> string" and source :: "'r \<Rightarrow> string"
    and set_pins :: "string \<Rightarrow> string \<Rightarrow> 'r \<Rightarrow> 'r"
  assumes content_set: "content (set_pins c s r) = c"
    and source_set: "source (set_pins c s r) = s"
    and rid_set: "rid (set_pins c s r) = rid r"
begin

lemmas lens = content_set source_set rid_set

lemma rid_kept: "rid (fst (pin_with rid content source set_pins h r)) = rid r"
  by (cases "h_content h (rid r)"; cases "judge h (rid r) (content r) (source r)")
     (simp_all add: pin_with_def Let_def lens)

lemma untouched: "\<not> fst (snd (pin_with rid content source set_pins h r))
    \<Longrightarrow> fst (pin_with rid content source set_pins h r) = r"
  by (cases "h_content h (rid r)"; cases "judge h (rid r) (content r) (source r)")
     (simp_all add: pin_with_def Let_def split: if_splits)

lemma written: "fst (snd (pin_with rid content source set_pins h r))
    \<Longrightarrow> \<exists>c s. fst (pin_with rid content source set_pins h r) = set_pins c s r
          \<and> h_content h (rid r) = Some c"
  by (cases "h_content h (rid r)"; cases "judge h (rid r) (content r) (source r)")
     (auto simp: pin_with_def Let_def split: if_splits)

lemma no_launder:
  assumes "content (fst (pin_with rid content source set_pins h r)) \<noteq> content r"
  shows "h_content h (rid r) = Some (content (fst (pin_with rid content source set_pins h r)))
    \<and> (content r = [] \<or> (source r \<noteq> [] \<and> source r = map_get (h_source h) (rid r)))"
  using assms
  by (auto simp: pin_with_def Let_def lens judge_def judge_consent_def map_get_def
      split: option.splits consent.splits if_splits)

lemma preserved_iff:
  "snd (snd (pin_with rid content source set_pins h r)) = Pin_Preserved
     \<longleftrightarrow> known h (rid r) \<and> content r \<noteq> [] \<and> judge h (rid r) (content r) (source r) = Consent_Stale"
  by (cases "h_content h (rid r)"; cases "judge h (rid r) (content r) (source r)")
     (simp_all add: pin_with_def Let_def known_def)

lemma rehashed_iff:
  "snd (snd (pin_with rid content source set_pins h r)) = Pin_Rehashed
     \<longleftrightarrow> known h (rid r) \<and> judge h (rid r) (content r) (source r) = Consent_Rehash"
  by (cases "h_content h (rid r)"; cases "judge h (rid r) (content r) (source r)")
     (simp_all add: pin_with_def Let_def known_def)

lemma current_after:
  assumes "h_content h (rid r) = Some c" and "c \<noteq> []"
    and "snd (snd (pin_with rid content source set_pins h r)) \<noteq> Pin_Preserved"
  shows "content (fst (pin_with rid content source set_pins h r)) = c
    \<and> source (fst (pin_with rid content source set_pins h r)) = map_get (h_source h) (rid r)"
  using assms
  by (auto simp: pin_with_def Let_def lens judge_def judge_consent_def map_get_def
      split: option.splits consent.splits if_splits)

lemma settled:
  assumes "h_content h (rid r) \<noteq> Some []"
  shows "pin_with rid content source set_pins h (fst (pin_with rid content source set_pins h r))
    = (fst (pin_with rid content source set_pins h r), False,
       if snd (snd (pin_with rid content source set_pins h r)) = Pin_Preserved
       then Pin_Preserved else Pin_Quiet)"
  using assms
  by (auto simp: pin_with_def Let_def lens judge_def judge_consent_def map_get_def
      split: option.splits consent.splits if_splits)

end

definition set_binding_pins :: "string \<Rightarrow> string \<Rightarrow> binding \<Rightarrow> binding" where
  "set_binding_pins c s b = b\<lparr>b_content_hash := c, b_source_hash := s\<rparr>"

definition set_gap_pins :: "string \<Rightarrow> string \<Rightarrow> gap \<Rightarrow> gap" where
  "set_gap_pins c s g = g\<lparr>g_content_hash := c, g_source_hash := s\<rparr>"

definition set_attestation_pins :: "string \<Rightarrow> string \<Rightarrow> attestation \<Rightarrow> attestation" where
  "set_attestation_pins c s a = a\<lparr>a_content_hash := c, a_source_hash := s\<rparr>"

interpretation binding_pins: pinned_record b_requirement_id b_content_hash b_source_hash set_binding_pins
  by unfold_locales (simp_all add: set_binding_pins_def)

interpretation gap_pins: pinned_record g_requirement_id g_content_hash g_source_hash set_gap_pins
  by unfold_locales (simp_all add: set_gap_pins_def)

interpretation attestation_pins:
  pinned_record a_requirement_id a_content_hash a_source_hash set_attestation_pins
  by unfold_locales (simp_all add: set_attestation_pins_def)

section \<open>The pass over the store\<close>

record pin_acc =
  pa_out :: "string \<rightharpoonup> string"
  pa_preserved :: "string set"
  pa_reshaped :: "string set"
  pa_rehashed :: "string set"

definition note_pin :: "pin_note \<Rightarrow> string \<Rightarrow> pin_acc \<Rightarrow> pin_acc" where
  "note_pin nt rid acc =
     (case nt of
        Pin_Quiet \<Rightarrow> acc
      | Pin_Preserved \<Rightarrow> acc\<lparr>pa_preserved := insert rid (pa_preserved acc)\<rparr>
      | Pin_Rehashed \<Rightarrow> acc\<lparr>pa_rehashed := insert rid (pa_rehashed acc)\<rparr>)"

definition shape_key :: "string \<Rightarrow> string \<Rightarrow> string" where
  "shape_key backend symbol = backend @ ''|'' @ symbol"

text \<open>One binding: the consent pass, then the shape pin.\<close>

definition pin_binding ::
  "hashes \<Rightarrow> (string \<rightharpoonup> string) \<Rightarrow> binding \<Rightarrow> pin_acc \<Rightarrow> binding \<times> bool \<times> pin_acc" where
  "pin_binding h shapes b acc =
     (case pin_with b_requirement_id b_content_hash b_source_hash set_binding_pins h b of
        (b1, changed, nt) \<Rightarrow>
          let acc1 = note_pin nt (b_requirement_id b) acc in
          (case shapes (shape_key (b_backend b1) (b_symbol b1)) of
             None \<Rightarrow> (b1, changed, acc1)
           | Some s \<Rightarrow>
               if b_shape_hash b1 = s then (b1, changed, acc1)
               else (b1\<lparr>b_shape_hash := s\<rparr>, True,
                     if b_shape_hash b1 \<noteq> []
                     then acc1\<lparr>pa_reshaped := insert (b_symbol b1) (pa_reshaped acc1)\<rparr> else acc1)))"

fun pin_bindings ::
  "hashes \<Rightarrow> (string \<rightharpoonup> string) \<Rightarrow> binding list \<Rightarrow> pin_acc \<Rightarrow> binding list \<times> bool \<times> pin_acc" where
  "pin_bindings h shapes [] acc = ([], False, acc)"
| "pin_bindings h shapes (b # bs) acc =
     (case pin_binding h shapes b acc of (b', ch, acc1) \<Rightarrow>
        (case pin_bindings h shapes bs acc1 of (bs', chs, acc2) \<Rightarrow> (b' # bs', ch \<or> chs, acc2)))"

text \<open>
  The file loops. The records are shared with the store and written before the refusal is
  checked, so a refused pass leaves the files up to the refused one rewritten in memory.
\<close>

fun pin_binding_files ::
  "(nat \<Rightarrow> bool) \<Rightarrow> hashes \<Rightarrow> (string \<rightharpoonup> string) \<Rightarrow> binding_file list \<Rightarrow> pin_acc
     \<Rightarrow> binding_file list \<times> (string + pin_acc)" where
  "pin_binding_files tbl h shapes [] acc = ([], Inr acc)"
| "pin_binding_files tbl h shapes (bf # bfs) acc =
     (case pin_bindings h shapes (bf_set bf) acc of (bs, changed, acc1) \<Rightarrow>
        let bf' = bf\<lparr>bf_set := bs\<rparr>; line = comment_outside_header (bf_raw bf) in
        if \<not> changed
        then (case pin_binding_files tbl h shapes bfs acc1 of (bfs', res) \<Rightarrow> (bf' # bfs', res))
        else if 0 < line
        then (bf' # bfs, Inl (refuse_comment (bf_path bf) line ''before pinning''))
        else (case pin_binding_files tbl h shapes bfs
                (acc1\<lparr>pa_out := (pa_out acc1)(bf_path bf \<mapsto> render_binding_set tbl bf')\<rparr>) of
                (bfs', res) \<Rightarrow> (bf' # bfs', res)))"

fun pin_gap_files ::
  "(nat \<Rightarrow> bool) \<Rightarrow> hashes \<Rightarrow> gap_file list \<Rightarrow> pin_acc \<Rightarrow> gap_file list \<times> (string + pin_acc)" where
  "pin_gap_files tbl h [] acc = ([], Inr acc)"
| "pin_gap_files tbl h (gf # gfs) acc =
     (case pin_with g_requirement_id g_content_hash g_source_hash set_gap_pins h (gf_gap gf) of
        (g, changed, nt) \<Rightarrow>
          let gf' = gf\<lparr>gf_gap := g\<rparr>; acc1 = note_pin nt (g_requirement_id (gf_gap gf)) acc in
          if \<not> changed
          then (case pin_gap_files tbl h gfs acc1 of (gfs', res) \<Rightarrow> (gf' # gfs', res))
          else (case render_gap_file tbl gf' of
                  Inl e \<Rightarrow> (gf' # gfs, Inl e)
                | Inr body \<Rightarrow>
                    (case pin_gap_files tbl h gfs
                       (acc1\<lparr>pa_out := (pa_out acc1)(gf_path gf \<mapsto> body)\<rparr>) of
                       (gfs', res) \<Rightarrow> (gf' # gfs', res))))"

fun pin_attestations ::
  "hashes \<Rightarrow> attestation list \<Rightarrow> pin_acc \<Rightarrow> attestation list \<times> bool \<times> pin_acc" where
  "pin_attestations h [] acc = ([], False, acc)"
| "pin_attestations h (a # as) acc =
     (case pin_with a_requirement_id a_content_hash a_source_hash set_attestation_pins h a of
        (a', ch, nt) \<Rightarrow>
          (case pin_attestations h as (note_pin nt (a_requirement_id a) acc) of
             (as', chs, acc2) \<Rightarrow> (a' # as', ch \<or> chs, acc2)))"

fun pin_attestation_files ::
  "(nat \<Rightarrow> bool) \<Rightarrow> hashes \<Rightarrow> attestation_file list \<Rightarrow> pin_acc
     \<Rightarrow> attestation_file list \<times> (string + pin_acc)" where
  "pin_attestation_files tbl h [] acc = ([], Inr acc)"
| "pin_attestation_files tbl h (af # afs) acc =
     (case pin_attestations h (af_set af) acc of (as, changed, acc1) \<Rightarrow>
        let af' = af\<lparr>af_set := as\<rparr> in
        if \<not> changed
        then (case pin_attestation_files tbl h afs acc1 of (afs', res) \<Rightarrow> (af' # afs', res))
        else (case render_attestation_file tbl af' of
                Inl e \<Rightarrow> (af' # afs, Inl e)
              | Inr body \<Rightarrow>
                  (case pin_attestation_files tbl h afs
                     (acc1\<lparr>pa_out := (pa_out acc1)(af_path af \<mapsto> body)\<rparr>) of
                     (afs', res) \<Rightarrow> (af' # afs', res))))"

record pin_report =
  pr_updates :: "string \<rightharpoonup> string"
  pr_preserved :: "string list"
  pr_reshaped :: "string list"
  pr_rehashed :: "string list"

definition pin_start :: pin_acc where
  "pin_start = \<lparr>pa_out = Map.empty, pa_preserved = {}, pa_reshaped = {}, pa_rehashed = {}\<rparr>"

definition pin :: "(nat \<Rightarrow> bool) \<Rightarrow> store \<Rightarrow> hashes \<Rightarrow> (string \<rightharpoonup> string) \<Rightarrow> store \<times> (string + pin_report)" where
  "pin tbl st h shapes =
     (case pin_binding_files tbl h shapes (st_bindings st) pin_start of
        (bfs, Inl e) \<Rightarrow> (st\<lparr>st_bindings := bfs\<rparr>, Inl e)
      | (bfs, Inr acc1) \<Rightarrow>
          (case pin_gap_files tbl h (st_gaps st) acc1 of
             (gfs, Inl e) \<Rightarrow> (st\<lparr>st_bindings := bfs, st_gaps := gfs\<rparr>, Inl e)
           | (gfs, Inr acc2) \<Rightarrow>
               (case pin_attestation_files tbl h (st_attestations st) acc2 of
                  (afs, Inl e) \<Rightarrow>
                    (st\<lparr>st_bindings := bfs, st_gaps := gfs, st_attestations := afs\<rparr>, Inl e)
                | (afs, Inr acc) \<Rightarrow>
                    (st\<lparr>st_bindings := bfs, st_gaps := gfs, st_attestations := afs\<rparr>,
                     Inr \<lparr>pr_updates = pa_out acc,
                          pr_preserved = sorted_list_of_set (pa_preserved acc),
                          pr_reshaped = sorted_list_of_set (pa_reshaped acc),
                          pr_rehashed = sorted_list_of_set (pa_rehashed acc)\<rparr>))))"

definition shape_mismatched ::
  "store \<Rightarrow> string list \<Rightarrow> (string \<rightharpoonup> string) \<Rightarrow> string \<rightharpoonup> string list" where
  "shape_mismatched st ids shapes =
     map_option sorted_list_of_set \<circ>
     fold (\<lambda>b per.
       if b_requirement_id b \<notin> set ids then per
       else case shapes (shape_key (b_backend b) (b_symbol b)) of
         None \<Rightarrow> per
       | Some s \<Rightarrow>
           if b_shape_hash b \<noteq> [] \<and> b_shape_hash b \<noteq> s
           then per(b_requirement_id b \<mapsto> insert (b_symbol b)
                  (case per (b_requirement_id b) of None \<Rightarrow> {} | Some A \<Rightarrow> A))
           else per) (store_bindings st) Map.empty"

section \<open>The pass, record by record\<close>

abbreviation binding_consent :: "hashes \<Rightarrow> binding \<Rightarrow> binding \<times> bool \<times> pin_note" where
  "binding_consent \<equiv> pin_with b_requirement_id b_content_hash b_source_hash set_binding_pins"

abbreviation gap_consent :: "hashes \<Rightarrow> gap \<Rightarrow> gap \<times> bool \<times> pin_note" where
  "gap_consent \<equiv> pin_with g_requirement_id g_content_hash g_source_hash set_gap_pins"

abbreviation attestation_consent :: "hashes \<Rightarrow> attestation \<Rightarrow> attestation \<times> bool \<times> pin_note" where
  "attestation_consent \<equiv> pin_with a_requirement_id a_content_hash a_source_hash set_attestation_pins"

definition binding_shape :: "(string \<rightharpoonup> string) \<Rightarrow> binding \<Rightarrow> string option" where
  "binding_shape shapes b = shapes (shape_key (b_backend b) (b_symbol b))"

definition pinned :: "hashes \<Rightarrow> (string \<rightharpoonup> string) \<Rightarrow> binding \<Rightarrow> binding" where
  "pinned h shapes b =
     (case binding_shape shapes b of
        None \<Rightarrow> fst (binding_consent h b)
      | Some s \<Rightarrow> (fst (binding_consent h b))\<lparr>b_shape_hash := s\<rparr>)"

definition pin_changes :: "hashes \<Rightarrow> (string \<rightharpoonup> string) \<Rightarrow> binding \<Rightarrow> bool" where
  "pin_changes h shapes b \<longleftrightarrow>
     fst (snd (binding_consent h b)) \<or> (\<exists>s. binding_shape shapes b = Some s \<and> s \<noteq> b_shape_hash b)"

definition reshapes :: "(string \<rightharpoonup> string) \<Rightarrow> binding \<Rightarrow> bool" where
  "reshapes shapes b \<longleftrightarrow>
     b_shape_hash b \<noteq> [] \<and> (\<exists>s. binding_shape shapes b = Some s \<and> s \<noteq> b_shape_hash b)"

lemma binding_consent_frame:
  "b_symbol (fst (binding_consent h b)) = b_symbol b"
  "b_backend (fst (binding_consent h b)) = b_backend b"
  "b_shape_hash (fst (binding_consent h b)) = b_shape_hash b"
  "b_role (fst (binding_consent h b)) = b_role b"
  "b_clause (fst (binding_consent h b)) = b_clause b"
  "b_requirement_id (fst (binding_consent h b)) = b_requirement_id b"
  by (cases "fst (snd (binding_consent h b))";
      force dest: binding_pins.written binding_pins.untouched simp: set_binding_pins_def)+

definition note_all :: "('r \<Rightarrow> string) \<Rightarrow> ('r \<Rightarrow> 'n) \<Rightarrow> 'n \<Rightarrow> 'r list \<Rightarrow> string set" where
  "note_all rid nt n rs = rid ` {r \<in> set rs. nt r = n}"

lemma note_all_simps [simp]:
  "note_all rid nt n [] = {}"
  "note_all rid nt n (r # rs) = (if nt r = n then {rid r} else {}) \<union> note_all rid nt n rs"
  "note_all rid nt n (rs @ rs') = note_all rid nt n rs \<union> note_all rid nt n rs'"
  by (auto simp: note_all_def)

abbreviation binding_note :: "hashes \<Rightarrow> binding \<Rightarrow> pin_note" where
  "binding_note h b \<equiv> snd (snd (binding_consent h b))"

abbreviation gap_note :: "hashes \<Rightarrow> gap \<Rightarrow> pin_note" where
  "gap_note h g \<equiv> snd (snd (gap_consent h g))"

abbreviation attestation_note :: "hashes \<Rightarrow> attestation \<Rightarrow> pin_note" where
  "attestation_note h a \<equiv> snd (snd (attestation_consent h a))"

text \<open>The accumulator after a list of records: the sets gain the noted ids.\<close>

definition acc_grows :: "pin_acc \<Rightarrow> pin_acc \<Rightarrow> string set \<Rightarrow> string set \<Rightarrow> string set \<Rightarrow> bool" where
  "acc_grows acc acc' P S R \<longleftrightarrow>
     pa_preserved acc' = pa_preserved acc \<union> P \<and> pa_reshaped acc' = pa_reshaped acc \<union> S
     \<and> pa_rehashed acc' = pa_rehashed acc \<union> R"

lemma acc_grows_trans:
  assumes "acc_grows a b P S R" and "acc_grows b c P' S' R'"
  shows "acc_grows a c (P \<union> P') (S \<union> S') (R \<union> R')"
  using assms by (auto simp: acc_grows_def)

lemma note_pin_grows:
  "acc_grows acc (note_pin nt rid acc) (if nt = Pin_Preserved then {rid} else {}) {}
     (if nt = Pin_Rehashed then {rid} else {}) \<and> pa_out (note_pin nt rid acc) = pa_out acc"
  by (cases nt) (auto simp: note_pin_def acc_grows_def)

lemma pin_binding_parts:
  obtains acc' where "pin_binding h shapes b acc = (pinned h shapes b, pin_changes h shapes b, acc')"
    "acc_grows acc acc' (if binding_note h b = Pin_Preserved then {b_requirement_id b} else {})
       (if reshapes shapes b then {b_symbol b} else {})
       (if binding_note h b = Pin_Rehashed then {b_requirement_id b} else {})"
    "pa_out acc' = pa_out acc"
proof -
  obtain b1 ch nt where c: "binding_consent h b = (b1, ch, nt)" by (metis prod_cases3)
  then have f: "b_symbol b1 = b_symbol b" "b_backend b1 = b_backend b" "b_shape_hash b1 = b_shape_hash b"
    using binding_consent_frame [of h b] by simp_all
  have same: "b1\<lparr>b_shape_hash := b_shape_hash b\<rparr> = b1" using f(3) by (metis binding.surjective binding.update_convs(7))
  let ?r = "pin_binding h shapes b acc"
  have "fst ?r = pinned h shapes b" "fst (snd ?r) = pin_changes h shapes b"
    using c f same
    by (auto simp: pin_binding_def pinned_def pin_changes_def binding_shape_def Let_def split: option.splits)
  moreover have "acc_grows acc (snd (snd ?r)) (if nt = Pin_Preserved then {b_requirement_id b} else {})
       (if reshapes shapes b then {b_symbol b} else {})
       (if nt = Pin_Rehashed then {b_requirement_id b} else {}) \<and> pa_out (snd (snd ?r)) = pa_out acc"
    using c f note_pin_grows [of acc nt "b_requirement_id b"]
    by (auto simp: pin_binding_def reshapes_def binding_shape_def Let_def acc_grows_def split: option.splits)
  moreover have "binding_note h b = nt" using c by simp
  moreover have "?r = (fst ?r, fst (snd ?r), snd (snd ?r))" by simp
  ultimately show thesis using that [of "snd (snd ?r)"] by simp
qed

lemma pin_bindings_parts:
  obtains acc' where "pin_bindings h shapes bs acc
      = (map (pinned h shapes) bs, (\<exists>b\<in>set bs. pin_changes h shapes b), acc')"
    "acc_grows acc acc' (note_all b_requirement_id (binding_note h) Pin_Preserved bs)
       (note_all b_symbol (reshapes shapes) True bs)
       (note_all b_requirement_id (binding_note h) Pin_Rehashed bs)"
    "pa_out acc' = pa_out acc"
proof (induction bs arbitrary: acc thesis)
  case Nil
  show ?case by (rule Nil.prems [of acc]) (auto simp: acc_grows_def)
next
  case (Cons b bs)
  obtain acc1 where b: "pin_binding h shapes b acc = (pinned h shapes b, pin_changes h shapes b, acc1)"
    "acc_grows acc acc1 (if binding_note h b = Pin_Preserved then {b_requirement_id b} else {})
       (if reshapes shapes b then {b_symbol b} else {})
       (if binding_note h b = Pin_Rehashed then {b_requirement_id b} else {})"
    "pa_out acc1 = pa_out acc"
    by (rule pin_binding_parts)
  obtain acc2 where r: "pin_bindings h shapes bs acc1
      = (map (pinned h shapes) bs, (\<exists>b\<in>set bs. pin_changes h shapes b), acc2)"
    "acc_grows acc1 acc2 (note_all b_requirement_id (binding_note h) Pin_Preserved bs)
       (note_all b_symbol (reshapes shapes) True bs)
       (note_all b_requirement_id (binding_note h) Pin_Rehashed bs)"
    "pa_out acc2 = pa_out acc1"
    by (rule Cons.IH)
  show ?case
  proof (rule Cons.prems [of acc2])
    show "acc_grows acc acc2 (note_all b_requirement_id (binding_note h) Pin_Preserved (b # bs))
       (note_all b_symbol (reshapes shapes) True (b # bs))
       (note_all b_requirement_id (binding_note h) Pin_Rehashed (b # bs))"
      using acc_grows_trans [OF b(2) r(2)] by simp
  qed (use b(1,3) r(1,3) in simp_all)
qed

definition pinned_file :: "hashes \<Rightarrow> (string \<rightharpoonup> string) \<Rightarrow> binding_file \<Rightarrow> binding_file" where
  "pinned_file h shapes bf = bf\<lparr>bf_set := map (pinned h shapes) (bf_set bf)\<rparr>"

definition pinned_gap_file :: "hashes \<Rightarrow> gap_file \<Rightarrow> gap_file" where
  "pinned_gap_file h gf = gf\<lparr>gf_gap := fst (gap_consent h (gf_gap gf))\<rparr>"

definition pinned_attestation_file :: "hashes \<Rightarrow> attestation_file \<Rightarrow> attestation_file" where
  "pinned_attestation_file h af = af\<lparr>af_set := map (\<lambda>a. fst (attestation_consent h a)) (af_set af)\<rparr>"

definition file_bindings :: "binding_file list \<Rightarrow> binding list" where
  "file_bindings bfs = concat (map bf_set bfs)"

definition file_attestations :: "attestation_file list \<Rightarrow> attestation list" where
  "file_attestations afs = concat (map af_set afs)"

lemma file_bindings_simps [simp]:
  "file_bindings [] = []" "file_bindings (bf # bfs) = bf_set bf @ file_bindings bfs"
  by (simp_all add: file_bindings_def)

lemma file_attestations_simps [simp]:
  "file_attestations [] = []" "file_attestations (af # afs) = af_set af @ file_attestations afs"
  by (simp_all add: file_attestations_def)

lemma pin_binding_files_ok:
  assumes "pin_binding_files tbl h shapes bfs acc = (bfs', Inr acc')"
  shows "bfs' = map (pinned_file h shapes) bfs"
    and "acc_grows acc acc' (note_all b_requirement_id (binding_note h) Pin_Preserved (file_bindings bfs))
       (note_all b_symbol (reshapes shapes) True (file_bindings bfs))
       (note_all b_requirement_id (binding_note h) Pin_Rehashed (file_bindings bfs))"
    and "\<not> (\<exists>b\<in>set (file_bindings bfs). pin_changes h shapes b) \<Longrightarrow> pa_out acc' = pa_out acc"
proof -
  have "bfs' = map (pinned_file h shapes) bfs
    \<and> acc_grows acc acc' (note_all b_requirement_id (binding_note h) Pin_Preserved (file_bindings bfs))
       (note_all b_symbol (reshapes shapes) True (file_bindings bfs))
       (note_all b_requirement_id (binding_note h) Pin_Rehashed (file_bindings bfs))
    \<and> (\<not> (\<exists>b\<in>set (file_bindings bfs). pin_changes h shapes b) \<longrightarrow> pa_out acc' = pa_out acc)"
    using assms
  proof (induction bfs arbitrary: acc bfs')
    case Nil
    then show ?case by (simp add: acc_grows_def)
  next
    case (Cons bf bfs)
    obtain acc1 where b: "pin_bindings h shapes (bf_set bf) acc
        = (map (pinned h shapes) (bf_set bf), (\<exists>b\<in>set (bf_set bf). pin_changes h shapes b), acc1)"
      and g: "acc_grows acc acc1 (note_all b_requirement_id (binding_note h) Pin_Preserved (bf_set bf))
       (note_all b_symbol (reshapes shapes) True (bf_set bf))
       (note_all b_requirement_id (binding_note h) Pin_Rehashed (bf_set bf))"
      and o: "pa_out acc1 = pa_out acc"
      by (rule pin_bindings_parts)
    obtain bfs1 acc2 where r: "pin_binding_files tbl h shapes bfs acc2 = (bfs1, Inr acc')"
        "bfs' = pinned_file h shapes bf # bfs1"
        "acc_grows acc1 acc2 {} {} {}"
        "\<not> (\<exists>b\<in>set (bf_set bf). pin_changes h shapes b) \<Longrightarrow> pa_out acc2 = pa_out acc1"
      using Cons.prems b
      by (auto simp: Let_def pinned_file_def acc_grows_def split: if_splits prod.splits)
    have "acc_grows acc acc2 (note_all b_requirement_id (binding_note h) Pin_Preserved (bf_set bf))
       (note_all b_symbol (reshapes shapes) True (bf_set bf))
       (note_all b_requirement_id (binding_note h) Pin_Rehashed (bf_set bf))"
      using acc_grows_trans [OF g r(3)] by simp
    with Cons.IH [OF r(1)] r(2,4) o show ?case
      by (auto simp: ball_Un dest: acc_grows_trans)
  qed
  then show "bfs' = map (pinned_file h shapes) bfs"
    and "acc_grows acc acc' (note_all b_requirement_id (binding_note h) Pin_Preserved (file_bindings bfs))
       (note_all b_symbol (reshapes shapes) True (file_bindings bfs))
       (note_all b_requirement_id (binding_note h) Pin_Rehashed (file_bindings bfs))"
    and "\<not> (\<exists>b\<in>set (file_bindings bfs). pin_changes h shapes b) \<Longrightarrow> pa_out acc' = pa_out acc"
    by blast+
qed

lemma pin_gap_files_ok:
  assumes "pin_gap_files tbl h gfs acc = (gfs', Inr acc')"
  shows "gfs' = map (pinned_gap_file h) gfs
    \<and> acc_grows acc acc' (note_all g_requirement_id (gap_note h) Pin_Preserved (map gf_gap gfs)) {}
       (note_all g_requirement_id (gap_note h) Pin_Rehashed (map gf_gap gfs))
    \<and> (\<not> (\<exists>g\<in>set (map gf_gap gfs). fst (snd (gap_consent h g))) \<longrightarrow> pa_out acc' = pa_out acc)"
  using assms
proof (induction gfs arbitrary: acc gfs')
  case Nil
  then show ?case by (simp add: acc_grows_def)
next
  case (Cons gf gfs)
  obtain g ch nt where c: "gap_consent h (gf_gap gf) = (g, ch, nt)" by (metis prod_cases3)
  obtain gfs1 acc2 where r: "pin_gap_files tbl h gfs acc2 = (gfs1, Inr acc')"
      "gfs' = pinned_gap_file h gf # gfs1"
      "acc_grows (note_pin nt (g_requirement_id (gf_gap gf)) acc) acc2 {} {} {}"
      "\<not> ch \<Longrightarrow> pa_out acc2 = pa_out acc"
    using Cons.prems c note_pin_grows [of acc nt "g_requirement_id (gf_gap gf)"]
    by (auto simp: Let_def pinned_gap_file_def acc_grows_def split: if_splits prod.splits sum.splits)
  have "acc_grows acc acc2 (if nt = Pin_Preserved then {g_requirement_id (gf_gap gf)} else {}) {}
     (if nt = Pin_Rehashed then {g_requirement_id (gf_gap gf)} else {})"
    using acc_grows_trans [OF conjunct1 [OF note_pin_grows] r(3)] by simp
  from acc_grows_trans [OF this] Cons.IH [OF r(1)] r(2,4) c show ?case by fastforce
qed

lemma pin_attestations_parts:
  obtains acc' where "pin_attestations h as acc = (map (\<lambda>a. fst (attestation_consent h a)) as,
      (\<exists>a\<in>set as. fst (snd (attestation_consent h a))), acc')"
    "acc_grows acc acc' (note_all a_requirement_id (attestation_note h) Pin_Preserved as) {}
       (note_all a_requirement_id (attestation_note h) Pin_Rehashed as)"
    "pa_out acc' = pa_out acc"
proof (induction as arbitrary: acc thesis)
  case Nil
  show ?case by (rule Nil.prems [of acc]) (auto simp: acc_grows_def)
next
  case (Cons a as)
  obtain a' ch nt where c: "attestation_consent h a = (a', ch, nt)" by (metis prod_cases3)
  obtain acc2 where r: "pin_attestations h as (note_pin nt (a_requirement_id a) acc)
      = (map (\<lambda>a. fst (attestation_consent h a)) as,
         (\<exists>a\<in>set as. fst (snd (attestation_consent h a))), acc2)"
    "acc_grows (note_pin nt (a_requirement_id a) acc) acc2
       (note_all a_requirement_id (attestation_note h) Pin_Preserved as) {}
       (note_all a_requirement_id (attestation_note h) Pin_Rehashed as)"
    "pa_out acc2 = pa_out (note_pin nt (a_requirement_id a) acc)"
    by (rule Cons.IH)
  show ?case
  proof (rule Cons.prems [of acc2])
    show "acc_grows acc acc2 (note_all a_requirement_id (attestation_note h) Pin_Preserved (a # as)) {}
       (note_all a_requirement_id (attestation_note h) Pin_Rehashed (a # as))"
      using acc_grows_trans [OF conjunct1 [OF note_pin_grows] r(2)] c by simp
  qed (use c r(1,3) note_pin_grows in simp_all)
qed

lemma pin_attestation_files_ok:
  assumes "pin_attestation_files tbl h afs acc = (afs', Inr acc')"
  shows "afs' = map (pinned_attestation_file h) afs
    \<and> acc_grows acc acc' (note_all a_requirement_id (attestation_note h) Pin_Preserved (file_attestations afs)) {}
       (note_all a_requirement_id (attestation_note h) Pin_Rehashed (file_attestations afs))
    \<and> (\<not> (\<exists>a\<in>set (file_attestations afs). fst (snd (attestation_consent h a))) \<longrightarrow> pa_out acc' = pa_out acc)"
  using assms
proof (induction afs arbitrary: acc afs')
  case Nil
  then show ?case by (simp add: acc_grows_def)
next
  case (Cons af afs)
  obtain acc1 where b: "pin_attestations h (af_set af) acc = (map (\<lambda>a. fst (attestation_consent h a)) (af_set af),
      (\<exists>a\<in>set (af_set af). fst (snd (attestation_consent h a))), acc1)"
    and g: "acc_grows acc acc1 (note_all a_requirement_id (attestation_note h) Pin_Preserved (af_set af)) {}
       (note_all a_requirement_id (attestation_note h) Pin_Rehashed (af_set af))"
    and o: "pa_out acc1 = pa_out acc"
    by (rule pin_attestations_parts)
  obtain afs1 acc2 where r: "pin_attestation_files tbl h afs acc2 = (afs1, Inr acc')"
      "afs' = pinned_attestation_file h af # afs1" "acc_grows acc1 acc2 {} {} {}"
      "\<not> (\<exists>a\<in>set (af_set af). fst (snd (attestation_consent h a))) \<Longrightarrow> pa_out acc2 = pa_out acc1"
    using Cons.prems b
    by (auto simp: Let_def pinned_attestation_file_def acc_grows_def split: if_splits prod.splits sum.splits)
  from acc_grows_trans [OF acc_grows_trans [OF g r(3)]] Cons.IH [OF r(1)] r(2,4) o show ?case
    by fastforce
qed

section \<open>What a pass may write\<close>

lemma pin_binding_files_each:
  "list_all2 (\<lambda>b b'. b' = b \<or> b' = pinned h shapes b) (file_bindings bfs)
     (file_bindings (fst (pin_binding_files tbl h shapes bfs acc)))"
proof (induction bfs arbitrary: acc)
  case (Cons bf bfs)
  obtain acc1 where b: "pin_bindings h shapes (bf_set bf) acc
      = (map (pinned h shapes) (bf_set bf), (\<exists>b\<in>set (bf_set bf). pin_changes h shapes b), acc1)"
    by (rule pin_bindings_parts)
  have "list_all2 (\<lambda>b b'. b' = b \<or> b' = pinned h shapes b) (bf_set bf) (map (pinned h shapes) (bf_set bf))"
    by (simp add: list_all2_conv_all_nth)
  moreover have "list_all2 (\<lambda>b b'. b' = b \<or> b' = pinned h shapes b) (file_bindings bfs) (file_bindings bfs)"
    by (simp add: list_all2_conv_all_nth)
  ultimately show ?case
    using Cons.IH b by (simp add: Let_def list_all2_appendI case_prod_beta)
qed simp

lemma pin_gap_files_each:
  "list_all2 (\<lambda>g g'. g' = g \<or> g' = fst (gap_consent h g)) (map gf_gap gfs)
     (map gf_gap (fst (pin_gap_files tbl h gfs acc)))"
proof (induction gfs arbitrary: acc)
  case (Cons gf gfs)
  have "list_all2 (\<lambda>g g'. g' = g \<or> g' = fst (gap_consent h g)) (map gf_gap gfs) (map gf_gap gfs)"
    by (simp add: list_all2_conv_all_nth)
  then show ?case
    using Cons.IH by (simp add: Let_def case_prod_beta split: sum.split)
qed simp

lemma pin_attestation_files_each:
  "list_all2 (\<lambda>a a'. a' = a \<or> a' = fst (attestation_consent h a)) (file_attestations afs)
     (file_attestations (fst (pin_attestation_files tbl h afs acc)))"
proof (induction afs arbitrary: acc)
  case (Cons af afs)
  obtain acc1 where b: "pin_attestations h (af_set af) acc = (map (\<lambda>a. fst (attestation_consent h a)) (af_set af),
      (\<exists>a\<in>set (af_set af). fst (snd (attestation_consent h a))), acc1)"
    by (rule pin_attestations_parts)
  have "list_all2 (\<lambda>a a'. a' = a \<or> a' = fst (attestation_consent h a)) (af_set af)
      (map (\<lambda>a. fst (attestation_consent h a)) (af_set af))"
    by (simp add: list_all2_conv_all_nth)
  moreover have "list_all2 (\<lambda>a a'. a' = a \<or> a' = fst (attestation_consent h a))
      (file_attestations afs) (file_attestations afs)"
    by (simp add: list_all2_conv_all_nth)
  ultimately show ?case
    using Cons.IH b by (simp add: Let_def list_all2_appendI case_prod_beta split: sum.split)
qed simp

text \<open>
  A content pin may move only to the requirement's current hash, and only when it was unset
  or the consent-source pin vouches for the text.
\<close>

definition consented_move :: "hashes \<Rightarrow> string \<Rightarrow> string \<Rightarrow> string \<Rightarrow> string \<Rightarrow> bool" where
  "consented_move h rid c s c' \<longleftrightarrow>
     c' = c \<or> h_content h rid = Some c' \<and> (c = [] \<or> s \<noteq> [] \<and> s = map_get (h_source h) rid)"

definition honest_binding :: "hashes \<Rightarrow> binding \<Rightarrow> binding \<Rightarrow> bool" where
  "honest_binding h b b' \<longleftrightarrow>
     b' = b\<lparr>b_content_hash := b_content_hash b', b_source_hash := b_source_hash b',
            b_shape_hash := b_shape_hash b'\<rparr>
     \<and> consented_move h (b_requirement_id b) (b_content_hash b) (b_source_hash b) (b_content_hash b')"

definition honest_gap :: "hashes \<Rightarrow> gap \<Rightarrow> gap \<Rightarrow> bool" where
  "honest_gap h g g' \<longleftrightarrow>
     g' = set_gap_pins (g_content_hash g') (g_source_hash g') g
     \<and> consented_move h (g_requirement_id g) (g_content_hash g) (g_source_hash g) (g_content_hash g')"

definition honest_attestation :: "hashes \<Rightarrow> attestation \<Rightarrow> attestation \<Rightarrow> bool" where
  "honest_attestation h a a' \<longleftrightarrow>
     a' = set_attestation_pins (a_content_hash a') (a_source_hash a') a
     \<and> consented_move h (a_requirement_id a) (a_content_hash a) (a_source_hash a) (a_content_hash a')"

lemma honest_pinned: "b' = b \<or> b' = pinned h shapes b \<Longrightarrow> honest_binding h b b'"
proof (elim disjE)
  assume b': "b' = pinned h shapes b"
  let ?b1 = "fst (binding_consent h b)"
  have c: "b_content_hash b' = b_content_hash ?b1" "b_source_hash b' = b_source_hash ?b1"
    using b' by (auto simp: pinned_def split: option.splits)
  have "b' = b\<lparr>b_content_hash := b_content_hash b', b_source_hash := b_source_hash b',
            b_shape_hash := b_shape_hash b'\<rparr>"
    using b' binding_consent_frame [of h b]
    by (intro binding.equality) (auto simp: pinned_def split: option.splits)
  with c show ?thesis
    using binding_pins.no_launder [of h b] by (auto simp: honest_binding_def consented_move_def)
qed (simp add: honest_binding_def consented_move_def)

lemma honest_gap_consent: "g' = g \<or> g' = fst (gap_consent h g) \<Longrightarrow> honest_gap h g g'"
  using gap_pins.no_launder [of h g] gap_pins.untouched [of h g] gap_pins.written [of h g]
  by (cases "fst (snd (gap_consent h g))")
     (auto simp: honest_gap_def consented_move_def set_gap_pins_def)

lemma honest_attestation_consent: "a' = a \<or> a' = fst (attestation_consent h a) \<Longrightarrow> honest_attestation h a a'"
  using attestation_pins.no_launder [of h a] attestation_pins.untouched [of h a]
    attestation_pins.written [of h a]
  by (cases "fst (snd (attestation_consent h a))")
     (auto simp: honest_attestation_def consented_move_def set_attestation_pins_def)

lemma honest_refl: "honest_gap h g g" "honest_attestation h a a"
  by (simp_all add: honest_gap_consent honest_attestation_consent)

lemma pin_store_parts:
  "st_bindings (fst (pin tbl st h shapes)) = fst (pin_binding_files tbl h shapes (st_bindings st) pin_start)"
  "st_gaps (fst (pin tbl st h shapes)) = st_gaps st
    \<or> (\<exists>acc. st_gaps (fst (pin tbl st h shapes)) = fst (pin_gap_files tbl h (st_gaps st) acc))"
  "st_attestations (fst (pin tbl st h shapes)) = st_attestations st
    \<or> (\<exists>acc. st_attestations (fst (pin tbl st h shapes))
          = fst (pin_attestation_files tbl h (st_attestations st) acc))"
  "st_tombstones (fst (pin tbl st h shapes)) = st_tombstones st"
  by (simp_all add: pin_def case_prod_beta split: sum.split) blast+

text \<open>C11: the blanket pin pass never launders staleness, whether it succeeds or is refused half
  way: in every binding, gap and attestation of the store nothing but the pins can change,
  and a content pin that changes was unset or vouched for by the record's own consent-source
  pin, and becomes the requirement's current content hash; the tombstones stay.\<close>

theorem pin_never_launders:
  "list_all2 (honest_binding h) (store_bindings st) (store_bindings (fst (pin tbl st h shapes)))
   \<and> list_all2 (honest_gap h) (map gf_gap (st_gaps st)) (map gf_gap (st_gaps (fst (pin tbl st h shapes))))
   \<and> list_all2 (honest_attestation h) (concat (map af_set (st_attestations st)))
       (concat (map af_set (st_attestations (fst (pin tbl st h shapes)))))
   \<and> st_tombstones (fst (pin tbl st h shapes)) = st_tombstones st"
proof (intro conjI)
  show "list_all2 (honest_binding h) (store_bindings st) (store_bindings (fst (pin tbl st h shapes)))"
    unfolding store_bindings_def pin_store_parts(1) file_bindings_def [symmetric]
    by (rule list_all2_mono [OF pin_binding_files_each]) (rule honest_pinned)
  have "list_all2 (honest_gap h) (map gf_gap gfs) (map gf_gap (fst (pin_gap_files tbl h gfs acc)))" for gfs acc
    by (rule list_all2_mono [OF pin_gap_files_each]) (rule honest_gap_consent)
  moreover have "list_all2 (honest_gap h) gs gs" for gs
    by (rule list_all2_refl) (rule honest_refl)
  ultimately show "list_all2 (honest_gap h) (map gf_gap (st_gaps st)) (map gf_gap (st_gaps (fst (pin tbl st h shapes))))"
    using pin_store_parts(2) by metis
  have "list_all2 (honest_attestation h) (file_attestations afs)
      (file_attestations (fst (pin_attestation_files tbl h afs acc)))" for afs acc
    by (rule list_all2_mono [OF pin_attestation_files_each]) (rule honest_attestation_consent)
  moreover have "list_all2 (honest_attestation h) as as" for as
    by (rule list_all2_refl) (rule honest_refl)
  ultimately show "list_all2 (honest_attestation h) (concat (map af_set (st_attestations st)))
       (concat (map af_set (st_attestations (fst (pin tbl st h shapes)))))"
    using pin_store_parts(3) unfolding file_attestations_def by metis
qed (rule pin_store_parts(4))

section \<open>What a pass reports, and that it settles\<close>

lemma pin_ok_parts:
  assumes "pin tbl st h shapes = (st', Inr rep)"
  obtains acc1 acc2 acc where
    "pin_binding_files tbl h shapes (st_bindings st) pin_start = (map (pinned_file h shapes) (st_bindings st), Inr acc1)"
    "pin_gap_files tbl h (st_gaps st) acc1 = (map (pinned_gap_file h) (st_gaps st), Inr acc2)"
    "pin_attestation_files tbl h (st_attestations st) acc2
       = (map (pinned_attestation_file h) (st_attestations st), Inr acc)"
    "st' = st\<lparr>st_bindings := map (pinned_file h shapes) (st_bindings st),
      st_gaps := map (pinned_gap_file h) (st_gaps st),
      st_attestations := map (pinned_attestation_file h) (st_attestations st)\<rparr>"
    "rep = \<lparr>pr_updates = pa_out acc, pr_preserved = sorted_list_of_set (pa_preserved acc),
      pr_reshaped = sorted_list_of_set (pa_reshaped acc), pr_rehashed = sorted_list_of_set (pa_rehashed acc)\<rparr>"
  using assms
  by (auto simp: pin_def split: prod.splits sum.splits
      dest: pin_binding_files_ok(1) pin_gap_files_ok pin_attestation_files_ok)

definition all_noted :: "hashes \<Rightarrow> pin_note \<Rightarrow> store \<Rightarrow> string set" where
  "all_noted h n st =
     note_all b_requirement_id (binding_note h) n (store_bindings st)
     \<union> note_all g_requirement_id (gap_note h) n (map gf_gap (st_gaps st))
     \<union> note_all a_requirement_id (attestation_note h) n (file_attestations (st_attestations st))"

definition all_reshaped :: "(string \<rightharpoonup> string) \<Rightarrow> store \<Rightarrow> string set" where
  "all_reshaped shapes st = b_symbol ` {b \<in> set (store_bindings st). reshapes shapes b}"

lemma pin_report_sets:
  assumes "pin tbl st h shapes = (st', Inr rep)"
  shows "pr_preserved rep = sorted_list_of_set (all_noted h Pin_Preserved st)"
    and "pr_rehashed rep = sorted_list_of_set (all_noted h Pin_Rehashed st)"
    and "pr_reshaped rep = sorted_list_of_set (all_reshaped shapes st)"
    and "\<not> (\<exists>b\<in>set (store_bindings st). pin_changes h shapes b)
      \<Longrightarrow> \<not> (\<exists>g\<in>set (map gf_gap (st_gaps st)). fst (snd (gap_consent h g)))
      \<Longrightarrow> \<not> (\<exists>a\<in>set (file_attestations (st_attestations st)). fst (snd (attestation_consent h a)))
      \<Longrightarrow> pr_updates rep = Map.empty"
proof -
  obtain acc1 acc2 acc where
    b: "pin_binding_files tbl h shapes (st_bindings st) pin_start = (map (pinned_file h shapes) (st_bindings st), Inr acc1)"
    and g: "pin_gap_files tbl h (st_gaps st) acc1 = (map (pinned_gap_file h) (st_gaps st), Inr acc2)"
    and a: "pin_attestation_files tbl h (st_attestations st) acc2
       = (map (pinned_attestation_file h) (st_attestations st), Inr acc)"
    and "st' = st\<lparr>st_bindings := map (pinned_file h shapes) (st_bindings st),
      st_gaps := map (pinned_gap_file h) (st_gaps st),
      st_attestations := map (pinned_attestation_file h) (st_attestations st)\<rparr>"
    and rep: "rep = \<lparr>pr_updates = pa_out acc, pr_preserved = sorted_list_of_set (pa_preserved acc),
      pr_reshaped = sorted_list_of_set (pa_reshaped acc), pr_rehashed = sorted_list_of_set (pa_rehashed acc)\<rparr>"
    by (rule pin_ok_parts [OF assms])
  note gs = pin_binding_files_ok(2) [OF b, folded store_bindings_def [of st] file_bindings_def]
    conjunct1 [OF conjunct2 [OF pin_gap_files_ok [OF g]]]
    conjunct1 [OF conjunct2 [OF pin_attestation_files_ok [OF a]]]
  have fb: "file_bindings (st_bindings st) = store_bindings st"
    by (simp add: file_bindings_def store_bindings_def)
  show "pr_preserved rep = sorted_list_of_set (all_noted h Pin_Preserved st)"
    and "pr_rehashed rep = sorted_list_of_set (all_noted h Pin_Rehashed st)"
    and "pr_reshaped rep = sorted_list_of_set (all_reshaped shapes st)"
    using gs by (simp_all add: rep acc_grows_def pin_start_def all_noted_def all_reshaped_def
        note_all_def fb)
  show "pr_updates rep = Map.empty" if "\<not> (\<exists>b\<in>set (store_bindings st). pin_changes h shapes b)"
    "\<not> (\<exists>g\<in>set (map gf_gap (st_gaps st)). fst (snd (gap_consent h g)))"
    "\<not> (\<exists>a\<in>set (file_attestations (st_attestations st)). fst (snd (attestation_consent h a)))"
  proof -
    have "pa_out acc = pa_out acc2" using pin_attestation_files_ok [OF a] that(3) by blast
    also have "\<dots> = pa_out acc1" using pin_gap_files_ok [OF g] that(2) by blast
    also have "\<dots> = pa_out pin_start" using pin_binding_files_ok(3) [OF b] that(1) fb by metis
    finally show ?thesis by (simp add: rep pin_start_def)
  qed
qed

lemma finite_noted [simp]: "finite (all_noted h n st)" "finite (all_reshaped shapes st)"
  by (simp_all add: all_noted_def note_all_def all_reshaped_def)

lemma in_all_noted:
  "x \<in> all_noted h Pin_Preserved st \<longleftrightarrow>
     known h x \<and>
     ((\<exists>b\<in>set (store_bindings st). b_requirement_id b = x \<and> b_content_hash b \<noteq> []
         \<and> judge h x (b_content_hash b) (b_source_hash b) = Consent_Stale)
      \<or> (\<exists>gf\<in>set (st_gaps st). g_requirement_id (gf_gap gf) = x \<and> g_content_hash (gf_gap gf) \<noteq> []
         \<and> judge h x (g_content_hash (gf_gap gf)) (g_source_hash (gf_gap gf)) = Consent_Stale)
      \<or> (\<exists>af\<in>set (st_attestations st). \<exists>a\<in>set (af_set af). a_requirement_id a = x \<and> a_content_hash a \<noteq> []
         \<and> judge h x (a_content_hash a) (a_source_hash a) = Consent_Stale))"
  unfolding all_noted_def note_all_def binding_pins.preserved_iff gap_pins.preserved_iff
    attestation_pins.preserved_iff file_attestations_def
  by auto

text \<open>What a successful pin pass reports is exact: the preserved requirements are, sorted and
  without repetition, the known ones some record of which (binding, gap or attestation)
  carries a set content pin that no longer holds consent, and the reshaped symbols are those
  of the bindings whose set shape pin differed from the resolved shape; every record has been
  through the pass exactly once.\<close>

theorem pin_report_exact:
  assumes "pin tbl st h shapes = (st', Inr rep)"
  shows "sorted_wrt (<) (pr_preserved rep) \<and> sorted_wrt (<) (pr_reshaped rep)
    \<and> (\<forall>x. x \<in> set (pr_preserved rep) \<longleftrightarrow> known h x \<and>
        ((\<exists>b\<in>set (store_bindings st). b_requirement_id b = x \<and> b_content_hash b \<noteq> []
           \<and> judge h x (b_content_hash b) (b_source_hash b) = Consent_Stale)
        \<or> (\<exists>gf\<in>set (st_gaps st). g_requirement_id (gf_gap gf) = x \<and> g_content_hash (gf_gap gf) \<noteq> []
           \<and> judge h x (g_content_hash (gf_gap gf)) (g_source_hash (gf_gap gf)) = Consent_Stale)
        \<or> (\<exists>af\<in>set (st_attestations st). \<exists>a\<in>set (af_set af). a_requirement_id a = x
           \<and> a_content_hash a \<noteq> [] \<and> judge h x (a_content_hash a) (a_source_hash a) = Consent_Stale)))
    \<and> set (pr_reshaped rep) = {b_symbol b | b s. b \<in> set (store_bindings st) \<and> b_shape_hash b \<noteq> []
        \<and> shapes (shape_key (b_backend b) (b_symbol b)) = Some s \<and> s \<noteq> b_shape_hash b}
    \<and> store_bindings st' = map (pinned h shapes) (store_bindings st)"
proof -
  have "store_bindings st' = map (pinned h shapes) (store_bindings st)"
    using assms by (auto elim!: pin_ok_parts simp: store_bindings_def map_concat pinned_file_def comp_def)
  moreover have "set (pr_reshaped rep) = {b_symbol b | b s. b \<in> set (store_bindings st)
      \<and> b_shape_hash b \<noteq> [] \<and> shapes (shape_key (b_backend b) (b_symbol b)) = Some s \<and> s \<noteq> b_shape_hash b}"
    unfolding pin_report_sets(3) [OF assms] set_sorted_list_of_set [OF finite_noted(2)]
    by (auto simp: all_reshaped_def reshapes_def binding_shape_def)
  ultimately show ?thesis
    unfolding pin_report_sets(1,3) [OF assms] set_sorted_list_of_set [OF finite_noted(1)] in_all_noted
    by (simp add: strict_sorted_list_of_set)
qed

definition pin_sample_store :: store where
  "pin_sample_store =
     \<lparr>st_bindings = [\<lparr>bf_path = ''b.textproto'', bf_raw = [],
        bf_set = [sample_binding\<lparr>b_content_hash := ''old'', b_source_hash := ''older''\<rparr>,
                  sample_binding\<lparr>b_content_hash := [], b_source_hash := []\<rparr>]\<rparr>],
      st_gaps = [], st_attestations = [], st_tombstones = [], st_tombstones_raw = None,
      st_allow_whole = True\<rparr>"

definition pin_sample_hashes :: hashes where
  "pin_sample_hashes = \<lparr>h_content = [''REQ-a'' \<mapsto> ''c2''], h_source = [''REQ-a'' \<mapsto> ''s2'']\<rparr>"

definition pin_sample_shapes :: "string \<rightharpoonup> string" where
  "pin_sample_shapes = [''go|p.TestA'' \<mapsto> ''h2'']"

lemma pin_sample_ok:
  "\<exists>st' rep. pin (\<lambda>_. False) pin_sample_store pin_sample_hashes pin_sample_shapes = (st', Inr rep)"
proof -
  have "comment_outside_header [] = 0" by (simp add: comment_outside_header_def lines_of_def)
  then show ?thesis
    by (simp add: pin_def pin_sample_store_def Let_def case_prod_beta)
qed

lemma pin_report_exact_witness:
  "\<exists>st' rep. pin (\<lambda>_. False) pin_sample_store pin_sample_hashes pin_sample_shapes = (st', Inr rep)
     \<and> ''REQ-a'' \<in> set (pr_preserved rep) \<and> ''p.TestA'' \<in> set (pr_reshaped rep)"
proof -
  obtain st' rep where ok:
    "pin (\<lambda>_. False) pin_sample_store pin_sample_hashes pin_sample_shapes = (st', Inr rep)"
    using pin_sample_ok by blast
  have "''REQ-a'' \<in> set (pr_preserved rep)"
  proof (rule pin_report_exact [OF ok, THEN conjunct2, THEN conjunct2, THEN conjunct1, THEN spec, THEN iffD2])
    show "known pin_sample_hashes ''REQ-a'' \<and> ((\<exists>b\<in>set (store_bindings pin_sample_store).
        b_requirement_id b = ''REQ-a'' \<and> b_content_hash b \<noteq> []
        \<and> judge pin_sample_hashes ''REQ-a'' (b_content_hash b) (b_source_hash b) = Consent_Stale) \<or> Q)" for Q
      by (simp add: pin_sample_store_def pin_sample_hashes_def store_bindings_def sample_binding_def
          known_def judge_def judge_consent_def map_get_def)
  qed
  moreover have "''p.TestA'' \<in> {b_symbol b | b s. b \<in> set (store_bindings pin_sample_store)
      \<and> b_shape_hash b \<noteq> [] \<and> pin_sample_shapes (shape_key (b_backend b) (b_symbol b)) = Some s
      \<and> s \<noteq> b_shape_hash b}"
    by (intro CollectI exI [of _ "sample_binding\<lparr>b_content_hash := [], b_source_hash := []\<rparr>"] exI [of _ "''h2''"])
       (simp add: pin_sample_store_def store_bindings_def sample_binding_def shape_key_def
        pin_sample_shapes_def)
  ultimately show ?thesis
    using ok pin_report_exact [OF ok, THEN conjunct2, THEN conjunct2, THEN conjunct2, THEN conjunct1]
    by (intro exI conjI) (assumption, assumption, erule ssubst, assumption)
qed

text \<open>A record the pass has been over is left alone by a second pass.\<close>

lemma pinned_settled:
  assumes "h_content h (b_requirement_id b) \<noteq> Some []"
  shows "pinned h shapes (pinned h shapes b) = pinned h shapes b"
    and "\<not> pin_changes h shapes (pinned h shapes b)"
    and "\<not> reshapes shapes (pinned h shapes b)"
    and "binding_note h (pinned h shapes b) = (if binding_note h b = Pin_Preserved then Pin_Preserved else Pin_Quiet)"
proof -
  let ?b1 = "fst (binding_consent h b)"
  have sh: "binding_shape shapes (pinned h shapes b) = binding_shape shapes b"
    using binding_consent_frame [of h b]
    by (auto simp: binding_shape_def pinned_def split: option.splits)
  have shape_free: "binding_consent h (b0\<lparr>b_shape_hash := s\<rparr>)
      = ((fst (binding_consent h b0))\<lparr>b_shape_hash := s\<rparr>, snd (binding_consent h b0))" for b0 s
    by (cases "h_content h (b_requirement_id b0)";
        cases "judge h (b_requirement_id b0) (b_content_hash b0) (b_source_hash b0)")
       (simp_all add: pin_with_def Let_def set_binding_pins_def)
  have again: "binding_consent h ?b1 = (?b1, False,
      if binding_note h b = Pin_Preserved then Pin_Preserved else Pin_Quiet)"
    using assms by (rule binding_pins.settled)
  have c: "binding_consent h (pinned h shapes b) = (pinned h shapes b, False,
      if binding_note h b = Pin_Preserved then Pin_Preserved else Pin_Quiet)"
    by (cases "binding_shape shapes b") (simp_all add: pinned_def shape_free again)
  have shape_now: "binding_shape shapes b = Some s \<Longrightarrow> b_shape_hash (pinned h shapes b) = s" for s
    by (simp add: pinned_def)
  show "pinned h shapes (pinned h shapes b) = pinned h shapes b"
  proof (cases "binding_shape shapes b")
    case None
    then show ?thesis using c sh by (simp add: pinned_def [of _ _ "pinned h shapes b"])
  next
    case (Some s)
    then have "pinned h shapes (pinned h shapes b) = (pinned h shapes b)\<lparr>b_shape_hash := s\<rparr>"
      using c sh by (simp add: pinned_def [of _ _ "pinned h shapes b"])
    with shape_now [OF Some] show ?thesis by simp
  qed
  show "\<not> pin_changes h shapes (pinned h shapes b)" "\<not> reshapes shapes (pinned h shapes b)"
    using c sh shape_now by (auto simp: pin_changes_def reshapes_def)
  show "binding_note h (pinned h shapes b) = (if binding_note h b = Pin_Preserved then Pin_Preserved else Pin_Quiet)"
    using c by simp
qed

lemma pinned_rid: "b_requirement_id (pinned h shapes b) = b_requirement_id b"
  using binding_consent_frame [of h b] by (simp add: pinned_def split: option.splits)

lemma note_all_settled:
  assumes "\<forall>r\<in>set rs. rid (f r) = rid r \<and> nt (f r) = (if nt r = Pin_Preserved then Pin_Preserved else Pin_Quiet)"
  shows "note_all rid nt Pin_Preserved (map f rs) = note_all rid nt Pin_Preserved rs"
    and "note_all rid nt Pin_Rehashed (map f rs) = {}"
  using assms by (induction rs) auto

lemma pin_binding_files_quiet:
  assumes "\<not> (\<exists>b\<in>set (file_bindings bfs). pin_changes h shapes b)"
  shows "\<exists>acc'. snd (pin_binding_files tbl h shapes bfs acc) = Inr acc'"
  using assms
proof (induction bfs arbitrary: acc)
  case (Cons bf bfs)
  obtain acc1 where "pin_bindings h shapes (bf_set bf) acc
      = (map (pinned h shapes) (bf_set bf), (\<exists>b\<in>set (bf_set bf). pin_changes h shapes b), acc1)"
    by (rule pin_bindings_parts)
  with Cons show ?case by (simp add: Let_def case_prod_beta)
qed simp

lemma pin_gap_files_quiet:
  assumes "\<not> (\<exists>g\<in>set (map gf_gap gfs). fst (snd (gap_consent h g)))"
  shows "\<exists>acc'. snd (pin_gap_files tbl h gfs acc) = Inr acc'"
  using assms by (induction gfs arbitrary: acc) (simp_all add: Let_def case_prod_beta)

lemma pin_attestation_files_quiet:
  assumes "\<not> (\<exists>a\<in>set (file_attestations afs). fst (snd (attestation_consent h a)))"
  shows "\<exists>acc'. snd (pin_attestation_files tbl h afs acc) = Inr acc'"
  using assms
proof (induction afs arbitrary: acc)
  case (Cons af afs)
  obtain acc1 where "pin_attestations h (af_set af) acc = (map (\<lambda>a. fst (attestation_consent h a)) (af_set af),
      (\<exists>a\<in>set (af_set af). fst (snd (attestation_consent h a))), acc1)"
    by (rule pin_attestations_parts)
  with Cons show ?case by (simp add: Let_def case_prod_beta)
qed simp

lemma pin_quiet:
  assumes "\<not> (\<exists>b\<in>set (store_bindings st). pin_changes h shapes b)"
    and "\<not> (\<exists>g\<in>set (map gf_gap (st_gaps st)). fst (snd (gap_consent h g)))"
    and "\<not> (\<exists>a\<in>set (file_attestations (st_attestations st)). fst (snd (attestation_consent h a)))"
  shows "\<exists>st' rep. pin tbl st h shapes = (st', Inr rep)"
proof -
  obtain acc1 bfs where b: "pin_binding_files tbl h shapes (st_bindings st) pin_start = (bfs, Inr acc1)"
    using pin_binding_files_quiet [of "st_bindings st" h shapes] assms(1)
    by (metis file_bindings_def store_bindings_def prod.collapse)
  obtain acc2 gfs where g: "pin_gap_files tbl h (st_gaps st) acc1 = (gfs, Inr acc2)"
    using pin_gap_files_quiet [OF assms(2)] by (metis prod.collapse)
  obtain acc3 afs where "pin_attestation_files tbl h (st_attestations st) acc2 = (afs, Inr acc3)"
    using pin_attestation_files_quiet [OF assms(3)] by (metis prod.collapse)
  with b g show ?thesis by (simp add: pin_def)
qed

lemma pinned_files_settled:
  assumes "\<forall>rid. h_content h rid \<noteq> Some []"
  shows "pinned_file h shapes (pinned_file h shapes bf) = pinned_file h shapes bf"
    and "pinned_gap_file h (pinned_gap_file h gf) = pinned_gap_file h gf"
    and "pinned_attestation_file h (pinned_attestation_file h af) = pinned_attestation_file h af"
  using assms
  by (simp_all add: pinned_file_def pinned_settled comp_def pinned_gap_file_def gap_pins.settled
      pinned_attestation_file_def attestation_pins.settled)

text \<open>C25: the pass is idempotent: over a corpus whose requirements all have a content hash, a
  second pass after a successful one succeeds, leaves the store as it is, rewrites no file,
  reshapes and rehashes nothing, and names the same preserved requirements.\<close>

theorem pin_idempotent:
  assumes "pin tbl st h shapes = (st', Inr rep)" and "\<forall>rid. h_content h rid \<noteq> Some []"
  shows "pin tbl st' h shapes = (st', Inr \<lparr>pr_updates = Map.empty, pr_preserved = pr_preserved rep,
    pr_reshaped = [], pr_rehashed = []\<rparr>)"
proof -
  have st': "st' = st\<lparr>st_bindings := map (pinned_file h shapes) (st_bindings st),
      st_gaps := map (pinned_gap_file h) (st_gaps st),
      st_attestations := map (pinned_attestation_file h) (st_attestations st)\<rparr>"
    by (rule pin_ok_parts [OF assms(1)])
  have bs: "store_bindings st' = map (pinned h shapes) (store_bindings st)"
    by (simp add: st' store_bindings_def map_concat pinned_file_def comp_def)
  have gs: "map gf_gap (st_gaps st') = map (\<lambda>g. fst (gap_consent h g)) (map gf_gap (st_gaps st))"
    by (simp add: st' pinned_gap_file_def comp_def)
  have as: "file_attestations (st_attestations st')
      = map (\<lambda>a. fst (attestation_consent h a)) (file_attestations (st_attestations st))"
    by (simp add: st' file_attestations_def map_concat pinned_attestation_file_def comp_def)
  have quiet: "\<not> (\<exists>b\<in>set (store_bindings st'). pin_changes h shapes b)"
    "\<not> (\<exists>g\<in>set (map gf_gap (st_gaps st')). fst (snd (gap_consent h g)))"
    "\<not> (\<exists>a\<in>set (file_attestations (st_attestations st')). fst (snd (attestation_consent h a)))"
    unfolding bs gs as using assms(2)
    by (auto simp: pinned_settled gap_pins.settled attestation_pins.settled)
  then obtain st'' rep'' where again: "pin tbl st' h shapes = (st'', Inr rep'')"
    using pin_quiet by blast
  have "st'' = st'\<lparr>st_bindings := map (pinned_file h shapes) (st_bindings st'),
      st_gaps := map (pinned_gap_file h) (st_gaps st'),
      st_attestations := map (pinned_attestation_file h) (st_attestations st')\<rparr>"
    by (rule pin_ok_parts [OF again])
  then have "st'' = st'" by (simp add: st' pinned_files_settled [OF assms(2)] comp_def)
  have nb: "\<forall>r\<in>set bs. b_requirement_id (pinned h shapes r) = b_requirement_id r
      \<and> binding_note h (pinned h shapes r)
        = (if binding_note h r = Pin_Preserved then Pin_Preserved else Pin_Quiet)" for bs
    using assms(2) by (simp add: pinned_settled pinned_rid)
  have ng: "\<forall>r\<in>set gs. g_requirement_id (fst (gap_consent h r)) = g_requirement_id r
      \<and> gap_note h (fst (gap_consent h r))
        = (if gap_note h r = Pin_Preserved then Pin_Preserved else Pin_Quiet)" for gs
    using assms(2) by (simp add: gap_pins.settled gap_pins.rid_kept)
  have na: "\<forall>r\<in>set as. a_requirement_id (fst (attestation_consent h r)) = a_requirement_id r
      \<and> attestation_note h (fst (attestation_consent h r))
        = (if attestation_note h r = Pin_Preserved then Pin_Preserved else Pin_Quiet)" for as
    using assms(2) by (simp add: attestation_pins.settled attestation_pins.rid_kept)
  have "all_noted h Pin_Preserved st' = all_noted h Pin_Preserved st"
    and "all_noted h Pin_Rehashed st' = {}"
    unfolding all_noted_def bs gs as note_all_settled [OF nb] note_all_settled [OF ng]
      note_all_settled [OF na] by simp_all
  then have "pr_preserved rep'' = pr_preserved rep" "pr_rehashed rep'' = []"
    using pin_report_sets(1) [OF assms(1)] pin_report_sets(1,2) [OF again] by simp_all
  moreover have "all_reshaped shapes st' = {}"
    unfolding all_reshaped_def bs using assms(2) by (auto simp: pinned_settled)
  then have "pr_reshaped rep'' = []" using pin_report_sets(3) [OF again] by simp
  moreover have "pr_updates rep'' = Map.empty" using pin_report_sets(4) [OF again] quiet by blast
  ultimately show ?thesis using again \<open>st'' = st'\<close> by simp
qed

lemma pin_idempotent_witness:
  "\<exists>st' rep. pin (\<lambda>_. False) pin_sample_store pin_sample_hashes pin_sample_shapes = (st', Inr rep)
     \<and> snd (pin (\<lambda>_. False) st' pin_sample_hashes pin_sample_shapes)
         = Inr \<lparr>pr_updates = Map.empty, pr_preserved = pr_preserved rep, pr_reshaped = [], pr_rehashed = []\<rparr>"
proof -
  obtain st' rep where ok:
    "pin (\<lambda>_. False) pin_sample_store pin_sample_hashes pin_sample_shapes = (st', Inr rep)"
    using pin_sample_ok by blast
  have "\<forall>rid. h_content pin_sample_hashes rid \<noteq> Some []" by (simp add: pin_sample_hashes_def)
  from pin_idempotent [OF ok this] have "snd (pin (\<lambda>_. False) st' pin_sample_hashes pin_sample_shapes)
      = Inr \<lparr>pr_updates = Map.empty, pr_preserved = pr_preserved rep, pr_reshaped = [], pr_rehashed = []\<rparr>"
    by (simp only: snd_conv)
  with ok show ?thesis by (intro exI conjI)
qed

end
