(* ===== verification/Hygiene.thy ===== *)
theory Hygiene
  imports Pin
begin

text \<open>
  The record hygiene of \<open>internal/verify/hygiene.go\<close>: the record-only judgment of every
  binding, attestation and gap against the compiled corpus. The judge is a state machine that
  remembers the claims, attestations and gaps it has seen; it is passed and returned.
\<close>

section \<open>Problems\<close>

datatype problem = Problem (p_path: string) (p_message: string)

instantiation problem :: linorder
begin

definition less_eq_problem :: "problem \<Rightarrow> problem \<Rightarrow> bool" where
  "less_eq_problem a b \<longleftrightarrow>
     (if p_path a \<noteq> p_path b then p_path a < p_path b else p_message a \<le> p_message b)"

definition less_problem :: "problem \<Rightarrow> problem \<Rightarrow> bool" where
  "less_problem a b \<longleftrightarrow>
     (if p_path a \<noteq> p_path b then p_path a < p_path b else p_message a < p_message b)"

instance
proof
  fix x y z :: problem
  show "x < y \<longleftrightarrow> x \<le> y \<and> \<not> y \<le> x"
    unfolding less_eq_problem_def less_problem_def by (auto simp: less_le_not_le)
  show "x \<le> x" by (simp add: less_eq_problem_def)
  show "x \<le> y \<Longrightarrow> y \<le> z \<Longrightarrow> x \<le> z"
    unfolding less_eq_problem_def by (auto split: if_splits)
  show "x \<le> y \<Longrightarrow> y \<le> x \<Longrightarrow> x = y"
    unfolding less_eq_problem_def by (cases x; cases y) (auto split: if_splits)
  show "x \<le> y \<or> y \<le> x"
    unfolding less_eq_problem_def by (auto split: if_splits)
qed

end

text \<open>The comparator of sortProblems is that order, so the sorted list is determined.\<close>

definition sort_problems :: "problem list \<Rightarrow> problem list" where
  "sort_problems ps = sort ps"

section \<open>The judge\<close>

record hyg =
  hy_hashes :: hashes
  hy_reqs :: "string \<rightharpoonup> requirement"
  hy_seen :: "string set"
  hy_symbol_claims :: "string \<Rightarrow> nat"
  hy_gapped :: "string set"
  hy_attested :: "string \<rightharpoonup> string"
  hy_seen_gaps :: "string \<rightharpoonup> string"
  hy_allow_whole :: bool

text \<open>The nested loops over files and their records, as the flat lists they visit.\<close>

definition claims_of :: "store \<Rightarrow> (string \<times> binding) list" where
  "claims_of st = concat (map (\<lambda>bf. map (Pair (bf_path bf)) (bf_set bf)) (st_bindings st))"

definition attested_of :: "store \<Rightarrow> (string \<times> attestation) list" where
  "attested_of st = concat (map (\<lambda>af. map (Pair (af_path af)) (af_set af)) (st_attestations st))"

definition gaps_of :: "store \<Rightarrow> (string \<times> gap) list" where
  "gaps_of st = map (\<lambda>gf. (gf_path gf, gf_gap gf)) (st_gaps st)"

definition claim_pair :: "binding \<Rightarrow> string" where
  "claim_pair b = b_requirement_id b @ ''|'' @ b_symbol b"

definition new_hygiene :: "spec \<Rightarrow> store \<Rightarrow> hyg" where
  "new_hygiene sp st =
     \<lparr>hy_hashes = hashes_of sp, hy_reqs = by_id sp, hy_seen = {},
      hy_symbol_claims = (\<lambda>k. length (filter (\<lambda>b. claim_pair b = k) (store_bindings st))),
      hy_gapped = set (map (g_requirement_id \<circ> gf_gap) (st_gaps st)),
      hy_attested = Map.empty, hy_seen_gaps = Map.empty, hy_allow_whole = st_allow_whole st\<rparr>"

definition unscoped_message :: "hyg \<Rightarrow> string \<Rightarrow> binding \<Rightarrow> string" where
  "unscoped_message j path b =
     (let rid = b_requirement_id b; sym = b_symbol b; offered = clauses_offered (hy_reqs j rid) in
      if 1 < hy_symbol_claims j (claim_pair b)
      then ''binding '' @ sym @ '' on '' @ rid @ '' has no clause scope in '' @ path @ '', and '' @ rid
        @ '' is clause-structured ('' @ offered @ '') '' @ em_dash
        @ '' scope or remove the record in '' @ path
      else ''binding '' @ sym @ '' on '' @ rid @ '' has no clause scope, and '' @ rid
        @ '' is clause-structured ('' @ offered @ '') '' @ em_dash
        @ '' rebind per clause or unbind it: '' @ remedy_unbind rid sym [])"

definition dangling_clause_message :: "string \<Rightarrow> binding \<Rightarrow> string" where
  "dangling_clause_message path b =
     (let rid = b_requirement_id b; sym = b_symbol b in
      if trim_space (clause_spelling b) = []
      then ''binding '' @ sym @ '' on '' @ rid @ '' has a malformed empty clause_label in '' @ path
        @ '' '' @ em_dash @ '' remove or repair the record in '' @ path
        @ '' (an unbind without --clause would remove every claim on '' @ rid @ '' + '' @ sym @ '')''
      else ''binding '' @ sym @ '' on '' @ rid @ '' names '' @ clause_name b @ '', which '' @ rid
        @ '' no longer declares '' @ em_dash @ '' rebind against its current clauses or unbind it: ''
        @ remedy_unbind rid sym (clause_spelling b))"

text \<open>The last leg of the judgment: the problem with the claim's id or clause, if any, and the clause.\<close>

definition judge_scope :: "hyg \<Rightarrow> string \<Rightarrow> binding \<Rightarrow> string list \<times> clause option" where
  "judge_scope j path b =
     (let rid = b_requirement_id b in
      if rid \<noteq> [] \<and> \<not> known (hy_hashes j) rid
      then ([''binding names '' @ rid @ '', which is not in the corpus '' @ em_dash @ '' unbind it: ''
              @ remedy_unbind rid [] [] @ '' (or '' @ remedy_retire rid
              @ '' if the requirement was removed deliberately)''], None)
      else if rid \<noteq> []
      then (case resolve_clause (hy_reqs j rid) b of
              None \<Rightarrow> ([dangling_clause_message path b], None)
            | Some None \<Rightarrow>
                (if requires_clause_scope (hy_reqs j rid) (b_role b) (hy_allow_whole j)
                 then [unscoped_message j path b] else [], None)
            | Some (Some c) \<Rightarrow> ([], Some c))
      else ([], None))"

definition duplicate_message :: "hyg \<Rightarrow> binding \<Rightarrow> string" where
  "duplicate_message j b =
     ''duplicate binding: '' @ b_requirement_id b @ '' '' @ b_symbol b @ '' '' @ role_string (b_role b)
       @ clause_suffix (hy_reqs j (b_requirement_id b)) b"

definition field_problems :: "binding \<Rightarrow> string list" where
  "field_problems b =
     (let rid = b_requirement_id b in
      (if rid = [] then [''binding without requirement_id''] else [])
      @ (if b_backend b = [] then [''binding for '' @ rid @ '' has no backend''] else [])
      @ (if b_symbol b = [] then [''binding for '' @ rid @ '' has no symbol''] else [])
      @ (if b_role b = ROLE_UNSPECIFIED then [''binding for '' @ rid @ '' has no role''] else []))"

text \<open>One claim: the judge after it, its problems, whether it is malformed, its clause.\<close>

definition hyg_binding ::
  "hyg \<Rightarrow> string \<Rightarrow> binding \<Rightarrow> hyg \<times> problem list \<times> bool \<times> clause option" where
  "hyg_binding j path b =
     (let key = claim_identity (hy_reqs j (b_requirement_id b)) b;
          dup = (if key \<in> hy_seen j then [duplicate_message j b] else []);
          j' = j\<lparr>hy_seen := insert key (hy_seen j)\<rparr>;
          fields = field_problems b
      in case judge_scope j' path b of (scope, clause) \<Rightarrow>
           (j', map (Problem path) (dup @ fields @ scope), fields \<noteq> [] \<or> scope \<noteq> [], clause))"

definition hyg_attestation :: "hyg \<Rightarrow> string \<Rightarrow> attestation \<Rightarrow> hyg \<times> problem list \<times> bool" where
  "hyg_attestation j path a =
     (let rid = a_requirement_id a; problem = (\<lambda>m. [Problem path m]) in
      if rid = [] then (j, problem ''attestation without requirement_id'', False)
      else if a_reason a = [] then (j, problem (''attestation for '' @ rid @ '' has no reason''), False)
      else case hy_attested j rid of
        Some prior \<Rightarrow>
          (j, problem (''attestation for '' @ rid @ '' duplicates '' @ prior
                @ ''; one judgment per requirement''), False)
      | None \<Rightarrow>
          let j' = j\<lparr>hy_attested := (hy_attested j)(rid \<mapsto> path)\<rparr> in
          if \<not> known (hy_hashes j) rid
          then (j', problem (''attestation names '' @ rid @ '', which is not in the corpus '' @ em_dash
                 @ '' retract it: '' @ remedy_attest_retract rid), False)
          else if rid \<in> hy_gapped j
          then (j', problem (rid @ '' is both gapped and attested; the records contradict '' @ em_dash
                 @ '' retract one: '' @ remedy_gap_retract rid @ '', or '' @ remedy_attest_retract rid), False)
          else (j', [], True))"

definition hyg_gap :: "hyg \<Rightarrow> string \<Rightarrow> gap \<Rightarrow> hyg \<times> problem list" where
  "hyg_gap j path g =
     (let rid = g_requirement_id g;
          ident = (if rid = [] then [''gap without requirement_id'']
                   else if \<not> known (hy_hashes j) rid
                   then [''gap names '' @ rid @ '', which is not in the corpus '' @ em_dash
                     @ '' retract it: '' @ remedy_gap_retract rid @ '' (or '' @ remedy_prune True
                     @ '' for the bulk repair)'']
                   else []);
          seen = (if rid = [] then (j, [])
                  else case hy_seen_gaps j rid of
                    Some prior \<Rightarrow> (j, [''gap for '' @ rid @ '' duplicates '' @ prior
                      @ ''; one declaration per requirement''])
                  | None \<Rightarrow> (j\<lparr>hy_seen_gaps := (hy_seen_gaps j)(rid \<mapsto> path)\<rparr>, []))
      in (fst seen,
          map (Problem path)
            (ident @ snd seen
             @ (if g_reason g = [] then [''gap for '' @ rid @ '' has no reason''] else [])
             @ (if g_lands g = None then [''gap for '' @ rid @ '' has no landing condition''] else []))))"

section \<open>The passes\<close>

text \<open>A loop over records that threads the judge and collects one output per record.\<close>

fun walk :: "('s \<Rightarrow> 'a \<Rightarrow> 's \<times> 'b) \<Rightarrow> 's \<Rightarrow> 'a list \<Rightarrow> 's \<times> 'b list" where
  "walk f s [] = (s, [])"
| "walk f s (x # xs) =
     (case f s x of (s1, y) \<Rightarrow> (case walk f s1 xs of (s2, ys) \<Rightarrow> (s2, y # ys)))"

definition claim_step :: "hyg \<Rightarrow> string \<times> binding \<Rightarrow> hyg \<times> problem list \<times> bool \<times> clause option" where
  "claim_step j c = hyg_binding j (fst c) (snd c)"

definition attestation_step :: "hyg \<Rightarrow> string \<times> attestation \<Rightarrow> hyg \<times> problem list \<times> bool" where
  "attestation_step j c = hyg_attestation j (fst c) (snd c)"

definition gap_step :: "hyg \<Rightarrow> string \<times> gap \<Rightarrow> hyg \<times> problem list" where
  "gap_step j c = hyg_gap j (fst c) (snd c)"

definition judge_bindings :: "spec \<Rightarrow> store \<Rightarrow> hyg \<times> (problem list \<times> bool \<times> clause option) list" where
  "judge_bindings sp st = walk claim_step (new_hygiene sp st) (claims_of st)"

definition judge_attestations :: "spec \<Rightarrow> store \<Rightarrow> hyg \<times> (problem list \<times> bool) list" where
  "judge_attestations sp st =
     walk attestation_step (fst (judge_bindings sp st)) (attested_of st)"

definition judge_gaps :: "spec \<Rightarrow> store \<Rightarrow> hyg \<times> problem list list" where
  "judge_gaps sp st = walk gap_step (fst (judge_attestations sp st)) (gaps_of st)"

definition hygiene :: "spec \<Rightarrow> store \<Rightarrow> problem list" where
  "hygiene sp st =
     sort_problems (concat (map fst (snd (judge_bindings sp st)))
       @ concat (map fst (snd (judge_attestations sp st)))
       @ concat (snd (judge_gaps sp st)))"

section \<open>What the hygiene accepts\<close>

lemma walk_length: "length (snd (walk f s xs)) = length xs"
  by (induction xs arbitrary: s) (auto simp: case_prod_beta)

lemma claim_step_pair: "claim_step j (p, b) = hyg_binding j p b"
  by (simp add: claim_step_def)

lemma attestation_step_pair: "attestation_step j (p, a) = hyg_attestation j p a"
  by (simp add: attestation_step_def)

lemma gap_step_pair: "gap_step j (p, g) = hyg_gap j p g"
  by (simp add: gap_step_def)

text \<open>The judge after one record, field by field.\<close>

lemma hyg_seen_frame:
  "hy_hashes (j\<lparr>hy_seen := S\<rparr>) = hy_hashes j" "hy_reqs (j\<lparr>hy_seen := S\<rparr>) = hy_reqs j"
  "hy_allow_whole (j\<lparr>hy_seen := S\<rparr>) = hy_allow_whole j"
  by simp_all

lemma judge_scope_seen: "judge_scope (j\<lparr>hy_seen := S\<rparr>) path b = judge_scope j path b"
proof -
  have "unscoped_message (j\<lparr>hy_seen := S\<rparr>) path b = unscoped_message j path b"
    by (simp add: unscoped_message_def)
  then show ?thesis by (simp only: judge_scope_def hyg.select_convs hyg.update_convs hyg_seen_frame)
qed

lemma hyg_binding_step:
  "hyg_binding j path b =
     (j\<lparr>hy_seen := insert (claim_identity (hy_reqs j (b_requirement_id b)) b) (hy_seen j)\<rparr>,
      map (Problem path)
        ((if claim_identity (hy_reqs j (b_requirement_id b)) b \<in> hy_seen j then [duplicate_message j b] else [])
         @ field_problems b @ fst (judge_scope j path b)),
      field_problems b \<noteq> [] \<or> fst (judge_scope j path b) \<noteq> [], snd (judge_scope j path b))"
  by (simp add: hyg_binding_def Let_def judge_scope_seen case_prod_beta)

lemma hyg_attestation_frame [frame_simps]:
  "hy_hashes (fst (hyg_attestation j p a)) = hy_hashes j"
  "hy_gapped (fst (hyg_attestation j p a)) = hy_gapped j"
  "hy_seen_gaps (fst (hyg_attestation j p a)) = hy_seen_gaps j"
  by (auto simp: hyg_attestation_def Let_def split: option.splits)

definition claim_ok :: "(string \<rightharpoonup> requirement) \<Rightarrow> hashes \<Rightarrow> bool \<Rightarrow> binding \<Rightarrow> bool" where
  "claim_ok reqs h allow b \<longleftrightarrow>
     b_requirement_id b \<noteq> [] \<and> b_backend b \<noteq> [] \<and> b_symbol b \<noteq> [] \<and> b_role b \<noteq> ROLE_UNSPECIFIED
     \<and> known h (b_requirement_id b)
     \<and> resolve_clause (reqs (b_requirement_id b)) b \<noteq> None
     \<and> \<not> (resolve_clause (reqs (b_requirement_id b)) b = Some None
          \<and> requires_clause_scope (reqs (b_requirement_id b)) (b_role b) allow)"

lemma claim_ok_iff:
  "claim_ok (hy_reqs j) (hy_hashes j) (hy_allow_whole j) b
     \<longleftrightarrow> field_problems b = [] \<and> fst (judge_scope j path b) = []"
  by (auto simp: claim_ok_def field_problems_def judge_scope_def Let_def split: option.splits)

definition hyg_identity :: "(string \<rightharpoonup> requirement) \<Rightarrow> binding \<Rightarrow> string" where
  "hyg_identity reqs b = claim_identity (reqs (b_requirement_id b)) b"

lemma walk_bindings_judge:
  "fst (walk claim_step j cs)
     = j\<lparr>hy_seen := hyg_identity (hy_reqs j) ` set (map snd cs) \<union> hy_seen j\<rparr>"
proof (induction cs arbitrary: j)
  case (Cons c cs)
  obtain p b where c: "c = (p, b)" by fastforce
  show ?case
    by (simp add: c claim_step_pair hyg_binding_step case_prod_beta Cons.IH hyg_identity_def)
qed simp

lemma walk_bindings:
  "concat (map fst (snd (walk claim_step j cs))) = []
     \<longleftrightarrow> distinct (map (hyg_identity (hy_reqs j)) (map snd cs))
       \<and> hyg_identity (hy_reqs j) ` set (map snd cs) \<inter> hy_seen j = {}
       \<and> list_all (claim_ok (hy_reqs j) (hy_hashes j) (hy_allow_whole j)) (map snd cs)"
proof (induction cs arbitrary: j)
  case (Cons c cs)
  obtain p b where c: "c = (p, b)" by fastforce
  let ?j = "j\<lparr>hy_seen := insert (hyg_identity (hy_reqs j) b) (hy_seen j)\<rparr>"
  show ?case
    using Cons.IH [of ?j] claim_ok_iff [of j b p]
    by (auto simp: c claim_step_pair hyg_binding_step case_prod_beta hyg_identity_def simp del: concat_eq_Nil_conv)
qed simp

definition attestation_ok :: "hashes \<Rightarrow> string set \<Rightarrow> attestation \<Rightarrow> bool" where
  "attestation_ok h gapped a \<longleftrightarrow>
     a_requirement_id a \<noteq> [] \<and> a_reason a \<noteq> [] \<and> known h (a_requirement_id a)
     \<and> a_requirement_id a \<notin> gapped"

lemma hyg_attestation_clean:
  "fst (snd (hyg_attestation j p a)) = []
     \<longleftrightarrow> attestation_ok (hy_hashes j) (hy_gapped j) a \<and> a_requirement_id a \<notin> dom (hy_attested j)"
  "fst (snd (hyg_attestation j p a)) = [] \<Longrightarrow>
     dom (hy_attested (fst (hyg_attestation j p a))) = insert (a_requirement_id a) (dom (hy_attested j))"
  by (auto simp: hyg_attestation_def attestation_ok_def Let_def domIff split: option.splits if_splits)

lemma walk_attestations:
  "concat (map fst (snd (walk attestation_step j cs))) = []
     \<longleftrightarrow> distinct (map a_requirement_id (map snd cs))
       \<and> a_requirement_id ` set (map snd cs) \<inter> dom (hy_attested j) = {}
       \<and> list_all (attestation_ok (hy_hashes j) (hy_gapped j)) (map snd cs)"
proof (induction cs arbitrary: j)
  case (Cons c cs)
  obtain p a where c: "c = (p, a)" by fastforce
  let ?s = "hyg_attestation j p a"
  show ?case
  proof (cases "fst (snd ?s) = []")
    case True
    with Cons.IH [of "fst ?s"] hyg_attestation_clean [of j p a] show ?thesis
      by (auto simp: c attestation_step_pair case_prod_beta frame_simps simp del: concat_eq_Nil_conv)
  next
    case False
    with hyg_attestation_clean(1) [of j p a] show ?thesis
      by (auto simp: c attestation_step_pair case_prod_beta simp del: concat_eq_Nil_conv)
  qed
qed (simp_all add: case_prod_beta)

lemma walk_attestations_frame:
  "hy_hashes (fst (walk attestation_step j cs)) = hy_hashes j
   \<and> hy_seen_gaps (fst (walk attestation_step j cs)) = hy_seen_gaps j"
proof (induction cs arbitrary: j)
  case (Cons c cs)
  then show ?case by (cases c) (simp add: attestation_step_pair case_prod_beta frame_simps)
qed simp

definition gap_ok :: "hashes \<Rightarrow> gap \<Rightarrow> bool" where
  "gap_ok h g \<longleftrightarrow>
     g_requirement_id g \<noteq> [] \<and> known h (g_requirement_id g) \<and> g_reason g \<noteq> [] \<and> g_lands g \<noteq> None"

lemma hyg_gap_clean:
  "snd (hyg_gap j p g) = []
     \<longleftrightarrow> gap_ok (hy_hashes j) g \<and> g_requirement_id g \<notin> dom (hy_seen_gaps j)"
  "snd (hyg_gap j p g) = [] \<Longrightarrow>
     dom (hy_seen_gaps (fst (hyg_gap j p g))) = insert (g_requirement_id g) (dom (hy_seen_gaps j))"
  "hy_hashes (fst (hyg_gap j p g)) = hy_hashes j"
  by (auto simp: hyg_gap_def gap_ok_def Let_def domIff split: option.splits if_splits)

lemma walk_gaps:
  "concat (snd (walk gap_step j cs)) = []
     \<longleftrightarrow> distinct (map g_requirement_id (map snd cs))
       \<and> g_requirement_id ` set (map snd cs) \<inter> dom (hy_seen_gaps j) = {}
       \<and> list_all (gap_ok (hy_hashes j)) (map snd cs)"
proof (induction cs arbitrary: j)
  case (Cons c cs)
  obtain p g where c: "c = (p, g)" by fastforce
  let ?s = "hyg_gap j p g"
  show ?case
  proof (cases "snd ?s = []")
    case True
    with Cons.IH [of "fst ?s"] hyg_gap_clean [of j p g] show ?thesis
      by (auto simp: c gap_step_pair case_prod_beta simp del: concat_eq_Nil_conv)
  next
    case False
    with hyg_gap_clean(1) [of j p g] show ?thesis
      by (auto simp: c gap_step_pair case_prod_beta simp del: concat_eq_Nil_conv)
  qed
qed (simp_all add: case_prod_beta)

lemma claims_of_bindings: "map snd (claims_of st) = store_bindings st"
  by (simp add: claims_of_def store_bindings_def map_concat comp_def)

lemma attested_of_attestations: "map snd (attested_of st) = concat (map af_set (st_attestations st))"
  by (simp add: attested_of_def map_concat comp_def)

lemma gaps_of_gaps: "map snd (gaps_of st) = map gf_gap (st_gaps st)"
  by (simp add: gaps_of_def)

text \<open>Records in order: what the judge asks of them, without a judge.\<close>

definition records_ok :: "spec \<Rightarrow> store \<Rightarrow> bool" where
  "records_ok sp st \<longleftrightarrow>
     distinct (map (hyg_identity (by_id sp)) (store_bindings st))
     \<and> list_all (claim_ok (by_id sp) (hashes_of sp) (st_allow_whole st)) (store_bindings st)
     \<and> distinct (map a_requirement_id (concat (map af_set (st_attestations st))))
     \<and> list_all (attestation_ok (hashes_of sp) (set (map (g_requirement_id \<circ> gf_gap) (st_gaps st))))
         (concat (map af_set (st_attestations st)))
     \<and> distinct (map (g_requirement_id \<circ> gf_gap) (st_gaps st))
     \<and> list_all (gap_ok (hashes_of sp)) (map gf_gap (st_gaps st))"

lemma hygiene_records: "hygiene sp st = [] \<longleftrightarrow> records_ok sp st"
proof -
  let ?jb = "fst (judge_bindings sp st)" and ?ja = "fst (judge_attestations sp st)"
  have jb: "?jb = (new_hygiene sp st)\<lparr>hy_seen := hyg_identity (by_id sp) ` set (store_bindings st)\<rparr>"
    by (simp add: judge_bindings_def walk_bindings_judge claims_of_bindings new_hygiene_def)
  have ja: "hy_hashes ?ja = hashes_of sp" "hy_seen_gaps ?ja = Map.empty"
    using walk_attestations_frame [of ?jb "attested_of st"]
    by (simp_all add: judge_attestations_def jb new_hygiene_def)
  have b: "concat (map fst (snd (judge_bindings sp st))) = [] \<longleftrightarrow>
      distinct (map (hyg_identity (by_id sp)) (store_bindings st))
      \<and> list_all (claim_ok (by_id sp) (hashes_of sp) (st_allow_whole st)) (store_bindings st)"
    unfolding judge_bindings_def walk_bindings claims_of_bindings by (simp add: new_hygiene_def)
  have a: "concat (map fst (snd (judge_attestations sp st))) = [] \<longleftrightarrow>
      distinct (map a_requirement_id (concat (map af_set (st_attestations st))))
      \<and> list_all (attestation_ok (hashes_of sp) (set (map (g_requirement_id \<circ> gf_gap) (st_gaps st))))
         (concat (map af_set (st_attestations st)))"
    unfolding judge_attestations_def walk_attestations attested_of_attestations
    by (simp add: jb new_hygiene_def)
  have g: "concat (snd (judge_gaps sp st)) = [] \<longleftrightarrow>
      distinct (map g_requirement_id (map gf_gap (st_gaps st)))
      \<and> list_all (gap_ok (hashes_of sp)) (map gf_gap (st_gaps st))"
    unfolding judge_gaps_def walk_gaps gaps_of_gaps by (simp add: ja)
  have empty_sort: "sort_problems ps = [] \<longleftrightarrow> ps = []" for ps
    by (metis length_0_conv length_sort sort_problems_def)
  show ?thesis
    unfolding hygiene_def empty_sort append_is_Nil_conv b a g records_ok_def by (simp add: conj_ac)
qed

text \<open>C8: the hygiene is exact: it reports no problem precisely on a store whose claims have
  distinct identities and each name a corpus requirement, a backend, a symbol, a role and a
  declared clause (one where the requirement demands one), whose attestations name distinct,
  known, ungapped requirements with a reason, and whose gaps are one per known requirement
  with a reason and a landing condition.\<close>

theorem hygiene_clean_iff: "hygiene sp st = [] \<longleftrightarrow> records_ok sp st"
  by (rule hygiene_records)

end
