(* ===== verification/Verify.thy ===== *)
theory Verify
  imports Hygiene "HOL-Library.Product_Lexorder"
begin

text \<open>
  The verification pass of \<open>internal/verify\<close>: Resolve (the questions put to the backends),
  Correlate (the witness run joined to the rows), the tally, the change signatures and the
  reason histogram, and the account a pass carries on its errors. A backend is code of a
  language plug-in and a parameter of the model: a record of the answers it gives, with its
  optional extensions as options (the notices are those it answers once closed).
\<close>

section \<open>Facts\<close>

datatype resolution = Unverified | Resolved | NotFound | GeneratedFile
datatype shape_state = ShapeUnknown | ShapeUnpinned | ShapeMatch | ShapeMismatch
datatype test_outcome = TestNotRun | TestPassed | TestFailed | TestSkipped
datatype witness_class = ExampleWitness | PropertyWitness | AnalyzerProof

record backend =
  be_resolve :: "string \<Rightarrow> string + (resolution \<times> string)"
  be_locator :: "(string \<Rightarrow> string option) option"
  be_verdicts :: "(string \<Rightarrow> witness_class \<times> string) option"
  be_classifier :: "(string \<Rightarrow> witness_class) option"
  be_notices :: "string list option"

record registration =
  rg_package :: string
  rg_test :: string
  rg_requirement :: string

definition top_level :: "registration \<Rightarrow> string" where
  "top_level r = takeWhile (\<lambda>c. c \<noteq> CHR ''/'') (rg_test r)"

text \<open>
  The advisory messages a run carries (cache account, diagnostics, timing) are passed along
  unread: the type \<open>'m\<close>. A map read of a missing key gives the zero value.
\<close>

record 'm test_run =
  tr_cache_load :: "'m option"
  tr_race_enabled :: bool
  tr_plain_witness :: "string set"
  tr_outcomes :: "string \<rightharpoonup> test_outcome"
  tr_registrations :: "registration list"
  tr_outside_subjects :: "string set"
  tr_scope_skipped :: "string set"
  tr_no_outcome :: "string \<rightharpoonup> string"
  tr_selective_serving :: bool
  tr_outside_policy :: int
  tr_diagnostics :: "'m list"
  tr_timing :: "'m option"

definition outcome_of :: "'m test_run \<Rightarrow> string \<Rightarrow> test_outcome" where
  "outcome_of tr k = (case tr_outcomes tr k of None \<Rightarrow> TestNotRun | Some x \<Rightarrow> x)"

record binding_result =
  br_path :: string
  br_requirement_id :: string
  br_symbol :: string
  br_clause :: "clause option"
  br_package :: string
  br_backend :: string
  br_role :: binding_role
  br_content_pinned :: bool
  br_rehash :: bool
  br_resolution :: resolution
  br_shape :: shape_state
  br_test_outcome :: test_outcome
  br_witness_class :: witness_class
  br_witness_class_reason :: string
  br_race_enabled :: bool
  br_outside_selection :: bool
  br_no_outcome_cause :: string
  br_scope_skipped :: bool

record attestation_result =
  ar_requirement_id :: string
  ar_reason :: string
  ar_content_pinned :: bool
  ar_rehash :: bool

datatype signature_label = Rearchitecture | SemanticDrift

record change_signature =
  cs_requirement_id :: string
  cs_label :: signature_label
  cs_evidence :: "string list"

record tally_counts =
  tl_pinned :: nat
  tl_stale :: nat
  tl_rehash :: nat
  tl_shape_pinned :: nat
  tl_shape_unpinned :: nat
  tl_shape_mismatch :: nat
  tl_broken :: nat
  tl_unverified :: nat
  tl_passed :: nat
  tl_failed :: nat
  tl_not_run :: nat

record 'm report =
  rp_cache_load :: "'m option"
  rp_problems :: "problem list"
  rp_results :: "binding_result list"
  rp_tally :: tally_counts
  rp_witnessed :: bool
  rp_registrations :: "(registration \<times> test_outcome) list"
  rp_outside_policy :: int
  rp_resolution_notices :: "string list"
  rp_diagnostics :: "'m list"
  rp_attestations :: "attestation_result list"
  rp_signatures :: "change_signature list"
  rp_timing :: "'m option"

definition serving_class_required :: "'m test_run option \<Rightarrow> string option" where
  "serving_class_required tr =
     (case tr of
        Some t \<Rightarrow> if \<not> tr_selective_serving t
          then Some ''this operation takes serving-class witness evidence (proven-fresh records with selective execution of the stale remainder), never a whole policy execution''
          else None
      | None \<Rightarrow> None)"

section \<open>The tally\<close>

definition tally_zero :: tally_counts where
  "tally_zero = \<lparr>tl_pinned = 0, tl_stale = 0, tl_rehash = 0, tl_shape_pinned = 0, tl_shape_unpinned = 0,
     tl_shape_mismatch = 0, tl_broken = 0, tl_unverified = 0, tl_passed = 0, tl_failed = 0, tl_not_run = 0\<rparr>"

definition tally_consent :: "binding_result \<Rightarrow> tally_counts \<Rightarrow> tally_counts" where
  "tally_consent br t =
     (let t1 = (if br_content_pinned br then t\<lparr>tl_pinned := tl_pinned t + 1\<rparr>
                else t\<lparr>tl_stale := tl_stale t + 1\<rparr>)
      in if br_rehash br then t1\<lparr>tl_rehash := tl_rehash t1 + 1\<rparr> else t1)"

definition tally_outcome :: "bool \<Rightarrow> binding_result \<Rightarrow> tally_counts \<Rightarrow> tally_counts" where
  "tally_outcome witnessed br t =
     (if witnessed \<and> tests_or_proves (br_role br)
      then (case br_test_outcome br of
              TestPassed \<Rightarrow> t\<lparr>tl_passed := tl_passed t + 1\<rparr>
            | TestFailed \<Rightarrow> t\<lparr>tl_failed := tl_failed t + 1\<rparr>
            | TestNotRun \<Rightarrow> t\<lparr>tl_not_run := tl_not_run t + 1\<rparr>
            | TestSkipped \<Rightarrow> t)
      else t)"

definition tally_resolution :: "binding_result \<Rightarrow> tally_counts \<Rightarrow> tally_counts" where
  "tally_resolution br t =
     (case br_resolution br of
        Unverified \<Rightarrow> t\<lparr>tl_unverified := tl_unverified t + 1\<rparr>
      | NotFound \<Rightarrow> t\<lparr>tl_broken := tl_broken t + 1\<rparr>
      | Resolved \<Rightarrow>
          (case br_shape br of
             ShapeUnpinned \<Rightarrow> t\<lparr>tl_shape_unpinned := tl_shape_unpinned t + 1\<rparr>
           | ShapeMatch \<Rightarrow> t\<lparr>tl_shape_pinned := tl_shape_pinned t + 1\<rparr>
           | ShapeMismatch \<Rightarrow> t\<lparr>tl_shape_mismatch := tl_shape_mismatch t + 1\<rparr>
           | ShapeUnknown \<Rightarrow> t)
      | GeneratedFile \<Rightarrow> t)"

definition tally_row :: "bool \<Rightarrow> binding_result \<Rightarrow> tally_counts \<Rightarrow> tally_counts" where
  "tally_row witnessed br t = tally_resolution br (tally_outcome witnessed br (tally_consent br t))"

definition tally :: "'m report \<Rightarrow> 'm report" where
  "tally r = r\<lparr>rp_tally :=
     fold (\<lambda>a t. if ar_rehash a then t\<lparr>tl_rehash := tl_rehash t + 1\<rparr> else t) (rp_attestations r)
       (fold (tally_row (rp_witnessed r)) (rp_results r) tally_zero)\<rparr>"

section \<open>Resolve\<close>

definition shape_of :: "binding \<Rightarrow> string \<Rightarrow> shape_state" where
  "shape_of b shape =
     (if b_shape_hash b = [] then ShapeUnpinned
      else if b_shape_hash b = shape then ShapeMatch else ShapeMismatch)"

text \<open>The questions put to the binding's backend for one well-formed claim, and the problems they add.\<close>

definition resolve_claim ::
  "hashes \<Rightarrow> (string \<rightharpoonup> backend) \<Rightarrow> bool \<Rightarrow> string \<Rightarrow> binding \<Rightarrow> clause option
     \<Rightarrow> problem list \<times> binding_result" where
  "resolve_claim h backends witnessing path b clause =
     (let rid = b_requirement_id b; sym = b_symbol b;
          consent = judge h rid (b_content_hash b) (b_source_hash b);
          be = backends (b_backend b);
          package = (case be of None \<Rightarrow> [] | Some k \<Rightarrow>
                       (case be_locator k of None \<Rightarrow> [] | Some loc \<Rightarrow>
                          (case loc sym of None \<Rightarrow> [] | Some pkg \<Rightarrow> pkg)));
          class = (if witnessing \<and> tests_or_proves (b_role b)
                   then (case be of None \<Rightarrow> (ExampleWitness, []) | Some k \<Rightarrow>
                     (case be_verdicts k of
                        Some v \<Rightarrow> v sym
                      | None \<Rightarrow> (case be_classifier k of
                          Some cl \<Rightarrow> (cl sym, []) | None \<Rightarrow> (ExampleWitness, []))))
                   else (ExampleWitness, []));
          answer = (case be of
             None \<Rightarrow> ([], Unverified, ShapeUnknown)
           | Some k \<Rightarrow>
               (case be_resolve k sym of
                  Inl err \<Rightarrow> ([Problem path (''resolving '' @ sym @ '': '' @ err)], Unverified, ShapeUnknown)
                | Inr (res, shape) \<Rightarrow>
                    (case res of
                       GeneratedFile \<Rightarrow>
                         ([Problem path (''symbol '' @ sym
                             @ '' is declared in a generated file; bind the generating artifact instead'')],
                          GeneratedFile, ShapeUnknown)
                     | NotFound \<Rightarrow> ([], NotFound, ShapeUnknown)
                     | Unverified \<Rightarrow> ([], Unverified, ShapeUnknown)
                     | Resolved \<Rightarrow> ([], Resolved, shape_of b shape))))
      in (fst answer,
          \<lparr>br_path = path, br_requirement_id = rid, br_symbol = sym, br_clause = clause,
           br_package = package, br_backend = b_backend b, br_role = b_role b,
           br_content_pinned = consent_holds consent, br_rehash = (consent = Consent_Rehash),
           br_resolution = fst (snd answer), br_shape = snd (snd answer),
           br_test_outcome = TestNotRun, br_witness_class = fst class,
           br_witness_class_reason = snd class, br_race_enabled = False,
           br_outside_selection = False, br_no_outcome_cause = [], br_scope_skipped = False\<rparr>))"

text \<open>The rows: one per claim the hygiene does not find malformed, in store order.\<close>

definition resolve_rows ::
  "spec \<Rightarrow> store \<Rightarrow> (string \<rightharpoonup> backend) \<Rightarrow> bool \<Rightarrow> (problem list \<times> binding_result) list" where
  "resolve_rows sp st backends witnessing =
     concat (map (\<lambda>((path, b), (ps, malformed, clause)).
         if malformed then [] else [resolve_claim (hashes_of sp) backends witnessing path b clause])
       (zip (claims_of st) (snd (judge_bindings sp st))))"

definition attestation_row :: "hashes \<Rightarrow> attestation \<Rightarrow> attestation_result" where
  "attestation_row h a =
     (let consent = judge h (a_requirement_id a) (a_content_hash a) (a_source_hash a) in
      \<lparr>ar_requirement_id = a_requirement_id a, ar_reason = a_reason a,
       ar_content_pinned = consent_holds consent, ar_rehash = (consent = Consent_Rehash)\<rparr>)"

definition attestation_rows :: "spec \<Rightarrow> store \<Rightarrow> attestation_result list" where
  "attestation_rows sp st =
     concat (map (\<lambda>((path, a), (ps, stands)). if stands then [attestation_row (hashes_of sp) a] else [])
       (zip (attested_of st) (snd (judge_attestations sp st))))"

definition empty_report :: "'m report" where
  "empty_report =
     \<lparr>rp_cache_load = None, rp_problems = [], rp_results = [], rp_tally = tally_zero,
      rp_witnessed = False, rp_registrations = [], rp_outside_policy = 0, rp_resolution_notices = [],
      rp_diagnostics = [], rp_attestations = [], rp_signatures = [], rp_timing = None\<rparr>"

definition resolve :: "spec \<Rightarrow> store \<Rightarrow> (string \<rightharpoonup> backend) \<Rightarrow> bool \<Rightarrow> 'm report" where
  "resolve sp st backends witnessing =
     (let rows = resolve_rows sp st backends witnessing in
      tally (empty_report\<lparr>
        rp_problems := sort_problems (
          concat (map fst (snd (judge_bindings sp st))) @ concat (map fst rows)
          @ concat (map fst (snd (judge_attestations sp st))) @ concat (snd (judge_gaps sp st))),
        rp_results := map snd rows,
        rp_attestations := attestation_rows sp st\<rparr>))"

section \<open>Change signatures\<close>

record sig_state =
  ss_proof_moved :: "string list"
  ss_proof_failed :: "string list"
  ss_behavior_green :: nat
  ss_red_current :: "string list"
  ss_red_stale :: "string list"

definition sig_zero :: sig_state where
  "sig_zero = \<lparr>ss_proof_moved = [], ss_proof_failed = [], ss_behavior_green = 0,
     ss_red_current = [], ss_red_stale = []\<rparr>"

definition sig_row :: "binding_result \<Rightarrow> sig_state \<Rightarrow> sig_state" where
  "sig_row r s =
     (let proof0 = (br_role r = ROLE_PROVES \<or> br_witness_class r = AnalyzerProof) in
      if proof0 \<and> br_shape r = ShapeMismatch
      then s\<lparr>ss_proof_moved := ss_proof_moved s @ [br_symbol r]\<rparr>
      else if proof0 \<and> br_test_outcome r = TestFailed
      then s\<lparr>ss_proof_failed := ss_proof_failed s @ [br_symbol r]\<rparr>
      else if \<not> proof0 \<and> tests_or_proves (br_role r)
      then (case br_test_outcome r of
              TestPassed \<Rightarrow> s\<lparr>ss_behavior_green := ss_behavior_green s + 1\<rparr>
            | TestFailed \<Rightarrow>
                if br_content_pinned r then s\<lparr>ss_red_current := ss_red_current s @ [br_symbol r]\<rparr>
                else s\<lparr>ss_red_stale := ss_red_stale s @ [br_symbol r]\<rparr>
            | _ \<Rightarrow> s)
      else s)"

text \<open>The map of states and the order of first appearance, as the loop builds them.\<close>

definition sig_states :: "binding_result list \<Rightarrow> (string \<rightharpoonup> sig_state) \<times> string list" where
  "sig_states rs =
     fold (\<lambda>r (m, order).
       let rid = br_requirement_id r in
       case m rid of
         None \<Rightarrow> (m(rid \<mapsto> sig_row r sig_zero), order @ [rid])
       | Some s \<Rightarrow> (m(rid \<mapsto> sig_row r s), order)) rs (Map.empty, [])"

definition signature_of :: "string \<Rightarrow> sig_state \<Rightarrow> change_signature list" where
  "signature_of rid s =
     (if ss_red_current s \<noteq> []
      then [\<lparr>cs_requirement_id = rid, cs_label = SemanticDrift,
             cs_evidence =
               map (\<lambda>x. ''behavior witness failed under a current contract: '' @ x) (ss_red_current s)
               @ map (\<lambda>x. ''behavior witness failed alongside a spec delta: '' @ x) (ss_red_stale s)\<rparr>]
      else if (ss_proof_moved s \<noteq> [] \<or> ss_proof_failed s \<noteq> [])
          \<and> ss_red_current s = [] \<and> ss_red_stale s = [] \<and> 0 < ss_behavior_green s
      then [\<lparr>cs_requirement_id = rid, cs_label = Rearchitecture,
             cs_evidence =
               map (\<lambda>x. ''proof shape moved: '' @ x) (ss_proof_moved s)
               @ map (\<lambda>x. ''proof failed: '' @ x) (ss_proof_failed s)
               @ [''behavior green: '' @ format_uint (ss_behavior_green s) @ '' witnesses'',
                  ''shape re-pin available: '' @ remedy_pin []]\<rparr>]
      else [])"

definition signatures :: "binding_result list \<Rightarrow> change_signature list" where
  "signatures rs =
     (case sig_states rs of (m, order) \<Rightarrow>
        concat (map (\<lambda>rid. case m rid of None \<Rightarrow> [] | Some s \<Rightarrow> signature_of rid s) (sort order)))"

section \<open>Correlate\<close>

definition correlate_row :: "'m test_run \<Rightarrow> binding_result \<Rightarrow> binding_result" where
  "correlate_row tr r =
     (if \<not> tests_or_proves (br_role r) then r
      else let sym = br_symbol r; oc = outcome_of tr sym in
        r\<lparr>br_test_outcome := oc,
          br_outside_selection := (sym \<in> tr_outside_subjects tr),
          br_no_outcome_cause := map_get (tr_no_outcome tr) sym,
          br_scope_skipped := (sym \<in> tr_scope_skipped tr),
          br_race_enabled := (tr_race_enabled tr \<and> oc = TestPassed \<and> sym \<notin> tr_plain_witness tr)\<rparr>)"

definition backed_by :: "store \<Rightarrow> (string \<times> string) set" where
  "backed_by st = set (map (\<lambda>b. (b_requirement_id b, b_symbol b))
     (filter (\<lambda>b. tests_or_proves (b_role b)) (store_bindings st)))"

definition registration_symbol :: "registration \<Rightarrow> string" where
  "registration_symbol reg = rg_package reg @ ''.'' @ top_level reg"

definition registration_backed :: "store \<Rightarrow> registration \<Rightarrow> bool" where
  "registration_backed st reg \<longleftrightarrow> (rg_requirement reg, registration_symbol reg) \<in> backed_by st"

definition registration_problem :: "registration \<Rightarrow> problem" where
  "registration_problem reg =
     Problem ''test run'' (''registration '' @ rg_package reg @ ''.'' @ rg_test reg @ '' covers ''
       @ rg_requirement reg @ '', but no tests- or proves-role binding backs it'')"

definition registration_result :: "'m test_run \<Rightarrow> registration \<Rightarrow> registration \<times> test_outcome" where
  "registration_result tr reg = (reg, outcome_of tr (rg_package reg @ ''.'' @ rg_test reg))"

definition correlate :: "'m report \<Rightarrow> store \<Rightarrow> 'm test_run option \<Rightarrow> 'm report" where
  "correlate rep st run =
     (case run of
        None \<Rightarrow> rep\<lparr>rp_witnessed := False\<rparr>
      | Some tr \<Rightarrow>
          let results = map (correlate_row tr) (rp_results rep);
              regs = tr_registrations tr
          in tally (rep\<lparr>
            rp_witnessed := True,
            rp_results := results,
            rp_outside_policy := tr_outside_policy tr,
            rp_diagnostics := tr_diagnostics tr,
            rp_cache_load := tr_cache_load tr,
            rp_timing := tr_timing tr,
            rp_problems := sort_problems (rp_problems rep
              @ map registration_problem (filter (\<lambda>g. \<not> registration_backed st g) regs)),
            rp_registrations := rp_registrations rep
              @ map (registration_result tr) (filter (registration_backed st) regs),
            rp_signatures := signatures results\<rparr>))"

definition run :: "spec \<Rightarrow> store \<Rightarrow> (string \<rightharpoonup> backend) \<Rightarrow> 'm test_run option \<Rightarrow> 'm report" where
  "run sp st backends tr = correlate (resolve sp st backends (tr \<noteq> None)) st tr"

text \<open>The grants are the passes; the outcome map is walked in any order.\<close>

definition granted :: "(string \<times> test_outcome) list \<Rightarrow> nat" where
  "granted outcomes = length (filter (\<lambda>(k, x). x = TestPassed) outcomes)"

fun outcome_rank :: "test_outcome \<Rightarrow> nat" where
  "outcome_rank TestFailed = 3"
| "outcome_rank TestPassed = 2"
| "outcome_rank TestSkipped = 1"
| "outcome_rank TestNotRun = 0"

section \<open>The reason histogram\<close>

text \<open>
  The reasons are a Go map, given here as the list of its entries in the order of the walk;
  the counts map likewise comes out as an entry list in an unspecified order (here, of first
  appearance), which the final sort settles.
\<close>

definition reason_counts :: "(string \<times> string) list \<Rightarrow> (string \<times> nat) list" where
  "reason_counts reasons =
     map (\<lambda>w. (w, length (filter (\<lambda>(k, w'). w' = w) reasons))) (remdups (map snd reasons))"

definition reason_histogram :: "(string \<times> string) list \<Rightarrow> (string \<times> nat) list" where
  "reason_histogram reasons =
     sort_key (\<lambda>(w, n). (- int n, w)) (reason_counts reasons)"

section \<open>The account on an error\<close>

datatype verr = Plain string | Wrapped string verr | Accounted verr "string list" | Recorded verr

text \<open>The backends of an operation, as the entries of their map: each is closed, in name order, and
  its notices read after its close.\<close>

definition close_backends :: "(string \<times> backend) list \<Rightarrow> string list" where
  "close_backends bs =
     concat (map (\<lambda>nb. case be_notices (snd nb) of None \<Rightarrow> [] | Some ns \<Rightarrow> ns) (sort_key fst bs))"

definition with_notices :: "verr option \<Rightarrow> string list \<Rightarrow> verr option" where
  "with_notices err notices =
     (case err of None \<Rightarrow> None
      | Some e \<Rightarrow> if notices = [] then Some e else Some (Accounted e notices))"

fun notices_in :: "verr \<Rightarrow> string list" where
  "notices_in (Plain m) = []"
| "notices_in (Wrapped m e) = notices_in e"
| "notices_in (Accounted e ns) = ns"
| "notices_in (Recorded e) = notices_in e"

definition notices_of :: "verr option \<Rightarrow> string list" where
  "notices_of err = (case err of None \<Rightarrow> [] | Some e \<Rightarrow> notices_in e)"

section \<open>Resolve: the problems and the rows\<close>

lemma resolve_bare_problems: "rp_problems (resolve sp st Map.empty w :: 'm report) = hygiene sp st"
proof -
  have "concat (map fst (resolve_rows sp st Map.empty w)) = []"
    by (auto simp: resolve_rows_def resolve_claim_def Let_def split: if_splits)
  then show ?thesis
    by (simp add: resolve_def tally_def hygiene_def sort_problems_def Let_def empty_report_def
        del: concat_eq_Nil_conv)
qed

text \<open>Resolve reports the same record problems as Hygiene, from the same judgment: with no
  backend its problems are exactly those of Hygiene, and with backends exactly those and the
  ones the backends' answers add.\<close>

theorem resolve_problems_hygiene:
  "rp_problems (resolve sp st Map.empty w :: 'm report) = hygiene sp st
   \<and> mset (rp_problems (resolve sp st backends w :: 'm report))
       = mset (hygiene sp st) + mset (concat (map fst (resolve_rows sp st backends w)))"
  by (simp add: resolve_bare_problems)
     (simp add: resolve_def tally_def hygiene_def sort_problems_def Let_def empty_report_def del: concat_eq_Nil_conv)

definition claim_clause :: "(string \<rightharpoonup> requirement) \<Rightarrow> binding \<Rightarrow> clause option" where
  "claim_clause reqs b =
     (case resolve_clause (reqs (b_requirement_id b)) b of Some c \<Rightarrow> c | None \<Rightarrow> None)"

lemma judge_scope_clause:
  "field_problems b = [] \<Longrightarrow> fst (judge_scope j p b) = [] \<Longrightarrow>
     snd (judge_scope j p b) = claim_clause (hy_reqs j) b"
  by (cases "b_requirement_id b = []"; cases "known (hy_hashes j) (b_requirement_id b)";
      cases "resolve_clause (hy_reqs j (b_requirement_id b)) b")
     (auto simp: judge_scope_def claim_clause_def field_problems_def Let_def split: option.splits)

lemma walk_claims_outputs:
  "concat (map (\<lambda>((path, b), (ps, malformed, clause)). if malformed then [] else [f path b clause])
      (zip cs (snd (walk claim_step j cs))))
     = map (\<lambda>(path, b). f path b (claim_clause (hy_reqs j) b))
         (filter (\<lambda>(path, b). claim_ok (hy_reqs j) (hy_hashes j) (hy_allow_whole j) b) cs)"
proof (induction cs arbitrary: j)
  case (Cons c cs)
  obtain p b where c: "c = (p, b)" by fastforce
  show ?case
    using claim_ok_iff [of j b p] judge_scope_clause [of b j p]
    by (auto simp: c claim_step_pair hyg_binding_step case_prod_beta Cons.IH [unfolded case_prod_beta])
qed simp

lemma resolve_rows_eq:
  "resolve_rows sp st backends w =
     map (\<lambda>(path, b). resolve_claim (hashes_of sp) backends w path b (claim_clause (by_id sp) b))
       (filter (\<lambda>(path, b). claim_ok (by_id sp) (hashes_of sp) (st_allow_whole st) b) (claims_of st))"
  unfolding resolve_rows_def judge_bindings_def walk_claims_outputs by (simp add: new_hygiene_def)

lemma resolve_results_eq:
  "rp_results (resolve sp st backends w :: 'm report) = map snd (resolve_rows sp st backends w)"
  by (simp add: resolve_def tally_def Let_def)

text \<open>C26: the rows of Resolve are exactly the well-formed claims, in store order: each carries its
  record's fields, the clause the claim resolves to, and the judgment of its consent; a
  backend's word never adds or drops a row.\<close>

theorem resolve_rows_exact:
  "map (\<lambda>r. (br_path r, br_requirement_id r, br_symbol r, br_backend r, br_role r, br_clause r,
             br_content_pinned r, br_rehash r)) (rp_results (resolve sp st backends w :: 'm report))
   = map (\<lambda>(path, b).
       (path, b_requirement_id b, b_symbol b, b_backend b, b_role b, claim_clause (by_id sp) b,
        judge (hashes_of sp) (b_requirement_id b) (b_content_hash b) (b_source_hash b) \<noteq> Consent_Stale,
        judge (hashes_of sp) (b_requirement_id b) (b_content_hash b) (b_source_hash b) = Consent_Rehash))
     (filter (\<lambda>(path, b). claim_ok (by_id sp) (hashes_of sp) (st_allow_whole st) b) (claims_of st))"
  unfolding resolve_results_eq resolve_rows_eq
  by (simp add: case_prod_beta comp_def resolve_claim_def Let_def consent_holds_def)

section \<open>Correlate: registrations and rows\<close>

lemma registration_backed_iff:
  "registration_backed st g \<longleftrightarrow> (\<exists>b\<in>set (store_bindings st). tests_or_proves (b_role b)
     \<and> b_requirement_id b = rg_requirement g \<and> b_symbol b = rg_package g @ ''.'' @ top_level g)"
  unfolding registration_backed_def backed_by_def registration_symbol_def set_map set_filter image_iff
  by (simp add: conj_ac) metis

lemma run_Some:
  "run sp st backends (Some tr) = correlate (resolve sp st backends True) st (Some tr)"
  by (simp add: run_def)

text \<open>The binding store is the only claim source of a witnessed run: the registrations the
  report keeps are those backed by a tests- or proves-role binding of the same requirement on
  the registration's top-level test, in their order and with their observed outcome, and
  every other registration is a problem of the report.\<close>

theorem run_registrations_backed:
  "rp_registrations (run sp st backends (Some tr)) =
     map (\<lambda>g. (g, outcome_of tr (rg_package g @ ''.'' @ rg_test g)))
       (filter (\<lambda>g. \<exists>b\<in>set (store_bindings st). tests_or_proves (b_role b)
          \<and> b_requirement_id b = rg_requirement g \<and> b_symbol b = rg_package g @ ''.'' @ top_level g)
        (tr_registrations tr))
   \<and> mset (rp_problems (run sp st backends (Some tr))) =
       mset (rp_problems (resolve sp st backends True :: 'm report))
       + mset (map registration_problem (filter (\<lambda>g. \<not> (\<exists>b\<in>set (store_bindings st).
          tests_or_proves (b_role b) \<and> b_requirement_id b = rg_requirement g
          \<and> b_symbol b = rg_package g @ ''.'' @ top_level g)) (tr_registrations tr)))"
  unfolding run_Some registration_backed_iff [symmetric]
  by (simp add: correlate_def tally_def Let_def resolve_def empty_report_def registration_result_def
      [abs_def] sort_problems_def)

section \<open>The tally, counted\<close>

definition count_rows :: "(binding_result \<Rightarrow> bool) \<Rightarrow> binding_result list \<Rightarrow> nat" where
  "count_rows P rs = length (filter P rs)"

lemma count_rows_simps [simp]:
  "count_rows P [] = 0"
  "count_rows P (r # rs) = (if P r then 1 else 0) + count_rows P rs"
  by (simp_all add: count_rows_def)

lemma tally_consent_fields [frame_simps]:
  "tl_pinned (tally_consent r t) = tl_pinned t + (if br_content_pinned r then 1 else 0)"
  "tl_stale (tally_consent r t) = tl_stale t + (if \<not> br_content_pinned r then 1 else 0)"
  "tl_rehash (tally_consent r t) = tl_rehash t + (if br_rehash r then 1 else 0)"
  "tl_shape_pinned (tally_consent r t) = tl_shape_pinned t"
  "tl_shape_unpinned (tally_consent r t) = tl_shape_unpinned t"
  "tl_shape_mismatch (tally_consent r t) = tl_shape_mismatch t"
  "tl_broken (tally_consent r t) = tl_broken t"
  "tl_unverified (tally_consent r t) = tl_unverified t"
  "tl_passed (tally_consent r t) = tl_passed t"
  "tl_failed (tally_consent r t) = tl_failed t"
  "tl_not_run (tally_consent r t) = tl_not_run t"
  by (simp_all add: tally_consent_def Let_def split: if_splits)

lemma tally_outcome_fields [frame_simps]:
  "tl_pinned (tally_outcome w r t) = tl_pinned t"
  "tl_stale (tally_outcome w r t) = tl_stale t"
  "tl_rehash (tally_outcome w r t) = tl_rehash t"
  "tl_shape_pinned (tally_outcome w r t) = tl_shape_pinned t"
  "tl_shape_unpinned (tally_outcome w r t) = tl_shape_unpinned t"
  "tl_shape_mismatch (tally_outcome w r t) = tl_shape_mismatch t"
  "tl_broken (tally_outcome w r t) = tl_broken t"
  "tl_unverified (tally_outcome w r t) = tl_unverified t"
  "tl_passed (tally_outcome w r t) = tl_passed t + (if w \<and> tests_or_proves (br_role r) \<and> br_test_outcome r = TestPassed then 1 else 0)"
  "tl_failed (tally_outcome w r t) = tl_failed t + (if w \<and> tests_or_proves (br_role r) \<and> br_test_outcome r = TestFailed then 1 else 0)"
  "tl_not_run (tally_outcome w r t) = tl_not_run t + (if w \<and> tests_or_proves (br_role r) \<and> br_test_outcome r = TestNotRun then 1 else 0)"
  by (simp_all add: tally_outcome_def Let_def split: test_outcome.split)

lemma tally_resolution_fields [frame_simps]:
  "tl_pinned (tally_resolution r t) = tl_pinned t"
  "tl_stale (tally_resolution r t) = tl_stale t"
  "tl_rehash (tally_resolution r t) = tl_rehash t"
  "tl_shape_pinned (tally_resolution r t) = tl_shape_pinned t + (if br_resolution r = Resolved \<and> br_shape r = ShapeMatch then 1 else 0)"
  "tl_shape_unpinned (tally_resolution r t) = tl_shape_unpinned t + (if br_resolution r = Resolved \<and> br_shape r = ShapeUnpinned then 1 else 0)"
  "tl_shape_mismatch (tally_resolution r t) = tl_shape_mismatch t + (if br_resolution r = Resolved \<and> br_shape r = ShapeMismatch then 1 else 0)"
  "tl_broken (tally_resolution r t) = tl_broken t + (if br_resolution r = NotFound then 1 else 0)"
  "tl_unverified (tally_resolution r t) = tl_unverified t + (if br_resolution r = Unverified then 1 else 0)"
  "tl_passed (tally_resolution r t) = tl_passed t"
  "tl_failed (tally_resolution r t) = tl_failed t"
  "tl_not_run (tally_resolution r t) = tl_not_run t"
  by (simp_all add: tally_resolution_def Let_def split: resolution.split shape_state.split)

lemma tally_fold:
  "fold (tally_row w) rs t =
     \<lparr>tl_pinned = tl_pinned t + count_rows br_content_pinned rs,
      tl_stale = tl_stale t + count_rows (\<lambda>r. \<not> br_content_pinned r) rs,
      tl_rehash = tl_rehash t + count_rows br_rehash rs,
      tl_shape_pinned = tl_shape_pinned t
        + count_rows (\<lambda>r. br_resolution r = Resolved \<and> br_shape r = ShapeMatch) rs,
      tl_shape_unpinned = tl_shape_unpinned t
        + count_rows (\<lambda>r. br_resolution r = Resolved \<and> br_shape r = ShapeUnpinned) rs,
      tl_shape_mismatch = tl_shape_mismatch t
        + count_rows (\<lambda>r. br_resolution r = Resolved \<and> br_shape r = ShapeMismatch) rs,
      tl_broken = tl_broken t + count_rows (\<lambda>r. br_resolution r = NotFound) rs,
      tl_unverified = tl_unverified t + count_rows (\<lambda>r. br_resolution r = Unverified) rs,
      tl_passed = tl_passed t
        + count_rows (\<lambda>r. w \<and> tests_or_proves (br_role r) \<and> br_test_outcome r = TestPassed) rs,
      tl_failed = tl_failed t
        + count_rows (\<lambda>r. w \<and> tests_or_proves (br_role r) \<and> br_test_outcome r = TestFailed) rs,
      tl_not_run = tl_not_run t
        + count_rows (\<lambda>r. w \<and> tests_or_proves (br_role r) \<and> br_test_outcome r = TestNotRun) rs\<rparr>"
proof (induction rs arbitrary: t)
  case (Cons r rs)
  show ?case by (simp add: Cons.IH tally_row_def [of _ r] frame_simps)
qed simp

lemma tally_attestations:
  "fold (\<lambda>a t. if ar_rehash a then t\<lparr>tl_rehash := tl_rehash t + 1\<rparr> else t) as t
     = t\<lparr>tl_rehash := tl_rehash t + length (filter ar_rehash as)\<rparr>"
  by (induction as arbitrary: t) simp_all

lemma tally_eq:
  "rp_tally (tally r) =
     (let rs = rp_results r; w = rp_witnessed r in
     \<lparr>tl_pinned = count_rows br_content_pinned rs,
      tl_stale = count_rows (\<lambda>r. \<not> br_content_pinned r) rs,
      tl_rehash = count_rows br_rehash rs + length (filter ar_rehash (rp_attestations r)),
      tl_shape_pinned = count_rows (\<lambda>r. br_resolution r = Resolved \<and> br_shape r = ShapeMatch) rs,
      tl_shape_unpinned = count_rows (\<lambda>r. br_resolution r = Resolved \<and> br_shape r = ShapeUnpinned) rs,
      tl_shape_mismatch = count_rows (\<lambda>r. br_resolution r = Resolved \<and> br_shape r = ShapeMismatch) rs,
      tl_broken = count_rows (\<lambda>r. br_resolution r = NotFound) rs,
      tl_unverified = count_rows (\<lambda>r. br_resolution r = Unverified) rs,
      tl_passed = count_rows (\<lambda>r. w \<and> tests_or_proves (br_role r) \<and> br_test_outcome r = TestPassed) rs,
      tl_failed = count_rows (\<lambda>r. w \<and> tests_or_proves (br_role r) \<and> br_test_outcome r = TestFailed) rs,
      tl_not_run = count_rows (\<lambda>r. w \<and> tests_or_proves (br_role r) \<and> br_test_outcome r = TestNotRun) rs\<rparr>)"
  by (simp add: tally_def tally_fold tally_attestations tally_zero_def Let_def)

lemma count_rows_partition: "count_rows P rs + count_rows (\<lambda>r. \<not> P r) rs = length rs"
  by (induction rs) auto

lemma shape_partition:
  "count_rows (\<lambda>r. br_resolution r = Resolved \<and> br_shape r = ShapeMatch) rs
   + count_rows (\<lambda>r. br_resolution r = Resolved \<and> br_shape r = ShapeUnpinned) rs
   + count_rows (\<lambda>r. br_resolution r = Resolved \<and> br_shape r = ShapeMismatch) rs
   + count_rows (\<lambda>r. br_resolution r = NotFound) rs + count_rows (\<lambda>r. br_resolution r = Unverified) rs
   + count_rows (\<lambda>r. br_resolution r = GeneratedFile \<or> br_resolution r = Resolved \<and> br_shape r = ShapeUnknown) rs
   = length rs"
proof (induction rs)
  case (Cons r rs)
  then show ?case by (cases "br_resolution r"; cases "br_shape r") auto
qed simp

lemma resolved_shape_known:
  "br_resolution (snd (resolve_claim h be w p b c)) = Resolved \<Longrightarrow>
     br_shape (snd (resolve_claim h be w p b c)) \<noteq> ShapeUnknown"
  by (auto simp: resolve_claim_def shape_of_def Let_def split: option.splits sum.splits resolution.splits)

lemma count_rows_none: "(\<And>r. r \<in> set rs \<Longrightarrow> \<not> P r) \<Longrightarrow> count_rows P rs = 0"
  by (induction rs) auto

lemma count_rows_cong: "(\<And>r. r \<in> set rs \<Longrightarrow> P r = Q r) \<Longrightarrow> count_rows P rs = count_rows Q rs"
  by (induction rs) auto

text \<open>The tally of a resolved report partitions its rows: pinned and stale rows add up to all
  of them, and so do the shape-pinned, shape-unpinned, shape-mismatched, broken and unverified
  ones with those in generated files; no test counter counts in an unwitnessed report.\<close>

theorem resolve_tally_partition:
  "tl_pinned (rp_tally (resolve sp st be w :: 'm report)) + tl_stale (rp_tally (resolve sp st be w :: 'm report))
     = length (rp_results (resolve sp st be w :: 'm report))
   \<and> tl_shape_pinned (rp_tally (resolve sp st be w :: 'm report))
     + tl_shape_unpinned (rp_tally (resolve sp st be w :: 'm report))
     + tl_shape_mismatch (rp_tally (resolve sp st be w :: 'm report))
     + tl_broken (rp_tally (resolve sp st be w :: 'm report))
     + tl_unverified (rp_tally (resolve sp st be w :: 'm report))
     + count_rows (\<lambda>r. br_resolution r = GeneratedFile) (rp_results (resolve sp st be w :: 'm report))
     = length (rp_results (resolve sp st be w :: 'm report))
   \<and> tl_passed (rp_tally (resolve sp st be w :: 'm report)) = 0
   \<and> tl_failed (rp_tally (resolve sp st be w :: 'm report)) = 0
   \<and> tl_not_run (rp_tally (resolve sp st be w :: 'm report)) = 0"
proof -
  let ?rep = "resolve sp st be w :: 'm report"
  define rs where "rs = rp_results ?rep"
  obtain r0 :: "'m report" where r0: "?rep = tally r0" "rp_results r0 = rs" "rp_witnessed r0 = False"
    by (rule that [OF resolve_def [unfolded Let_def]])
       (simp_all add: rs_def resolve_results_eq empty_report_def)
  have "br_shape r \<noteq> ShapeUnknown" if "r \<in> set rs" "br_resolution r = Resolved" for r
    using that resolved_shape_known by (auto simp: rs_def resolve_results_eq resolve_rows_eq)
  then have gen: "count_rows (\<lambda>r. br_resolution r = GeneratedFile \<or> br_resolution r = Resolved \<and> br_shape r = ShapeUnknown) rs
      = count_rows (\<lambda>r. br_resolution r = GeneratedFile) rs"
    by (intro count_rows_cong) auto
  have "rp_results (tally r0) = rs" using r0(1) by (simp add: rs_def)
  then show ?thesis
    unfolding rs_def [symmetric] r0(1) tally_eq Let_def r0(2,3)
    using count_rows_partition [of br_content_pinned rs] shape_partition [of rs] gen
    by (simp add: count_rows_none)
qed

section \<open>Change signatures, row by row\<close>

definition proof_row :: "binding_result \<Rightarrow> bool" where
  "proof_row r \<longleftrightarrow> br_role r = ROLE_PROVES \<or> br_witness_class r = AnalyzerProof"

definition behavior_row :: "test_outcome \<Rightarrow> binding_result \<Rightarrow> bool" where
  "behavior_row oc r \<longleftrightarrow> \<not> proof_row r \<and> tests_or_proves (br_role r) \<and> br_test_outcome r = oc"

definition proof_disturbed :: "binding_result \<Rightarrow> bool" where
  "proof_disturbed r \<longleftrightarrow> proof_row r \<and> (br_shape r = ShapeMismatch \<or> br_test_outcome r = TestFailed)"

lemma sig_row_fields:
  "ss_red_current (sig_row r s) = ss_red_current s
     @ (if behavior_row TestFailed r \<and> br_content_pinned r then [br_symbol r] else [])"
  "ss_red_stale (sig_row r s) = ss_red_stale s
     @ (if behavior_row TestFailed r \<and> \<not> br_content_pinned r then [br_symbol r] else [])"
  "ss_behavior_green (sig_row r s) = ss_behavior_green s + (if behavior_row TestPassed r then 1 else 0)"
  "ss_proof_moved (sig_row r s) @ ss_proof_failed (sig_row r s) = []
     \<longleftrightarrow> ss_proof_moved s @ ss_proof_failed s = [] \<and> \<not> proof_disturbed r"
  by (cases "br_test_outcome r";
      simp add: sig_row_def Let_def behavior_row_def proof_row_def proof_disturbed_def)+

lemma sig_fold_fields:
  "ss_red_current (fold sig_row rs s) = []
     \<longleftrightarrow> ss_red_current s = [] \<and> \<not> (\<exists>r\<in>set rs. behavior_row TestFailed r \<and> br_content_pinned r)"
  "ss_red_stale (fold sig_row rs s) = []
     \<longleftrightarrow> ss_red_stale s = [] \<and> \<not> (\<exists>r\<in>set rs. behavior_row TestFailed r \<and> \<not> br_content_pinned r)"
  "0 < ss_behavior_green (fold sig_row rs s)
     \<longleftrightarrow> 0 < ss_behavior_green s \<or> (\<exists>r\<in>set rs. behavior_row TestPassed r)"
  "ss_proof_moved (fold sig_row rs s) @ ss_proof_failed (fold sig_row rs s) = []
     \<longleftrightarrow> ss_proof_moved s @ ss_proof_failed s = [] \<and> \<not> (\<exists>r\<in>set rs. proof_disturbed r)"
proof (induction rs arbitrary: s)
  case (Cons r rs)
  {
    case 1 then show ?case by (auto simp: Cons.IH(1) sig_row_fields)
  next
    case 2 then show ?case by (auto simp: Cons.IH(2) sig_row_fields)
  next
    case 3 then show ?case by (auto simp: Cons.IH(3) sig_row_fields)
  next
    case 4 then show ?case unfolding fold_simps comp_apply Cons.IH(4) sig_row_fields by auto
  }
qed simp_all

definition rows_of :: "string \<Rightarrow> binding_result list \<Rightarrow> binding_result list" where
  "rows_of rid rs = filter (\<lambda>r. br_requirement_id r = rid) rs"

lemma sig_states_snoc:
  "sig_states (rs @ [r]) =
     (case sig_states rs of (m, order) \<Rightarrow>
        (case m (br_requirement_id r) of
           None \<Rightarrow> (m(br_requirement_id r \<mapsto> sig_row r sig_zero), order @ [br_requirement_id r])
         | Some s \<Rightarrow> (m(br_requirement_id r \<mapsto> sig_row r s), order)))"
  by (simp add: sig_states_def Let_def case_prod_beta)

lemma sig_states_facts:
  "fst (sig_states rs) rid =
     (if rows_of rid rs = [] then None else Some (fold sig_row (rows_of rid rs) sig_zero))
   \<and> distinct (snd (sig_states rs)) \<and> set (snd (sig_states rs)) = br_requirement_id ` set rs"
proof (induction rs arbitrary: rid rule: rev_induct)
  case (snoc r rs)
  let ?k = "br_requirement_id r"
  have new: "?k \<notin> br_requirement_id ` set rs" if "rows_of ?k rs = []"
    using that by (auto simp: rows_of_def filter_empty_conv)
  have old: "?k \<in> br_requirement_id ` set rs" if "rows_of ?k rs \<noteq> []"
    using that by (auto simp: rows_of_def filter_empty_conv) (metis imageI)
  show ?case
    using snoc [of rid] snoc [of ?k] new old
    by (auto simp: sig_states_snoc case_prod_beta rows_of_def split: option.splits)
qed (simp add: sig_states_def rows_of_def)

lemma signature_of_fields:
  "c \<in> set (signature_of rid s) \<Longrightarrow> cs_requirement_id c = rid"
  "length (signature_of rid s) \<le> 1"
  "(\<exists>c\<in>set (signature_of rid s). cs_label c = SemanticDrift) \<longleftrightarrow> ss_red_current s \<noteq> []"
  "(\<exists>c\<in>set (signature_of rid s). cs_label c = Rearchitecture) \<longleftrightarrow>
     ss_red_current s = [] \<and> ss_red_stale s = [] \<and> 0 < ss_behavior_green s
     \<and> ss_proof_moved s @ ss_proof_failed s \<noteq> []"
  by (auto simp: signature_of_def split: if_splits)

lemma map_cs_signature_of:
  "map cs_requirement_id (signature_of rid s) = [] \<or> map cs_requirement_id (signature_of rid s) = [rid]"
  by (simp add: signature_of_def)

lemma sorted_concat_sparse:
  fixes xs :: "string list"
  assumes "sorted_wrt (<) xs" and "\<And>x. g x = [] \<or> g x = [x]"
  shows "sorted_wrt (<) (concat (map g xs))"
  using assms(1)
proof (induction xs)
  case (Cons x xs)
  have "set (concat (map g xs)) \<subseteq> set xs" using assms(2) by (induction xs) (auto, metis empty_iff empty_set insertE list.simps(15))
  with Cons assms(2) [of x] show ?case by (auto simp: sorted_wrt_append)
qed simp

lemma signatures_in:
  "c \<in> set (signatures rs) \<longleftrightarrow> (\<exists>rid. rows_of rid rs \<noteq> []
     \<and> c \<in> set (signature_of rid (fold sig_row (rows_of rid rs) sig_zero)))"
proof -
  have mem: "rid \<in> set (snd (sig_states rs)) \<longleftrightarrow> rows_of rid rs \<noteq> []" for rid
    using sig_states_facts [of rs] by (force simp: rows_of_def filter_empty_conv)
  have "c \<in> set (signatures rs) \<longleftrightarrow> (\<exists>rid\<in>set (snd (sig_states rs)).
      c \<in> set (case fst (sig_states rs) rid of None \<Rightarrow> [] | Some s \<Rightarrow> signature_of rid s))"
    by (simp add: signatures_def case_prod_beta)
  also have "\<dots> \<longleftrightarrow> (\<exists>rid. rows_of rid rs \<noteq> []
     \<and> c \<in> set (signature_of rid (fold sig_row (rows_of rid rs) sig_zero)))"
  proof
    assume "\<exists>rid\<in>set (snd (sig_states rs)).
      c \<in> set (case fst (sig_states rs) rid of None \<Rightarrow> [] | Some s \<Rightarrow> signature_of rid s)"
    then obtain rid where "rid \<in> set (snd (sig_states rs))"
      "c \<in> set (case fst (sig_states rs) rid of None \<Rightarrow> [] | Some s \<Rightarrow> signature_of rid s)" ..
    then show "\<exists>rid. rows_of rid rs \<noteq> []
       \<and> c \<in> set (signature_of rid (fold sig_row (rows_of rid rs) sig_zero))"
      using mem [of rid] sig_states_facts [of rs rid] by (intro exI [of _ rid]) simp
  next
    assume "\<exists>rid. rows_of rid rs \<noteq> []
       \<and> c \<in> set (signature_of rid (fold sig_row (rows_of rid rs) sig_zero))"
    then obtain rid where "rows_of rid rs \<noteq> []"
      "c \<in> set (signature_of rid (fold sig_row (rows_of rid rs) sig_zero))" by blast
    then show "\<exists>rid\<in>set (snd (sig_states rs)).
      c \<in> set (case fst (sig_states rs) rid of None \<Rightarrow> [] | Some s \<Rightarrow> signature_of rid s)"
      using mem [of rid] sig_states_facts [of rs rid] by (intro bexI [of _ rid]) simp_all
  qed
  finally show ?thesis .
qed

lemma signature_label_iff:
  "(\<exists>c\<in>set (signatures rs). cs_requirement_id c = rid \<and> cs_label c = l) \<longleftrightarrow>
     rows_of rid rs \<noteq> []
     \<and> (\<exists>c\<in>set (signature_of rid (fold sig_row (rows_of rid rs) sig_zero)). cs_label c = l)"
  using signature_of_fields(1) by (fastforce simp: signatures_in)

text \<open>The change signatures are exact and disjoint: they come in strictly increasing requirement
  order, one at most per requirement; a requirement is marked semantic drift precisely when a
  behavior witness of it failed under a current content pin, and rearchitecture precisely when
  no behavior witness failed, one is green, and a proof's shape moved or a proof failed.\<close>

theorem signatures_exact:
  "sorted_wrt (<) (map cs_requirement_id (signatures rs))
   \<and> ((\<exists>c\<in>set (signatures rs). cs_requirement_id c = rid \<and> cs_label c = SemanticDrift) \<longleftrightarrow>
        (\<exists>r\<in>set rs. br_requirement_id r = rid \<and> behavior_row TestFailed r \<and> br_content_pinned r))
   \<and> ((\<exists>c\<in>set (signatures rs). cs_requirement_id c = rid \<and> cs_label c = Rearchitecture) \<longleftrightarrow>
        \<not> (\<exists>r\<in>set rs. br_requirement_id r = rid \<and> behavior_row TestFailed r)
        \<and> (\<exists>r\<in>set rs. br_requirement_id r = rid \<and> behavior_row TestPassed r)
        \<and> (\<exists>r\<in>set rs. br_requirement_id r = rid \<and> proof_disturbed r))"
proof (intro conjI)
  have A: "sorted_wrt (<) (sort (snd (sig_states rs)))"
    using sig_states_facts [of rs] by (simp add: strict_sorted_iff)
  have B: "map cs_requirement_id (signatures rs) = concat (map (\<lambda>rid.
      map cs_requirement_id (case fst (sig_states rs) rid of None \<Rightarrow> [] | Some s \<Rightarrow> signature_of rid s))
      (sort (snd (sig_states rs))))"
    by (simp add: signatures_def case_prod_beta map_concat comp_def)
  have C: "map cs_requirement_id (case m of None \<Rightarrow> [] | Some s \<Rightarrow> signature_of rid s) = []
      \<or> map cs_requirement_id (case m of None \<Rightarrow> [] | Some s \<Rightarrow> signature_of rid s) = [rid]" for m rid
    using map_cs_signature_of by (auto split: option.split)
  show "sorted_wrt (<) (map cs_requirement_id (signatures rs))"
    unfolding B by (rule sorted_concat_sparse [OF A]) (rule C)
  have mem: "(\<exists>r\<in>set (rows_of rid rs). P r) \<longleftrightarrow> (\<exists>r\<in>set rs. br_requirement_id r = rid \<and> P r)" for P
    by (auto simp: rows_of_def)
  have nonempty: "rows_of rid rs \<noteq> []" if "\<exists>r\<in>set rs. br_requirement_id r = rid \<and> P r" for P
    using that by (auto simp: rows_of_def filter_empty_conv)
  show "(\<exists>c\<in>set (signatures rs). cs_requirement_id c = rid \<and> cs_label c = SemanticDrift) \<longleftrightarrow>
        (\<exists>r\<in>set rs. br_requirement_id r = rid \<and> behavior_row TestFailed r \<and> br_content_pinned r)"
    unfolding signature_label_iff signature_of_fields(3) sig_fold_fields mem
    using nonempty by (auto simp: sig_zero_def)
  show "(\<exists>c\<in>set (signatures rs). cs_requirement_id c = rid \<and> cs_label c = Rearchitecture) \<longleftrightarrow>
        \<not> (\<exists>r\<in>set rs. br_requirement_id r = rid \<and> behavior_row TestFailed r)
        \<and> (\<exists>r\<in>set rs. br_requirement_id r = rid \<and> behavior_row TestPassed r)
        \<and> (\<exists>r\<in>set rs. br_requirement_id r = rid \<and> proof_disturbed r)"
    unfolding signature_label_iff signature_of_fields(4) sig_fold_fields mem
    using nonempty [of "behavior_row TestPassed"] by (auto simp: sig_zero_def)
qed

section \<open>The histogram and the account\<close>

lemma length_filter_mset: "mset xs = mset ys \<Longrightarrow> length (filter P xs) = length (filter P ys)"
  by (metis mset_filter size_mset)

lemma reason_counts_perm:
  assumes "mset reasons = mset reasons'"
  shows "mset (reason_counts reasons) = mset (reason_counts reasons')"
proof -
  have "set (map snd reasons) = set (map snd reasons')" by (metis assms mset_map set_mset_mset)
  then have "mset (remdups (map snd reasons)) = mset (remdups (map snd reasons'))"
    by (simp add: set_eq_iff_mset_eq_distinct [symmetric])
  moreover have "(\<lambda>w. (w, length (filter (\<lambda>(k, w'). w' = w) reasons)))
      = (\<lambda>w. (w, length (filter (\<lambda>(k, w'). w' = w) reasons')))"
    using length_filter_mset [OF assms] by blast
  ultimately show ?thesis by (simp add: reason_counts_def)
qed

lemma reason_key_inj: "inj_on (\<lambda>(w, n). (- int n, w)) A"
  by (auto simp: inj_on_def)

lemma sort_key_inj_perm:
  assumes "mset xs = mset ys" and "inj_on f (set xs)"
  shows "sort_key f xs = sort_key f ys"
proof (rule properties_for_sort_key [symmetric])
  show "mset (sort_key f xs) = mset ys" using assms(1) by simp
  show "sorted (map f (sort_key f xs))" by simp
  have "filter (\<lambda>x. f x = f k) zs = replicate (count (mset zs) k) k"
    if "k \<in> set xs" "set zs \<subseteq> set xs" for k zs
    using that(2) assms(2) that(1)
    by (induction zs) (auto simp: inj_on_def)
  then show "filter (\<lambda>y. f k = f y) (sort_key f xs) = filter (\<lambda>y. f k = f y) ys"
    if "k \<in> set (sort_key f xs)" for k
    using that assms(1) by (simp add: eq_commute [of "f k"] mset_eq_setD [OF assms(1), symmetric])
qed

lemma sum_list_sort_key: "sum_list (map snd (sort_key f xs)) = sum_list (map snd xs :: nat list)"
proof -
  have "mset (map snd (sort_key f xs)) = mset (map snd xs)" by simp
  then have "sum_mset (mset (map snd (sort_key f xs))) = sum_mset (mset (map snd xs))" by (rule arg_cong)
  then show ?thesis by (simp only: sum_mset_sum_list)
qed

lemma sum_indicator: "distinct ws \<Longrightarrow> w \<in> set ws \<Longrightarrow> sum_list (map (\<lambda>v. if w = v then (1::nat) else 0) ws) = 1"
proof (induction ws)
  case (Cons x ws)
  have "w \<notin> set ws \<Longrightarrow> sum_list (map (\<lambda>v. if w = v then (1::nat) else 0) ws) = 0"
    by (induction ws) auto
  with Cons show ?case by auto
qed simp

text \<open>The reason histogram is a function of the reasons alone, whatever order the map is walked
  in: it lists every reason once with its number of subjects, the most frequent first and
  ties by text, and its counts add up to the subjects.\<close>

theorem reason_histogram_exact:
  assumes "mset reasons = mset reasons'"
  shows "reason_histogram reasons = reason_histogram reasons'
    \<and> set (reason_histogram reasons)
       = {(w, length (filter (\<lambda>(k, w'). w' = w) reasons)) | w. w \<in> snd ` set reasons}
    \<and> sorted (map (\<lambda>(w, n). (- int n, w)) (reason_histogram reasons))
    \<and> sum_list (map snd (reason_histogram reasons)) = length reasons"
proof -
  have "sum_list (map (\<lambda>w. length (filter (\<lambda>(k, w'). w' = w) reasons)) ws) = length reasons"
    if "distinct ws" "snd ` set reasons \<subseteq> set ws" for ws
    using that(2)
  proof (induction reasons)
    case (Cons r rs)
    obtain k w where r: "r = (k, w)" by fastforce
    have "sum_list (map (\<lambda>v. if w = v then (1::nat) else 0) ws) = 1"
      using that(1) Cons.prems r by (intro sum_indicator) auto
    moreover have "sum_list (map (\<lambda>v. length (filter (\<lambda>(k, w'). w' = v) (r # rs))) ws)
      = sum_list (map (\<lambda>v. (if w = v then 1 else 0) + length (filter (\<lambda>(k, w'). w' = v) rs)) ws)"
      by (rule arg_cong [where f = sum_list]) (simp add: r)
    ultimately show ?case using Cons by (simp add: sum_list_addf)
  qed simp
  from this [of "remdups (map snd reasons)"]
  have "sum_list (map (\<lambda>w. length (filter (\<lambda>(k, w'). w' = w) reasons)) (remdups (map snd reasons)))
      = length reasons" by simp
  moreover have "sum_list (map snd (reason_histogram reasons)) = sum_list (map snd (reason_counts reasons))"
    unfolding reason_histogram_def by (rule sum_list_sort_key)
  ultimately have "sum_list (map snd (reason_histogram reasons)) = length reasons"
    by (simp add: reason_counts_def comp_def)
  moreover have "reason_histogram reasons = reason_histogram reasons'"
    using sort_key_inj_perm [OF reason_counts_perm [OF assms] reason_key_inj]
    by (simp add: reason_histogram_def)
  moreover have "set (reason_histogram reasons)
      = {(w, length (filter (\<lambda>(k, w'). w' = w) reasons)) | w. w \<in> snd ` set reasons}"
    by (auto simp: reason_histogram_def reason_counts_def image_def)
  moreover have "sorted (map (\<lambda>(w, n). (- int n, w)) (reason_histogram reasons))"
    by (simp add: reason_histogram_def)
  ultimately show ?thesis by (intro conjI)
qed

lemma reason_histogram_exact_witness:
  "reason_histogram [(''a'', ''slow''), (''b'', ''cold''), (''c'', ''slow'')]
     = reason_histogram [(''c'', ''slow''), (''a'', ''slow''), (''b'', ''cold'')]
   \<and> sum_list (map snd (reason_histogram [(''a'', ''slow''), (''b'', ''cold''), (''c'', ''slow'')])) = 3"
proof -
  have "mset [(''a'', ''slow''), (''b'', ''cold''), (''c'', ''slow'')]
     = mset [(''c'', ''slow''), (''a'', ''slow''), (''b'', ''cold'')]" by simp
  note facts = reason_histogram_exact [OF this]
  have "sum_list (map snd (reason_histogram [(''a'', ''slow''), (''b'', ''cold''), (''c'', ''slow'')]))
      = length [(''a'', ''slow''), (''b'', ''cold''), (''c'', ''slow'')]"
    by (rule facts [THEN conjunct2, THEN conjunct2, THEN conjunct2])
  then show ?thesis using facts [THEN conjunct1] by (intro conjI) (assumption, simp)
qed

text \<open>The account of a pass survives on its errors: what WithNotices attaches, NoticesOf reads
  back through any wrapping, and an error without an account, or no error at all, stays as
  it is.\<close>

theorem notices_roundtrip:
  "notices_of (with_notices (Some e) ns) = (if ns = [] then notices_of (Some e) else ns)
   \<and> notices_of (map_option (Wrapped m) (with_notices (Some e) ns)) = notices_of (with_notices (Some e) ns)
   \<and> with_notices None ns = None \<and> with_notices err [] = err"
  by (auto simp: notices_of_def with_notices_def split: option.split)

end
