(* ===== verification/Coverage.thy ===== *)
theory Coverage
  imports Verify "HOL-Library.Word"
begin

text \<open>
  The coverage vocabulary of \<open>internal/coverage/coverage.go\<close>: buckets, gap states and the gap
  tally, the policy built from the manifest, the evidence a requirement holds and the policy
  function that judges it. The evaluation itself is in the theory Evaluate.
\<close>

section \<open>Buckets and gap states\<close>

datatype bucket = Uncovered | Stale | Broken | Covered | Exempt | Attested | Partial

fun red :: "bucket \<Rightarrow> bool" where
  "red Uncovered = True"
| "red Partial = True"
| "red Stale = True"
| "red Broken = True"
| "red _ = False"

fun bucket_string :: "bucket \<Rightarrow> string" where
  "bucket_string Covered = ''covered''"
| "bucket_string Broken = ''broken''"
| "bucket_string Stale = ''stale''"
| "bucket_string Exempt = ''exempt''"
| "bucket_string Attested = ''attested''"
| "bucket_string Partial = ''partial''"
| "bucket_string Uncovered = ''uncovered''"

datatype gap_state = Gap_Open | Gap_Due | Gap_Resolved

fun gap_state_string :: "gap_state \<Rightarrow> string" where
  "gap_state_string Gap_Due = ''due''"
| "gap_state_string Gap_Resolved = ''resolved''"
| "gap_state_string Gap_Open = ''open''"

record req_row =
  rr_id :: string
  rr_kind :: clause_kind
  rr_keyword :: keyword
  rr_bucket :: bucket
  rr_reasons :: "string list"
  rr_selection_blocked :: bool
  rr_scope_blocked :: bool

record gap_row =
  gr_path :: string
  gr_requirement_id :: string
  gr_state :: gap_state
  gr_reason :: string
  gr_condition :: string
  gr_fired :: bool
  gr_contradicted :: bool
  gr_stale_consent :: bool

datatype dangling_pointer = Dangling (dp_requirement: string) (dp_name: string)

record 'm coverage_report =
  cr_cache_load :: "'m option"
  cr_requirements :: "req_row list"
  cr_gaps :: "gap_row list"
  cr_overrides :: "string list"
  cr_violations :: "string list"
  cr_dangling :: "dangling_pointer list"

definition pointer_remedy :: "string \<Rightarrow> string \<Rightarrow> string" where
  "pointer_remedy requirement name =
     ''enforcement pointer `'' @ name @ ''` names no tests/proves binding of '' @ requirement @ '': ''
       @ remedy_bind requirement ''tests'' (''<package>.'' @ name) @ '', or '' @ remedy_retarget
       @ '' the renamed symbol''"

text \<open>The count is an int32; \<open>keep\<close> is \<^const>\<open>None\<close> for all.\<close>

definition dangling_pointer_count :: "dangling_pointer list \<Rightarrow> string set option \<Rightarrow> 32 word" where
  "dangling_pointer_count ps keep =
     fold (\<lambda>p n. case keep of
         None \<Rightarrow> n + 1
       | Some K \<Rightarrow> if dp_requirement p \<notin> K then n else n + 1) ps 0"

definition gate_passes :: "'m coverage_report \<Rightarrow> bool" where
  "gate_passes r \<longleftrightarrow> cr_violations r = []"

section \<open>The gap tally\<close>

record gap_tally =
  gt_open :: nat
  gt_due :: nat
  gt_resolved :: nat
  gt_contradicted :: nat

definition gap_tally_zero :: gap_tally where
  "gap_tally_zero = \<lparr>gt_open = 0, gt_due = 0, gt_resolved = 0, gt_contradicted = 0\<rparr>"

definition gap_tally_add :: "gap_tally \<Rightarrow> bool \<Rightarrow> bool \<Rightarrow> bool \<Rightarrow> gap_tally" where
  "gap_tally_add t is_resolved due contradicted =
     (if is_resolved then t\<lparr>gt_resolved := gt_resolved t + 1\<rparr>
      else let t1 = (if due then t\<lparr>gt_due := gt_due t + 1\<rparr> else t\<lparr>gt_open := gt_open t + 1\<rparr>)
        in if contradicted then t1\<lparr>gt_contradicted := gt_contradicted t1 + 1\<rparr> else t1)"

definition gap_tally_text :: "gap_tally \<Rightarrow> string" where
  "gap_tally_text t =
     format_uint (gt_open t) @ '' open, '' @ format_uint (gt_due t) @ '' due, ''
       @ format_uint (gt_resolved t) @ '' resolved ('' @ format_uint (gt_contradicted t)
       @ '' of the unresolved contradicted)''"

definition kept :: "string set option \<Rightarrow> string \<Rightarrow> bool" where
  "kept keep rid \<longleftrightarrow> (case keep of None \<Rightarrow> True | Some K \<Rightarrow> rid \<in> K)"

definition gap_count_step :: "string set option \<Rightarrow> gap_row \<Rightarrow> gap_tally \<Rightarrow> gap_tally" where
  "gap_count_step keep g t =
     (if \<not> kept keep (gr_requirement_id g) then t
      else gap_tally_add t (gr_state g = Gap_Resolved) (gr_state g = Gap_Due) (gr_contradicted g))"

definition gap_counts :: "gap_row list \<Rightarrow> string set option \<Rightarrow> gap_tally" where
  "gap_counts gaps keep = fold (gap_count_step keep) gaps gap_tally_zero"

text \<open>The wire rows: a state with the dangling class beside the lifecycle, and the open enum's rest.\<close>

datatype wire_gap_state = WG_Unspecified | WG_Open | WG_Due | WG_Resolved | WG_Dangling | WG_Num int

record wire_gap =
  wg_state :: wire_gap_state
  wg_contradicted :: bool

definition gap_counts_wire :: "wire_gap list \<Rightarrow> gap_tally" where
  "gap_counts_wire rows =
     fold (\<lambda>g t.
       if wg_state g = WG_Dangling then t
       else gap_tally_add t (wg_state g = WG_Resolved) (wg_state g = WG_Due) (wg_contradicted g))
       rows gap_tally_zero"

section \<open>The policy\<close>

text \<open>
  The override map, as the list of its entries (one per cell); a nil policy is
  \<^const>\<open>None\<close>.
\<close>

record policy =
  pl_overrides :: "((clause_kind \<times> keyword) \<times> min_evidence) list"
  pl_allow_whole :: bool

text \<open>The code lower-cases enum names only, which are ASCII.\<close>

definition to_lower :: "string \<Rightarrow> string" where
  "to_lower s = map lower_byte s"

definition kind_name :: "clause_kind \<Rightarrow> string" where
  "kind_name k = to_lower (trim_prefix (clause_kind_string k) ''CLAUSE_KIND_'')"

definition keyword_name :: "keyword \<Rightarrow> string" where
  "keyword_name k =
     to_lower (map (\<lambda>c. if c = CHR ''_'' then CHR '' '' else c)
       (trim_prefix (keyword_string k) ''KEYWORD_''))"

definition cell_name :: "clause_kind \<times> keyword \<Rightarrow> string" where
  "cell_name cell = ''('' @ kind_name (fst cell) @ '', '' @ keyword_name (snd cell) @ '')''"

fun policy_entries ::
  "policy_override list \<Rightarrow> ((clause_kind \<times> keyword) \<times> min_evidence) list
     \<Rightarrow> string + ((clause_kind \<times> keyword) \<times> min_evidence) list" where
  "policy_entries [] acc = Inr acc"
| "policy_entries (p # ps) acc =
     (if po_minimum p = ME_UNSPECIFIED then policy_entries ps acc
      else let cell = (po_kind p, po_keyword p) in
        if map_of acc cell \<noteq> None
        then Inl (''manifest policy names the cell '' @ cell_name cell @ '' twice'')
        else policy_entries ps (acc @ [(cell, po_minimum p)]))"

definition policy_from_manifest :: "manifest \<Rightarrow> string + policy" where
  "policy_from_manifest m =
     (case policy_entries (mf_policy m) [] of
        Inl e \<Rightarrow> Inl e
      | Inr os \<Rightarrow> Inr \<lparr>pl_overrides = os, pl_allow_whole = mf_allow_whole_clause_claims m\<rparr>)"

definition override_line :: "(clause_kind \<times> keyword) \<times> min_evidence \<Rightarrow> string" where
  "override_line e =
     ''policy override: '' @ cell_name (fst e) @ '' -> ''
       @ to_lower (trim_prefix (min_evidence_string (snd e)) ''MINIMUM_EVIDENCE_'')"

definition active :: "policy option \<Rightarrow> string list" where
  "active pol =
     (case pol of None \<Rightarrow> []
      | Some p \<Rightarrow> sort (map override_line (pl_overrides p)
          @ (if pl_allow_whole p then [''policy override: allow_whole_clause_claims -> true''] else [])))"

definition minimum :: "policy option \<Rightarrow> clause_kind \<Rightarrow> keyword \<Rightarrow> min_evidence option" where
  "minimum pol kind kw = (case pol of None \<Rightarrow> None | Some p \<Rightarrow> map_of (pl_overrides p) (kind, kw))"

definition overridden :: "policy option \<Rightarrow> clause_kind \<Rightarrow> keyword \<Rightarrow> bool" where
  "overridden pol kind kw \<longleftrightarrow> minimum pol kind kw \<noteq> None"

section \<open>Evidence and the policy function\<close>

record evidence =
  e_example :: bool
  e_property :: bool
  e_static :: bool
  e_proof :: bool
  e_verdicts :: "string list"
  e_attested :: bool
  e_attest_reasons :: "string list"
  e_broken :: bool
  e_stale :: bool
  e_scope_skipped :: nat
  e_outside_selection :: nat
  e_other_red :: bool
  e_reasons :: "string list"

definition evidence_zero :: evidence where
  "evidence_zero =
     \<lparr>e_example = False, e_property = False, e_static = False, e_proof = False, e_verdicts = [],
      e_attested = False, e_attest_reasons = [], e_broken = False, e_stale = False,
      e_scope_skipped = 0, e_outside_selection = 0, e_other_red = False, e_reasons = []\<rparr>"

definition witness :: "evidence \<Rightarrow> bool" where
  "witness e \<longleftrightarrow> e_example e \<or> e_property e"

definition evidence_join :: "evidence \<Rightarrow> evidence option \<Rightarrow> evidence" where
  "evidence_join e c =
     (case c of None \<Rightarrow> e
      | Some d \<Rightarrow> e\<lparr>e_example := e_example e \<or> e_example d, e_property := e_property e \<or> e_property d,
                    e_static := e_static e \<or> e_static d, e_proof := e_proof e \<or> e_proof d,
                    e_verdicts := e_verdicts e @ e_verdicts d\<rparr>)"

definition admits_attestation_cell :: "min_evidence option \<Rightarrow> keyword \<Rightarrow> bool" where
  "admits_attestation_cell m kw =
     (case m of Some mn \<Rightarrow> mn = ME_ATTESTATION | None \<Rightarrow> kw = KW_SHOULD \<or> kw = KW_SHOULD_NOT)"

definition admits_attestation :: "policy option \<Rightarrow> clause_kind \<Rightarrow> keyword \<Rightarrow> bool" where
  "admits_attestation pol kind kw = admits_attestation_cell (minimum pol kind kw) kw"

fun satisfies_minimum :: "min_evidence \<Rightarrow> evidence \<Rightarrow> bool" where
  "satisfies_minimum ME_ANALYZER_PROOF e = e_proof e"
| "satisfies_minimum ME_PROPERTY e = (e_property e \<or> e_proof e)"
| "satisfies_minimum ME_WITNESS e = witness e"
| "satisfies_minimum ME_PROOF_OR_WITNESS e = (e_proof e \<or> witness e)"
| "satisfies_minimum ME_STATIC e = (e_static e \<or> witness e \<or> e_proof e)"
| "satisfies_minimum ME_EXEMPT e = True"
| "satisfies_minimum ME_ATTESTATION e = (e_static e \<or> witness e \<or> e_proof e)"
| "satisfies_minimum _ e = False"

fun satisfies_must :: "clause_kind \<Rightarrow> evidence \<Rightarrow> bool" where
  "satisfies_must CK_BEHAVIOR e = witness e"
| "satisfies_must CK_INVARIANT e = (e_property e \<or> e_proof e)"
| "satisfies_must CK_STRUCTURAL e = e_proof e"
| "satisfies_must CK_WIRE e = (e_proof e \<or> witness e)"
| "satisfies_must _ e = False"

fun satisfies_default :: "clause_kind \<Rightarrow> keyword \<Rightarrow> evidence \<Rightarrow> bool" where
  "satisfies_default kind KW_MUST e = satisfies_must kind e"
| "satisfies_default kind KW_MUST_NOT e = satisfies_must kind e"
| "satisfies_default kind KW_SHOULD e = (e_static e \<or> witness e \<or> e_proof e)"
| "satisfies_default kind KW_SHOULD_NOT e = (e_static e \<or> witness e \<or> e_proof e)"
| "satisfies_default kind KW_MAY e = (e_static e \<or> witness e \<or> e_proof e)"
| "satisfies_default kind _ e = False"

definition satisfied :: "policy option \<Rightarrow> clause_kind \<Rightarrow> keyword \<Rightarrow> evidence \<Rightarrow> bool" where
  "satisfied pol kind kw e =
     (case minimum pol kind kw of
        Some m \<Rightarrow> satisfies_minimum m e
      | None \<Rightarrow> satisfies_default kind kw e)"

definition kind_hint :: "clause_kind \<Rightarrow> keyword \<Rightarrow> string" where
  "kind_hint kind kw =
     (if kind \<noteq> CK_INVARIANT then []
      else if kw \<noteq> KW_MUST \<and> kw \<noteq> KW_MUST_NOT then []
      else ''the need follows from the kind: an invariant is a property over all reachable states or runs; a closed set observable across the wire or a restart (an encoding, a format, a served inventory) is a wire requirement; dependency direction, boundaries, and interface satisfaction are structural'')"

fun need_of_minimum :: "min_evidence \<Rightarrow> string" where
  "need_of_minimum ME_ANALYZER_PROOF = ''an analyzer proof''"
| "need_of_minimum ME_PROPERTY = ''a property witness or analyzer proof''"
| "need_of_minimum ME_WITNESS = ''an executed witness''"
| "need_of_minimum ME_PROOF_OR_WITNESS = ''an analyzer proof or witness''"
| "need_of_minimum ME_STATIC = ''a static binding''"
| "need_of_minimum ME_ATTESTATION = ''an attestation or stronger''"
| "need_of_minimum _ = ''evidence''"

fun need_of_must :: "clause_kind \<Rightarrow> string option" where
  "need_of_must CK_BEHAVIOR = Some ''an executed witness''"
| "need_of_must CK_INVARIANT = Some ''a property witness or analyzer proof''"
| "need_of_must CK_STRUCTURAL = Some ''an analyzer proof''"
| "need_of_must CK_WIRE = Some ''an analyzer proof or witness''"
| "need_of_must _ = None"

definition required_evidence :: "policy option \<Rightarrow> clause_kind \<Rightarrow> keyword \<Rightarrow> string" where
  "required_evidence pol kind kw =
     (case minimum pol kind kw of
        Some m \<Rightarrow> ''needs '' @ need_of_minimum m @ '' ('' @ kind_name kind @ '', manifest override)''
      | None \<Rightarrow>
          (case (if kw = KW_MUST \<or> kw = KW_MUST_NOT then need_of_must kind else None) of
             Some need \<Rightarrow> ''needs '' @ need @ '' ('' @ kind_name kind @ '')''
           | None \<Rightarrow>
               if kw = KW_SHOULD \<or> kw = KW_SHOULD_NOT
               then ''needs a static binding or attestation ('' @ kind_name kind @ '')''
               else ''needs a static binding ('' @ kind_name kind @ '')''))"

section \<open>Landing conditions\<close>

definition manual_unfired :: "landing_condition option \<Rightarrow> bool" where
  "manual_unfired lc \<longleftrightarrow> lc_has_manual lc \<and> \<not> lc_fired lc"

definition condition_text :: "landing_condition option \<Rightarrow> string" where
  "condition_text lc =
     (if lc_covered lc \<noteq> [] then ''covered('' @ lc_covered lc @ '')''
      else if lc_exists lc \<noteq> [] then ''exists('' @ lc_exists lc @ '')''
      else case lc_manual lc of Some m \<Rightarrow> ''manual: '' @ mc_condition m | None \<Rightarrow> [])"

definition bucket_at :: "(string \<rightharpoonup> bucket) \<Rightarrow> string \<Rightarrow> bucket" where
  "bucket_at buckets rid = (case buckets rid of None \<Rightarrow> Uncovered | Some b \<Rightarrow> b)"

definition condition_holds ::
  "landing_condition option \<Rightarrow> (string \<rightharpoonup> bucket) \<Rightarrow> hashes \<Rightarrow> bool" where
  "condition_holds lc buckets corpus =
     (case lc of
        None \<Rightarrow> False
      | Some (LC_Covered rid) \<Rightarrow> bucket_at buckets rid = Covered
      | Some (LC_Exists rid) \<Rightarrow> known corpus rid
      | Some (LC_Manual m) \<Rightarrow> mc_fired m
      | Some LC_Unset \<Rightarrow> False)"

section \<open>Red classes and excuses\<close>

record row_facts =
  rf_scope_skipped :: bool
  rf_outside_selection :: bool
  rf_other_red :: bool
  rf_stale :: bool

definition blocked_on :: "row_facts \<Rightarrow> bool \<Rightarrow> bool \<Rightarrow> bool \<Rightarrow> bool" where
  "blocked_on f boundary other declared_stale \<longleftrightarrow>
     boundary \<and> \<not> other \<and> \<not> rf_other_red f \<and> (\<not> rf_stale f \<or> declared_stale)"

fun excuse_bucket :: "gap_excuse \<Rightarrow> bucket set" where
  "excuse_bucket EXCUSE_UNCOVERED = {Uncovered}"
| "excuse_bucket EXCUSE_STALE = {Stale}"
| "excuse_bucket EXCUSE_BROKEN = {Broken}"
| "excuse_bucket _ = {}"

definition excuse_set :: "gap_excuse list \<Rightarrow> bucket set" where
  "excuse_set declared =
     (if declared = [] then {Uncovered} else \<Union> (set (map excuse_bucket declared)))"

fun red_classes :: "bucket \<Rightarrow> row_facts \<Rightarrow> bucket list" where
  "red_classes Broken f = (if rf_stale f then [Broken, Stale] else [Broken])"
| "red_classes Stale f = [Stale]"
| "red_classes _ f = [Uncovered]"

fun bucket_name :: "bucket \<Rightarrow> string" where
  "bucket_name Uncovered = ''uncovered''"
| "bucket_name Stale = ''stale''"
| "bucket_name Broken = ''broken''"
| "bucket_name Partial = ''partial''"
| "bucket_name _ = ''red''"

definition bucket_names :: "bucket list \<Rightarrow> string" where
  "bucket_names classes = join (map bucket_name classes) '' and ''"

definition excuse_names :: "bucket set \<Rightarrow> string" where
  "excuse_names A =
     (let names = map bucket_name (filter (\<lambda>b. b \<in> A) [Uncovered, Stale, Broken]) in
      if names = [] then ''no recognized class'' else join names '' and '')"

end
