(* ===== verification/Evaluate.thy ===== *)
theory Evaluate
  imports Coverage
begin

text \<open>
  \<open>Evaluate\<close> of \<open>internal/coverage/coverage.go\<close>: the evidence the verified rows grant, the
  buckets the policy gives, the gap states, the excuses and the gate. Each leg of the
  function is a definition of its own; \<open>evaluate\<close> composes them in the code's order.

  The evidence map's default is the zero evidence, so the insertion that a read by \<open>get\<close>
  makes is not modelled: it is not observable.
\<close>

section \<open>Enforcement pointers\<close>

definition pointer_members :: "store \<Rightarrow> (string \<times> string) set" where
  "pointer_members st =
     set (map (\<lambda>b. (b_requirement_id b, symbol_member (b_symbol b)))
       (filter (\<lambda>b. tests_or_proves (b_role b)) (store_bindings st)))"

definition req_dangling :: "store \<Rightarrow> requirement \<Rightarrow> dangling_pointer list" where
  "req_dangling st r =
     map (Dangling (req_id r))
       (filter (\<lambda>p. (req_id r, p) \<notin> pointer_members st) (map ep_name (req_pointers r)))"

definition dangling_pointers :: "spec \<Rightarrow> store \<Rightarrow> dangling_pointer list" where
  "dangling_pointers sp st = concat (map (req_dangling st) (spec_requirements sp))"

type_synonym ev_map = "string \<Rightarrow> evidence"
type_synonym clause_ev_map = "string \<times> nat \<Rightarrow> evidence option"

definition note_red :: "string \<Rightarrow> evidence \<Rightarrow> evidence" where
  "note_red reason e = e\<lparr>e_reasons := e_reasons e @ [reason]\<rparr>"

definition pointer_red :: "dangling_pointer \<Rightarrow> ev_map \<Rightarrow> ev_map" where
  "pointer_red p ev =
     ev(dp_requirement p := note_red (pointer_remedy (dp_requirement p) (dp_name p))
          ((ev (dp_requirement p))\<lparr>e_broken := True, e_other_red := True\<rparr>))"

section \<open>The rows\<close>

definition pin_red :: "binding_result \<Rightarrow> evidence \<Rightarrow> evidence" where
  "pin_red r e =
     (if \<not> br_content_pinned r
      then note_red (''binding '' @ br_symbol r @ '' has a stale content pin '' @ em_dash
             @ '' re-consent: '' @ remedy_pin [br_requirement_id r]) (e\<lparr>e_stale := True\<rparr>)
      else e)"

definition resolution_red :: "binding_result \<Rightarrow> evidence \<Rightarrow> evidence" where
  "resolution_red r e =
     (case br_resolution r of
        NotFound \<Rightarrow> note_red (''symbol '' @ br_symbol r @ '' not found'')
          (e\<lparr>e_broken := True, e_other_red := True\<rparr>)
      | Resolved \<Rightarrow>
          (case br_shape r of
             ShapeMismatch \<Rightarrow>
               note_red (''shape of '' @ br_symbol r @ '' moved '' @ em_dash
                   @ '' re-pin after review: blanket '' @ remedy_pin []
                   @ '', no ids (the ids form re-consents clause text only)'')
                 (e\<lparr>e_other_red := True, e_broken := True\<rparr>)
           | ShapeUnpinned \<Rightarrow>
               note_red (''binding '' @ br_symbol r @ '' has no shape pin '' @ em_dash @ '' backfill: ''
                   @ remedy_pin []) (e\<lparr>e_stale := True\<rparr>)
           | _ \<Rightarrow> e)
      | _ \<Rightarrow> e)"

text \<open>The claim passed, resolved, under a consent that holds, but is no longer a proof.\<close>

definition drifted_proof :: "binding_result \<Rightarrow> bool" where
  "drifted_proof r \<longleftrightarrow>
     br_test_outcome r = TestPassed \<and> br_content_pinned r \<and> br_resolution r = Resolved
     \<and> br_witness_class r \<noteq> AnalyzerProof \<and> br_role r = ROLE_PROVES"

definition not_run_red :: "binding_result \<Rightarrow> evidence \<Rightarrow> evidence" where
  "not_run_red r e0 =
     (let e = e0\<lparr>e_broken := True\<rparr> in
      if br_outside_selection r
      then note_red (''bound test '' @ br_symbol r @ '' is outside the policy's witness-eligible selection - witness evidence derives only from race: true invocations or explicit plain_witness: true admissions; cover its package with one'')
             (e\<lparr>e_outside_selection := e_outside_selection e + 1\<rparr>)
      else if br_no_outcome_cause r \<noteq> []
      then note_red (''bound test '' @ br_symbol r @ '' has no witness outcome: '' @ br_no_outcome_cause r)
             (e\<lparr>e_other_red := True\<rparr>)
      else if br_scope_skipped r
      then note_red (''bound test '' @ br_symbol r @ '' not executed - outside the check's id scope'')
             (e\<lparr>e_scope_skipped := e_scope_skipped e + 1\<rparr>)
      else note_red (''bound test '' @ br_symbol r @ '' produced no outcome (unwitnessed)'')
             (e\<lparr>e_other_red := True\<rparr>))"

definition outcome_red :: "bool \<Rightarrow> binding_result \<Rightarrow> evidence \<Rightarrow> evidence" where
  "outcome_red witnessed r e =
     (if tests_or_proves (br_role r) \<and> witnessed
      then (case br_test_outcome r of
              TestPassed \<Rightarrow>
                if drifted_proof r
                then note_red (''proves claim '' @ br_symbol r
                       @ '' passed but no longer classifies as an analyzer proof'')
                     (e\<lparr>e_other_red := True\<rparr>)
                else e
            | TestFailed \<Rightarrow> note_red (''bound test '' @ br_symbol r @ '' failed'')
                (e\<lparr>e_broken := True, e_other_red := True\<rparr>)
            | TestNotRun \<Rightarrow> not_run_red r e
            | TestSkipped \<Rightarrow> e)
      else e)"

text \<open>What the row proves: the evidence bits and class verdicts, granted to one target.\<close>

definition shape_grant :: "binding_result \<Rightarrow> evidence \<Rightarrow> evidence" where
  "shape_grant r g =
     (if br_resolution r = Resolved \<and> br_shape r = ShapeMatch \<and> br_content_pinned r
      then g\<lparr>e_static := True\<rparr> else g)"

definition outcome_grant :: "bool \<Rightarrow> binding_result \<Rightarrow> evidence \<Rightarrow> evidence" where
  "outcome_grant witnessed r g =
     (if tests_or_proves (br_role r) \<and> witnessed \<and> br_test_outcome r = TestPassed
         \<and> br_content_pinned r \<and> br_resolution r = Resolved
      then (if br_witness_class r = AnalyzerProof then g\<lparr>e_proof := True\<rparr>
            else if br_role r = ROLE_PROVES then g
            else if br_witness_class r = PropertyWitness
            then g\<lparr>e_property := True,
                   e_verdicts := e_verdicts g @ [''bound witness '' @ br_symbol r
                     @ '' classified property: not an analyzer proof'']\<rparr>
            else if br_witness_class_reason r \<noteq> []
            then g\<lparr>e_example := True,
                   e_verdicts := e_verdicts g @ [''bound witness '' @ br_symbol r
                     @ '' classified example: '' @ br_witness_class_reason r]\<rparr>
            else g\<lparr>e_example := True\<rparr>)
      else g)"

definition row_red :: "bool \<Rightarrow> binding_result \<Rightarrow> evidence \<Rightarrow> evidence" where
  "row_red witnessed r e = outcome_red witnessed r (resolution_red r (pin_red r e))"

definition row_grant :: "bool \<Rightarrow> binding_result \<Rightarrow> evidence \<Rightarrow> evidence" where
  "row_grant witnessed r g = outcome_grant witnessed r (shape_grant r g)"

datatype grant_target = Grant_Whole | Grant_Clause nat | Grant_None

definition grant_target_of :: "spec \<Rightarrow> bool \<Rightarrow> binding_result \<Rightarrow> grant_target" where
  "grant_target_of sp allow r =
     (case br_clause r of
        Some c \<Rightarrow> Grant_Clause (cl_ordinal c)
      | None \<Rightarrow>
          if requires_clause_scope (by_id sp (br_requirement_id r)) (br_role r) allow
          then Grant_None else Grant_Whole)"

definition zero_if_none :: "evidence option \<Rightarrow> evidence" where
  "zero_if_none e = (case e of None \<Rightarrow> evidence_zero | Some x \<Rightarrow> x)"

definition apply_row ::
  "spec \<Rightarrow> bool \<Rightarrow> bool \<Rightarrow> binding_result \<Rightarrow> ev_map \<times> clause_ev_map \<Rightarrow> ev_map \<times> clause_ev_map" where
  "apply_row sp allow witnessed r maps =
     (case maps of (ev, cev) \<Rightarrow>
        let rid = br_requirement_id r; e = row_red witnessed r (ev rid) in
        (case grant_target_of sp allow r of
           Grant_Whole \<Rightarrow> (ev(rid := row_grant witnessed r e), cev)
         | Grant_Clause n \<Rightarrow>
             (ev(rid := e), cev((rid, n) := Some (row_grant witnessed r (zero_if_none (cev (rid, n))))))
         | Grant_None \<Rightarrow> (ev(rid := e), cev)))"

definition apply_attestation :: "attestation_result \<Rightarrow> ev_map \<Rightarrow> ev_map" where
  "apply_attestation a ev =
     (let rid = ar_requirement_id a; e = ev rid in
      if \<not> ar_content_pinned a
      then ev(rid := note_red (''attestation has a stale content pin (the requirement moved since it was vouched for) ''
             @ em_dash @ '' review the moved clause and re-attest: '' @ remedy_attest_requirement rid)
             (e\<lparr>e_stale := True\<rparr>))
      else ev(rid := e\<lparr>e_attested := True, e_attest_reasons := e_attest_reasons e @ [ar_reason a]\<rparr>))"

definition allow_whole_of :: "policy option \<Rightarrow> bool" where
  "allow_whole_of pol = (case pol of None \<Rightarrow> False | Some p \<Rightarrow> pl_allow_whole p)"

text \<open>The evidence after the three loops over pointers, rows and attestations.\<close>

definition gather ::
  "spec \<Rightarrow> 'm report \<Rightarrow> store \<Rightarrow> bool \<Rightarrow> policy option \<Rightarrow> ev_map \<times> clause_ev_map" where
  "gather sp vr st witnessed pol =
     (let ev0 = fold pointer_red (dangling_pointers sp st) (\<lambda>_. evidence_zero);
          rows = fold (apply_row sp (allow_whole_of pol) witnessed) (rp_results vr) (ev0, \<lambda>_. None)
      in (fold apply_attestation (rp_attestations vr) (fst rows), snd rows))"

section \<open>The bucket of a requirement\<close>

definition clause_met ::
  "policy option \<Rightarrow> requirement \<Rightarrow> evidence \<Rightarrow> clause_ev_map \<Rightarrow> clause \<Rightarrow> bool" where
  "clause_met pol r e cev c =
     satisfied pol (req_kind r) (req_keyword r) (evidence_join e (cev (req_id r, cl_ordinal c)))"

definition policy_met :: "policy option \<Rightarrow> requirement \<Rightarrow> evidence \<Rightarrow> clause_ev_map \<Rightarrow> bool \<times> bool" where
  "policy_met pol r e cev =
     (if req_clauses r = []
      then (satisfied pol (req_kind r) (req_keyword r) e, satisfied pol (req_kind r) (req_keyword r) e)
      else (list_all (clause_met pol r e cev) (req_clauses r), list_ex (clause_met pol r e cev) (req_clauses r)))"

definition unmet_clauses ::
  "policy option \<Rightarrow> requirement \<Rightarrow> evidence \<Rightarrow> clause_ev_map \<Rightarrow> clause list" where
  "unmet_clauses pol r e cev = filter (\<lambda>c. \<not> clause_met pol r e cev c) (req_clauses r)"

definition unmet_lines ::
  "policy option \<Rightarrow> requirement \<Rightarrow> evidence \<Rightarrow> clause_ev_map \<Rightarrow> string list" where
  "unmet_lines pol r e cev =
     map (\<lambda>c. clause_heading c @ '' '' @ required_evidence pol (req_kind r) (req_keyword r))
       (unmet_clauses pol r e cev)"

definition clause_verdicts ::
  "policy option \<Rightarrow> requirement \<Rightarrow> evidence \<Rightarrow> clause_ev_map \<Rightarrow> string list" where
  "clause_verdicts pol r e cev =
     concat (map (\<lambda>c. case cev (req_id r, cl_ordinal c) of None \<Rightarrow> [] | Some d \<Rightarrow> e_verdicts d)
       (unmet_clauses pol r e cev))"

definition bound_row :: "evidence \<Rightarrow> bool \<Rightarrow> bool" where
  "bound_row e has_row \<longleftrightarrow>
     e_reasons e \<noteq> [] \<or> witness e \<or> e_static e \<or> e_stale e \<or> e_broken e \<or> e_attested e \<or> has_row"

definition bucket_of ::
  "policy option \<Rightarrow> requirement \<Rightarrow> evidence \<Rightarrow> clause_ev_map \<Rightarrow> bool \<Rightarrow> bucket" where
  "bucket_of pol r e cev has_row =
     (let m = minimum pol (req_kind r) (req_keyword r); bound = bound_row e has_row;
          met = policy_met pol r e cev in
      if m = Some ME_EXEMPT \<and> \<not> bound then Exempt
      else if m = None \<and> req_keyword r = KW_MAY \<and> \<not> bound then Exempt
      else if e_broken e then Broken
      else if e_stale e then Stale
      else if fst met then Covered
      else if e_attested e \<and> admits_attestation_cell m (req_keyword r) then Attested
      else if snd met then Partial
      else Uncovered)"

definition hint_lines :: "policy option \<Rightarrow> requirement \<Rightarrow> string list" where
  "hint_lines pol r =
     (let hint = kind_hint (req_kind r) (req_keyword r) in
      if hint \<noteq> [] \<and> \<not> overridden pol (req_kind r) (req_keyword r) then [hint] else [])"

definition bucket_reasons ::
  "(nat \<Rightarrow> bool) \<Rightarrow> policy option \<Rightarrow> requirement \<Rightarrow> evidence \<Rightarrow> clause_ev_map \<Rightarrow> bucket \<Rightarrow> string list" where
  "bucket_reasons tbl pol r e cev b =
     (let need = required_evidence pol (req_kind r) (req_keyword r) in
      case b of
        Attested \<Rightarrow> map (\<lambda>ar. ''attested: '' @ ar) (e_attest_reasons e)
      | Partial \<Rightarrow> unmet_lines pol r e cev @ e_verdicts e @ clause_verdicts pol r e cev @ hint_lines pol r
      | Uncovered \<Rightarrow> [need] @ hint_lines pol r @ e_verdicts e @ clause_verdicts pol r e cev
          @ map (\<lambda>ar. ''attestation recorded ('' @ quote tbl ar @ '') is not admitted here '' @ em_dash
              @ '' the cell '' @ need) (e_attest_reasons e)
      | _ \<Rightarrow> [])"

text \<open>One requirement: the row, its facts, and the evidence map with the reasons written back.\<close>

definition judge_requirement ::
  "(nat \<Rightarrow> bool) \<Rightarrow> policy option \<Rightarrow> clause_ev_map \<Rightarrow> string set \<Rightarrow> requirement \<Rightarrow> ev_map
     \<Rightarrow> ev_map \<times> req_row \<times> row_facts" where
  "judge_requirement tbl pol cev bound_ids r ev =
     (let rid = req_id r; e = ev rid;
          b = bucket_of pol r e cev (rid \<in> bound_ids);
          reasons = sort (e_reasons e @ bucket_reasons tbl pol r e cev b)
      in (ev(rid := e\<lparr>e_reasons := reasons\<rparr>),
          \<lparr>rr_id = rid, rr_kind = req_kind r, rr_keyword = req_keyword r, rr_bucket = b,
           rr_reasons = reasons, rr_selection_blocked = False, rr_scope_blocked = False\<rparr>,
          \<lparr>rf_scope_skipped = 0 < e_scope_skipped e, rf_outside_selection = 0 < e_outside_selection e,
           rf_other_red = e_other_red e, rf_stale = e_stale e\<rparr>))"

definition judged ::
  "(nat \<Rightarrow> bool) \<Rightarrow> spec \<Rightarrow> 'm report \<Rightarrow> store \<Rightarrow> bool \<Rightarrow> policy option \<Rightarrow> (req_row \<times> row_facts) list" where
  "judged tbl sp vr st witnessed pol =
     (case gather sp vr st witnessed pol of (ev, cev) \<Rightarrow>
        snd (walk (\<lambda>ev r. judge_requirement tbl pol cev (set (map br_requirement_id (rp_results vr))) r ev)
          ev (spec_requirements sp)))"

definition buckets_of :: "(req_row \<times> row_facts) list \<Rightarrow> string \<rightharpoonup> bucket" where
  "buckets_of rows = fold (\<lambda>(r, f) m. m(rr_id r \<mapsto> rr_bucket r)) rows Map.empty"

definition facts_of :: "(req_row \<times> row_facts) list \<Rightarrow> string \<rightharpoonup> row_facts" where
  "facts_of rows = fold (\<lambda>(r, f) m. m(rr_id r \<mapsto> f)) rows Map.empty"

section \<open>The gaps\<close>

record gap_acc =
  ga_gapped :: "string set"
  ga_excused :: "string \<Rightarrow> bucket set"
  ga_stale :: "string set"

definition gap_drifted :: "hashes \<Rightarrow> gap \<Rightarrow> bool" where
  "gap_drifted h g \<longleftrightarrow>
     g_content_hash g \<noteq> []
     \<and> \<not> consent_holds (judge h (g_requirement_id g) (g_content_hash g) (g_source_hash g))"

definition gap_excuses :: "hashes \<Rightarrow> gap \<Rightarrow> gap_acc \<Rightarrow> gap_acc" where
  "gap_excuses h g acc =
     (let rid = g_requirement_id g; acc1 = acc\<lparr>ga_gapped := insert rid (ga_gapped acc)\<rparr> in
      if gap_drifted h g then acc1\<lparr>ga_stale := insert rid (ga_stale acc1)\<rparr>
      else acc1\<lparr>ga_excused := (ga_excused acc1)(rid := ga_excused acc1 rid \<union> excuse_set (g_excuses g))\<rparr>)"

definition gap_state_of :: "(string \<rightharpoonup> bucket) \<Rightarrow> hashes \<Rightarrow> gap \<Rightarrow> gap_state" where
  "gap_state_of buckets h g =
     (let b = bucket_at buckets (g_requirement_id g) in
      if b = Covered \<and> \<not> manual_unfired (g_lands g) then Gap_Resolved
      else if b = Exempt \<and> condition_holds (g_lands g) buckets h then Gap_Resolved
      else if condition_holds (g_lands g) buckets h then Gap_Due
      else Gap_Open)"

definition gap_report_row :: "(string \<rightharpoonup> bucket) \<Rightarrow> hashes \<Rightarrow> gap_file \<Rightarrow> gap_row" where
  "gap_report_row buckets h gf =
     \<lparr>gr_path = gf_path gf, gr_requirement_id = g_requirement_id (gf_gap gf),
      gr_state = gap_state_of buckets h (gf_gap gf), gr_reason = g_reason (gf_gap gf),
      gr_condition = condition_text (g_lands (gf_gap gf)), gr_fired = lc_fired (g_lands (gf_gap gf)),
      gr_contradicted = lc_contradicted (g_lands (gf_gap gf)),
      gr_stale_consent = gap_drifted h (gf_gap gf)\<rparr>"

text \<open>A stale consent anywhere deletes the requirement's excuses, whatever the record order.\<close>

definition collect_excuses :: "hashes \<Rightarrow> gap list \<Rightarrow> gap_acc" where
  "collect_excuses h gs =
     (let acc = fold (gap_excuses h) gs \<lparr>ga_gapped = {}, ga_excused = (\<lambda>_. {}), ga_stale = {}\<rparr> in
      acc\<lparr>ga_excused := (\<lambda>rid. if rid \<in> ga_stale acc then {} else ga_excused acc rid)\<rparr>)"

section \<open>The red rows and the gate\<close>

definition undeclared_classes :: "gap_acc \<Rightarrow> req_row \<Rightarrow> row_facts \<Rightarrow> bucket list" where
  "undeclared_classes ga r f =
     filter (\<lambda>c. c \<notin> ga_excused ga (rr_id r)) (red_classes (rr_bucket r) f)"

definition declared_stale :: "gap_acc \<Rightarrow> req_row \<Rightarrow> row_facts \<Rightarrow> bool" where
  "declared_stale ga r f \<longleftrightarrow>
     Stale \<in> set (red_classes (rr_bucket r) f) \<and> Stale \<notin> set (undeclared_classes ga r f)"

definition boundary_lines :: "bool \<Rightarrow> bool \<Rightarrow> string list" where
  "boundary_lines scope selection =
     (if scope then [''the gap record naming this requirement excuses its stale class; the remaining red is the check's id scope, which left its witness unexecuted'']
      else if selection then [''the gap record naming this requirement excuses its stale class; the remaining red is the policy's witness selection, which left its witness ungranted'']
      else [])"

definition excuse_lines :: "gap_acc \<Rightarrow> string \<Rightarrow> bucket list \<Rightarrow> string list" where
  "excuse_lines ga rid undeclared =
     (if rid \<in> ga_gapped ga \<and> rid \<in> ga_stale ga
      then [''the gap record naming this requirement was declared against different text and excuses nothing until re-consented ''
            @ em_dash @ '' re-consent: '' @ remedy_pin [rid]]
      else if rid \<in> ga_gapped ga \<and> undeclared \<noteq> []
      then [''the gap record naming this requirement excuses '' @ excuse_names (ga_excused ga rid)
            @ '', not '' @ bucket_names undeclared @ '' '' @ em_dash
            @ '' declare each class deliberately or repair the red'']
      else [])"

definition zero_facts :: row_facts where
  "zero_facts = \<lparr>rf_scope_skipped = False, rf_outside_selection = False, rf_other_red = False, rf_stale = False\<rparr>"

definition finish_row ::
  "gap_acc \<Rightarrow> string set \<Rightarrow> (string \<rightharpoonup> row_facts) \<Rightarrow> req_row \<Rightarrow> req_row \<times> bool" where
  "finish_row ga dangling_ids facts r =
     (if \<not> red (rr_bucket r) then (r, False)
      else let f = (case facts (rr_id r) of None \<Rightarrow> zero_facts | Some x \<Rightarrow> x);
               undeclared = undeclared_classes ga r f;
               ds = declared_stale ga r f;
               scope = (rr_bucket r = Broken \<and> blocked_on f (rf_scope_skipped f) (rf_outside_selection f) ds);
               selection = (rr_bucket r = Broken \<and> blocked_on f (rf_outside_selection f) (rf_scope_skipped f) ds);
               lines1 = (if ds \<and> undeclared \<noteq> [] then boundary_lines scope selection else []);
               lines2 = excuse_lines ga (rr_id r) undeclared;
               lines3 = (if rr_id r \<in> dangling_ids \<and> rr_id r \<in> ga_gapped ga
                 then [''the gap record naming this requirement excuses nothing about its dangling enforcement pointer'']
                 else [])
           in (r\<lparr>rr_reasons := rr_reasons r @ lines1 @ lines2 @ lines3,
                 rr_scope_blocked := scope, rr_selection_blocked := selection\<rparr>,
               rr_id r \<in> dangling_ids \<or> rr_id r \<notin> ga_gapped ga \<or> undeclared \<noteq> []))"

definition evaluate ::
  "(nat \<Rightarrow> bool) \<Rightarrow> spec \<Rightarrow> 'm report \<Rightarrow> store \<Rightarrow> bool \<Rightarrow> policy option \<Rightarrow> 'm coverage_report" where
  "evaluate tbl sp vr st witnessed pol =
     (let rows = judged tbl sp vr st witnessed pol;
          h = hashes_of sp;
          ga = collect_excuses h (map gf_gap (st_gaps st));
          dangling = dangling_pointers sp st;
          finished = map (finish_row ga (set (map dp_requirement dangling)) (facts_of rows)) (map fst rows)
      in \<lparr>cr_cache_load = rp_cache_load vr,
          cr_requirements = map fst finished,
          cr_gaps = map (gap_report_row (buckets_of rows) h) (st_gaps st),
          cr_overrides = active pol,
          cr_violations = sort (map (rr_id \<circ> fst) (filter snd finished)),
          cr_dangling = dangling\<rparr>)"

end
