(* ===== verification/Gate.thy ===== *)
theory Gate
  imports Evaluate
begin

text \<open>
  What the coverage evaluation promises: the evidence behind every bucket, the gate as a
  predicate over corpus, rows and gaps, and the gap lifecycle. The loops of the evaluation
  raise flags and never lower them; that contract is the locale \<open>accumulating_flag\<close>, and
  the policy's use of evidence is the locale \<open>evidence_policy\<close>.
\<close>

section \<open>Flags that loops accumulate\<close>

locale accumulating_flag =
  fixes step :: "'x \<Rightarrow> 's \<Rightarrow> 's" and flag :: "'s \<Rightarrow> bool" and cause :: "'x \<Rightarrow> bool"
  assumes raises: "flag (step x s) \<longleftrightarrow> flag s \<or> cause x"
begin

lemma fold_flag: "flag (fold step xs s) \<longleftrightarrow> flag s \<or> (\<exists>x\<in>set xs. cause x)"
  by (induction xs arbitrary: s) (auto simp: raises)

lemma fold_flag_kept: "flag s \<Longrightarrow> flag (fold step xs s)"
  by (simp add: fold_flag)

lemma fold_flag_perm: "set xs = set ys \<Longrightarrow> flag (fold step xs s) = flag (fold step ys s)"
  by (simp add: fold_flag)

end

definition broken_cause :: "bool \<Rightarrow> binding_result \<Rightarrow> bool" where
  "broken_cause witnessed r \<longleftrightarrow>
     br_resolution r = NotFound \<or> br_resolution r = Resolved \<and> br_shape r = ShapeMismatch
     \<or> tests_or_proves (br_role r) \<and> witnessed
       \<and> (br_test_outcome r = TestFailed \<or> br_test_outcome r = TestNotRun)"

definition stale_cause :: "binding_result \<Rightarrow> bool" where
  "stale_cause r \<longleftrightarrow>
     \<not> br_content_pinned r \<or> br_resolution r = Resolved \<and> br_shape r = ShapeUnpinned"

text \<open>What a row can prove.\<close>

definition counts_as_witness :: "bool \<Rightarrow> binding_result \<Rightarrow> bool" where
  "counts_as_witness witnessed r \<longleftrightarrow>
     tests_or_proves (br_role r) \<and> witnessed \<and> br_test_outcome r = TestPassed
     \<and> br_content_pinned r \<and> br_resolution r = Resolved"

definition proves_row :: "bool \<Rightarrow> binding_result \<Rightarrow> bool" where
  "proves_row w r \<longleftrightarrow> counts_as_witness w r \<and> br_witness_class r = AnalyzerProof"

definition property_row :: "bool \<Rightarrow> binding_result \<Rightarrow> bool" where
  "property_row w r \<longleftrightarrow>
     counts_as_witness w r \<and> br_role r \<noteq> ROLE_PROVES \<and> br_witness_class r = PropertyWitness"

definition example_row :: "bool \<Rightarrow> binding_result \<Rightarrow> bool" where
  "example_row w r \<longleftrightarrow>
     counts_as_witness w r \<and> br_role r \<noteq> ROLE_PROVES \<and> br_witness_class r = ExampleWitness"

definition static_row :: "binding_result \<Rightarrow> bool" where
  "static_row r \<longleftrightarrow> br_resolution r = Resolved \<and> br_shape r = ShapeMatch \<and> br_content_pinned r"

lemmas red_leg_defs = pin_red_def resolution_red_def outcome_red_def not_run_red_def note_red_def Let_def

lemma pin_red_fields [frame_simps]:
  "e_broken (pin_red r e) = e_broken e" "e_stale (pin_red r e) \<longleftrightarrow> e_stale e \<or> \<not> br_content_pinned r"
  "e_attested (pin_red r e) = e_attested e" "e_proof (pin_red r e) = e_proof e"
  "e_property (pin_red r e) = e_property e" "e_example (pin_red r e) = e_example e"
  "e_static (pin_red r e) = e_static e" "e_other_red (pin_red r e) = e_other_red e"
  by (simp_all add: red_leg_defs)

lemma resolution_red_fields [frame_simps]:
  "e_broken (resolution_red r e) \<longleftrightarrow> e_broken e \<or> br_resolution r = NotFound
     \<or> br_resolution r = Resolved \<and> br_shape r = ShapeMismatch"
  "e_stale (resolution_red r e) \<longleftrightarrow> e_stale e \<or> br_resolution r = Resolved \<and> br_shape r = ShapeUnpinned"
  "e_attested (resolution_red r e) = e_attested e" "e_proof (resolution_red r e) = e_proof e"
  "e_property (resolution_red r e) = e_property e" "e_example (resolution_red r e) = e_example e"
  "e_static (resolution_red r e) = e_static e"
  by (simp_all add: red_leg_defs split: resolution.split shape_state.split)

lemma outcome_red_fields [frame_simps]:
  "e_broken (outcome_red w r e) \<longleftrightarrow> e_broken e \<or> tests_or_proves (br_role r) \<and> w
     \<and> (br_test_outcome r = TestFailed \<or> br_test_outcome r = TestNotRun)"
  "e_stale (outcome_red w r e) = e_stale e"
  "e_attested (outcome_red w r e) = e_attested e" "e_proof (outcome_red w r e) = e_proof e"
  "e_property (outcome_red w r e) = e_property e" "e_example (outcome_red w r e) = e_example e"
  "e_static (outcome_red w r e) = e_static e"
  by (auto simp: red_leg_defs split: test_outcome.split)

lemma row_red_fields [frame_simps]:
  "e_broken (row_red w r e) \<longleftrightarrow> e_broken e \<or> broken_cause w r"
  "e_stale (row_red w r e) \<longleftrightarrow> e_stale e \<or> stale_cause r"
  "e_attested (row_red w r e) = e_attested e" "e_proof (row_red w r e) = e_proof e"
  "e_property (row_red w r e) = e_property e" "e_example (row_red w r e) = e_example e"
  "e_static (row_red w r e) = e_static e"
  by (auto simp: row_red_def frame_simps broken_cause_def stale_cause_def)

lemma row_grant_fields [frame_simps]:
  "e_broken (row_grant w r e) = e_broken e" "e_stale (row_grant w r e) = e_stale e"
  "e_attested (row_grant w r e) = e_attested e"
  "e_proof (row_grant w r e) \<longleftrightarrow> e_proof e \<or> proves_row w r"
  "e_property (row_grant w r e) \<longleftrightarrow> e_property e \<or> property_row w r"
  "e_example (row_grant w r e) \<longleftrightarrow> e_example e \<or> example_row w r"
  "e_static (row_grant w r e) \<longleftrightarrow> e_static e \<or> static_row r"
  by (cases "br_witness_class r";
      auto simp: row_grant_def outcome_grant_def shape_grant_def proves_row_def property_row_def
        example_row_def static_row_def counts_as_witness_def)+

text \<open>A row of the requirement whose grants go to the whole of it.\<close>

definition grants_whole :: "spec \<Rightarrow> bool \<Rightarrow> string \<Rightarrow> binding_result \<Rightarrow> bool" where
  "grants_whole sp allow rid r \<longleftrightarrow> br_requirement_id r = rid \<and> grant_target_of sp allow r = Grant_Whole"

definition grants_clause :: "spec \<Rightarrow> bool \<Rightarrow> string \<Rightarrow> nat \<Rightarrow> binding_result \<Rightarrow> bool" where
  "grants_clause sp allow rid n r \<longleftrightarrow>
     br_requirement_id r = rid \<and> grant_target_of sp allow r = Grant_Clause n"

interpretation row_broken: accumulating_flag "apply_row sp allow w" "\<lambda>m. e_broken (fst m rid)"
    "\<lambda>r. br_requirement_id r = rid \<and> broken_cause w r" for sp allow w rid
  by unfold_locales
     (auto simp: apply_row_def case_prod_beta Let_def frame_simps split: grant_target.split)

interpretation row_stale: accumulating_flag "apply_row sp allow w" "\<lambda>m. e_stale (fst m rid)"
    "\<lambda>r. br_requirement_id r = rid \<and> stale_cause r" for sp allow w rid
  by unfold_locales
     (auto simp: apply_row_def case_prod_beta Let_def frame_simps split: grant_target.split)

interpretation row_proof: accumulating_flag "apply_row sp allow w" "\<lambda>m. e_proof (fst m rid)"
    "\<lambda>r. grants_whole sp allow rid r \<and> proves_row w r" for sp allow w rid
  by unfold_locales
     (auto simp: apply_row_def case_prod_beta Let_def frame_simps grants_whole_def split: grant_target.split)

interpretation row_property: accumulating_flag "apply_row sp allow w" "\<lambda>m. e_property (fst m rid)"
    "\<lambda>r. grants_whole sp allow rid r \<and> property_row w r" for sp allow w rid
  by unfold_locales
     (auto simp: apply_row_def case_prod_beta Let_def frame_simps grants_whole_def split: grant_target.split)

interpretation row_example: accumulating_flag "apply_row sp allow w" "\<lambda>m. e_example (fst m rid)"
    "\<lambda>r. grants_whole sp allow rid r \<and> example_row w r" for sp allow w rid
  by unfold_locales
     (auto simp: apply_row_def case_prod_beta Let_def frame_simps grants_whole_def split: grant_target.split)

interpretation row_static: accumulating_flag "apply_row sp allow w" "\<lambda>m. e_static (fst m rid)"
    "\<lambda>r. grants_whole sp allow rid r \<and> static_row r" for sp allow w rid
  by unfold_locales
     (auto simp: apply_row_def case_prod_beta Let_def frame_simps grants_whole_def split: grant_target.split)

interpretation cell_proof: accumulating_flag "apply_row sp allow w"
    "\<lambda>m. e_proof (zero_if_none (snd m (rid, n)))"
    "\<lambda>r. grants_clause sp allow rid n r \<and> proves_row w r" for sp allow w rid n
  by unfold_locales
     (auto simp: apply_row_def case_prod_beta Let_def frame_simps grants_clause_def zero_if_none_def
       split: grant_target.split option.split)

interpretation cell_property: accumulating_flag "apply_row sp allow w"
    "\<lambda>m. e_property (zero_if_none (snd m (rid, n)))"
    "\<lambda>r. grants_clause sp allow rid n r \<and> property_row w r" for sp allow w rid n
  by unfold_locales
     (auto simp: apply_row_def case_prod_beta Let_def frame_simps grants_clause_def zero_if_none_def
       split: grant_target.split option.split)

interpretation cell_example: accumulating_flag "apply_row sp allow w"
    "\<lambda>m. e_example (zero_if_none (snd m (rid, n)))"
    "\<lambda>r. grants_clause sp allow rid n r \<and> example_row w r" for sp allow w rid n
  by unfold_locales
     (auto simp: apply_row_def case_prod_beta Let_def frame_simps grants_clause_def zero_if_none_def
       split: grant_target.split option.split)

interpretation cell_static: accumulating_flag "apply_row sp allow w"
    "\<lambda>m. e_static (zero_if_none (snd m (rid, n)))"
    "\<lambda>r. grants_clause sp allow rid n r \<and> static_row r" for sp allow w rid n
  by unfold_locales
     (auto simp: apply_row_def case_prod_beta Let_def frame_simps grants_clause_def zero_if_none_def
       split: grant_target.split option.split)

interpretation pointer_broken: accumulating_flag pointer_red "\<lambda>ev. e_broken (ev rid)"
    "\<lambda>p. dp_requirement p = rid" for rid
  by unfold_locales (auto simp: pointer_red_def note_red_def)

interpretation attestation_stale: accumulating_flag apply_attestation "\<lambda>ev. e_stale (ev rid)"
    "\<lambda>a. ar_requirement_id a = rid \<and> \<not> ar_content_pinned a" for rid
  by unfold_locales (auto simp: apply_attestation_def note_red_def Let_def)

interpretation attestation_attested: accumulating_flag apply_attestation "\<lambda>ev. e_attested (ev rid)"
    "\<lambda>a. ar_requirement_id a = rid \<and> ar_content_pinned a" for rid
  by unfold_locales (auto simp: apply_attestation_def note_red_def Let_def)

section \<open>The evidence gathered\<close>

lemma pointer_red_frame [frame_simps]:
  "e_stale (pointer_red p ev rid) = e_stale (ev rid)"
  "e_attested (pointer_red p ev rid) = e_attested (ev rid)"
  "e_proof (pointer_red p ev rid) = e_proof (ev rid)"
  "e_property (pointer_red p ev rid) = e_property (ev rid)"
  "e_example (pointer_red p ev rid) = e_example (ev rid)"
  "e_static (pointer_red p ev rid) = e_static (ev rid)"
  by (simp_all add: pointer_red_def note_red_def)

lemma apply_attestation_frame [frame_simps]:
  "e_broken (apply_attestation a ev rid) = e_broken (ev rid)"
  "e_proof (apply_attestation a ev rid) = e_proof (ev rid)"
  "e_property (apply_attestation a ev rid) = e_property (ev rid)"
  "e_example (apply_attestation a ev rid) = e_example (ev rid)"
  "e_static (apply_attestation a ev rid) = e_static (ev rid)"
  by (simp_all add: apply_attestation_def note_red_def Let_def)

lemma apply_row_attested [frame_simps]:
  "e_attested (fst (apply_row sp allow w r m) rid) = e_attested (fst m rid)"
  by (auto simp: apply_row_def case_prod_beta Let_def frame_simps split: grant_target.split)

lemma fold_pointer_frame:
  "e_stale (fold pointer_red ps ev rid) = e_stale (ev rid)"
  "e_attested (fold pointer_red ps ev rid) = e_attested (ev rid)"
  "e_proof (fold pointer_red ps ev rid) = e_proof (ev rid)"
  "e_property (fold pointer_red ps ev rid) = e_property (ev rid)"
  "e_example (fold pointer_red ps ev rid) = e_example (ev rid)"
  "e_static (fold pointer_red ps ev rid) = e_static (ev rid)"
  by (induction ps arbitrary: ev) (simp_all add: frame_simps)

lemma fold_attestation_frame:
  "e_broken (fold apply_attestation as ev rid) = e_broken (ev rid)"
  "e_proof (fold apply_attestation as ev rid) = e_proof (ev rid)"
  "e_property (fold apply_attestation as ev rid) = e_property (ev rid)"
  "e_example (fold apply_attestation as ev rid) = e_example (ev rid)"
  "e_static (fold apply_attestation as ev rid) = e_static (ev rid)"
  by (induction as arbitrary: ev) (simp_all add: frame_simps)

lemma fold_row_attested:
  "e_attested (fst (fold (apply_row sp allow w) rs m) rid) = e_attested (fst m rid)"
  by (induction rs arbitrary: m) (simp_all add: frame_simps)

lemma zero_fields [simp]:
  "e_broken evidence_zero = False" "e_stale evidence_zero = False" "e_attested evidence_zero = False"
  "e_proof evidence_zero = False" "e_property evidence_zero = False" "e_example evidence_zero = False"
  "e_static evidence_zero = False" "e_reasons evidence_zero = []"
  by (simp_all add: evidence_zero_def)

definition dangling_ids :: "spec \<Rightarrow> store \<Rightarrow> string set" where
  "dangling_ids sp st = set (map dp_requirement (dangling_pointers sp st))"

lemma gather_red:
  "e_broken (fst (gather sp vr st w pol) rid) \<longleftrightarrow>
     rid \<in> dangling_ids sp st \<or> (\<exists>r\<in>set (rp_results vr). br_requirement_id r = rid \<and> broken_cause w r)"
  "e_stale (fst (gather sp vr st w pol) rid) \<longleftrightarrow>
     (\<exists>r\<in>set (rp_results vr). br_requirement_id r = rid \<and> stale_cause r)
     \<or> (\<exists>a\<in>set (rp_attestations vr). ar_requirement_id a = rid \<and> \<not> ar_content_pinned a)"
  "e_attested (fst (gather sp vr st w pol) rid) \<longleftrightarrow>
     (\<exists>a\<in>set (rp_attestations vr). ar_requirement_id a = rid \<and> ar_content_pinned a)"
  by (auto simp: gather_def Let_def fold_attestation_frame row_broken.fold_flag pointer_broken.fold_flag
      attestation_stale.fold_flag row_stale.fold_flag fold_pointer_frame attestation_attested.fold_flag
      fold_row_attested dangling_ids_def)

lemma gather_grants:
  "e_proof (fst (gather sp vr st w pol) rid) \<longleftrightarrow>
     (\<exists>r\<in>set (rp_results vr). grants_whole sp (allow_whole_of pol) rid r \<and> proves_row w r)"
  "e_property (fst (gather sp vr st w pol) rid) \<longleftrightarrow>
     (\<exists>r\<in>set (rp_results vr). grants_whole sp (allow_whole_of pol) rid r \<and> property_row w r)"
  "e_example (fst (gather sp vr st w pol) rid) \<longleftrightarrow>
     (\<exists>r\<in>set (rp_results vr). grants_whole sp (allow_whole_of pol) rid r \<and> example_row w r)"
  "e_static (fst (gather sp vr st w pol) rid) \<longleftrightarrow>
     (\<exists>r\<in>set (rp_results vr). grants_whole sp (allow_whole_of pol) rid r \<and> static_row r)"
  by (simp_all add: gather_def Let_def fold_attestation_frame row_proof.fold_flag row_property.fold_flag
      row_example.fold_flag row_static.fold_flag fold_pointer_frame)

lemma gather_cells:
  "e_proof (zero_if_none (snd (gather sp vr st w pol) (rid, n))) \<longleftrightarrow>
     (\<exists>r\<in>set (rp_results vr). grants_clause sp (allow_whole_of pol) rid n r \<and> proves_row w r)"
  "e_property (zero_if_none (snd (gather sp vr st w pol) (rid, n))) \<longleftrightarrow>
     (\<exists>r\<in>set (rp_results vr). grants_clause sp (allow_whole_of pol) rid n r \<and> property_row w r)"
  "e_example (zero_if_none (snd (gather sp vr st w pol) (rid, n))) \<longleftrightarrow>
     (\<exists>r\<in>set (rp_results vr). grants_clause sp (allow_whole_of pol) rid n r \<and> example_row w r)"
  "e_static (zero_if_none (snd (gather sp vr st w pol) (rid, n))) \<longleftrightarrow>
     (\<exists>r\<in>set (rp_results vr). grants_clause sp (allow_whole_of pol) rid n r \<and> static_row r)"
  by (simp_all add: gather_def Let_def cell_proof.fold_flag cell_property.fold_flag
      cell_example.fold_flag cell_static.fold_flag zero_if_none_def [of None])

section \<open>The rows of the report\<close>

definition row_for ::
  "(nat \<Rightarrow> bool) \<Rightarrow> policy option \<Rightarrow> clause_ev_map \<Rightarrow> string set \<Rightarrow> ev_map \<Rightarrow> requirement
     \<Rightarrow> req_row \<times> row_facts" where
  "row_for tbl pol cev ids ev r = snd (judge_requirement tbl pol cev ids r ev)"

lemma judge_requirement_frame:
  "k \<noteq> req_id r \<Longrightarrow> fst (judge_requirement tbl pol cev ids r ev) k = ev k"
  by (simp add: judge_requirement_def Let_def)

lemma row_for_cong:
  "ev (req_id r) = ev' (req_id r) \<Longrightarrow> row_for tbl pol cev ids ev r = row_for tbl pol cev ids ev' r"
  by (simp add: row_for_def judge_requirement_def Let_def)

lemma walk_judge:
  assumes "distinct (map req_id rs)"
  shows "snd (walk (\<lambda>ev r. judge_requirement tbl pol cev ids r ev) ev rs) = map (row_for tbl pol cev ids ev) rs"
  using assms
proof (induction rs arbitrary: ev)
  case (Cons r rs)
  let ?ev = "fst (judge_requirement tbl pol cev ids r ev)"
  have "row_for tbl pol cev ids ?ev q = row_for tbl pol cev ids ev q" if "q \<in> set rs" for q
    using that Cons.prems by (intro row_for_cong judge_requirement_frame) (auto simp: image_iff)
  with Cons show ?case by (simp add: case_prod_beta row_for_def [symmetric])
qed simp

lemma judged_ids: "map (rr_id \<circ> fst) (judged tbl sp vr st w pol) = map req_id (spec_requirements sp)"
proof -
  have "map (rr_id \<circ> fst) (snd (walk (\<lambda>ev r. judge_requirement tbl pol cev ids r ev) ev rs)) = map req_id rs"
    for cev ids ev rs
    by (induction rs arbitrary: ev) (auto simp: case_prod_beta judge_requirement_def Let_def)
  then show ?thesis by (simp add: judged_def case_prod_beta)
qed

definition bound_ids :: "'m report \<Rightarrow> string set" where
  "bound_ids vr = set (map br_requirement_id (rp_results vr))"

lemma judged_eq:
  assumes "distinct (map req_id (spec_requirements sp))"
  shows "judged tbl sp vr st w pol =
    map (row_for tbl pol (snd (gather sp vr st w pol)) (bound_ids vr) (fst (gather sp vr st w pol)))
      (spec_requirements sp)"
  using walk_judge [OF assms] by (simp add: judged_def case_prod_beta bound_ids_def)

lemma finish_row_frame [frame_simps]:
  "rr_id (fst (finish_row ga D facts r)) = rr_id r"
  "rr_bucket (fst (finish_row ga D facts r)) = rr_bucket r"
  "rr_kind (fst (finish_row ga D facts r)) = rr_kind r"
  "rr_keyword (fst (finish_row ga D facts r)) = rr_keyword r"
  by (simp_all add: finish_row_def Let_def)

lemma evaluate_rows:
  "map rr_bucket (cr_requirements (evaluate tbl sp vr st w pol))
     = map (rr_bucket \<circ> fst) (judged tbl sp vr st w pol)"
  by (simp add: evaluate_def Let_def frame_simps comp_def)

text \<open>The bucket the evaluation gives a requirement.\<close>

definition final_bucket ::
  "spec \<Rightarrow> 'm report \<Rightarrow> store \<Rightarrow> bool \<Rightarrow> policy option \<Rightarrow> requirement \<Rightarrow> bucket" where
  "final_bucket sp vr st w pol r =
     bucket_of pol r (fst (gather sp vr st w pol) (req_id r)) (snd (gather sp vr st w pol))
       (req_id r \<in> bound_ids vr)"

lemma row_for_fields:
  "rr_id (fst (row_for tbl pol cev ids ev r)) = req_id r"
  "rr_bucket (fst (row_for tbl pol cev ids ev r)) = bucket_of pol r (ev (req_id r)) cev (req_id r \<in> ids)"
  "rf_stale (snd (row_for tbl pol cev ids ev r)) = e_stale (ev (req_id r))"
  by (simp_all add: row_for_def judge_requirement_def Let_def)

lemma evaluate_rows_eq:
  assumes "distinct (map req_id (spec_requirements sp))"
  shows "map (\<lambda>q. (rr_id q, rr_bucket q)) (cr_requirements (evaluate tbl sp vr st w pol))
    = map (\<lambda>r. (req_id r, final_bucket sp vr st w pol r)) (spec_requirements sp)"
  by (simp add: evaluate_def Let_def frame_simps comp_def judged_eq [OF assms] row_for_fields
      final_bucket_def)

lemma evaluate_row_bucket:
  assumes "distinct (map req_id (spec_requirements sp))" and "r \<in> set (spec_requirements sp)"
    and "q \<in> set (cr_requirements (evaluate tbl sp vr st w pol))" and "rr_id q = req_id r"
  shows "rr_bucket q = final_bucket sp vr st w pol r"
proof -
  have "(rr_id q, rr_bucket q) \<in> set (map (\<lambda>q. (rr_id q, rr_bucket q)) (cr_requirements (evaluate tbl sp vr st w pol)))"
    using assms(3) by simp
  then obtain r' where "r' \<in> set (spec_requirements sp)" "req_id r' = rr_id q"
      "rr_bucket q = final_bucket sp vr st w pol r'"
    unfolding evaluate_rows_eq [OF assms(1)] by auto
  moreover have "r' = r" using assms(1,2,4) calculation(1,2) by (simp add: distinct_map inj_on_def)
  ultimately show ?thesis by simp
qed

section \<open>Buckets and the facts behind them\<close>

definition broken_fact :: "spec \<Rightarrow> 'm report \<Rightarrow> store \<Rightarrow> bool \<Rightarrow> string \<Rightarrow> bool" where
  "broken_fact sp vr st w rid \<longleftrightarrow>
     rid \<in> dangling_ids sp st \<or> (\<exists>r\<in>set (rp_results vr). br_requirement_id r = rid \<and> broken_cause w r)"

definition stale_fact :: "'m report \<Rightarrow> string \<Rightarrow> bool" where
  "stale_fact vr rid \<longleftrightarrow>
     (\<exists>r\<in>set (rp_results vr). br_requirement_id r = rid \<and> stale_cause r)
     \<or> (\<exists>a\<in>set (rp_attestations vr). ar_requirement_id a = rid \<and> \<not> ar_content_pinned a)"

lemma final_bucket_hygiene:
  "final_bucket sp vr st w pol r = Broken \<longleftrightarrow> broken_fact sp vr st w (req_id r)"
  "final_bucket sp vr st w pol r = Stale \<longleftrightarrow> \<not> broken_fact sp vr st w (req_id r) \<and> stale_fact vr (req_id r)"
  by (auto simp: final_bucket_def bucket_of_def Let_def bound_row_def gather_red broken_fact_def stale_fact_def)

definition reaches :: "spec \<Rightarrow> bool \<Rightarrow> string \<Rightarrow> nat option \<Rightarrow> binding_result \<Rightarrow> bool" where
  "reaches sp allow rid cell r \<longleftrightarrow>
     grants_whole sp allow rid r \<or> (\<exists>n. cell = Some n \<and> grants_clause sp allow rid n r)"

text \<open>The evidence the rows justify for a requirement, or for one of its clauses.\<close>

definition granted_evidence ::
  "spec \<Rightarrow> 'm report \<Rightarrow> bool \<Rightarrow> policy option \<Rightarrow> string \<Rightarrow> nat option \<Rightarrow> evidence" where
  "granted_evidence sp vr w pol rid cell =
     (let reach = reaches sp (allow_whole_of pol) rid cell in
      evidence_zero\<lparr>e_proof := (\<exists>r\<in>set (rp_results vr). reach r \<and> proves_row w r),
                    e_property := (\<exists>r\<in>set (rp_results vr). reach r \<and> property_row w r),
                    e_example := (\<exists>r\<in>set (rp_results vr). reach r \<and> example_row w r),
                    e_static := (\<exists>r\<in>set (rp_results vr). reach r \<and> static_row r)\<rparr>)"

text \<open>A policy reads evidence through four bits and never loses by more of them.\<close>

definition evidence_le :: "evidence \<Rightarrow> evidence \<Rightarrow> bool" where
  "evidence_le e d \<longleftrightarrow>
     (e_example e \<longrightarrow> e_example d) \<and> (e_property e \<longrightarrow> e_property d)
     \<and> (e_static e \<longrightarrow> e_static d) \<and> (e_proof e \<longrightarrow> e_proof d)"

locale evidence_policy =
  fixes sat :: "evidence \<Rightarrow> bool"
  assumes monotone: "evidence_le e d \<Longrightarrow> sat e \<Longrightarrow> sat d"
begin

lemma sat_bits:
  assumes "evidence_le e d" and "evidence_le d e"
  shows "sat e = sat d"
  using assms monotone by blast

lemma sat_join: "sat e \<Longrightarrow> sat (evidence_join e c)"
  by (rule monotone) (auto simp: evidence_le_def evidence_join_def split: option.split)

lemma sat_join_right: "sat d \<Longrightarrow> sat (evidence_join e (Some d))"
  by (rule monotone) (auto simp: evidence_le_def evidence_join_def)

end

lemma satisfies_minimum_mono: "evidence_le e d \<Longrightarrow> satisfies_minimum m e \<Longrightarrow> satisfies_minimum m d"
  by (cases m) (auto simp: evidence_le_def witness_def)

lemma satisfies_default_mono:
  "evidence_le e d \<Longrightarrow> satisfies_default kind kw e \<Longrightarrow> satisfies_default kind kw d"
  by (cases kw; cases kind) (auto simp: evidence_le_def witness_def)

interpretation policy_cell: evidence_policy "satisfied pol kind kw" for pol kind kw
  by unfold_locales
     (auto simp: satisfied_def dest: satisfies_minimum_mono satisfies_default_mono split: option.splits)

lemma gathered_whole:
  "satisfied pol kind kw (fst (gather sp vr st w pol) rid)
     = satisfied pol kind kw (granted_evidence sp vr w pol rid None)"
  by (rule policy_cell.sat_bits)
     (simp_all add: evidence_le_def granted_evidence_def Let_def gather_grants reaches_def)

lemma join_zero:
  "e_proof (evidence_join e c) \<longleftrightarrow> e_proof e \<or> e_proof (zero_if_none c)"
  "e_property (evidence_join e c) \<longleftrightarrow> e_property e \<or> e_property (zero_if_none c)"
  "e_example (evidence_join e c) \<longleftrightarrow> e_example e \<or> e_example (zero_if_none c)"
  "e_static (evidence_join e c) \<longleftrightarrow> e_static e \<or> e_static (zero_if_none c)"
  by (cases c; simp add: evidence_join_def zero_if_none_def)+

lemma gathered_cell:
  "satisfied pol kind kw (evidence_join (fst (gather sp vr st w pol) rid) (snd (gather sp vr st w pol) (rid, n)))
     = satisfied pol kind kw (granted_evidence sp vr w pol rid (Some n))"
  by (rule policy_cell.sat_bits)
     (auto simp: evidence_le_def granted_evidence_def Let_def gather_grants gather_cells reaches_def join_zero)

definition policy_satisfied ::
  "spec \<Rightarrow> 'm report \<Rightarrow> bool \<Rightarrow> policy option \<Rightarrow> requirement \<Rightarrow> bool" where
  "policy_satisfied sp vr w pol r \<longleftrightarrow>
     (if req_clauses r = []
      then satisfied pol (req_kind r) (req_keyword r) (granted_evidence sp vr w pol (req_id r) None)
      else list_all (\<lambda>c. satisfied pol (req_kind r) (req_keyword r)
             (granted_evidence sp vr w pol (req_id r) (Some (cl_ordinal c)))) (req_clauses r))"

lemma policy_met_gathered:
  "fst (policy_met pol r (fst (gather sp vr st w pol) (req_id r)) (snd (gather sp vr st w pol)))
     = policy_satisfied sp vr w pol r"
  by (simp add: policy_met_def policy_satisfied_def gathered_whole clause_met_def [abs_def] gathered_cell)

lemma unbound_no_evidence:
  assumes "rid \<notin> bound_ids vr"
  shows "granted_evidence sp vr w pol rid cell = evidence_zero"
proof -
  have "\<not> reaches sp (allow_whole_of pol) rid cell r" if "r \<in> set (rp_results vr)" for r
    using that assms by (auto simp: reaches_def grants_whole_def grants_clause_def bound_ids_def)
  then show ?thesis by (auto simp: granted_evidence_def Let_def evidence_zero_def)
qed

lemma satisfied_zero:
  "minimum pol kind kw \<noteq> Some ME_EXEMPT \<Longrightarrow> \<not> satisfied pol kind kw evidence_zero"
  by (cases kind; cases kw)
     (auto simp: satisfied_def evidence_zero_def witness_def split: option.split elim!: satisfies_minimum.elims)

lemma final_bucket_covered:
  assumes "minimum pol (req_kind r) (req_keyword r) \<noteq> Some ME_EXEMPT"
  shows "final_bucket sp vr st w pol r = Covered \<longleftrightarrow>
     \<not> broken_fact sp vr st w (req_id r) \<and> \<not> stale_fact vr (req_id r) \<and> policy_satisfied sp vr w pol r"
proof -
  let ?e = "fst (gather sp vr st w pol) (req_id r)"
  have "\<not> policy_satisfied sp vr w pol r" if "req_id r \<notin> bound_ids vr"
    using assms unbound_no_evidence [OF that, of sp w pol] satisfied_zero
    by (cases "req_clauses r") (auto simp: policy_satisfied_def)
  moreover have "e_broken ?e \<longleftrightarrow> broken_fact sp vr st w (req_id r)" "e_stale ?e \<longleftrightarrow> stale_fact vr (req_id r)"
    by (simp_all add: gather_red broken_fact_def stale_fact_def)
  ultimately show ?thesis
    using assms by (auto simp: final_bucket_def bucket_of_def Let_def bound_row_def policy_met_gathered)
qed

text \<open>The report has one row per requirement of the corpus, in corpus order, and over a corpus
  with distinct ids its bucket is the one the policy gives the evidence gathered for that
  requirement; later legs (gaps, gate) never change a bucket.\<close>

theorem evaluate_one_row_each:
  assumes "distinct (map req_id (spec_requirements sp))"
  shows "map (\<lambda>q. (rr_id q, rr_bucket q)) (cr_requirements (evaluate tbl sp vr st w pol))
    = map (\<lambda>r. (req_id r, final_bucket sp vr st w pol r)) (spec_requirements sp)"
  by (rule evaluate_rows_eq [OF assms])

text \<open>C24: the hygiene buckets are exact: a requirement reads broken precisely when one of its
  enforcement pointers dangles or a row of it names a missing symbol, a moved shape, or, in a
  witnessed run, a bound test that failed or did not run; it reads stale precisely when none
  of that holds and a row or attestation of it has no standing consent or a row no shape pin.\<close>

theorem evaluate_hygiene_buckets:
  assumes "distinct (map req_id (spec_requirements sp))" and "r \<in> set (spec_requirements sp)"
    and "q \<in> set (cr_requirements (evaluate tbl sp vr st w pol))" and "rr_id q = req_id r"
  shows "(rr_bucket q = Broken \<longleftrightarrow>
      req_id r \<in> dangling_ids sp st
      \<or> (\<exists>b\<in>set (rp_results vr). br_requirement_id b = req_id r \<and> broken_cause w b))
    \<and> (rr_bucket q = Stale \<longleftrightarrow> rr_bucket q \<noteq> Broken
      \<and> ((\<exists>b\<in>set (rp_results vr). br_requirement_id b = req_id r \<and> stale_cause b)
         \<or> (\<exists>a\<in>set (rp_attestations vr). ar_requirement_id a = req_id r \<and> \<not> ar_content_pinned a)))"
  unfolding evaluate_row_bucket [OF assms] final_bucket_hygiene broken_fact_def stale_fact_def by blast

text \<open>C5: covered is exact: outside a cell the manifest exempts, a requirement reads covered
  precisely when nothing of it is broken or stale and the rows that reach it, or each of its
  clauses, prove what the policy demands of its cell: rows whose consent holds, that resolve,
  and whose grant goes to the whole requirement or to that clause.\<close>

theorem evaluate_covered_iff:
  assumes "distinct (map req_id (spec_requirements sp))" and "r \<in> set (spec_requirements sp)"
    and "q \<in> set (cr_requirements (evaluate tbl sp vr st w pol))" and "rr_id q = req_id r"
    and "minimum pol (req_kind r) (req_keyword r) \<noteq> Some ME_EXEMPT"
  shows "rr_bucket q = Covered \<longleftrightarrow>
     \<not> broken_fact sp vr st w (req_id r) \<and> \<not> stale_fact vr (req_id r) \<and> policy_satisfied sp vr w pol r"
  unfolding evaluate_row_bucket [OF assms(1-4)] by (rule final_bucket_covered [OF assms(5)])

lemma unwitnessed_static_only:
  "\<not> e_proof (granted_evidence sp vr False pol rid cell)"
  "\<not> witness (granted_evidence sp vr False pol rid cell)"
  by (simp_all add: granted_evidence_def Let_def proves_row_def property_row_def example_row_def
      counts_as_witness_def witness_def)

text \<open>Without an executed witness no MUST is covered: in an unwitnessed run, under the default
  policy of its cell, a MUST or MUST NOT requirement never reads covered, whatever static
  bindings, attestations or gaps the records hold.\<close>

theorem unwitnessed_must_never_covered:
  assumes "distinct (map req_id (spec_requirements sp))" and "r \<in> set (spec_requirements sp)"
    and "q \<in> set (cr_requirements (evaluate tbl sp vr st False pol))" and "rr_id q = req_id r"
    and "req_keyword r = KW_MUST \<or> req_keyword r = KW_MUST_NOT"
    and "minimum pol (req_kind r) (req_keyword r) = None"
  shows "rr_bucket q \<noteq> Covered"
proof -
  have no: "\<not> satisfies_must (req_kind r) (granted_evidence sp vr False pol (req_id r) cell)" for cell
    using unwitnessed_static_only [of sp vr pol "req_id r" cell]
    by (cases "req_kind r") (auto simp: witness_def)
  have "\<not> policy_satisfied sp vr False pol r"
    using assms(5,6) no by (cases "req_clauses r") (auto simp: policy_satisfied_def satisfied_def)
  then show ?thesis
    using final_bucket_covered [of pol r sp vr st False] assms(6) by (simp add: evaluate_row_bucket [OF assms(1-4)])
qed

section \<open>The excuses and the gate\<close>

lemma fold_excuses:
  "ga_gapped (fold (gap_excuses h) gs acc) = ga_gapped acc \<union> g_requirement_id ` set gs"
  "ga_stale (fold (gap_excuses h) gs acc) = ga_stale acc \<union> g_requirement_id ` {g \<in> set gs. gap_drifted h g}"
  "ga_excused (fold (gap_excuses h) gs acc) rid = ga_excused acc rid
     \<union> (\<Union>g \<in> {g \<in> set gs. g_requirement_id g = rid \<and> \<not> gap_drifted h g}. excuse_set (g_excuses g))"
  by (induction gs arbitrary: acc) (auto simp: gap_excuses_def Let_def)

lemma collect_excuses_eq:
  "ga_gapped (collect_excuses h gs) = g_requirement_id ` set gs"
  "ga_stale (collect_excuses h gs) = g_requirement_id ` {g \<in> set gs. gap_drifted h g}"
  "ga_excused (collect_excuses h gs) = (\<lambda>rid.
     if \<exists>g\<in>set gs. g_requirement_id g = rid \<and> gap_drifted h g then {}
     else (\<Union>g \<in> {g \<in> set gs. g_requirement_id g = rid}. excuse_set (g_excuses g)))"
proof -
  show "ga_excused (collect_excuses h gs) = (\<lambda>rid.
     if \<exists>g\<in>set gs. g_requirement_id g = rid \<and> gap_drifted h g then {}
     else (\<Union>g \<in> {g \<in> set gs. g_requirement_id g = rid}. excuse_set (g_excuses g)))"
    by (rule ext) (auto simp: collect_excuses_def Let_def fold_excuses)
qed (simp_all add: collect_excuses_def Let_def fold_excuses)

lemma collect_excuses_perm:
  assumes "mset gs = mset gs'"
  shows "collect_excuses h gs = collect_excuses h gs'"
proof -
  have "(\<Union>g \<in> {g \<in> set gs. g_requirement_id g = rid}. excuse_set (g_excuses g))
      = (\<Union>g \<in> {g \<in> set gs'. g_requirement_id g = rid}. excuse_set (g_excuses g))" for rid
    by (simp only: mset_eq_setD [OF assms])
  then show ?thesis
    using mset_eq_setD [OF assms] by (intro gap_acc.equality) (simp_all only: collect_excuses_eq, simp)
qed

lemma fold_map_lookup:
  assumes "distinct (map k xs)" and "x \<in> set xs"
  shows "fold (\<lambda>x m. m(k x \<mapsto> v x)) xs m (k x) = Some (v x)"
proof -
  have frame: "j \<notin> k ` set ys \<Longrightarrow> fold (\<lambda>x m. m(k x \<mapsto> v x)) ys m j = m j" for ys m j
    by (induction ys arbitrary: m) auto
  show ?thesis
    using assms
  proof (induction xs arbitrary: m)
    case (Cons y ys)
    show ?case
    proof (cases "x = y")
      case True
      have "fold (\<lambda>x m. m(k x \<mapsto> v x)) ys (m(k y \<mapsto> v y)) (k y) = (m(k y \<mapsto> v y)) (k y)"
        by (rule frame) (use Cons.prems(1) in auto)
      with True show ?thesis by (simp only: fold_simps comp_apply fun_upd_same)
    next
      case False
      with Cons show ?thesis by simp
    qed
  qed simp
qed

lemma facts_lookup:
  assumes "distinct (map (rr_id \<circ> fst) rows)" and "(r, f) \<in> set rows"
  shows "facts_of rows (rr_id r) = Some f"
  using fold_map_lookup [of "rr_id \<circ> fst" rows "(r, f)" snd] assms
  by (simp add: facts_of_def split_def)

lemma buckets_lookup:
  assumes "distinct (map (rr_id \<circ> fst) rows)" and "(r, f) \<in> set rows"
  shows "buckets_of rows (rr_id r) = Some (rr_bucket r)"
  using fold_map_lookup [of "rr_id \<circ> fst" rows "(r, f)" "rr_bucket \<circ> fst"] assms
  by (simp add: buckets_of_def split_def)

text \<open>
  The one way a red requirement is not a violation: its pointers resolve, no gap on it has
  drifted, and every class of its red is declared by some gap on it.
\<close>

definition excused_requirement ::
  "spec \<Rightarrow> 'm report \<Rightarrow> store \<Rightarrow> requirement \<Rightarrow> bucket \<Rightarrow> bool" where
  "excused_requirement sp vr st r b \<longleftrightarrow>
     req_id r \<notin> dangling_ids sp st
     \<and> \<not> (\<exists>gf\<in>set (st_gaps st). g_requirement_id (gf_gap gf) = req_id r \<and> gap_drifted (hashes_of sp) (gf_gap gf))
     \<and> (\<forall>c\<in>set (if b = Broken \<and> stale_fact vr (req_id r) then [Broken, Stale]
                 else if b = Partial then [Uncovered] else [b]).
          \<exists>gf\<in>set (st_gaps st). g_requirement_id (gf_gap gf) = req_id r
            \<and> c \<in> excuse_set (g_excuses (gf_gap gf)))"

lemma red_classes_eq:
  "red b \<Longrightarrow> red_classes b f =
     (if b = Broken \<and> rf_stale f then [Broken, Stale] else if b = Partial then [Uncovered] else [b])"
  by (cases b) auto

lemma red_classes_nonempty: "red_classes b f \<noteq> []"
  by (cases b) auto

lemma finish_row_violation:
  assumes "red (rr_bucket q)" and "facts (rr_id q) = Some f"
  shows "snd (finish_row ga D facts q) \<longleftrightarrow>
     rr_id q \<in> D \<or> rr_id q \<notin> ga_gapped ga
     \<or> \<not> (\<forall>c\<in>set (red_classes (rr_bucket q) f). c \<in> ga_excused ga (rr_id q))"
  using assms by (auto simp: finish_row_def Let_def undeclared_classes_def filter_empty_conv)

lemma row_violation:
  fixes tbl pol w and vr :: "'m report" and st sp
  assumes "distinct (map req_id (spec_requirements sp))" and "r \<in> set (spec_requirements sp)"
  defines "row \<equiv> row_for tbl pol (snd (gather sp vr st w pol)) (bound_ids vr) (fst (gather sp vr st w pol)) r"
    and "b \<equiv> final_bucket sp vr st w pol r"
  shows "snd (finish_row (collect_excuses (hashes_of sp) (map gf_gap (st_gaps st)))
      (set (map dp_requirement (dangling_pointers sp st))) (facts_of (judged tbl sp vr st w pol)) (fst row))
    \<longleftrightarrow> red b \<and> \<not> excused_requirement sp vr st r b"
proof (cases "red b")
  case False
  then show ?thesis
    by (simp add: finish_row_def row_def b_def row_for_fields final_bucket_def)
next
  case True
  let ?ga = "collect_excuses (hashes_of sp) (map gf_gap (st_gaps st))"
  have row_in: "row \<in> set (judged tbl sp vr st w pol)"
    using assms(2) by (simp add: judged_eq [OF assms(1)] row_def)
  have rb: "rr_bucket (fst row) = b" "rr_id (fst row) = req_id r"
    by (simp_all add: row_def b_def row_for_fields final_bucket_def)
  have fs: "rf_stale (snd row) = stale_fact vr (req_id r)"
    by (simp add: row_def row_for_fields gather_red stale_fact_def)
  have "distinct (map (rr_id \<circ> fst) (judged tbl sp vr st w pol))"
    using assms(1) by (simp add: judged_ids)
  from facts_lookup [OF this, of "fst row" "snd row"] row_in
  have facts: "facts_of (judged tbl sp vr st w pol) (rr_id (fst row)) = Some (snd row)" by simp
  have viol: "snd (finish_row ?ga (set (map dp_requirement (dangling_pointers sp st)))
      (facts_of (judged tbl sp vr st w pol)) (fst row)) \<longleftrightarrow>
      req_id r \<in> dangling_ids sp st \<or> req_id r \<notin> ga_gapped ?ga
      \<or> \<not> (\<forall>c\<in>set (red_classes b (snd row)). c \<in> ga_excused ?ga (req_id r))"
    using finish_row_violation [of "fst row" "facts_of (judged tbl sp vr st w pol)" "snd row", OF _ facts]
      True rb by (simp add: dangling_ids_def)
  let ?drift = "\<exists>gf\<in>set (st_gaps st). g_requirement_id (gf_gap gf) = req_id r
      \<and> gap_drifted (hashes_of sp) (gf_gap gf)"
  have in_excused: "c \<in> ga_excused ?ga (req_id r) \<longleftrightarrow> \<not> ?drift
      \<and> (\<exists>gf\<in>set (st_gaps st). g_requirement_id (gf_gap gf) = req_id r
         \<and> c \<in> excuse_set (g_excuses (gf_gap gf)))" for c
    by (auto simp: collect_excuses_eq)
  have gapped: "(\<forall>c\<in>set (red_classes b (snd row)). c \<in> ga_excused ?ga (req_id r))
      \<Longrightarrow> req_id r \<in> ga_gapped ?ga \<and> \<not> ?drift"
  proof -
    assume all: "\<forall>c\<in>set (red_classes b (snd row)). c \<in> ga_excused ?ga (req_id r)"
    obtain c where "c \<in> set (red_classes b (snd row))"
      using red_classes_nonempty [of b "snd row"] by (cases "red_classes b (snd row)") auto
    with all have "c \<in> ga_excused ?ga (req_id r)" by blast
    moreover have "req_id r \<in> ga_gapped ?ga \<longleftrightarrow> (\<exists>gf\<in>set (st_gaps st). g_requirement_id (gf_gap gf) = req_id r)"
      by (force simp: collect_excuses_eq)
    ultimately show ?thesis using in_excused by blast
  qed
  have "excused_requirement sp vr st r b \<longleftrightarrow> req_id r \<notin> dangling_ids sp st \<and> \<not> ?drift
      \<and> (\<forall>c\<in>set (red_classes b (snd row)). \<exists>gf\<in>set (st_gaps st).
          g_requirement_id (gf_gap gf) = req_id r \<and> c \<in> excuse_set (g_excuses (gf_gap gf)))"
    unfolding excused_requirement_def red_classes_eq [OF True] fs by simp
  with viol gapped in_excused True show ?thesis by blast
qed

lemma gate_violations:
  assumes "distinct (map req_id (spec_requirements sp))"
  shows "cr_violations (evaluate tbl sp vr st w pol) =
      sort (map req_id (filter (\<lambda>r. red (final_bucket sp vr st w pol r)
        \<and> \<not> excused_requirement sp vr st r (final_bucket sp vr st w pol r)) (spec_requirements sp)))
    \<and> (gate_passes (evaluate tbl sp vr st w pol) \<longleftrightarrow>
        (\<forall>r\<in>set (spec_requirements sp). red (final_bucket sp vr st w pol r) \<longrightarrow>
          excused_requirement sp vr st r (final_bucket sp vr st w pol r)))"
proof -
  let ?row = "row_for tbl pol (snd (gather sp vr st w pol)) (bound_ids vr) (fst (gather sp vr st w pol))"
  let ?fin = "finish_row (collect_excuses (hashes_of sp) (map gf_gap (st_gaps st)))
      (set (map dp_requirement (dangling_pointers sp st))) (facts_of (judged tbl sp vr st w pol))"
  let ?P = "\<lambda>r. red (final_bucket sp vr st w pol r)
      \<and> \<not> excused_requirement sp vr st r (final_bucket sp vr st w pol r)"
  have "map (rr_id \<circ> fst) (filter snd (map ?fin (map fst (map ?row rs)))) = map req_id (filter ?P rs)"
    if "set rs \<subseteq> set (spec_requirements sp)" for rs
    using that row_violation [where tbl = tbl and pol = pol and vr = vr and st = st and w = w, OF assms(1)]
    by (induction rs) (simp_all add: frame_simps row_for_fields)
  from this [of "spec_requirements sp"]
  have v: "cr_violations (evaluate tbl sp vr st w pol) = sort (map req_id (filter ?P (spec_requirements sp)))"
    unfolding evaluate_def Let_def judged_eq [OF assms, symmetric] by simp
  have "sort (map req_id (filter ?P (spec_requirements sp))) = [] \<longleftrightarrow>
      (\<forall>r\<in>set (spec_requirements sp). \<not> ?P r)"
    by (metis (no_types, lifting) filter_empty_conv length_0_conv length_sort map_is_Nil_conv)
  with v show ?thesis unfolding gate_passes_def by (simp add: v)
qed

text \<open>C4: the gate is exact: over a corpus with distinct ids the violations are, sorted, the red
  requirements that nothing excuses: a dangling pointer, a drifted gap record, or a red class
  no gap on the requirement declares makes the red a violation, and nothing else does; and
  the gate passes precisely when there is none.\<close>

theorem gate_exact:
  assumes "distinct (map req_id (spec_requirements sp))"
  shows "cr_violations (evaluate tbl sp vr st w pol) =
      sort (map req_id (filter (\<lambda>r. red (final_bucket sp vr st w pol r)
        \<and> \<not> excused_requirement sp vr st r (final_bucket sp vr st w pol r)) (spec_requirements sp)))
    \<and> (gate_passes (evaluate tbl sp vr st w pol) \<longleftrightarrow>
        (\<forall>r\<in>set (spec_requirements sp). red (final_bucket sp vr st w pol r) \<longrightarrow>
          excused_requirement sp vr st r (final_bucket sp vr st w pol r)))"
  by (rule gate_violations [OF assms])

section \<open>Order, boundaries and the gap lifecycle\<close>

lemma evaluate_gap_frame:
  "dangling_pointers sp (st\<lparr>st_gaps := gs\<rparr>) = dangling_pointers sp st"
  "judged tbl sp vr (st\<lparr>st_gaps := gs\<rparr>) w pol = judged tbl sp vr st w pol"
proof -
  show *: "dangling_pointers sp (st\<lparr>st_gaps := gs\<rparr>) = dangling_pointers sp st"
    by (simp add: dangling_pointers_def req_dangling_def [abs_def] pointer_members_def store_bindings_def)
  show "judged tbl sp vr (st\<lparr>st_gaps := gs\<rparr>) w pol = judged tbl sp vr st w pol"
    by (simp add: judged_def gather_def *)
qed

text \<open>The excuses do not depend on the order the gap records are read in: whatever the file
  order, the rows with their reasons and boundary marks and the violations are the same, so a
  stale consent anywhere suspends its requirement's excuse.\<close>

theorem excuses_order_independent:
  assumes "mset gs = mset (st_gaps st)"
  shows "cr_requirements (evaluate tbl sp vr (st\<lparr>st_gaps := gs\<rparr>) w pol)
      = cr_requirements (evaluate tbl sp vr st w pol)
    \<and> cr_violations (evaluate tbl sp vr (st\<lparr>st_gaps := gs\<rparr>) w pol)
      = cr_violations (evaluate tbl sp vr st w pol)"
proof -
  have "mset (map gf_gap gs) = mset (map gf_gap (st_gaps st))" using assms by simp
  from collect_excuses_perm [OF this] show ?thesis
    by (simp add: evaluate_def Let_def evaluate_gap_frame)
qed

text \<open>The two boundary classes are exclusive: no row is blocked both on the caller's id scope
  and on the policy's witness selection, and only a broken row is blocked on either.\<close>

theorem boundary_classes_exclusive:
  "list_all (\<lambda>q. \<not> (rr_scope_blocked q \<and> rr_selection_blocked q)
       \<and> \<not> ((rr_scope_blocked q \<or> rr_selection_blocked q) \<and> rr_bucket q \<noteq> Broken))
     (cr_requirements (evaluate tbl sp vr st w pol))"
proof -
  have start: "\<not> rr_scope_blocked (fst x) \<and> \<not> rr_selection_blocked (fst x)"
    if "x \<in> set (judged tbl sp vr st w pol)" for x
  proof -
    have "x \<in> set (snd (walk (\<lambda>ev r. judge_requirement tbl pol cev ids r ev) ev rs))
        \<Longrightarrow> \<not> rr_scope_blocked (fst x) \<and> \<not> rr_selection_blocked (fst x)" for cev ids ev rs
      by (induction rs arbitrary: ev) (auto simp: case_prod_beta judge_requirement_def Let_def)
    with that show ?thesis by (simp add: judged_def case_prod_beta)
  qed
  have step: "\<not> (rr_scope_blocked (fst (finish_row ga D facts r)) \<and> rr_selection_blocked (fst (finish_row ga D facts r)))
      \<and> \<not> ((rr_scope_blocked (fst (finish_row ga D facts r)) \<or> rr_selection_blocked (fst (finish_row ga D facts r)))
           \<and> rr_bucket (fst (finish_row ga D facts r)) \<noteq> Broken)"
    if "\<not> rr_scope_blocked r \<and> \<not> rr_selection_blocked r" for ga D facts r
    using that by (auto simp: finish_row_def Let_def blocked_on_def)
  have "list_all (\<lambda>q. \<not> (rr_scope_blocked q \<and> rr_selection_blocked q)
       \<and> \<not> ((rr_scope_blocked q \<or> rr_selection_blocked q) \<and> rr_bucket q \<noteq> Broken))
     (map fst (map (finish_row ga D facts) (map fst rows)))"
    if "\<And>x. x \<in> set rows \<Longrightarrow> \<not> rr_scope_blocked (fst x) \<and> \<not> rr_selection_blocked (fst x)"
    for ga D facts and rows :: "(req_row \<times> row_facts) list"
    unfolding list_all_iff set_map ball_simps using that step by blast
  from this [OF start] show ?thesis unfolding evaluate_def Let_def by (simp only: coverage_report.select_convs)
qed

text \<open>A manual gap never lands by itself: while its condition is a manual judgment not yet
  fired, its row reads open, on a covered requirement and an exempt one alike; and a row
  flags a stale consent precisely when its record's set content pin no longer holds.\<close>

theorem manual_gap_stays_open:
  "list_all2 (\<lambda>gf g. \<not> (manual_unfired (g_lands (gf_gap gf)) \<and> gr_state g \<noteq> Gap_Open)
      \<and> (gr_stale_consent g \<longleftrightarrow> g_content_hash (gf_gap gf) \<noteq> []
          \<and> judge (hashes_of sp) (g_requirement_id (gf_gap gf)) (g_content_hash (gf_gap gf))
              (g_source_hash (gf_gap gf)) = Consent_Stale))
     (st_gaps st) (cr_gaps (evaluate tbl sp vr st w pol))"
proof -
  have open0: "gap_state_of bs h g = Gap_Open" if "manual_unfired (g_lands g)" for bs h g
  proof -
    have "\<not> condition_holds (g_lands g) bs h"
      using that by (auto simp: manual_unfired_def condition_holds_def split: option.splits landing_condition.splits)
    with that show ?thesis by (simp add: gap_state_of_def Let_def)
  qed
  show ?thesis
    by (auto simp: evaluate_def Let_def list_all2_conv_all_nth gap_report_row_def open0 gap_drifted_def
        consent_holds_def)
qed

lemma judged_bucket:
  assumes "distinct (map req_id (spec_requirements sp))" and "q \<in> set (spec_requirements sp)"
  shows "bucket_at (buckets_of (judged tbl sp vr st w pol)) (req_id q) = final_bucket sp vr st w pol q"
proof -
  let ?row = "row_for tbl pol (snd (gather sp vr st w pol)) (bound_ids vr) (fst (gather sp vr st w pol)) q"
  have "distinct (map (rr_id \<circ> fst) (judged tbl sp vr st w pol))"
    using assms(1) by (simp add: judged_ids)
  moreover have "(fst ?row, snd ?row) \<in> set (judged tbl sp vr st w pol)"
    using assms(2) by (simp add: judged_eq [OF assms(1)])
  ultimately have "buckets_of (judged tbl sp vr st w pol) (rr_id (fst ?row)) = Some (rr_bucket (fst ?row))"
    by (rule buckets_lookup)
  then show ?thesis by (simp add: row_for_fields bucket_at_def final_bucket_def)
qed

text \<open>A machine gap's state follows the evaluation: over a corpus with distinct ids, a gap whose
  condition is that another requirement of the corpus be covered is
  resolved when its own requirement is covered, or exempt with the condition holding, due when
  the condition holds otherwise, and open when it does not.\<close>

theorem machine_gap_state:
  assumes "distinct (map req_id (spec_requirements sp))" and "r \<in> set (spec_requirements sp)"
    and "gf \<in> set (st_gaps st)" and "g_requirement_id (gf_gap gf) = req_id r"
    and "g_lands (gf_gap gf) = Some (LC_Covered (req_id t)) \<and> t \<in> set (spec_requirements sp)"
  shows "gr_state (gap_report_row (buckets_of (judged tbl sp vr st w pol)) (hashes_of sp) gf) =
      (if final_bucket sp vr st w pol r = Covered then Gap_Resolved
       else if final_bucket sp vr st w pol t = Covered
       then (if final_bucket sp vr st w pol r = Exempt then Gap_Resolved else Gap_Due)
       else Gap_Open)
    \<and> gap_report_row (buckets_of (judged tbl sp vr st w pol)) (hashes_of sp) gf
        \<in> set (cr_gaps (evaluate tbl sp vr st w pol))"
proof -
  note look = judged_bucket [OF assms(1), of _ tbl vr st w pol]
  show ?thesis
    using assms look [OF assms(2)] look [of t]
    by (auto simp: gap_report_row_def gap_state_of_def Let_def condition_holds_def manual_unfired_def
        evaluate_def)
qed

section \<open>The tally and the policy\<close>

lemma gap_count_step_fields [frame_simps]:
  "gt_open (gap_count_step keep g t)
     = gt_open t + (if kept keep (gr_requirement_id g) \<and> gr_state g = Gap_Open then 1 else 0)"
  "gt_due (gap_count_step keep g t)
     = gt_due t + (if kept keep (gr_requirement_id g) \<and> gr_state g = Gap_Due then 1 else 0)"
  "gt_resolved (gap_count_step keep g t)
     = gt_resolved t + (if kept keep (gr_requirement_id g) \<and> gr_state g = Gap_Resolved then 1 else 0)"
  "gt_contradicted (gap_count_step keep g t) = gt_contradicted t
     + (if kept keep (gr_requirement_id g) \<and> gr_state g \<noteq> Gap_Resolved \<and> gr_contradicted g then 1 else 0)"
  by (cases "gr_state g"; simp add: gap_count_step_def gap_tally_add_def Let_def)+

lemma gap_counts_fold:
  "gt_open (fold (gap_count_step keep) gs t)
     = gt_open t + length (filter (\<lambda>g. kept keep (gr_requirement_id g) \<and> gr_state g = Gap_Open) gs)"
  "gt_due (fold (gap_count_step keep) gs t)
     = gt_due t + length (filter (\<lambda>g. kept keep (gr_requirement_id g) \<and> gr_state g = Gap_Due) gs)"
  "gt_resolved (fold (gap_count_step keep) gs t)
     = gt_resolved t + length (filter (\<lambda>g. kept keep (gr_requirement_id g) \<and> gr_state g = Gap_Resolved) gs)"
  "gt_contradicted (fold (gap_count_step keep) gs t)
     = gt_contradicted t + length (filter (\<lambda>g. kept keep (gr_requirement_id g)
        \<and> gr_state g \<noteq> Gap_Resolved \<and> gr_contradicted g) gs)"
  by (induction gs arbitrary: t) (simp_all add: frame_simps)

text \<open>The gap tally partitions the kept gaps: open, due and resolved add up to them, and the
  contradicted count is the number of unresolved ones so declared, never more than the open and
  due together.\<close>

theorem gap_counts_partition:
  "gt_open (gap_counts gs keep) + gt_due (gap_counts gs keep) + gt_resolved (gap_counts gs keep)
     = length (filter (\<lambda>g. kept keep (gr_requirement_id g)) gs)
   \<and> gt_contradicted (gap_counts gs keep) = length (filter (\<lambda>g. kept keep (gr_requirement_id g)
        \<and> gr_state g \<noteq> Gap_Resolved \<and> gr_contradicted g) gs)
   \<and> gt_contradicted (gap_counts gs keep) \<le> gt_open (gap_counts gs keep) + gt_due (gap_counts gs keep)"
proof -
  have "length (filter (\<lambda>g. P g \<and> gr_state g = Gap_Open) gs) + length (filter (\<lambda>g. P g \<and> gr_state g = Gap_Due) gs)
      + length (filter (\<lambda>g. P g \<and> gr_state g = Gap_Resolved) gs) = length (filter P gs)" for P
  proof (induction gs)
    case (Cons g gs)
    then show ?case by (cases "gr_state g") auto
  qed simp
  moreover have "length (filter (\<lambda>g. P g \<and> gr_state g \<noteq> Gap_Resolved \<and> gr_contradicted g) gs)
      \<le> length (filter (\<lambda>g. P g \<and> gr_state g = Gap_Open) gs) + length (filter (\<lambda>g. P g \<and> gr_state g = Gap_Due) gs)" for P
  proof (induction gs)
    case (Cons g gs)
    then show ?case by (cases "gr_state g") auto
  qed simp
  ultimately show ?thesis by (simp add: gap_counts_def gap_counts_fold gap_tally_zero_def)
qed

definition override_cell :: "policy_override \<Rightarrow> clause_kind \<times> keyword" where
  "override_cell p = (po_kind p, po_keyword p)"

definition specified :: "policy_override \<Rightarrow> bool" where
  "specified p \<longleftrightarrow> po_minimum p \<noteq> ME_UNSPECIFIED"

lemma policy_entries_result:
  assumes "distinct (map fst acc)"
  shows "(case policy_entries ps acc of
      Inl e \<Rightarrow> \<not> distinct (map fst acc @ map override_cell (filter specified ps))
    | Inr os \<Rightarrow> distinct (map fst os) \<and> os = acc @ map (\<lambda>p. (override_cell p, po_minimum p)) (filter specified ps))"
  using assms
proof (induction ps arbitrary: acc)
  case (Cons p ps)
  consider "\<not> specified p" | "specified p" "override_cell p \<in> fst ` set acc"
    | "specified p" "override_cell p \<notin> fst ` set acc" by blast
  then show ?case
  proof cases
    case 1
    then have "policy_entries (p # ps) acc = policy_entries ps acc" by (simp add: specified_def)
    moreover have "filter specified (p # ps) = filter specified ps" using 1 by simp
    ultimately show ?thesis using Cons.IH [OF Cons.prems] by (simp only:)
  next
    case 2
    then have "map_of acc (override_cell p) \<noteq> None" by (simp add: map_of_eq_None_iff)
    with 2 show ?thesis by (auto simp: specified_def override_cell_def Let_def)
  next
    case 3
    then have "map_of acc (override_cell p) = None" by (simp add: map_of_eq_None_iff)
    then have e: "policy_entries (p # ps) acc = policy_entries ps (acc @ [(override_cell p, po_minimum p)])"
      using 3(1) by (simp add: specified_def override_cell_def Let_def)
    have f: "filter specified (p # ps) = p # filter specified ps" using 3(1) by simp
    have "distinct (map fst (acc @ [(override_cell p, po_minimum p)]))" using Cons.prems 3(2) by simp
    from Cons.IH [OF this] show ?thesis unfolding e f by (simp only: map_append list.map append.simps append_assoc fst_conv)
  qed
qed simp

text \<open>The policy built from a manifest is its specified entries and nothing else: a manifest
  naming a cell twice is refused, whatever the two minimums; an accepted one gives every
  named cell the minimum of its one entry, in any entry order, and overrides no other cell.\<close>

theorem policy_from_manifest_exact:
  "(case policy_from_manifest m of
      Inl e \<Rightarrow> \<not> distinct (map override_cell (filter specified (mf_policy m)))
    | Inr p \<Rightarrow> distinct (map override_cell (filter specified (mf_policy m)))
        \<and> list_all (\<lambda>x. minimum (Some p) (po_kind x) (po_keyword x) = Some (po_minimum x))
            (filter specified (mf_policy m))
        \<and> {cell. overridden (Some p) (fst cell) (snd cell)} = set (map override_cell (filter specified (mf_policy m)))
        \<and> pl_allow_whole p = mf_allow_whole_clause_claims m)"
proof (cases "policy_entries (mf_policy m) []")
  case (Inl e)
  then show ?thesis
    using policy_entries_result [of "[]" "mf_policy m"] by (simp add: policy_from_manifest_def)
next
  case (Inr os)
  define xs where "xs = filter specified (mf_policy m)"
  have os: "os = map (\<lambda>p. (override_cell p, po_minimum p)) xs" and d: "distinct (map override_cell xs)"
    using policy_entries_result [of "[]" "mf_policy m"] Inr by (auto simp: xs_def comp_def)
  have "map_of os (override_cell x) = Some (po_minimum x)" if "x \<in> set xs" for x
    using that d by (intro map_of_is_SomeI) (auto simp: os comp_def)
  moreover have "map_of os cell \<noteq> None \<longleftrightarrow> cell \<in> set (map override_cell xs)" for cell
    by (simp add: map_of_eq_None_iff os image_image)
  ultimately show ?thesis
    using Inr d unfolding xs_def [symmetric]
    by (auto simp: policy_from_manifest_def minimum_def overridden_def list_all_iff override_cell_def xs_def)
qed

text \<open>More evidence never loses: under any policy, evidence that satisfies a cell still
  satisfies it with more of the four evidence kinds, and so does every clause of a requirement
  by joining what the whole requirement holds.\<close>

theorem satisfied_monotone:
  assumes "satisfied pol kind kw e"
  shows "satisfied pol kind kw (evidence_join e c)
    \<and> satisfied pol kind kw (evidence_join d (Some e))
    \<and> satisfied pol kind kw (e\<lparr>e_proof := True\<rparr>)"
  using policy_cell.sat_join [OF assms] policy_cell.sat_join_right [OF assms]
    policy_cell.monotone [of e "e\<lparr>e_proof := True\<rparr>" pol kind kw] assms
  by (simp add: evidence_le_def)

section \<open>Instances\<close>

definition cov_req :: requirement where
  "cov_req = sample_requirement\<lparr>req_clauses := []\<rparr>"

definition cov_spec :: spec where
  "cov_spec = \<lparr>spec_requirements = [cov_req], spec_terms = [], spec_notes = [], spec_annotations = [],
     spec_edges = [], spec_documents = []\<rparr>"

definition cov_gap :: "string \<Rightarrow> gap_excuse list \<Rightarrow> gap_file" where
  "cov_gap path ex = \<lparr>gf_path = path, gf_raw = [],
     gf_gap = \<lparr>g_requirement_id = ''REQ-a'', g_reason = ''later'', g_lands = Some (LC_Covered ''REQ-a''),
       g_excuses = ex, g_content_hash = [], g_source_hash = []\<rparr>\<rparr>"

definition cov_store :: "gap_file list \<Rightarrow> store" where
  "cov_store gs = \<lparr>st_bindings = [], st_gaps = gs, st_attestations = [], st_tombstones = [],
     st_tombstones_raw = None, st_allow_whole = False\<rparr>"

definition cov_result :: "test_outcome \<Rightarrow> binding_result" where
  "cov_result oc =
     \<lparr>br_path = ''b'', br_requirement_id = ''REQ-a'', br_symbol = ''p.TestA'', br_clause = None,
      br_package = ''p'', br_backend = ''go'', br_role = ROLE_TESTS, br_content_pinned = True,
      br_rehash = False, br_resolution = Resolved, br_shape = ShapeMatch, br_test_outcome = oc,
      br_witness_class = ExampleWitness, br_witness_class_reason = [], br_race_enabled = True,
      br_outside_selection = False, br_no_outcome_cause = [], br_scope_skipped = False\<rparr>"

definition cov_report :: "test_outcome \<Rightarrow> unit report" where
  "cov_report oc = empty_report\<lparr>rp_results := [cov_result oc]\<rparr>"

abbreviation cov_eval :: "test_outcome \<Rightarrow> bool \<Rightarrow> gap_file list \<Rightarrow> unit coverage_report" where
  "cov_eval oc w gs \<equiv> evaluate (\<lambda>_. False) cov_spec (cov_report oc) (cov_store gs) w None"

lemma cov_facts:
  "distinct (map req_id (spec_requirements cov_spec))" "cov_req \<in> set (spec_requirements cov_spec)"
  "req_id cov_req = ''REQ-a''" "req_keyword cov_req = KW_MUST" "req_kind cov_req = CK_BEHAVIOR"
  "req_clauses cov_req = []" "dangling_ids cov_spec (cov_store gs) = {}"
  "spec_requirements cov_spec = [cov_req]"
  by (simp_all add: cov_spec_def cov_req_def sample_requirement_def dangling_ids_def dangling_pointers_def
      req_dangling_def)

lemma cov_no_minimum: "minimum None k w = None"
  by (simp add: minimum_def)

lemma cov_rows:
  "hd (cr_requirements (cov_eval oc w gs)) \<in> set (cr_requirements (cov_eval oc w gs))
   \<and> rr_id (hd (cr_requirements (cov_eval oc w gs))) = req_id cov_req"
proof -
  have "map (\<lambda>q. (rr_id q, rr_bucket q)) (cr_requirements (cov_eval oc w gs))
      = map (\<lambda>r. (req_id r, final_bucket cov_spec (cov_report oc) (cov_store gs) w None r)) [cov_req]"
    using evaluate_rows_eq [OF cov_facts(1)] by (simp only: cov_facts(8))
  then show ?thesis by (cases "cr_requirements (cov_eval oc w gs)") auto
qed

lemma cov_broken: "broken_fact cov_spec (cov_report oc) (cov_store gs) w (req_id cov_req)
    \<longleftrightarrow> w \<and> (oc = TestFailed \<or> oc = TestNotRun)"
  by (simp add: broken_fact_def cov_facts cov_report_def cov_result_def broken_cause_def tests_or_proves_def)

lemma cov_stale: "\<not> stale_fact (cov_report oc) (req_id cov_req)"
  by (simp add: stale_fact_def cov_report_def cov_result_def stale_cause_def empty_report_def)

lemma cov_grants: "grants_whole cov_spec False ''REQ-a'' (cov_result oc)"
proof -
  have "by_id cov_spec ''REQ-a'' = Some cov_req"
    using by_id_lookup [OF cov_facts(1,2)] cov_facts(3) by simp
  then show ?thesis
    by (simp add: grants_whole_def grant_target_of_def cov_result_def requires_clause_scope_def
        req_clauses_of_def cov_facts)
qed

lemma cov_satisfied: "policy_satisfied cov_spec (cov_report TestPassed) True None cov_req"
proof -
  have "example_row True (cov_result TestPassed)"
    by (simp add: example_row_def counts_as_witness_def cov_result_def tests_or_proves_def)
  then show ?thesis
    using cov_grants [of TestPassed]
    by (simp add: policy_satisfied_def cov_facts satisfied_def cov_no_minimum granted_evidence_def Let_def
        witness_def allow_whole_of_def reaches_def cov_report_def)
qed

lemma evaluate_one_row_each_witness:
  "map (\<lambda>q. (rr_id q, rr_bucket q)) (cr_requirements (cov_eval TestPassed True [])) = [(''REQ-a'', Covered)]"
proof -
  have "final_bucket cov_spec (cov_report TestPassed) (cov_store []) True None cov_req = Covered"
    using final_bucket_covered [of None cov_req cov_spec "cov_report TestPassed" "cov_store []" True]
      cov_broken cov_stale cov_satisfied by (simp add: cov_no_minimum)
  then show ?thesis
    using evaluate_one_row_each [OF cov_facts(1), of "\<lambda>_. False" "cov_report TestPassed" "cov_store []" True None]
    by (simp add: cov_facts)
qed

lemma evaluate_hygiene_buckets_witness:
  "rr_bucket (hd (cr_requirements (cov_eval TestFailed True []))) = Broken"
proof -
  have "\<exists>b\<in>set (rp_results (cov_report TestFailed)). br_requirement_id b = req_id cov_req \<and> broken_cause True b"
    by (simp add: cov_report_def cov_result_def cov_facts broken_cause_def tests_or_proves_def)
  then show ?thesis
    using evaluate_hygiene_buckets [OF cov_facts(1,2) cov_rows [THEN conjunct1] cov_rows [THEN conjunct2]]
    by blast
qed

lemma evaluate_covered_iff_witness:
  "rr_bucket (hd (cr_requirements (cov_eval TestPassed True []))) = Covered
   \<and> rr_bucket (hd (cr_requirements (cov_eval TestNotRun True []))) \<noteq> Covered"
proof -
  have "minimum None (req_kind cov_req) (req_keyword cov_req) \<noteq> Some ME_EXEMPT" by (simp add: minimum_def)
  from evaluate_covered_iff [OF cov_facts(1,2) cov_rows [THEN conjunct1] cov_rows [THEN conjunct2] this]
  show ?thesis using cov_broken cov_stale cov_satisfied by simp
qed

lemma unwitnessed_must_never_covered_witness:
  "rr_bucket (hd (cr_requirements (cov_eval TestPassed False []))) \<noteq> Covered"
  by (rule unwitnessed_must_never_covered
      [OF cov_facts(1,2) cov_rows [THEN conjunct1] cov_rows [THEN conjunct2]])
     (simp_all add: cov_facts minimum_def)

lemma cov_failed_bucket:
  "final_bucket cov_spec (cov_report TestFailed) (cov_store gs) True None cov_req = Broken"
  by (simp add: final_bucket_hygiene cov_broken)

lemma gate_exact_witness:
  "cr_violations (cov_eval TestFailed True [cov_gap ''g'' [EXCUSE_UNCOVERED]]) = [''REQ-a'']
   \<and> gate_passes (cov_eval TestFailed True [cov_gap ''g'' [EXCUSE_BROKEN]])"
proof -
  note exact = gate_exact [OF cov_facts(1), of "\<lambda>_. False" "cov_report TestFailed" _ True None]
  have no: "\<not> excused_requirement cov_spec (cov_report TestFailed) (cov_store [cov_gap ''g'' [EXCUSE_UNCOVERED]])
      cov_req Broken"
    using cov_stale by (simp add: excused_requirement_def cov_store_def cov_gap_def excuse_set_def)
  have yes: "excused_requirement cov_spec (cov_report TestFailed) (cov_store [cov_gap ''g'' [EXCUSE_BROKEN]])
      cov_req Broken"
    using cov_stale cov_facts(7) by (simp add: excused_requirement_def cov_store_def cov_gap_def excuse_set_def
        cov_facts(3) gap_drifted_def)
  show ?thesis
    using exact [of "cov_store [cov_gap ''g'' [EXCUSE_UNCOVERED]]", THEN conjunct1]
      exact [of "cov_store [cov_gap ''g'' [EXCUSE_BROKEN]]", THEN conjunct2] no yes
    by (simp add: cov_facts cov_failed_bucket)
qed

lemma excuses_order_independent_witness:
  "cr_violations (cov_eval TestFailed True [cov_gap ''g'' [EXCUSE_BROKEN], cov_gap ''h'' [EXCUSE_STALE]])
     = cr_violations (cov_eval TestFailed True [cov_gap ''h'' [EXCUSE_STALE], cov_gap ''g'' [EXCUSE_BROKEN]])"
proof -
  let ?gs = "[cov_gap ''g'' [EXCUSE_BROKEN], cov_gap ''h'' [EXCUSE_STALE]]"
  let ?hs = "[cov_gap ''h'' [EXCUSE_STALE], cov_gap ''g'' [EXCUSE_BROKEN]]"
  have m: "mset ?gs = mset (st_gaps (cov_store ?hs))" by (simp add: cov_store_def)
  have "(cov_store ?hs)\<lparr>st_gaps := ?gs\<rparr> = cov_store ?gs" by (simp add: cov_store_def)
  with excuses_order_independent [OF m, of "\<lambda>_. False" cov_spec "cov_report TestFailed" True None]
  show ?thesis by simp
qed

lemma machine_gap_state_witness:
  "gr_state (gap_report_row (buckets_of (judged (\<lambda>_. False) cov_spec (cov_report TestFailed)
      (cov_store [cov_gap ''g'' []]) True None)) (hashes_of cov_spec) (cov_gap ''g'' [])) = Gap_Open"
proof -
  have "cov_gap ''g'' [] \<in> set (st_gaps (cov_store [cov_gap ''g'' []]))" by (simp add: cov_store_def)
  moreover have "g_requirement_id (gf_gap (cov_gap ''g'' [])) = req_id cov_req"
    by (simp add: cov_gap_def cov_facts)
  moreover have "g_lands (gf_gap (cov_gap ''g'' [])) = Some (LC_Covered (req_id cov_req))
      \<and> cov_req \<in> set (spec_requirements cov_spec)"
    by (simp add: cov_gap_def cov_facts)
  ultimately show ?thesis
    using machine_gap_state [OF cov_facts(1,2), of "cov_gap ''g'' []" "cov_store [cov_gap ''g'' []]" cov_req
      "\<lambda>_. False" "cov_report TestFailed" True None] by (simp add: cov_failed_bucket)
qed

lemma satisfied_monotone_witness:
  "satisfied None CK_WIRE KW_MUST (evidence_join evidence_zero (Some (evidence_zero\<lparr>e_example := True\<rparr>)))"
proof -
  have "satisfied None CK_WIRE KW_MUST (evidence_zero\<lparr>e_example := True\<rparr>)"
    by (simp add: satisfied_def minimum_def witness_def)
  from satisfied_monotone [OF this] show ?thesis by blast
qed

end
