(* ===== verification/Progress.thy ===== *)
theory Progress
  imports GoStd "HOL-Library.Word"
begin

text \<open>
  The progress reporter of \<open>internal/progress/progress.go\<close>: the state a reporter keeps, one
  definition per method, and the lines the faces print. A method runs under the mutex, so an
  operation's history is a sequence of calls whatever goroutines make them. The clock is
  explicit: a call carries the readings of \<open>time.Now\<close> it takes, in nanoseconds, and the
  reading of the resident set when it samples one; a duration is an integer, the saturating
  difference from the zero time apart. What the sink is called with is the field
  \<open>rp_sent\<close>. The timing messages of package runs are only stored and returned: they are the
  type variable \<open>'p\<close>. The third-party spellings of a reading are parameters.
\<close>

section \<open>Data\<close>

datatype phase =
  PH_UNSPECIFIED | PH_COMPILE | PH_DISCOVERY | PH_EXECUTION | PH_VERIFICATION | PH_COVERAGE
  | PH_CONTEXT_SLICE | PH_NUM int

datatype terminal_cause =
  TC_UNSPECIFIED | TC_COMPLETED | TC_DEADLINE | TC_CANCELLED | TC_TEST_FAILURE | TC_SERVER_FAILURE
  | TC_NUM int

record resident_set =
  rs_process :: "64 word"
  rs_process_peak :: "64 word"
  rs_descendants :: int
  rs_descendants_bytes :: "64 word"
  rs_descendant_peak :: "64 word"
  rs_ceiling :: "64 word"

record moment =
  mo_exit_of :: phase
  mo_at_end :: bool

record resident_wire =
  rw_process :: "64 word"
  rw_process_peak :: "64 word"
  rw_descendants_bytes :: "64 word"
  rw_descendants :: int
  rw_descendant_peak :: "64 word"
  rw_ceiling :: "64 word"
  rw_exit_of :: phase
  rw_at_end :: bool

record progress_event =
  ev_phase :: phase
  ev_invocation :: string
  ev_elapsed :: int
  ev_completed :: int
  ev_total :: int
  ev_cause :: terminal_cause
  ev_note :: string
  ev_resident :: "resident_wire option"
  ev_kept :: "string list"

record phase_stamp =
  st_phase :: phase
  st_entered :: int

record resident_record =
  rr_taken :: bool
  rr_baseline :: "64 word"
  rr_peak :: "64 word"
  rr_peak_raised :: bool
  rr_peak_moment :: moment
  rr_descendants :: resident_set
  rr_desc_moment :: moment
  rr_desc_peak :: "64 word"
  rr_end :: "resident_set option"
  rr_largest :: "64 word"

record 'p reporter =
  rp_sink :: bool
  rp_interval :: int
  rp_start :: int
  rp_last :: "int option"
  rp_phase :: phase
  rp_inv :: string
  rp_completed :: int
  rp_total :: int
  rp_max_done :: "string \<rightharpoonup> int"
  rp_stamps :: "phase_stamp list"
  rp_kept :: "string list"
  rp_note :: string
  rp_cause :: terminal_cause
  rp_done :: bool
  rp_sampled :: bool
  rp_pending :: "resident_wire option"
  rp_resident :: resident_record
  rp_timings :: "'p list"
  rp_sent :: "progress_event list"

definition at_start :: moment where
  "at_start = \<lparr>mo_exit_of = PH_UNSPECIFIED, mo_at_end = False\<rparr>"

definition at_end :: moment where
  "at_end = \<lparr>mo_exit_of = PH_UNSPECIFIED, mo_at_end = True\<rparr>"

definition exit_of :: "phase \<Rightarrow> moment" where
  "exit_of p = \<lparr>mo_exit_of = p, mo_at_end = False\<rparr>"

section \<open>Words\<close>

definition note_bound :: nat where
  "note_bound = 200"

definition clip :: "string \<Rightarrow> string" where
  "clip text =
     (let line = trim_space (takeWhile (\<lambda>c. c \<noteq> CHR 0x0A) text); rs = runes line in
      if length rs > note_bound then string_of_runes (take (note_bound - 1) rs) @ ellipsis else line)"

fun phase_word :: "phase \<Rightarrow> string" where
  "phase_word PH_COMPILE = ''compile''"
| "phase_word PH_DISCOVERY = ''discovery''"
| "phase_word PH_EXECUTION = ''execution''"
| "phase_word PH_VERIFICATION = ''verification''"
| "phase_word PH_COVERAGE = ''coverage''"
| "phase_word PH_CONTEXT_SLICE = ''context-slice''"
| "phase_word _ = ''startup''"

fun cause_word :: "terminal_cause \<Rightarrow> string" where
  "cause_word TC_COMPLETED = ''completed''"
| "cause_word TC_TEST_FAILURE = ''test failure''"
| "cause_word TC_SERVER_FAILURE = ''failure''"
| "cause_word TC_CANCELLED = ''cancelled''"
| "cause_word TC_DEADLINE = ''deadline''"
| "cause_word _ = ''unspecified''"

definition interrupted :: "terminal_cause \<Rightarrow> bool" where
  "interrupted c \<longleftrightarrow> c = TC_CANCELLED \<or> c = TC_DEADLINE"

definition terminal_line_by :: "terminal_cause \<Rightarrow> phase \<Rightarrow> string list \<Rightarrow> string \<Rightarrow> string" where
  "terminal_line_by cause ph kept actor =
     (let who = (if actor \<noteq> [] then '' by '' @ actor else []);
          head = (case cause of
                    TC_CANCELLED \<Rightarrow> ''cancelled'' @ who @ '' in the '' @ phase_word ph @ '' phase''
                  | TC_DEADLINE \<Rightarrow> ''deadline expired in the '' @ phase_word ph @ '' phase''
                  | _ \<Rightarrow> ''ended: '' @ cause_word cause)
      in head @ (if kept \<noteq> [] then ''; kept: '' @ join kept '', ''
                 else if interrupted cause then ''; kept nothing'' else []))"

definition terminal_line :: "terminal_cause \<Rightarrow> phase \<Rightarrow> string list \<Rightarrow> string" where
  "terminal_line cause ph kept = terminal_line_by cause ph kept []"

definition ending_line :: "terminal_cause \<Rightarrow> phase \<Rightarrow> string list \<Rightarrow> string" where
  "ending_line cause ph kept = terminal_line cause ph (if interrupted cause then kept else [])"

definition moment_words :: "moment \<Rightarrow> string" where
  "moment_words m =
     (if mo_at_end m then ''at the end''
      else if mo_exit_of m \<noteq> PH_UNSPECIFIED then ''at '' @ phase_word (mo_exit_of m) @ [CHR 0x27] @ ''s exit''
      else ''at the start'')"

text \<open>
  \<open>Duration.Round\<close> to a tenth of a second, half away from zero, and \<open>Duration.String\<close> of the
  result, a multiple of a tenth: whole units from the first non-zero one on.
\<close>

definition tenths :: "int \<Rightarrow> nat" where
  "tenths d = nat ((2 * d + 100000000) div 200000000)"

definition duration_string :: "nat \<Rightarrow> string" where
  "duration_string n =
     (let secs = n div 10; frac = n mod 10; mins = secs div 60; hours = mins div 60;
          tail = format_uint (secs mod 60) @ (if frac = 0 then [] else ''.'' @ format_uint frac) @ ''s''
      in if n = 0 then ''0s''
         else if n < 10 then format_uint (100 * n) @ ''ms''
         else (if hours > 0 then format_uint hours @ ''h'' else [])
              @ (if mins > 0 then format_uint (mins mod 60) @ ''m'' else []) @ tail)"

definition round_duration :: "int \<Rightarrow> string" where
  "round_duration d = duration_string (tenths (if d < 0 then 0 else d))"

section \<open>The resident reading\<close>

definition resident_wire_of :: "resident_set \<Rightarrow> moment \<Rightarrow> resident_wire" where
  "resident_wire_of s m =
     \<lparr>rw_process = rs_process s, rw_process_peak = rs_process_peak s,
      rw_descendants_bytes = rs_descendants_bytes s,
      rw_descendants = sint (word_of_int (rs_descendants s) :: 32 word),
      rw_descendant_peak = rs_descendant_peak s, rw_ceiling = rs_ceiling s,
      rw_exit_of = mo_exit_of m, rw_at_end = mo_at_end m\<rparr>"

definition advance :: "resident_set \<Rightarrow> moment \<Rightarrow> resident_record \<Rightarrow> resident_record" where
  "advance s m rec =
     (let r1 = (if rs_process_peak s > rr_peak rec
                then rec\<lparr>rr_peak := rs_process_peak s, rr_peak_moment := m, rr_peak_raised := True\<rparr> else rec);
          r2 = (if \<not> rr_taken r1 \<or> rs_descendants_bytes s > rs_descendants_bytes (rr_descendants r1)
                then r1\<lparr>rr_descendants := s, rr_desc_moment := m\<rparr> else r1);
          r3 = r2\<lparr>rr_desc_peak := max (rr_desc_peak r2) (rs_descendant_peak s),
                  rr_largest := max (rr_largest r2) (rs_process s)\<rparr>;
          r4 = (if mo_at_end m then r3\<lparr>rr_end := Some s\<rparr> else r3)
      in r4\<lparr>rr_taken := True\<rparr>)"

definition read_resident :: "resident_set option \<Rightarrow> moment \<Rightarrow> bool \<Rightarrow> 'p reporter \<Rightarrow> 'p reporter" where
  "read_resident sample m carry r =
     (if \<not> rp_sampled r then r
      else (case sample of None \<Rightarrow> r
            | Some s \<Rightarrow>
                let r1 = (if carry then r\<lparr>rp_pending := Some (resident_wire_of s m)\<rparr> else r)
                in r1\<lparr>rp_resident := advance s m (rp_resident r1)\<rparr>))"

definition resident_words :: "(resident_set \<Rightarrow> string \<Rightarrow> string) \<Rightarrow> progress_event \<Rightarrow> string" where
  "resident_words words e =
     (case ev_resident e of None \<Rightarrow> []
      | Some w \<Rightarrow>
          words \<lparr>rs_process = rw_process w, rs_process_peak = rw_process_peak w, rs_descendants = rw_descendants w,
                 rs_descendants_bytes = rw_descendants_bytes w, rs_descendant_peak = rw_descendant_peak w,
                 rs_ceiling = rw_ceiling w\<rparr>
            (moment_words \<lparr>mo_exit_of = rw_exit_of w, mo_at_end = rw_at_end w\<rparr>))"

definition resident_suffix :: "(resident_set \<Rightarrow> string \<Rightarrow> string) \<Rightarrow> progress_event \<Rightarrow> string" where
  "resident_suffix words e =
     (if resident_words words e = [] then [] else '' '' @ em_dash @ '' '' @ resident_words words e)"

section \<open>The reporter's methods\<close>

definition zero_set :: resident_set where
  "zero_set = \<lparr>rs_process = 0, rs_process_peak = 0, rs_descendants = 0, rs_descendants_bytes = 0,
     rs_descendant_peak = 0, rs_ceiling = 0\<rparr>"

definition fresh_record :: "64 word \<Rightarrow> resident_record" where
  "fresh_record peak =
     \<lparr>rr_taken = False, rr_baseline = peak, rr_peak = peak, rr_peak_raised = False, rr_peak_moment = at_start,
      rr_descendants = zero_set, rr_desc_moment = at_start, rr_desc_peak = 0, rr_end = None, rr_largest = 0\<rparr>"

text \<open>\<open>New\<close>: whether a sink and a sampler are installed, the interval, the time and the first reading.\<close>

definition new_reporter :: "bool \<Rightarrow> int \<Rightarrow> bool \<Rightarrow> resident_set option \<Rightarrow> int \<Rightarrow> 'p reporter" where
  "new_reporter sink interval sampled sample now =
     \<lparr>rp_sink = sink, rp_interval = interval, rp_start = now, rp_last = None, rp_phase = PH_UNSPECIFIED,
      rp_inv = [], rp_completed = 0, rp_total = 0, rp_max_done = Map.empty, rp_stamps = [], rp_kept = [],
      rp_note = [], rp_cause = TC_UNSPECIFIED, rp_done = False, rp_sampled = sampled, rp_pending = None,
      rp_resident = fresh_record (if sampled then (case sample of None \<Rightarrow> 0 | Some s \<Rightarrow> rs_process_peak s) else 0),
      rp_timings = [], rp_sent = []\<rparr>"

text \<open>The readings a call takes: the sample, and the clock at the gate, the stamp and the emission.\<close>

record tick =
  tk_sample :: "resident_set option"
  tk_gate :: int
  tk_stamp :: int
  tk_last :: int
  tk_elapsed :: int

definition max_duration :: int where
  "max_duration = 2 ^ 63 - 1"

definition since_last :: "int \<Rightarrow> 'p reporter \<Rightarrow> int" where
  "since_last now r = (case rp_last r of None \<Rightarrow> max_duration | Some t \<Rightarrow> now - t)"

definition current_event :: "int \<Rightarrow> terminal_cause \<Rightarrow> 'p reporter \<Rightarrow> progress_event" where
  "current_event now cause r =
     \<lparr>ev_phase = rp_phase r, ev_invocation = rp_inv r, ev_elapsed = now - rp_start r,
      ev_completed = rp_completed r, ev_total = rp_total r, ev_cause = cause, ev_note = rp_note r,
      ev_resident = rp_pending r,
      ev_kept = (if cause \<noteq> TC_UNSPECIFIED then rp_kept r else [])\<rparr>"

definition emit_event :: "tick \<Rightarrow> terminal_cause \<Rightarrow> 'p reporter \<Rightarrow> 'p reporter" where
  "emit_event k cause r =
     (let r1 = r\<lparr>rp_last := Some (tk_last k)\<rparr> in
      if \<not> rp_sink r1 then r1
      else r1\<lparr>rp_note := [], rp_pending := None, rp_sent := rp_sent r1 @ [current_event (tk_elapsed k) cause r1]\<rparr>)"

definition enter_phase :: "tick \<Rightarrow> phase \<Rightarrow> 'p reporter \<Rightarrow> 'p reporter" where
  "enter_phase k p r =
     (if p = PH_UNSPECIFIED then r
      else if rp_done r \<or> rp_phase r = p then r
      else let r1 = read_resident (tk_sample k) (exit_of (rp_phase r)) True r;
               r2 = r1\<lparr>rp_phase := p, rp_inv := [], rp_completed := 0, rp_total := 0, rp_max_done := Map.empty,
                       rp_stamps := rp_stamps r1 @ [\<lparr>st_phase = p, st_entered = tk_stamp k\<rparr>]\<rparr>
           in emit_event k TC_UNSPECIFIED r2)"

definition step_units :: "tick \<Rightarrow> string \<Rightarrow> int \<Rightarrow> int \<Rightarrow> 'p reporter \<Rightarrow> 'p reporter" where
  "step_units k iv completed tot r =
     (if rp_done r then r
      else if (case rp_max_done r iv of Some mx \<Rightarrow> completed \<le> mx | None \<Rightarrow> False) then r
      else let r1 = r\<lparr>rp_max_done := (rp_max_done r)(iv \<mapsto> completed),
                      rp_inv := iv, rp_completed := completed, rp_total := tot\<rparr>;
               milestone = (tot > 0 \<and> completed \<ge> tot)
           in if \<not> milestone \<and> since_last (tk_gate k) r1 < rp_interval r1 then r1
              else emit_event k TC_UNSPECIFIED r1)"

definition note_line :: "tick \<Rightarrow> string \<Rightarrow> 'p reporter \<Rightarrow> 'p reporter" where
  "note_line k text r =
     (if rp_done r \<or> text = [] then r
      else emit_event k TC_UNSPECIFIED (r\<lparr>rp_note := clip text\<rparr>))"

definition persisted :: "tick \<Rightarrow> string \<Rightarrow> int \<Rightarrow> 'p reporter \<Rightarrow> 'p reporter" where
  "persisted k unit records r =
     (if rp_done r then r
      else let entry = clip unit @ '' ('' @ format_int records @ '' records)''
           in emit_event k TC_UNSPECIFIED
                (r\<lparr>rp_kept := rp_kept r @ [entry], rp_note := ''persisted: '' @ entry\<rparr>))"

definition record_timing :: "'p \<Rightarrow> 'p reporter \<Rightarrow> 'p reporter" where
  "record_timing pt r = r\<lparr>rp_timings := rp_timings r @ [pt]\<rparr>"

definition keepalive :: "tick \<Rightarrow> 'p reporter \<Rightarrow> 'p reporter" where
  "keepalive k r =
     (if rp_done r \<or> since_last (tk_gate k) r < rp_interval r then r
      else emit_event k TC_UNSPECIFIED r)"

definition terminal_event :: "tick \<Rightarrow> terminal_cause \<Rightarrow> 'p reporter \<Rightarrow> 'p reporter" where
  "terminal_event k cause r =
     (if rp_done r then r
      else emit_event k cause
             (read_resident (tk_sample k) at_end True (r\<lparr>rp_done := True, rp_cause := cause\<rparr>)))"

definition ending_tail :: "(resident_set \<Rightarrow> string \<Rightarrow> string) \<Rightarrow> 'p reporter \<Rightarrow> string" where
  "ending_tail words r =
     (case rr_end (rp_resident r) of None \<Rightarrow> []
      | Some s \<Rightarrow> '' '' @ em_dash @ '' '' @ words s (moment_words at_end))"

text \<open>\<open>SealBy\<close>: the rendered ending and the sealed reporter; a nil receiver renders only.\<close>

definition seal_by ::
  "(resident_set \<Rightarrow> string \<Rightarrow> string) \<Rightarrow> tick \<Rightarrow> terminal_cause \<Rightarrow> string \<Rightarrow> 'p reporter \<Rightarrow> string \<times> 'p reporter" where
  "seal_by words k cause actor r =
     (if rp_done r then (terminal_line_by (rp_cause r) (rp_phase r) (rp_kept r) actor @ ending_tail words r, r)
      else let r1 = read_resident (tk_sample k) at_end True (r\<lparr>rp_done := True, rp_cause := cause\<rparr>)
           in (terminal_line_by cause (rp_phase r1) (rp_kept r1) actor @ ending_tail words r1,
               emit_event k cause r1))"

definition seal_nil :: "terminal_cause \<Rightarrow> string \<Rightarrow> string" where
  "seal_nil cause actor = terminal_line_by cause PH_UNSPECIFIED [] actor"

text \<open>The timing account and the digest line walk the stamps with the next entry, or the current time, as each end.\<close>

fun stage_times :: "int \<Rightarrow> phase_stamp list \<Rightarrow> (string \<times> int) list" where
  "stage_times now [] = []"
| "stage_times now [st] = [(phase_word (st_phase st), now - st_entered st)]"
| "stage_times now (st # nx # sts) =
     (phase_word (st_phase st), st_entered nx - st_entered st) # stage_times now (nx # sts)"

definition timing_diagnostics :: "int \<Rightarrow> 'p reporter \<Rightarrow> ((string \<times> int) list \<times> 'p list) option" where
  "timing_diagnostics now r =
     (if rp_stamps r = [] \<and> rp_timings r = [] then None
      else Some (stage_times now (rp_stamps r), rp_timings r))"

definition resident_digest :: "(64 word \<Rightarrow> string) \<Rightarrow> resident_record \<Rightarrow> string" where
  "resident_digest bytes rec =
     (case rr_end rec of None \<Rightarrow> [] | Some s \<Rightarrow> ''; resident at the end '' @ bytes (rs_process s))
     @ (if rr_peak_raised rec then ''; peak '' @ bytes (rr_peak rec) @ '' '' @ moment_words (rr_peak_moment rec)
        else ''; peak '' @ bytes (rr_peak rec) @ '' reached before this operation, this operation''
             @ [CHR 0x27] @ ''s largest reading '' @ bytes (rr_largest rec))
     @ (if rs_descendants (rr_descendants rec) > 0
        then ''; descendants '' @ bytes (rs_descendants_bytes (rr_descendants rec)) @ '' (''
             @ format_int (rs_descendants (rr_descendants rec)) @ '') '' @ moment_words (rr_desc_moment rec)
             @ '', largest peak '' @ bytes (rr_desc_peak rec)
        else [])"

definition stamps_line :: "(64 word \<Rightarrow> string) \<Rightarrow> tick \<Rightarrow> 'p reporter \<Rightarrow> string \<times> 'p reporter" where
  "stamps_line bytes k r =
     (if rp_stamps r = [] then ([], r)
      else let r1 = (if \<not> rp_done r \<and> rr_end (rp_resident r) = None
                     then read_resident (tk_sample k) at_end False r else r);
               now = tk_stamp k
           in (''took '' @ round_duration (now - rp_start r1) @ '': ''
               @ join (map (\<lambda>(w, d). w @ '' '' @ round_duration d) (stage_times now (rp_stamps r1))) '', ''
               @ (if rr_taken (rp_resident r1) then resident_digest bytes (rp_resident r1) else []), r1))"

text \<open>The tracker of phase transitions, and the command line's sink over it.\<close>

definition phase_changed :: "progress_event \<Rightarrow> phase \<Rightarrow> bool \<times> phase" where
  "phase_changed e seen = (if ev_phase e = seen then (False, seen) else (True, ev_phase e))"

definition stderr_event ::
  "(resident_set \<Rightarrow> string \<Rightarrow> string) \<Rightarrow> progress_event \<Rightarrow> phase \<times> string list \<Rightarrow> phase \<times> string list" where
  "stderr_event words e s =
     (let elapsed = round_duration (ev_elapsed e);
          (ch, seen) = phase_changed e (fst s);
          l1 = (if ch then [''phase '' @ phase_word (ev_phase e) @ '' ('' @ elapsed @ '')'' @ resident_suffix words e] else []);
          l2 = (if ev_note e \<noteq> [] then [ev_note e @ '' ('' @ elapsed @ '')'']
                else if ev_total e > 0 \<and> ev_invocation e \<noteq> []
                then [ev_invocation e @ '': '' @ format_int (ev_completed e) @ ''/'' @ format_int (ev_total e)
                      @ '' packages ('' @ elapsed @ '')'']
                else []);
          l3 = (if interrupted (ev_cause e)
                then [terminal_line (ev_cause e) (ev_phase e) (ev_kept e) @ resident_suffix words e] else [])
      in (seen, snd s @ l1 @ l2 @ l3))"

section \<open>Histories of calls\<close>

datatype 'p call =
  Call_Phase phase | Call_Step string int int | Call_Note string | Call_Persisted string int
  | Call_Timing 'p | Call_Keepalive | Call_Terminal terminal_cause | Call_Seal terminal_cause string | Call_Stamps

fun run_call :: "tick \<times> 'p call \<Rightarrow> 'p reporter \<Rightarrow> 'p reporter" where
  "run_call (k, Call_Phase p) r = enter_phase k p r"
| "run_call (k, Call_Step iv c t) r = step_units k iv c t r"
| "run_call (k, Call_Note s) r = note_line k s r"
| "run_call (k, Call_Persisted u n) r = persisted k u n r"
| "run_call (k, Call_Timing pt) r = record_timing pt r"
| "run_call (k, Call_Keepalive) r = keepalive k r"
| "run_call (k, Call_Terminal c) r = terminal_event k c r"
| "run_call (k, Call_Seal c a) r = snd (seal_by (\<lambda>_ _. []) k c a r)"
| "run_call (k, Call_Stamps) r = snd (stamps_line (\<lambda>_. []) k r)"

definition run_calls :: "(tick \<times> 'p call) list \<Rightarrow> 'p reporter \<Rightarrow> 'p reporter" where
  "run_calls cs r = fold run_call cs r"

lemma run_calls_simps [simp]:
  "run_calls [] r = r"
  "run_calls (c # cs) r = run_calls cs (run_call c r)"
  by (simp_all add: run_calls_def)

lemma read_resident_frame [frame_simps]:
  "rp_sink (read_resident s m c r) = rp_sink r"
  "rp_interval (read_resident s m c r) = rp_interval r"
  "rp_start (read_resident s m c r) = rp_start r"
  "rp_last (read_resident s m c r) = rp_last r"
  "rp_phase (read_resident s m c r) = rp_phase r"
  "rp_max_done (read_resident s m c r) = rp_max_done r"
  "rp_kept (read_resident s m c r) = rp_kept r"
  "rp_note (read_resident s m c r) = rp_note r"
  "rp_done (read_resident s m c r) = rp_done r"
  "rp_sampled (read_resident s m c r) = rp_sampled r"
  "rp_sent (read_resident s m c r) = rp_sent r"
  "rp_stamps (read_resident s m c r) = rp_stamps r"
  by (simp_all add: read_resident_def Let_def split: option.split)

lemma emit_frame [frame_simps]:
  "rp_sink (emit_event k c r) = rp_sink r"
  "rp_interval (emit_event k c r) = rp_interval r"
  "rp_start (emit_event k c r) = rp_start r"
  "rp_last (emit_event k c r) = Some (tk_last k)"
  "rp_phase (emit_event k c r) = rp_phase r"
  "rp_max_done (emit_event k c r) = rp_max_done r"
  "rp_kept (emit_event k c r) = rp_kept r"
  "rp_done (emit_event k c r) = rp_done r"
  "rp_resident (emit_event k c r) = rp_resident r"
  by (simp_all add: emit_event_def Let_def)

text \<open>What a call adds to the stream: nothing, or one event of a known cause.\<close>

lemma emit_sent [frame_simps]:
  "rp_sent (emit_event k c r) =
     rp_sent r @ (if rp_sink r then [current_event (tk_elapsed k) c (r\<lparr>rp_last := Some (tk_last k)\<rparr>)] else [])"
  by (simp add: emit_event_def Let_def)

definition terminal_sent :: "progress_event list \<Rightarrow> progress_event list" where
  "terminal_sent es = filter (\<lambda>e. ev_cause e \<noteq> TC_UNSPECIFIED) es"

lemma current_event_cause [simp]: "ev_cause (current_event now c r) = c"
  by (simp add: current_event_def)

text \<open>Before its ending a reporter has sent advisory events only; after it, nothing more.\<close>

lemma run_call_advisory:
  assumes "\<not> rp_done (run_call c r)"
  shows "\<not> rp_done r" and "\<exists>es. rp_sent (run_call c r) = rp_sent r @ es \<and> terminal_sent es = []"
  using assms
  by (cases "(c, r)" rule: run_call.cases; force simp: enter_phase_def step_units_def note_line_def persisted_def
      record_timing_def keepalive_def terminal_event_def seal_by_def stamps_line_def Let_def frame_simps
      terminal_sent_def split: if_splits)+

lemma run_call_done:
  assumes "rp_done r"
  shows "rp_done (run_call c r)" and "rp_sent (run_call c r) = rp_sent r"
  using assms
  by (cases "(c, r)" rule: run_call.cases; simp add: enter_phase_def step_units_def note_line_def persisted_def
      record_timing_def keepalive_def terminal_event_def seal_by_def stamps_line_def Let_def frame_simps)+

lemma run_call_ending:
  assumes "\<not> rp_done r" and "rp_done (run_call c r)"
  shows "\<exists>es. rp_sent (run_call c r) = rp_sent r @ es \<and> length es \<le> 1"
  using assms
  by (cases "(c, r)" rule: run_call.cases; auto simp: enter_phase_def step_units_def note_line_def persisted_def
      record_timing_def keepalive_def terminal_event_def seal_by_def stamps_line_def Let_def frame_simps split: if_splits)

lemma run_call_done_frame:
  assumes "rp_done r"
  shows "rp_cause (run_call c r) = rp_cause r" and "rp_phase (run_call c r) = rp_phase r"
    and "rp_kept (run_call c r) = rp_kept r"
  using assms
  by (cases "(c, r)" rule: run_call.cases; simp add: enter_phase_def step_units_def note_line_def persisted_def
      record_timing_def keepalive_def terminal_event_def seal_by_def stamps_line_def Let_def frame_simps)+

lemma run_call_sink: "rp_sink (run_call c r) = rp_sink r"
  by (cases "(c, r)" rule: run_call.cases) (simp_all add: enter_phase_def step_units_def note_line_def persisted_def
      record_timing_def keepalive_def terminal_event_def seal_by_def stamps_line_def Let_def frame_simps)

fun is_ending :: "'p call \<Rightarrow> bool" where
  "is_ending (Call_Terminal c) = True"
| "is_ending (Call_Seal c a) = True"
| "is_ending _ = False"

lemma run_call_done_iff: "rp_done (run_call c r) \<longleftrightarrow> rp_done r \<or> is_ending (snd c)"
  by (cases "(c, r)" rule: run_call.cases) (simp_all add: enter_phase_def step_units_def note_line_def persisted_def
      record_timing_def keepalive_def terminal_event_def seal_by_def stamps_line_def Let_def frame_simps)

lemma run_calls_done_iff: "rp_done (run_calls cs r) \<longleftrightarrow> rp_done r \<or> list_ex (is_ending \<circ> snd) cs"
  by (induction cs arbitrary: r) (auto simp: run_call_done_iff)

text \<open>The final event: the sealed cause, with the phase and the kept units of the ending.\<close>

definition advisory :: "progress_event \<Rightarrow> bool" where
  "advisory e \<longleftrightarrow> ev_cause e = TC_UNSPECIFIED"

definition final_event :: "'p reporter \<Rightarrow> progress_event \<Rightarrow> bool" where
  "final_event r e \<longleftrightarrow> ev_cause e = rp_cause r \<and> ev_phase e = rp_phase r
     \<and> ev_kept e = (if rp_cause r \<noteq> TC_UNSPECIFIED then rp_kept r else [])"

definition stream_ok :: "'p reporter \<Rightarrow> bool" where
  "stream_ok r \<longleftrightarrow>
     (if rp_done r then \<exists>pre e. rp_sent r = pre @ [e] \<and> list_all advisory pre \<and> final_event r e
      else list_all advisory (rp_sent r))"

lemma read_resident_cause [frame_simps]: "rp_cause (read_resident s m c r) = rp_cause r"
  by (simp add: read_resident_def Let_def split: option.split)

lemma emit_cause [frame_simps]: "rp_cause (emit_event k c r) = rp_cause r"
  by (simp add: emit_event_def Let_def)

lemma run_call_ending_event:
  assumes "\<not> rp_done r" and "is_ending (snd c)" and "rp_sink r"
  shows "\<exists>e. rp_sent (run_call c r) = rp_sent r @ [e] \<and> final_event (run_call c r) e"
  using assms
  by (cases "(c, r)" rule: run_call.cases) (auto simp: terminal_event_def seal_by_def Let_def frame_simps
      final_event_def current_event_def)

lemma run_call_stream:
  assumes "rp_sink r" and "stream_ok r"
  shows "stream_ok (run_call c r)"
proof (cases "rp_done r")
  case True
  show ?thesis
    using assms(2)
    unfolding stream_ok_def if_P [OF True] if_P [OF run_call_done(1) [OF True, of c]] final_event_def
      run_call_done(2) [OF True] run_call_done_frame [OF True] .
next
  case False
  with assms(2) have pre: "list_all advisory (rp_sent r)" by (simp add: stream_ok_def)
  show ?thesis
  proof (cases "is_ending (snd c)")
    case True
    with False have "rp_done (run_call c r)" by (simp add: run_call_done_iff)
    then show ?thesis unfolding stream_ok_def
      using run_call_ending_event [OF False True assms(1)] pre by auto
  next
    case ne: False
    with False have nd: "\<not> rp_done (run_call c r)" by (simp add: run_call_done_iff)
    from run_call_advisory(2) [OF nd] obtain es where "rp_sent (run_call c r) = rp_sent r @ es"
      and "terminal_sent es = []" by blast
    moreover from this(2) have "list_all advisory es"
      by (auto simp: terminal_sent_def filter_empty_conv list_all_iff advisory_def)
    ultimately show ?thesis using nd pre by (simp add: stream_ok_def)
  qed
qed

lemma run_calls_stream: "rp_sink r \<Longrightarrow> stream_ok r \<Longrightarrow> stream_ok (run_calls cs r)"
  by (induction cs arbitrary: r) (simp_all add: run_call_sink run_call_stream)

text \<open>The sealed cause is that of the first ending called.\<close>

fun call_cause :: "'p call \<Rightarrow> terminal_cause" where
  "call_cause (Call_Terminal c) = c"
| "call_cause (Call_Seal c a) = c"
| "call_cause _ = TC_UNSPECIFIED"

lemma run_call_cause:
  assumes "\<not> rp_done r"
  shows "rp_cause (run_call c r) = (if is_ending (snd c) then call_cause (snd c) else rp_cause r)"
  using assms
  by (cases "(c, r)" rule: run_call.cases) (simp_all add: enter_phase_def step_units_def note_line_def persisted_def
      record_timing_def keepalive_def terminal_event_def seal_by_def stamps_line_def Let_def frame_simps)

lemma run_calls_done_cause: "rp_done r \<Longrightarrow> rp_cause (run_calls cs r) = rp_cause r"
  by (induction cs arbitrary: r) (simp_all add: run_call_done run_call_done_frame)

lemma run_calls_cause:
  "\<not> rp_done r \<Longrightarrow> rp_cause (run_calls cs r)
     = (case find (is_ending \<circ> snd) cs of None \<Rightarrow> rp_cause r | Some c \<Rightarrow> call_cause (snd c))"
  by (induction cs arbitrary: r) (simp_all add: run_call_cause run_call_done_iff run_calls_done_cause split: option.split)

text \<open>C38: the terminal event is delivered exactly once and last. Whatever calls an operation
  makes, in whatever order its goroutines reach the lock, its reporter is done exactly when
  an ending was called; then the stream is advisory events followed by one final event
  with the first ending's cause, the phase it ended in and all the units kept; before that
  it is advisory events only.\<close>

theorem terminal_exactly_once:
  fixes cs :: "(tick \<times> 'p call) list" and interval now :: int and sampled :: bool and sample :: "resident_set option"
  defines "r \<equiv> run_calls cs (new_reporter True interval sampled sample now)"
  shows "(rp_done r \<longleftrightarrow> list_ex (is_ending \<circ> snd) cs)
    \<and> rp_cause r = (case find (is_ending \<circ> snd) cs of None \<Rightarrow> TC_UNSPECIFIED | Some c \<Rightarrow> call_cause (snd c))
    \<and> (if rp_done r
       then \<exists>pre e. rp_sent r = pre @ [e] \<and> list_all advisory pre \<and> ev_cause e = rp_cause r
              \<and> ev_phase e = rp_phase r \<and> ev_kept e = (if rp_cause r \<noteq> TC_UNSPECIFIED then rp_kept r else [])
       else list_all advisory (rp_sent r))"
proof -
  have "stream_ok (new_reporter True interval sampled sample now :: 'p reporter)"
    by (simp add: stream_ok_def new_reporter_def)
  then have "stream_ok r" unfolding r_def by (rule run_calls_stream [rotated]) (simp add: new_reporter_def)
  moreover have "rp_done r \<longleftrightarrow> list_ex (is_ending \<circ> snd) cs"
    by (simp add: r_def run_calls_done_iff new_reporter_def)
  moreover have "rp_cause r = (case find (is_ending \<circ> snd) cs of None \<Rightarrow> TC_UNSPECIFIED | Some c \<Rightarrow> call_cause (snd c))"
    unfolding r_def by (subst run_calls_cause) (simp_all add: new_reporter_def split: option.split)
  ultimately show ?thesis unfolding stream_ok_def final_event_def by blast
qed

section \<open>The event bound\<close>

text \<open>A clock that never goes back: the readings of a call, and of the calls in order.\<close>

fun ordered_ticks :: "int \<Rightarrow> tick list \<Rightarrow> bool" where
  "ordered_ticks t [] = True"
| "ordered_ticks t (k # ks) \<longleftrightarrow>
     t \<le> tk_gate k \<and> tk_gate k \<le> tk_last k \<and> tk_last k \<le> tk_elapsed k \<and> ordered_ticks (tk_elapsed k) ks"

fun completes :: "'p call \<Rightarrow> bool" where
  "completes (Call_Step iv c t) = (t > 0 \<and> c \<ge> t)"
| "completes _ = False"

fun is_note :: "'p call \<Rightarrow> bool" where
  "is_note (Call_Note s) = True"
| "is_note _ = False"

text \<open>The events that are milestones by the state: transitions, kept units, the ending.\<close>

definition marks :: "'p reporter \<Rightarrow> nat" where
  "marks r = length (rp_stamps r) + length (rp_kept r) + (if rp_done r then 1 else 0)"

definition milestone_calls :: "(tick \<times> 'p call) list \<Rightarrow> nat" where
  "milestone_calls cs = length (filter (\<lambda>c. completes (snd c) \<or> is_note (snd c)) cs)"

text \<open>\<open>p\<close> paced events fit into the time to the last emission.\<close>

definition paced :: "nat \<Rightarrow> int \<Rightarrow> 'p reporter \<Rightarrow> bool" where
  "paced p t r \<longleftrightarrow>
     (case rp_last r of None \<Rightarrow> p = 0
      | Some l \<Rightarrow> (int p - 1) * rp_interval r \<le> l - rp_start r \<and> l \<le> t) \<and> rp_start r \<le> t"

lemma paced_quiet:
  assumes "paced p t r" and "rp_last r' = rp_last r" and "rp_interval r' = rp_interval r" and "rp_start r' = rp_start r"
    and "t \<le> t'"
  shows "paced p t' r'"
  using assms by (auto simp: paced_def split: option.splits)

lemma paced_milestone:
  assumes "paced p t r" and "rp_last r' = Some l" and "rp_interval r' = rp_interval r" and "rp_start r' = rp_start r"
    and "t \<le> l" and "l \<le> t'" and "0 < rp_interval r"
  shows "paced p t' r'"
  using assms by (auto simp: paced_def split: option.splits)

lemma paced_emission:
  assumes "paced p t r" and "rp_last r' = Some l" and "rp_interval r' = rp_interval r" and "rp_start r' = rp_start r"
    and "rp_interval r \<le> since_last g r" and "t \<le> g" and "g \<le> l" and "l \<le> t'"
  shows "paced (Suc p) t' r'"
  using assms by (auto simp: paced_def since_last_def algebra_simps split: option.splits)

lemma run_call_setting:
  "rp_interval (run_call c r) = rp_interval r" "rp_start (run_call c r) = rp_start r"
  by (cases "(c, r)" rule: run_call.cases; simp add: enter_phase_def step_units_def note_line_def persisted_def
      record_timing_def keepalive_def terminal_event_def seal_by_def stamps_line_def Let_def frame_simps)+

text \<open>
  A call is quiet, a milestone or paced: what it adds to the stream is charged to a mark,
  to the call, or to one interval of time since the last emission.
\<close>

lemma run_call_charge:
  assumes "rp_sink r"
  shows "rp_last (run_call (k, c) r) = rp_last r \<and> length (rp_sent (run_call (k, c) r)) = length (rp_sent r)
      \<and> marks (run_call (k, c) r) \<ge> marks r
    \<or> rp_last (run_call (k, c) r) = Some (tk_last k)
      \<and> length (rp_sent (run_call (k, c) r)) + marks r
          \<le> length (rp_sent r) + marks (run_call (k, c) r) + (if completes c \<or> is_note c then 1 else 0)
    \<or> rp_last (run_call (k, c) r) = Some (tk_last k) \<and> rp_interval r \<le> since_last (tk_gate k) r
      \<and> length (rp_sent (run_call (k, c) r)) = Suc (length (rp_sent r)) \<and> marks (run_call (k, c) r) = marks r"
proof (cases c)
  case (Call_Step iv cc t)
  then show ?thesis using assms
    by (auto simp: step_units_def Let_def frame_simps marks_def since_last_def emit_event_def)
qed (use assms in \<open>auto simp: enter_phase_def note_line_def persisted_def
      record_timing_def keepalive_def terminal_event_def seal_by_def stamps_line_def Let_def frame_simps marks_def
      emit_event_def\<close>)

lemma run_call_paced:
  assumes "rp_sink r" and "0 < rp_interval r" and "paced p t r"
    and "t \<le> tk_gate k" and "tk_gate k \<le> tk_last k" and "tk_last k \<le> tk_elapsed k"
  shows "\<exists>p'. paced p' (tk_elapsed k) (run_call (k, c) r)
    \<and> length (rp_sent (run_call (k, c) r)) + marks r + p
        \<le> length (rp_sent r) + marks (run_call (k, c) r) + (if completes c \<or> is_note c then 1 else 0) + p'"
  using run_call_charge [OF assms(1), of k c]
proof (elim disjE conjE)
  assume "rp_last (run_call (k, c) r) = rp_last r"
    and "length (rp_sent (run_call (k, c) r)) = length (rp_sent r)" and "marks r \<le> marks (run_call (k, c) r)"
  moreover from this(1) have "paced p (tk_elapsed k) (run_call (k, c) r)"
    by (rule paced_quiet [OF assms(3)]) (use assms in \<open>simp_all add: run_call_setting\<close>)
  ultimately show ?thesis by (intro exI [of _ p]) simp
next
  assume l: "rp_last (run_call (k, c) r) = Some (tk_last k)"
    and "length (rp_sent (run_call (k, c) r)) + marks r
      \<le> length (rp_sent r) + marks (run_call (k, c) r) + (if completes c \<or> is_note c then 1 else 0)"
  moreover have "paced p (tk_elapsed k) (run_call (k, c) r)"
    by (rule paced_milestone [OF assms(3) l]) (use assms in \<open>simp_all add: run_call_setting\<close>)
  ultimately show ?thesis by (intro exI [of _ p]) simp
next
  assume l: "rp_last (run_call (k, c) r) = Some (tk_last k)" and g: "rp_interval r \<le> since_last (tk_gate k) r"
    and "length (rp_sent (run_call (k, c) r)) = Suc (length (rp_sent r))" and "marks (run_call (k, c) r) = marks r"
  moreover have "paced (Suc p) (tk_elapsed k) (run_call (k, c) r)"
    by (rule paced_emission [OF assms(3) l _ _ g assms(4-6)]) (simp_all add: run_call_setting)
  ultimately show ?thesis by (intro exI [of _ "Suc p"]) simp
qed

lemma run_calls_paced:
  assumes "rp_sink r" and "0 < rp_interval r" and "paced p t r" and "ordered_ticks t (map fst cs)"
  shows "\<exists>p' t'. paced p' t' (run_calls cs r) \<and> t' = (if cs = [] then t else tk_elapsed (fst (last cs)))
    \<and> length (rp_sent (run_calls cs r)) + marks r + p
        \<le> length (rp_sent r) + marks (run_calls cs r) + milestone_calls cs + p'"
  using assms
proof (induction cs arbitrary: r p t)
  case Nil
  then show ?case by (auto simp: milestone_calls_def)
next
  case (Cons kc cs)
  obtain k c where kc: "kc = (k, c)" by (cases kc)
  from Cons.prems(4) have ord: "t \<le> tk_gate k" "tk_gate k \<le> tk_last k" "tk_last k \<le> tk_elapsed k"
      "ordered_ticks (tk_elapsed k) (map fst cs)"
    by (simp_all add: kc)
  from run_call_paced [OF Cons.prems(1-3) ord(1-3), of c] obtain p1 where
    p1: "paced p1 (tk_elapsed k) (run_call kc r)"
      "length (rp_sent (run_call kc r)) + marks r + p
        \<le> length (rp_sent r) + marks (run_call kc r) + (if completes c \<or> is_note c then 1 else 0) + p1"
    unfolding kc by blast
  from Cons.prems(1,2) have "rp_sink (run_call kc r)" "0 < rp_interval (run_call kc r)"
    by (simp_all add: run_call_sink run_call_setting)
  from Cons.IH [OF this p1(1) ord(4)] obtain p2 t2 where
    p2: "paced p2 t2 (run_calls cs (run_call kc r))" "t2 = (if cs = [] then tk_elapsed k else tk_elapsed (fst (last cs)))"
      "length (rp_sent (run_calls cs (run_call kc r))) + marks (run_call kc r) + p1
        \<le> length (rp_sent (run_call kc r)) + marks (run_calls cs (run_call kc r)) + milestone_calls cs + p2"
    by blast
  have "t2 = (if kc # cs = [] then t else tk_elapsed (fst (last (kc # cs))))" using p2(2) by (simp add: kc)
  moreover have "length (rp_sent (run_calls (kc # cs) r)) + marks r + p
      \<le> length (rp_sent r) + marks (run_calls (kc # cs) r) + milestone_calls (kc # cs) + p2"
    using p1(2) p2(3) by (auto simp: milestone_calls_def kc split: if_splits)
  ultimately show ?case using p2(1) by (metis run_calls_simps(2))
qed

lemma paced_bound:
  assumes "paced p t r" and "0 < rp_interval r"
  shows "int p \<le> 1 + (t - rp_start r) div rp_interval r"
proof (cases "rp_last r")
  case None
  with assms have "p = 0" "rp_start r \<le> t" by (simp_all add: paced_def)
  with assms(2) show ?thesis by (simp add: pos_imp_zdiv_nonneg_iff)
next
  case (Some l)
  with assms(1) have "(int p - 1) * rp_interval r \<le> t - rp_start r" by (simp add: paced_def)
  then have "((int p - 1) * rp_interval r) div rp_interval r \<le> (t - rp_start r) div rp_interval r"
    using assms(2) by (rule zdiv_mono1)
  then show ?thesis using assms(2) by simp
qed

text \<open>Emission is bounded by construction. Under a clock that never goes back, the number
  of events an operation sends is at most its phase transitions, its kept units, its notes
  and its completed invocations, one for the ending, one more, and its wall time over the
  minimum interval - never by how often it reports.\<close>

theorem events_bounded:
  fixes cs :: "(tick \<times> 'p call) list" and interval now :: int and sampled :: bool and sample :: "resident_set option"
  defines "r \<equiv> run_calls cs (new_reporter True interval sampled sample now)"
  assumes "0 < interval" and "ordered_ticks now (map fst cs)"
  shows "int (length (rp_sent r))
    \<le> int (length (rp_stamps r) + length (rp_kept r) + milestone_calls cs + (if rp_done r then 1 else 0))
      + 1 + ((if cs = [] then now else tk_elapsed (fst (last cs))) - now) div interval"
proof -
  let ?n = "new_reporter True interval sampled sample now :: 'p reporter"
  let ?t = "if cs = [] then now else tk_elapsed (fst (last cs))"
  have n: "rp_sink ?n" "0 < rp_interval ?n" "paced 0 now ?n" "marks ?n = 0" "rp_sent ?n = []"
    using assms(2) by (simp_all add: new_reporter_def paced_def marks_def)
  from run_calls_paced [OF n(1-3) assms(3)] n(4,5) obtain p where
    p: "paced p ?t r" "length (rp_sent r) \<le> marks r + milestone_calls cs + p"
    by (auto simp: r_def)
  have set: "rp_interval r = interval" "rp_start r = now"
    unfolding r_def run_calls_def
    by (simp_all add: fold_field_frame [where g = rp_interval] fold_field_frame [where g = rp_start]
        run_call_setting new_reporter_def)
  from paced_bound [OF p(1)] assms(2) have "int p \<le> 1 + (?t - now) div interval" by (simp add: set)
  with p(2) show ?thesis by (simp add: marks_def)
qed

text \<open>An operation of two phases with a step inside the interval, one completed invocation and an ending.\<close>

definition tick_at :: "int \<Rightarrow> tick" where
  "tick_at t = \<lparr>tk_sample = None, tk_gate = t, tk_stamp = t, tk_last = t, tk_elapsed = t\<rparr>"

definition pace_sample :: "(tick \<times> unit call) list" where
  "pace_sample =
     [(tick_at 0, Call_Phase PH_COMPILE), (tick_at 10, Call_Phase PH_EXECUTION),
      (tick_at 20, Call_Step ''go test'' 1 3), (tick_at 1200000000, Call_Step ''go test'' 2 3),
      (tick_at 1200000001, Call_Step ''go test'' 3 3), (tick_at 1200000002, Call_Terminal TC_COMPLETED)]"

theorem events_bounded_witness:
  "int (length (rp_sent (run_calls pace_sample (new_reporter True 1000000000 False None 0)))) \<le> 6
   \<and> length (rp_sent (run_calls pace_sample (new_reporter True 1000000000 False None 0))) = 5"
proof -
  let ?r = "run_calls pace_sample (new_reporter True 1000000000 False None 0)"
  have facts: "length (rp_stamps ?r) = 2" "length (rp_kept ?r) = 0" "milestone_calls pace_sample = 1" "rp_done ?r"
      "length (rp_sent ?r) = 5"
    by code_simp+
  have "ordered_ticks 0 (map fst pace_sample)" by code_simp
  from events_bounded [of 1000000000 0 pace_sample False None, OF _ this]
  have "int (length (rp_sent ?r)) \<le> int (length (rp_stamps ?r) + length (rp_kept ?r) + milestone_calls pace_sample
      + (if rp_done ?r then 1 else 0)) + 1
      + ((if pace_sample = [] then 0 else tk_elapsed (fst (last pace_sample))) - 0) div 1000000000"
    by simp
  also have "\<dots> = 6"
  proof -
    have "pace_sample \<noteq> []" "tk_elapsed (fst (last pace_sample)) = 1200000002" by code_simp+
    then show ?thesis unfolding facts(1-3) by (simp add: facts(4))
  qed
  finally show ?thesis using facts(5) by simp
qed

section \<open>Racing steps\<close>

text \<open>Steps of several invocations inside one phase, in the order they reach the lock.\<close>

definition step_calls :: "(tick \<times> string \<times> int \<times> int) list \<Rightarrow> (tick \<times> 'p call) list" where
  "step_calls ss = map (\<lambda>(k, iv, c, t). (k, Call_Step iv c t)) ss"

text \<open>The counts a stream shows of one invocation.\<close>

definition counts_of :: "string \<Rightarrow> progress_event list \<Rightarrow> int list" where
  "counts_of iv es = map ev_completed (filter (\<lambda>e. ev_invocation e = iv) es)"

lemma counts_of_append: "counts_of iv (es @ fs) = counts_of iv es @ counts_of iv fs"
  by (simp add: counts_of_def)

text \<open>Every count sent is recorded, so a later, higher one is strictly above it.\<close>

definition counts_ok :: "progress_event list \<Rightarrow> 'p reporter \<Rightarrow> bool" where
  "counts_ok es r \<longleftrightarrow> (\<forall>iv. sorted_wrt (<) (counts_of iv es)
     \<and> (\<forall>c \<in> set (counts_of iv es). \<exists>mx. rp_max_done r iv = Some mx \<and> c \<le> mx))"

lemma step_units_cases:
  obtains "step_units k iv c t r = r"
    | "\<exists>mx. rp_max_done (step_units k iv c t r) iv = Some mx \<and> mx = c"
      "rp_max_done (step_units k iv c t r) = (rp_max_done r)(iv \<mapsto> c)"
      "\<forall>mx. rp_max_done r iv = Some mx \<longrightarrow> mx < c"
      "rp_sent (step_units k iv c t r) = rp_sent r
       \<or> (\<exists>e. rp_sent (step_units k iv c t r) = rp_sent r @ [e] \<and> ev_invocation e = iv \<and> ev_completed e = c)"
proof (cases "rp_done r \<or> (case rp_max_done r iv of Some mx \<Rightarrow> c \<le> mx | None \<Rightarrow> False)")
  case True
  then have "step_units k iv c t r = r" by (auto simp: step_units_def)
  then show ?thesis by (rule that(1))
next
  case False
  then have nd: "\<not> rp_done r" and fresh: "\<not> (case rp_max_done r iv of Some mx \<Rightarrow> c \<le> mx | None \<Rightarrow> False)" by simp_all
  show ?thesis
  proof (rule that(2))
    show "\<forall>mx. rp_max_done r iv = Some mx \<longrightarrow> mx < c" using fresh by auto
  qed (use nd fresh in \<open>simp_all add: step_units_def Let_def frame_simps current_event_def\<close>)
qed

lemma step_counts:
  assumes "counts_ok es r" and "rp_sent r = pre @ es"
  shows "\<exists>es'. counts_ok es' (step_units k iv c t r) \<and> rp_sent (step_units k iv c t r) = pre @ es'"
proof (cases k iv c t r rule: step_units_cases)
  case 1
  with assms show ?thesis by auto
next
  case 2
  from 2(4) show ?thesis
  proof (elim disjE exE conjE)
    assume "rp_sent (step_units k iv c t r) = rp_sent r"
    moreover have "counts_ok es (step_units k iv c t r)"
      using assms(1) 2(2,3) by (fastforce simp: counts_ok_def)
    ultimately show ?thesis using assms(2) by auto
  next
    fix e assume e: "rp_sent (step_units k iv c t r) = rp_sent r @ [e]" "ev_invocation e = iv" "ev_completed e = c"
    have snoc: "counts_of i (es @ [e]) = counts_of i es @ (if i = iv then [c] else [])" for i
      using e(2,3) by (simp add: counts_of_def)
    have below: "x < c" if "x \<in> set (counts_of iv es)" for x
    proof -
      from assms(1) that obtain mx where "rp_max_done r iv = Some mx" "x \<le> mx" unfolding counts_ok_def by blast
      with 2(3) show ?thesis by auto
    qed
    have "counts_ok (es @ [e]) (step_units k iv c t r)"
      unfolding counts_ok_def
    proof (intro allI conjI ballI)
      fix i
      have "sorted_wrt (<) (counts_of i es)" using assms(1) by (simp add: counts_ok_def)
      then show "sorted_wrt (<) (counts_of i (es @ [e]))" using below by (simp add: snoc sorted_wrt_append)
      fix x assume x: "x \<in> set (counts_of i (es @ [e]))"
      show "\<exists>mx. rp_max_done (step_units k iv c t r) i = Some mx \<and> x \<le> mx"
      proof (cases "i = iv")
        case True
        with x below 2(2) show ?thesis by (auto simp: snoc intro: less_imp_le)
      next
        case False
        with x have "x \<in> set (counts_of i es)" by (simp add: snoc)
        with assms(1) False 2(2) show ?thesis by (simp add: counts_ok_def)
      qed
    qed
    with e(1) assms(2) show ?thesis by auto
  qed
qed

lemma steps_counts:
  assumes "counts_ok es r" and "rp_sent r = pre @ es"
  shows "\<exists>es'. counts_ok es' (run_calls (step_calls ss) r) \<and> rp_sent (run_calls (step_calls ss) r) = pre @ es'"
  using assms
proof (induction ss arbitrary: r es)
  case Nil
  then show ?case by (auto simp: step_calls_def)
next
  case (Cons q ss)
  obtain k iv c t where q: "q = (k, iv, c, t)" by (cases q)
  from step_counts [OF Cons.prems, of k iv c t] Cons.IH show ?case by (fastforce simp: step_calls_def q)
qed

lemma run_call_extends: "\<exists>es. rp_sent (run_call c r) = rp_sent r @ es"
proof (cases "rp_done (run_call c r)")
  case False
  from run_call_advisory(2) [OF this] show ?thesis by blast
next
  case True
  then show ?thesis
    by (cases "rp_done r") (use run_call_done(2) [of r c] run_call_ending [of r c] in \<open>simp, blast\<close>)
qed

lemma run_calls_extends: "\<exists>es. rp_sent (run_calls cs r) = rp_sent r @ es"
proof (induction cs arbitrary: r)
  case Nil
  then show ?case by simp
next
  case (Cons c cs)
  from run_call_extends [of c r] Cons.IH [of "run_call c r"] show ?case by auto
qed

text \<open>The step that reaches the total is accepted whenever it comes first, and emits.\<close>

definition below_total :: "string \<Rightarrow> int \<Rightarrow> 'p reporter \<Rightarrow> bool" where
  "below_total iv t r \<longleftrightarrow> (case rp_max_done r iv of None \<Rightarrow> True | Some mx \<Rightarrow> mx < t)"

definition within_total :: "string \<Rightarrow> int \<Rightarrow> (tick \<times> string \<times> int \<times> int) list \<Rightarrow> bool" where
  "within_total iv t ss \<longleftrightarrow> (\<forall>(k, i, c, u) \<in> set ss. i = iv \<longrightarrow> c \<le> t \<and> u = t)"

lemma step_units_frame:
  "rp_sink (step_units k iv c t r) = rp_sink r" "rp_done (step_units k iv c t r) = rp_done r"
  "i \<noteq> iv \<Longrightarrow> rp_max_done (step_units k iv c t r) i = rp_max_done r i"
  by (simp_all add: step_units_def Let_def frame_simps)

lemma step_units_lower: "c < u \<Longrightarrow> below_total iv u r \<Longrightarrow> below_total iv u (step_units k iv c t r)"
  by (auto simp: below_total_def step_units_def Let_def frame_simps split: option.splits)

lemma step_units_reaches:
  assumes "rp_sink r" "\<not> rp_done r" "0 < t" "below_total iv t r"
  shows "\<exists>e. rp_sent (step_units k iv t t r) = rp_sent r @ [e] \<and> ev_invocation e = iv \<and> ev_completed e = t"
  using assms by (auto simp: step_units_def Let_def frame_simps below_total_def current_event_def split: option.splits)

lemma steps_reach:
  assumes "rp_sink r" "\<not> rp_done r" "0 < t" "below_total iv t r" "within_total iv t ss" "(iv, t) \<in> (\<lambda>(k, i, c, u). (i, c)) ` set ss"
    and "rp_sent r = pre @ es"
  shows "\<exists>new. rp_sent (run_calls (step_calls ss) r) = pre @ new \<and> t \<in> set (counts_of iv new)"
  using assms
proof (induction ss arbitrary: r es)
  case Nil
  then show ?case by simp
next
  case (Cons q ss)
  obtain k i c u where q: "q = (k, i, c, u)" by (cases q)
  let ?r = "step_units k i c u r"
  have run: "run_calls (step_calls (q # ss)) r = run_calls (step_calls ss) ?r" by (simp add: step_calls_def q)
  show ?case
  proof (cases "(i, c) = (iv, t)")
    case True
    with Cons.prems(5) have "i = iv" "c = t" "u = t" by (auto simp: within_total_def q)
    with step_units_reaches [OF Cons.prems(1-4), of k] obtain e
      where e: "rp_sent ?r = rp_sent r @ [e]" "ev_invocation e = iv" "ev_completed e = t" by auto
    have "\<exists>es'. rp_sent (run_calls cs ?r) = rp_sent ?r @ es'" for cs :: "(tick \<times> 'a call) list"
      by (rule run_calls_extends)
    then obtain es' where "rp_sent (run_calls (step_calls ss) ?r) = rp_sent ?r @ es'" by blast
    with e Cons.prems(7) show ?thesis unfolding run by (intro exI [of _ "es @ [e] @ es'"]) (simp add: counts_of_def)
  next
    case False
    have below: "below_total iv t ?r"
    proof (cases "i = iv")
      case True
      with False Cons.prems(5) have "c < t" by (auto simp: within_total_def q)
      with True Cons.prems(4) show ?thesis by (simp add: step_units_lower)
    next
      case False
      with Cons.prems(4) show ?thesis by (simp add: below_total_def step_units_frame)
    qed
    have "\<exists>fs. rp_sent ?r = rp_sent r @ fs" using run_calls_extends [of "[(k, Call_Step i c u)]" r] by simp
    then obtain fs where fs: "rp_sent ?r = pre @ (es @ fs)" using Cons.prems(7) by auto
    have rest: "within_total iv t ss" "(iv, t) \<in> (\<lambda>(k, i, c, u). (i, c)) ` set ss"
      using Cons.prems(5,6) False by (auto simp: within_total_def q)
    show ?thesis unfolding run
      by (rule Cons.IH [OF _ _ Cons.prems(3) below rest fs]) (use Cons.prems(1,2) in \<open>simp_all add: step_units_frame\<close>)
  qed
qed

text \<open>Concurrent completion reports. Whatever the order in which the steps of several
  invocations reach the lock, the counts the stream shows of one invocation strictly
  increase; and when a step with the full count is among them, and no count exceeds the
  total, exactly one event carries the completion.\<close>

theorem completion_exactly_once:
  fixes ss :: "(tick \<times> string \<times> int \<times> int) list" and r :: "'p reporter"
  assumes "rp_sink r" and "\<not> rp_done r" and "0 < t" and "below_total iv t r" and "within_total iv t ss"
    and "(iv, t) \<in> (\<lambda>(k, i, c, u). (i, c)) ` set ss"
  shows "\<exists>new. rp_sent (run_calls (step_calls ss) r) = rp_sent r @ new
    \<and> sorted_wrt (<) (counts_of iv new) \<and> length (filter (\<lambda>c. c = t) (counts_of iv new)) = 1"
proof -
  have "counts_ok [] r" by (simp add: counts_ok_def counts_of_def)
  from steps_counts [OF this, of "rp_sent r" ss] obtain new
    where new: "counts_ok new (run_calls (step_calls ss) r)" "rp_sent (run_calls (step_calls ss) r) = rp_sent r @ new"
    by auto
  from steps_reach [OF assms, of "rp_sent r" "[]"] new(2) have t: "t \<in> set (counts_of iv new)" by auto
  from new(1) have s: "sorted_wrt (<) (counts_of iv new)" by (simp add: counts_ok_def)
  then have "distinct (counts_of iv new)" by (simp add: strict_sorted_iff)
  with t have "length (filter (\<lambda>c. c = t) (counts_of iv new)) = 1"
    by (simp add: distinct_length_filter Int_absorb2 Collect_conv_if)
  with s new(2) show ?thesis by blast
qed

definition race_sample :: "(tick \<times> string \<times> int \<times> int) list" where
  "race_sample = [(tick_at 5, ''unit'', 1, 3), (tick_at 6, ''unit'', 3, 3), (tick_at 7, ''lint'', 1, 2), (tick_at 8, ''unit'', 2, 3)]"

definition race_reporter :: "unit reporter" where
  "race_reporter = new_reporter True 1000000000 False None 0"

theorem completion_exactly_once_witness:
  "\<exists>new. rp_sent (run_calls (step_calls race_sample) race_reporter) = rp_sent race_reporter @ new
    \<and> sorted_wrt (<) (counts_of ''unit'' new) \<and> length (filter (\<lambda>c. c = 3) (counts_of ''unit'' new)) = 1"
proof (rule completion_exactly_once)
  show "rp_sink race_reporter" "\<not> rp_done race_reporter" "below_total ''unit'' 3 race_reporter"
    by (simp_all add: race_reporter_def new_reporter_def below_total_def)
  show "within_total ''unit'' 3 race_sample" by (simp add: within_total_def race_sample_def)
  show "(''unit'', 3) \<in> (\<lambda>(k, i, c, u). (i, c)) ` set race_sample" by (simp add: race_sample_def)
qed simp

section \<open>Attribution of the resident peak\<close>

text \<open>The readings of an operation in order, with their moments.\<close>

definition readings :: "(resident_set \<times> moment) list \<Rightarrow> resident_record \<Rightarrow> resident_record" where
  "readings rs rec = fold (\<lambda>sm rec. advance (fst sm) (snd sm) rec) rs rec"

lemma advance_peak [frame_simps]:
  "rr_peak (advance s m rec) = max (rr_peak rec) (rs_process_peak s)"
  "rr_peak_raised (advance s m rec) \<longleftrightarrow> rr_peak_raised rec \<or> rs_process_peak s > rr_peak rec"
  "rr_peak_moment (advance s m rec) = (if rs_process_peak s > rr_peak rec then m else rr_peak_moment rec)"
  "rr_largest (advance s m rec) = max (rr_largest rec) (rs_process s)"
  "rr_desc_peak (advance s m rec) = max (rr_desc_peak rec) (rs_descendant_peak s)"
  "rr_taken (advance s m rec)"
  by (auto simp: advance_def Let_def max_def)

lemma readings_snoc: "readings (rs @ [sm]) rec = advance (fst sm) (snd sm) (readings rs rec)"
  by (simp add: readings_def)

definition peaks :: "(resident_set \<times> moment) list \<Rightarrow> 64 word set" where
  "peaks rs = (\<lambda>sm. rs_process_peak (fst sm)) ` set rs"

definition first_at :: "64 word \<Rightarrow> (resident_set \<times> moment) list \<Rightarrow> moment" where
  "first_at v rs = snd (hd (filter (\<lambda>sm. rs_process_peak (fst sm) = v) rs))"

lemma readings_peak: "rr_peak (readings rs (fresh_record b)) = Max (insert b (peaks rs))"
proof (induction rs rule: rev_induct)
  case Nil
  then show ?case by (simp add: readings_def fresh_record_def peaks_def)
next
  case (snoc sm rs)
  have "insert b (peaks (rs @ [sm])) = insert (rs_process_peak (fst sm)) (insert b (peaks rs))"
    by (auto simp: peaks_def)
  then have "Max (insert b (peaks (rs @ [sm]))) = max (rs_process_peak (fst sm)) (Max (insert b (peaks rs)))"
    by (simp only:) (rule Max_insert, simp_all add: peaks_def)
  with snoc show ?case by (simp add: readings_snoc frame_simps max.commute)
qed

lemma readings_raised: "rr_peak_raised (readings rs (fresh_record b)) \<longleftrightarrow> (\<exists>v \<in> peaks rs. v > b)"
proof (induction rs rule: rev_induct)
  case Nil
  then show ?case by (simp add: readings_def fresh_record_def peaks_def)
next
  case (snoc sm rs)
  have fin: "finite (insert b (peaks rs))" by (simp add: peaks_def)
  have "rs_process_peak (fst sm) > Max (insert b (peaks rs))
      \<longleftrightarrow> (\<forall>v \<in> insert b (peaks rs). rs_process_peak (fst sm) > v)"
    using fin by simp
  moreover have "peaks (rs @ [sm]) = insert (rs_process_peak (fst sm)) (peaks rs)" by (auto simp: peaks_def)
  ultimately show ?case using snoc
    by (auto simp: readings_snoc frame_simps readings_peak) (meson le_less_trans not_less)+
qed

lemma readings_moment:
  "rr_peak_raised (readings rs (fresh_record b)) \<Longrightarrow>
     rr_peak_moment (readings rs (fresh_record b)) = first_at (rr_peak (readings rs (fresh_record b))) rs"
proof (induction rs rule: rev_induct)
  case Nil
  then show ?case by (simp add: readings_def fresh_record_def)
next
  case (snoc sm rs)
  let ?r = "readings rs (fresh_record b)" and ?v = "rs_process_peak (fst sm)"
  show ?case
  proof (cases "?v > rr_peak ?r")
    case True
    then have "\<forall>q \<in> set rs. rs_process_peak (fst q) < ?v"
      by (simp add: readings_peak peaks_def)
    then have "filter (\<lambda>q. rs_process_peak (fst q) = ?v) rs = []" by (auto simp: filter_empty_conv)
    with True show ?thesis by (simp add: readings_snoc frame_simps first_at_def max_def)
  next
    case False
    with snoc.prems have up: "rr_peak_raised ?r" by (simp add: readings_snoc frame_simps)
    then obtain v where v: "v \<in> peaks rs" "b < v" unfolding readings_raised by blast
    have "Max (insert b (peaks rs)) \<in> insert b (peaks rs)" by (rule Max_in) (simp_all add: peaks_def)
    moreover have "v \<le> Max (insert b (peaks rs))" using v(1) by (simp add: peaks_def)
    ultimately have "rr_peak ?r \<in> peaks rs" using v(2) unfolding readings_peak by auto
    then have "filter (\<lambda>q. rs_process_peak (fst q) = rr_peak ?r) rs \<noteq> []"
      unfolding peaks_def by (force simp: filter_empty_conv)
    moreover have "rr_peak (advance (fst sm) (snd sm) ?r) = rr_peak ?r" using False by (simp add: frame_simps max_def)
    moreover from snoc.IH [OF up] have "rr_peak_moment ?r = first_at (rr_peak ?r) rs" .
    ultimately show ?thesis using False by (simp add: readings_snoc frame_simps first_at_def)
  qed
qed

text \<open>Attribution of the resident peak. Over any readings, which need not be monotonic, the
  recorded peak is the largest of the baseline and the readings' peaks; it counts as raised
  by the operation exactly when a reading exceeds the baseline, and is then attributed to
  the moment of the first reading that reached the final peak.\<close>

theorem resident_peak_attribution:
  fixes rs :: "(resident_set \<times> moment) list" and b :: "64 word"
  defines "rec \<equiv> readings rs (fresh_record b)"
  shows "rr_peak rec = Max (insert b (peaks rs))
    \<and> (rr_peak_raised rec \<longleftrightarrow> (\<exists>v. v \<in> peaks rs \<and> v > b))
    \<and> (if rr_peak_raised rec then rr_peak_moment rec = first_at (rr_peak rec) rs else rr_peak rec = b)"
proof (cases "rr_peak_raised rec")
  case True
  then show ?thesis using readings_moment [of rs b] by (auto simp: rec_def readings_peak readings_raised)
next
  case False
  then have low: "\<forall>v \<in> peaks rs. v \<le> b" by (auto simp: rec_def readings_raised)
  have "Max (insert b (peaks rs)) = b" by (rule Max_eqI) (use low in \<open>auto simp: peaks_def\<close>)
  with False show ?thesis by (auto simp: rec_def readings_peak readings_raised)
qed

end
