(* ===== verification/Sink.thy ===== *)
theory Sink
  imports Progress "HOL-Library.Sublist"
begin

text \<open>
  The decoration \<open>NonBlocking\<close> of \<open>internal/progress/progress.go\<close>: a bounded buffer and a
  reserved slot for the terminal event between the reporter, which pushes under its mutex,
  and one sender goroutine. A push is a function, the two branches of each \<open>select\<close> of the
  sender are the rules of a step relation, and \<open>reaches\<close> interleaves them freely. The
  contract the slot rests on - one terminal event, pushed last - is the locale
  \<open>emit_once\<close>, and the reporter's model provides it.
\<close>

definition sink_buffer :: nat where
  "sink_buffer = 16"

datatype sender = Looping | Draining progress_event | Stopped

record sink_state =
  sk_events :: "progress_event list"
  sk_slot :: "progress_event option"
  sk_sender :: sender
  sk_delivered :: "progress_event list"

definition sink_start :: sink_state where
  "sink_start = \<lparr>sk_events = [], sk_slot = None, sk_sender = Looping, sk_delivered = []\<rparr>"

definition sink_push :: "progress_event \<Rightarrow> sink_state \<Rightarrow> sink_state" where
  "sink_push e st =
     (if ev_cause e \<noteq> TC_UNSPECIFIED
      then (case sk_slot st of None \<Rightarrow> st\<lparr>sk_slot := Some e\<rparr> | Some _ \<Rightarrow> st)
      else if length (sk_events st) < sink_buffer then st\<lparr>sk_events := sk_events st @ [e]\<rparr> else st)"

inductive sender_step :: "sink_state \<Rightarrow> sink_state \<Rightarrow> bool" where
  recv_event: "sk_sender st = Looping \<Longrightarrow> sk_events st = e # es
    \<Longrightarrow> sender_step st (st\<lparr>sk_events := es, sk_delivered := sk_delivered st @ [e]\<rparr>)"
| recv_terminal: "sk_sender st = Looping \<Longrightarrow> sk_slot st = Some t
    \<Longrightarrow> sender_step st (st\<lparr>sk_slot := None, sk_sender := Draining t\<rparr>)"
| drain_event: "sk_sender st = Draining t \<Longrightarrow> sk_events st = e # es
    \<Longrightarrow> sender_step st (st\<lparr>sk_events := es, sk_delivered := sk_delivered st @ [e]\<rparr>)"
| drain_done: "sk_sender st = Draining t \<Longrightarrow> sk_events st = []
    \<Longrightarrow> sender_step st (st\<lparr>sk_sender := Stopped, sk_delivered := sk_delivered st @ [t]\<rparr>)"

code_pred (modes: i \<Rightarrow> o \<Rightarrow> bool) sender_step .

inductive_cases sender_stepE: "sender_step st st'"

text \<open>The states after the events \<open>es\<close> were pushed, with sender steps anywhere in between.\<close>

inductive reaches :: "progress_event list \<Rightarrow> sink_state \<Rightarrow> bool" where
  start: "reaches [] sink_start"
| push: "reaches es st \<Longrightarrow> reaches (es @ [e]) (sink_push e st)"
| send: "reaches es st \<Longrightarrow> sender_step st st' \<Longrightarrow> reaches es st'"

lemma reaches_bounded: "reaches es st \<Longrightarrow> length (sk_events st) \<le> sink_buffer"
proof (induction rule: reaches.induct)
  case start
  then show ?case by (simp add: sink_start_def)
next
  case (push es st e)
  then show ?case by (simp add: sink_push_def split: option.split)
next
  case (send es st st')
  from send.hyps(2) send.IH show ?case by (cases rule: sender_step.cases) simp_all
qed

section \<open>Order\<close>

text \<open>What was delivered and what is buffered is, in order, part of what was pushed.\<close>

definition shown :: "sink_state \<Rightarrow> progress_event list" where
  "shown st = filter advisory (sk_delivered st) @ filter advisory (sk_events st)"

definition well_kept :: "sink_state \<Rightarrow> bool" where
  "well_kept st \<longleftrightarrow> list_all advisory (sk_events st) \<and> (case sk_slot st of None \<Rightarrow> True | Some t \<Rightarrow> \<not> advisory t)
     \<and> (case sk_sender st of Draining t \<Rightarrow> \<not> advisory t | _ \<Rightarrow> True)"

lemma push_well_kept: "well_kept st \<Longrightarrow> well_kept (sink_push e st)"
  by (auto simp: well_kept_def sink_push_def advisory_def split: option.splits sender.splits)

lemma step_well_kept: "sender_step st st' \<Longrightarrow> well_kept st \<Longrightarrow> well_kept st'"
  by (cases rule: sender_step.cases) (auto simp: well_kept_def)

lemma reaches_well_kept: "reaches es st \<Longrightarrow> well_kept st"
  by (induction rule: reaches.induct)
    (auto simp: push_well_kept step_well_kept, simp add: well_kept_def sink_start_def)

lemma step_shown: "sender_step st st' \<Longrightarrow> well_kept st \<Longrightarrow> shown st' = shown st"
  by (cases rule: sender_step.cases) (auto simp: shown_def well_kept_def)

lemma push_shown: "shown (sink_push e st) = shown st \<or> (advisory e \<and> shown (sink_push e st) = shown st @ [e])"
  by (auto simp: shown_def sink_push_def advisory_def split: option.split)

lemma reaches_shown: "reaches es st \<Longrightarrow> subseq (shown st) (filter advisory es)"
proof (induction rule: reaches.induct)
  case start
  then show ?case by (simp add: shown_def sink_start_def)
next
  case (push es st e)
  from push_shown [of e st] push.IH show ?case by (auto intro: list_emb_append2 list_emb_append_mono)
next
  case (send es st st')
  with step_shown [OF send.hyps(2) reaches_well_kept [OF send.hyps(1)]] show ?case by simp
qed

section \<open>The contract of the reserved slot\<close>

text \<open>Where the one terminal event of a sealed stream is: nowhere yet, or somewhere and last.\<close>

definition terminal_pending :: "progress_event \<Rightarrow> sink_state \<Rightarrow> bool" where
  "terminal_pending t st \<longleftrightarrow>
     (sk_sender st = Looping \<and> sk_slot st = Some t \<or> sk_sender st = Draining t \<and> sk_slot st = None)
     \<and> list_all advisory (sk_delivered st)"

definition terminal_delivered :: "progress_event \<Rightarrow> sink_state \<Rightarrow> bool" where
  "terminal_delivered t st \<longleftrightarrow>
     sk_sender st = Stopped \<and> sk_slot st = None \<and> sk_events st = []
     \<and> (\<exists>ds. sk_delivered st = ds @ [t] \<and> list_all advisory ds)"

definition no_terminal :: "sink_state \<Rightarrow> bool" where
  "no_terminal st \<longleftrightarrow> sk_sender st = Looping \<and> sk_slot st = None \<and> list_all advisory (sk_delivered st)"

definition sealed_stream :: "progress_event list \<Rightarrow> bool" where
  "sealed_stream es \<longleftrightarrow> list_all advisory es \<or> (\<exists>pre t. es = pre @ [t] \<and> list_all advisory pre)"

lemma sealed_prefix: "sealed_stream (es @ [e]) \<Longrightarrow> list_all advisory es"
  by (auto simp: sealed_stream_def)

lemma reaches_terminal:
  assumes "reaches es st" and "sealed_stream es"
  shows "if list_all advisory es then no_terminal st
         else terminal_pending (last es) st \<or> terminal_delivered (last es) st"
  using assms
proof (induction rule: reaches.induct)
  case start
  then show ?case by (simp add: no_terminal_def sink_start_def)
next
  case (push es st e)
  from push.prems have adv: "list_all advisory es" by (rule sealed_prefix)
  then have "sealed_stream es" by (simp add: sealed_stream_def)
  with push.IH adv have "no_terminal st" by simp
  moreover have "ev_cause e = TC_UNSPECIFIED \<longleftrightarrow> advisory e" by (simp add: advisory_def)
  ultimately show ?case using adv
    by (auto simp: no_terminal_def terminal_pending_def sink_push_def)
next
  case (send es st st')
  have wk: "well_kept st" using send.hyps(1) by (rule reaches_well_kept)
  show ?case
  proof (cases "list_all advisory es")
    case True
    with send.IH [OF send.prems] have "no_terminal st" by simp
    with send.hyps(2) wk have "no_terminal st'"
      by (cases rule: sender_step.cases) (auto simp: no_terminal_def well_kept_def)
    with True show ?thesis by simp
  next
    case False
    with send.IH [OF send.prems] have "terminal_pending (last es) st \<or> terminal_delivered (last es) st" by simp
    with send.hyps(2) wk have "terminal_pending (last es) st' \<or> terminal_delivered (last es) st'"
      by (cases rule: sender_step.cases) (auto simp: terminal_pending_def terminal_delivered_def well_kept_def)
    with False show ?thesis by simp
  qed
qed

text \<open>The sender's progress: every step of its own uses up a buffered event or a stage.\<close>

definition sender_work :: "sink_state \<Rightarrow> nat" where
  "sender_work st = length (sk_events st) + (case sk_sender st of Looping \<Rightarrow> 2 | Draining _ \<Rightarrow> 1 | Stopped \<Rightarrow> 0)"

lemma step_work: "sender_step st st' \<Longrightarrow> sender_work st' < sender_work st"
  by (cases rule: sender_step.cases) (auto simp: sender_work_def)

lemma steps_work: "(sender_step ^^ n) st st' \<Longrightarrow> n + sender_work st' \<le> sender_work st"
proof (induction n arbitrary: st')
  case 0
  then show ?case by simp
next
  case (Suc n)
  then obtain mid where "(sender_step ^^ n) st mid" "sender_step mid st'" by auto
  with Suc.IH [of mid] step_work [of mid st'] show ?case by simp
qed

lemma steps_reach_states: "reaches es st \<Longrightarrow> (sender_step ^^ n) st st' \<Longrightarrow> reaches es st'"
proof (induction n arbitrary: st')
  case 0
  then show ?case by simp
next
  case (Suc n)
  then show ?case by (auto intro: reaches.send)
qed

lemma pending_steps: "terminal_pending t st \<Longrightarrow> \<exists>st'. sender_step st st'"
  by (cases "sk_events st") (auto simp: terminal_pending_def intro: sender_step.intros)

text \<open>
  What the sink needs of its producer: in every state, the stream it has pushed is advisory
  events, closed by at most one terminal event.
\<close>

locale emit_once =
  fixes stream :: "'s \<Rightarrow> progress_event list" and ok :: "'s \<Rightarrow> bool"
  assumes sealed: "ok s \<Longrightarrow> sealed_stream (stream s)"
begin

lemma terminal_never_lost:
  assumes "ok s" and "reaches (stream s) st" and "\<not> list_all advisory (stream s)"
  shows "terminal_pending (last (stream s)) st \<or> terminal_delivered (last (stream s)) st"
  using reaches_terminal [OF assms(2) sealed [OF assms(1)]] assms(3) by simp

lemma sender_finishes:
  assumes "ok s" and "reaches (stream s) st" and "\<not> list_all advisory (stream s)" and "(sender_step ^^ n) st st'"
  shows "n \<le> sink_buffer + 2" and "(\<exists>st''. sender_step st' st'') \<or> terminal_delivered (last (stream s)) st'"
proof -
  have "sender_work st \<le> sink_buffer + 2"
    using reaches_bounded [OF assms(2)] by (simp add: sender_work_def split: sender.split)
  with steps_work [OF assms(4)] show "n \<le> sink_buffer + 2" by simp
  have "reaches (stream s) st'" using assms(2,4) by (rule steps_reach_states)
  from terminal_never_lost [OF assms(1) this assms(3)]
  show "(\<exists>st''. sender_step st' st'') \<or> terminal_delivered (last (stream s)) st'"
    using pending_steps by blast
qed

end

text \<open>The reporter provides the contract: its states are those any sequence of calls makes.\<close>

definition reporter_state :: "'p reporter \<Rightarrow> bool" where
  "reporter_state r \<longleftrightarrow> (\<exists>cs interval sampled sample now. r = run_calls cs (new_reporter True interval sampled sample now))"

lemma reporter_sealed: "reporter_state r \<Longrightarrow> sealed_stream (rp_sent r)"
proof -
  assume "reporter_state r"
  then obtain cs interval sampled sample now
    where r: "r = run_calls cs (new_reporter True interval sampled sample now)" by (auto simp: reporter_state_def)
  have "stream_ok r" unfolding r
    by (rule run_calls_stream) (simp_all add: new_reporter_def stream_ok_def)
  then show ?thesis by (auto simp: stream_ok_def sealed_stream_def split: if_splits)
qed

interpretation reporter_sink: emit_once rp_sent reporter_state
  by unfold_locales (rule reporter_sealed)

section \<open>Properties of the sink\<close>

text \<open>A stalled consumer costs events, never order or memory. After any interleaving of
  pushes and sender steps the buffer holds at most sixteen events, and the advisory events
  delivered, followed by those buffered, are a subsequence of those pushed: some may be
  dropped, none is duplicated or reordered.\<close>

theorem sink_bounded_in_order:
  assumes "reaches es st"
  shows "length (sk_events st) \<le> 16
    \<and> subseq (filter advisory (sk_delivered st) @ filter advisory (sk_events st)) (filter advisory es)"
  using reaches_bounded [OF assms] reaches_shown [OF assms] by (simp add: sink_buffer_def shown_def)

definition sample_event :: "terminal_cause \<Rightarrow> progress_event" where
  "sample_event c = \<lparr>ev_phase = PH_COMPILE, ev_invocation = [], ev_elapsed = 0, ev_completed = 0, ev_total = 0,
     ev_cause = c, ev_note = [], ev_resident = None, ev_kept = []\<rparr>"

theorem sink_bounded_in_order_witness:
  "\<exists>st. reaches [sample_event TC_UNSPECIFIED] st \<and> length (sk_events st) \<le> 16
    \<and> subseq (filter advisory (sk_delivered st) @ filter advisory (sk_events st))
        (filter advisory [sample_event TC_UNSPECIFIED])"
proof -
  have r: "reaches ([] @ [sample_event TC_UNSPECIFIED]) (sink_push (sample_event TC_UNSPECIFIED) sink_start)"
    by (rule reaches.push) (rule reaches.start)
  from sink_bounded_in_order [OF r] r show ?thesis by auto
qed

text \<open>C33: the ending always reaches a consumer that drains. Take any operation's reporter,
  sealed with a named cause, and any state of its non-blocking sink once all its events
  were pushed: no flood has cost the terminal event, every run of the sender from there
  takes at most eighteen steps, and a run that cannot go on has stopped with the terminal
  event delivered, exactly once and last, after everything buffered.\<close>

theorem ending_always_delivered:
  fixes cs :: "(tick \<times> 'p call) list" and interval now :: int and sampled :: bool and sample :: "resident_set option"
  defines "r \<equiv> run_calls cs (new_reporter True interval sampled sample now)"
  assumes "rp_done r" and "rp_cause r \<noteq> TC_UNSPECIFIED" and "reaches (rp_sent r) st" and "(sender_step ^^ n) st st'"
  shows "n \<le> 18 \<and> ((\<exists>st''. sender_step st' st'')
    \<or> sk_sender st' = Stopped \<and> sk_events st' = []
      \<and> (\<exists>ds. sk_delivered st' = ds @ [last (rp_sent r)] \<and> list_all advisory ds)
      \<and> ev_cause (last (rp_sent r)) = rp_cause r)"
proof -
  have st: "reporter_state r" unfolding reporter_state_def r_def by blast
  have "stream_ok r" unfolding r_def
    by (rule run_calls_stream) (simp_all add: new_reporter_def stream_ok_def)
  with assms(2) obtain pre e where sent: "rp_sent r = pre @ [e]" and e: "final_event r e"
    by (auto simp: stream_ok_def)
  then have cause: "ev_cause (last (rp_sent r)) = rp_cause r" by (simp add: final_event_def)
  then have named: "\<not> list_all advisory (rp_sent r)" using assms(3) sent by (auto simp: advisory_def)
  from reporter_sink.sender_finishes [OF st assms(4) named assms(5)] cause show ?thesis
    by (auto simp: sink_buffer_def terminal_delivered_def)
qed

text \<open>A cancelled operation: one phase, then the ending.\<close>

definition ending_sample :: "(tick \<times> unit call) list" where
  "ending_sample = [(tick_at 0, Call_Phase PH_COMPILE), (tick_at 10, Call_Seal TC_CANCELLED [])]"

theorem ending_always_delivered_witness:
  "\<exists>st. reaches (rp_sent (run_calls ending_sample (new_reporter True 1000000000 False None 0))) st
    \<and> (\<exists>st''. sender_step st st'')"
proof -
  let ?r = "run_calls ending_sample (new_reporter True 1000000000 False None 0)"
  have facts: "rp_done ?r" "rp_cause ?r \<noteq> TC_UNSPECIFIED" by code_simp+
  have sent: "rp_sent ?r = [rp_sent ?r ! 0] @ [rp_sent ?r ! 1]" by code_simp
  have "reaches ([rp_sent ?r ! 0] @ [rp_sent ?r ! 1])
      (sink_push (rp_sent ?r ! 1) (sink_push (rp_sent ?r ! 0) sink_start))"
    by (rule reaches.push, rule reaches.push [of "[]", simplified]) (rule reaches.start)
  then have reach: "reaches (rp_sent ?r) (sink_push (rp_sent ?r ! 1) (sink_push (rp_sent ?r ! 0) sink_start))"
    (is "reaches _ ?st") using sent by simp
  have running: "sk_sender ?st \<noteq> Stopped" by (simp add: sink_push_def sink_start_def split: option.split)
  have zero: "(sender_step ^^ 0) ?st ?st" by simp
  from ending_always_delivered [OF facts reach zero] running reach show ?thesis by blast
qed

end
