(* ===== verification/Canon.thy ===== *)
theory Canon
  imports GoStd
begin

text \<open>
  The canonical forms of \<open>internal/canon/canon.go\<close> and the segment texts of
  \<open>internal/profile/text.go\<close> they are computed over. Unicode normalization is third-party
  code and the parameter \<open>nfc\<close>; the hexadecimal SHA-256 digest is the parameter \<open>sha\<close>. The
  parts of a preimage are what this theory is about: nothing a part contains can forge a
  block boundary.
\<close>

section \<open>Runes by class\<close>

definition space_rune :: "nat \<Rightarrow> bool" where
  "space_rune r \<longleftrightarrow>
     9 \<le> r \<and> r \<le> 13 \<or> r = 0x20 \<or> r = 0x85 \<or> r = 0xA0 \<or> r = 0x1680 \<or> 0x2000 \<le> r \<and> r \<le> 0x200A
     \<or> r = 0x2028 \<or> r = 0x2029 \<or> r = 0x202F \<or> r = 0x205F \<or> r = 0x3000"

definition control_rune :: "nat \<Rightarrow> bool" where
  "control_rune r \<longleftrightarrow> r < 0x20 \<or> 0x7F \<le> r \<and> r < 0xA0"

text \<open>\<open>strings.Fields\<close>: the maximal runs of runes that are not white space, as the bytes they are.\<close>

fun fields_of :: "(nat \<times> string) list \<Rightarrow> string \<Rightarrow> string list" where
  "fields_of [] cur = (if cur = [] then [] else [cur])"
| "fields_of ((r, bs) # ps) cur =
     (if space_rune r then (if cur = [] then fields_of ps [] else cur # fields_of ps [])
      else fields_of ps (cur @ bs))"

definition split_fields :: "string \<Rightarrow> string list" where
  "split_fields s = fields_of (rune_parts s) []"

section \<open>Canonical text and digests\<close>

text \<open>\<open>strings.Map\<close> with the strip: a dropped rune leaves nothing, an invalid byte becomes U+FFFD.\<close>

definition strip_controls :: "string \<Rightarrow> string" where
  "strip_controls s = string_of_runes (filter (\<lambda>r. \<not> (control_rune r \<and> \<not> space_rune r)) (runes s))"

definition canon_text :: "(string \<Rightarrow> string) \<Rightarrow> string \<Rightarrow> string" where
  "canon_text nfc s = join (split_fields (nfc (strip_controls s))) '' ''"

definition canon_hash :: "(string \<Rightarrow> string) \<Rightarrow> (string \<Rightarrow> string) \<Rightarrow> string \<Rightarrow> string" where
  "canon_hash nfc sha s = sha (canon_text nfc s)"

definition record_separator :: char where
  "record_separator = CHR 0x1E"

definition hash_preimage :: "(string \<Rightarrow> string) \<Rightarrow> string list \<Rightarrow> string" where
  "hash_preimage nfc parts = join (map (canon_text nfc) parts) [record_separator]"

definition hash_parts :: "(string \<Rightarrow> string) \<Rightarrow> (string \<Rightarrow> string) \<Rightarrow> string list \<Rightarrow> string" where
  "hash_parts nfc sha parts = sha (hash_preimage nfc parts)"

definition source_digest :: "(string \<Rightarrow> string) \<Rightarrow> string list \<Rightarrow> string" where
  "source_digest sha blocks = sha (join (map sha blocks) nl)"

lemma hash_parts_single: "hash_parts nfc sha [s] = canon_hash nfc sha s"
  by (simp add: hash_parts_def hash_preimage_def canon_hash_def)

section \<open>Segments\<close>

text \<open>A run of plain text; \<open>Start\<close> and \<open>End\<close> are -1 for a segment without source of its own.\<close>

record seg =
  sg_text :: string
  sg_inert :: bool
  sg_start :: int
  sg_end :: int

definition plain :: "seg list \<Rightarrow> string" where
  "plain segs = concat (map sg_text segs)"

definition plain_canon :: "(string \<Rightarrow> string) \<Rightarrow> seg list \<Rightarrow> string" where
  "plain_canon nfc segs = canon_text nfc (plain segs)"

text \<open>The preimage parts of an identity: its text, then each block of its context extent.\<close>

definition extent_parts :: "string \<Rightarrow> seg list list \<Rightarrow> string list" where
  "extent_parts text extent = text # map plain extent"

section \<open>Boundaries cannot be forged\<close>

text \<open>
  What the code relies on of normalization: text without record separators normalizes to
  text without record separators (U+001E is stable and no composition yields it).
\<close>

definition keeps_separators_out :: "(string \<Rightarrow> string) \<Rightarrow> bool" where
  "keeps_separators_out nfc \<longleftrightarrow> (\<forall>s. record_separator \<notin> set s \<longrightarrow> record_separator \<notin> set (nfc s))"

lemma char_of_separator: "(n::nat) < 256 \<Longrightarrow> char_of n = (CHR 0x1E :: char) \<longleftrightarrow> n = 30"
proof
  assume "n < 256" and "char_of n = (CHR 0x1E :: char)"
  then have "(of_char (char_of n :: char) :: nat) = of_char (CHR 0x1E :: char)" by simp
  with \<open>n < 256\<close> show "n = 30" by simp
next
  assume "n = 30"
  then show "char_of n = (CHR 0x1E :: char)" by (simp only:) code_simp
qed

lemma encode_rune_separator: "record_separator \<in> set (encode_rune r) \<Longrightarrow> r = 30"
proof -
  assume h: "record_separator \<in> set (encode_rune r)"
  define q where "q = (if valid_rune r then r else rune_error)"
  have q: "q \<le> 0x10FFFF" by (auto simp: q_def valid_rune_def rune_error_def)
  have "q = 30"
  proof -
    consider "q < 0x80" | "0x80 \<le> q" "q < 0x800" | "0x800 \<le> q" "q < 0x10000" | "0x10000 \<le> q" by linarith
    then show ?thesis
    proof cases
      case 1
      with h show ?thesis
        by (simp add: encode_rune_def q_def [symmetric] byte_of_def record_separator_def
            eq_commute [of "CHR 0x1E"] char_of_separator)
    next
      case 2
      then have "q div 64 < 32" by linarith
      with 2 h show ?thesis
        by (simp add: encode_rune_def q_def [symmetric] byte_of_def record_separator_def
            eq_commute [of "CHR 0x1E"] char_of_separator)
    next
      case 3
      then have "q div 4096 < 16" by linarith
      with 3 h show ?thesis
        by (simp add: encode_rune_def q_def [symmetric] byte_of_def record_separator_def
            eq_commute [of "CHR 0x1E"] char_of_separator)
    next
      case 4
      with q have "q div 262144 < 8" by linarith
      with 4 h show ?thesis
        by (simp add: encode_rune_def q_def [symmetric] byte_of_def record_separator_def
            eq_commute [of "CHR 0x1E"] char_of_separator)
    qed
  qed
  then show ?thesis by (auto simp: q_def rune_error_def split: if_splits)
qed

lemma strip_controls_separator: "record_separator \<notin> set (strip_controls s)"
proof
  assume "record_separator \<in> set (strip_controls s)"
  then obtain r where "\<not> (control_rune r \<and> \<not> space_rune r)" "record_separator \<in> set (encode_rune r)"
    by (auto simp: strip_controls_def string_of_runes_def)
  then show False by (auto dest!: encode_rune_separator simp: control_rune_def space_rune_def)
qed

lemma rune_parts_bytes: "concat (map snd (rune_parts s)) = s"
proof (induction s rule: rune_parts.induct)
  case 1
  then show ?case by simp
next
  case (2 c cs)
  obtain r w where d: "decode_rune (c # cs) = (r, w)" by (cases "decode_rune (c # cs)")
  from "2.IH" [OF d [symmetric] refl] show ?case
    by (simp add: rune_parts.simps(2) [of c cs] d)
qed

lemma fields_of_bytes: "f \<in> set (fields_of ps cur) \<Longrightarrow> set f \<subseteq> set cur \<union> set (concat (map snd ps))"
  by (induction ps cur arbitrary: f rule: fields_of.induct) (fastforce split: if_splits)+

lemma join_set: "set (join xs s) \<subseteq> \<Union> (set ` set xs) \<union> set s"
  by (induction xs s rule: join.induct) auto

lemma canon_text_separator:
  assumes "keeps_separators_out nfc"
  shows "record_separator \<notin> set (canon_text nfc s)"
proof
  assume "record_separator \<in> set (canon_text nfc s)"
  with join_set [of "split_fields (nfc (strip_controls s))" "'' ''"]
  have "\<exists>f \<in> set (split_fields (nfc (strip_controls s))). record_separator \<in> set f"
    by (auto simp: canon_text_def record_separator_def)
  then have "record_separator \<in> set (nfc (strip_controls s))"
    using fields_of_bytes [of _ "rune_parts (nfc (strip_controls s))" "[]"]
    by (fastforce simp: split_fields_def rune_parts_bytes)
  with assms strip_controls_separator [of s] show False by (auto simp: keeps_separators_out_def)
qed

lemma split_join: "xs \<noteq> [] \<Longrightarrow> list_all (\<lambda>x. d \<notin> set x) xs \<Longrightarrow> split_on d (join xs [d]) = xs"
proof (induction xs "[d]" rule: join.induct)
  case (3 x y ys)
  then have "split_on d (join (y # ys) [d]) = y # ys" "d \<notin> set x" by simp_all
  then show ?case by (simp add: split_on_append)
qed simp_all

text \<open>C39: block boundaries ride the content hash. If normalization brings no record separator
  into a text that has none, the preimage of a non-empty block sequence determines the
  sequence of canonical blocks: words moved across a boundary, or a raw separator in the
  source, never yield another sequence's preimage.\<close>

theorem preimage_determines_blocks:
  assumes "keeps_separators_out nfc" and "ps \<noteq> []" and "qs \<noteq> []"
  shows "hash_preimage nfc ps = hash_preimage nfc qs \<longleftrightarrow> map (canon_text nfc) ps = map (canon_text nfc) qs"
proof -
  have clean: "list_all (\<lambda>x. record_separator \<notin> set x) (map (canon_text nfc) xs)" for xs
    using canon_text_separator [OF assms(1)] by (simp add: list_all_iff)
  have split: "split_on record_separator (hash_preimage nfc xs) = map (canon_text nfc) xs" if "xs \<noteq> []" for xs
    unfolding hash_preimage_def by (rule split_join) (use that clean in simp_all)
  show ?thesis
  proof
    assume "hash_preimage nfc ps = hash_preimage nfc qs"
    then have "split_on record_separator (hash_preimage nfc ps) = split_on record_separator (hash_preimage nfc qs)"
      by (rule arg_cong)
    then show "map (canon_text nfc) ps = map (canon_text nfc) qs"
      unfolding split [OF assms(2)] split [OF assms(3)] .
  next
    assume "map (canon_text nfc) ps = map (canon_text nfc) qs"
    then show "hash_preimage nfc ps = hash_preimage nfc qs" by (simp only: hash_preimage_def)
  qed
qed

theorem preimage_determines_blocks_witness:
  "hash_preimage id [''a b''] \<noteq> hash_preimage id [''a'', ''b'']"
proof
  have "keeps_separators_out id" by (simp add: keeps_separators_out_def)
  from preimage_determines_blocks [OF this, of "[''a b'']" "[''a'', ''b'']"]
  have "hash_preimage id [''a b''] = hash_preimage id [''a'', ''b'']
      \<longleftrightarrow> map (canon_text id) [''a b''] = map (canon_text id) [''a'', ''b'']" by simp
  moreover assume "hash_preimage id [''a b''] = hash_preimage id [''a'', ''b'']"
  ultimately have "map (canon_text id) [''a b''] = map (canon_text id) [''a'', ''b'']" by blast
  then show False by simp
qed

end
