(* ===== verification/Detect.thy ===== *)
theory Detect
  imports Canon
begin

text \<open>
  The detection passes of \<open>internal/compile/compile.go\<close> over a block's segments: the detection
  runs, the requirement and keyword tokens, the term matcher and the word boundaries it
  shares with the lint; and the enforcement pointers of \<open>internal/compile/extract.go\<close>. The
  two regular expressions are matchers of one position, in the leftmost-first order of
  Go's \<open>regexp\<close>; \<open>\\b\<close> is its ASCII word boundary. The letters and digits of Unicode beyond
  ASCII are the parameter \<open>uni\<close>.
\<close>

section \<open>Runs and tokens\<close>

fun runs_of :: "seg list \<Rightarrow> string \<Rightarrow> string list" where
  "runs_of [] cur = (if cur = [] then [] else [cur])"
| "runs_of (s # ss) cur =
     (if sg_inert s then (if cur = [] then runs_of ss [] else cur # runs_of ss [])
      else runs_of ss (cur @ sg_text s))"

definition detection_runs :: "seg list \<Rightarrow> string list" where
  "detection_runs segs = runs_of segs []"

definition re_word :: "char \<Rightarrow> bool" where
  "re_word c \<longleftrightarrow> (let b = byte_val c in 48 \<le> b \<and> b \<le> 57 \<or> 65 \<le> b \<and> b \<le> 90 \<or> b = 95 \<or> 97 \<le> b \<and> b \<le> 122)"

definition lower_alnum :: "char \<Rightarrow> bool" where
  "lower_alnum c \<longleftrightarrow> (let b = byte_val c in 48 \<le> b \<and> b \<le> 57 \<or> 97 \<le> b \<and> b \<le> 122)"

definition boundary :: "char option \<Rightarrow> string \<Rightarrow> bool" where
  "boundary prev rest \<longleftrightarrow>
     (case prev of None \<Rightarrow> False | Some c \<Rightarrow> re_word c)
     \<noteq> (case rest of [] \<Rightarrow> False | c # _ \<Rightarrow> re_word c)"

text \<open>The lengths of the greedy groups \<open>-[a-z0-9]+\<close> at the head of a string.\<close>

fun id_groups :: "nat \<Rightarrow> string \<Rightarrow> nat list" where
  "id_groups 0 s = []"
| "id_groups (Suc n) s =
     (case s of
        [] \<Rightarrow> []
      | c # cs \<Rightarrow>
          let g = takeWhile lower_alnum cs in
          if c = CHR ''-'' \<and> g \<noteq> [] then Suc (length g) # id_groups n (drop (length g) cs) else [])"

text \<open>
  \<open>\\bREQ(-[a-z0-9]+)+\\b\<close> at a position: the greedy match when it ends on a boundary, else the
  match without its last group, which ends before a hyphen.
\<close>

definition req_token :: "char option \<Rightarrow> string \<Rightarrow> nat option" where
  "req_token prev s =
     (if has_prefix s ''REQ'' \<and> boundary prev s then
        let gs = id_groups (length s) (drop 3 s); n = 3 + sum_list gs in
        if gs \<noteq> [] \<and> boundary (Some (s ! (n - 1))) (drop n s) then Some n
        else if length gs \<ge> 2 then Some (3 + sum_list (butlast gs))
        else None
      else None)"

text \<open>\<open>\\b(MUST NOT|MUST|SHOULD NOT|SHOULD|MAY)\\b\<close>, the alternatives in order.\<close>

definition keyword_words :: "string list" where
  "keyword_words = [''MUST NOT'', ''MUST'', ''SHOULD NOT'', ''SHOULD'', ''MAY'']"

definition keyword_token :: "char option \<Rightarrow> string \<Rightarrow> nat option" where
  "keyword_token prev s =
     (if boundary prev s then
        map_option length (find (\<lambda>w. has_prefix s w \<and> boundary (Some (last w)) (drop (length w) s)) keyword_words)
      else None)"

text \<open>\<open>FindAllString\<close> over matches that are never empty.\<close>

function find_all :: "(char option \<Rightarrow> string \<Rightarrow> nat option) \<Rightarrow> char option \<Rightarrow> string \<Rightarrow> string list" where
  "find_all m prev [] = []"
| "find_all m prev (c # cs) =
     (case m prev (c # cs) of
        Some (Suc n) \<Rightarrow> take (Suc n) (c # cs) # find_all m (Some (last (take (Suc n) (c # cs)))) (drop n cs)
      | _ \<Rightarrow> find_all m (Some c) cs)"
  by pat_completeness auto
termination
  by (relation "measure (\<lambda>(m, prev, s). length s)") auto

definition find_tokens :: "(char option \<Rightarrow> string \<Rightarrow> nat option) \<Rightarrow> seg list \<Rightarrow> string list" where
  "find_tokens m segs = concat (map (find_all m None) (detection_runs segs))"

section \<open>Term matching\<close>

definition word_rune :: "(nat \<Rightarrow> bool) \<Rightarrow> nat \<Rightarrow> bool" where
  "word_rune uni r \<longleftrightarrow>
     (if r < 128 then 48 \<le> r \<and> r \<le> 57 \<or> 65 \<le> r \<and> r \<le> 90 \<or> 97 \<le> r \<and> r \<le> 122
      else r \<noteq> rune_error \<and> uni r)"

text \<open>\<open>utf8.DecodeLastRune\<close>: back to the nearest rune start within four bytes.\<close>

definition last_rune :: "string \<Rightarrow> nat" where
  "last_rune p =
     (if p = [] then rune_error
      else if byte_val (last p) < 0x80 then byte_val (last p)
      else let tails = map (\<lambda>k. drop (length p - k) p) [k \<leftarrow> [2, 3, 4]. k \<le> length p];
               from = (case find (\<lambda>q. rune_start (hd q)) tails of
                         Some q \<Rightarrow> q | None \<Rightarrow> (if length p < 4 then p else drop (length p - 5) p)) in
           case decode_rune from of (r, w) \<Rightarrow> if w = length from then r else rune_error)"

definition rune_boundary_before :: "(nat \<Rightarrow> bool) \<Rightarrow> string \<Rightarrow> nat \<Rightarrow> bool" where
  "rune_boundary_before uni t start \<longleftrightarrow> start = 0 \<or> \<not> word_rune uni (last_rune (take start t))"

definition rune_boundary_after :: "(nat \<Rightarrow> bool) \<Rightarrow> string \<Rightarrow> nat \<Rightarrow> bool" where
  "rune_boundary_after uni t en \<longleftrightarrow> en = length t \<or> \<not> word_rune uni (fst (decode_rune (drop en t)))"

definition on_boundaries :: "(nat \<Rightarrow> bool) \<Rightarrow> string \<Rightarrow> nat \<Rightarrow> nat \<Rightarrow> bool" where
  "on_boundaries uni t start n \<longleftrightarrow> rune_boundary_before uni t start \<and> rune_boundary_after uni t (start + n)"

text \<open>\<open>bytes.Index\<close> from an offset.\<close>

fun index_in :: "string \<Rightarrow> string \<Rightarrow> nat option" where
  "index_in needle [] = (if needle = [] then Some 0 else None)"
| "index_in needle (c # cs) =
     (if has_prefix (c # cs) needle then Some 0 else map_option Suc (index_in needle cs))"

definition blank :: "nat \<Rightarrow> nat \<Rightarrow> string \<Rightarrow> string" where
  "blank start n t = take start t @ replicate n (CHR 0x01) @ drop (start + n) t"

lemma has_prefix_length: "has_prefix s p \<Longrightarrow> length p \<le> length s"
  by (induction s p rule: has_prefix.induct) auto

lemma index_in_bound: "index_in needle s = Some i \<Longrightarrow> i + length needle \<le> length s"
  by (induction needle s arbitrary: i rule: index_in.induct)
    (auto split: if_splits dest: has_prefix_length)

lemma blank_length [simp]: "start + n \<le> length t \<Longrightarrow> length (blank start n t) = length t"
  by (simp add: blank_def)

text \<open>The scan of one text for one name: the occurrences on boundaries are claimed.\<close>

function claim :: "(nat \<Rightarrow> bool) \<Rightarrow> string \<Rightarrow> string \<Rightarrow> nat \<Rightarrow> bool \<Rightarrow> string \<times> bool" where
  "claim uni name t from matched =
     (if from + length name \<le> length t then
        (case index_in name (drop from t) of
           None \<Rightarrow> (t, matched)
         | Some i \<Rightarrow>
             if on_boundaries uni t (from + i) (length name)
             then claim uni name (blank (from + i) (length name) t) (from + i + 1) True
             else claim uni name t (from + i + 1) matched)
      else (t, matched))"
  by pat_completeness auto
termination
proof (relation "measure (\<lambda>(uni, name, t, from, matched). Suc (length t) - from)", goal_cases)
  case 1
  then show ?case by simp
next
  case (2 uni name t fr matched i)
  then show ?case using index_in_bound [OF 2(2)] by simp
next
  case (3 uni name t fr matched i)
  then show ?case by simp
qed

declare claim.simps [simp del]

text \<open>One name over all texts, then all names, longest first.\<close>

fun claim_all :: "(nat \<Rightarrow> bool) \<Rightarrow> string \<Rightarrow> string list \<Rightarrow> string list \<times> bool" where
  "claim_all uni name [] = ([], False)"
| "claim_all uni name (t # ts) =
     (let (t', m) = claim uni name t 0 False; (ts', ms) = claim_all uni name ts in (t' # ts', m \<or> ms))"

fun match_names :: "(nat \<Rightarrow> bool) \<Rightarrow> string list \<Rightarrow> string list \<Rightarrow> string \<Rightarrow> string list" where
  "match_names uni [] ts self = []"
| "match_names uni (n # ns) ts self =
     (let (ts', m) = claim_all uni n ts in
      (if m \<and> n \<noteq> self then [n] else []) @ match_names uni ns ts' self)"

definition match_terms :: "(nat \<Rightarrow> bool) \<Rightarrow> (nat \<Rightarrow> nat) \<Rightarrow> string list \<Rightarrow> seg list \<Rightarrow> string \<Rightarrow> string list" where
  "match_terms uni lt names segs self =
     sort (match_names uni names (map (go_lower lt) (detection_runs segs)) self)"

text \<open>The lint's test, by every offset.\<close>

definition contains_word :: "(nat \<Rightarrow> bool) \<Rightarrow> string \<Rightarrow> string \<Rightarrow> bool" where
  "contains_word uni hay needle \<longleftrightarrow>
     (\<exists>i \<in> set [0..<Suc (length hay - length needle)].
        i + length needle \<le> length hay \<and> take (length needle) (drop i hay) = needle
        \<and> on_boundaries uni hay i (length needle))"

section \<open>Enforcement pointers\<close>

record pointer =
  pt_name :: string
  pt_start :: int
  pt_end :: int

definition ident_text :: "string \<Rightarrow> bool" where
  "ident_text s \<longleftrightarrow> (case s of [] \<Rightarrow> False | c # cs \<Rightarrow> re_word c \<and> \<not> is_digit c \<and> list_all re_word cs)"

definition blank_byte :: "char \<Rightarrow> bool" where
  "blank_byte c \<longleftrightarrow> c = CHR 0x20 \<or> c = CHR 0x0A \<or> c = CHR 0x09"

text \<open>An occurrence at \<open>i\<close> begins a sentence: at the start, or after an end mark and white space.\<close>

definition begins_sentence :: "string \<Rightarrow> nat \<Rightarrow> bool" where
  "begins_sentence text i \<longleftrightarrow>
     (let pre = rev (take i text); rest = dropWhile blank_byte pre in
      i = 0 \<or> (rest \<noteq> [] \<and> length rest < length pre
               \<and> (hd rest = CHR ''.'' \<or> hd rest = CHR ''!'' \<or> hd rest = CHR ''?'')))"

function sentence_from :: "string \<Rightarrow> string \<Rightarrow> nat \<Rightarrow> nat option" where
  "sentence_from text phrase from =
     (if phrase = [] then None
      else case index_in phrase (drop from text) of
        None \<Rightarrow> None
      | Some i \<Rightarrow>
          if begins_sentence text (from + i) then Some (from + i)
          else sentence_from text phrase (from + i + length phrase))"
  by pat_completeness auto
termination
proof (relation "measure (\<lambda>(text, phrase, from). length text - from)", goal_cases)
  case 1
  then show ?case by simp
next
  case (2 tx phr fr i)
  then show ?case using index_in_bound [OF 2(2)] by (cases phr) auto
qed

declare sentence_from.simps [simp del]

definition sentence_start :: "string \<Rightarrow> string \<Rightarrow> nat option" where
  "sentence_start text phrase = sentence_from text phrase 0"

definition enforced_by :: string where
  "enforced_by = ''Enforced by''"

fun pointers_in :: "seg list \<Rightarrow> int \<Rightarrow> bool \<Rightarrow> pointer list" where
  "pointers_in [] base collecting = []"
| "pointers_in (s # ss) base collecting =
     (if sg_inert s then
        (if collecting \<and> ident_text (sg_text s) \<and> sg_start s \<ge> 0
         then [\<lparr>pt_name = sg_text s, pt_start = sg_start s - base, pt_end = sg_end s - base\<rparr>] else [])
        @ pointers_in ss base collecting
      else if collecting then pointers_in ss base (CHR ''.'' \<notin> set (sg_text s))
      else (case sentence_start (sg_text s) enforced_by of
              None \<Rightarrow> pointers_in ss base False
            | Some i \<Rightarrow> pointers_in ss base (CHR ''.'' \<notin> set (drop (i + length enforced_by) (sg_text s)))))"

definition enforcement_pointers :: "seg list \<Rightarrow> int \<Rightarrow> pointer list" where
  "enforcement_pointers segs base = pointers_in segs base False"

end
