(* ===== verification/Diff.thy ===== *)
theory Diff
  imports Coverage
begin

text \<open>
  The semantic diff of \<open>internal/diff/diff.go\<close>: a comparison of two compiled corpora by
  identity. The Go maps are last-wins maps over the corpus lists; their walks are in an
  unspecified order that the final sort settles, and are modelled over the distinct keys.
  The parameter \<open>lt\<close> is the Unicode lower-case mapping.
\<close>

record diff_report =
  dr_added_reqs :: "string list"
  dr_removed_reqs :: "string list"
  dr_text_reqs :: "string list"
  dr_kind_reqs :: "string list"
  dr_meta_reqs :: "string list"
  dr_added_terms :: "string list"
  dr_removed_terms :: "string list"
  dr_text_terms :: "string list"
  dr_meta_terms :: "string list"
  dr_added_edges :: "string list"
  dr_removed_edges :: "string list"

definition semantically_empty :: "diff_report \<Rightarrow> bool" where
  "semantically_empty r \<longleftrightarrow>
     dr_added_reqs r = [] \<and> dr_removed_reqs r = [] \<and> dr_text_reqs r = [] \<and> dr_kind_reqs r = []
     \<and> dr_added_terms r = [] \<and> dr_removed_terms r = [] \<and> dr_text_terms r = []
     \<and> dr_added_edges r = [] \<and> dr_removed_edges r = []"

definition diff_lines :: "diff_report \<Rightarrow> string list" where
  "diff_lines r =
     (let emit = (\<lambda>label ids. map (\<lambda>x. label @ '' '' @ x) ids) in
      emit ''added'' (dr_added_reqs r) @ emit ''removed'' (dr_removed_reqs r)
      @ emit ''text-changed'' (dr_text_reqs r) @ emit ''kind-changed'' (dr_kind_reqs r)
      @ emit ''metadata-only'' (dr_meta_reqs r)
      @ emit ''added term'' (dr_added_terms r) @ emit ''removed term'' (dr_removed_terms r)
      @ emit ''text-changed term'' (dr_text_terms r) @ emit ''metadata-only term'' (dr_meta_terms r)
      @ emit ''edge added'' (dr_added_edges r) @ emit ''edge removed'' (dr_removed_edges r))"

text \<open>A map built by assignment in a loop, and the keys a walk of it visits.\<close>

definition last_map :: "('a \<Rightarrow> string) \<Rightarrow> 'a list \<Rightarrow> string \<rightharpoonup> 'a" where
  "last_map key xs = fold (\<lambda>x m. m(key x \<mapsto> x)) xs Map.empty"

definition walk_keys :: "('a \<Rightarrow> string) \<Rightarrow> 'a list \<Rightarrow> string list" where
  "walk_keys key xs = remdups (map key xs)"

definition term_key :: "(nat \<Rightarrow> nat) \<Rightarrow> spec_term \<Rightarrow> string" where
  "term_key lt t = go_lower lt (term_name t)"

definition req_map :: "spec \<Rightarrow> string \<rightharpoonup> requirement" where
  "req_map sp = last_map req_id (spec_requirements sp)"

definition term_map :: "(nat \<Rightarrow> nat) \<Rightarrow> spec \<Rightarrow> string \<rightharpoonup> spec_term" where
  "term_map lt sp = last_map (term_key lt) (spec_terms sp)"

definition ref_string :: "(nat \<Rightarrow> bool) \<Rightarrow> (nat \<Rightarrow> nat) \<Rightarrow> node_ref \<Rightarrow> string" where
  "ref_string tbl lt r =
     (case r of Ref_Requirement rid \<Rightarrow> rid
      | Ref_Term n \<Rightarrow> quote tbl (go_lower lt n)
      | Ref_Unset \<Rightarrow> quote tbl (go_lower lt []))"

definition edge_key :: "(nat \<Rightarrow> bool) \<Rightarrow> (nat \<Rightarrow> nat) \<Rightarrow> edge \<Rightarrow> string" where
  "edge_key tbl lt e =
     trim_prefix (edge_kind_string (edge_knd e)) ''EDGE_KIND_'' @ '' '' @ ref_string tbl lt (edge_from e)
       @ '' -> '' @ ref_string tbl lt (edge_to e)"

definition edge_set :: "(nat \<Rightarrow> bool) \<Rightarrow> (nat \<Rightarrow> nat) \<Rightarrow> spec \<Rightarrow> string set" where
  "edge_set tbl lt sp = set (map (edge_key tbl lt) (spec_edges sp))"

definition same_location :: "location \<Rightarrow> location \<Rightarrow> bool" where
  "same_location a b \<longleftrightarrow>
     loc_document a = loc_document b \<and> loc_line a = loc_line b \<and> loc_section_path a = loc_section_path b"

definition diff_req_step ::
  "(string \<rightharpoonup> requirement) \<Rightarrow> (string \<rightharpoonup> requirement) \<Rightarrow> string \<Rightarrow> diff_report \<Rightarrow> diff_report" where
  "diff_req_step old new rid r =
     (case old rid of None \<Rightarrow> r | Some q \<Rightarrow>
       (case new rid of
          None \<Rightarrow> r\<lparr>dr_removed_reqs := dr_removed_reqs r @ [rid]\<rparr>
        | Some n \<Rightarrow>
            let text = (req_content_hash q \<noteq> req_content_hash n);
                kind = (req_kind q \<noteq> req_kind n);
                r1 = (if text then r\<lparr>dr_text_reqs := dr_text_reqs r @ [rid]\<rparr> else r);
                r2 = (if kind then r1\<lparr>dr_kind_reqs := dr_kind_reqs r1 @ [rid]\<rparr> else r1)
            in if \<not> (text \<or> kind) \<and> \<not> same_location (req_location q) (req_location n)
               then r2\<lparr>dr_meta_reqs := dr_meta_reqs r2 @ [rid]\<rparr> else r2))"

definition diff_term_step ::
  "(string \<rightharpoonup> spec_term) \<Rightarrow> (string \<rightharpoonup> spec_term) \<Rightarrow> string \<Rightarrow> diff_report \<Rightarrow> diff_report" where
  "diff_term_step old new k r =
     (case old k of None \<Rightarrow> r | Some q \<Rightarrow>
       (case new k of
          None \<Rightarrow> r\<lparr>dr_removed_terms := dr_removed_terms r @ [term_name q]\<rparr>
        | Some n \<Rightarrow>
            if term_content_hash q \<noteq> term_content_hash n
            then r\<lparr>dr_text_terms := dr_text_terms r @ [term_name n]\<rparr>
            else if term_name q \<noteq> term_name n \<or> \<not> same_location (term_location q) (term_location n)
            then r\<lparr>dr_meta_terms := dr_meta_terms r @ [term_name n]\<rparr>
            else r))"

definition diff_empty :: diff_report where
  "diff_empty =
     \<lparr>dr_added_reqs = [], dr_removed_reqs = [], dr_text_reqs = [], dr_kind_reqs = [], dr_meta_reqs = [],
      dr_added_terms = [], dr_removed_terms = [], dr_text_terms = [], dr_meta_terms = [],
      dr_added_edges = [], dr_removed_edges = []\<rparr>"

definition added_names :: "(string \<rightharpoonup> 'a) \<Rightarrow> (string \<rightharpoonup> 'a) \<Rightarrow> ('a \<Rightarrow> string) \<Rightarrow> string list \<Rightarrow> string list" where
  "added_names old new name ks =
     concat (map (\<lambda>k. case new k of None \<Rightarrow> [] | Some n \<Rightarrow> if old k = None then [name n] else []) ks)"

definition sort_report :: "diff_report \<Rightarrow> diff_report" where
  "sort_report r =
     \<lparr>dr_added_reqs = sort (dr_added_reqs r), dr_removed_reqs = sort (dr_removed_reqs r),
      dr_text_reqs = sort (dr_text_reqs r), dr_kind_reqs = sort (dr_kind_reqs r),
      dr_meta_reqs = sort (dr_meta_reqs r), dr_added_terms = sort (dr_added_terms r),
      dr_removed_terms = sort (dr_removed_terms r), dr_text_terms = sort (dr_text_terms r),
      dr_meta_terms = sort (dr_meta_terms r), dr_added_edges = sort (dr_added_edges r),
      dr_removed_edges = sort (dr_removed_edges r)\<rparr>"

definition diff :: "(nat \<Rightarrow> bool) \<Rightarrow> (nat \<Rightarrow> nat) \<Rightarrow> spec \<Rightarrow> spec \<Rightarrow> diff_report" where
  "diff tbl lt old new =
     (let oreqs = req_map old; nreqs = req_map new;
          oterms = term_map lt old; nterms = term_map lt new;
          r1 = fold (diff_req_step oreqs nreqs) (walk_keys req_id (spec_requirements old)) diff_empty;
          r2 = r1\<lparr>dr_added_reqs := filter (\<lambda>k. oreqs k = None) (walk_keys req_id (spec_requirements new))\<rparr>;
          r3 = fold (diff_term_step oterms nterms) (walk_keys (term_key lt) (spec_terms old)) r2;
          r4 = r3\<lparr>dr_added_terms := added_names oterms nterms term_name (walk_keys (term_key lt) (spec_terms new))\<rparr>;
          r5 = r4\<lparr>dr_removed_edges := filter (\<lambda>k. k \<notin> edge_set tbl lt new)
                    (walk_keys (edge_key tbl lt) (spec_edges old)),
                  dr_added_edges := filter (\<lambda>k. k \<notin> edge_set tbl lt old)
                    (walk_keys (edge_key tbl lt) (spec_edges new))\<rparr>
      in sort_report r5)"

section \<open>Maps and walks\<close>

lemma last_map_dom: "last_map key xs k \<noteq> None \<longleftrightarrow> k \<in> key ` set xs"
proof -
  have "dom (fold (\<lambda>x m. m(key x \<mapsto> x)) xs m) = dom m \<union> key ` set xs" for m
    by (induction xs arbitrary: m) auto
  then have "dom (last_map key xs) = key ` set xs" by (simp add: last_map_def)
  then show ?thesis by blast
qed

lemma walk_keys_set: "set (walk_keys key xs) = {k. last_map key xs k \<noteq> None}"
  using last_map_dom [of key xs] by (auto simp: walk_keys_def simp del: not_None_eq)

lemma walk_keys_distinct: "distinct (walk_keys key xs)"
  by (simp add: walk_keys_def)

text \<open>The loops over the old maps, as filters.\<close>

definition req_both :: "(requirement \<Rightarrow> requirement \<Rightarrow> bool) \<Rightarrow> (string \<rightharpoonup> requirement)
    \<Rightarrow> (string \<rightharpoonup> requirement) \<Rightarrow> string \<Rightarrow> bool" where
  "req_both P old new k \<longleftrightarrow> (\<exists>q n. old k = Some q \<and> new k = Some n \<and> P q n)"

definition text_differs :: "requirement \<Rightarrow> requirement \<Rightarrow> bool" where
  "text_differs q n \<longleftrightarrow> req_content_hash q \<noteq> req_content_hash n"

definition kind_differs :: "requirement \<Rightarrow> requirement \<Rightarrow> bool" where
  "kind_differs q n \<longleftrightarrow> req_kind q \<noteq> req_kind n"

definition moved_only :: "requirement \<Rightarrow> requirement \<Rightarrow> bool" where
  "moved_only q n \<longleftrightarrow> \<not> text_differs q n \<and> \<not> kind_differs q n \<and> \<not> same_location (req_location q) (req_location n)"

lemma diff_req_step_fields:
  "dr_removed_reqs (diff_req_step old new k r) = dr_removed_reqs r
     @ (if old k \<noteq> None \<and> new k = None then [k] else [])"
  "dr_text_reqs (diff_req_step old new k r) = dr_text_reqs r
     @ (if req_both text_differs old new k then [k] else [])"
  "dr_kind_reqs (diff_req_step old new k r) = dr_kind_reqs r
     @ (if req_both kind_differs old new k then [k] else [])"
  "dr_meta_reqs (diff_req_step old new k r) = dr_meta_reqs r
     @ (if req_both moved_only old new k then [k] else [])"
  by (cases "old k"; cases "new k"; simp add: diff_req_step_def Let_def req_both_def text_differs_def
      kind_differs_def moved_only_def)+

lemma diff_req_step_rest [frame_simps]:
  "dr_added_reqs (diff_req_step old new k r) = dr_added_reqs r"
  "dr_added_terms (diff_req_step old new k r) = dr_added_terms r"
  "dr_removed_terms (diff_req_step old new k r) = dr_removed_terms r"
  "dr_text_terms (diff_req_step old new k r) = dr_text_terms r"
  "dr_meta_terms (diff_req_step old new k r) = dr_meta_terms r"
  by (simp_all add: diff_req_step_def Let_def split: option.split)

lemma fold_req_steps:
  "dr_removed_reqs (fold (diff_req_step old new) ks r)
     = dr_removed_reqs r @ filter (\<lambda>k. old k \<noteq> None \<and> new k = None) ks"
  "dr_text_reqs (fold (diff_req_step old new) ks r) = dr_text_reqs r @ filter (req_both text_differs old new) ks"
  "dr_kind_reqs (fold (diff_req_step old new) ks r) = dr_kind_reqs r @ filter (req_both kind_differs old new) ks"
  "dr_meta_reqs (fold (diff_req_step old new) ks r) = dr_meta_reqs r @ filter (req_both moved_only old new) ks"
  "dr_removed_terms (fold (diff_req_step old new) ks r) = dr_removed_terms r"
  "dr_text_terms (fold (diff_req_step old new) ks r) = dr_text_terms r"
  "dr_meta_terms (fold (diff_req_step old new) ks r) = dr_meta_terms r"
  by (induction ks arbitrary: r) (simp_all add: diff_req_step_fields frame_simps)

definition term_names ::
  "(spec_term \<Rightarrow> spec_term \<Rightarrow> bool) \<Rightarrow> (string \<rightharpoonup> spec_term) \<Rightarrow> (string \<rightharpoonup> spec_term) \<Rightarrow> string list \<Rightarrow> string list" where
  "term_names P old new ks = concat (map (\<lambda>k. case old k of None \<Rightarrow> [] | Some q \<Rightarrow>
     (case new k of None \<Rightarrow> [] | Some n \<Rightarrow> if P q n then [term_name n] else [])) ks)"

definition removed_names :: "(string \<rightharpoonup> spec_term) \<Rightarrow> (string \<rightharpoonup> spec_term) \<Rightarrow> string list \<Rightarrow> string list" where
  "removed_names old new ks = concat (map (\<lambda>k. case old k of None \<Rightarrow> [] | Some q \<Rightarrow>
     if new k = None then [term_name q] else []) ks)"

definition term_text_differs :: "spec_term \<Rightarrow> spec_term \<Rightarrow> bool" where
  "term_text_differs q n \<longleftrightarrow> term_content_hash q \<noteq> term_content_hash n"

definition term_moved :: "spec_term \<Rightarrow> spec_term \<Rightarrow> bool" where
  "term_moved q n \<longleftrightarrow> \<not> term_text_differs q n
     \<and> (term_name q \<noteq> term_name n \<or> \<not> same_location (term_location q) (term_location n))"

lemma diff_term_step_fields:
  "dr_removed_terms (diff_term_step old new k r) = dr_removed_terms r @ removed_names old new [k]"
  "dr_text_terms (diff_term_step old new k r) = dr_text_terms r @ term_names term_text_differs old new [k]"
  "dr_meta_terms (diff_term_step old new k r) = dr_meta_terms r @ term_names term_moved old new [k]"
  "dr_added_reqs (diff_term_step old new k r) = dr_added_reqs r"
  "dr_removed_reqs (diff_term_step old new k r) = dr_removed_reqs r"
  "dr_text_reqs (diff_term_step old new k r) = dr_text_reqs r"
  "dr_kind_reqs (diff_term_step old new k r) = dr_kind_reqs r"
  "dr_meta_reqs (diff_term_step old new k r) = dr_meta_reqs r"
  by (cases "old k"; cases "new k"; simp add: diff_term_step_def term_names_def removed_names_def
      term_text_differs_def term_moved_def)+

lemma term_names_Cons:
  "term_names P old new (k # ks) = term_names P old new [k] @ term_names P old new ks"
  by (simp add: term_names_def)

lemma removed_names_Cons:
  "removed_names old new (k # ks) = removed_names old new [k] @ removed_names old new ks"
  by (simp add: removed_names_def)

lemma fold_term_steps:
  "dr_removed_terms (fold (diff_term_step old new) ks r) = dr_removed_terms r @ removed_names old new ks"
  "dr_text_terms (fold (diff_term_step old new) ks r) = dr_text_terms r @ term_names term_text_differs old new ks"
  "dr_meta_terms (fold (diff_term_step old new) ks r) = dr_meta_terms r @ term_names term_moved old new ks"
  "dr_added_reqs (fold (diff_term_step old new) ks r) = dr_added_reqs r"
  "dr_removed_reqs (fold (diff_term_step old new) ks r) = dr_removed_reqs r"
  "dr_text_reqs (fold (diff_term_step old new) ks r) = dr_text_reqs r"
  "dr_kind_reqs (fold (diff_term_step old new) ks r) = dr_kind_reqs r"
  "dr_meta_reqs (fold (diff_term_step old new) ks r) = dr_meta_reqs r"
proof (induction ks arbitrary: r)
  case Nil
  { case 1 show ?case by (simp add: removed_names_def)
  next case 2 show ?case by (simp add: term_names_def)
  next case 3 show ?case by (simp add: term_names_def) }
next
  case (Cons k ks)
  { case 1 show ?case by (simp add: Cons.IH diff_term_step_fields removed_names_Cons [of old new k ks])
  next case 2 show ?case by (simp add: Cons.IH diff_term_step_fields term_names_Cons [of _ old new k ks])
  next case 3 show ?case by (simp add: Cons.IH diff_term_step_fields term_names_Cons [of _ old new k ks]) }
qed (simp_all add: diff_term_step_fields)


section \<open>The report, field by field\<close>

lemma sort_filter_walk:
  "sort (filter P (walk_keys key xs)) = sorted_list_of_set {k \<in> key ` set xs. P k}"
proof -
  have "set (filter P (walk_keys key xs)) = {k \<in> key ` set xs. P k}" by (auto simp: walk_keys_def)
  moreover have "distinct (filter P (walk_keys key xs))" by (simp add: walk_keys_distinct)
  ultimately show ?thesis by (metis sorted_list_of_set_code_eq)
qed

lemma diff_fields:
  "dr_added_reqs (diff tbl lt old new)
     = sort (filter (\<lambda>k. req_map old k = None) (walk_keys req_id (spec_requirements new)))"
  "dr_removed_reqs (diff tbl lt old new)
     = sort (filter (\<lambda>k. req_map old k \<noteq> None \<and> req_map new k = None) (walk_keys req_id (spec_requirements old)))"
  "dr_text_reqs (diff tbl lt old new)
     = sort (filter (req_both text_differs (req_map old) (req_map new)) (walk_keys req_id (spec_requirements old)))"
  "dr_kind_reqs (diff tbl lt old new)
     = sort (filter (req_both kind_differs (req_map old) (req_map new)) (walk_keys req_id (spec_requirements old)))"
  "dr_meta_reqs (diff tbl lt old new)
     = sort (filter (req_both moved_only (req_map old) (req_map new)) (walk_keys req_id (spec_requirements old)))"
  "dr_added_terms (diff tbl lt old new)
     = sort (added_names (term_map lt old) (term_map lt new) term_name (walk_keys (term_key lt) (spec_terms new)))"
  "dr_removed_terms (diff tbl lt old new)
     = sort (removed_names (term_map lt old) (term_map lt new) (walk_keys (term_key lt) (spec_terms old)))"
  "dr_text_terms (diff tbl lt old new)
     = sort (term_names term_text_differs (term_map lt old) (term_map lt new) (walk_keys (term_key lt) (spec_terms old)))"
  "dr_meta_terms (diff tbl lt old new)
     = sort (term_names term_moved (term_map lt old) (term_map lt new) (walk_keys (term_key lt) (spec_terms old)))"
  "dr_removed_edges (diff tbl lt old new)
     = sort (filter (\<lambda>k. k \<notin> edge_set tbl lt new) (walk_keys (edge_key tbl lt) (spec_edges old)))"
  "dr_added_edges (diff tbl lt old new)
     = sort (filter (\<lambda>k. k \<notin> edge_set tbl lt old) (walk_keys (edge_key tbl lt) (spec_edges new)))"
  by (simp_all add: diff_def Let_def sort_report_def fold_req_steps fold_term_steps diff_empty_def)

lemma req_map_none: "req_map sp k = None \<longleftrightarrow> k \<notin> req_id ` set (spec_requirements sp)"
  using last_map_dom [of req_id "spec_requirements sp" k] unfolding req_map_def by blast

lemma term_map_none: "term_map lt sp k = None \<longleftrightarrow> k \<notin> term_key lt ` set (spec_terms sp)"
  using last_map_dom [of "term_key lt" "spec_terms sp" k] unfolding term_map_def by blast

lemma req_both_walk:
  "{k \<in> req_id ` set (spec_requirements old). req_both P (req_map old) (req_map new) k}
     = {k. req_both P (req_map old) (req_map new) k}"
proof -
  have "k \<in> req_id ` set (spec_requirements old)" if "req_both P (req_map old) (req_map new) k" for k
    using that req_map_none [of old k] by (auto simp: req_both_def)
  then show ?thesis by blast
qed

text \<open>The requirement part of the semantic diff is per identity and independent of the
  order a Go map is walked in: the added list is the sorted set of identifiers only the
  new corpus has, the removed list that of identifiers only the old one has, and an
  identifier both have is in the text list exactly when the content hashes differ, in the
  kind list exactly when the kinds differ, in both when both do, and in the
  metadata-only list exactly when neither does and the locations differ.\<close>

theorem diff_requirements_exact:
  fixes old new :: spec and tbl :: "nat \<Rightarrow> bool" and lt :: "nat \<Rightarrow> nat"
  defines "d \<equiv> diff tbl lt old new"
    and "ids \<equiv> \<lambda>sp. req_id ` set (spec_requirements sp)"
  shows "dr_added_reqs d = sorted_list_of_set (ids new - ids old)
    \<and> dr_removed_reqs d = sorted_list_of_set (ids old - ids new)
    \<and> dr_text_reqs d = sorted_list_of_set
        {k. \<exists>q n. req_map old k = Some q \<and> req_map new k = Some n \<and> req_content_hash q \<noteq> req_content_hash n}
    \<and> dr_kind_reqs d = sorted_list_of_set
        {k. \<exists>q n. req_map old k = Some q \<and> req_map new k = Some n \<and> req_kind q \<noteq> req_kind n}
    \<and> dr_meta_reqs d = sorted_list_of_set
        {k. \<exists>q n. req_map old k = Some q \<and> req_map new k = Some n \<and> req_content_hash q = req_content_hash n
              \<and> req_kind q = req_kind n \<and> req_location q \<noteq> req_location n}"
proof (intro conjI)
  show "dr_added_reqs d = sorted_list_of_set (ids new - ids old)"
    by (simp add: d_def ids_def diff_fields sort_filter_walk req_map_none set_diff_eq)
  show "dr_removed_reqs d = sorted_list_of_set (ids old - ids new)"
    by (simp add: d_def ids_def diff_fields sort_filter_walk req_map_none set_diff_eq)
  have both: "sort (filter (req_both P (req_map old) (req_map new)) (walk_keys req_id (spec_requirements old)))
      = sorted_list_of_set {k. \<exists>q n. req_map old k = Some q \<and> req_map new k = Some n \<and> P q n}" for P
  proof -
    have "{k. req_both P (req_map old) (req_map new) k}
        = {k. \<exists>q n. req_map old k = Some q \<and> req_map new k = Some n \<and> P q n}"
      by (rule Collect_cong) (rule req_both_def)
    then show ?thesis unfolding sort_filter_walk req_both_walk by (rule arg_cong)
  qed
  show "dr_text_reqs d = sorted_list_of_set
        {k. \<exists>q n. req_map old k = Some q \<and> req_map new k = Some n \<and> req_content_hash q \<noteq> req_content_hash n}"
    by (simp only: d_def diff_fields both text_differs_def)
  show "dr_kind_reqs d = sorted_list_of_set
        {k. \<exists>q n. req_map old k = Some q \<and> req_map new k = Some n \<and> req_kind q \<noteq> req_kind n}"
    by (simp only: d_def diff_fields both kind_differs_def)
  have "moved_only q n \<longleftrightarrow> req_content_hash q = req_content_hash n
      \<and> req_kind q = req_kind n \<and> req_location q \<noteq> req_location n" for q n
    by (auto simp: moved_only_def text_differs_def kind_differs_def same_location_def)
  then show "dr_meta_reqs d = sorted_list_of_set
        {k. \<exists>q n. req_map old k = Some q \<and> req_map new k = Some n \<and> req_content_hash q = req_content_hash n
              \<and> req_kind q = req_kind n \<and> req_location q \<noteq> req_location n}"
    by (simp only: d_def diff_fields both)
qed

lemma added_names_empty:
  "added_names (term_map lt old) (term_map lt new) name (walk_keys (term_key lt) (spec_terms new)) = []
     \<longleftrightarrow> (\<forall>k. term_map lt old k = None \<longrightarrow> term_map lt new k = None)"
  by (auto simp: added_names_def walk_keys_set term_map_def [symmetric] split: option.splits)

lemma removed_names_empty:
  "removed_names (term_map lt old) (term_map lt new) (walk_keys (term_key lt) (spec_terms old)) = []
     \<longleftrightarrow> (\<forall>k. term_map lt new k = None \<longrightarrow> term_map lt old k = None)"
  by (auto simp: removed_names_def walk_keys_set term_map_def [symmetric] split: option.splits)

lemma term_names_empty:
  "term_names P (term_map lt old) (term_map lt new) (walk_keys (term_key lt) (spec_terms old)) = []
     \<longleftrightarrow> (\<forall>k q n. term_map lt old k = Some q \<longrightarrow> term_map lt new k = Some n \<longrightarrow> \<not> P q n)"
  by (auto simp: term_names_def walk_keys_set term_map_def [symmetric] split: option.splits)

lemma same_projection:
  "(map_option f \<circ> m = map_option f \<circ> m') \<longleftrightarrow>
     (\<forall>k. m k = None \<longrightarrow> m' k = None) \<and> (\<forall>k. m' k = None \<longrightarrow> m k = None)
     \<and> (\<forall>k q n. m k = Some q \<longrightarrow> m' k = Some n \<longrightarrow> f q = f n)"
proof
  assume eq: "map_option f \<circ> m = map_option f \<circ> m'"
  have "map_option f (m k) = map_option f (m' k)" for k using fun_cong [OF eq, of k] by simp
  then show "(\<forall>k. m k = None \<longrightarrow> m' k = None) \<and> (\<forall>k. m' k = None \<longrightarrow> m k = None)
     \<and> (\<forall>k q n. m k = Some q \<longrightarrow> m' k = Some n \<longrightarrow> f q = f n)"
    by (metis option.map_disc_iff option.map_sel option.sel option.distinct(1))
next
  assume a: "(\<forall>k. m k = None \<longrightarrow> m' k = None) \<and> (\<forall>k. m' k = None \<longrightarrow> m k = None)
     \<and> (\<forall>k q n. m k = Some q \<longrightarrow> m' k = Some n \<longrightarrow> f q = f n)"
  show "map_option f \<circ> m = map_option f \<circ> m'"
  proof
    fix k show "(map_option f \<circ> m) k = (map_option f \<circ> m') k"
      using a by (cases "m k"; cases "m' k") auto
  qed
qed

lemma sort_Nil_iff: "sort xs = [] \<longleftrightarrow> xs = []"
  by (metis set_empty set_sort)

lemma edges_same:
  "filter (\<lambda>k. k \<notin> edge_set tbl lt new) (walk_keys (edge_key tbl lt) (spec_edges old)) = []
   \<and> filter (\<lambda>k. k \<notin> edge_set tbl lt old) (walk_keys (edge_key tbl lt) (spec_edges new)) = []
   \<longleftrightarrow> edge_set tbl lt old = edge_set tbl lt new"
  by (auto simp: edge_set_def walk_keys_def filter_empty_conv)

lemma reqs_same:
  "filter (\<lambda>k. req_map old k = None) (walk_keys req_id (spec_requirements new)) = []
   \<and> filter (\<lambda>k. req_map old k \<noteq> None \<and> req_map new k = None) (walk_keys req_id (spec_requirements old)) = []
   \<and> filter (req_both text_differs (req_map old) (req_map new)) (walk_keys req_id (spec_requirements old)) = []
   \<and> filter (req_both kind_differs (req_map old) (req_map new)) (walk_keys req_id (spec_requirements old)) = []
   \<longleftrightarrow> map_option (\<lambda>r. (req_content_hash r, req_kind r)) \<circ> req_map old
        = map_option (\<lambda>r. (req_content_hash r, req_kind r)) \<circ> req_map new"
  by (auto simp: filter_empty_conv walk_keys_set req_map_def [symmetric] same_projection
      req_both_def text_differs_def kind_differs_def)

text \<open>A pure reorganization is recognized exactly. The delta of two corpora is
  semantically empty if and only if the corpora have the same requirement identifiers with
  the same content hashes and kinds, the same case-folded term names with the same content
  hashes, and the same set of edges; documents, lines and section paths do not matter.\<close>

theorem semantically_empty_iff:
  "semantically_empty (diff tbl lt old new) \<longleftrightarrow>
     map_option (\<lambda>r. (req_content_hash r, req_kind r)) \<circ> req_map old
       = map_option (\<lambda>r. (req_content_hash r, req_kind r)) \<circ> req_map new
     \<and> map_option term_content_hash \<circ> term_map lt old = map_option term_content_hash \<circ> term_map lt new
     \<and> edge_set tbl lt old = edge_set tbl lt new"
proof -
  have terms: "added_names (term_map lt old) (term_map lt new) term_name (walk_keys (term_key lt) (spec_terms new)) = []
      \<and> removed_names (term_map lt old) (term_map lt new) (walk_keys (term_key lt) (spec_terms old)) = []
      \<and> term_names term_text_differs (term_map lt old) (term_map lt new) (walk_keys (term_key lt) (spec_terms old)) = []
      \<longleftrightarrow> map_option term_content_hash \<circ> term_map lt old = map_option term_content_hash \<circ> term_map lt new"
    unfolding added_names_empty removed_names_empty term_names_empty same_projection term_text_differs_def
    by blast
  show ?thesis
    unfolding semantically_empty_def diff_fields sort_Nil_iff terms [symmetric] reqs_same [symmetric]
      edges_same [symmetric]
    by blast
qed

end
