(* ===== verification/Bundle.thy ===== *)
theory Bundle
  imports Diff
begin

text \<open>
  The self-contained closures of \<open>internal/bundle/bundle.go\<close>: the worklist over the typed
  edges (\<open>drain\<close>), the outer fixed point over the references of the notes and annotations
  the closure pulls in (\<open>settle\<close>), the filtered corpus (\<open>compute\<close>) and its rendering
  (\<open>markdown\<close>). Both loops are total functions; the closure is shown to be exactly the
  least set of identities the inductive predicate \<open>needed\<close> gives. A requirement the
  corpus does not have, reached over a dangling edge, is a nil pointer in the code and
  \<^const>\<open>None\<close> here. The parameter \<open>lt\<close> is the Unicode lower-case mapping.
\<close>

section \<open>Keys\<close>

definition ref_key :: "(nat \<Rightarrow> nat) \<Rightarrow> node_ref \<Rightarrow> string" where
  "ref_key lt r =
     (case r of Ref_Requirement rid \<Rightarrow> ''0:'' @ rid
      | Ref_Term n \<Rightarrow> ''1:'' @ go_lower lt n
      | Ref_Unset \<Rightarrow> ''1:'' @ go_lower lt [])"

definition nul :: string where
  "nul = [CHR 0x00]"

definition section_key :: "location \<Rightarrow> string" where
  "section_key l = loc_document l @ nul @ join (loc_section_path l) nul"

definition nil_location :: location where
  "nil_location = \<lparr>loc_document = [], loc_section_path = [], loc_line = 0\<rparr>"

text \<open>The getters of a requirement pointer that may be nil.\<close>

fun opt_req_id :: "requirement option \<Rightarrow> string" where
  "opt_req_id None = []"
| "opt_req_id (Some r) = req_id r"

fun opt_req_location :: "requirement option \<Rightarrow> location" where
  "opt_req_location None = nil_location"
| "opt_req_location (Some r) = req_location r"

section \<open>The closure over the edges\<close>

record closure_state =
  in_reqs :: "string set"
  in_terms :: "string set"

definition closure_edge :: "edge \<Rightarrow> bool" where
  "closure_edge e \<longleftrightarrow>
     edge_knd e = EK_USES_TERM \<or> edge_knd e = EK_REFERENCE \<or> edge_knd e = EK_REFINES \<or> edge_knd e = EK_DEPENDS"

definition adjacent :: "(nat \<Rightarrow> nat) \<Rightarrow> edge list \<Rightarrow> string \<Rightarrow> node_ref list" where
  "adjacent lt es key = map edge_to (filter (\<lambda>e. closure_edge e \<and> ref_key lt (edge_from e) = key) es)"

definition has_ref :: "(nat \<Rightarrow> nat) \<Rightarrow> closure_state \<Rightarrow> node_ref \<Rightarrow> bool" where
  "has_ref lt st r =
     (case r of Ref_Requirement rid \<Rightarrow> rid \<in> in_reqs st
      | Ref_Term n \<Rightarrow> go_lower lt n \<in> in_terms st
      | Ref_Unset \<Rightarrow> go_lower lt [] \<in> in_terms st)"

definition mark_ref :: "(nat \<Rightarrow> nat) \<Rightarrow> node_ref \<Rightarrow> closure_state \<Rightarrow> closure_state" where
  "mark_ref lt r st =
     (case r of Ref_Requirement rid \<Rightarrow> st\<lparr>in_reqs := insert rid (in_reqs st)\<rparr>
      | Ref_Term n \<Rightarrow> st\<lparr>in_terms := insert (go_lower lt n) (in_terms st)\<rparr>
      | Ref_Unset \<Rightarrow> st\<lparr>in_terms := insert (go_lower lt []) (in_terms st)\<rparr>)"

lemma has_mark [simp]: "has_ref lt (mark_ref lt r st) r' \<longleftrightarrow> ref_key lt r = ref_key lt r' \<or> has_ref lt st r'"
  by (cases r; cases r') (auto simp: has_ref_def mark_ref_def ref_key_def)

lemma has_ref_key: "ref_key lt r = ref_key lt r' \<Longrightarrow> has_ref lt st r = has_ref lt st r'"
  by (cases r; cases r') (auto simp: has_ref_def ref_key_def)

text \<open>The identities a queue and the edges can still add.\<close>

definition pending :: "(nat \<Rightarrow> nat) \<Rightarrow> edge list \<Rightarrow> node_ref list \<Rightarrow> closure_state \<Rightarrow> string set" where
  "pending lt es q st = ref_key lt ` {r \<in> set q \<union> edge_to ` set es. \<not> has_ref lt st r}"

lemma finite_pending [simp]: "finite (pending lt es q st)"
  by (simp add: pending_def)

lemma adjacent_targets: "set (adjacent lt es k) \<subseteq> edge_to ` set es"
  by (auto simp: adjacent_def)

lemma pending_tail: "pending lt es q st \<subseteq> pending lt es (r # q) st"
  by (auto simp: pending_def)

lemma pending_mark:
  assumes "\<not> has_ref lt st r"
  shows "pending lt es (q @ adjacent lt es k) (mark_ref lt r st) \<subset> pending lt es (r # q) st"
proof
  show "pending lt es (q @ adjacent lt es k) (mark_ref lt r st) \<subseteq> pending lt es (r # q) st"
    using adjacent_targets [of lt es k] by (auto simp: pending_def)
  have "ref_key lt r \<in> pending lt es (r # q) st" using assms by (auto simp: pending_def)
  moreover have "ref_key lt r \<notin> pending lt es (q @ adjacent lt es k) (mark_ref lt r st)"
    by (auto simp: pending_def)
  ultimately show "pending lt es (q @ adjacent lt es k) (mark_ref lt r st) \<noteq> pending lt es (r # q) st"
    by blast
qed

function drain :: "(nat \<Rightarrow> nat) \<Rightarrow> edge list \<Rightarrow> node_ref list \<Rightarrow> closure_state \<Rightarrow> closure_state" where
  "drain lt es [] st = st"
| "drain lt es (r # q) st =
     (if has_ref lt st r then drain lt es q st
      else drain lt es (q @ adjacent lt es (ref_key lt r)) (mark_ref lt r st))"
  by pat_completeness auto
termination
proof (relation "measures [\<lambda>(lt, es, q, st). card (pending lt es q st), \<lambda>(lt, es, q, st). length q]", goal_cases)
  case 1 then show ?case by simp
next
  case (2 lt es r q st)
  have "card (pending lt es q st) \<le> card (pending lt es (r # q) st)"
    by (rule card_mono) (simp_all add: pending_tail)
  then show ?case by auto
next
  case (3 lt es r q st)
  have "card (pending lt es (q @ adjacent lt es (ref_key lt r)) (mark_ref lt r st))
      < card (pending lt es (r # q) st)"
    by (rule psubset_card_mono) (simp_all add: pending_mark 3)
  then show ?case by simp
qed

lemma drain_keeps: "has_ref lt st r \<Longrightarrow> has_ref lt (drain lt es q st) r"
  by (induction lt es q st rule: drain.induct) simp_all

lemma drain_queue: "r \<in> set q \<Longrightarrow> has_ref lt (drain lt es q st) r"
  by (induction lt es q st arbitrary: r rule: drain.induct) (auto simp: drain_keeps)

text \<open>A marked node's successors are marked or still queued, so at the end they are marked.\<close>

definition edges_closed :: "(nat \<Rightarrow> nat) \<Rightarrow> edge list \<Rightarrow> node_ref list \<Rightarrow> closure_state \<Rightarrow> bool" where
  "edges_closed lt es q st \<longleftrightarrow>
     (\<forall>e \<in> set es. closure_edge e \<longrightarrow> has_ref lt st (edge_from e)
        \<longrightarrow> has_ref lt st (edge_to e) \<or> edge_to e \<in> set q)"

lemma drain_closed: "edges_closed lt es q st \<Longrightarrow> edges_closed lt es [] (drain lt es q st)"
proof (induction lt es q st rule: drain.induct)
  case (1 lt es st) then show ?case by simp
next
  case (2 lt es r q st)
  show ?case
  proof (cases "has_ref lt st r")
    case True
    with "2.prems" have "edges_closed lt es q st" by (auto simp: edges_closed_def)
    with True 2 show ?thesis by simp
  next
    case False
    have "edges_closed lt es (q @ adjacent lt es (ref_key lt r)) (mark_ref lt r st)"
      using "2.prems" by (auto simp: edges_closed_def adjacent_def)
    with False 2 show ?thesis by simp
  qed
qed

definition key_in :: "closure_state \<Rightarrow> string \<Rightarrow> bool" where
  "key_in st k \<longleftrightarrow> (\<exists>rid \<in> in_reqs st. k = ''0:'' @ rid) \<or> (\<exists>w \<in> in_terms st. k = ''1:'' @ w)"

lemma has_ref_key_in: "has_ref lt st r \<longleftrightarrow> key_in st (ref_key lt r)"
  by (cases r) (auto simp: has_ref_def key_in_def ref_key_def)

lemma key_in_mark: "key_in (mark_ref lt r st) k \<longleftrightarrow> k = ref_key lt r \<or> key_in st k"
  by (cases r) (auto simp: mark_ref_def key_in_def ref_key_def)

lemma drain_least:
  assumes "\<And>k. key_in st k \<Longrightarrow> P k" and "\<And>r. r \<in> set q \<Longrightarrow> P (ref_key lt r)"
    and "\<And>e. e \<in> set es \<Longrightarrow> closure_edge e \<Longrightarrow> P (ref_key lt (edge_from e)) \<Longrightarrow> P (ref_key lt (edge_to e))"
    and "key_in (drain lt es q st) k"
  shows "P k"
  using assms
proof (induction lt es q st rule: drain.induct)
  case (1 lt es st) then show ?case by simp
next
  case (2 lt es r q st)
  show ?case
  proof (cases "has_ref lt st r")
    case True
    with "2.prems"(4) have "key_in (drain lt es q st) k" by simp
    with "2.IH"(1) [OF True] "2.prems"(1-3) show ?thesis by (meson list.set_intros(2))
  next
    case False
    have r: "P (ref_key lt r)" using "2.prems"(2) by simp
    then have q: "P (ref_key lt s)" if "s \<in> set (q @ adjacent lt es (ref_key lt r))" for s
      using that "2.prems"(2,3) by (auto simp: adjacent_def)
    from r have m: "P j" if "key_in (mark_ref lt r st) j" for j
      using that "2.prems"(1) by (auto simp: key_in_mark)
    from False "2.prems"(4)
    have "key_in (drain lt es (q @ adjacent lt es (ref_key lt r)) (mark_ref lt r st)) k" by simp
    with "2.IH"(2) [OF False m q "2.prems"(3)] show ?thesis by blast
  qed
qed

section \<open>The outer fixed point\<close>

text \<open>The sections of the marked requirements and of the marked terms the corpus defines.\<close>

definition closure_sections :: "(nat \<Rightarrow> nat) \<Rightarrow> spec \<Rightarrow> closure_state \<Rightarrow> string set" where
  "closure_sections lt sp st =
     (\<lambda>rid. section_key (opt_req_location (req_map sp rid))) ` in_reqs st
     \<union> {section_key (term_location t) | t k. k \<in> in_terms st \<and> term_map lt sp k = Some t}"

definition fresh_ref :: "(nat \<Rightarrow> nat) \<Rightarrow> closure_state \<Rightarrow> node_ref \<Rightarrow> bool" where
  "fresh_ref lt st r =
     (case r of Ref_Requirement rid \<Rightarrow> rid \<notin> in_reqs st
      | Ref_Term n \<Rightarrow> go_lower lt n \<notin> in_terms st
      | Ref_Unset \<Rightarrow> False)"

definition round_refs :: "(nat \<Rightarrow> nat) \<Rightarrow> spec \<Rightarrow> closure_state \<Rightarrow> node_ref list" where
  "round_refs lt sp st =
     (let secs = closure_sections lt sp st in
      concat (map (\<lambda>n. if section_key (note_location n) \<in> secs
                       then filter (fresh_ref lt st) (note_references n) else []) (spec_notes sp))
      @ concat (map (\<lambda>a. if section_key (ann_location a) \<in> secs
                       then filter (fresh_ref lt st) (ann_references a) else []) (spec_annotations sp)))"

definition context_refs :: "spec \<Rightarrow> node_ref set" where
  "context_refs sp = (\<Union>n \<in> set (spec_notes sp). set (note_references n))
     \<union> (\<Union>a \<in> set (spec_annotations sp). set (ann_references a))"

lemma fresh_ref_iff: "fresh_ref lt st r \<longleftrightarrow> r \<noteq> Ref_Unset \<and> \<not> has_ref lt st r"
  by (cases r) (auto simp: fresh_ref_def has_ref_def)

lemma round_refs_iff:
  "r \<in> set (round_refs lt sp st) \<longleftrightarrow>
     r \<noteq> Ref_Unset \<and> \<not> has_ref lt st r
     \<and> ((\<exists>n \<in> set (spec_notes sp). section_key (note_location n) \<in> closure_sections lt sp st \<and> r \<in> set (note_references n))
        \<or> (\<exists>a \<in> set (spec_annotations sp). section_key (ann_location a) \<in> closure_sections lt sp st \<and> r \<in> set (ann_references a)))"
  by (auto simp: round_refs_def Let_def fresh_ref_iff split: if_splits)

text \<open>The context references still unmarked once the queue is drained: what a round uses up.\<close>

definition left_over :: "(nat \<Rightarrow> nat) \<Rightarrow> spec \<Rightarrow> node_ref list \<Rightarrow> closure_state \<Rightarrow> node_ref set" where
  "left_over lt sp q st = {r \<in> context_refs sp. \<not> has_ref lt (drain lt (spec_edges sp) q st) r}"

lemma finite_left_over [simp]: "finite (left_over lt sp q st)"
  by (simp add: left_over_def context_refs_def)

lemma round_shrinks:
  assumes new: "round_refs lt sp (drain lt (spec_edges sp) q st) = n # ns"
  shows "left_over lt sp (n # ns) (drain lt (spec_edges sp) q st) \<subset> left_over lt sp q st"
proof
  let ?st = "drain lt (spec_edges sp) q st"
  show "left_over lt sp (n # ns) ?st \<subseteq> left_over lt sp q st"
    by (auto simp: left_over_def dest: drain_keeps simp del: drain.simps)
  have "n \<in> set (round_refs lt sp ?st)" using new by simp
  then have "n \<in> left_over lt sp q st"
    unfolding round_refs_iff by (auto simp: left_over_def context_refs_def)
  moreover have "n \<notin> left_over lt sp (n # ns) ?st"
    by (simp add: left_over_def drain_queue del: drain.simps)
  ultimately show "left_over lt sp (n # ns) ?st \<noteq> left_over lt sp q st" by blast
qed

function settle :: "(nat \<Rightarrow> nat) \<Rightarrow> spec \<Rightarrow> node_ref list \<Rightarrow> closure_state \<Rightarrow> closure_state" where
  "settle lt sp q st =
     (case round_refs lt sp (drain lt (spec_edges sp) q st) of
        [] \<Rightarrow> drain lt (spec_edges sp) q st
      | n # ns \<Rightarrow> settle lt sp (n # ns) (drain lt (spec_edges sp) q st))"
  by pat_completeness auto
termination
proof (relation "measure (\<lambda>(lt, sp, q, st). card (left_over lt sp q st))", goal_cases)
  case 1 then show ?case by simp
next
  case (2 lt sp q st n ns)
  have "card (left_over lt sp (n # ns) (drain lt (spec_edges sp) q st)) < card (left_over lt sp q st)"
    by (rule psubset_card_mono) (simp_all only: finite_left_over round_shrinks [OF 2])
  then show ?case by simp
qed

declare settle.simps [simp del]

section \<open>The bundle\<close>

record spec_bundle =
  bd_requirements :: "requirement option list"
  bd_terms :: "spec_term list"
  bd_notes :: "spec_note list"
  bd_annotations :: "annotation list"
  bd_edges :: "edge list"

definition no_closure :: closure_state where
  "no_closure = \<lparr>in_reqs = {}, in_terms = {}\<rparr>"

definition closure_of :: "(nat \<Rightarrow> nat) \<Rightarrow> spec \<Rightarrow> string list \<Rightarrow> closure_state" where
  "closure_of lt sp ids = settle lt sp (map Ref_Requirement ids) no_closure"

definition out_requirements :: "spec \<Rightarrow> closure_state \<Rightarrow> requirement option list" where
  "out_requirements sp st = sort_key opt_req_id (map (req_map sp) (sorted_list_of_set (in_reqs st)))"

definition out_terms :: "(nat \<Rightarrow> nat) \<Rightarrow> spec \<Rightarrow> closure_state \<Rightarrow> spec_term list" where
  "out_terms lt sp st =
     sort_key (\<lambda>t. go_lower lt (term_name t))
       (concat (map (\<lambda>k. case term_map lt sp k of None \<Rightarrow> [] | Some t \<Rightarrow> [t]) (sorted_list_of_set (in_terms st))))"

definition bundle_of :: "(nat \<Rightarrow> nat) \<Rightarrow> spec \<Rightarrow> closure_state \<Rightarrow> spec_bundle" where
  "bundle_of lt sp st =
     (let reqs = out_requirements sp st; terms = out_terms lt sp st;
          secs = (section_key \<circ> opt_req_location) ` set reqs \<union> (section_key \<circ> term_location) ` set terms
      in \<lparr>bd_requirements = reqs, bd_terms = terms,
          bd_notes = filter (\<lambda>n. section_key (note_location n) \<in> secs) (spec_notes sp),
          bd_annotations = filter (\<lambda>a. section_key (ann_location a) \<in> secs) (spec_annotations sp),
          bd_edges = filter (\<lambda>e. has_ref lt st (edge_from e) \<and> has_ref lt st (edge_to e)) (spec_edges sp)\<rparr>)"

definition unknown_requirement :: "string \<Rightarrow> string" where
  "unknown_requirement rid = ''requirement '' @ rid @ '' is not in the corpus''"

definition compute :: "(nat \<Rightarrow> nat) \<Rightarrow> spec \<Rightarrow> string list \<Rightarrow> string + spec_bundle" where
  "compute lt sp ids =
     (case filter (\<lambda>rid. req_map sp rid = None) ids of
        rid # _ \<Rightarrow> Inl (unknown_requirement rid)
      | [] \<Rightarrow> Inr (bundle_of lt sp (closure_of lt sp ids)))"

text \<open>The rendering, with the flag that puts the context heading before its first entry.\<close>

definition emit_requirement :: "(nat \<Rightarrow> nat) \<Rightarrow> requirement option \<Rightarrow> string" where
  "emit_requirement lt q =
     (let r_source = (case q of None \<Rightarrow> [] | Some r \<Rightarrow> req_source r);
          r_kind = (case q of None \<Rightarrow> CK_UNSPECIFIED | Some r \<Rightarrow> req_kind r);
          r_word = (case q of None \<Rightarrow> KW_UNSPECIFIED | Some r \<Rightarrow> req_keyword r);
          r_hash = (case q of None \<Rightarrow> [] | Some r \<Rightarrow> req_content_hash r)
      in nl @ r_source @ nl
         @ nl @ ''> id: '' @ opt_req_id q
         @ '' | kind: '' @ go_lower lt (trim_prefix (clause_kind_string r_kind) ''CLAUSE_KIND_'')
         @ '' | keyword: '' @ trim_prefix (keyword_string r_word) ''KEYWORD_''
         @ '' | content_hash: '' @ r_hash @ nl)"

definition context_heading :: string where
  "context_heading = nl @ ''## Referenced requirements (context)'' @ nl"

definition context_step ::
  "(nat \<Rightarrow> nat) \<Rightarrow> string set \<Rightarrow> requirement option \<Rightarrow> string \<times> bool \<Rightarrow> string \<times> bool" where
  "context_step lt req q s =
     (if opt_req_id q \<notin> req
      then (fst s @ (if snd s then [] else context_heading) @ emit_requirement lt q, True)
      else s)"

definition source_block :: "string \<Rightarrow> string" where
  "source_block s = nl @ s @ nl"

definition markdown :: "(nat \<Rightarrow> nat) \<Rightarrow> spec_bundle \<Rightarrow> string list \<Rightarrow> string" where
  "markdown lt b requested =
     (let req = set requested;
          asked = concat (map (emit_requirement lt) (filter (\<lambda>q. opt_req_id q \<in> req) (bd_requirements b)));
          others = fst (fold (context_step lt req) (bd_requirements b) ([], False))
      in ''# Spec bundle'' @ nl @ nl
         @ ''Self-contained: every identifier and term below resolves within this document.'' @ nl
         @ nl @ ''## Requested requirements'' @ nl @ asked @ others
         @ (if bd_terms b \<noteq> [] then nl @ ''## Terms'' @ nl @ concat (map (source_block \<circ> term_source) (bd_terms b)) else [])
         @ (if bd_notes b \<noteq> [] \<or> bd_annotations b \<noteq> []
            then nl @ ''## Context notes'' @ nl @ concat (map (source_block \<circ> note_source) (bd_notes b))
                 @ concat (map (source_block \<circ> ann_source) (bd_annotations b))
            else []))"

section \<open>What the closure is\<close>

text \<open>
  The identities a bundle needs, as a least fixed point: the requested requirements, the
  targets of closure edges, and what the notes and annotations of a section_touched section refer
  to; a section is section_touched when it holds a needed requirement or a needed, defined term.
\<close>

inductive needed :: "(nat \<Rightarrow> nat) \<Rightarrow> spec \<Rightarrow> string list \<Rightarrow> string \<Rightarrow> bool"
  and section_touched :: "(nat \<Rightarrow> nat) \<Rightarrow> spec \<Rightarrow> string list \<Rightarrow> string \<Rightarrow> bool"
  for lt :: "nat \<Rightarrow> nat" and sp :: spec and ids :: "string list" where
  asked: "rid \<in> set ids \<Longrightarrow> needed lt sp ids (ref_key lt (Ref_Requirement rid))"
| over_edge: "e \<in> set (spec_edges sp) \<Longrightarrow> closure_edge e \<Longrightarrow> needed lt sp ids (ref_key lt (edge_from e))
    \<Longrightarrow> needed lt sp ids (ref_key lt (edge_to e))"
| by_note: "n \<in> set (spec_notes sp) \<Longrightarrow> section_touched lt sp ids (section_key (note_location n))
    \<Longrightarrow> r \<in> set (note_references n) \<Longrightarrow> r \<noteq> Ref_Unset \<Longrightarrow> needed lt sp ids (ref_key lt r)"
| by_annotation: "a \<in> set (spec_annotations sp) \<Longrightarrow> section_touched lt sp ids (section_key (ann_location a))
    \<Longrightarrow> r \<in> set (ann_references a) \<Longrightarrow> r \<noteq> Ref_Unset \<Longrightarrow> needed lt sp ids (ref_key lt r)"
| by_requirement: "needed lt sp ids (''0:'' @ rid)
    \<Longrightarrow> section_touched lt sp ids (section_key (opt_req_location (req_map sp rid)))"
| by_term: "needed lt sp ids (''1:'' @ w) \<Longrightarrow> term_map lt sp w = Some t
    \<Longrightarrow> section_touched lt sp ids (section_key (term_location t))"

lemma sections_touched:
  assumes "\<And>k. key_in st k \<Longrightarrow> needed lt sp ids k" and "s \<in> closure_sections lt sp st"
  shows "section_touched lt sp ids s"
proof -
  from assms(2) consider
      rid where "rid \<in> in_reqs st" "s = section_key (opt_req_location (req_map sp rid))"
    | w t where "w \<in> in_terms st" "term_map lt sp w = Some t" "s = section_key (term_location t)"
    by (auto simp: closure_sections_def)
  then show ?thesis
  proof cases
    case (1 rid)
    then have "needed lt sp ids (''0:'' @ rid)" by (auto intro!: assms(1) simp: key_in_def)
    with 1 show ?thesis by (simp only: by_requirement)
  next
    case (2 w t)
    then have "needed lt sp ids (''1:'' @ w)" by (auto intro!: assms(1) simp: key_in_def)
    then show ?thesis unfolding 2(3) using 2(2) by (rule by_term)
  qed
qed

lemma settle_sound:
  assumes "\<And>k. key_in st k \<Longrightarrow> needed lt sp ids k" and "\<And>r. r \<in> set q \<Longrightarrow> needed lt sp ids (ref_key lt r)"
    and "key_in (settle lt sp q st) k"
  shows "needed lt sp ids k"
  using assms
proof (induction lt sp q st rule: settle.induct)
  case (1 lt sp q st)
  let ?d = "drain lt (spec_edges sp) q st"
  have d: "needed lt sp ids j" if "key_in ?d j" for j
    using drain_least [where P = "needed lt sp ids", OF "1.prems"(1,2) over_edge that] by blast
  have new: "needed lt sp ids (ref_key lt r)" if "r \<in> set (round_refs lt sp ?d)" for r
    using that sections_touched [OF d] by (auto simp: round_refs_iff intro: by_note by_annotation)
  show ?case
  proof (cases "round_refs lt sp ?d")
    case Nil
    with "1.prems"(3) have "key_in ?d k" by (simp add: settle.simps [of lt sp q st])
    then show ?thesis by (rule d)
  next
    case (Cons n ns)
    with "1.prems"(3) have k: "key_in (settle lt sp (n # ns) ?d) k" by (simp add: settle.simps [of lt sp q st])
    show ?thesis
      by (rule "1.IH" [OF Cons d _ k]) (use new Cons in auto)
  qed
qed

lemma settle_stable:
  assumes "edges_closed lt (spec_edges sp) q st"
  shows "edges_closed lt (spec_edges sp) [] (settle lt sp q st) \<and> round_refs lt sp (settle lt sp q st) = []"
  using assms
proof (induction lt sp q st rule: settle.induct)
  case (1 lt sp q st)
  let ?d = "drain lt (spec_edges sp) q st"
  have d: "edges_closed lt (spec_edges sp) [] ?d" by (rule drain_closed) (rule "1.prems")
  show ?case
  proof (cases "round_refs lt sp ?d")
    case Nil
    with d show ?thesis by (simp add: settle.simps [of lt sp q st])
  next
    case (Cons n ns)
    from d have "edges_closed lt (spec_edges sp) (n # ns) ?d" by (auto simp: edges_closed_def)
    with "1.IH" [OF Cons] Cons show ?thesis by (simp add: settle.simps [of lt sp q st])
  qed
qed

lemma settle_keeps: "has_ref lt (drain lt (spec_edges sp) q st) r \<Longrightarrow> has_ref lt (settle lt sp q st) r"
proof (induction lt sp q st rule: settle.induct)
  case (1 lt sp q st)
  then show ?case
    by (cases "round_refs lt sp (drain lt (spec_edges sp) q st)")
      (simp_all add: settle.simps [of lt sp q st] drain_keeps del: drain.simps)
qed

lemma closure_complete:
  "needed lt sp ids k \<Longrightarrow> key_in (closure_of lt sp ids) k"
  "section_touched lt sp ids s \<Longrightarrow> s \<in> closure_sections lt sp (closure_of lt sp ids)"
proof (induction rule: needed_section_touched.inducts)
  have start: "edges_closed lt (spec_edges sp) (map Ref_Requirement ids) no_closure"
    by (auto simp: edges_closed_def has_ref_def no_closure_def split: node_ref.splits)
  have closed: "edges_closed lt (spec_edges sp) [] (closure_of lt sp ids)"
    and quiet: "round_refs lt sp (closure_of lt sp ids) = []"
    using settle_stable [OF start] by (simp_all add: closure_of_def)
  have no_fresh: "\<not> (r \<in> set (round_refs lt sp (closure_of lt sp ids)))" for r by (simp add: quiet)
  { case (asked rid)
    have "has_ref lt (closure_of lt sp ids) (Ref_Requirement rid)"
      unfolding closure_of_def by (rule settle_keeps, rule drain_queue) (use asked in simp)
    then show ?case by (simp only: has_ref_key_in) }
  { case (over_edge e)
    then have "has_ref lt (closure_of lt sp ids) (edge_from e)" by (simp only: has_ref_key_in)
    with closed over_edge have "has_ref lt (closure_of lt sp ids) (edge_to e)"
      by (auto simp: edges_closed_def)
    then show ?case by (simp only: has_ref_key_in) }
  { case (by_note n r)
    then have "has_ref lt (closure_of lt sp ids) r" using no_fresh [of r] unfolding round_refs_iff by blast
    then show ?case by (simp only: has_ref_key_in) }
  { case (by_annotation a r)
    then have "has_ref lt (closure_of lt sp ids) r" using no_fresh [of r] unfolding round_refs_iff by blast
    then show ?case by (simp only: has_ref_key_in) }
  { case (by_requirement rid)
    then have "rid \<in> in_reqs (closure_of lt sp ids)" by (auto simp: key_in_def)
    then show ?case by (auto simp: closure_sections_def) }
  { case (by_term w t)
    then have "w \<in> in_terms (closure_of lt sp ids)" by (auto simp: key_in_def)
    with by_term show ?case by (auto simp: closure_sections_def) }
qed

lemma key_in_prefix [simp]:
  "key_in st (''0:'' @ rid) \<longleftrightarrow> rid \<in> in_reqs st"
  "key_in st (''1:'' @ w) \<longleftrightarrow> w \<in> in_terms st"
  by (auto simp: key_in_def)

lemma closure_sound: "key_in (closure_of lt sp ids) k \<Longrightarrow> needed lt sp ids k"
  unfolding closure_of_def
proof (erule settle_sound [rotated 2])
  show "needed lt sp ids j" if "key_in no_closure j" for j
    using that by (simp add: key_in_def no_closure_def)
  show "needed lt sp ids (ref_key lt r)" if "r \<in> set (map Ref_Requirement ids)" for r
    using that by (auto intro: asked)
qed

lemma closure_key_iff: "key_in (closure_of lt sp ids) k \<longleftrightarrow> needed lt sp ids k"
  using closure_sound closure_complete(1) by blast

lemma closure_section_iff: "s \<in> closure_sections lt sp (closure_of lt sp ids) \<longleftrightarrow> section_touched lt sp ids s"
  using sections_touched [OF closure_sound] closure_complete(2) by blast

lemma closure_reqs_iff: "rid \<in> in_reqs (closure_of lt sp ids) \<longleftrightarrow> needed lt sp ids (''0:'' @ rid)"
  using closure_key_iff [of lt sp ids "''0:'' @ rid"] by (simp only: key_in_prefix)

lemma closure_terms_iff: "w \<in> in_terms (closure_of lt sp ids) \<longleftrightarrow> needed lt sp ids (''1:'' @ w)"
  using closure_key_iff [of lt sp ids "''1:'' @ w"] by (simp only: key_in_prefix)

text \<open>The closure is finite, so walking it visits every identity.\<close>

definition finite_state :: "closure_state \<Rightarrow> bool" where
  "finite_state st \<longleftrightarrow> finite (in_reqs st) \<and> finite (in_terms st)"

lemma finite_mark: "finite_state st \<Longrightarrow> finite_state (mark_ref lt r st)"
  by (simp add: finite_state_def mark_ref_def split: node_ref.split)

lemma finite_drain: "finite_state st \<Longrightarrow> finite_state (drain lt es q st)"
  by (induction lt es q st rule: drain.induct) (simp_all add: finite_mark)

lemma finite_settle: "finite_state st \<Longrightarrow> finite_state (settle lt sp q st)"
proof (induction lt sp q st rule: settle.induct)
  case (1 lt sp q st)
  then show ?case
    by (cases "round_refs lt sp (drain lt (spec_edges sp) q st)")
      (simp_all add: settle.simps [of lt sp q st] finite_drain del: drain.simps)
qed

lemma finite_closure: "finite_state (closure_of lt sp ids)"
  unfolding closure_of_def by (rule finite_settle) (simp add: finite_state_def no_closure_def)

lemma out_requirements_set: "finite_state st \<Longrightarrow> set (out_requirements sp st) = req_map sp ` in_reqs st"
  by (simp add: out_requirements_def finite_state_def)

lemma out_terms_set: "finite_state st \<Longrightarrow> set (out_terms lt sp st) = {t. \<exists>w \<in> in_terms st. term_map lt sp w = Some t}"
  by (auto simp: out_terms_def finite_state_def split: option.splits)

lemma out_sections:
  assumes "finite_state st"
  shows "(section_key \<circ> opt_req_location) ` set (out_requirements sp st)
      \<union> (section_key \<circ> term_location) ` set (out_terms lt sp st) = closure_sections lt sp st"
  unfolding out_requirements_set [OF assms] out_terms_set [OF assms] closure_sections_def
  by (auto simp: image_image)

lemma bundle_fields:
  assumes "finite_state st"
  shows "set (bd_requirements (bundle_of lt sp st)) = req_map sp ` in_reqs st"
    and "set (bd_terms (bundle_of lt sp st)) = {t. \<exists>w \<in> in_terms st. term_map lt sp w = Some t}"
    and "bd_notes (bundle_of lt sp st)
      = filter (\<lambda>n. section_key (note_location n) \<in> closure_sections lt sp st) (spec_notes sp)"
    and "bd_annotations (bundle_of lt sp st)
      = filter (\<lambda>a. section_key (ann_location a) \<in> closure_sections lt sp st) (spec_annotations sp)"
    and "bd_edges (bundle_of lt sp st)
      = filter (\<lambda>e. key_in st (ref_key lt (edge_from e)) \<and> key_in st (ref_key lt (edge_to e))) (spec_edges sp)"
  unfolding bundle_of_def Let_def out_sections [OF assms]
  by (simp_all add: out_requirements_set [OF assms] out_terms_set [OF assms] has_ref_key_in [of lt st])

lemma compute_Inr:
  "compute lt sp ids = Inr b \<longleftrightarrow> list_all (\<lambda>rid. req_map sp rid \<noteq> None) ids \<and> b = bundle_of lt sp (closure_of lt sp ids)"
  by (auto simp: compute_def filter_empty_conv list_all_iff split: list.splits dest: arg_cong [where f = set])

lemma compute_Inl:
  assumes "compute lt sp ids = Inl m"
  shows "\<exists>rid. rid \<in> set ids \<and> req_map sp rid = None \<and> m = unknown_requirement rid"
proof -
  from assms obtain rid rs where f: "filter (\<lambda>rid. req_map sp rid = None) ids = rid # rs"
    and m: "m = unknown_requirement rid"
    by (auto simp: compute_def split: list.splits)
  from f have "rid \<in> set (filter (\<lambda>rid. req_map sp rid = None) ids)" by simp
  with m show ?thesis by auto
qed

text \<open>C40: a bundle is exactly the closure. An unknown identifier is an error naming a
  requested identifier the corpus does not have. Otherwise the requirements are those of
  the needed identifiers, the terms those of the needed names the corpus defines, the
  notes and annotations are those of section_touched sections, in corpus order, and the edges
  those between needed identities - needed and section_touched being the least fixed point over
  the closure edges and the references of notes and annotations.\<close>

theorem bundle_exact:
  "case compute lt sp ids of
     Inl m \<Rightarrow> \<exists>rid. rid \<in> set ids \<and> req_map sp rid = None \<and> m = unknown_requirement rid
   | Inr b \<Rightarrow>
       list_all (\<lambda>rid. req_map sp rid \<noteq> None) ids
       \<and> set (bd_requirements b) = req_map sp ` {rid. needed lt sp ids (''0:'' @ rid)}
       \<and> set (bd_terms b) = {t. \<exists>w. needed lt sp ids (''1:'' @ w) \<and> term_map lt sp w = Some t}
       \<and> bd_notes b = filter (\<lambda>n. section_touched lt sp ids (section_key (note_location n))) (spec_notes sp)
       \<and> bd_annotations b = filter (\<lambda>a. section_touched lt sp ids (section_key (ann_location a))) (spec_annotations sp)
       \<and> bd_edges b = filter (\<lambda>e. needed lt sp ids (ref_key lt (edge_from e)) \<and> needed lt sp ids (ref_key lt (edge_to e)))
            (spec_edges sp)"
proof (cases "compute lt sp ids")
  case (Inl m)
  then show ?thesis using compute_Inl by simp
next
  case (Inr b)
  then have ids: "list_all (\<lambda>rid. req_map sp rid \<noteq> None) ids" and b: "b = bundle_of lt sp (closure_of lt sp ids)"
    unfolding compute_Inr by blast+
  have reqs: "in_reqs (closure_of lt sp ids) = {rid. needed lt sp ids (''0:'' @ rid)}"
    by (rule set_eqI) (simp only: closure_reqs_iff mem_Collect_eq)
  show ?thesis
    unfolding Inr b sum.case bundle_fields [OF finite_closure] reqs Bex_def
    by (simp only: ids closure_terms_iff closure_section_iff closure_key_iff simp_thms)
qed

section \<open>Self-containedness\<close>

definition ref_resolves :: "(nat \<Rightarrow> nat) \<Rightarrow> spec \<Rightarrow> node_ref \<Rightarrow> bool" where
  "ref_resolves lt sp r =
     (case r of Ref_Requirement rid \<Rightarrow> req_map sp rid \<noteq> None
      | Ref_Term n \<Rightarrow> term_map lt sp (go_lower lt n) \<noteq> None
      | Ref_Unset \<Rightarrow> False)"

text \<open>
  What the compiler promises of a corpus: every reference of a note or annotation and both
  ends of every closure edge resolve. A supersedes edge may name a tombstoned source.
\<close>

definition resolved :: "(nat \<Rightarrow> nat) \<Rightarrow> spec \<Rightarrow> bool" where
  "resolved lt sp \<longleftrightarrow>
     list_all (\<lambda>e. edge_from e \<noteq> Ref_Unset \<and> edge_to e \<noteq> Ref_Unset
        \<and> (closure_edge e \<longrightarrow> ref_resolves lt sp (edge_from e) \<and> ref_resolves lt sp (edge_to e))) (spec_edges sp)
     \<and> list_all (\<lambda>n. list_all (ref_resolves lt sp) (note_references n)) (spec_notes sp)
     \<and> list_all (\<lambda>a. list_all (ref_resolves lt sp) (ann_references a)) (spec_annotations sp)"

definition bundle_resolves :: "(nat \<Rightarrow> nat) \<Rightarrow> spec_bundle \<Rightarrow> node_ref \<Rightarrow> bool" where
  "bundle_resolves lt b r =
     (case r of Ref_Requirement rid \<Rightarrow> list_ex (\<lambda>q. q \<noteq> None \<and> opt_req_id q = rid) (bd_requirements b)
      | Ref_Term n \<Rightarrow> list_ex (\<lambda>t. go_lower lt (term_name t) = go_lower lt n) (bd_terms b)
      | Ref_Unset \<Rightarrow> False)"

definition self_contained :: "(nat \<Rightarrow> nat) \<Rightarrow> spec \<Rightarrow> spec_bundle \<Rightarrow> bool" where
  "self_contained lt sp b \<longleftrightarrow>
     None \<notin> set (bd_requirements b)
     \<and> list_all (\<lambda>n. list_all (bundle_resolves lt b) (note_references n)) (bd_notes b)
     \<and> list_all (\<lambda>a. list_all (bundle_resolves lt b) (ann_references a)) (bd_annotations b)
     \<and> list_all (\<lambda>e. bundle_resolves lt b (edge_from e) \<and> bundle_resolves lt b (edge_to e)) (bd_edges b)
     \<and> list_all (\<lambda>e. closure_edge e \<longrightarrow> bundle_resolves lt b (edge_from e) \<longrightarrow> bundle_resolves lt b (edge_to e))
         (spec_edges sp)"

lemma last_map_key: "last_map key xs k = Some x \<Longrightarrow> key x = k"
proof -
  have "fold (\<lambda>x m. m(key x \<mapsto> x)) xs m k = Some x \<Longrightarrow> m k = Some x \<or> key x = k" for m
    by (induction xs arbitrary: m) (fastforce split: if_splits)+
  then show "last_map key xs k = Some x \<Longrightarrow> key x = k" by (auto simp: last_map_def)
qed

lemma req_map_key: "req_map sp k = Some r \<Longrightarrow> req_id r = k"
  unfolding req_map_def by (rule last_map_key)

lemma term_map_key: "term_map lt sp k = Some t \<Longrightarrow> go_lower lt (term_name t) = k"
  unfolding term_map_def using last_map_key [of "term_key lt"] by (simp add: term_key_def)

lemma ref_resolves_key: "ref_key lt r = ref_key lt r' \<Longrightarrow> r' \<noteq> Ref_Unset \<Longrightarrow> ref_resolves lt sp r \<Longrightarrow> ref_resolves lt sp r'"
  by (cases r; cases r') (auto simp: ref_key_def ref_resolves_def)

lemma needed_resolves:
  assumes "resolved lt sp" and "list_all (\<lambda>rid. req_map sp rid \<noteq> None) ids"
  shows "needed lt sp ids k \<Longrightarrow> k = ref_key lt r \<Longrightarrow> r \<noteq> Ref_Unset \<Longrightarrow> ref_resolves lt sp r"
    and "section_touched lt sp ids s \<Longrightarrow> True"
proof (induction arbitrary: r rule: needed_section_touched.inducts)
  case (asked q)
  then have "ref_resolves lt sp (Ref_Requirement q)" using assms(2) by (simp add: ref_resolves_def list_all_iff)
  with asked.prems show ?case using ref_resolves_key by blast
next
  case (over_edge e)
  then have "ref_resolves lt sp (edge_to e)" using assms(1) by (simp add: resolved_def list_all_iff)
  with over_edge.prems show ?case using ref_resolves_key by blast
next
  case (by_note n q)
  then have "ref_resolves lt sp q" using assms(1) by (simp add: resolved_def list_all_iff)
  with by_note.prems show ?case using ref_resolves_key by blast
next
  case (by_annotation a q)
  then have "ref_resolves lt sp q" using assms(1) by (simp add: resolved_def list_all_iff)
  with by_annotation.prems show ?case using ref_resolves_key by blast
qed simp_all

lemma bundle_resolves_iff:
  assumes fin: "finite_state st" and res: "ref_resolves lt sp r"
  shows "bundle_resolves lt (bundle_of lt sp st) r \<longleftrightarrow> key_in st (ref_key lt r)"
proof (cases r)
  case Ref_Unset
  with res show ?thesis by (simp add: ref_resolves_def)
next
  case (Ref_Requirement rid)
  from res Ref_Requirement obtain q where q: "req_map sp rid = Some q" by (auto simp: ref_resolves_def)
  have "bundle_resolves lt (bundle_of lt sp st) r \<longleftrightarrow> (\<exists>i \<in> in_reqs st. req_map sp i \<noteq> None \<and> opt_req_id (req_map sp i) = rid)"
    unfolding Ref_Requirement bundle_resolves_def by (simp add: list_ex_iff bundle_fields [OF fin])
  also have "\<dots> \<longleftrightarrow> rid \<in> in_reqs st" using q req_map_key by fastforce
  also have "\<dots> \<longleftrightarrow> key_in st (ref_key lt r)" by (simp add: Ref_Requirement ref_key_def key_in_def)
  finally show ?thesis .
next
  case (Ref_Term n)
  from res Ref_Term obtain t where t: "term_map lt sp (go_lower lt n) = Some t" by (auto simp: ref_resolves_def)
  have "bundle_resolves lt (bundle_of lt sp st) r
      \<longleftrightarrow> (\<exists>t. (\<exists>w \<in> in_terms st. term_map lt sp w = Some t) \<and> go_lower lt (term_name t) = go_lower lt n)"
    unfolding Ref_Term bundle_resolves_def by (simp add: list_ex_iff bundle_fields [OF fin])
  also have "\<dots> \<longleftrightarrow> go_lower lt n \<in> in_terms st" using t term_map_key by metis
  also have "\<dots> \<longleftrightarrow> key_in st (ref_key lt r)" by (simp add: Ref_Term ref_key_def key_in_def)
  finally show ?thesis .
qed

lemma no_nil_requirement:
  assumes "resolved lt sp" and "list_all (\<lambda>rid. req_map sp rid \<noteq> None) ids"
  shows "None \<notin> set (bd_requirements (bundle_of lt sp (closure_of lt sp ids)))"
proof
  assume "None \<in> set (bd_requirements (bundle_of lt sp (closure_of lt sp ids)))"
  then obtain rid where "rid \<in> in_reqs (closure_of lt sp ids)" and none: "req_map sp rid = None"
    unfolding bundle_fields(1) [OF finite_closure] by (metis imageE)
  then have "needed lt sp ids (ref_key lt (Ref_Requirement rid))" by (simp add: closure_reqs_iff ref_key_def)
  from needed_resolves(1) [OF assms this refl] none show False by (simp add: ref_resolves_def)
qed

lemma computed_self_contained:
  assumes res: "resolved lt sp"
  shows "case compute lt sp ids of Inl _ \<Rightarrow> True | Inr b \<Rightarrow> self_contained lt sp b"
proof (cases "compute lt sp ids")
  case (Inl m)
  then show ?thesis by simp
next
  case (Inr b)
  let ?st = "closure_of lt sp ids"
  from Inr have ids: "list_all (\<lambda>rid. req_map sp rid \<noteq> None) ids" and b: "b = bundle_of lt sp ?st"
    unfolding compute_Inr by blast+
  note fields = bundle_fields [of _ lt sp, OF finite_closure [of lt sp ids], folded b, unfolded closure_key_iff closure_section_iff]
  have iff: "bundle_resolves lt b r \<longleftrightarrow> needed lt sp ids (ref_key lt r)" if "ref_resolves lt sp r" for r
    using bundle_resolves_iff [OF finite_closure [of lt sp ids] that] by (simp only: b closure_key_iff)
  have set_ends: "edge_from e \<noteq> Ref_Unset" "edge_to e \<noteq> Ref_Unset" if "e \<in> set (spec_edges sp)" for e
    using res that by (simp_all add: resolved_def list_all_iff)
  have edge: "ref_resolves lt sp (edge_from e)" "ref_resolves lt sp (edge_to e)"
    if "e \<in> set (spec_edges sp)" "closure_edge e" for e
    using res that by (simp_all add: resolved_def list_all_iff)
  have note_ref: "bundle_resolves lt b r"
    if "n \<in> set (spec_notes sp)" "section_touched lt sp ids (section_key (note_location n))" "r \<in> set (note_references n)" for n r
  proof -
    have r: "ref_resolves lt sp r" using res that(1,3) by (auto simp: resolved_def list_all_iff)
    then have "r \<noteq> Ref_Unset" by (auto simp: ref_resolves_def)
    with that have "needed lt sp ids (ref_key lt r)" by (rule by_note)
    with iff [OF r] show ?thesis by simp
  qed
  have ann_ref: "bundle_resolves lt b r"
    if "a \<in> set (spec_annotations sp)" "section_touched lt sp ids (section_key (ann_location a))" "r \<in> set (ann_references a)" for a r
  proof -
    have r: "ref_resolves lt sp r" using res that(1,3) by (auto simp: resolved_def list_all_iff)
    then have "r \<noteq> Ref_Unset" by (auto simp: ref_resolves_def)
    with that have "needed lt sp ids (ref_key lt r)" by (rule by_annotation)
    with iff [OF r] show ?thesis by simp
  qed
  have out: "bundle_resolves lt b (edge_to e)"
    if "e \<in> set (spec_edges sp)" "closure_edge e" "bundle_resolves lt b (edge_from e)" for e
    using that over_edge [of e sp lt ids] iff [OF edge(1) [of e]] iff [OF edge(2) [of e]] by simp
  have reached: "bundle_resolves lt b r" if "needed lt sp ids (ref_key lt r)" "r \<noteq> Ref_Unset" for r
    using iff [OF needed_resolves(1) [OF res ids that(1) refl that(2)]] that(1) by simp
  have none: "None \<notin> set (bd_requirements b)"
    by (rule no_nil_requirement [OF res ids, folded b])
  have ends: "bundle_resolves lt b (edge_from e) \<and> bundle_resolves lt b (edge_to e)"
    if "e \<in> set (spec_edges sp)" "needed lt sp ids (ref_key lt (edge_from e))"
      "needed lt sp ids (ref_key lt (edge_to e))" for e
    using that reached set_ends by simp
  show ?thesis
    unfolding Inr sum.case self_contained_def list_all_iff fields(3-5)
    using none note_ref ann_ref out ends by auto
qed

text \<open>Self-containedness, the contract of the package. Over a corpus in which the
  references of notes, annotations and closure edges resolve, a computed bundle holds no nil requirement, every reference of its
  notes and annotations and both ends of its edges resolve within it, and no closure edge
  of the corpus leads out of it.\<close>

theorem bundle_self_contained:
  assumes res: "resolved lt sp"
  shows "case compute lt sp ids of Inl _ \<Rightarrow> True | Inr b \<Rightarrow> self_contained lt sp b"
  using res by (rule computed_self_contained)

text \<open>A small corpus: one requirement uses a term, whose section's note refers to another.\<close>

definition bundle_place :: "string \<Rightarrow> location" where
  "bundle_place s = \<lparr>loc_document = ''docs/spec.md'', loc_section_path = [s], loc_line = 1\<rparr>"

definition bundle_req :: "string \<Rightarrow> string \<Rightarrow> requirement" where
  "bundle_req rid s =
     \<lparr>req_id = rid, req_kind = CK_BEHAVIOR, req_keyword = KW_MUST, req_text = [], req_content_hash = ''h'',
      req_source = [], req_source_hash = [], req_location = bundle_place s, req_clauses = [], req_pointers = []\<rparr>"

definition bundle_sample :: spec where
  "bundle_sample =
     \<lparr>spec_requirements = [bundle_req ''REQ-a'' ''A'', bundle_req ''REQ-b'' ''B'', bundle_req ''REQ-c'' ''C''],
      spec_terms = [\<lparr>term_name = ''Gap'', term_text = [], term_content_hash = ''t'', term_source = [],
                     term_location = bundle_place ''T''\<rparr>],
      spec_notes = [\<lparr>note_text = [], note_source = [], note_attached_to = Ref_Unset,
                     note_references = [Ref_Requirement ''REQ-b''], note_location = bundle_place ''T''\<rparr>],
      spec_annotations = [],
      spec_edges = [\<lparr>edge_from = Ref_Requirement ''REQ-a'', edge_to = Ref_Term ''gap'', edge_knd = EK_USES_TERM\<rparr>],
      spec_documents = []\<rparr>"

theorem bundle_self_contained_witness:
  "resolved id bundle_sample
   \<and> compute id bundle_sample [''REQ-a''] = Inr (bundle_of id bundle_sample (closure_of id bundle_sample [''REQ-a'']))
   \<and> self_contained id bundle_sample (bundle_of id bundle_sample (closure_of id bundle_sample [''REQ-a'']))"
proof -
  have res: "resolved id bundle_sample" by code_simp
  have known: "list_all (\<lambda>rid. req_map bundle_sample rid \<noteq> None) [''REQ-a'']" by code_simp
  then have "compute id bundle_sample [''REQ-a'']
      = Inr (bundle_of id bundle_sample (closure_of id bundle_sample [''REQ-a'']))"
    by (simp only: compute_Inr)
  with res bundle_self_contained [OF res, of "[''REQ-a'']"] show ?thesis by simp
qed

text \<open>A bundle can print an identifier that does not resolve in it: the closure does not follow a
  supersedes edge, and the source of the successor names the target, here one of the corpus. The
  references of notes and annotations and the closure edges of this corpus all resolve.\<close>

definition superseding_sample :: spec where
  "superseding_sample =
     \<lparr>spec_requirements = [(bundle_req ''REQ-new'' ''A'')
          \<lparr>req_source := ''**REQ-new** (behavior, supersedes REQ-old): It MUST hold.''\<rparr>,
        bundle_req ''REQ-old'' ''B''],
      spec_terms = [], spec_notes = [], spec_annotations = [],
      spec_edges = [\<lparr>edge_from = Ref_Requirement ''REQ-new'', edge_to = Ref_Requirement ''REQ-old'',
                     edge_knd = EK_SUPERSEDES\<rparr>],
      spec_documents = []\<rparr>"

lemma superseding_needed: "needed id superseding_sample [''REQ-new''] k \<Longrightarrow> k = ''0:REQ-new''"
proof (induction "k" rule: needed_section_touched.inducts(1) [where ?P2.0 = "\<lambda>_. True"])
  case (over_edge e)
  then show ?case by (simp add: superseding_sample_def closure_edge_def)
qed (simp_all add: superseding_sample_def ref_key_def)

lemma superseded_not_bundled:
  "resolved id superseding_sample
   \<and> (case compute id superseding_sample [''REQ-new''] of
        Inl _ \<Rightarrow> False
      | Inr b \<Rightarrow>
          (\<exists>q. Some q \<in> set (bd_requirements b)
             \<and> req_source q = ''**REQ-new** (behavior, supersedes REQ-old): It MUST hold.'')
          \<and> \<not> bundle_resolves id b (Ref_Requirement ''REQ-old''))"
proof -
  let ?st = "closure_of id superseding_sample [''REQ-new'']"
  have res: "resolved id superseding_sample" "ref_resolves id superseding_sample (Ref_Requirement ''REQ-old'')"
    by code_simp+
  have known: "list_all (\<lambda>rid. req_map superseding_sample rid \<noteq> None) [''REQ-new'']" by code_simp
  then have c: "compute id superseding_sample [''REQ-new''] = Inr (bundle_of id superseding_sample ?st)"
    by (simp only: compute_Inr)
  have "\<not> bundle_resolves id (bundle_of id superseding_sample ?st) (Ref_Requirement ''REQ-old'')"
    unfolding bundle_resolves_iff [OF finite_closure res(2)] closure_key_iff
    by (auto simp: ref_key_def dest: superseding_needed)
  moreover have "''REQ-new'' \<in> in_reqs ?st"
    using needed_section_touched.asked [of "''REQ-new''" "[''REQ-new'']" id superseding_sample]
    by (simp add: closure_reqs_iff ref_key_def)
  then have "req_map superseding_sample ''REQ-new'' \<in> set (bd_requirements (bundle_of id superseding_sample ?st))"
    unfolding bundle_fields [OF finite_closure] by blast
  moreover have "req_map superseding_sample ''REQ-new''
      = Some ((bundle_req ''REQ-new'' ''A'')\<lparr>req_source := ''**REQ-new** (behavior, supersedes REQ-old): It MUST hold.''\<rparr>)"
    by code_simp
  moreover have "req_source ((bundle_req ''REQ-new'' ''A'')
      \<lparr>req_source := ''**REQ-new** (behavior, supersedes REQ-old): It MUST hold.''\<rparr>)
      = ''**REQ-new** (behavior, supersedes REQ-old): It MUST hold.''" by simp
  ultimately show ?thesis unfolding c sum.case using res(1) by metis
qed

section \<open>The rendering\<close>

lemma context_fold:
  "fold (context_step lt req) qs (sb, rest) =
     (let out = filter (\<lambda>q. opt_req_id q \<notin> req) qs in
      (sb @ (if rest \<or> out = [] then [] else context_heading) @ concat (map (emit_requirement lt) out),
       rest \<or> out \<noteq> []))"
  by (induction qs arbitrary: sb rest) (auto simp: context_step_def Let_def)

lemma markdown_requirements:
  "markdown lt b requested =
     ''# Spec bundle'' @ nl @ nl
     @ ''Self-contained: every identifier and term below resolves within this document.'' @ nl
     @ nl @ ''## Requested requirements'' @ nl
     @ concat (map (emit_requirement lt) (filter (\<lambda>q. opt_req_id q \<in> set requested) (bd_requirements b)))
     @ (if filter (\<lambda>q. opt_req_id q \<notin> set requested) (bd_requirements b) = [] then [] else context_heading)
     @ concat (map (emit_requirement lt) (filter (\<lambda>q. opt_req_id q \<notin> set requested) (bd_requirements b)))
     @ (if bd_terms b \<noteq> [] then nl @ ''## Terms'' @ nl @ concat (map (source_block \<circ> term_source) (bd_terms b)) else [])
     @ (if bd_notes b \<noteq> [] \<or> bd_annotations b \<noteq> []
        then nl @ ''## Context notes'' @ nl @ concat (map (source_block \<circ> note_source) (bd_notes b))
             @ concat (map (source_block \<circ> ann_source) (bd_annotations b))
        else [])"
  by (simp add: markdown_def Let_def context_fold)

end
