(* ===== verification/Compile.thy ===== *)
theory Compile
  imports Detect Bundle
begin

text \<open>
  The compiler of \<open>internal/compile/compile.go\<close>: corpus-wide resolution of the extracted
  documents into the compiled corpus, with its diagnostics. A document is what
  \<open>extractDocument\<close> builds from the third-party syntax tree. A block is identified by its
  position, the pair of its document's index and its own, where the code compares
  pointers. The parameters are the Unicode tables (\<open>tbl\<close>, \<open>lt\<close>, \<open>uni\<close>), the
  normalization \<open>nfc\<close> and the digest \<open>sha\<close>.
\<close>

section \<open>Diagnostics\<close>

record diagnostic =
  dg_document :: string
  dg_line :: int
  dg_message :: string
  dg_warning :: bool
  dg_remedy :: bool

definition diagnostic_string :: "diagnostic \<Rightarrow> string" where
  "diagnostic_string d =
     (let at = dg_document d @ '':'' @ format_int (dg_line d) @ '': '' in
      if dg_warning d then at @ ''warning: '' @ dg_message d
      else if dg_remedy d then at @ ''remedy: '' @ dg_message d
      else at @ dg_message d)"

definition diag_errors :: "diagnostic list \<Rightarrow> diagnostic list" where
  "diag_errors ds = filter (\<lambda>d. \<not> dg_warning d \<and> \<not> dg_remedy d) ds"

definition refusal :: "diagnostic list \<Rightarrow> string" where
  "refusal ds =
     (case diag_errors ds of
        [] \<Rightarrow> []
      | e # es \<Rightarrow>
          diagnostic_string e
          @ (if es \<noteq> [] then '' (and '' @ format_uint (length es) @ '' more)'' else [])
          @ concat (map (\<lambda>d. ''; remedy: '' @ dg_message d) (filter dg_remedy ds)))"

definition faults :: "diagnostic list \<Rightarrow> diagnostic list" where
  "faults ds = (if diag_errors ds = [] then [] else filter (\<lambda>d. \<not> dg_warning d) ds)"

section \<open>Extracted documents\<close>

record clause_block =
  cb_label :: string
  cb_segs :: "seg list"
  cb_loc :: location

record req_block =
  rb_segs :: "seg list"
  rb_source :: string
  rb_loc :: location
  rb_id :: string
  rb_kind :: string
  rb_edges :: "(string \<times> string list) list"
  rb_extent_segs :: "seg list list"
  rb_extent_source :: "string list"
  rb_clauses :: "clause_block list"
  rb_pointers :: "pointer list"

record term_block =
  tb_segs :: "seg list"
  tb_source :: string
  tb_loc :: location
  tb_name :: string
  tb_extent_segs :: "seg list list"

record context_block =
  xb_segs :: "seg list"
  xb_source :: string
  xb_loc :: location
  xb_note :: bool
  xb_attached :: node_ref

record heading_block =
  hb_segs :: "seg list"
  hb_loc :: location

record document =
  doc_path :: string
  doc_ref_labels :: "string list"
  doc_title :: string
  doc_sections :: "doc_section list"
  doc_reqs :: "req_block list"
  doc_terms :: "term_block list"
  doc_contexts :: "context_block list"
  doc_headings :: "heading_block list"

section \<open>Tables\<close>

definition clause_kind_of :: "string \<Rightarrow> clause_kind" where
  "clause_kind_of s =
     (if s = ''behavior'' then CK_BEHAVIOR else if s = ''invariant'' then CK_INVARIANT
      else if s = ''structural'' then CK_STRUCTURAL else if s = ''wire'' then CK_WIRE else CK_UNSPECIFIED)"

definition edge_kind_of :: "string \<Rightarrow> edge_kind" where
  "edge_kind_of s =
     (if s = ''refines'' then EK_REFINES else if s = ''depends'' then EK_DEPENDS
      else if s = ''supersedes'' then EK_SUPERSEDES else EK_UNSPECIFIED)"

definition keyword_of :: "string \<Rightarrow> keyword" where
  "keyword_of s =
     (if s = ''MUST'' then KW_MUST else if s = ''MUST NOT'' then KW_MUST_NOT
      else if s = ''SHOULD'' then KW_SHOULD else if s = ''SHOULD NOT'' then KW_SHOULD_NOT
      else if s = ''MAY'' then KW_MAY else KW_UNSPECIFIED)"

fun edge_kind_number :: "edge_kind \<Rightarrow> int" where
  "edge_kind_number EK_UNSPECIFIED = 0"
| "edge_kind_number EK_REFERENCE = 1"
| "edge_kind_number EK_USES_TERM = 2"
| "edge_kind_number EK_REFINES = 3"
| "edge_kind_number EK_DEPENDS = 4"
| "edge_kind_number EK_SUPERSEDES = 5"
| "edge_kind_number (EK_NUM n) = n"

definition keyword_remedy :: "nat \<Rightarrow> string" where
  "keyword_remedy n =
     (if n = 0
      then ''state the obligation with one of MUST, MUST NOT, SHOULD, SHOULD NOT, MAY, or demote the paragraph to prose by dropping its lead''
      else ''split the clauses into their own requirements, or coordinate them under one keyword'')"

definition was_or_were :: "string list \<Rightarrow> string" where
  "was_or_were sources =
     (if length sources = 1 then hd sources @ '' was'' else join sources '', '' @ '' were'')"

section \<open>Identities\<close>

type_synonym pos = "nat \<times> nat"

record identities =
  id_reqs :: "string \<rightharpoonup> pos \<times> req_block"
  id_terms :: "string \<rightharpoonup> pos \<times> term_block"
  id_diags :: "diagnostic list"

definition error_at :: "location \<Rightarrow> string \<Rightarrow> diagnostic" where
  "error_at loc msg = \<lparr>dg_document = loc_document loc, dg_line = loc_line loc, dg_message = msg,
     dg_warning = False, dg_remedy = False\<rparr>"

definition remedy_at :: "location \<Rightarrow> string \<Rightarrow> diagnostic" where
  "remedy_at loc msg = (error_at loc msg)\<lparr>dg_remedy := True\<rparr>"

definition warning_at :: "location \<Rightarrow> string \<Rightarrow> diagnostic" where
  "warning_at loc msg = (error_at loc msg)\<lparr>dg_warning := True\<rparr>"

definition declared_at :: "location \<Rightarrow> string" where
  "declared_at loc = '', first declared at '' @ loc_document loc @ '':'' @ format_int (loc_line loc)"

definition register_req ::
  "(nat \<Rightarrow> nat) \<Rightarrow> string set \<Rightarrow> nat \<Rightarrow> nat \<times> req_block \<Rightarrow> identities \<Rightarrow> identities" where
  "register_req lt tombs di ib ids =
     (let r = snd ib; say = (\<lambda>m. ids\<lparr>id_diags := id_diags ids @ [error_at (rb_loc r) m]\<rparr>) in
      case id_reqs ids (rb_id r) of
        Some prev \<Rightarrow> say (''duplicate requirement '' @ rb_id r @ declared_at (rb_loc (snd prev)))
      | None \<Rightarrow>
          if go_lower lt (rb_id r) \<in> tombs
          then say (''requirement '' @ rb_id r @ '' redeclares a tombstoned identity'')
          else ids\<lparr>id_reqs := (id_reqs ids)(rb_id r \<mapsto> ((di, fst ib), r))\<rparr>)"

definition register_term ::
  "(nat \<Rightarrow> bool) \<Rightarrow> (nat \<Rightarrow> nat) \<Rightarrow> string set \<Rightarrow> nat \<Rightarrow> nat \<times> term_block \<Rightarrow> identities \<Rightarrow> identities" where
  "register_term tbl lt tombs di ib ids =
     (let t = snd ib; key = go_lower lt (tb_name t);
          say = (\<lambda>m. ids\<lparr>id_diags := id_diags ids @ [error_at (tb_loc t) m]\<rparr>) in
      case id_terms ids key of
        Some prev \<Rightarrow> say (''duplicate term '' @ quote tbl (tb_name t) @ declared_at (tb_loc (snd prev)))
      | None \<Rightarrow>
          if key \<in> tombs then say (''term '' @ quote tbl (tb_name t) @ '' redeclares a tombstoned identity'')
          else ids\<lparr>id_terms := (id_terms ids)(key \<mapsto> ((di, fst ib), t))\<rparr>)"

definition register_doc ::
  "(nat \<Rightarrow> bool) \<Rightarrow> (nat \<Rightarrow> nat) \<Rightarrow> string set \<Rightarrow> nat \<times> document \<Rightarrow> identities \<Rightarrow> identities" where
  "register_doc tbl lt tombs dd ids =
     fold (register_term tbl lt tombs (fst dd)) (enumerate 0 (doc_terms (snd dd)))
       (fold (register_req lt tombs (fst dd)) (enumerate 0 (doc_reqs (snd dd))) ids)"

definition no_identities :: identities where
  "no_identities = \<lparr>id_reqs = Map.empty, id_terms = Map.empty, id_diags = []\<rparr>"

definition register :: "(nat \<Rightarrow> bool) \<Rightarrow> (nat \<Rightarrow> nat) \<Rightarrow> string set \<Rightarrow> document list \<Rightarrow> identities" where
  "register tbl lt tombs docs = fold (register_doc tbl lt tombs) (enumerate 0 docs) no_identities"

text \<open>The blocks that carry their identity: the pointer comparison of the later walks.\<close>

definition owns_req :: "identities \<Rightarrow> nat \<Rightarrow> nat \<times> req_block \<Rightarrow> bool" where
  "owns_req ids di ib \<longleftrightarrow> map_option fst (id_reqs ids (rb_id (snd ib))) = Some (di, fst ib)"

definition owns_term :: "(nat \<Rightarrow> nat) \<Rightarrow> identities \<Rightarrow> nat \<Rightarrow> nat \<times> term_block \<Rightarrow> bool" where
  "owns_term lt ids di ib \<longleftrightarrow> map_option fst (id_terms ids (go_lower lt (tb_name (snd ib)))) = Some (di, fst ib)"

definition own_reqs :: "identities \<Rightarrow> nat \<times> document \<Rightarrow> req_block list" where
  "own_reqs ids dd = map snd (filter (owns_req ids (fst dd)) (enumerate 0 (doc_reqs (snd dd))))"

definition own_terms :: "(nat \<Rightarrow> nat) \<Rightarrow> identities \<Rightarrow> nat \<times> document \<Rightarrow> term_block list" where
  "own_terms lt ids dd = map snd (filter (owns_term lt ids (fst dd)) (enumerate 0 (doc_terms (snd dd))))"

definition in_corpus :: "identities \<Rightarrow> string \<Rightarrow> bool" where
  "in_corpus ids rid \<longleftrightarrow> id_reqs ids rid \<noteq> None"

section \<open>Supersede components\<close>

text \<open>Every dangling supersedes declaration, as the pair of its successor and its source.\<close>

definition dangling_pairs :: "(nat \<Rightarrow> nat) \<Rightarrow> string set \<Rightarrow> identities \<Rightarrow> document list \<Rightarrow> (string \<times> string) list" where
  "dangling_pairs lt tombs ids docs =
     concat (map (\<lambda>dd. concat (map (\<lambda>r. concat (map (\<lambda>(kind, targets).
         if edge_kind_of kind \<noteq> EK_SUPERSEDES then []
         else map (\<lambda>t. (rb_id r, t)) (filter (\<lambda>t. \<not> in_corpus ids t \<and> go_lower lt t \<notin> tombs) targets))
       (rb_edges r))) (own_reqs ids dd))) (enumerate 0 docs))"

definition declared_by :: "(string \<times> string) list \<Rightarrow> string \<Rightarrow> string list" where
  "declared_by ps s = map fst (filter (\<lambda>p. snd p = s) ps)"

definition declares :: "(string \<times> string) list \<Rightarrow> string \<Rightarrow> string list" where
  "declares ps u = map snd (filter (\<lambda>p. fst p = u) ps)"

record component_state =
  cs_sources :: "string list"
  cs_successors :: "string list"
  cs_queue :: "string list"

definition join_source :: "string \<Rightarrow> component_state \<Rightarrow> component_state" where
  "join_source s st =
     (if s \<in> set (cs_sources st) then st
      else st\<lparr>cs_sources := cs_sources st @ [s], cs_queue := cs_queue st @ [s]\<rparr>)"

definition join_successor :: "(string \<times> string) list \<Rightarrow> string \<Rightarrow> component_state \<Rightarrow> component_state" where
  "join_successor ps u st =
     (if u \<in> set (cs_successors st) then st
      else fold join_source (declares ps u) (st\<lparr>cs_successors := cs_successors st @ [u]\<rparr>))"

text \<open>One round takes the head of the queue; a source is queued when it joins, so once.\<close>

definition component_round :: "(string \<times> string) list \<Rightarrow> component_state \<Rightarrow> component_state" where
  "component_round ps st =
     (case cs_queue st of [] \<Rightarrow> st
      | s # q \<Rightarrow> fold (join_successor ps) (declared_by ps s) (st\<lparr>cs_queue := q\<rparr>))"

text \<open>What a round uses up: the targets still to join count twice, the queue once.\<close>

definition component_work :: "(string \<times> string) list \<Rightarrow> component_state \<Rightarrow> nat" where
  "component_work ps st = 2 * card (snd ` set ps - set (cs_sources st)) + length (cs_queue st)"

lemma join_source_work: "s \<in> snd ` set ps \<Longrightarrow> component_work ps (join_source s st) \<le> component_work ps st"
proof (cases "s \<in> set (cs_sources st)")
  case False
  assume s: "s \<in> snd ` set ps"
  have "card (snd ` set ps - set (cs_sources st) - {s}) < card (snd ` set ps - set (cs_sources st))"
    by (rule card_Diff1_less) (use s False in auto)
  moreover have "snd ` set ps - insert s (set (cs_sources st)) = snd ` set ps - set (cs_sources st) - {s}" by auto
  ultimately show ?thesis using False by (simp add: component_work_def join_source_def)
qed (simp add: join_source_def)

lemma fold_join_source_work:
  "set ss \<subseteq> snd ` set ps \<Longrightarrow> component_work ps (fold join_source ss st) \<le> component_work ps st"
proof (induction ss arbitrary: st)
  case (Cons s ss)
  then have "component_work ps (fold join_source ss (join_source s st)) \<le> component_work ps (join_source s st)" by simp
  also have "\<dots> \<le> component_work ps st" using Cons.prems by (intro join_source_work) simp
  finally show ?case by simp
qed simp

lemma declares_targets: "set (declares ps u) \<subseteq> snd ` set ps"
  by (auto simp: declares_def)

lemma join_successor_work: "component_work ps (join_successor ps u st) \<le> component_work ps st"
proof (cases "u \<in> set (cs_successors st)")
  case False
  have "component_work ps (fold join_source (declares ps u) (st\<lparr>cs_successors := cs_successors st @ [u]\<rparr>))
      \<le> component_work ps (st\<lparr>cs_successors := cs_successors st @ [u]\<rparr>)"
    by (rule fold_join_source_work) (rule declares_targets)
  with False show ?thesis by (simp add: join_successor_def component_work_def)
qed (simp add: join_successor_def)

lemma fold_join_successor_work: "component_work ps (fold (join_successor ps) us st) \<le> component_work ps st"
proof (induction us arbitrary: st)
  case (Cons u us)
  from Cons.IH [of "join_successor ps u st"] join_successor_work [of ps u st] show ?case by simp
qed simp

lemma component_round_work: "cs_queue st \<noteq> [] \<Longrightarrow> component_work ps (component_round ps st) < component_work ps st"
proof (cases "cs_queue st")
  case (Cons s q)
  have "component_work ps (component_round ps st) \<le> component_work ps (st\<lparr>cs_queue := q\<rparr>)"
    using fold_join_successor_work by (simp add: component_round_def Cons)
  also have "\<dots> < component_work ps st" by (simp add: component_work_def Cons)
  finally show ?thesis .
qed simp

function component_loop :: "(string \<times> string) list \<Rightarrow> component_state \<Rightarrow> component_state" where
  "component_loop ps st = (if cs_queue st = [] then st else component_loop ps (component_round ps st))"
  by pat_completeness auto
termination
  by (relation "measure (\<lambda>(ps, st). component_work ps st)") (simp_all add: component_round_work)

declare component_loop.simps [simp del]

record component =
  sc_sources :: "string list"
  sc_successors :: "string list"

definition component_of :: "(string \<times> string) list \<Rightarrow> string \<Rightarrow> component" where
  "component_of ps s =
     (let st = component_loop ps \<lparr>cs_sources = [s], cs_successors = [], cs_queue = [s]\<rparr>
      in \<lparr>sc_sources = sort (cs_sources st), sc_successors = sort (cs_successors st)\<rparr>)"

definition add_component ::
  "(string \<times> string) list \<Rightarrow> string \<Rightarrow> (string \<rightharpoonup> component) \<Rightarrow> (string \<rightharpoonup> component)" where
  "add_component ps s out =
     (if out s \<noteq> None then out
      else fold (\<lambda>x m. m(x \<mapsto> component_of ps s)) (sc_sources (component_of ps s)) out)"

definition supersede_components :: "(string \<times> string) list \<Rightarrow> string \<rightharpoonup> component" where
  "supersede_components ps = fold (add_component ps) (remdups (map snd ps)) Map.empty"

section \<open>The resolving walk\<close>

record resolve_state =
  rs_diags :: "diagnostic list"
  rs_edges :: "(string \<times> edge) list"
  rs_remedied :: "component list"

definition say :: "diagnostic list \<Rightarrow> resolve_state \<Rightarrow> resolve_state" where
  "say ds st = st\<lparr>rs_diags := rs_diags st @ ds\<rparr>"

definition edge_log_key :: "(nat \<Rightarrow> nat) \<Rightarrow> node_ref \<Rightarrow> node_ref \<Rightarrow> edge_kind \<Rightarrow> string" where
  "edge_log_key lt a b kind = format_int (edge_kind_number kind) @ ''|'' @ ref_key lt a @ ''|'' @ ref_key lt b"

definition add_edge :: "(nat \<Rightarrow> nat) \<Rightarrow> node_ref \<Rightarrow> edge_kind \<Rightarrow> node_ref \<Rightarrow> resolve_state \<Rightarrow> resolve_state" where
  "add_edge lt a kind b st =
     (if ref_key lt a = ref_key lt b then st
      else st\<lparr>rs_edges := rs_edges st
        @ [(edge_log_key lt a b kind, \<lparr>edge_from = a, edge_to = b, edge_knd = kind\<rparr>)]\<rparr>)"

fun nub :: "'a list \<Rightarrow> 'a list" where
  "nub [] = []"
| "nub (x # xs) = x # filter (\<lambda>y. y \<noteq> x) (nub xs)"

definition ref_tokens :: "seg list \<Rightarrow> string list" where
  "ref_tokens segs = nub (find_tokens req_token segs)"

definition unresolved_ref :: "location \<Rightarrow> string \<Rightarrow> diagnostic" where
  "unresolved_ref loc rid = error_at loc (''reference to '' @ rid @ '' resolves to nothing'')"

definition check_refs_diags :: "identities \<Rightarrow> seg list \<Rightarrow> location \<Rightarrow> diagnostic list" where
  "check_refs_diags ids segs loc = map (unresolved_ref loc) (filter (\<lambda>i. \<not> in_corpus ids i) (ref_tokens segs))"

definition check_refs :: "(nat \<Rightarrow> nat) \<Rightarrow> identities \<Rightarrow> seg list \<Rightarrow> node_ref list" where
  "check_refs lt ids segs = sort_key (ref_key lt) (map Ref_Requirement (filter (in_corpus ids) (ref_tokens segs)))"

definition check_orphan :: "seg list \<Rightarrow> location \<Rightarrow> diagnostic list" where
  "check_orphan segs loc =
     map (\<lambda>kw. error_at loc (''normative keyword '' @ kw @ '' outside requirement text'')) (find_tokens keyword_token segs)"

text \<open>The names the matcher tries: by length, longest first, then by name.\<close>

definition matcher_names :: "(nat \<Rightarrow> nat) \<Rightarrow> identities \<Rightarrow> document list \<Rightarrow> string list" where
  "matcher_names lt ids docs =
     sort_key (\<lambda>n. (- int (length n), n))
       (concat (map (\<lambda>dd. map (\<lambda>t. go_lower lt (tb_name t)) (own_terms lt ids dd)) (enumerate 0 docs)))"

definition term_ref :: "identities \<Rightarrow> string \<Rightarrow> node_ref" where
  "term_ref ids name = Ref_Term (case id_terms ids name of None \<Rightarrow> [] | Some pt \<Rightarrow> tb_name (snd pt))"

definition keyword_diags :: "req_block \<Rightarrow> diagnostic list" where
  "keyword_diags r =
     (let n = length (find_tokens keyword_token (rb_segs r)) in
      if n = 1 then []
      else [error_at (rb_loc r) (''requirement '' @ rb_id r @ '' has '' @ format_uint n
        @ '' normative keyword occurrences, want exactly 1 '' @ em_dash @ '' '' @ keyword_remedy n
        @ '' ('' @ remedy_compile @ '' is the lint after every spec edit)'')])"

definition supersede_remedy :: "component \<Rightarrow> string" where
  "supersede_remedy c =
     ''if '' @ was_or_were (sc_sources c)
     @ '' removed by this edit, the supersede disposition tombstones and accepts the edges in one step: ''
     @ remedy_supersede (sc_sources c) (sc_successors c) False
     @ '' (mcp: dispose kind=supersede; add --force when no record names a source)''"

definition resolve_target ::
  "(nat \<Rightarrow> nat) \<Rightarrow> string set \<Rightarrow> identities \<Rightarrow> (string \<rightharpoonup> component) \<Rightarrow> req_block \<Rightarrow> string
     \<Rightarrow> string \<Rightarrow> resolve_state \<Rightarrow> resolve_state" where
  "resolve_target lt tombs ids comps r word target st =
     (let kind = edge_kind_of word; known = in_corpus ids target in
      if kind = EK_SUPERSEDES \<and> \<not> known \<and> go_lower lt target \<notin> tombs then
        let st1 = say [error_at (rb_loc r) (''requirement '' @ rb_id r @ '' supersedes '' @ target
                    @ '', which is neither declared nor tombstoned'')] st
        in (case comps target of
              None \<Rightarrow> st1
            | Some c \<Rightarrow>
                if c \<in> set (rs_remedied st1) then st1
                else say [remedy_at (rb_loc r) (supersede_remedy c)] (st1\<lparr>rs_remedied := rs_remedied st1 @ [c]\<rparr>))
      else if kind \<noteq> EK_SUPERSEDES \<and> \<not> known then
        say [error_at (rb_loc r) (''requirement '' @ rb_id r @ '' '' @ word @ '' '' @ target
          @ '', which resolves to nothing'')] st
      else add_edge lt (Ref_Requirement (rb_id r)) kind (Ref_Requirement target) st)"

definition resolve_edges ::
  "(nat \<Rightarrow> nat) \<Rightarrow> string set \<Rightarrow> identities \<Rightarrow> (string \<rightharpoonup> component) \<Rightarrow> req_block \<Rightarrow> resolve_state \<Rightarrow> resolve_state" where
  "resolve_edges lt tombs ids comps r st =
     fold (\<lambda>de. fold (resolve_target lt tombs ids comps r (fst de)) (snd de)) (rb_edges r) st"

definition resolve_req ::
  "(nat \<Rightarrow> bool) \<Rightarrow> (nat \<Rightarrow> nat) \<Rightarrow> string set \<Rightarrow> identities \<Rightarrow> string list \<Rightarrow> (string \<rightharpoonup> component)
     \<Rightarrow> req_block \<Rightarrow> resolve_state \<Rightarrow> resolve_state" where
  "resolve_req uni lt tombs ids names comps r st =
     (let self = Ref_Requirement (rb_id r);
          st1 = say (keyword_diags r @ check_refs_diags ids (rb_segs r) (rb_loc r)) st;
          st2 = fold (add_edge lt self EK_REFERENCE) (check_refs lt ids (rb_segs r)) st1;
          st3 = fold (add_edge lt self EK_USES_TERM) (map (term_ref ids) (match_terms uni lt names (rb_segs r) [])) st2
      in resolve_edges lt tombs ids comps r st3)"

definition resolve_term ::
  "(nat \<Rightarrow> bool) \<Rightarrow> (nat \<Rightarrow> nat) \<Rightarrow> identities \<Rightarrow> string list \<Rightarrow> term_block \<Rightarrow> resolve_state \<Rightarrow> resolve_state" where
  "resolve_term uni lt ids names t st =
     (let self = Ref_Term (tb_name t);
          st1 = say (check_orphan (tb_segs t) (tb_loc t) @ check_refs_diags ids (tb_segs t) (tb_loc t)) st;
          st2 = fold (add_edge lt self EK_REFERENCE) (check_refs lt ids (tb_segs t)) st1
      in fold (add_edge lt self EK_USES_TERM)
           (map (term_ref ids) (match_terms uni lt names (tb_segs t) (go_lower lt (tb_name t)))) st2)"

definition resolve_heading :: "identities \<Rightarrow> heading_block \<Rightarrow> resolve_state \<Rightarrow> resolve_state" where
  "resolve_heading ids h st =
     say (check_orphan (hb_segs h) (hb_loc h)
       @ map (unresolved_ref (hb_loc h)) (filter (\<lambda>i. \<not> in_corpus ids i) (find_tokens req_token (hb_segs h)))) st"

definition resolve_doc ::
  "(nat \<Rightarrow> bool) \<Rightarrow> (nat \<Rightarrow> nat) \<Rightarrow> string set \<Rightarrow> identities \<Rightarrow> string list \<Rightarrow> (string \<rightharpoonup> component)
     \<Rightarrow> nat \<times> document \<Rightarrow> resolve_state \<Rightarrow> resolve_state" where
  "resolve_doc uni lt tombs ids names comps dd st =
     fold (resolve_heading ids) (doc_headings (snd dd))
       (fold (resolve_term uni lt ids names) (own_terms lt ids dd)
         (fold (resolve_req uni lt tombs ids names comps) (own_reqs ids dd) st))"

section \<open>The compiled corpus\<close>

record tables =
  tx_print :: "nat \<Rightarrow> bool"
  tx_lower :: "nat \<Rightarrow> nat"
  tx_word :: "nat \<Rightarrow> bool"
  tx_nfc :: "string \<Rightarrow> string"
  tx_sha :: "string \<Rightarrow> string"

text \<open>The clauses of a payload, with the ordinal last declared for each label.\<close>

definition clause_step ::
  "tables \<Rightarrow> req_block \<Rightarrow> nat \<times> clause_block \<Rightarrow> (string \<rightharpoonup> nat) \<times> diagnostic list \<Rightarrow> (string \<rightharpoonup> nat) \<times> diagnostic list" where
  "clause_step tx r ic s =
     (let n = Suc (fst ic); label = cb_label (snd ic) in
      if label = [] then s
      else ((fst s)(label \<mapsto> n),
            snd s @ (case fst s label of None \<Rightarrow> []
              | Some prev \<Rightarrow> [error_at (cb_loc (snd ic)) (''requirement '' @ rb_id r @ '' declares clause label ''
                  @ quote (tx_print tx) label @ '' twice (clauses '' @ format_uint prev @ '' and '' @ format_uint n @ '')'')])))"

definition clause_diags :: "tables \<Rightarrow> req_block \<Rightarrow> diagnostic list" where
  "clause_diags tx r = snd (fold (clause_step tx r) (enumerate 0 (rb_clauses r)) (Map.empty, []))"

definition clauses_of :: "tables \<Rightarrow> req_block \<Rightarrow> clause list" where
  "clauses_of tx r =
     map (\<lambda>(i, c). \<lparr>cl_ordinal = Suc i, cl_label = cb_label c, cl_text = plain_canon (tx_nfc tx) (cb_segs c)\<rparr>)
       (enumerate 0 (rb_clauses r))"

definition compile_req :: "tables \<Rightarrow> string list \<Rightarrow> req_block \<Rightarrow> requirement" where
  "compile_req tx labels r =
     (let text = plain (rb_segs r) in
      \<lparr>req_id = rb_id r, req_kind = clause_kind_of (rb_kind r),
       req_keyword = (case find_tokens keyword_token (rb_segs r) of [kw] \<Rightarrow> keyword_of kw | _ \<Rightarrow> KW_UNSPECIFIED),
       req_text = canon_text (tx_nfc tx) text,
       req_content_hash = hash_parts (tx_nfc tx) (tx_sha tx) (extent_parts text (rb_extent_segs r)),
       req_source = rb_source r,
       req_source_hash = source_digest (tx_sha tx) (rb_source r # rb_extent_source r @ labels),
       req_location = rb_loc r, req_clauses = clauses_of tx r,
       req_pointers = map (\<lambda>p. \<lparr>ep_name = pt_name p, ep_start = pt_start p, ep_end = pt_end p\<rparr>) (rb_pointers r)\<rparr>)"

definition compile_term :: "tables \<Rightarrow> term_block \<Rightarrow> spec_term" where
  "compile_term tx t =
     (let text = plain (tb_segs t) in
      \<lparr>term_name = tb_name t, term_text = canon_text (tx_nfc tx) text,
       term_content_hash = hash_parts (tx_nfc tx) (tx_sha tx) (extent_parts text (tb_extent_segs t)),
       term_source = tb_source t, term_location = tb_loc t\<rparr>)"

definition compile_note :: "tables \<Rightarrow> identities \<Rightarrow> context_block \<Rightarrow> spec_note" where
  "compile_note tx ids c =
     \<lparr>note_text = plain_canon (tx_nfc tx) (xb_segs c), note_source = xb_source c, note_attached_to = xb_attached c,
      note_references = check_refs (tx_lower tx) ids (xb_segs c), note_location = xb_loc c\<rparr>"

definition compile_annotation :: "tables \<Rightarrow> identities \<Rightarrow> context_block \<Rightarrow> annotation" where
  "compile_annotation tx ids c =
     \<lparr>ann_text = plain_canon (tx_nfc tx) (xb_segs c), ann_source = xb_source c,
      ann_references = check_refs (tx_lower tx) ids (xb_segs c), ann_location = xb_loc c\<rparr>"

definition context_diags :: "identities \<Rightarrow> context_block \<Rightarrow> diagnostic list" where
  "context_diags ids c = check_orphan (xb_segs c) (xb_loc c) @ check_refs_diags ids (xb_segs c) (xb_loc c)"

text \<open>Per document, what the emitting walk reports.\<close>

definition emit_diags :: "tables \<Rightarrow> identities \<Rightarrow> nat \<times> document \<Rightarrow> diagnostic list" where
  "emit_diags tx ids dd =
     concat (map (clause_diags tx) (own_reqs ids dd)) @ concat (map (context_diags ids) (doc_contexts (snd dd)))"

definition attach_key :: "node_ref \<Rightarrow> string" where
  "attach_key r =
     (case r of Ref_Term n \<Rightarrow> ''t'' @ nul @ n | Ref_Requirement rid \<Rightarrow> ''r'' @ nul @ rid | Ref_Unset \<Rightarrow> ''r'' @ nul)"

text \<open>The edge map of the walk: the last edge logged under a key, by key.\<close>

definition edge_list :: "(string \<times> edge) list \<Rightarrow> edge list" where
  "edge_list log =
     concat (map (\<lambda>k. case map_of (rev log) k of None \<Rightarrow> [] | Some e \<Rightarrow> [e]) (sort (remdups (map fst log))))"

definition assemble :: "tables \<Rightarrow> identities \<Rightarrow> document list \<Rightarrow> (string \<times> edge) list \<Rightarrow> spec" where
  "assemble tx ids docs log =
     (let dds = enumerate 0 docs; ctx = concat (map doc_contexts docs) in
      \<lparr>spec_requirements = sort_key req_id
         (concat (map (\<lambda>dd. map (compile_req tx (doc_ref_labels (snd dd))) (own_reqs ids dd)) dds)),
       spec_terms = sort_key (\<lambda>t. (go_lower (tx_lower tx) (term_name t), term_name t))
         (concat (map (\<lambda>dd. map (compile_term tx) (own_terms (tx_lower tx) ids dd)) dds)),
       spec_notes = sort_key (\<lambda>n. (attach_key (note_attached_to n), note_source n))
         (map (compile_note tx ids) (filter xb_note ctx)),
       spec_annotations = sort_key ann_source (map (compile_annotation tx ids) (filter (\<lambda>c. \<not> xb_note c) ctx)),
       spec_edges = edge_list log,
       spec_documents = sort_key sd_path
         (map (\<lambda>d. \<lparr>sd_path = doc_path d, sd_title = doc_title d, sd_sections = doc_sections d\<rparr>) docs)\<rparr>)"

definition resolve_docs :: "tables \<Rightarrow> string set \<Rightarrow> document list \<Rightarrow> spec \<times> diagnostic list" where
  "resolve_docs tx tombs docs =
     (let lt = tx_lower tx; ids = register (tx_print tx) lt tombs docs; dds = enumerate 0 docs;
          names = matcher_names lt ids docs;
          comps = supersede_components (dangling_pairs lt tombs ids docs);
          st = fold (resolve_doc (tx_word tx) lt tombs ids names comps) dds
                 \<lparr>rs_diags = [], rs_edges = [], rs_remedied = []\<rparr>
      in (assemble tx ids docs (rs_edges st),
          id_diags ids @ rs_diags st @ concat (map (emit_diags tx ids) dds)))"

section \<open>The lint and the whole compilation\<close>

record term_lint =
  tl_warn_shadowing :: bool
  tl_denylist :: "string list"

definition shadow_warning :: "tables \<Rightarrow> spec_term \<Rightarrow> spec_term \<Rightarrow> diagnostic" where
  "shadow_warning tx t other =
     (let q = quote (tx_print tx) in
      warning_at (term_location t)
        (''term '' @ q (term_name t) @ '' contains term '' @ q (term_name other) @ '': occurrences of ''
         @ q (term_name other) @ '' inside '' @ q (term_name t)
         @ '' bind to the longer name (longest match); shadowing is invisible at the source''))"

definition lint_term :: "tables \<Rightarrow> term_lint \<Rightarrow> spec_term list \<Rightarrow> spec_term \<Rightarrow> diagnostic list" where
  "lint_term tx cfg terms t =
     (let lower = go_lower (tx_lower tx); name = lower (term_name t) in
      (if name \<in> set (map lower (tl_denylist cfg))
       then [warning_at (term_location t) (''term '' @ quote (tx_print tx) (term_name t) @ '' matches the manifest denylist'')]
       else [])
      @ (if tl_warn_shadowing cfg
         then map (shadow_warning tx t)
           (filter (\<lambda>other. lower (term_name other) \<noteq> name \<and> contains_word (tx_word tx) name (lower (term_name other))) terms)
         else []))"

definition lint_terms :: "tables \<Rightarrow> term_lint option \<Rightarrow> spec \<Rightarrow> diagnostic list" where
  "lint_terms tx cfg sp =
     (case cfg of None \<Rightarrow> [] | Some c \<Rightarrow> concat (map (lint_term tx c (spec_terms sp)) (spec_terms sp)))"

text \<open>The read of one document: a read error ends the compilation, other faults are diagnostics.\<close>

type_synonym extractor = "string \<Rightarrow> string \<Rightarrow> (int \<times> string) list \<times> document"

definition read_doc ::
  "(string \<Rightarrow> string + string) \<Rightarrow> extractor \<Rightarrow> string \<Rightarrow> string + diagnostic list \<times> document list
     \<Rightarrow> string + diagnostic list \<times> document list" where
  "read_doc rd extract path acc =
     (case acc of Inl e \<Rightarrow> Inl e
      | Inr (ds, docs) \<Rightarrow>
          (case rd path of
             Inl e \<Rightarrow> Inl (''reading corpus document: '' @ e)
           | Inr src \<Rightarrow>
               let at = (\<lambda>n m. error_at \<lparr>loc_document = path, loc_section_path = [], loc_line = n\<rparr> m) in
               if \<not> valid_utf8 src then Inr (ds @ [at 1 ''document is not valid UTF-8''], docs)
               else (case extract path src of (pds, doc) \<Rightarrow> Inr (ds @ map (\<lambda>(n, m). at n m) pds, docs @ [doc]))))"

definition diag_key :: "diagnostic \<Rightarrow> string \<times> int \<times> string" where
  "diag_key d = (dg_document d, dg_line d, dg_message d)"

text \<open>\<open>Compile\<close> over the outcomes of its reads: the manifest's lint, the paths, the tombstones.\<close>

definition compile ::
  "tables \<Rightarrow> string + term_lint option \<Rightarrow> string + string list \<Rightarrow> string + string list
     \<Rightarrow> (string \<Rightarrow> string + string) \<Rightarrow> extractor \<Rightarrow> string + spec option \<times> diagnostic list" where
  "compile tx mf paths retired rd extract =
     (case mf of Inl e \<Rightarrow> Inl e | Inr lint \<Rightarrow>
      case paths of Inl e \<Rightarrow> Inl e | Inr ps \<Rightarrow>
      case retired of Inl e \<Rightarrow> Inl e | Inr rs \<Rightarrow>
      case fold (read_doc rd extract) ps (Inr ([], [])) of Inl e \<Rightarrow> Inl e | Inr (pds, docs) \<Rightarrow>
        let (sp, rds) = resolve_docs tx (set (map (go_lower (tx_lower tx)) rs)) docs;
            ds = sort_key diag_key (pds @ rds @ lint_terms tx lint sp)
        in Inr (if diag_errors ds \<noteq> [] then None else Some sp, ds))"

end
