(* ===== verification/Compiled.thy ===== *)
theory Compiled
  imports Compile
begin

text \<open>
  What a compilation promises: the identities of the compiled corpus, that every reference
  in it resolves, what a clean compilation keeps, and the supersede components. The walk
  only ever adds diagnostics and edges, which the first section states once per step.
\<close>

section \<open>Identities\<close>

text \<open>Every block of a corpus with its position.\<close>

definition placed_reqs :: "document list \<Rightarrow> (pos \<times> req_block) list" where
  "placed_reqs docs =
     concat (map (\<lambda>dd. map (\<lambda>ib. ((fst dd, fst ib), snd ib)) (enumerate 0 (doc_reqs (snd dd)))) (enumerate 0 docs))"

definition placed_terms :: "document list \<Rightarrow> (pos \<times> term_block) list" where
  "placed_terms docs =
     concat (map (\<lambda>dd. map (\<lambda>ib. ((fst dd, fst ib), snd ib)) (enumerate 0 (doc_terms (snd dd)))) (enumerate 0 docs))"

lemma enumerate_unique: "(i, x) \<in> set (enumerate n xs) \<Longrightarrow> (i, y) \<in> set (enumerate n xs) \<Longrightarrow> x = y"
  by (metis distinct_enumerate distinct_map map_fst_enumerate distinct_upt eq_key_imp_eq_value)

lemma placed_req_iff:
  "((di, i), r) \<in> set (placed_reqs docs) \<longleftrightarrow> (\<exists>d. (di, d) \<in> set (enumerate 0 docs) \<and> (i, r) \<in> set (enumerate 0 (doc_reqs d)))"
  by (force simp: placed_reqs_def)

lemma placed_term_iff:
  "((di, i), t) \<in> set (placed_terms docs) \<longleftrightarrow> (\<exists>d. (di, d) \<in> set (enumerate 0 docs) \<and> (i, t) \<in> set (enumerate 0 (doc_terms d)))"
  by (force simp: placed_terms_def)

lemma placed_req_unique: "(p, r) \<in> set (placed_reqs docs) \<Longrightarrow> (p, r') \<in> set (placed_reqs docs) \<Longrightarrow> r = r'"
  by (cases p) (metis placed_req_iff enumerate_unique)

lemma placed_term_unique: "(p, t) \<in> set (placed_terms docs) \<Longrightarrow> (p, t') \<in> set (placed_terms docs) \<Longrightarrow> t = t'"
  by (cases p) (metis placed_term_iff enumerate_unique)

lemma placed_req_intro:
  assumes "dd \<in> set (enumerate 0 docs)" and "ib \<in> set (enumerate 0 (doc_reqs (snd dd)))"
  shows "((fst dd, fst ib), snd ib) \<in> set (placed_reqs docs)"
proof -
  obtain di d i r where "dd = (di, d)" "ib = (i, r)" by (cases dd; cases ib)
  with assms show ?thesis by (auto simp only: placed_req_iff fst_conv snd_conv)
qed

lemma placed_term_intro:
  assumes "dd \<in> set (enumerate 0 docs)" and "ib \<in> set (enumerate 0 (doc_terms (snd dd)))"
  shows "((fst dd, fst ib), snd ib) \<in> set (placed_terms docs)"
proof -
  obtain di d i t where "dd = (di, d)" "ib = (i, t)" by (cases dd; cases ib)
  with assms show ?thesis by (auto simp only: placed_term_iff fst_conv snd_conv)
qed

text \<open>What the registration keeps: an identity maps to a block of that identity, in its place.\<close>

definition ids_ok :: "(nat \<Rightarrow> nat) \<Rightarrow> string set \<Rightarrow> document list \<Rightarrow> identities \<Rightarrow> bool" where
  "ids_ok lt tombs docs ids \<longleftrightarrow>
     (\<forall>k p r. id_reqs ids k = Some (p, r) \<longrightarrow> rb_id r = k \<and> (p, r) \<in> set (placed_reqs docs) \<and> go_lower lt k \<notin> tombs)
     \<and> (\<forall>k p t. id_terms ids k = Some (p, t) \<longrightarrow> go_lower lt (tb_name t) = k \<and> (p, t) \<in> set (placed_terms docs) \<and> k \<notin> tombs)"

lemma ids_ok_req:
  assumes "ids_ok lt tombs docs ids" and "id_reqs ids k = Some (p, r)"
  shows "rb_id r = k" and "(p, r) \<in> set (placed_reqs docs)" and "go_lower lt k \<notin> tombs"
  using assms unfolding ids_ok_def by blast+

lemma ids_ok_term:
  assumes "ids_ok lt tombs docs ids" and "id_terms ids k = Some (p, t)"
  shows "go_lower lt (tb_name t) = k" and "(p, t) \<in> set (placed_terms docs)" and "k \<notin> tombs"
  using assms unfolding ids_ok_def by blast+

lemma register_req_ok:
  assumes "ids_ok lt tombs docs ids" and "((di, fst ib), snd ib) \<in> set (placed_reqs docs)"
  shows "ids_ok lt tombs docs (register_req lt tombs di ib ids)"
  using assms by (auto simp: ids_ok_def register_req_def Let_def split: option.split)

lemma register_term_ok:
  assumes "ids_ok lt tombs docs ids" and "((di, fst ib), snd ib) \<in> set (placed_terms docs)"
  shows "ids_ok lt tombs docs (register_term tbl lt tombs di ib ids)"
  using assms by (auto simp: ids_ok_def register_term_def Let_def split: option.split)

lemma register_doc_ok:
  assumes "ids_ok lt tombs docs ids" and "dd \<in> set (enumerate 0 docs)"
  shows "ids_ok lt tombs docs (register_doc tbl lt tombs dd ids)"
  unfolding register_doc_def
proof (rule fold_invariant_all, rule fold_invariant_all)
  show "ids_ok lt tombs docs ids" by (rule assms(1))
  show "ids_ok lt tombs docs (register_req lt tombs (fst dd) ib s)"
    if "ib \<in> set (enumerate 0 (doc_reqs (snd dd)))" "ids_ok lt tombs docs s" for ib s
    by (rule register_req_ok [OF that(2)]) (rule placed_req_intro [OF assms(2) that(1)])
  show "ids_ok lt tombs docs (register_term tbl lt tombs (fst dd) ib s)"
    if "ib \<in> set (enumerate 0 (doc_terms (snd dd)))" "ids_ok lt tombs docs s" for ib s
    by (rule register_term_ok [OF that(2)]) (rule placed_term_intro [OF assms(2) that(1)])
qed

lemma register_ok: "ids_ok lt tombs docs (register tbl lt tombs docs)"
  unfolding register_def
proof (rule fold_invariant_all)
  show "ids_ok lt tombs docs no_identities" by (simp add: ids_ok_def no_identities_def)
qed (rule register_doc_ok)

section \<open>The blocks that own their identity\<close>

definition all_own_reqs :: "identities \<Rightarrow> document list \<Rightarrow> req_block list" where
  "all_own_reqs ids docs = concat (map (own_reqs ids) (enumerate 0 docs))"

definition all_own_terms :: "(nat \<Rightarrow> nat) \<Rightarrow> identities \<Rightarrow> document list \<Rightarrow> term_block list" where
  "all_own_terms lt ids docs = concat (map (own_terms lt ids) (enumerate 0 docs))"

lemma all_own_reqs_placed:
  "all_own_reqs ids docs
     = map snd (filter (\<lambda>pr. map_option fst (id_reqs ids (rb_id (snd pr))) = Some (fst pr)) (placed_reqs docs))"
  by (simp add: all_own_reqs_def placed_reqs_def own_reqs_def [abs_def] owns_req_def [abs_def] filter_concat map_concat filter_map o_def)

lemma all_own_terms_placed:
  "all_own_terms lt ids docs
     = map snd (filter (\<lambda>pt. map_option fst (id_terms ids (go_lower lt (tb_name (snd pt)))) = Some (fst pt)) (placed_terms docs))"
  by (simp add: all_own_terms_def placed_terms_def own_terms_def [abs_def] owns_term_def [abs_def] filter_concat map_concat filter_map o_def)

lemma own_req_iff:
  assumes "ids_ok lt tombs docs ids"
  shows "r \<in> set (all_own_reqs ids docs) \<longleftrightarrow> (\<exists>p. id_reqs ids (rb_id r) = Some (p, r))"
proof
  assume "r \<in> set (all_own_reqs ids docs)"
  then obtain p where p: "(p, r) \<in> set (placed_reqs docs)" "map_option fst (id_reqs ids (rb_id r)) = Some p"
    unfolding all_own_reqs_placed by auto
  then obtain r' where r': "id_reqs ids (rb_id r) = Some (p, r')" by auto
  with assms have "(p, r') \<in> set (placed_reqs docs)" by (rule ids_ok_req)
  with p(1) have "r' = r" by (rule placed_req_unique [rotated])
  with r' show "\<exists>p. id_reqs ids (rb_id r) = Some (p, r)" by blast
next
  assume "\<exists>p. id_reqs ids (rb_id r) = Some (p, r)"
  then obtain p where p: "id_reqs ids (rb_id r) = Some (p, r)" by blast
  with assms have "(p, r) \<in> set (placed_reqs docs)" by (rule ids_ok_req)
  with p show "r \<in> set (all_own_reqs ids docs)"
    unfolding all_own_reqs_placed set_map by (intro image_eqI [of _ _ "(p, r)"]) (cases p; simp)+
qed

lemma own_term_iff:
  assumes "ids_ok lt tombs docs ids"
  shows "t \<in> set (all_own_terms lt ids docs) \<longleftrightarrow> (\<exists>p. id_terms ids (go_lower lt (tb_name t)) = Some (p, t))"
proof
  assume "t \<in> set (all_own_terms lt ids docs)"
  then obtain p where p: "(p, t) \<in> set (placed_terms docs)" "map_option fst (id_terms ids (go_lower lt (tb_name t))) = Some p"
    unfolding all_own_terms_placed by auto
  then obtain t' where t': "id_terms ids (go_lower lt (tb_name t)) = Some (p, t')" by auto
  with assms have "(p, t') \<in> set (placed_terms docs)" by (rule ids_ok_term)
  with p(1) have "t' = t" by (rule placed_term_unique [rotated])
  with t' show "\<exists>p. id_terms ids (go_lower lt (tb_name t)) = Some (p, t)" by blast
next
  assume "\<exists>p. id_terms ids (go_lower lt (tb_name t)) = Some (p, t)"
  then obtain p where p: "id_terms ids (go_lower lt (tb_name t)) = Some (p, t)" by blast
  with assms have "(p, t) \<in> set (placed_terms docs)" by (rule ids_ok_term)
  with p show "t \<in> set (all_own_terms lt ids docs)"
    unfolding all_own_terms_placed set_map by (intro image_eqI [of _ _ "(p, t)"]) (cases p; simp)+
qed

lemma placed_reqs_distinct: "distinct (map fst (placed_reqs docs))"
proof -
  have "distinct (map fst (concat (map (\<lambda>dd. map (\<lambda>ib. ((fst dd, fst ib), snd ib)) (enumerate 0 (doc_reqs (snd dd)))) (enumerate n ds))))
      \<and> fst ` fst ` set (concat (map (\<lambda>dd. map (\<lambda>ib. ((fst dd, fst ib), snd ib)) (enumerate 0 (doc_reqs (snd dd)))) (enumerate n ds))) \<subseteq> {n..}"
    for n and ds :: "document list"
  proof (induction ds arbitrary: n)
    case (Cons d ds)
    have "distinct (map (\<lambda>ib. (n, fst ib)) (enumerate 0 (doc_reqs d)))"
      by (simp add: distinct_map inj_on_def distinct_enumerate) (metis enumerate_unique prod.collapse)
    with Cons.IH [of "Suc n"] show ?case by (force simp: o_def)
  qed simp
  then show ?thesis by (simp add: placed_reqs_def)
qed

lemma placed_terms_distinct: "distinct (map fst (placed_terms docs))"
proof -
  have "distinct (map fst (concat (map (\<lambda>dd. map (\<lambda>ib. ((fst dd, fst ib), snd ib)) (enumerate 0 (doc_terms (snd dd)))) (enumerate n ds))))
      \<and> fst ` fst ` set (concat (map (\<lambda>dd. map (\<lambda>ib. ((fst dd, fst ib), snd ib)) (enumerate 0 (doc_terms (snd dd)))) (enumerate n ds))) \<subseteq> {n..}"
    for n and ds :: "document list"
  proof (induction ds arbitrary: n)
    case (Cons d ds)
    have "distinct (map (\<lambda>ib. (n, fst ib)) (enumerate 0 (doc_terms d)))"
      by (simp add: distinct_map inj_on_def distinct_enumerate) (metis enumerate_unique prod.collapse)
    with Cons.IH [of "Suc n"] show ?case by (force simp: o_def)
  qed simp
  then show ?thesis by (simp add: placed_terms_def)
qed

lemma filter_distinct_key:
  assumes "distinct (map fst ps)" and "\<And>q. q \<in> set ps \<Longrightarrow> P q \<Longrightarrow> h (g (snd q)) = Some (fst q)"
  shows "distinct (map g (map snd (filter P ps)))"
proof -
  have "distinct (filter P ps)" using assms(1) by (simp add: distinct_map)
  moreover have "inj_on (g \<circ> snd) (set (filter P ps))"
  proof (rule inj_onI)
    fix x y assume x: "x \<in> set (filter P ps)" and y: "y \<in> set (filter P ps)" and eq: "(g \<circ> snd) x = (g \<circ> snd) y"
    from x y assms(2) [of x] assms(2) [of y] eq have "fst x = fst y" by simp
    with x y assms(1) show "x = y" by (auto simp: distinct_map dest: inj_onD)
  qed
  ultimately show ?thesis by (simp add: distinct_map o_def)
qed

lemma own_req_ids_distinct: "distinct (map rb_id (all_own_reqs ids docs))"
  unfolding all_own_reqs_placed
  by (rule filter_distinct_key [where h = "\<lambda>k. map_option fst (id_reqs ids k)"]) (simp_all add: placed_reqs_distinct)

lemma own_term_keys_distinct: "distinct (map (\<lambda>t. go_lower lt (tb_name t)) (all_own_terms lt ids docs))"
  unfolding all_own_terms_placed
  by (rule filter_distinct_key [where h = "\<lambda>k. map_option fst (id_terms ids k)"]) (simp_all add: placed_terms_distinct)

lemma in_corpus_own:
  assumes "ids_ok lt tombs docs ids"
  shows "in_corpus ids k \<longleftrightarrow> k \<in> rb_id ` set (all_own_reqs ids docs)"
proof
  assume "in_corpus ids k"
  then obtain p r where r: "id_reqs ids k = Some (p, r)" by (auto simp: in_corpus_def)
  with assms have "rb_id r = k" by (rule ids_ok_req)
  with r own_req_iff [OF assms, of r] show "k \<in> rb_id ` set (all_own_reqs ids docs)" by force
next
  assume "k \<in> rb_id ` set (all_own_reqs ids docs)"
  with own_req_iff [OF assms] show "in_corpus ids k" by (auto simp: in_corpus_def)
qed

lemma term_own:
  assumes "ids_ok lt tombs docs ids"
  shows "id_terms ids k \<noteq> None \<longleftrightarrow> k \<in> (\<lambda>t. go_lower lt (tb_name t)) ` set (all_own_terms lt ids docs)"
proof
  assume "id_terms ids k \<noteq> None"
  then obtain p t where t: "id_terms ids k = Some (p, t)" by auto
  with assms have "go_lower lt (tb_name t) = k" by (rule ids_ok_term)
  with t own_term_iff [OF assms, of t] show "k \<in> (\<lambda>t. go_lower lt (tb_name t)) ` set (all_own_terms lt ids docs)" by force
next
  assume "k \<in> (\<lambda>t. go_lower lt (tb_name t)) ` set (all_own_terms lt ids docs)"
  with own_term_iff [OF assms] show "id_terms ids k \<noteq> None" by auto
qed

section \<open>The compiled identities\<close>

lemma req_id_compile [simp]: "req_id (compile_req tx labels r) = rb_id r"
  by (simp add: compile_req_def Let_def)

lemma term_name_compile [simp]: "term_name (compile_term tx t) = tb_name t"
  by (simp add: compile_term_def Let_def)

lemma spec_req_ids:
  "mset (map req_id (spec_requirements (assemble tx ids docs log))) = mset (map rb_id (all_own_reqs ids docs))"
proof -
  have "map req_id (concat (map (\<lambda>dd. map (compile_req tx (doc_ref_labels (snd dd))) (own_reqs ids dd)) dds))
      = map rb_id (concat (map (own_reqs ids) dds))" for dds
    by (induction dds) (simp_all add: o_def)
  moreover have "mset (map req_id (sort_key req_id xs)) = mset (map req_id xs)" for xs :: "requirement list" by simp
  ultimately show ?thesis by (simp only: assemble_def Let_def spec.select_convs all_own_reqs_def)
qed

lemma spec_term_keys:
  "mset (map (term_key (tx_lower tx)) (spec_terms (assemble tx ids docs log)))
     = mset (map (\<lambda>t. go_lower (tx_lower tx) (tb_name t)) (all_own_terms (tx_lower tx) ids docs))"
proof -
  have "map (term_key (tx_lower tx)) (concat (map (\<lambda>dd. map (compile_term tx) (own_terms lt ids dd)) dds))
      = map (\<lambda>t. go_lower (tx_lower tx) (tb_name t)) (concat (map (own_terms lt ids) dds))" for lt dds
    by (induction dds) (simp_all add: o_def term_key_def)
  moreover have "mset (map (term_key (tx_lower tx)) (sort_key f xs)) = mset (map (term_key (tx_lower tx)) xs)"
    for f :: "spec_term \<Rightarrow> string \<times> string" and xs by simp
  ultimately show ?thesis by (simp only: assemble_def Let_def spec.select_convs all_own_terms_def)
qed

lemma spec_req_known:
  assumes "ids_ok (tx_lower tx) tombs docs ids"
  shows "req_map (assemble tx ids docs log) k \<noteq> None \<longleftrightarrow> in_corpus ids k"
proof -
  have "req_id ` set (spec_requirements (assemble tx ids docs log)) = rb_id ` set (all_own_reqs ids docs)"
    using arg_cong [OF spec_req_ids, of set_mset] by (simp only: set_mset_mset set_map)
  then show ?thesis unfolding req_map_none in_corpus_own [OF assms] by (simp only: not_not)
qed

lemma spec_term_known:
  assumes "ids_ok (tx_lower tx) tombs docs ids"
  shows "term_map (tx_lower tx) (assemble tx ids docs log) k \<noteq> None \<longleftrightarrow> id_terms ids k \<noteq> None"
proof -
  have "term_key (tx_lower tx) ` set (spec_terms (assemble tx ids docs log))
      = (\<lambda>t. go_lower (tx_lower tx) (tb_name t)) ` set (all_own_terms (tx_lower tx) ids docs)"
    using arg_cong [OF spec_term_keys, of set_mset] by (simp only: set_mset_mset set_map)
  then show ?thesis unfolding term_map_none term_own [OF assms] by (simp only: not_not)
qed

section \<open>Edges\<close>

text \<open>What every logged edge is: from an own identity, to one the corpus or the tombstones have.\<close>

definition end_known :: "(nat \<Rightarrow> nat) \<Rightarrow> identities \<Rightarrow> node_ref \<Rightarrow> bool" where
  "end_known lt ids r \<longleftrightarrow>
     (case r of Ref_Requirement i \<Rightarrow> in_corpus ids i | Ref_Term n \<Rightarrow> id_terms ids (go_lower lt n) \<noteq> None | Ref_Unset \<Rightarrow> False)"

definition edge_fine :: "(nat \<Rightarrow> nat) \<Rightarrow> string set \<Rightarrow> identities \<Rightarrow> edge \<Rightarrow> bool" where
  "edge_fine lt tombs ids e \<longleftrightarrow>
     end_known lt ids (edge_from e) \<and> ref_key lt (edge_from e) \<noteq> ref_key lt (edge_to e)
     \<and> (end_known lt ids (edge_to e)
        \<or> edge_knd e = EK_SUPERSEDES \<and> (\<exists>t. edge_to e = Ref_Requirement t \<and> go_lower lt t \<in> tombs))"

definition log_fine :: "(nat \<Rightarrow> nat) \<Rightarrow> string set \<Rightarrow> identities \<Rightarrow> resolve_state \<Rightarrow> bool" where
  "log_fine lt tombs ids st \<longleftrightarrow>
     (\<forall>ke \<in> set (rs_edges st). edge_fine lt tombs ids (snd ke)
        \<and> fst ke = edge_log_key lt (edge_from (snd ke)) (edge_to (snd ke)) (edge_knd (snd ke)))"

lemma say_fields [simp]: "rs_edges (say ds st) = rs_edges st" "rs_diags (say ds st) = rs_diags st @ ds"
    "rs_remedied (say ds st) = rs_remedied st"
  by (simp_all add: say_def)

lemma log_fine_say [simp]: "log_fine lt tombs ids (say ds st) = log_fine lt tombs ids st"
  by (simp add: log_fine_def)

lemma log_fine_add_edge:
  assumes "log_fine lt tombs ids st" and "end_known lt ids a"
    and "end_known lt ids b \<or> kind = EK_SUPERSEDES \<and> (\<exists>t. b = Ref_Requirement t \<and> go_lower lt t \<in> tombs)"
  shows "log_fine lt tombs ids (add_edge lt a kind b st)"
  using assms by (auto simp: log_fine_def add_edge_def edge_fine_def)

lemma check_refs_known: "r \<in> set (check_refs lt ids segs) \<Longrightarrow> end_known lt ids r"
  by (auto simp: check_refs_def end_known_def)

lemma claim_all_subset: "set (match_names uni ns ts self) \<subseteq> set ns"
proof (induction ns arbitrary: ts)
  case (Cons n ns)
  obtain ts' m where "claim_all uni n ts = (ts', m)" by (cases "claim_all uni n ts")
  with Cons.IH [of ts'] show ?case by auto
qed simp

lemma match_terms_subset: "set (match_terms uni lt names segs self) \<subseteq> set names"
  using claim_all_subset by (simp add: match_terms_def)

lemma matcher_names_set:
  "set (matcher_names lt ids docs) = (\<lambda>t. go_lower lt (tb_name t)) ` set (all_own_terms lt ids docs)"
  by (auto simp: matcher_names_def all_own_terms_def)

lemma term_ref_known:
  assumes "ids_ok lt tombs docs ids" and "n \<in> set (matcher_names lt ids docs)"
  shows "end_known lt ids (term_ref ids n)"
proof -
  have "id_terms ids n \<noteq> None" using assms(2) unfolding matcher_names_set term_own [OF assms(1)] .
  then obtain p t where t: "id_terms ids n = Some (p, t)" by auto
  with assms(1) have "go_lower lt (tb_name t) = n" by (rule ids_ok_term)
  with t show ?thesis by (simp add: end_known_def term_ref_def)
qed

lemma log_fine_fold_edges:
  assumes "log_fine lt tombs ids st" and "end_known lt ids a" and "\<forall>b \<in> set bs. end_known lt ids b"
  shows "log_fine lt tombs ids (fold (add_edge lt a kind) bs st)"
  by (rule fold_invariant_all) (use assms log_fine_add_edge in blast)+

lemma log_fine_remedied: "log_fine lt tombs ids (st\<lparr>rs_remedied := cs\<rparr>) = log_fine lt tombs ids st"
  by (simp add: log_fine_def)

lemma log_fine_target:
  assumes "log_fine lt tombs ids st" and "end_known lt ids (Ref_Requirement (rb_id r))"
  shows "log_fine lt tombs ids (resolve_target lt tombs ids comps r word target st)"
proof -
  let ?sup = "edge_kind_of word = EK_SUPERSEDES" and ?known = "in_corpus ids target"
  consider (dangling) "?sup" "\<not> ?known" "go_lower lt target \<notin> tombs"
    | (unknown) "\<not> ?sup" "\<not> ?known"
    | (edge) "?known \<or> ?sup \<and> go_lower lt target \<in> tombs" by blast
  then show ?thesis
  proof cases
    case dangling
    then show ?thesis unfolding resolve_target_def Let_def
      by (simp only: simp_thms if_True if_False if_P)
        (simp only: assms(1) log_fine_say log_fine_remedied split: option.split if_splits, simp)
  next
    case unknown
    then show ?thesis unfolding resolve_target_def Let_def
      by (simp only: simp_thms if_True if_False assms(1) log_fine_say)
  next
    case edge
    then have n1: "\<not> (?sup \<and> \<not> ?known \<and> go_lower lt target \<notin> tombs)" and n2: "\<not> (\<not> ?sup \<and> \<not> ?known)" by blast+
    have "log_fine lt tombs ids (add_edge lt (Ref_Requirement (rb_id r)) (edge_kind_of word) (Ref_Requirement target) st)"
      by (rule log_fine_add_edge [OF assms]) (use edge in \<open>auto simp: end_known_def\<close>)
    moreover have "resolve_target lt tombs ids comps r word target st
        = add_edge lt (Ref_Requirement (rb_id r)) (edge_kind_of word) (Ref_Requirement target) st"
      unfolding resolve_target_def Let_def if_not_P [OF n1] if_not_P [OF n2] ..
    ultimately show ?thesis by simp
  qed
qed

lemma log_fine_fold:
  assumes "log_fine lt tombs ids st"
    and "\<And>x t. x \<in> set xs \<Longrightarrow> log_fine lt tombs ids t \<Longrightarrow> log_fine lt tombs ids (f x t)"
  shows "log_fine lt tombs ids (fold f xs st)"
  using assms by (rule fold_invariant_all)

lemma log_fine_edges:
  assumes "log_fine lt tombs ids st" and "end_known lt ids (Ref_Requirement (rb_id r))"
  shows "log_fine lt tombs ids (resolve_edges lt tombs ids comps r st)"
  unfolding resolve_edges_def
  by (intro log_fine_fold assms(1) log_fine_target [OF _ assms(2)])

lemma log_fine_terms:
  assumes "ids_ok lt tombs docs ids" and "log_fine lt tombs ids st" and "end_known lt ids a"
  shows "log_fine lt tombs ids
    (fold (add_edge lt a kind) (map (term_ref ids) (match_terms uni lt (matcher_names lt ids docs) segs self)) st)"
  by (rule log_fine_fold_edges [OF assms(2,3)]) (use term_ref_known [OF assms(1)] match_terms_subset in fastforce)

lemma log_fine_refs:
  assumes "log_fine lt tombs ids st" and "end_known lt ids a"
  shows "log_fine lt tombs ids (fold (add_edge lt a kind) (check_refs lt ids segs) st)"
  by (rule log_fine_fold_edges [OF assms]) (use check_refs_known in blast)

lemma log_fine_req:
  assumes "ids_ok lt tombs docs ids" and "log_fine lt tombs ids st" and "end_known lt ids (Ref_Requirement (rb_id r))"
  shows "log_fine lt tombs ids (resolve_req uni lt tombs ids (matcher_names lt ids docs) comps r st)"
  unfolding resolve_req_def Let_def
  by (intro log_fine_edges log_fine_terms [OF assms(1)] log_fine_refs assms(3)) (simp only: log_fine_say assms(2))

lemma log_fine_term:
  assumes "ids_ok lt tombs docs ids" and "log_fine lt tombs ids st" and "end_known lt ids (Ref_Term (tb_name t))"
  shows "log_fine lt tombs ids (resolve_term uni lt ids (matcher_names lt ids docs) t st)"
  unfolding resolve_term_def Let_def
  by (intro log_fine_terms [OF assms(1)] log_fine_refs assms(3)) (simp only: log_fine_say assms(2))

lemma log_fine_heading: "log_fine lt tombs ids st \<Longrightarrow> log_fine lt tombs ids (resolve_heading ids h st)"
  unfolding resolve_heading_def by (simp only: log_fine_say)

lemma own_known:
  assumes "ids_ok lt tombs docs ids" and "dd \<in> set (enumerate 0 docs)"
  shows "r \<in> set (own_reqs ids dd) \<Longrightarrow> end_known lt ids (Ref_Requirement (rb_id r))"
    and "t \<in> set (own_terms lt ids dd) \<Longrightarrow> end_known lt ids (Ref_Term (tb_name t))"
proof -
  assume "r \<in> set (own_reqs ids dd)"
  with assms(2) have "r \<in> set (all_own_reqs ids docs)" by (auto simp: all_own_reqs_def)
  with own_req_iff [OF assms(1), of r] show "end_known lt ids (Ref_Requirement (rb_id r))"
    by (auto simp: end_known_def in_corpus_def)
next
  assume "t \<in> set (own_terms lt ids dd)"
  with assms(2) have "t \<in> set (all_own_terms lt ids docs)" by (auto simp: all_own_terms_def)
  with own_term_iff [OF assms(1), of t] show "end_known lt ids (Ref_Term (tb_name t))"
    by (auto simp: end_known_def)
qed

lemma log_fine_doc:
  assumes "ids_ok lt tombs docs ids" and "dd \<in> set (enumerate 0 docs)" and "log_fine lt tombs ids st"
  shows "log_fine lt tombs ids (resolve_doc uni lt tombs ids (matcher_names lt ids docs) comps dd st)"
  unfolding resolve_doc_def
proof (intro log_fine_fold)
  show "log_fine lt tombs ids st" by (rule assms(3))
qed (erule log_fine_req [OF assms(1)], erule own_known(1) [OF assms(1,2)],
    erule log_fine_term [OF assms(1)], erule own_known(2) [OF assms(1,2)], erule log_fine_heading)

text \<open>The log of the whole walk.\<close>

definition walk_log :: "tables \<Rightarrow> string set \<Rightarrow> document list \<Rightarrow> resolve_state" where
  "walk_log tx tombs docs =
     (let lt = tx_lower tx; ids = register (tx_print tx) lt tombs docs in
      fold (resolve_doc (tx_word tx) lt tombs ids (matcher_names lt ids docs)
              (supersede_components (dangling_pairs lt tombs ids docs)))
        (enumerate 0 docs) \<lparr>rs_diags = [], rs_edges = [], rs_remedied = []\<rparr>)"

lemma resolve_docs_walk:
  "resolve_docs tx tombs docs =
     (let ids = register (tx_print tx) (tx_lower tx) tombs docs; st = walk_log tx tombs docs in
      (assemble tx ids docs (rs_edges st),
       id_diags ids @ rs_diags st @ concat (map (emit_diags tx ids) (enumerate 0 docs))))"
  by (simp only: resolve_docs_def walk_log_def Let_def)

lemma walk_log_fine:
  "log_fine (tx_lower tx) tombs (register (tx_print tx) (tx_lower tx) tombs docs) (walk_log tx tombs docs)"
  unfolding walk_log_def Let_def
proof (rule fold_invariant_all)
  show "log_fine (tx_lower tx) tombs (register (tx_print tx) (tx_lower tx) tombs docs)
      \<lparr>rs_diags = [], rs_edges = [], rs_remedied = []\<rparr>" by (simp add: log_fine_def)
qed (rule log_fine_doc [OF register_ok])

section \<open>The edges of the compiled corpus\<close>

lemma edge_list_logged:
  assumes "e \<in> set (edge_list log)"
  obtains k where "(k, e) \<in> set log" and "map_of (rev log) k = Some e"
proof -
  from assms obtain k where k: "map_of (rev log) k = Some e"
    unfolding edge_list_def by (auto split: option.splits)
  then have "(k, e) \<in> set log" using map_of_SomeD by fastforce
  with k show ?thesis using that by blast
qed

lemma edge_list_complete:
  assumes "(k, e) \<in> set log"
  obtains e' where "e' \<in> set (edge_list log)" and "map_of (rev log) k = Some e'"
proof -
  have "k \<in> fst ` set (rev log)" using assms by force
  then obtain e' where e': "map_of (rev log) k = Some e'" using map_of_eq_None_iff [of "rev log" k] by auto
  moreover have "k \<in> set (sort (remdups (map fst log)))" using assms by force
  ultimately have "e' \<in> set (edge_list log)" unfolding edge_list_def by (force split: option.splits)
  with e' show ?thesis using that by blast
qed

lemma compiled_edges_fine:
  assumes "e \<in> set (spec_edges (fst (resolve_docs tx tombs docs)))"
  shows "edge_fine (tx_lower tx) tombs (register (tx_print tx) (tx_lower tx) tombs docs) e"
proof -
  have "e \<in> set (edge_list (rs_edges (walk_log tx tombs docs)))"
    using assms by (simp add: resolve_docs_walk assemble_def Let_def)
  then obtain k where "(k, e) \<in> set (rs_edges (walk_log tx tombs docs))" by (rule edge_list_logged)
  with walk_log_fine [of tx tombs docs] show ?thesis unfolding log_fine_def by fastforce
qed

lemma end_known_resolves:
  assumes "ids_ok (tx_lower tx) tombs docs ids" and "end_known (tx_lower tx) ids r"
  shows "ref_resolves (tx_lower tx) (assemble tx ids docs log) r"
  using assms(2) spec_req_known [OF assms(1)] spec_term_known [OF assms(1)]
  unfolding end_known_def ref_resolves_def by (cases r) simp_all

text \<open>Every reference of the compiled corpus resolves in it, but for a supersedes edge to a tombstone.\<close>

lemma compiled_resolved: "resolved (tx_lower tx) (fst (resolve_docs tx tombs docs))"
proof -
  let ?lt = "tx_lower tx"
  let ?ids = "register (tx_print tx) ?lt tombs docs" and ?sp = "fst (resolve_docs tx tombs docs)"
  have sp: "?sp = assemble tx ?ids docs (rs_edges (walk_log tx tombs docs))" by (simp add: resolve_docs_walk Let_def)
  have known: "ref_resolves ?lt ?sp r" if "end_known ?lt ?ids r" for r
    unfolding sp by (rule end_known_resolves [OF register_ok that])
  have edge: "edge_from e \<noteq> Ref_Unset \<and> edge_to e \<noteq> Ref_Unset
      \<and> (closure_edge e \<longrightarrow> ref_resolves ?lt ?sp (edge_from e) \<and> ref_resolves ?lt ?sp (edge_to e))"
    if "e \<in> set (spec_edges ?sp)" for e
    using compiled_edges_fine [OF that] known
    unfolding edge_fine_def closure_edge_def end_known_def by (auto split: node_ref.splits)
  have refs: "ref_resolves ?lt ?sp r" if "r \<in> set (check_refs ?lt ?ids segs)" for r segs
    by (rule known) (rule check_refs_known [OF that])
  have "list_all (ref_resolves ?lt ?sp) (note_references n)" if "n \<in> set (spec_notes ?sp)" for n
    using that refs by (auto simp: sp assemble_def Let_def compile_note_def list_all_iff)
  moreover have "list_all (ref_resolves ?lt ?sp) (ann_references a)" if "a \<in> set (spec_annotations ?sp)" for a
    using that refs by (auto simp: sp assemble_def Let_def compile_annotation_def list_all_iff)
  ultimately show ?thesis unfolding resolved_def using edge by (simp add: list_all_iff)
qed

end
