(* ===== verification/Accept.thy ===== *)
theory Accept
  imports Compiled
begin

text \<open>
  When a compilation accepts a corpus, and what the accepted corpus holds. The code reports
  through diagnostics met on several walks; \<open>clean_corpus\<close> states the same conditions as a
  predicate on the extracted documents.
\<close>

section \<open>A clean corpus\<close>

definition corpus_req_ids :: "document list \<Rightarrow> string list" where
  "corpus_req_ids docs = map rb_id (concat (map doc_reqs docs))"

definition corpus_term_keys :: "(nat \<Rightarrow> nat) \<Rightarrow> document list \<Rightarrow> string list" where
  "corpus_term_keys lt docs = map (\<lambda>t. go_lower lt (tb_name t)) (concat (map doc_terms docs))"

definition refs_known :: "string list \<Rightarrow> seg list \<Rightarrow> bool" where
  "refs_known rids segs \<longleftrightarrow> list_all (\<lambda>i. i \<in> set rids) (find_tokens req_token segs)"

definition clean_prose :: "string list \<Rightarrow> seg list \<Rightarrow> bool" where
  "clean_prose rids segs \<longleftrightarrow> find_tokens keyword_token segs = [] \<and> refs_known rids segs"

definition target_fits :: "(nat \<Rightarrow> nat) \<Rightarrow> string set \<Rightarrow> string list \<Rightarrow> string \<Rightarrow> string \<Rightarrow> bool" where
  "target_fits lt tombs rids word t \<longleftrightarrow> t \<in> set rids \<or> edge_kind_of word = EK_SUPERSEDES \<and> go_lower lt t \<in> tombs"

definition clean_req :: "(nat \<Rightarrow> nat) \<Rightarrow> string set \<Rightarrow> string list \<Rightarrow> req_block \<Rightarrow> bool" where
  "clean_req lt tombs rids r \<longleftrightarrow>
     length (find_tokens keyword_token (rb_segs r)) = 1 \<and> refs_known rids (rb_segs r)
     \<and> list_all (\<lambda>de. list_all (target_fits lt tombs rids (fst de)) (snd de)) (rb_edges r)
     \<and> distinct (filter (\<lambda>l. l \<noteq> []) (map cb_label (rb_clauses r)))"

definition clean_doc :: "(nat \<Rightarrow> nat) \<Rightarrow> string set \<Rightarrow> string list \<Rightarrow> document \<Rightarrow> bool" where
  "clean_doc lt tombs rids d \<longleftrightarrow>
     list_all (clean_req lt tombs rids) (doc_reqs d)
     \<and> list_all (\<lambda>t. clean_prose rids (tb_segs t)) (doc_terms d)
     \<and> list_all (\<lambda>c. clean_prose rids (xb_segs c)) (doc_contexts d)
     \<and> list_all (\<lambda>h. clean_prose rids (hb_segs h)) (doc_headings d)"

definition clean_ids :: "(nat \<Rightarrow> nat) \<Rightarrow> string set \<Rightarrow> string list \<Rightarrow> string list \<Rightarrow> bool" where
  "clean_ids lt tombs rs ts \<longleftrightarrow>
     distinct rs \<and> distinct ts \<and> list_all (\<lambda>i. go_lower lt i \<notin> tombs) rs \<and> list_all (\<lambda>k. k \<notin> tombs) ts"

definition clean_corpus :: "(nat \<Rightarrow> nat) \<Rightarrow> string set \<Rightarrow> document list \<Rightarrow> bool" where
  "clean_corpus lt tombs docs \<longleftrightarrow>
     clean_ids lt tombs (corpus_req_ids docs) (corpus_term_keys lt docs)
     \<and> list_all (clean_doc lt tombs (corpus_req_ids docs)) docs"

section \<open>The registration\<close>

definition reg_inv :: "(nat \<Rightarrow> nat) \<Rightarrow> string set \<Rightarrow> string list \<Rightarrow> string list \<Rightarrow> identities \<Rightarrow> bool" where
  "reg_inv lt tombs rs ts ids \<longleftrightarrow>
     (diag_errors (id_diags ids) = [] \<longleftrightarrow> clean_ids lt tombs rs ts)
     \<and> (clean_ids lt tombs rs ts \<longrightarrow> dom (id_reqs ids) = set rs \<and> dom (id_terms ids) = set ts)"

lemma diag_errors_append [simp]: "diag_errors (ds @ es) = diag_errors ds @ diag_errors es"
  by (simp add: diag_errors_def)

lemma diag_errors_Nil [simp]: "diag_errors [] = []"
  by (simp add: diag_errors_def)

lemma diag_errors_error [simp]: "diag_errors (error_at loc m # ds) = error_at loc m # diag_errors ds"
  by (simp add: diag_errors_def error_at_def)

lemma diag_errors_remedy [simp]: "diag_errors (remedy_at loc m # ds) = diag_errors ds"
  by (simp add: diag_errors_def remedy_at_def)

lemma diag_errors_warning [simp]: "diag_errors (warning_at loc m # ds) = diag_errors ds"
  by (simp add: diag_errors_def warning_at_def)

lemma diag_errors_map_error: "diag_errors (map (\<lambda>x. error_at (loc x) (m x)) xs) = map (\<lambda>x. error_at (loc x) (m x)) xs"
  by (induction xs) simp_all

lemma register_req_inv:
  assumes "reg_inv lt tombs rs ts ids"
  shows "reg_inv lt tombs (rs @ [rb_id (snd ib)]) ts (register_req lt tombs di ib ids)"
proof (cases "clean_ids lt tombs rs ts")
  case True
  with assms have "diag_errors (id_diags ids) = []" "dom (id_reqs ids) = set rs" "dom (id_terms ids) = set ts"
    by (simp_all add: reg_inv_def)
  moreover from this have "id_reqs ids (rb_id (snd ib)) = None \<longleftrightarrow> rb_id (snd ib) \<notin> set rs" by (metis domIff)
  ultimately show ?thesis using True
    by (cases "id_reqs ids (rb_id (snd ib))") (auto simp: reg_inv_def register_req_def Let_def clean_ids_def)
next
  case False
  with assms have "diag_errors (id_diags ids) \<noteq> []" by (simp add: reg_inv_def)
  moreover have "\<not> clean_ids lt tombs (rs @ [rb_id (snd ib)]) ts" using False by (auto simp: clean_ids_def)
  ultimately show ?thesis by (auto simp: reg_inv_def register_req_def Let_def split: option.split)
qed

lemma register_term_inv:
  assumes "reg_inv lt tombs rs ts ids"
  shows "reg_inv lt tombs rs (ts @ [go_lower lt (tb_name (snd ib))]) (register_term tbl lt tombs di ib ids)"
proof (cases "clean_ids lt tombs rs ts")
  case True
  with assms have "diag_errors (id_diags ids) = []" "dom (id_reqs ids) = set rs" "dom (id_terms ids) = set ts"
    by (simp_all add: reg_inv_def)
  moreover from this have "id_terms ids (go_lower lt (tb_name (snd ib))) = None \<longleftrightarrow> go_lower lt (tb_name (snd ib)) \<notin> set ts" by (metis domIff)
  ultimately show ?thesis using True
    by (cases "id_terms ids (go_lower lt (tb_name (snd ib)))") (auto simp: reg_inv_def register_term_def Let_def clean_ids_def)
next
  case False
  with assms have "diag_errors (id_diags ids) \<noteq> []" by (simp add: reg_inv_def)
  moreover have "\<not> clean_ids lt tombs rs (ts @ [go_lower lt (tb_name (snd ib))])" using False by (auto simp: clean_ids_def)
  ultimately show ?thesis by (auto simp: reg_inv_def register_term_def Let_def split: option.split)
qed

lemma fold_inv_grow:
  assumes "P l s" and "\<And>l s x. P l s \<Longrightarrow> P (l @ [g x]) (f x s)"
  shows "P (l @ map g xs) (fold f xs s)"
  using assms(1)
proof (induction xs arbitrary: l s)
  case (Cons x xs)
  from Cons.IH [OF assms(2) [OF Cons.prems]] show ?case by simp
qed simp

lemma map_snd_enumerate_comp: "map (\<lambda>ib. g (snd ib)) (enumerate n xs) = map g xs"
  using map_map [of g snd "enumerate n xs"] by (simp add: o_def)

lemma register_doc_inv:
  assumes "reg_inv lt tombs rs ts ids"
  shows "reg_inv lt tombs (rs @ map rb_id (doc_reqs (snd dd))) (ts @ map (\<lambda>t. go_lower lt (tb_name t)) (doc_terms (snd dd)))
           (register_doc tbl lt tombs dd ids)"
proof -
  have "reg_inv lt tombs (rs @ map (\<lambda>ib. rb_id (snd ib)) (enumerate 0 (doc_reqs (snd dd)))) ts
      (fold (register_req lt tombs (fst dd)) (enumerate 0 (doc_reqs (snd dd))) ids)"
    by (rule fold_inv_grow [where P = "\<lambda>l. reg_inv lt tombs l ts", OF assms]) (rule register_req_inv)
  then have "reg_inv lt tombs (rs @ map (\<lambda>ib. rb_id (snd ib)) (enumerate 0 (doc_reqs (snd dd))))
      (ts @ map (\<lambda>ib. go_lower lt (tb_name (snd ib))) (enumerate 0 (doc_terms (snd dd)))) (register_doc tbl lt tombs dd ids)"
    unfolding register_doc_def
    by (rule fold_inv_grow [where P = "\<lambda>l. reg_inv lt tombs rs' l" for rs']) (rule register_term_inv)
  then show ?thesis
    by (simp only: map_snd_enumerate_comp [of rb_id] map_snd_enumerate_comp [of "\<lambda>t. go_lower lt (tb_name t)"])
qed

lemma register_inv: "reg_inv lt tombs (corpus_req_ids docs) (corpus_term_keys lt docs) (register tbl lt tombs docs)"
proof -
  have "reg_inv lt tombs (rs @ map rb_id (concat (map doc_reqs ds)))
      (ts @ map (\<lambda>t. go_lower lt (tb_name t)) (concat (map doc_terms ds)))
      (fold (register_doc tbl lt tombs) (enumerate n ds) ids)" if "reg_inv lt tombs rs ts ids" for rs ts ds n ids
    using that
  proof (induction ds arbitrary: rs ts n ids)
    case (Cons d ds)
    from Cons.IH [OF register_doc_inv [OF Cons.prems, of "(n, d)"], of "Suc n"] show ?case by simp
  qed simp
  from this [of "[]" "[]" no_identities docs 0] show ?thesis
    by (simp add: register_def corpus_req_ids_def corpus_term_keys_def reg_inv_def clean_ids_def no_identities_def)
qed

section \<open>The walk\<close>

definition quiet :: "resolve_state \<Rightarrow> bool" where
  "quiet st \<longleftrightarrow> diag_errors (rs_diags st) = []"

lemma quiet_say [simp]: "quiet (say ds st) \<longleftrightarrow> quiet st \<and> diag_errors ds = []"
  by (simp add: quiet_def)

lemma quiet_remedied [simp]: "quiet (st\<lparr>rs_remedied := cs\<rparr>) \<longleftrightarrow> quiet st"
  by (simp add: quiet_def)

lemma quiet_add_edge [simp]: "quiet (add_edge lt a kind b st) \<longleftrightarrow> quiet st"
  by (simp add: quiet_def add_edge_def)

lemma quiet_fold:
  assumes "\<And>x t. x \<in> set xs \<Longrightarrow> quiet (f x t) \<longleftrightarrow> quiet t \<and> P x"
  shows "quiet (fold f xs st) \<longleftrightarrow> quiet st \<and> list_all P xs"
  using assms by (induction xs arbitrary: st) auto

lemma quiet_fold_edges [simp]: "quiet (fold (add_edge lt a kind) bs st) \<longleftrightarrow> quiet st"
  using quiet_fold [of bs "add_edge lt a kind" "\<lambda>_. True"] by (simp add: list_all_iff)

lemma quiet_target:
  assumes "\<And>k. in_corpus ids k \<longleftrightarrow> k \<in> set rids"
  shows "quiet (resolve_target lt tombs ids comps r word t st) \<longleftrightarrow> quiet st \<and> target_fits lt tombs rids word t"
proof -
  let ?sup = "edge_kind_of word = EK_SUPERSEDES" and ?known = "in_corpus ids t"
  consider (dangling) "?sup \<and> \<not> ?known \<and> go_lower lt t \<notin> tombs"
    | (unknown) "\<not> (?sup \<and> \<not> ?known \<and> go_lower lt t \<notin> tombs)" "\<not> ?sup \<and> \<not> ?known"
    | (edge) "\<not> (?sup \<and> \<not> ?known \<and> go_lower lt t \<notin> tombs)" "\<not> (\<not> ?sup \<and> \<not> ?known)" by blast
  then show ?thesis
  proof cases
    case dangling
    then have "\<not> target_fits lt tombs rids word t" by (simp add: target_fits_def assms)
    moreover have "\<not> quiet (resolve_target lt tombs ids comps r word t st)"
      unfolding resolve_target_def Let_def if_P [OF dangling]
      by (simp only: quiet_say quiet_remedied diag_errors_error split: option.split if_splits) blast
    ultimately show ?thesis by blast
  next
    case unknown
    then have "\<not> target_fits lt tombs rids word t" by (simp add: target_fits_def assms)
    moreover have "\<not> quiet (resolve_target lt tombs ids comps r word t st)"
      unfolding resolve_target_def Let_def if_not_P [OF unknown(1)] if_P [OF unknown(2)]
      by (simp only: quiet_say diag_errors_error) blast
    ultimately show ?thesis by blast
  next
    case edge
    then have "target_fits lt tombs rids word t" by (auto simp: target_fits_def assms)
    then show ?thesis
      unfolding resolve_target_def Let_def if_not_P [OF edge(1)] if_not_P [OF edge(2)] by (simp only: quiet_add_edge simp_thms)
  qed
qed

lemma quiet_edges:
  assumes "\<And>k. in_corpus ids k \<longleftrightarrow> k \<in> set rids"
  shows "quiet (resolve_edges lt tombs ids comps r st)
    \<longleftrightarrow> quiet st \<and> list_all (\<lambda>de. list_all (target_fits lt tombs rids (fst de)) (snd de)) (rb_edges r)"
  unfolding resolve_edges_def by (intro quiet_fold quiet_target [OF assms])

lemma set_nub [simp]: "set (nub xs) = set xs"
  by (induction xs) auto

lemma check_refs_clean:
  assumes "\<And>k. in_corpus ids k \<longleftrightarrow> k \<in> set rids"
  shows "diag_errors (check_refs_diags ids segs loc) = [] \<longleftrightarrow> refs_known rids segs"
proof -
  have "diag_errors (check_refs_diags ids segs loc) = check_refs_diags ids segs loc"
    unfolding check_refs_diags_def unresolved_ref_def [abs_def] by (rule diag_errors_map_error)
  then show ?thesis
    by (auto simp only: check_refs_diags_def refs_known_def ref_tokens_def list_all_iff map_is_Nil_conv
        filter_empty_conv set_nub assms not_not)
qed

lemma check_orphan_clean: "diag_errors (check_orphan segs loc) = [] \<longleftrightarrow> find_tokens keyword_token segs = []"
  unfolding check_orphan_def diag_errors_map_error by (rule map_is_Nil_conv)

lemma keyword_diags_clean: "diag_errors (keyword_diags r) = [] \<longleftrightarrow> length (find_tokens keyword_token (rb_segs r)) = 1"
  unfolding keyword_diags_def Let_def by (simp only: diag_errors_error diag_errors_Nil split: if_splits) blast

lemma prose_clean:
  assumes "\<And>k. in_corpus ids k \<longleftrightarrow> k \<in> set rids"
  shows "diag_errors (check_orphan segs loc @ check_refs_diags ids segs loc) = [] \<longleftrightarrow> clean_prose rids segs"
  by (simp only: diag_errors_append append_is_Nil_conv check_orphan_clean check_refs_clean [OF assms] clean_prose_def)

definition walk_clean_req :: "(nat \<Rightarrow> nat) \<Rightarrow> string set \<Rightarrow> string list \<Rightarrow> req_block \<Rightarrow> bool" where
  "walk_clean_req lt tombs rids r \<longleftrightarrow>
     length (find_tokens keyword_token (rb_segs r)) = 1 \<and> refs_known rids (rb_segs r)
     \<and> list_all (\<lambda>de. list_all (target_fits lt tombs rids (fst de)) (snd de)) (rb_edges r)"

lemma quiet_req:
  assumes "\<And>k. in_corpus ids k \<longleftrightarrow> k \<in> set rids"
  shows "quiet (resolve_req uni lt tombs ids names comps r st) \<longleftrightarrow> quiet st \<and> walk_clean_req lt tombs rids r"
  unfolding resolve_req_def Let_def walk_clean_req_def
  by (simp only: quiet_edges [OF assms] quiet_fold_edges quiet_say diag_errors_append append_is_Nil_conv
      keyword_diags_clean check_refs_clean [OF assms] conj_assoc)

lemma quiet_term:
  assumes "\<And>k. in_corpus ids k \<longleftrightarrow> k \<in> set rids"
  shows "quiet (resolve_term uni lt ids names t st) \<longleftrightarrow> quiet st \<and> clean_prose rids (tb_segs t)"
  unfolding resolve_term_def Let_def by (simp only: quiet_fold_edges quiet_say prose_clean [OF assms])

lemma quiet_heading:
  assumes "\<And>k. in_corpus ids k \<longleftrightarrow> k \<in> set rids"
  shows "quiet (resolve_heading ids h st) \<longleftrightarrow> quiet st \<and> clean_prose rids (hb_segs h)"
proof -
  have "diag_errors (map (unresolved_ref (hb_loc h)) (filter (\<lambda>i. \<not> in_corpus ids i) (find_tokens req_token (hb_segs h)))) = []
      \<longleftrightarrow> refs_known rids (hb_segs h)"
    unfolding unresolved_ref_def [abs_def] diag_errors_map_error
    by (auto simp only: refs_known_def list_all_iff map_is_Nil_conv filter_empty_conv assms not_not)
  then show ?thesis unfolding resolve_heading_def
    by (simp only: quiet_say diag_errors_append append_is_Nil_conv check_orphan_clean clean_prose_def)
qed

lemma quiet_doc:
  assumes "\<And>k. in_corpus ids k \<longleftrightarrow> k \<in> set rids"
  shows "quiet (resolve_doc uni lt tombs ids names comps dd st) \<longleftrightarrow>
    quiet st \<and> list_all (walk_clean_req lt tombs rids) (own_reqs ids dd)
    \<and> list_all (\<lambda>t. clean_prose rids (tb_segs t)) (own_terms lt ids dd)
    \<and> list_all (\<lambda>h. clean_prose rids (hb_segs h)) (doc_headings (snd dd))"
proof -
  have "quiet (fold (resolve_heading ids) hs s) \<longleftrightarrow> quiet s \<and> list_all (\<lambda>h. clean_prose rids (hb_segs h)) hs" for hs s
    by (rule quiet_fold) (rule quiet_heading [OF assms])
  moreover have "quiet (fold (resolve_term uni lt ids names) ts s) \<longleftrightarrow> quiet s \<and> list_all (\<lambda>t. clean_prose rids (tb_segs t)) ts"
    for ts s by (rule quiet_fold) (rule quiet_term [OF assms])
  moreover have "quiet (fold (resolve_req uni lt tombs ids names comps) rs s)
      \<longleftrightarrow> quiet s \<and> list_all (walk_clean_req lt tombs rids) rs" for rs s
    by (rule quiet_fold) (rule quiet_req [OF assms])
  ultimately show ?thesis unfolding resolve_doc_def by (simp only: conj_assoc)
qed

section \<open>The emitting walk\<close>

definition clause_inv :: "string list \<Rightarrow> (string \<rightharpoonup> nat) \<times> diagnostic list \<Rightarrow> bool" where
  "clause_inv labels s \<longleftrightarrow>
     (diag_errors (snd s) = [] \<longleftrightarrow> distinct (filter (\<lambda>l. l \<noteq> []) labels))
     \<and> dom (fst s) = set (filter (\<lambda>l. l \<noteq> []) labels)"

lemma clause_step_inv: "clause_inv labels s \<Longrightarrow> clause_inv (labels @ [cb_label (snd ic)]) (clause_step tx r ic s)"
proof (cases "cb_label (snd ic) = []")
  case False
  assume inv: "clause_inv labels s"
  then have "fst s (cb_label (snd ic)) = None \<longleftrightarrow> cb_label (snd ic) \<notin> set labels"
    using False by (auto simp: clause_inv_def dest: domIff [THEN iffD1] intro: domI)
  with inv False show ?thesis
    by (cases "fst s (cb_label (snd ic))") (simp_all add: clause_inv_def clause_step_def Let_def)
qed (simp add: clause_inv_def clause_step_def)

lemma clause_diags_clean:
  "diag_errors (clause_diags tx r) = [] \<longleftrightarrow> distinct (filter (\<lambda>l. l \<noteq> []) (map cb_label (rb_clauses r)))"
proof -
  have "clause_inv ([] @ map (\<lambda>ic. cb_label (snd ic)) (enumerate 0 (rb_clauses r)))
      (fold (clause_step tx r) (enumerate 0 (rb_clauses r)) (Map.empty, []))"
    by (rule fold_inv_grow [where P = clause_inv]) (simp add: clause_inv_def, erule clause_step_inv)
  then show ?thesis
    unfolding clause_diags_def clause_inv_def by (simp only: append_Nil map_snd_enumerate_comp [of cb_label])
qed

lemma diag_errors_concat: "diag_errors (concat (map f xs)) = [] \<longleftrightarrow> list_all (\<lambda>x. diag_errors (f x) = []) xs"
  by (induction xs) simp_all

lemma emit_clean:
  assumes "\<And>k. in_corpus ids k \<longleftrightarrow> k \<in> set rids"
  shows "diag_errors (emit_diags tx ids dd) = [] \<longleftrightarrow>
    list_all (\<lambda>r. distinct (filter (\<lambda>l. l \<noteq> []) (map cb_label (rb_clauses r)))) (own_reqs ids dd)
    \<and> list_all (\<lambda>c. clean_prose rids (xb_segs c)) (doc_contexts (snd dd))"
  unfolding emit_diags_def context_diags_def [abs_def]
  by (simp only: diag_errors_append append_is_Nil_conv diag_errors_concat clause_diags_clean
      prose_clean [OF assms, unfolded diag_errors_append append_is_Nil_conv])

section \<open>Ownership in a clean registration\<close>

lemma clean_registered:
  assumes "clean_ids lt tombs (corpus_req_ids docs) (corpus_term_keys lt docs)"
  shows "in_corpus (register tbl lt tombs docs) k \<longleftrightarrow> k \<in> set (corpus_req_ids docs)"
    and "id_terms (register tbl lt tombs docs) k \<noteq> None \<longleftrightarrow> k \<in> set (corpus_term_keys lt docs)"
  using register_inv [of lt tombs docs tbl] assms unfolding reg_inv_def in_corpus_def domIff [symmetric] by blast+

lemma placed_reqs_ids: "map rb_id (map snd (placed_reqs docs)) = corpus_req_ids docs"
proof -
  have "map snd (concat (map (\<lambda>dd. map (\<lambda>ib. ((fst dd, fst ib), snd ib)) (enumerate 0 (doc_reqs (snd dd)))) (enumerate n ds)))
      = concat (map doc_reqs ds)" for n and ds :: "document list"
    by (induction ds arbitrary: n) (simp_all add: o_def)
  then show ?thesis by (simp only: placed_reqs_def corpus_req_ids_def)
qed

lemma placed_terms_keys: "map (\<lambda>t. go_lower lt (tb_name t)) (map snd (placed_terms docs)) = corpus_term_keys lt docs"
proof -
  have "map snd (concat (map (\<lambda>dd. map (\<lambda>ib. ((fst dd, fst ib), snd ib)) (enumerate 0 (doc_terms (snd dd)))) (enumerate n ds)))
      = concat (map doc_terms ds)" for n and ds :: "document list"
    by (induction ds arbitrary: n) (simp_all add: o_def)
  then show ?thesis by (simp only: placed_terms_def corpus_term_keys_def)
qed

lemma distinct_map_snd_inj:
  assumes "distinct (map g (map snd ps))" and "x \<in> set ps" and "y \<in> set ps" and "g (snd x) = g (snd y)"
  shows "x = y"
  using assms by (auto simp: distinct_map inj_on_def)

lemma clean_owns_req:
  assumes clean: "clean_ids lt tombs (corpus_req_ids docs) (corpus_term_keys lt docs)"
    and dd: "dd \<in> set (enumerate 0 docs)" and ib: "ib \<in> set (enumerate 0 (doc_reqs (snd dd)))"
  shows "owns_req (register tbl lt tombs docs) (fst dd) ib"
proof -
  let ?ids = "register tbl lt tombs docs"
  have placed: "((fst dd, fst ib), snd ib) \<in> set (placed_reqs docs)" by (rule placed_req_intro [OF dd ib])
  then have "rb_id (snd ib) \<in> set (corpus_req_ids docs)" unfolding placed_reqs_ids [symmetric] by force
  with clean_registered(1) [OF clean] obtain p r where r: "id_reqs ?ids (rb_id (snd ib)) = Some (p, r)"
    unfolding in_corpus_def by fastforce
  note at = ids_ok_req [OF register_ok r]
  have "distinct (map rb_id (map snd (placed_reqs docs)))"
    using clean unfolding clean_ids_def placed_reqs_ids by blast
  from distinct_map_snd_inj [OF this at(2) placed] at(1) have "p = (fst dd, fst ib)" by simp
  with r show ?thesis by (simp add: owns_req_def)
qed

lemma clean_owns_term:
  assumes clean: "clean_ids lt tombs (corpus_req_ids docs) (corpus_term_keys lt docs)"
    and dd: "dd \<in> set (enumerate 0 docs)" and ib: "ib \<in> set (enumerate 0 (doc_terms (snd dd)))"
  shows "owns_term lt (register tbl lt tombs docs) (fst dd) ib"
proof -
  let ?ids = "register tbl lt tombs docs" and ?key = "\<lambda>t. go_lower lt (tb_name t)"
  have placed: "((fst dd, fst ib), snd ib) \<in> set (placed_terms docs)" by (rule placed_term_intro [OF dd ib])
  then have "?key (snd ib) \<in> set (corpus_term_keys lt docs)" unfolding placed_terms_keys [symmetric] by force
  with clean_registered(2) [OF clean] obtain p t where t: "id_terms ?ids (?key (snd ib)) = Some (p, t)"
    by fastforce
  note at = ids_ok_term [OF register_ok t]
  have "distinct (map ?key (map snd (placed_terms docs)))"
    using clean unfolding clean_ids_def placed_terms_keys by blast
  from distinct_map_snd_inj [OF this at(2) placed] at(1) have "p = (fst dd, fst ib)" by simp
  with t show ?thesis by (simp add: owns_term_def)
qed

lemma clean_own:
  assumes "clean_ids lt tombs (corpus_req_ids docs) (corpus_term_keys lt docs)" and "dd \<in> set (enumerate 0 docs)"
  shows "own_reqs (register tbl lt tombs docs) dd = doc_reqs (snd dd)"
    and "own_terms lt (register tbl lt tombs docs) dd = doc_terms (snd dd)"
  using clean_owns_req [OF assms] clean_owns_term [OF assms]
  by (simp_all add: own_reqs_def own_terms_def filter_id_conv [THEN iffD2])

section \<open>The conditions of acceptance\<close>

lemma list_all_enumerate: "list_all (\<lambda>dd. P (snd dd)) (enumerate n xs) \<longleftrightarrow> list_all P xs"
  by (induction xs arbitrary: n) simp_all

lemma resolve_docs_clean_iff:
  "diag_errors (snd (resolve_docs tx tombs docs)) = [] \<longleftrightarrow> clean_corpus (tx_lower tx) tombs docs"
proof (cases "clean_ids (tx_lower tx) tombs (corpus_req_ids docs) (corpus_term_keys (tx_lower tx) docs)")
  case False
  with register_inv [of "tx_lower tx" tombs docs "tx_print tx"] show ?thesis
    by (simp add: resolve_docs_walk Let_def reg_inv_def clean_corpus_def)
next
  case True
  let ?lt = "tx_lower tx" and ?dds = "enumerate 0 docs"
  let ?ids = "register (tx_print tx) ?lt tombs docs" and ?rids = "corpus_req_ids docs"
  note iff = clean_registered(1) [OF True, of "tx_print tx"]
  have walk: "quiet (walk_log tx tombs docs) \<longleftrightarrow>
      list_all (\<lambda>dd. list_all (walk_clean_req ?lt tombs ?rids) (doc_reqs (snd dd))
        \<and> list_all (\<lambda>t. clean_prose ?rids (tb_segs t)) (doc_terms (snd dd))
        \<and> list_all (\<lambda>h. clean_prose ?rids (hb_segs h)) (doc_headings (snd dd))) ?dds"
    unfolding walk_log_def Let_def
    by (subst quiet_fold [OF quiet_doc [OF iff]]) (simp add: quiet_def list_all_iff clean_own [OF True] cong: ball_cong)
  have emit: "diag_errors (concat (map (emit_diags tx ?ids) ?dds)) = [] \<longleftrightarrow>
      list_all (\<lambda>dd. list_all (\<lambda>r. distinct (filter (\<lambda>l. l \<noteq> []) (map cb_label (rb_clauses r)))) (doc_reqs (snd dd))
        \<and> list_all (\<lambda>c. clean_prose ?rids (xb_segs c)) (doc_contexts (snd dd))) ?dds"
    by (simp add: diag_errors_concat emit_clean [OF iff] list_all_iff clean_own [OF True] cong: ball_cong)
  have "diag_errors (id_diags ?ids) = []"
    using register_inv [of ?lt tombs docs "tx_print tx"] True by (simp add: reg_inv_def)
  then have "diag_errors (snd (resolve_docs tx tombs docs)) = [] \<longleftrightarrow>
      quiet (walk_log tx tombs docs) \<and> diag_errors (concat (map (emit_diags tx ?ids) ?dds)) = []"
    by (simp add: resolve_docs_walk Let_def quiet_def)
  also have "\<dots> \<longleftrightarrow> list_all (\<lambda>dd. clean_doc ?lt tombs ?rids (snd dd)) ?dds"
    unfolding walk emit clean_doc_def clean_req_def walk_clean_req_def list_all_iff by blast
  also have "\<dots> \<longleftrightarrow> clean_corpus ?lt tombs docs"
    using True by (simp only: list_all_enumerate clean_corpus_def simp_thms)
  finally show ?thesis .
qed

section \<open>Compilation\<close>

text \<open>A document the reader accepts, and what was extracted from it.\<close>

definition sound_read :: "(string \<Rightarrow> string + string) \<Rightarrow> extractor \<Rightarrow> string \<Rightarrow> bool" where
  "sound_read rd extract p \<longleftrightarrow> (case rd p of Inl _ \<Rightarrow> False | Inr src \<Rightarrow> valid_utf8 src \<and> fst (extract p src) = [])"

definition extracted :: "(string \<Rightarrow> string + string) \<Rightarrow> extractor \<Rightarrow> string \<Rightarrow> document" where
  "extracted rd extract p = snd (extract p (projr (rd p)))"

definition read_corpus :: "(string \<Rightarrow> string + string) \<Rightarrow> extractor \<Rightarrow> string list \<Rightarrow> string + diagnostic list \<times> document list" where
  "read_corpus rd extract ps = fold (read_doc rd extract) ps (Inr ([], []))"

lemma read_fold_failed: "fold (read_doc rd extract) ps (Inl e) = Inl e"
  by (induction ps) (simp_all add: read_doc_def)

lemma read_doc_fails: "rd p = Inl e \<Longrightarrow> \<exists>m. read_doc rd extract p (Inr acc) = Inl m"
  by (cases acc) (simp add: read_doc_def)

lemma read_doc_step:
  assumes "rd p = Inr src"
  shows "\<exists>es. fst (projr (read_doc rd extract p (Inr (ds, docs)))) = ds @ es \<and> diag_errors es = es
    \<and> (es = [] \<longleftrightarrow> sound_read rd extract p)
    \<and> (es = [] \<longrightarrow> snd (projr (read_doc rd extract p (Inr (ds, docs)))) = docs @ [extracted rd extract p])
    \<and> (\<exists>r. read_doc rd extract p (Inr (ds, docs)) = Inr r)"
proof (cases "valid_utf8 src")
  case True
  let ?at = "\<lambda>n m. error_at \<lparr>loc_document = p, loc_section_path = [], loc_line = n\<rparr> m"
  obtain pds doc where ex: "extract p src = (pds, doc)" by (cases "extract p src")
  have "diag_errors (map (\<lambda>(n, m). ?at n m) pds) = map (\<lambda>(n, m). ?at n m) pds"
    unfolding split_def by (rule diag_errors_map_error)
  with True show ?thesis
    by (intro exI [of _ "map (\<lambda>(n, m). ?at n m) pds"]) (simp add: read_doc_def sound_read_def extracted_def assms ex Let_def)
next
  case False
  define d where "d = error_at \<lparr>loc_document = p, loc_section_path = [], loc_line = 1\<rparr> ''document is not valid UTF-8''"
  have "diag_errors [d] = [d]" by (simp only: d_def diag_errors_error diag_errors_Nil)
  moreover have "read_doc rd extract p (Inr (ds, docs)) = Inr (ds @ [d], docs)"
    unfolding d_def using False by (simp only: read_doc_def assms sum.case prod.case Let_def simp_thms if_True)
  ultimately show ?thesis using False by (intro exI [of _ "[d]"]) (simp add: sound_read_def assms)
qed

lemma read_fold:
  assumes "fold (read_doc rd extract) ps (Inr (ds, docs)) = Inr (ds', docs')"
  shows "\<exists>es. ds' = ds @ es \<and> diag_errors es = es \<and> (es = [] \<longleftrightarrow> list_all (sound_read rd extract) ps)
    \<and> (es = [] \<longrightarrow> docs' = docs @ map (extracted rd extract) ps)"
  using assms
proof (induction ps arbitrary: ds docs)
  case (Cons p ps)
  show ?case
  proof (cases "rd p")
    case (Inl e)
    then obtain m where "read_doc rd extract p (Inr (ds, docs)) = Inl m" using read_doc_fails by blast
    with Cons.prems show ?thesis by (simp add: read_fold_failed)
  next
    case (Inr src)
    have "rd p = Inr src" by (rule Inr)
    from read_doc_step [of rd, OF this, where ds = ds and docs = docs] obtain es r where
      es: "fst r = ds @ es" "diag_errors es = es" "es = [] \<longleftrightarrow> sound_read rd extract p"
        "es = [] \<longrightarrow> snd r = docs @ [extracted rd extract p]" and r: "read_doc rd extract p (Inr (ds, docs)) = Inr r"
      by (metis sum.sel(2))
    from Cons.prems r have "fold (read_doc rd extract) ps (Inr (fst r, snd r)) = Inr (ds', docs')" by simp
    from Cons.IH [OF this] obtain fs where
      fs: "ds' = fst r @ fs" "diag_errors fs = fs" "fs = [] \<longleftrightarrow> list_all (sound_read rd extract) ps"
        "fs = [] \<longrightarrow> docs' = snd r @ map (extracted rd extract) ps" by blast
    with es show ?thesis by (intro exI [of _ "es @ fs"]) simp
  qed
qed simp

lemma read_sound: "list_all (sound_read rd extract) ps \<Longrightarrow> \<exists>r. fold (read_doc rd extract) ps (Inr acc) = Inr r"
proof (induction ps arbitrary: acc)
  case (Cons p ps)
  obtain ds docs where acc: "acc = (ds, docs)" by (cases acc)
  from Cons.prems obtain src doc where "rd p = Inr src" "valid_utf8 src" "extract p src = ([], doc)"
    by (cases "rd p") (auto simp: sound_read_def prod_eq_iff)
  then have "read_doc rd extract p (Inr acc) = Inr (ds, docs @ [doc])" by (simp add: read_doc_def acc Let_def)
  with Cons show ?case by simp
qed simp

lemma read_corpus_sound:
  "list_all (sound_read rd extract) ps \<longleftrightarrow> read_corpus rd extract ps = Inr ([], map (extracted rd extract) ps)"
proof
  assume ok: "list_all (sound_read rd extract) ps"
  from read_sound [OF this] obtain ds docs where r: "read_corpus rd extract ps = Inr (ds, docs)"
    unfolding read_corpus_def by fastforce
  from read_fold [OF r [unfolded read_corpus_def]] ok r
  show "read_corpus rd extract ps = Inr ([], map (extracted rd extract) ps)" by auto
next
  assume "read_corpus rd extract ps = Inr ([], map (extracted rd extract) ps)"
  from read_fold [OF this [unfolded read_corpus_def]] show "list_all (sound_read rd extract) ps" by auto
qed

lemma diag_errors_sort: "diag_errors (sort_key f ds) = [] \<longleftrightarrow> diag_errors ds = []"
  by (simp add: diag_errors_def filter_empty_conv)

lemma lint_terms_errors: "diag_errors (lint_terms tx cfg sp) = []"
proof -
  have "diag_errors (map (shadow_warning tx t) ts) = []" for t ts
    by (induction ts) (simp_all add: shadow_warning_def Let_def)
  then have "diag_errors (lint_term tx c ts t) = []" for c ts t
    unfolding lint_term_def Let_def by (simp only: diag_errors_append diag_errors_warning diag_errors_Nil split: if_splits) simp
  then show ?thesis unfolding lint_terms_def by (cases cfg) (simp_all add: diag_errors_concat list_all_iff)
qed

definition lowered :: "tables \<Rightarrow> string list \<Rightarrow> string set" where
  "lowered tx rs = set (map (go_lower (tx_lower tx)) rs)"

lemma compile_read:
  "compile tx (Inr lint) (Inr ps) (Inr rs) rd extract =
     (case read_corpus rd extract ps of Inl e \<Rightarrow> Inl e
      | Inr (pds, docs) \<Rightarrow>
          let r = resolve_docs tx (lowered tx rs) docs;
              ds = sort_key diag_key (pds @ snd r @ lint_terms tx lint (fst r))
          in Inr (if diag_errors ds \<noteq> [] then None else Some (fst r), ds))"
  by (simp only: compile_def read_corpus_def lowered_def sum.case split_def Let_def)

text \<open>An accepting run, by its parts.\<close>

lemma compile_accepted_iff:
  "compile tx (Inr lint) (Inr ps) (Inr rs) rd extract = Inr (Some sp, ds) \<longleftrightarrow>
     list_all (sound_read rd extract) ps
     \<and> clean_corpus (tx_lower tx) (lowered tx rs) (map (extracted rd extract) ps)
     \<and> sp = fst (resolve_docs tx (lowered tx rs) (map (extracted rd extract) ps))
     \<and> ds = sort_key diag_key (snd (resolve_docs tx (lowered tx rs) (map (extracted rd extract) ps)) @ lint_terms tx lint sp)"
proof (cases "read_corpus rd extract ps")
  case (Inl e)
  then have "\<not> list_all (sound_read rd extract) ps" unfolding read_corpus_sound by simp
  with Inl show ?thesis by (simp add: compile_read)
next
  case (Inr r)
  obtain pds docs where r: "r = (pds, docs)" by (cases r)
  from read_fold [OF Inr [unfolded r read_corpus_def]]
  have pds: "diag_errors pds = pds" "pds = [] \<longleftrightarrow> list_all (sound_read rd extract) ps"
    "pds = [] \<longrightarrow> docs = map (extracted rd extract) ps" by auto
  show ?thesis
    unfolding compile_read Inr r sum.case prod.case Let_def
    using pds by (auto simp: diag_errors_sort lint_terms_errors resolve_docs_clean_iff)
qed

section \<open>The edges of an accepted corpus\<close>

text \<open>What the blocks of a corpus cite: identifiers and terms in their text, and declared targets.\<close>

definition cites_refs :: "seg list \<Rightarrow> edge \<Rightarrow> bool" where
  "cites_refs segs e \<longleftrightarrow>
     edge_knd e = EK_REFERENCE \<and> edge_to e \<in> Ref_Requirement ` set (find_tokens req_token segs)"

definition cites_terms :: "tables \<Rightarrow> string list \<Rightarrow> term_block list \<Rightarrow> seg list \<Rightarrow> string \<Rightarrow> edge \<Rightarrow> bool" where
  "cites_terms tx names terms segs self e \<longleftrightarrow>
     edge_knd e = EK_USES_TERM
     \<and> edge_to e \<in> (\<lambda>t. Ref_Term (tb_name t)) `
          {t \<in> set terms. go_lower (tx_lower tx) (tb_name t) \<in> set (match_terms (tx_word tx) (tx_lower tx) names segs self)}"

definition cites_declared :: "req_block \<Rightarrow> edge \<Rightarrow> bool" where
  "cites_declared r e \<longleftrightarrow>
     (\<exists>de \<in> set (rb_edges r). edge_knd e = edge_kind_of (fst de) \<and> edge_to e \<in> Ref_Requirement ` set (snd de))"

definition req_cites :: "tables \<Rightarrow> string list \<Rightarrow> term_block list \<Rightarrow> req_block \<Rightarrow> edge \<Rightarrow> bool" where
  "req_cites tx names terms r e \<longleftrightarrow>
     edge_from e = Ref_Requirement (rb_id r)
     \<and> (cites_refs (rb_segs r) e \<or> cites_terms tx names terms (rb_segs r) [] e \<or> cites_declared r e)"

definition term_cites :: "tables \<Rightarrow> string list \<Rightarrow> term_block list \<Rightarrow> term_block \<Rightarrow> edge \<Rightarrow> bool" where
  "term_cites tx names terms t e \<longleftrightarrow>
     edge_from e = Ref_Term (tb_name t)
     \<and> (cites_refs (tb_segs t) e
        \<or> cites_terms tx names terms (tb_segs t) (go_lower (tx_lower tx) (tb_name t)) e)"

definition longest_first :: "string list \<Rightarrow> string list" where
  "longest_first = sort_key (\<lambda>n. (- int (length n), n))"

definition corpus_cites :: "tables \<Rightarrow> document list \<Rightarrow> edge \<Rightarrow> bool" where
  "corpus_cites tx docs e \<longleftrightarrow>
     (let lt = tx_lower tx; terms = concat (map doc_terms docs); names = longest_first (corpus_term_keys lt docs) in
      ref_key lt (edge_from e) \<noteq> ref_key lt (edge_to e)
      \<and> ((\<exists>r \<in> set (concat (map doc_reqs docs)). req_cites tx names terms r e)
         \<or> (\<exists>t \<in> set terms. term_cites tx names terms t e)))"

definition keyed :: "(nat \<Rightarrow> nat) \<Rightarrow> edge \<Rightarrow> string \<times> edge" where
  "keyed lt e = (edge_log_key lt (edge_from e) (edge_to e) (edge_knd e), e)"

definition proper :: "(nat \<Rightarrow> nat) \<Rightarrow> edge set \<Rightarrow> (string \<times> edge) set" where
  "proper lt E = keyed lt ` {e \<in> E. ref_key lt (edge_from e) \<noteq> ref_key lt (edge_to e)}"

lemma proper_Un: "proper lt (E \<union> F) = proper lt E \<union> proper lt F"
  by (auto simp: proper_def)

lemma proper_empty [simp]: "proper lt {} = {}"
  by (simp add: proper_def)

lemma logged_add_edge:
  "set (rs_edges (add_edge lt a kind b st))
     = set (rs_edges st) \<union> proper lt {\<lparr>edge_from = a, edge_to = b, edge_knd = kind\<rparr>}"
  by (auto simp: add_edge_def proper_def keyed_def)

lemma logged_fold:
  assumes "\<And>x t. x \<in> set xs \<Longrightarrow> set (rs_edges (f x t)) = set (rs_edges t) \<union> proper lt (E x)"
  shows "set (rs_edges (fold f xs st)) = set (rs_edges st) \<union> proper lt (\<Union>x \<in> set xs. E x)"
  using assms
proof (induction xs arbitrary: st)
  case (Cons x xs)
  have "set (rs_edges (fold f xs (f x st))) = set (rs_edges (f x st)) \<union> proper lt (\<Union>x \<in> set xs. E x)"
    using Cons.prems by (intro Cons.IH) simp
  with Cons.prems [of x] show ?case by (auto simp: proper_Un)
qed simp

lemma edge_eq_iff:
  "e = \<lparr>edge_from = a, edge_to = b, edge_knd = kind\<rparr> \<longleftrightarrow> edge_from e = a \<and> edge_to e = b \<and> edge_knd e = kind"
  by (cases e) simp

lemma logged_fold_edges:
  "set (rs_edges (fold (add_edge lt a kind) bs st))
     = set (rs_edges st) \<union> proper lt {e. edge_from e = a \<and> edge_knd e = kind \<and> edge_to e \<in> set bs}"
proof -
  have "(\<Union>b \<in> set bs. {\<lparr>edge_from = a, edge_to = b, edge_knd = kind\<rparr>}) = {e. edge_from e = a \<and> edge_knd e = kind \<and> edge_to e \<in> set bs}"
    by (auto simp: edge_eq_iff)
  with logged_fold [of bs "add_edge lt a kind" lt "\<lambda>b. {\<lparr>edge_from = a, edge_to = b, edge_knd = kind\<rparr>}"] logged_add_edge
  show ?thesis by simp
qed

lemma logged_target:
  assumes "\<And>k. in_corpus ids k \<longleftrightarrow> k \<in> set rids" and "target_fits lt tombs rids word t"
  shows "set (rs_edges (resolve_target lt tombs ids comps r word t st)) = set (rs_edges st)
    \<union> proper lt {\<lparr>edge_from = Ref_Requirement (rb_id r), edge_to = Ref_Requirement t, edge_knd = edge_kind_of word\<rparr>}"
proof -
  let ?sup = "edge_kind_of word = EK_SUPERSEDES" and ?known = "in_corpus ids t"
  from assms have n1: "\<not> (?sup \<and> \<not> ?known \<and> go_lower lt t \<notin> tombs)" and n2: "\<not> (\<not> ?sup \<and> \<not> ?known)"
    by (auto simp: target_fits_def)
  show ?thesis unfolding resolve_target_def Let_def if_not_P [OF n1] if_not_P [OF n2] by (rule logged_add_edge)
qed

lemma logged_edges:
  assumes "\<And>k. in_corpus ids k \<longleftrightarrow> k \<in> set rids"
    and "list_all (\<lambda>de. list_all (target_fits lt tombs rids (fst de)) (snd de)) (rb_edges r)"
  shows "set (rs_edges (resolve_edges lt tombs ids comps r st)) = set (rs_edges st)
    \<union> proper lt {e. edge_from e = Ref_Requirement (rb_id r) \<and> cites_declared r e}"
proof -
  let ?e = "\<lambda>de t. \<lparr>edge_from = Ref_Requirement (rb_id r), edge_to = Ref_Requirement t, edge_knd = edge_kind_of (fst de)\<rparr>"
  have "set (rs_edges (fold (resolve_target lt tombs ids comps r (fst de)) (snd de) s))
      = set (rs_edges s) \<union> proper lt (\<Union>t \<in> set (snd de). {?e de t})" if "de \<in> set (rb_edges r)" for de s
    by (rule logged_fold) (rule logged_target [OF assms(1)], use assms(2) that in \<open>simp add: list_all_iff\<close>)
  then have "set (rs_edges (resolve_edges lt tombs ids comps r st)) = set (rs_edges st)
      \<union> proper lt (\<Union>de \<in> set (rb_edges r). \<Union>t \<in> set (snd de). {?e de t})"
    unfolding resolve_edges_def by (rule logged_fold)
  moreover have "(\<Union>de \<in> set (rb_edges r). \<Union>t \<in> set (snd de). {?e de t})
      = {e. edge_from e = Ref_Requirement (rb_id r) \<and> cites_declared r e}"
    unfolding set_eq_iff UN_iff singleton_iff mem_Collect_eq edge_eq_iff cites_declared_def image_iff by blast
  ultimately show ?thesis by simp
qed

lemma logged_refs:
  assumes "\<And>k. in_corpus ids k \<longleftrightarrow> k \<in> set rids" and "refs_known rids segs"
  shows "set (rs_edges (fold (add_edge lt a EK_REFERENCE) (check_refs lt ids segs) st))
    = set (rs_edges st) \<union> proper lt {e. edge_from e = a \<and> cites_refs segs e}"
proof -
  have "filter (in_corpus ids) (ref_tokens segs) = ref_tokens segs"
    using assms(2) by (simp add: filter_id_conv assms(1) refs_known_def list_all_iff ref_tokens_def)
  then have "set (check_refs lt ids segs) = Ref_Requirement ` set (find_tokens req_token segs)"
    by (simp add: check_refs_def ref_tokens_def)
  then show ?thesis by (simp add: logged_fold_edges cites_refs_def)
qed

text \<open>The terms of a clean registration are those declared, each under its key.\<close>

definition terms_own :: "(nat \<Rightarrow> nat) \<Rightarrow> identities \<Rightarrow> string list \<Rightarrow> term_block list \<Rightarrow> bool" where
  "terms_own lt ids names terms \<longleftrightarrow>
     (\<forall>t \<in> set terms. \<exists>p. id_terms ids (go_lower lt (tb_name t)) = Some (p, t))
     \<and> set names = (\<lambda>t. go_lower lt (tb_name t)) ` set terms"

lemma logged_terms:
  assumes "terms_own (tx_lower tx) ids names terms"
  shows "set (rs_edges (fold (add_edge (tx_lower tx) a EK_USES_TERM)
      (map (term_ref ids) (match_terms (tx_word tx) (tx_lower tx) names segs self)) st))
    = set (rs_edges st) \<union> proper (tx_lower tx) {e. edge_from e = a \<and> cites_terms tx names terms segs self e}"
proof -
  let ?lt = "tx_lower tx" and ?ms = "match_terms (tx_word tx) (tx_lower tx) names segs self"
  have ref: "term_ref ids (go_lower ?lt (tb_name t)) = Ref_Term (tb_name t)" if "t \<in> set terms" for t
    using assms that by (auto simp: terms_own_def term_ref_def)
  have sub: "set ?ms \<subseteq> (\<lambda>t. go_lower ?lt (tb_name t)) ` set terms"
    using match_terms_subset assms unfolding terms_own_def by metis
  have "term_ref ids ` set ?ms = (\<lambda>t. Ref_Term (tb_name t)) ` {t \<in> set terms. go_lower ?lt (tb_name t) \<in> set ?ms}"
  proof (intro equalityI subsetI)
    fix x assume "x \<in> term_ref ids ` set ?ms"
    then obtain n where n: "n \<in> set ?ms" "x = term_ref ids n" by blast
    with sub obtain t where "t \<in> set terms" "n = go_lower ?lt (tb_name t)" by blast
    with n ref show "x \<in> (\<lambda>t. Ref_Term (tb_name t)) ` {t \<in> set terms. go_lower ?lt (tb_name t) \<in> set ?ms}" by blast
  next
    fix x assume "x \<in> (\<lambda>t. Ref_Term (tb_name t)) ` {t \<in> set terms. go_lower ?lt (tb_name t) \<in> set ?ms}"
    then obtain t where "t \<in> set terms" "go_lower ?lt (tb_name t) \<in> set ?ms" "x = Ref_Term (tb_name t)" by blast
    with ref show "x \<in> term_ref ids ` set ?ms" by (metis image_eqI)
  qed
  then show ?thesis by (simp add: logged_fold_edges cites_terms_def)
qed

lemma rs_edges_say_set: "set (rs_edges (say ds st)) = set (rs_edges st)"
  by (simp only: say_fields)

lemma logged_req:
  assumes "\<And>k. in_corpus ids k \<longleftrightarrow> k \<in> set rids" and "terms_own (tx_lower tx) ids names terms"
    and "clean_req (tx_lower tx) tombs rids r"
  shows "set (rs_edges (resolve_req (tx_word tx) (tx_lower tx) tombs ids names comps r st))
    = set (rs_edges st) \<union> proper (tx_lower tx) {e. req_cites tx names terms r e}"
proof -
  have "{e. req_cites tx names terms r e} = {e. edge_from e = Ref_Requirement (rb_id r) \<and> cites_refs (rb_segs r) e}
      \<union> {e. edge_from e = Ref_Requirement (rb_id r) \<and> cites_terms tx names terms (rb_segs r) [] e}
      \<union> {e. edge_from e = Ref_Requirement (rb_id r) \<and> cites_declared r e}"
    by (auto simp: req_cites_def)
  moreover from assms(3) have "refs_known rids (rb_segs r)"
    and "list_all (\<lambda>de. list_all (target_fits (tx_lower tx) tombs rids (fst de)) (snd de)) (rb_edges r)"
    by (simp_all add: clean_req_def)
  ultimately show ?thesis
    unfolding resolve_req_def Let_def
    by (simp only: logged_edges [OF assms(1)] logged_terms [OF assms(2)] logged_refs [OF assms(1)] rs_edges_say_set proper_Un Un_assoc)
qed

lemma logged_term:
  assumes "\<And>k. in_corpus ids k \<longleftrightarrow> k \<in> set rids" and "terms_own (tx_lower tx) ids names terms"
    and "clean_prose rids (tb_segs t)"
  shows "set (rs_edges (resolve_term (tx_word tx) (tx_lower tx) ids names t st))
    = set (rs_edges st) \<union> proper (tx_lower tx) {e. term_cites tx names terms t e}"
proof -
  have "{e. term_cites tx names terms t e} = {e. edge_from e = Ref_Term (tb_name t) \<and> cites_refs (tb_segs t) e}
      \<union> {e. edge_from e = Ref_Term (tb_name t) \<and> cites_terms tx names terms (tb_segs t) (go_lower (tx_lower tx) (tb_name t)) e}"
    by (auto simp: term_cites_def)
  moreover from assms(3) have "refs_known rids (tb_segs t)" by (simp add: clean_prose_def)
  ultimately show ?thesis
    unfolding resolve_term_def Let_def
    by (simp only: logged_terms [OF assms(2)] logged_refs [OF assms(1)] rs_edges_say_set proper_Un Un_assoc)
qed

lemma logged_heading: "set (rs_edges (resolve_heading ids h st)) = set (rs_edges st) \<union> proper lt {}"
  unfolding resolve_heading_def by (simp only: say_fields proper_empty Un_empty_right)

lemma logged_doc:
  assumes "\<And>k. in_corpus ids k \<longleftrightarrow> k \<in> set rids" and "terms_own (tx_lower tx) ids names terms"
    and "clean_doc (tx_lower tx) tombs rids (snd dd)"
    and "own_reqs ids dd = doc_reqs (snd dd)" and "own_terms (tx_lower tx) ids dd = doc_terms (snd dd)"
  shows "set (rs_edges (resolve_doc (tx_word tx) (tx_lower tx) tombs ids names comps dd st))
    = set (rs_edges st) \<union> proper (tx_lower tx)
        ({e. \<exists>r \<in> set (doc_reqs (snd dd)). req_cites tx names terms r e}
         \<union> {e. \<exists>t \<in> set (doc_terms (snd dd)). term_cites tx names terms t e})"
proof -
  let ?lt = "tx_lower tx"
  have "set (rs_edges (fold (resolve_req (tx_word tx) ?lt tombs ids names comps) (doc_reqs (snd dd)) s))
      = set (rs_edges s) \<union> proper ?lt (\<Union>r \<in> set (doc_reqs (snd dd)). {e. req_cites tx names terms r e})" for s
    by (rule logged_fold) (rule logged_req [OF assms(1,2)], use assms(3) in \<open>simp add: clean_doc_def list_all_iff\<close>)
  moreover have "set (rs_edges (fold (resolve_term (tx_word tx) ?lt ids names) (doc_terms (snd dd)) s))
      = set (rs_edges s) \<union> proper ?lt (\<Union>t \<in> set (doc_terms (snd dd)). {e. term_cites tx names terms t e})" for s
    by (rule logged_fold) (rule logged_term [OF assms(1,2)], use assms(3) in \<open>simp add: clean_doc_def list_all_iff\<close>)
  moreover have "set (rs_edges (fold (resolve_heading ids) hs s)) = set (rs_edges s) \<union> proper ?lt (\<Union>h \<in> set hs. {})" for hs s
    by (rule logged_fold) (rule logged_heading)
  ultimately show ?thesis
    unfolding resolve_doc_def assms(4,5) by (simp add: proper_Un Collect_bex_eq Un_assoc)
qed

lemma matcher_names_clean:
  assumes "clean_ids lt tombs (corpus_req_ids docs) (corpus_term_keys lt docs)"
  shows "matcher_names lt (register tbl lt tombs docs) docs = longest_first (corpus_term_keys lt docs)"
proof -
  have "map (\<lambda>dd. map (\<lambda>t. go_lower lt (tb_name t)) (own_terms lt (register tbl lt tombs docs) dd)) (enumerate 0 docs)
      = map (\<lambda>dd. map (\<lambda>t. go_lower lt (tb_name t)) (doc_terms (snd dd))) (enumerate 0 docs)"
    by (rule map_cong [OF refl]) (simp only: clean_own [OF assms])
  also have "\<dots> = map (\<lambda>d. map (\<lambda>t. go_lower lt (tb_name t)) (doc_terms d)) docs"
    by (rule map_snd_enumerate_comp [of "\<lambda>d. map (\<lambda>t. go_lower lt (tb_name t)) (doc_terms d)"])
  finally show ?thesis
    by (simp only: matcher_names_def longest_first_def corpus_term_keys_def map_concat map_map o_def)
qed

lemma clean_all_own:
  assumes "clean_ids lt tombs (corpus_req_ids docs) (corpus_term_keys lt docs)"
  shows "all_own_reqs (register tbl lt tombs docs) docs = concat (map doc_reqs docs)"
    and "all_own_terms lt (register tbl lt tombs docs) docs = concat (map doc_terms docs)"
proof -
  let ?ids = "register tbl lt tombs docs"
  have "map (own_reqs ?ids) (enumerate 0 docs) = map (\<lambda>dd. doc_reqs (snd dd)) (enumerate 0 docs)"
    and "map (own_terms lt ?ids) (enumerate 0 docs) = map (\<lambda>dd. doc_terms (snd dd)) (enumerate 0 docs)"
    by (simp_all add: clean_own [OF assms])
  then show "all_own_reqs ?ids docs = concat (map doc_reqs docs)"
    and "all_own_terms lt ?ids docs = concat (map doc_terms docs)"
    by (simp_all only: all_own_reqs_def all_own_terms_def map_snd_enumerate_comp [of doc_reqs] map_snd_enumerate_comp [of doc_terms])
qed

lemma clean_terms_own:
  assumes "clean_ids lt tombs (corpus_req_ids docs) (corpus_term_keys lt docs)"
  shows "terms_own lt (register tbl lt tombs docs) (longest_first (corpus_term_keys lt docs)) (concat (map doc_terms docs))"
  unfolding terms_own_def clean_all_own(2) [OF assms, of tbl, symmetric]
  using own_term_iff [OF register_ok [of lt tombs docs tbl]]
  by (auto simp: longest_first_def corpus_term_keys_def clean_all_own(2) [OF assms])

lemma logged_walk:
  assumes clean: "clean_corpus (tx_lower tx) tombs docs"
  shows "set (rs_edges (walk_log tx tombs docs)) = keyed (tx_lower tx) ` {e. corpus_cites tx docs e}"
proof -
  let ?lt = "tx_lower tx" and ?terms = "concat (map doc_terms docs)"
  let ?ids = "register (tx_print tx) ?lt tombs docs" and ?names = "longest_first (corpus_term_keys ?lt docs)"
  let ?E = "\<lambda>d. {e. \<exists>r \<in> set (doc_reqs d). req_cites tx ?names ?terms r e} \<union> {e. \<exists>t \<in> set (doc_terms d). term_cites tx ?names ?terms t e}"
  from clean have ids: "clean_ids ?lt tombs (corpus_req_ids docs) (corpus_term_keys ?lt docs)"
    and doc: "clean_doc ?lt tombs (corpus_req_ids docs) d" if "d \<in> set docs" for d
    using that by (simp_all add: clean_corpus_def list_all_iff)
  have ids: "clean_ids ?lt tombs (corpus_req_ids docs) (corpus_term_keys ?lt docs)" using clean by (simp add: clean_corpus_def)
  have mem: "snd dd \<in> set docs" if "dd \<in> set (enumerate 0 docs)" for dd
    using that by (auto simp: enumerate_eq_zip in_set_zip) (metis nth_mem)
  have "set (rs_edges (fold (resolve_doc (tx_word tx) ?lt tombs ?ids ?names comps) (enumerate 0 docs) st))
      = set (rs_edges st) \<union> proper ?lt (\<Union>dd \<in> set (enumerate 0 docs). ?E (snd dd))" for comps st
    by (rule logged_fold)
      (rule logged_doc [OF clean_registered(1) [OF ids] clean_terms_own [OF ids] doc [OF mem] clean_own [OF ids]])
  then have "set (rs_edges (walk_log tx tombs docs)) = proper ?lt (\<Union>dd \<in> set (enumerate 0 docs). ?E (snd dd))"
    unfolding walk_log_def Let_def matcher_names_clean [OF ids] by simp
  also have "(\<Union>dd \<in> set (enumerate 0 docs). ?E (snd dd)) = (\<Union>d \<in> set docs. ?E d)"
    using arg_cong [OF map_snd_enumerate_comp [of ?E 0 docs], of set] by (simp only: set_map)
  also have "proper ?lt (\<Union>d \<in> set docs. ?E d) = keyed ?lt ` {e. corpus_cites tx docs e}"
    unfolding proper_def corpus_cites_def Let_def by (rule arg_cong [where f = "image (keyed ?lt)"]) auto
  finally show ?thesis .
qed

definition edge_key :: "(nat \<Rightarrow> nat) \<Rightarrow> edge \<Rightarrow> string" where
  "edge_key lt e = fst (keyed lt e)"

text \<open>One edge for each key cited, in key order.\<close>

definition edges_exact :: "tables \<Rightarrow> document list \<Rightarrow> edge list \<Rightarrow> bool" where
  "edges_exact tx docs es \<longleftrightarrow>
     sorted (map (edge_key (tx_lower tx)) es) \<and> distinct (map (edge_key (tx_lower tx)) es)
     \<and> set es \<subseteq> {e. corpus_cites tx docs e}
     \<and> edge_key (tx_lower tx) ` set es = edge_key (tx_lower tx) ` {e. corpus_cites tx docs e}"

lemma edge_list_keys:
  assumes "\<And>k e. (k, e) \<in> set log \<Longrightarrow> edge_key lt e = k"
  shows "map (edge_key lt) (edge_list log) = sort (remdups (map fst log))"
proof -
  have keys: "map (edge_key lt) (concat (map (\<lambda>k. case map_of (rev log) k of None \<Rightarrow> [] | Some e \<Rightarrow> [e]) ks)) = ks"
    if "set ks \<subseteq> fst ` set log" for ks
    using that
  proof (induction ks)
    case (Cons k ks)
    then obtain e where e: "map_of (rev log) k = Some e"
      by (metis list.set_intros(1) map_of_eq_None_iff option.exhaust set_rev subsetD)
    then have "(k, e) \<in> set log" using map_of_SomeD by fastforce
    with Cons e assms show ?case by simp
  qed simp
  have "set (sort (remdups (map fst log))) \<subseteq> fst ` set log" by simp
  from keys [OF this] show ?thesis unfolding edge_list_def .
qed

lemma accepted_edges:
  assumes "clean_corpus (tx_lower tx) tombs docs"
  shows "edges_exact tx docs (spec_edges (fst (resolve_docs tx tombs docs)))"
proof -
  let ?log = "rs_edges (walk_log tx tombs docs)" and ?lt = "tx_lower tx"
  have es: "spec_edges (fst (resolve_docs tx tombs docs)) = edge_list ?log"
    by (simp add: resolve_docs_walk assemble_def Let_def)
  have log: "set ?log = keyed ?lt ` {e. corpus_cites tx docs e}" by (rule logged_walk [OF assms])
  have key: "edge_key ?lt e = k \<and> corpus_cites tx docs e" if "(k, e) \<in> set ?log" for k e
    using that unfolding log by (auto simp: keyed_def edge_key_def)
  have keys: "map (edge_key ?lt) (edge_list ?log) = sort (remdups (map fst ?log))"
    by (rule edge_list_keys) (use key in blast)
  have "edge_key ?lt ` set (edge_list ?log) = fst ` set ?log"
    using arg_cong [OF keys, of set] by simp
  also have "\<dots> = edge_key ?lt ` {e. corpus_cites tx docs e}" unfolding log by (simp add: image_image edge_key_def)
  finally have "edge_key ?lt ` set (edge_list ?log) = edge_key ?lt ` {e. corpus_cites tx docs e}" .
  moreover have "set (edge_list ?log) \<subseteq> {e. corpus_cites tx docs e}"
    using key by (auto elim: edge_list_logged)
  ultimately show ?thesis unfolding edges_exact_def es keys by simp
qed

section \<open>What an accepted corpus holds\<close>

lemma has_prefix_take: "has_prefix s p \<Longrightarrow> take (length p) s = p"
  by (induction s p rule: has_prefix.induct) auto

lemma keyword_token_word: "keyword_token prev s = Some n \<Longrightarrow> take n s \<in> set keyword_words"
  unfolding keyword_token_def by (auto simp: has_prefix_take find_Some_iff split: if_splits)

lemma keyword_found: "x \<in> set (find_all m prev s) \<Longrightarrow> m = keyword_token \<Longrightarrow> x \<in> set keyword_words"
proof (induction m prev s rule: find_all.induct)
  case (2 m prev c cs)
  show ?case
  proof (cases "m prev (c # cs)")
    case None
    with 2 show ?thesis by simp
  next
    case (Some n)
    with 2 keyword_token_word [of prev "c # cs" n] show ?thesis by (cases n) auto
  qed
qed simp

lemma keyword_tokens: "x \<in> set (find_tokens keyword_token segs) \<Longrightarrow> x \<in> set keyword_words"
  using keyword_found by (auto simp: find_tokens_def)

lemma keyword_of_word: "w \<in> set keyword_words \<Longrightarrow> keyword_of w \<noteq> KW_UNSPECIFIED"
  by (auto simp: keyword_words_def keyword_of_def)

lemma clean_keyword:
  assumes "clean_req lt tombs rids r"
  shows "req_keyword (compile_req tx labels r) \<noteq> KW_UNSPECIFIED"
proof -
  from assms have "length (find_tokens keyword_token (rb_segs r)) = 1" by (simp add: clean_req_def)
  then obtain w where w: "find_tokens keyword_token (rb_segs r) = [w]" by (auto simp: length_Suc_conv)
  then have "w \<in> set keyword_words" by (intro keyword_tokens [of w "rb_segs r"]) simp
  then have "keyword_of w \<noteq> KW_UNSPECIFIED" by (rule keyword_of_word)
  with w show ?thesis by (simp add: compile_req_def Let_def)
qed

text \<open>What the compiled blocks hold, field by field. A requirement keeps its identity, kind and place, the
  one keyword of its text, the canonical text, the source as written, the digests over the text with
  its context extent and over the sources with the link labels of its document, its clauses numbered
  from one, and its pointers.\<close>

definition keeps_requirement :: "tables \<Rightarrow> document \<times> req_block \<Rightarrow> requirement \<Rightarrow> bool" where
  "keeps_requirement tx dr q \<longleftrightarrow>
     (let r = snd dr; nfc = tx_nfc tx; sha = tx_sha tx in
      req_id q = rb_id r \<and> req_kind q = clause_kind_of (rb_kind r) \<and> req_location q = rb_loc r
      \<and> (\<exists>w. find_tokens keyword_token (rb_segs r) = [w] \<and> req_keyword q = keyword_of w)
      \<and> req_text q = canon_text nfc (plain (rb_segs r)) \<and> req_source q = rb_source r
      \<and> req_content_hash q = hash_parts nfc sha (extent_parts (plain (rb_segs r)) (rb_extent_segs r))
      \<and> req_source_hash q = source_digest sha (rb_source r # rb_extent_source r @ doc_ref_labels (fst dr))
      \<and> map cl_ordinal (req_clauses q) = [1..<Suc (length (rb_clauses r))]
      \<and> map cl_label (req_clauses q) = map cb_label (rb_clauses r)
      \<and> map cl_text (req_clauses q) = map (\<lambda>c. canon_text nfc (plain (cb_segs c))) (rb_clauses r)
      \<and> map (\<lambda>p. (ep_name p, ep_start p, ep_end p)) (req_pointers q)
          = map (\<lambda>p. (pt_name p, pt_start p, pt_end p)) (rb_pointers r))"

definition keeps_term :: "tables \<Rightarrow> term_block \<Rightarrow> spec_term \<Rightarrow> bool" where
  "keeps_term tx t u \<longleftrightarrow>
     term_name u = tb_name t \<and> term_text u = canon_text (tx_nfc tx) (plain (tb_segs t))
     \<and> term_content_hash u = hash_parts (tx_nfc tx) (tx_sha tx) (extent_parts (plain (tb_segs t)) (tb_extent_segs t))
     \<and> term_source u = tb_source t \<and> term_location u = tb_loc t"

text \<open>The references of a paragraph are the identifiers its text names, once each, in key order.\<close>

definition keeps_references :: "tables \<Rightarrow> seg list \<Rightarrow> node_ref list \<Rightarrow> bool" where
  "keeps_references tx segs refs \<longleftrightarrow>
     set refs = Ref_Requirement ` set (find_tokens req_token segs) \<and> distinct refs
     \<and> sorted (map (ref_key (tx_lower tx)) refs)"

definition keeps_note :: "tables \<Rightarrow> context_block \<Rightarrow> spec_note \<Rightarrow> bool" where
  "keeps_note tx c n \<longleftrightarrow>
     note_text n = canon_text (tx_nfc tx) (plain (xb_segs c)) \<and> note_source n = xb_source c
     \<and> note_attached_to n = xb_attached c \<and> keeps_references tx (xb_segs c) (note_references n) \<and> note_location n = xb_loc c"

definition keeps_annotation :: "tables \<Rightarrow> context_block \<Rightarrow> annotation \<Rightarrow> bool" where
  "keeps_annotation tx c a \<longleftrightarrow>
     ann_text a = canon_text (tx_nfc tx) (plain (xb_segs c)) \<and> ann_source a = xb_source c
     \<and> keeps_references tx (xb_segs c) (ann_references a) \<and> ann_location a = xb_loc c"

definition keeps_document :: "document \<Rightarrow> spec_document \<Rightarrow> bool" where
  "keeps_document d s \<longleftrightarrow> sd_path s = doc_path d \<and> sd_title s = doc_title d \<and> sd_sections s = doc_sections d"

text \<open>Each block has its own compiled one, and there are no others, in whatever order.\<close>

definition kept_as :: "('a \<Rightarrow> 'b \<Rightarrow> bool) \<Rightarrow> 'a list \<Rightarrow> 'b list \<Rightarrow> bool" where
  "kept_as R xs ys \<longleftrightarrow> (\<exists>zs. mset zs = mset ys \<and> list_all2 R xs zs)"

definition blocks_kept :: "tables \<Rightarrow> document list \<Rightarrow> spec \<Rightarrow> bool" where
  "blocks_kept tx docs sp \<longleftrightarrow>
     (let context = concat (map doc_contexts docs) in
      kept_as (keeps_requirement tx) (concat (map (\<lambda>d. map (Pair d) (doc_reqs d)) docs)) (spec_requirements sp)
      \<and> kept_as (keeps_term tx) (concat (map doc_terms docs)) (spec_terms sp)
      \<and> kept_as (keeps_note tx) (filter xb_note context) (spec_notes sp)
      \<and> kept_as (keeps_annotation tx) (filter (\<lambda>c. \<not> xb_note c) context) (spec_annotations sp)
      \<and> kept_as keeps_document docs (spec_documents sp)
      \<and> sorted (map (\<lambda>t. (go_lower (tx_lower tx) (term_name t), term_name t)) (spec_terms sp))
      \<and> sorted (map (\<lambda>n. (attach_key (note_attached_to n), note_source n)) (spec_notes sp))
      \<and> sorted (map ann_source (spec_annotations sp)))"

lemma kept_as_map: "(\<And>x. x \<in> set xs \<Longrightarrow> R x (f x)) \<Longrightarrow> kept_as R xs (sort_key k (map f xs))"
  unfolding kept_as_def by (rule exI [of _ "map f xs"]) (simp add: list_all2_conv_all_nth)

lemma compiled_clauses:
  "map cl_ordinal (clauses_of tx r) = [1..<Suc (length (rb_clauses r))]"
  "map cl_label (clauses_of tx r) = map cb_label (rb_clauses r)"
  "map cl_text (clauses_of tx r) = map (\<lambda>c. canon_text (tx_nfc tx) (plain (cb_segs c))) (rb_clauses r)"
  by (rule nth_equalityI; simp add: clauses_of_def nth_enumerate_eq plain_canon_def del: upt_Suc)+

lemma compiled_requirement:
  assumes "clean_req lt tombs rids r"
  shows "keeps_requirement tx (d, r) (compile_req tx (doc_ref_labels d) r)"
proof -
  from assms have "length (find_tokens keyword_token (rb_segs r)) = 1" by (simp add: clean_req_def)
  then obtain w where w: "find_tokens keyword_token (rb_segs r) = [w]" by (auto simp: length_Suc_conv)
  then show ?thesis
    by (simp add: keeps_requirement_def compile_req_def compiled_clauses Let_def o_def del: upt_Suc)
qed

lemma compiled_references:
  assumes "\<And>k. in_corpus ids k \<longleftrightarrow> k \<in> set rids" and "refs_known rids segs"
  shows "keeps_references tx segs (check_refs (tx_lower tx) ids segs)"
proof -
  have all: "in_corpus ids k" if "k \<in> set (find_tokens req_token segs)" for k
    using assms that by (simp add: refs_known_def list_all_iff)
  have nub: "set (nub xs) = set xs" "distinct (nub xs)" for xs :: "string list" by (induction xs) auto
  have "filter (in_corpus ids) (ref_tokens segs) = ref_tokens segs"
    using all nub by (simp add: filter_id_conv ref_tokens_def)
  then show ?thesis by (simp add: keeps_references_def check_refs_def ref_tokens_def nub distinct_map inj_on_def)
qed

lemma accepted_blocks:
  assumes clean: "clean_corpus (tx_lower tx) tombs docs"
  shows "blocks_kept tx docs (fst (resolve_docs tx tombs docs))"
proof -
  let ?lt = "tx_lower tx" and ?ctx = "concat (map doc_contexts docs)"
  let ?ids = "register (tx_print tx) ?lt tombs docs" and ?sp = "fst (resolve_docs tx tombs docs)"
  let ?blocks = "concat (map (\<lambda>d. map (Pair d) (doc_reqs d)) docs)"
  from clean have ids: "clean_ids ?lt tombs (corpus_req_ids docs) (corpus_term_keys ?lt docs)"
    and doc: "clean_doc ?lt tombs (corpus_req_ids docs) d" if "d \<in> set docs" for d
    using that by (simp_all add: clean_corpus_def list_all_iff)
  have clean_ids: "clean_ids ?lt tombs (corpus_req_ids docs) (corpus_term_keys ?lt docs)"
    using clean by (simp add: clean_corpus_def)
  note known = clean_registered(1) [OF clean_ids, of "tx_print tx"]
  have sp: "?sp = assemble tx ?ids docs (rs_edges (walk_log tx tombs docs))" by (simp add: resolve_docs_walk Let_def)
  have "concat (map (\<lambda>dd. map (compile_req tx (doc_ref_labels (snd dd))) (own_reqs ?ids dd)) (enumerate 0 docs))
      = concat (map (\<lambda>dd. map (compile_req tx (doc_ref_labels (snd dd))) (doc_reqs (snd dd))) (enumerate 0 docs))"
    by (intro arg_cong [where f = concat] map_cong [OF refl]) (simp only: clean_own(1) [OF clean_ids])
  also have "\<dots> = concat (map (\<lambda>d. map (compile_req tx (doc_ref_labels d)) (doc_reqs d)) docs)"
    by (simp only: map_snd_enumerate_comp [of "\<lambda>d. map (compile_req tx (doc_ref_labels d)) (doc_reqs d)"])
  also have "\<dots> = map (\<lambda>(d, r). compile_req tx (doc_ref_labels d) r) ?blocks" by (simp add: map_concat o_def)
  finally have reqs: "spec_requirements ?sp = sort_key req_id (map (\<lambda>(d, r). compile_req tx (doc_ref_labels d) r) ?blocks)"
    unfolding sp assemble_def Let_def by simp
  have "concat (map (\<lambda>dd. map (compile_term tx) (own_terms ?lt ?ids dd)) (enumerate 0 docs))
      = concat (map (\<lambda>dd. map (compile_term tx) (doc_terms (snd dd))) (enumerate 0 docs))"
    by (intro arg_cong [where f = concat] map_cong [OF refl]) (simp only: clean_own(2) [OF clean_ids])
  also have "\<dots> = map (compile_term tx) (concat (map doc_terms docs))"
    by (simp add: map_snd_enumerate_comp [of "\<lambda>d. map (compile_term tx) (doc_terms d)"] map_concat o_def)
  finally have terms: "spec_terms ?sp = sort_key (\<lambda>t. (go_lower ?lt (term_name t), term_name t))
      (map (compile_term tx) (concat (map doc_terms docs)))"
    unfolding sp assemble_def Let_def by simp
  have "kept_as (keeps_requirement tx) ?blocks (spec_requirements ?sp)"
    unfolding reqs
  proof (rule kept_as_map)
    fix x assume "x \<in> set ?blocks"
    then obtain d r where x: "x = (d, r)" and d: "d \<in> set docs" and r: "r \<in> set (doc_reqs d)" by auto
    from doc [OF d] r have "clean_req ?lt tombs (corpus_req_ids docs) r" by (simp add: clean_doc_def list_all_iff)
    then show "keeps_requirement tx x ((\<lambda>(d, r). compile_req tx (doc_ref_labels d) r) x)"
      unfolding x by (simp add: compiled_requirement)
  qed
  moreover have "kept_as (keeps_term tx) (concat (map doc_terms docs)) (spec_terms ?sp)"
    unfolding terms by (rule kept_as_map) (simp add: keeps_term_def compile_term_def Let_def)
  moreover have refs: "keeps_references tx (xb_segs c) (check_refs ?lt ?ids (xb_segs c))" if "c \<in> set ?ctx" for c
  proof (rule compiled_references)
    show "in_corpus ?ids k \<longleftrightarrow> k \<in> set (corpus_req_ids docs)" for k by (rule known)
    from that doc show "refs_known (corpus_req_ids docs) (xb_segs c)"
      by (auto simp: clean_doc_def clean_prose_def list_all_iff)
  qed
  have "kept_as (keeps_note tx) (filter xb_note ?ctx) (spec_notes ?sp)"
    unfolding sp assemble_def Let_def spec.simps
    by (rule kept_as_map) (use refs in \<open>simp add: keeps_note_def compile_note_def plain_canon_def\<close>)
  moreover have "kept_as (keeps_annotation tx) (filter (\<lambda>c. \<not> xb_note c) ?ctx) (spec_annotations ?sp)"
    unfolding sp assemble_def Let_def spec.simps
    by (rule kept_as_map) (use refs in \<open>simp add: keeps_annotation_def compile_annotation_def plain_canon_def\<close>)
  moreover have "kept_as keeps_document docs (spec_documents ?sp)"
    unfolding sp assemble_def Let_def spec.simps by (rule kept_as_map) (simp add: keeps_document_def)
  moreover have "sorted (map (\<lambda>n. (attach_key (note_attached_to n), note_source n)) (spec_notes ?sp))"
    "sorted (map ann_source (spec_annotations ?sp))"
    unfolding sp assemble_def Let_def spec.simps by (rule sorted_sort_key)+
  moreover have "sorted (map (\<lambda>t. (go_lower ?lt (term_name t), term_name t)) (spec_terms ?sp))"
    unfolding terms by (rule sorted_sort_key)
  ultimately show ?thesis unfolding blocks_kept_def Let_def by (intro conjI)
qed

definition corpus_kept :: "tables \<Rightarrow> string set \<Rightarrow> document list \<Rightarrow> spec \<Rightarrow> bool" where
  "corpus_kept tx tombs docs sp \<longleftrightarrow>
     (let lt = tx_lower tx; rids = map req_id (spec_requirements sp); keys = map (term_key lt) (spec_terms sp) in
      sorted rids \<and> distinct rids \<and> mset rids = mset (corpus_req_ids docs)
      \<and> distinct keys \<and> mset keys = mset (corpus_term_keys lt docs)
      \<and> list_all (\<lambda>i. go_lower lt i \<notin> tombs) rids \<and> list_all (\<lambda>k. k \<notin> tombs) keys
      \<and> list_all (\<lambda>r. req_keyword r \<noteq> KW_UNSPECIFIED) (spec_requirements sp)
      \<and> sorted (map sd_path (spec_documents sp)) \<and> mset (map sd_path (spec_documents sp)) = mset (map doc_path docs))"

lemma accepted_kept:
  assumes clean: "clean_corpus (tx_lower tx) tombs docs"
  shows "corpus_kept tx tombs docs (fst (resolve_docs tx tombs docs))"
proof -
  let ?lt = "tx_lower tx"
  let ?ids = "register (tx_print tx) ?lt tombs docs" and ?sp = "fst (resolve_docs tx tombs docs)"
  from clean have ids: "clean_ids ?lt tombs (corpus_req_ids docs) (corpus_term_keys ?lt docs)"
    by (simp add: clean_corpus_def)
  have sp: "?sp = assemble tx ?ids docs (rs_edges (walk_log tx tombs docs))" by (simp add: resolve_docs_walk Let_def)
  have reqs: "mset (map req_id (spec_requirements ?sp)) = mset (corpus_req_ids docs)"
    unfolding sp spec_req_ids clean_all_own(1) [OF ids] corpus_req_ids_def ..
  have keys: "mset (map (term_key ?lt) (spec_terms ?sp)) = mset (corpus_term_keys ?lt docs)"
    unfolding sp spec_term_keys clean_all_own(2) [OF ids] corpus_term_keys_def ..
  have "sorted (map req_id (spec_requirements ?sp))" by (simp add: sp assemble_def Let_def)
  moreover have "distinct (map req_id (spec_requirements ?sp))" "distinct (map (term_key ?lt) (spec_terms ?sp))"
    using mset_eq_imp_distinct_iff [OF reqs] mset_eq_imp_distinct_iff [OF keys] ids by (simp_all add: clean_ids_def)
  moreover have "list_all (\<lambda>i. go_lower ?lt i \<notin> tombs) (map req_id (spec_requirements ?sp))"
    "list_all (\<lambda>k. k \<notin> tombs) (map (term_key ?lt) (spec_terms ?sp))"
    using ids mset_eq_setD [OF reqs] mset_eq_setD [OF keys] by (simp_all add: clean_ids_def list_all_iff)
  moreover have "list_all (\<lambda>r. req_keyword r \<noteq> KW_UNSPECIFIED) (spec_requirements ?sp)"
  proof -
    have "req_keyword q \<noteq> KW_UNSPECIFIED" if q: "q \<in> set (spec_requirements ?sp)" for q
    proof -
      from q obtain dd r where dd: "dd \<in> set (enumerate 0 docs)" "r \<in> set (own_reqs ?ids dd)"
        and q': "q = compile_req tx (doc_ref_labels (snd dd)) r"
        by (auto simp: sp assemble_def Let_def)
      then have "r \<in> set (concat (map doc_reqs docs))"
        unfolding clean_all_own(1) [OF ids, of "tx_print tx", symmetric] by (auto simp: all_own_reqs_def)
      with clean have "clean_req ?lt tombs (corpus_req_ids docs) r"
        by (auto simp: clean_corpus_def clean_doc_def list_all_iff)
      with q' show ?thesis by (simp only: clean_keyword not_False_eq_True)
    qed
    then show ?thesis by (simp add: list_all_iff)
  qed
  moreover have "sorted (map sd_path (spec_documents ?sp))" "mset (map sd_path (spec_documents ?sp)) = mset (map doc_path docs)"
    by (simp_all add: sp assemble_def Let_def image_mset.compositionality o_def)
  ultimately show ?thesis using reqs keys unfolding corpus_kept_def Let_def by blast
qed

section \<open>Properties\<close>

lemma refusal_empty: "refusal ds = [] \<longleftrightarrow> diag_errors ds = []"
  by (cases "diag_errors ds") (simp_all add: refusal_def diagnostic_string_def Let_def)

text \<open>C6: when a compilation yields a corpus. \<open>Compile\<close> returns the compiled corpus precisely when
  the manifest, the enumeration and the tombstones load, every document reads as valid UTF-8
  without a profile fault, and the extracted corpus is clean: identities are unique, not
  tombstoned, every requirement carries exactly one keyword and distinct clause labels, no
  other text carries a keyword, and every reference and declared target is known (or, for a
  supersedes target, tombstoned).\<close>

theorem compile_accepts_iff:
  "(\<exists>sp ds. compile tx mf paths retired rd extract = Inr (Some sp, ds)) \<longleftrightarrow>
     (\<exists>lint ps rs. mf = Inr lint \<and> paths = Inr ps \<and> retired = Inr rs
        \<and> list_all (sound_read rd extract) ps
        \<and> clean_corpus (tx_lower tx) (lowered tx rs) (map (extracted rd extract) ps))"
proof (cases mf)
  case (Inl e)
  then show ?thesis by (simp add: compile_def)
next
  case (Inr lint)
  then show ?thesis
    by (cases paths; cases retired) (simp_all add: compile_accepted_iff, simp_all add: compile_def)
qed


text \<open>C23: the bundle over a compilation. Whatever the corpus, in a bundle computed from the corpus a
  compilation returned every requirement is one of the corpus, every reference of its notes and annotations and both
  ends of its edges resolve within it, and no uses-term, reference, refines or depends edge of
  the corpus leads out of it: the compiler establishes what the projection needs. Identifiers in printed sources
  are not covered: the target of a supersedes declaration may not resolve in the bundle.\<close>

theorem compiled_bundle_self_contained:
  "case compile tx mf paths retired rd extract of
     Inr (Some sp, ds) \<Rightarrow> (case compute (tx_lower tx) sp ids of Inl _ \<Rightarrow> True | Inr b \<Rightarrow> self_contained (tx_lower tx) sp b)
   | _ \<Rightarrow> True"
proof -
  have "resolved (tx_lower tx) sp" if "compile tx mf paths retired rd extract = Inr (Some sp, ds)" for sp ds
  proof -
    from that obtain lint ps rs where inputs: "mf = Inr lint" "paths = Inr ps" "retired = Inr rs"
      by (cases mf; cases paths; cases retired) (simp_all add: compile_def)
    with that have "sp = fst (resolve_docs tx (lowered tx rs) (map (extracted rd extract) ps))"
      by (simp only: compile_accepted_iff)
    then show ?thesis by (simp only: compiled_resolved)
  qed
  then have "case compute (tx_lower tx) sp ids of Inl _ \<Rightarrow> True | Inr b \<Rightarrow> self_contained (tx_lower tx) sp b"
    if "compile tx mf paths retired rd extract = Inr (Some sp, ds)" for sp ds
    using that by (intro computed_self_contained) blast
  then show ?thesis
    by (cases "compile tx mf paths retired rd extract") (simp_all only: sum.case split: prod.split option.split, simp_all)
qed

text \<open>A refusal says what is wrong. Over the outcomes of \<open>Compile\<close> the diagnostics are in
  order of document, line and message; the corpus is withheld exactly when an error is among
  them, which is exactly when the refusal line is not empty and the faults are not; and the
  faults are all the diagnostics but the warnings.\<close>

theorem compile_refusal_exact:
  "case compile tx mf paths retired rd extract of
     Inl _ \<Rightarrow> True
   | Inr (sp, ds) \<Rightarrow>
       sorted (map diag_key ds) \<and> (sp = None \<longleftrightarrow> refusal ds \<noteq> []) \<and> (sp = None \<longleftrightarrow> diag_errors ds \<noteq> [])
       \<and> faults ds = (if sp = None then filter (\<lambda>d. \<not> dg_warning d) ds else [])"
proof -
  have "sorted (map diag_key ds) \<and> (sp = None \<longleftrightarrow> diag_errors ds \<noteq> [])"
    if "compile tx mf paths retired rd extract = Inr (sp, ds)" for sp ds
    using that unfolding compile_def by (auto simp: Let_def split: sum.splits prod.splits if_splits)
  then show ?thesis by (auto simp: faults_def refusal_empty split: sum.split)
qed

end
