(* ===== verification/Extract.thy ===== *)
theory Extract
  imports Compile
begin

text \<open>
  \<open>extractDocument\<close> of \<open>internal/compile/extract.go\<close>: the walk over the blocks of a normalized
  document. A block is given with the facts the walk reads from the third-party syntax tree
  through \<open>profile\<close>: its segments, its source, the line of its first byte. A node is
  identified by its position among the root's children, where the code uses its pointer; the
  extents, which the code reaches through shared pointers, are a store keyed by that position.
\<close>

section \<open>Nodes\<close>

record block_facts =
  bf_segs :: "seg list"
  bf_source :: string
  bf_line :: int

record clause_facts =
  cf_label :: string
  cf_segs :: "seg list"
  cf_line :: int

datatype attachment = At_Requirement string | At_Term string | Unattached

datatype node =
  Heading_Node int "seg list" int
| Requirement_Node block_facts string string "(string \<times> string list) list" "clause_facts list" int
| Term_Node block_facts string
| Note_Node block_facts attachment "nat option"
| Annotation_Node block_facts "nat option"
| Break_Node
| Other_Node

fun attached_ref :: "attachment \<Rightarrow> node_ref" where
  "attached_ref (At_Requirement rid) = Ref_Requirement rid"
| "attached_ref (At_Term n) = Ref_Term n"
| "attached_ref Unattached = Ref_Unset"

section \<open>The walk\<close>

type_synonym extent = "seg list list \<times> string list"

record extraction =
  ex_title :: string
  ex_sections :: "doc_section list"
  ex_reqs :: "(nat \<times> req_block) list"
  ex_terms :: "(nat \<times> term_block) list"
  ex_contexts :: "context_block list"
  ex_headings :: "heading_block list"
  ex_path :: "string list"
  ex_levels :: "int list"
  ex_extents :: "nat \<rightharpoonup> extent"

definition extraction_start :: extraction where
  "extraction_start =
     \<lparr>ex_title = [], ex_sections = [], ex_reqs = [], ex_terms = [], ex_contexts = [], ex_headings = [],
      ex_path = [], ex_levels = [], ex_extents = Map.empty\<rparr>"

definition loc_of :: "string \<Rightarrow> extraction \<Rightarrow> int \<Rightarrow> location" where
  "loc_of path st line = \<lparr>loc_document = path, loc_section_path = ex_path st, loc_line = line\<rparr>"

definition extend :: "nat option \<Rightarrow> block_facts \<Rightarrow> extraction \<Rightarrow> extraction" where
  "extend identity b st =
     (case identity of None \<Rightarrow> st
      | Some k \<Rightarrow>
          (case ex_extents st k of None \<Rightarrow> st
           | Some e \<Rightarrow> st\<lparr>ex_extents := (ex_extents st)(k \<mapsto> (fst e @ [bf_segs b], snd e @ [bf_source b]))\<rparr>))"

text \<open>The headings a new one of level \<open>n\<close> closes are popped from both stacks.\<close>

function pop_sections :: "int \<Rightarrow> extraction \<Rightarrow> extraction" where
  "pop_sections n st =
     (if ex_levels st \<noteq> [] \<and> last (ex_levels st) \<ge> n
      then pop_sections n (st\<lparr>ex_levels := butlast (ex_levels st), ex_path := butlast (ex_path st)\<rparr>)
      else st)"
  by pat_completeness auto
termination by (relation "measure (\<lambda>(n, st). length (ex_levels st))") auto

declare pop_sections.simps [simp del]

definition walk_heading :: "string \<Rightarrow> int \<Rightarrow> seg list \<Rightarrow> int \<Rightarrow> extraction \<Rightarrow> extraction" where
  "walk_heading path level segs line st =
     (let heading = trim_space (plain segs);
          st' = (if level = 1 then st\<lparr>ex_title := heading, ex_path := [], ex_levels := []\<rparr>
                 else let st1 = pop_sections level st in
                   st1\<lparr>ex_levels := ex_levels st1 @ [level], ex_path := ex_path st1 @ [heading],
                       ex_sections := ex_sections st1 @ [\<lparr>sec_heading = heading, sec_level = level, sec_line = line\<rparr>]\<rparr>)
      in st'\<lparr>ex_headings := ex_headings st' @ [\<lparr>hb_segs = segs, hb_loc = loc_of path st' line\<rparr>]\<rparr>)"

definition clause_blocks :: "string \<Rightarrow> extraction \<Rightarrow> clause_facts list \<Rightarrow> clause_block list" where
  "clause_blocks path st cs =
     map (\<lambda>c. \<lparr>cb_label = cf_label c, cb_segs = cf_segs c, cb_loc = loc_of path st (cf_line c)\<rparr>) cs"

definition walk_node :: "string \<Rightarrow> nat \<times> node \<Rightarrow> extraction \<Rightarrow> extraction option" where
  "walk_node path kn st =
     (case snd kn of
        Heading_Node level segs line \<Rightarrow> Some (walk_heading path level segs line st)
      | Requirement_Node b rid kind edges cs start \<Rightarrow>
          Some (st\<lparr>ex_reqs := ex_reqs st @ [(fst kn,
              \<lparr>rb_segs = bf_segs b, rb_source = bf_source b, rb_loc = loc_of path st (bf_line b), rb_id = rid,
               rb_kind = kind, rb_edges = edges, rb_extent_segs = [], rb_extent_source = [],
               rb_clauses = clause_blocks path st cs,
               rb_pointers = enforcement_pointers (bf_segs b) start\<rparr>)],
            ex_extents := (ex_extents st)(fst kn \<mapsto> ([], []))\<rparr>)
      | Term_Node b name \<Rightarrow>
          Some (st\<lparr>ex_terms := ex_terms st @ [(fst kn,
              \<lparr>tb_segs = bf_segs b, tb_source = bf_source b, tb_loc = loc_of path st (bf_line b), tb_name = name,
               tb_extent_segs = []\<rparr>)],
            ex_extents := (ex_extents st)(fst kn \<mapsto> ([], []))\<rparr>)
      | Note_Node b at identity \<Rightarrow>
          Some (extend identity b (st\<lparr>ex_contexts := ex_contexts st @
            [\<lparr>xb_segs = bf_segs b, xb_source = bf_source b, xb_loc = loc_of path st (bf_line b), xb_note = True,
              xb_attached = attached_ref at\<rparr>]\<rparr>))
      | Annotation_Node b identity \<Rightarrow>
          Some (extend identity b (st\<lparr>ex_contexts := ex_contexts st @
            [\<lparr>xb_segs = bf_segs b, xb_source = bf_source b, xb_loc = loc_of path st (bf_line b), xb_note = False,
              xb_attached = Ref_Unset\<rparr>]\<rparr>))
      | Break_Node \<Rightarrow> Some st
      | Other_Node \<Rightarrow> None)"

text \<open>The extent an identity's pointer leads to once the walk is over.\<close>

definition extent_at :: "extraction \<Rightarrow> nat \<Rightarrow> extent" where
  "extent_at st k = (case ex_extents st k of None \<Rightarrow> ([], []) | Some e \<Rightarrow> e)"

definition finish_document :: "string \<Rightarrow> string list \<Rightarrow> extraction \<Rightarrow> document" where
  "finish_document path labels st =
     \<lparr>doc_path = path, doc_ref_labels = labels, doc_title = ex_title st, doc_sections = ex_sections st,
      doc_reqs = map (\<lambda>(k, r). r\<lparr>rb_extent_segs := fst (extent_at st k), rb_extent_source := snd (extent_at st k)\<rparr>) (ex_reqs st),
      doc_terms = map (\<lambda>(k, t). t\<lparr>tb_extent_segs := fst (extent_at st k)\<rparr>) (ex_terms st),
      doc_contexts = ex_contexts st, doc_headings = ex_headings st\<rparr>"

text \<open>None is the panic at a block the profile walk left unwrapped.\<close>

definition extract_document :: "string \<Rightarrow> string list \<Rightarrow> node list \<Rightarrow> document option" where
  "extract_document path labels nodes =
     map_option (finish_document path labels)
       (fold (\<lambda>kn acc. Option.bind acc (walk_node path kn)) (enumerate 0 nodes) (Some extraction_start))"

section \<open>The document a node list denotes\<close>

text \<open>The headings in force after a list of them: those no later one closes.\<close>

fun open_headings :: "(int \<times> string) list \<Rightarrow> (int \<times> string) list" where
  "open_headings [] = []"
| "open_headings (h # hs) =
     (if fst h \<noteq> 1 \<and> list_all (\<lambda>g. fst g \<noteq> 1 \<and> fst h < fst g) hs then h # open_headings hs else open_headings hs)"

definition heading_of :: "node \<Rightarrow> (int \<times> string) list" where
  "heading_of n = (case n of Heading_Node level segs _ \<Rightarrow> [(level, trim_space (plain segs))] | _ \<Rightarrow> [])"

definition section_path :: "node list \<Rightarrow> string list" where
  "section_path nodes = map snd (open_headings (concat (map heading_of nodes)))"

definition place :: "string \<Rightarrow> node list \<Rightarrow> int \<Rightarrow> location" where
  "place path before_it line = \<lparr>loc_document = path, loc_section_path = section_path before_it, loc_line = line\<rparr>"

text \<open>The notes and annotations whose context is the identity at a position.\<close>

definition member_of :: "nat \<Rightarrow> node \<Rightarrow> block_facts list" where
  "member_of k n =
     (case n of Note_Node b _ (Some k') \<Rightarrow> if k' = k then [b] else []
      | Annotation_Node b (Some k') \<Rightarrow> if k' = k then [b] else [] | _ \<Rightarrow> [])"

definition members :: "node list \<Rightarrow> nat \<Rightarrow> block_facts list" where
  "members nodes k = concat (map (member_of k) (drop (Suc k) nodes))"

definition req_of :: "string \<Rightarrow> node list \<Rightarrow> nat \<Rightarrow> req_block list" where
  "req_of path nodes k =
     (case nodes ! k of
        Requirement_Node b rid kind edges cs start \<Rightarrow>
          [\<lparr>rb_segs = bf_segs b, rb_source = bf_source b, rb_loc = place path (take k nodes) (bf_line b), rb_id = rid,
            rb_kind = kind, rb_edges = edges,
            rb_extent_segs = map bf_segs (members nodes k), rb_extent_source = map bf_source (members nodes k),
            rb_clauses = map (\<lambda>c. \<lparr>cb_label = cf_label c, cb_segs = cf_segs c,
              cb_loc = place path (take k nodes) (cf_line c)\<rparr>) cs,
            rb_pointers = enforcement_pointers (bf_segs b) start\<rparr>]
      | _ \<Rightarrow> [])"

definition term_of :: "string \<Rightarrow> node list \<Rightarrow> nat \<Rightarrow> term_block list" where
  "term_of path nodes k =
     (case nodes ! k of
        Term_Node b name \<Rightarrow>
          [\<lparr>tb_segs = bf_segs b, tb_source = bf_source b, tb_loc = place path (take k nodes) (bf_line b), tb_name = name,
            tb_extent_segs = map bf_segs (members nodes k)\<rparr>]
      | _ \<Rightarrow> [])"

definition context_of :: "string \<Rightarrow> node list \<Rightarrow> nat \<Rightarrow> context_block list" where
  "context_of path nodes k =
     (case nodes ! k of
        Note_Node b at _ \<Rightarrow>
          [\<lparr>xb_segs = bf_segs b, xb_source = bf_source b, xb_loc = place path (take k nodes) (bf_line b), xb_note = True,
            xb_attached = attached_ref at\<rparr>]
      | Annotation_Node b _ \<Rightarrow>
          [\<lparr>xb_segs = bf_segs b, xb_source = bf_source b, xb_loc = place path (take k nodes) (bf_line b), xb_note = False,
            xb_attached = Ref_Unset\<rparr>]
      | _ \<Rightarrow> [])"

text \<open>A heading lies in its own section.\<close>

definition heading_block_of :: "string \<Rightarrow> node list \<Rightarrow> nat \<Rightarrow> heading_block list" where
  "heading_block_of path nodes k =
     (case nodes ! k of
        Heading_Node _ segs line \<Rightarrow> [\<lparr>hb_segs = segs, hb_loc = place path (take (Suc k) nodes) line\<rparr>] | _ \<Rightarrow> [])"

definition section_of :: "node \<Rightarrow> doc_section list" where
  "section_of n =
     (case n of Heading_Node level segs line \<Rightarrow>
        if level = 1 then [] else [\<lparr>sec_heading = trim_space (plain segs), sec_level = level, sec_line = line\<rparr>]
      | _ \<Rightarrow> [])"

definition titles :: "node list \<Rightarrow> string list" where
  "titles nodes = map snd (filter (\<lambda>h. fst h = 1) (concat (map heading_of nodes)))"

definition per_node :: "(nat \<Rightarrow> 'a list) \<Rightarrow> node list \<Rightarrow> 'a list" where
  "per_node f nodes = concat (map f [0..<length nodes])"

definition document_spec :: "string \<Rightarrow> string list \<Rightarrow> node list \<Rightarrow> document" where
  "document_spec path labels nodes =
     \<lparr>doc_path = path, doc_ref_labels = labels, doc_title = last ([] # titles nodes),
      doc_sections = concat (map section_of nodes),
      doc_reqs = per_node (req_of path nodes) nodes, doc_terms = per_node (term_of path nodes) nodes,
      doc_contexts = per_node (context_of path nodes) nodes,
      doc_headings = per_node (heading_block_of path nodes) nodes\<rparr>"

section \<open>The walk computes it\<close>

lemma open_headings_snoc:
  "open_headings (hs @ [g]) = (if fst g = 1 then [] else filter (\<lambda>h. fst h < fst g) (open_headings hs) @ [g])"
  by (induction hs) auto

lemma open_headings_sorted: "sorted_wrt (<) (map fst (open_headings hs))"
proof (induction hs)
  case (Cons h hs)
  have "set (open_headings gs) \<subseteq> set gs" for gs by (induction gs) auto
  with Cons show ?case by (fastforce simp: list_all_iff)
qed simp

lemma pop_sections_filter:
  assumes "sorted_wrt (<) (map fst os)" and "ex_levels st = map fst os" and "ex_path st = map snd os"
  shows "pop_sections n st =
    st\<lparr>ex_levels := map fst (filter (\<lambda>h. fst h < n) os), ex_path := map snd (filter (\<lambda>h. fst h < n) os)\<rparr>"
  using assms
proof (induction os arbitrary: st rule: rev_induct)
  case Nil
  then show ?case by (subst pop_sections.simps) simp
next
  case (snoc h os)
  show ?case
  proof (cases "fst h \<ge> n")
    case True
    let ?st = "st\<lparr>ex_levels := butlast (ex_levels st), ex_path := butlast (ex_path st)\<rparr>"
    from snoc.prems True have "pop_sections n st = pop_sections n ?st" by (subst pop_sections.simps) simp
    also have "\<dots> = ?st\<lparr>ex_levels := map fst (filter (\<lambda>h. fst h < n) os), ex_path := map snd (filter (\<lambda>h. fst h < n) os)\<rparr>"
      using snoc.prems by (intro snoc.IH) (simp_all add: sorted_wrt_append)
    finally show ?thesis using True by simp
  next
    case False
    with snoc.prems have "filter (\<lambda>h. fst h < n) (os @ [h]) = os @ [h]"
      by (intro filter_True) (fastforce simp: sorted_wrt_append)
    with snoc.prems False show ?thesis by (subst pop_sections.simps) simp
  qed
qed

definition identity_node :: "node \<Rightarrow> bool" where
  "identity_node n \<longleftrightarrow> (case n of Requirement_Node _ _ _ _ _ _ \<Rightarrow> True | Term_Node _ _ \<Rightarrow> True | _ \<Rightarrow> False)"

definition bare_req :: "req_block \<Rightarrow> req_block" where
  "bare_req r = r\<lparr>rb_extent_segs := [], rb_extent_source := []\<rparr>"

definition bare_term :: "term_block \<Rightarrow> term_block" where
  "bare_term t = t\<lparr>tb_extent_segs := []\<rparr>"

definition extents_spec :: "node list \<Rightarrow> nat \<Rightarrow> extent option" where
  "extents_spec nodes k =
     (if k < length nodes \<and> identity_node (nodes ! k)
      then Some (map bf_segs (members nodes k), map bf_source (members nodes k)) else None)"

definition walk_inv :: "string \<Rightarrow> node list \<Rightarrow> extraction \<Rightarrow> bool" where
  "walk_inv path nodes st \<longleftrightarrow>
     ex_title st = last ([] # titles nodes)
     \<and> ex_sections st = concat (map section_of nodes)
     \<and> ex_reqs st = per_node (\<lambda>k. map (\<lambda>r. (k, bare_req r)) (req_of path nodes k)) nodes
     \<and> ex_terms st = per_node (\<lambda>k. map (\<lambda>t. (k, bare_term t)) (term_of path nodes k)) nodes
     \<and> ex_contexts st = per_node (context_of path nodes) nodes
     \<and> ex_headings st = per_node (heading_block_of path nodes) nodes
     \<and> ex_path st = section_path nodes
     \<and> ex_levels st = map fst (open_headings (concat (map heading_of nodes)))
     \<and> ex_extents st = extents_spec nodes"

lemma per_node_snoc:
  assumes "\<And>k. k < length nodes \<Longrightarrow> f (nodes @ [n]) k = f nodes k"
  shows "per_node (f (nodes @ [n])) (nodes @ [n]) = per_node (f nodes) nodes @ f (nodes @ [n]) (length nodes)"
proof -
  have "map (f (nodes @ [n])) [0..<length nodes] = map (f nodes) [0..<length nodes]"
    by (rule map_cong) (simp_all add: assms)
  then show ?thesis by (simp only: per_node_def length_append_singleton upt_Suc_append le0 map_append concat_append
      list.map concat.simps append_Nil2)
qed

lemma stable_req: "k < length nodes \<Longrightarrow> map bare_req (req_of path (nodes @ [n]) k) = map bare_req (req_of path nodes k)"
  by (simp add: req_of_def nth_append bare_req_def split: node.split)

lemma stable_term: "k < length nodes \<Longrightarrow> map bare_term (term_of path (nodes @ [n]) k) = map bare_term (term_of path nodes k)"
  by (simp add: term_of_def nth_append bare_term_def split: node.split)

lemma stable_context: "k < length nodes \<Longrightarrow> context_of path (nodes @ [n]) k = context_of path nodes k"
  by (simp add: context_of_def nth_append split: node.split)

lemma stable_heading: "k < length nodes \<Longrightarrow> heading_block_of path (nodes @ [n]) k = heading_block_of path nodes k"
  by (simp add: heading_block_of_def nth_append split: node.split)

lemma reqs_snoc:
  "per_node (\<lambda>k. map (\<lambda>r. (k, bare_req r)) (req_of path (nodes @ [n]) k)) (nodes @ [n])
     = per_node (\<lambda>k. map (\<lambda>r. (k, bare_req r)) (req_of path nodes k)) nodes
       @ map (\<lambda>r. (length nodes, bare_req r)) (req_of path (nodes @ [n]) (length nodes))"
proof (rule per_node_snoc [where f = "\<lambda>ns k. map (\<lambda>r. (k, bare_req r)) (req_of path ns k)"])
  fix k assume "k < length nodes"
  from arg_cong [OF stable_req [OF this, of path n], of "map (Pair k)"]
  show "map (\<lambda>r. (k, bare_req r)) (req_of path (nodes @ [n]) k) = map (\<lambda>r. (k, bare_req r)) (req_of path nodes k)"
    by (simp add: o_def)
qed

lemma terms_snoc:
  "per_node (\<lambda>k. map (\<lambda>t. (k, bare_term t)) (term_of path (nodes @ [n]) k)) (nodes @ [n])
     = per_node (\<lambda>k. map (\<lambda>t. (k, bare_term t)) (term_of path nodes k)) nodes
       @ map (\<lambda>t. (length nodes, bare_term t)) (term_of path (nodes @ [n]) (length nodes))"
proof (rule per_node_snoc [where f = "\<lambda>ns k. map (\<lambda>t. (k, bare_term t)) (term_of path ns k)"])
  fix k assume "k < length nodes"
  from arg_cong [OF stable_term [OF this, of path n], of "map (Pair k)"]
  show "map (\<lambda>t. (k, bare_term t)) (term_of path (nodes @ [n]) k) = map (\<lambda>t. (k, bare_term t)) (term_of path nodes k)"
    by (simp add: o_def)
qed

lemma contexts_snoc:
  "per_node (context_of path (nodes @ [n])) (nodes @ [n])
     = per_node (context_of path nodes) nodes @ context_of path (nodes @ [n]) (length nodes)"
  by (rule per_node_snoc [where f = "context_of path"]) (rule stable_context)

lemma headings_snoc:
  "per_node (heading_block_of path (nodes @ [n])) (nodes @ [n])
     = per_node (heading_block_of path nodes) nodes @ heading_block_of path (nodes @ [n]) (length nodes)"
  by (rule per_node_snoc [where f = "heading_block_of path"]) (rule stable_heading)

lemma members_snoc:
  "members (nodes @ [n]) k = (if k < length nodes then members nodes k @ member_of k n else [])"
  by (auto simp: members_def)

lemma section_path_same: "heading_of n = [] \<Longrightarrow> section_path (nodes @ [n]) = section_path nodes"
  by (simp add: section_path_def)

lemma titles_snoc: "titles (nodes @ [n]) = titles nodes @ map snd (filter (\<lambda>h. fst h = 1) (heading_of n))"
  by (simp add: titles_def)

text \<open>The positions every block but the new one keeps.\<close>

lemmas snoc_rules = reqs_snoc terms_snoc contexts_snoc headings_snoc titles_snoc

lemma walk_inv_loc: "walk_inv path nodes st \<Longrightarrow> loc_of path st line = place path nodes line"
  by (simp add: walk_inv_def loc_of_def place_def)

lemma extents_snoc_identity:
  assumes "identity_node n"
  shows "extents_spec (nodes @ [n]) = (extents_spec nodes)(length nodes \<mapsto> ([], []))"
proof
  fix k
  have "member_of k n = []" using assms by (cases n) (simp_all add: identity_node_def member_of_def)
  with assms show "extents_spec (nodes @ [n]) k = ((extents_spec nodes)(length nodes \<mapsto> ([], []))) k"
    by (auto simp: extents_spec_def members_snoc nth_append)
qed

lemma extents_snoc_other:
  assumes "\<not> identity_node n"
  shows "extents_spec (nodes @ [n]) k = map_option
    (\<lambda>e. (fst e @ map bf_segs (member_of k n), snd e @ map bf_source (member_of k n))) (extents_spec nodes k)"
  using assms by (auto simp: extents_spec_def members_snoc nth_append)

lemma walk_inv_heading:
  assumes inv: "walk_inv path nodes st"
  shows "walk_inv path (nodes @ [Heading_Node level segs line]) (walk_heading path level segs line st)"
proof -
  let ?n = "Heading_Node level segs line" and ?heading = "trim_space (plain segs)"
  let ?os = "open_headings (concat (map heading_of nodes))"
  note i = inv [unfolded walk_inv_def section_path_def]
  have ext: "extents_spec (nodes @ [?n]) = extents_spec nodes"
    by (rule ext) (simp add: extents_snoc_other identity_node_def member_of_def option.map_ident)
  have pop: "pop_sections level st =
      st\<lparr>ex_levels := map fst (filter (\<lambda>h. fst h < level) ?os), ex_path := map snd (filter (\<lambda>h. fst h < level) ?os)\<rparr>"
    by (rule pop_sections_filter [OF open_headings_sorted]) (simp_all add: i)
  have at: "(nodes @ [?n]) ! length nodes = ?n" by simp
  have os: "open_headings (concat (map heading_of (nodes @ [?n])))
      = (if level = 1 then [] else filter (\<lambda>h. fst h < level) ?os @ [(level, ?heading)])"
    by (simp add: heading_of_def open_headings_snoc)
  have "heading_block_of path (nodes @ [?n]) (length nodes)
      = [\<lparr>hb_segs = segs, hb_loc = place path (nodes @ [?n]) line\<rparr>]"
    by (simp add: heading_block_of_def)
  moreover have "req_of path (nodes @ [?n]) (length nodes) = []" "term_of path (nodes @ [?n]) (length nodes) = []"
    "context_of path (nodes @ [?n]) (length nodes) = []"
    by (simp_all add: req_of_def term_of_def context_of_def)
  ultimately show ?thesis
    unfolding walk_inv_def snoc_rules ext section_path_def place_def os
    using i by (auto simp: walk_heading_def Let_def pop heading_of_def section_of_def loc_of_def)
qed

lemma walk_inv_req:
  assumes inv: "walk_inv path nodes st" and walk: "walk_node path (length nodes, Requirement_Node b rid kind edges cs start) st = Some st'"
  shows "walk_inv path (nodes @ [Requirement_Node b rid kind edges cs start]) st'"
proof -
  let ?n = "Requirement_Node b rid kind edges cs start"
  note i = inv [unfolded walk_inv_def]
  have ext: "extents_spec (nodes @ [?n]) = (extents_spec nodes)(length nodes \<mapsto> ([], []))"
    by (rule extents_snoc_identity) (simp add: identity_node_def)
  have none: "heading_of ?n = []" "section_of ?n = []" by (simp_all add: heading_of_def section_of_def)
  have "term_of path (nodes @ [?n]) (length nodes) = []" "heading_block_of path (nodes @ [?n]) (length nodes) = []"
    "context_of path (nodes @ [?n]) (length nodes) = []"
    by (simp_all add: heading_block_of_def term_of_def context_of_def)
  then show ?thesis
    unfolding walk_inv_def snoc_rules ext section_path_same [OF none(1)]
    using i walk none
    by (auto simp: walk_node_def req_of_def bare_req_def clause_blocks_def walk_inv_loc [OF inv])
qed

lemma walk_inv_term:
  assumes inv: "walk_inv path nodes st" and walk: "walk_node path (length nodes, Term_Node b name) st = Some st'"
  shows "walk_inv path (nodes @ [Term_Node b name]) st'"
proof -
  let ?n = "Term_Node b name"
  note i = inv [unfolded walk_inv_def]
  have ext: "extents_spec (nodes @ [?n]) = (extents_spec nodes)(length nodes \<mapsto> ([], []))"
    by (rule extents_snoc_identity) (simp add: identity_node_def)
  have none: "heading_of ?n = []" "section_of ?n = []" by (simp_all add: heading_of_def section_of_def)
  have "req_of path (nodes @ [?n]) (length nodes) = []" "heading_block_of path (nodes @ [?n]) (length nodes) = []"
    "context_of path (nodes @ [?n]) (length nodes) = []"
    by (simp_all add: heading_block_of_def req_of_def context_of_def)
  then show ?thesis
    unfolding walk_inv_def snoc_rules ext section_path_same [OF none(1)]
    using i walk none
    by (auto simp: walk_node_def term_of_def bare_term_def walk_inv_loc [OF inv])
qed

lemma extend_extents:
  "extend identity b st = st\<lparr>ex_extents := (\<lambda>k. map_option
     (\<lambda>e. if identity = Some k then (fst e @ [bf_segs b], snd e @ [bf_source b]) else e) (ex_extents st k))\<rparr>"
proof (cases identity)
  case None
  then show ?thesis by (simp add: extend_def option.map_ident)
next
  case (Some j)
  let ?E = "ex_extents st"
  have upd: "(\<lambda>k. map_option (\<lambda>e. if j = k then (fst e @ [bf_segs b], snd e @ [bf_source b]) else e) (?E k))
      = (case ?E j of None \<Rightarrow> ?E | Some e \<Rightarrow> ?E(j \<mapsto> (fst e @ [bf_segs b], snd e @ [bf_source b])))" (is "?L = ?R")
  proof
    fix k
    show "?L k = ?R k" by (cases "?E j"; cases "?E k"; cases "j = k") simp_all
  qed
  show ?thesis by (cases "?E j") (simp_all add: extend_def Some upd)
qed

lemma walk_inv_context:
  assumes inv: "walk_inv path nodes st" and walk: "walk_node path (length nodes, n) st = Some st'"
    and n: "n = Note_Node b at identity \<or> n = Annotation_Node b identity"
  shows "walk_inv path (nodes @ [n]) st'"
proof -
  note i = inv [unfolded walk_inv_def]
  have none: "heading_of n = []" "section_of n = []" and plain_n: "\<not> identity_node n"
    using n by (auto simp: heading_of_def section_of_def identity_node_def)
  have mem: "member_of k n = (if identity = Some k then [b] else [])" for k
    using n by (auto simp: member_of_def split: option.split)
  have ext: "extents_spec (nodes @ [n]) = (\<lambda>k. map_option
      (\<lambda>e. if identity = Some k then (fst e @ [bf_segs b], snd e @ [bf_source b]) else e) (extents_spec nodes k))"
    by (rule ext) (simp add: extents_snoc_other [OF plain_n] mem)
  have "req_of path (nodes @ [n]) (length nodes) = []" "term_of path (nodes @ [n]) (length nodes) = []"
    "heading_block_of path (nodes @ [n]) (length nodes) = []"
    using n by (auto simp: req_of_def term_of_def heading_block_of_def)
  then show ?thesis
    unfolding walk_inv_def snoc_rules ext section_path_same [OF none(1)]
    using i walk none n
    by (auto simp: walk_node_def context_of_def extend_extents walk_inv_loc [OF inv])
qed

lemma walk_inv_break:
  assumes inv: "walk_inv path nodes st"
  shows "walk_inv path (nodes @ [Break_Node]) st"
proof -
  note i = inv [unfolded walk_inv_def]
  have none: "heading_of Break_Node = []" "section_of Break_Node = []" by (simp_all add: heading_of_def section_of_def)
  have ext: "extents_spec (nodes @ [Break_Node]) = extents_spec nodes"
    by (rule ext) (simp add: extents_snoc_other identity_node_def member_of_def option.map_ident)
  have "req_of path (nodes @ [Break_Node]) (length nodes) = []" "term_of path (nodes @ [Break_Node]) (length nodes) = []"
    "heading_block_of path (nodes @ [Break_Node]) (length nodes) = []" "context_of path (nodes @ [Break_Node]) (length nodes) = []"
    by (simp_all add: req_of_def term_of_def heading_block_of_def context_of_def)
  then show ?thesis
    unfolding walk_inv_def snoc_rules ext section_path_same [OF none(1)] using i none by auto
qed

lemma walk_node_inv:
  assumes "walk_inv path nodes st" and "walk_node path (length nodes, n) st = Some st'"
  shows "walk_inv path (nodes @ [n]) st'"
proof (cases n)
  case Heading_Node
  with assms walk_inv_heading show ?thesis by (auto simp: walk_node_def)
next
  case Requirement_Node
  with assms walk_inv_req show ?thesis by blast
next
  case Term_Node
  with assms walk_inv_term show ?thesis by blast
next
  case Note_Node
  with assms walk_inv_context show ?thesis by blast
next
  case Annotation_Node
  with assms walk_inv_context show ?thesis by blast
next
  case Break_Node
  with assms walk_inv_break show ?thesis by (auto simp: walk_node_def)
next
  case Other_Node
  with assms show ?thesis by (simp add: walk_node_def)
qed

lemma walk_all:
  "case fold (\<lambda>kn acc. Option.bind acc (walk_node path kn)) (enumerate 0 nodes) (Some extraction_start) of
     None \<Rightarrow> Other_Node \<in> set nodes | Some st \<Rightarrow> Other_Node \<notin> set nodes \<and> walk_inv path nodes st"
proof (induction nodes rule: rev_induct)
  case Nil
  then show ?case
    by (simp add: walk_inv_def extraction_start_def titles_def per_node_def section_path_def extents_spec_def fun_eq_iff)
next
  case (snoc n nodes)
  let ?w = "fold (\<lambda>kn acc. Option.bind acc (walk_node path kn)) (enumerate 0 nodes) (Some extraction_start)"
  have split: "fold (\<lambda>kn acc. Option.bind acc (walk_node path kn)) (enumerate 0 (nodes @ [n])) (Some extraction_start)
      = Option.bind ?w (walk_node path (length nodes, n))"
    by (simp add: enumerate_append_eq)
  show ?case
  proof (cases ?w)
    case None
    with snoc show ?thesis by (simp add: split)
  next
    case (Some st)
    with snoc have inv: "walk_inv path nodes st" "Other_Node \<notin> set nodes" by simp_all
    have other: "walk_node path (length nodes, n) st = None \<longleftrightarrow> n = Other_Node"
      by (cases n) (simp_all add: walk_node_def)
    show ?thesis
    proof (cases "walk_node path (length nodes, n) st")
      case None
      with other \<open>?w = Some st\<close> show ?thesis unfolding split by simp
    next
      case (Some st')
      with walk_node_inv [OF inv(1) Some] other inv(2) \<open>?w = Some st\<close> show ?thesis unfolding split by simp
    qed
  qed
qed

lemma map_per_node: "map f (per_node g nodes) = per_node (\<lambda>k. map f (g k)) nodes"
  by (simp add: per_node_def map_concat o_def)

lemma per_node_cong:
  assumes "\<And>k. k < length nodes \<Longrightarrow> f k = g k"
  shows "per_node f nodes = per_node g nodes"
proof -
  have "map f [0..<length nodes] = map g [0..<length nodes]" by (rule map_cong) (simp_all add: assms)
  then show ?thesis by (simp only: per_node_def)
qed

text \<open>C30: the extraction denotes the document. \<open>extractDocument\<close> panics exactly when the profile left
  a block unwrapped. Otherwise the document holds one block for each requirement, term, note,
  annotation and heading, in order; each is located in the sections in force at it, which are
  the headings no later heading of the same or a higher level closed; the extent of an
  identity is the segments and sources of exactly the notes and annotations that follow with
  it as their context; and the title is that of the last level-one heading.\<close>

theorem extract_document_exact:
  "extract_document path labels nodes = (if Other_Node \<in> set nodes then None else Some (document_spec path labels nodes))"
proof (cases "fold (\<lambda>kn acc. Option.bind acc (walk_node path kn)) (enumerate 0 nodes) (Some extraction_start)")
  case None
  with walk_all [of nodes path] show ?thesis by (simp add: extract_document_def)
next
  case (Some st)
  with walk_all [of nodes path] have other: "Other_Node \<notin> set nodes" and inv: "walk_inv path nodes st" by simp_all
  note i = inv [unfolded walk_inv_def]
  have req: "map (\<lambda>(k, r). r\<lparr>rb_extent_segs := fst (extent_at st k), rb_extent_source := snd (extent_at st k)\<rparr>)
      (map (\<lambda>r. (k, bare_req r)) (req_of path nodes k)) = req_of path nodes k" if "k < length nodes" for k
    using that i by (simp add: req_of_def bare_req_def extent_at_def extents_spec_def identity_node_def split: node.split)
  have trm: "map (\<lambda>(k, t). t\<lparr>tb_extent_segs := fst (extent_at st k)\<rparr>)
      (map (\<lambda>t. (k, bare_term t)) (term_of path nodes k)) = term_of path nodes k" if "k < length nodes" for k
    using that i by (simp add: term_of_def bare_term_def extent_at_def extents_spec_def identity_node_def split: node.split)
  have "map (\<lambda>(k, r). r\<lparr>rb_extent_segs := fst (extent_at st k), rb_extent_source := snd (extent_at st k)\<rparr>) (ex_reqs st)
      = per_node (req_of path nodes) nodes"
    unfolding i [THEN conjunct2, THEN conjunct2, THEN conjunct1] map_per_node by (rule per_node_cong) (rule req)
  moreover have "map (\<lambda>(k, t). t\<lparr>tb_extent_segs := fst (extent_at st k)\<rparr>) (ex_terms st) = per_node (term_of path nodes) nodes"
    unfolding i [THEN conjunct2, THEN conjunct2, THEN conjunct2, THEN conjunct1] map_per_node
    by (rule per_node_cong) (rule trm)
  ultimately have "finish_document path labels st = document_spec path labels nodes"
    using i by (simp add: finish_document_def document_spec_def)
  with Some other show ?thesis by (simp add: extract_document_def)
qed

section \<open>Enforcement pointers\<close>

definition span_of :: "string \<Rightarrow> int \<Rightarrow> seg" where
  "span_of name at = \<lparr>sg_text = name, sg_inert = True, sg_start = at, sg_end = at + int (length name)\<rparr>"

definition prose :: "string \<Rightarrow> seg" where
  "prose t = \<lparr>sg_text = t, sg_inert = False, sg_start = -1, sg_end = -1\<rparr>"

definition name_at :: "string \<Rightarrow> int \<Rightarrow> string list" where
  "name_at name at = (if ident_text name \<and> 0 \<le> at then [name] else [])"

lemma opens_at_start: "sentence_start ''Enforced by '' enforced_by = Some 0"
  by code_simp

text \<open>The sentences of the enforcement pointers. The identifiers of a list in one sentence are all
  its pointers; but the scan leaves a sentence at the period and does not look at the rest of
  that text, so of two sentences on one line that both begin with the phrase the second
  contributes none.\<close>

theorem second_sentence_missed:
  "map pt_name (enforcement_pointers
     [prose ''Enforced by '', span_of a i, prose '' and '', span_of b j, prose ''.''] base) = name_at a i @ name_at b j
   \<and> map pt_name (enforcement_pointers
     [prose ''Enforced by '', span_of a i, prose ''. Enforced by '', span_of b j, prose ''.''] base) = name_at a i"
proof -
  have "sentence_start ''.'' enforced_by = None" by code_simp
  with opens_at_start show ?thesis
    by (simp add: enforcement_pointers_def prose_def span_of_def name_at_def enforced_by_def)
qed

end
