(* ===== verification/Supersede.thy ===== *)
theory Supersede
  imports Compile
begin

text \<open>
  The supersede components of \<open>supersedeComponents\<close> in \<open>internal/compile/compile.go\<close> are the
  connected components of the dangling declarations: the abstract specification, the loop's
  invariant, and the refinement. The code walks Go maps; the specification depends on the
  declared pairs as a set only, so the result does not depend on the walks.
\<close>

section \<open>Connected components\<close>

text \<open>Two sources are linked when one successor declares both.\<close>

definition linked :: "(string \<times> string) set \<Rightarrow> (string \<times> string) set" where
  "linked E = {(s, s'). \<exists>u. (u, s) \<in> E \<and> (u, s') \<in> E}"

definition source_class :: "(string \<times> string) set \<Rightarrow> string \<Rightarrow> string set" where
  "source_class E s = (linked E)\<^sup>* `` {s}"

definition class_successors :: "(string \<times> string) set \<Rightarrow> string \<Rightarrow> string set" where
  "class_successors E s = {u. \<exists>s' \<in> source_class E s. (u, s') \<in> E}"

definition component_spec :: "(string \<times> string) set \<Rightarrow> string \<Rightarrow> component" where
  "component_spec E s =
     \<lparr>sc_sources = sorted_list_of_set (source_class E s), sc_successors = sorted_list_of_set (class_successors E s)\<rparr>"

lemma linked_sym: "sym (linked E)"
  by (auto simp: linked_def sym_def)

lemma source_class_self: "s \<in> source_class E s"
  by (simp add: source_class_def)

lemma source_class_step: "s' \<in> source_class E s \<Longrightarrow> (u, s') \<in> E \<Longrightarrow> (u, t) \<in> E \<Longrightarrow> t \<in> source_class E s"
  unfolding source_class_def linked_def by (auto intro: rtrancl_into_rtrancl)

lemma source_class_eq: "t \<in> source_class E s \<Longrightarrow> source_class E t = source_class E s"
proof -
  assume "t \<in> source_class E s"
  then have st: "(s, t) \<in> (linked E)\<^sup>*" by (simp add: source_class_def)
  then have ts: "(t, s) \<in> (linked E)\<^sup>*" using sym_rtrancl [OF linked_sym] by (rule symD [rotated])
  show ?thesis using st ts by (auto simp: source_class_def intro: rtrancl_trans)
qed

lemma component_spec_eq: "t \<in> source_class E s \<Longrightarrow> component_spec E t = component_spec E s"
  by (simp add: component_spec_def class_successors_def source_class_eq)

lemma source_class_targets: "s \<in> snd ` E \<Longrightarrow> source_class E s \<subseteq> snd ` E"
proof
  fix t assume s: "s \<in> snd ` E" and "t \<in> source_class E s"
  then have "(s, t) \<in> (linked E)\<^sup>*" by (simp add: source_class_def)
  then show "t \<in> snd ` E" using s by (induction) (force simp: linked_def)+
qed

section \<open>The loop\<close>

text \<open>
  The state of the loop from \<open>s\<close>, \<open>X\<close> the sources whose successors are still to join: it stays
  inside the class, and what it has finished is closed.
\<close>

definition loop_inv :: "(string \<times> string) list \<Rightarrow> string \<Rightarrow> string set \<Rightarrow> component_state \<Rightarrow> bool" where
  "loop_inv ps s X st \<longleftrightarrow>
     distinct (cs_sources st) \<and> distinct (cs_successors st) \<and> s \<in> set (cs_sources st)
     \<and> set (cs_sources st) \<subseteq> source_class (set ps) s
     \<and> set (cs_successors st) \<subseteq> class_successors (set ps) s
     \<and> set (cs_queue st) \<subseteq> set (cs_sources st)
     \<and> (\<forall>s' \<in> set (cs_sources st) - set (cs_queue st) - X. \<forall>u. (u, s') \<in> set ps \<longrightarrow> u \<in> set (cs_successors st))
     \<and> (\<forall>u \<in> set (cs_successors st). \<forall>s'. (u, s') \<in> set ps \<longrightarrow> s' \<in> set (cs_sources st))"

lemma fold_join_source:
  "\<exists>new. distinct new \<and> set new = set ss - set (cs_sources st)
    \<and> fold join_source ss st = st\<lparr>cs_sources := cs_sources st @ new, cs_queue := cs_queue st @ new\<rparr>"
proof (induction ss arbitrary: st)
  case (Cons s ss)
  show ?case
  proof (cases "s \<in> set (cs_sources st)")
    case True
    with Cons.IH [of st] show ?thesis by (auto simp: join_source_def)
  next
    case False
    then have js: "join_source s st = st\<lparr>cs_sources := cs_sources st @ [s], cs_queue := cs_queue st @ [s]\<rparr>"
      by (simp add: join_source_def)
    from Cons.IH [of "join_source s st"] obtain new where
      "distinct new" "set new = set ss - insert s (set (cs_sources st))"
      "fold join_source ss (join_source s st)
        = st\<lparr>cs_sources := cs_sources st @ s # new, cs_queue := cs_queue st @ s # new\<rparr>"
      by (auto simp: js)
    with False show ?thesis by (intro exI [of _ "s # new"]) auto
  qed
qed (auto intro: exI [of _ "[]"])

lemma join_successor_inv:
  assumes inv: "loop_inv ps s X st" and u: "(u, s') \<in> set ps" "s' \<in> set (cs_sources st)"
  shows "loop_inv ps s X (join_successor ps u st)"
proof (cases "u \<in> set (cs_successors st)")
  case True
  with inv show ?thesis by (simp add: join_successor_def)
next
  case False
  let ?st = "st\<lparr>cs_successors := cs_successors st @ [u]\<rparr>"
  from fold_join_source [of "declares ps u" ?st] obtain new where
    new: "distinct new" "set new = set (declares ps u) - set (cs_sources st)"
    and eq: "join_successor ps u st = ?st\<lparr>cs_sources := cs_sources st @ new, cs_queue := cs_queue st @ new\<rparr>"
    using False by (auto simp: join_successor_def)
  have decl: "set (declares ps u) = {t. (u, t) \<in> set ps}" by (force simp: declares_def)
  from inv u have s': "s' \<in> source_class (set ps) s" by (auto simp: loop_inv_def)
  have "set new \<subseteq> source_class (set ps) s"
    using new(2) decl source_class_step [OF s' u(1)] by auto
  moreover have "u \<in> class_successors (set ps) s" using s' u(1) by (auto simp: class_successors_def)
  moreover note inv' = inv [unfolded loop_inv_def]
  have "distinct (cs_sources st @ new)" "distinct (cs_successors st @ [u])" using inv' False new by auto
  moreover have "t \<in> set (cs_sources st @ new)" if "v \<in> set (cs_successors st @ [u])" "(v, t) \<in> set ps" for v t
  proof (cases "v = u")
    case True
    with that(2) new(2) decl show ?thesis by auto
  next
    case False
    with that(1) have "v \<in> set (cs_successors st)" by simp
    with that(2) inv' have "t \<in> set (cs_sources st)" by blast
    then show ?thesis by simp
  qed
  moreover have "v \<in> set (cs_successors st @ [u])"
    if "t \<in> set (cs_sources st @ new) - set (cs_queue st @ new) - X" "(v, t) \<in> set ps" for t v
  proof -
    from that(1) have "t \<in> set (cs_sources st) - set (cs_queue st) - X" by auto
    with inv' that(2) have "v \<in> set (cs_successors st)" by blast
    then show ?thesis by simp
  qed
  ultimately show ?thesis
    unfolding loop_inv_def eq by (intro conjI) (use inv' in \<open>simp_all, blast+\<close>)
qed

lemma join_successors_inv:
  assumes "loop_inv ps s X st" and "\<forall>u \<in> set us. (u, s') \<in> set ps" and "s' \<in> set (cs_sources st)"
  shows "loop_inv ps s X (fold (join_successor ps) us st) \<and> s' \<in> set (cs_sources (fold (join_successor ps) us st))
    \<and> set us \<union> set (cs_successors st) \<subseteq> set (cs_successors (fold (join_successor ps) us st))"
  using assms
proof (induction us arbitrary: st)
  case (Cons u us)
  from Cons.prems have inv: "loop_inv ps s X (join_successor ps u st)" by (intro join_successor_inv) auto
  let ?st = "st\<lparr>cs_successors := cs_successors st @ [u]\<rparr>"
  from fold_join_source [of "declares ps u" ?st] obtain new where
    "fold join_source (declares ps u) ?st = ?st\<lparr>cs_sources := cs_sources ?st @ new, cs_queue := cs_queue ?st @ new\<rparr>"
    by blast
  with Cons.prems(3) have grow: "s' \<in> set (cs_sources (join_successor ps u st))"
    "insert u (set (cs_successors st)) \<subseteq> set (cs_successors (join_successor ps u st))"
    by (cases "u \<in> set (cs_successors st)", simp_all add: join_successor_def, blast+)
  from Cons.IH [OF inv _ grow(1)] Cons.prems(2)
  have "loop_inv ps s X (fold (join_successor ps) (u # us) st)"
    and "s' \<in> set (cs_sources (fold (join_successor ps) (u # us) st))"
    and "set us \<union> set (cs_successors (join_successor ps u st)) \<subseteq> set (cs_successors (fold (join_successor ps) (u # us) st))"
    by simp_all
  with grow(2) show ?case unfolding list.set by blast
qed simp

lemma component_round_inv:
  assumes inv: "loop_inv ps s {} st" and q: "cs_queue st = s' # q"
  shows "loop_inv ps s {} (component_round ps st)"
proof -
  let ?st = "st\<lparr>cs_queue := q\<rparr>"
  have decl: "set (declared_by ps s') = {u. (u, s') \<in> set ps}" by (force simp: declared_by_def)
  note inv' = inv [unfolded loop_inv_def q]
  have mem: "s' \<in> set (cs_sources ?st)" using inv' by simp
  have "set (cs_sources st) - set q - {s'} = set (cs_sources st) - set (s' # q) - {}" by auto
  with inv' have "loop_inv ps s {s'} ?st" unfolding loop_inv_def by simp
  from join_successors_inv [OF this _ mem, of "declared_by ps s'"] decl
  have "loop_inv ps s {s'} (component_round ps st)"
    and "\<forall>u. (u, s') \<in> set ps \<longrightarrow> u \<in> set (cs_successors (component_round ps st))"
    by (simp_all add: component_round_def q) blast
  then show ?thesis unfolding loop_inv_def by blast
qed

lemma component_loop_inv:
  "loop_inv ps s {} st \<Longrightarrow> loop_inv ps s {} (component_loop ps st) \<and> cs_queue (component_loop ps st) = []"
proof (induction ps st rule: component_loop.induct)
  case (1 ps st)
  show ?case
  proof (cases "cs_queue st")
    case Nil
    with 1 show ?thesis by (subst component_loop.simps, subst (2) component_loop.simps) simp
  next
    case (Cons s' q)
    with 1 component_round_inv [OF 1(2) Cons] show ?thesis by (subst component_loop.simps, subst (2) component_loop.simps) simp
  qed
qed

lemma loop_inv_done:
  assumes inv: "loop_inv ps s {} st" and fin: "cs_queue st = []"
  shows "set (cs_sources st) = source_class (set ps) s" and "set (cs_successors st) = class_successors (set ps) s"
proof -
  have closed: "u \<in> set (cs_successors st)" if "s' \<in> set (cs_sources st)" "(u, s') \<in> set ps" for s' u
    using inv that unfolding loop_inv_def fin by auto
  have full: "t \<in> set (cs_sources st)" if "u \<in> set (cs_successors st)" "(u, t) \<in> set ps" for u t
    using inv that unfolding loop_inv_def by blast
  have s: "s \<in> set (cs_sources st)" using inv by (simp add: loop_inv_def)
  have "t \<in> set (cs_sources st)" if "t \<in> source_class (set ps) s" for t
  proof -
    from that have "(s, t) \<in> (linked (set ps))\<^sup>*" by (simp add: source_class_def)
    then show ?thesis
    proof induction
      case (step t t')
      from step.hyps(2) obtain u where "(u, t) \<in> set ps" "(u, t') \<in> set ps" by (auto simp: linked_def)
      with step.IH closed full show ?case by blast
    qed (rule s)
  qed
  then show src: "set (cs_sources st) = source_class (set ps) s" using inv unfolding loop_inv_def by blast
  have "class_successors (set ps) s \<subseteq> set (cs_successors st)"
    unfolding class_successors_def src [symmetric] using closed by blast
  then show "set (cs_successors st) = class_successors (set ps) s" using inv unfolding loop_inv_def by blast
qed

lemma component_of_spec: "component_of ps s = component_spec (set ps) s"
proof -
  let ?st = "component_loop ps \<lparr>cs_sources = [s], cs_successors = [], cs_queue = [s]\<rparr>"
  have "loop_inv ps s {} \<lparr>cs_sources = [s], cs_successors = [], cs_queue = [s]\<rparr>"
    by (simp add: loop_inv_def source_class_self)
  from component_loop_inv [OF this] have inv: "loop_inv ps s {} ?st" and "cs_queue ?st = []" by simp_all
  note sets = loop_inv_done [OF this]
  from inv have "distinct (cs_sources ?st)" "distinct (cs_successors ?st)" by (simp_all add: loop_inv_def)
  from sorted_list_of_set_code_eq [OF this(1) sets(1)] sorted_list_of_set_code_eq [OF this(2) sets(2)]
  show ?thesis by (simp add: component_of_def component_spec_def Let_def)
qed

section \<open>All components\<close>

lemma finite_source_class: "s \<in> snd ` set ps \<Longrightarrow> finite (source_class (set ps) s)"
  by (rule finite_subset [OF source_class_targets]) auto

definition components_inv :: "(string \<times> string) list \<Rightarrow> (string \<rightharpoonup> component) \<Rightarrow> bool" where
  "components_inv ps out \<longleftrightarrow>
     (\<forall>t c. out t = Some c \<longrightarrow> t \<in> snd ` set ps \<and> c = component_spec (set ps) t)"

lemma fold_upd: "fold (\<lambda>x m. m(x \<mapsto> c)) xs m t = (if t \<in> set xs then Some c else m t)"
  by (induction xs arbitrary: m) auto

lemma add_component_inv:
  assumes inv: "components_inv ps out" and s: "s \<in> snd ` set ps"
  shows "components_inv ps (add_component ps s out) \<and> insert s (dom out) \<subseteq> dom (add_component ps s out)"
proof (cases "out s")
  case (Some c)
  with inv show ?thesis by (auto simp: add_component_def)
next
  case None
  have cls: "set (sc_sources (component_of ps s)) = source_class (set ps) s"
    using finite_source_class [OF s] by (simp add: component_of_spec component_spec_def)
  have get: "add_component ps s out t = (if t \<in> source_class (set ps) s then Some (component_spec (set ps) s) else out t)" for t
    using None cls by (simp add: add_component_def fold_upd component_of_spec)
  have "components_inv ps (add_component ps s out)"
    using inv source_class_targets [OF s] component_spec_eq unfolding components_inv_def get by (auto split: if_splits)
  moreover have "insert s (dom out) \<subseteq> dom (add_component ps s out)"
    using source_class_self [of s "set ps"] by (auto simp: get dom_def)
  ultimately show ?thesis by blast
qed

lemma fold_components_inv:
  assumes "components_inv ps out" and "set ss \<subseteq> snd ` set ps"
  shows "components_inv ps (fold (add_component ps) ss out) \<and> set ss \<union> dom out \<subseteq> dom (fold (add_component ps) ss out)"
  using assms
proof (induction ss arbitrary: out)
  case (Cons s ss)
  from add_component_inv [OF Cons.prems(1), of s] Cons.prems(2)
  have step: "components_inv ps (add_component ps s out)" "insert s (dom out) \<subseteq> dom (add_component ps s out)" by simp_all
  from Cons.IH [OF step(1)] Cons.prems(2) step(2) show ?case by simp blast
qed simp

text \<open>C32: the supersede disposition's unit. Every dangling source, and nothing else, has a
  component; it is the sorted class of the sources connected to it by shared successors,
  with all the successors that declare one of them. Which source the walk of the map meets
  first does not matter, and the loop terminates.\<close>

theorem supersede_components_exact:
  "supersede_components ps s = (if s \<in> snd ` set ps then Some (component_spec (set ps) s) else None)"
proof -
  have "components_inv ps Map.empty" by (simp add: components_inv_def)
  from fold_components_inv [OF this, of "remdups (map snd ps)"]
  have inv: "components_inv ps (supersede_components ps)" and all: "snd ` set ps \<subseteq> dom (supersede_components ps)"
    by (simp_all add: supersede_components_def)
  show ?thesis
  proof (cases "supersede_components ps s")
    case None
    with all show ?thesis by auto
  next
    case (Some c)
    with inv show ?thesis by (auto simp: components_inv_def)
  qed
qed

end
