(* ===== verification/Retention.thy ===== *)
theory Retention
  imports GoStd "HOL-Library.Product_Lexorder"
begin

text \<open>
  The retention of the machine-local record stores, \<open>internal/recordstore/retention.go\<close>:
  usage measurement, abandoned stores, and \<open>PruneKind\<close>. The file system is what its calls
  answer: a store is given with the answers its lock, its directory read, the removal of each
  of its files and its substore hooks give in this pass. The context is the answer of its
  n-th poll. Byte counts are integers: the totals of real directories stay far below the
  width of \<open>int64\<close>.
\<close>

section \<open>Configuration\<close>

definition default_max_bytes :: int where
  "default_max_bytes = 2 * 2 ^ 30"

definition set_max_bytes :: "int \<Rightarrow> int" where
  "set_max_bytes limit = (if limit = 0 then default_max_bytes else limit)"

record prune_options =
  po_max_bytes :: int
  po_dry_run :: bool
  po_active_roots :: "string list"

record prune_report =
  pr_root :: string
  pr_used :: int
  pr_reclaimed :: int
  pr_remaining :: int
  pr_removed_files :: int
  pr_abandoned_stores :: int
  pr_busy_stores :: int
  pr_skipped :: int

definition empty_report :: "string \<Rightarrow> prune_report" where
  "empty_report root = \<lparr>pr_root = root, pr_used = 0, pr_reclaimed = 0, pr_remaining = 0, pr_removed_files = 0,
     pr_abandoned_stores = 0, pr_busy_stores = 0, pr_skipped = 0\<rparr>"

section \<open>Directories\<close>

datatype fault = No_Fault | Not_Exist | Other_Fault

datatype file_info = Info int int | Info_Fault fault

datatype listing = Listing "dir_entry list" fault
  and dir_entry = Sub_Dir string listing | Plain_File string file_info

fun entry_name :: "dir_entry \<Rightarrow> string" where
  "entry_name (Sub_Dir n _) = n"
| "entry_name (Plain_File n _) = n"

definition dot_name :: "string \<Rightarrow> bool" where
  "dot_name n \<longleftrightarrow> has_prefix n ''.''"

definition json_name :: "string \<Rightarrow> bool" where
  "json_name n \<longleftrightarrow> \<not> dot_name n \<and> has_suffix n ''.json''"

text \<open>The bytes of the record files of a directory and its subdirectories, and the skips.\<close>

fun measure_dir :: "listing \<Rightarrow> int \<times> int" and measure_entry :: "dir_entry \<Rightarrow> int \<times> int" where
  "measure_dir (Listing es err) =
     (case err of
        No_Fault \<Rightarrow> (sum_list (map (fst \<circ> measure_entry) es), sum_list (map (snd \<circ> measure_entry) es))
      | Not_Exist \<Rightarrow> (0, 0)
      | Other_Fault \<Rightarrow> (0, 1))"
| "measure_entry (Sub_Dir n sub) = measure_dir sub"
| "measure_entry (Plain_File n info) =
     (if \<not> json_name n then (0, 0)
      else case info of Info sz _ \<Rightarrow> (sz, 0) | Info_Fault f \<Rightarrow> (0, if f = Not_Exist then 0 else 1))"

section \<open>Stores\<close>

datatype lock_answer = Locked | Contended | Lock_Failed

record sub_report =
  su_used :: int
  su_reclaimed :: int
  su_removed :: int
  su_skipped :: int

type_synonym evict_hook = "string \<Rightarrow> bool \<Rightarrow> sub_report \<times> bool"

record store_view =
  sv_path :: string
  sv_lock :: lock_answer
  sv_coord :: string
  sv_stat :: fault
  sv_listing :: listing
  sv_remove :: "string \<Rightarrow> fault"
  sv_substore :: "(bool \<Rightarrow> bool \<Rightarrow> sub_report \<times> evict_hook option) option"
  sv_relock :: "string \<Rightarrow> lock_answer"

definition abandoned :: "string list \<Rightarrow> store_view \<Rightarrow> bool" where
  "abandoned active sv \<longleftrightarrow> sv_coord sv \<noteq> [] \<and> sv_coord sv \<notin> set active \<and> sv_stat sv = Not_Exist"

text \<open>The stores under a kind's root: its directories but the dot-prefixed ones.\<close>

definition list_stores :: "listing \<Rightarrow> string + string list" where
  "list_stores l =
     (case l of Listing es err \<Rightarrow>
        if err = Not_Exist then Inr []
        else if err = Other_Fault then Inl ''read root''
        else Inr (concat (map (\<lambda>e. case e of Sub_Dir n _ \<Rightarrow> if dot_name n then [] else [n] | Plain_File _ _ \<Rightarrow> []) es)))"

section \<open>The first sweep\<close>

record candidate =
  ca_store :: nat
  ca_name :: string
  ca_path :: string
  ca_size :: int
  ca_time :: int

text \<open>
  \<open>sw_removed\<close> logs the files whose removal was not refused, and the root note and directory of
  an abandoned store, whose removal is attempted without looking at the answer.
\<close>

record sweep =
  sw_report :: prune_report
  sw_polls :: nat
  sw_live :: "(store_view \<times> evict_hook option) list"
  sw_candidates :: "candidate list"
  sw_removed :: "string list"

type_synonym ctx = "nat \<Rightarrow> string option"

text \<open>A step either stops the pass with the context's error, or goes on.\<close>

type_synonym stopped = "sweep \<times> string"

definition settle :: "prune_report \<Rightarrow> prune_report" where
  "settle r = r\<lparr>pr_remaining := pr_used r - pr_reclaimed r\<rparr>"

definition on_report :: "(prune_report \<Rightarrow> prune_report) \<Rightarrow> sweep \<Rightarrow> sweep" where
  "on_report f sw = sw\<lparr>sw_report := f (sw_report sw)\<rparr>"

definition skipping :: "int \<Rightarrow> prune_report \<Rightarrow> prune_report" where
  "skipping n r = r\<lparr>pr_skipped := pr_skipped r + n\<rparr>"

definition using_bytes :: "int \<Rightarrow> prune_report \<Rightarrow> prune_report" where
  "using_bytes n r = r\<lparr>pr_used := pr_used r + n\<rparr>"

definition reclaiming :: "int \<Rightarrow> int \<Rightarrow> prune_report \<Rightarrow> prune_report" where
  "reclaiming bytes files r =
     r\<lparr>pr_reclaimed := pr_reclaimed r + bytes, pr_removed_files := pr_removed_files r + files\<rparr>"

definition poll :: "ctx \<Rightarrow> sweep \<Rightarrow> stopped + sweep" where
  "poll ctx sw =
     (let sw' = sw\<lparr>sw_polls := Suc (sw_polls sw)\<rparr> in
      case ctx (sw_polls sw) of None \<Rightarrow> Inr sw' | Some e \<Rightarrow> Inl (on_report settle sw', e))"

definition and_then :: "stopped + sweep \<Rightarrow> (sweep \<Rightarrow> stopped + sweep) \<Rightarrow> stopped + sweep" where
  "and_then m f = (case m of Inl s \<Rightarrow> Inl s | Inr sw \<Rightarrow> f sw)"

fun each :: "('a \<Rightarrow> sweep \<Rightarrow> stopped + sweep) \<Rightarrow> 'a list \<Rightarrow> sweep \<Rightarrow> stopped + sweep" where
  "each f [] sw = Inr sw"
| "each f (x # xs) sw = and_then (f x sw) (each f xs)"

text \<open>The record files of a store: what the two loops over its entries read.\<close>

definition record_file :: "dir_entry \<Rightarrow> (string \<times> file_info) option" where
  "record_file e = (case e of Sub_Dir _ _ \<Rightarrow> None | Plain_File n info \<Rightarrow> if json_name n then Some (n, info) else None)"

definition remove_ok :: "fault \<Rightarrow> bool" where
  "remove_ok f \<longleftrightarrow> f \<noteq> Other_Fault"

definition file_path :: "store_view \<Rightarrow> string \<Rightarrow> string" where
  "file_path sv n = sv_path sv @ ''/'' @ n"

definition listing_entries :: "listing \<Rightarrow> dir_entry list" where
  "listing_entries l = (case l of Listing es _ \<Rightarrow> es)"

definition listing_skip :: "listing \<Rightarrow> int" where
  "listing_skip l = (case l of Listing _ err \<Rightarrow> if err = Other_Fault then 1 else 0)"

definition reclaim_entry :: "ctx \<Rightarrow> bool \<Rightarrow> store_view \<Rightarrow> dir_entry \<Rightarrow> sweep \<Rightarrow> stopped + sweep" where
  "reclaim_entry ctx dry sv e sw =
     and_then (poll ctx sw) (\<lambda>sw.
       case record_file e of
         None \<Rightarrow> Inr sw
       | Some (n, Info_Fault f) \<Rightarrow> Inr (on_report (skipping (if f = Not_Exist then 0 else 1)) sw)
       | Some (n, Info sz _) \<Rightarrow>
           let sw1 = on_report (using_bytes sz) sw in
           if dry then Inr (on_report (reclaiming sz 1) sw1)
           else if remove_ok (sv_remove sv n)
           then Inr (on_report (reclaiming sz 1) (sw1\<lparr>sw_removed := sw_removed sw1 @ [file_path sv n]\<rparr>))
           else Inr (on_report (skipping 1) sw1))"

definition add_sub :: "sub_report \<Rightarrow> prune_report \<Rightarrow> prune_report" where
  "add_sub su r =
     skipping (su_skipped su) (reclaiming (su_reclaimed su) (su_removed su) (using_bytes (su_used su) r))"

definition sweep_abandoned :: "ctx \<Rightarrow> bool \<Rightarrow> store_view \<Rightarrow> sweep \<Rightarrow> stopped + sweep" where
  "sweep_abandoned ctx dry sv sw =
     (let sw1 = on_report (\<lambda>r. skipping (listing_skip (sv_listing sv)) (r\<lparr>pr_abandoned_stores := pr_abandoned_stores r + 1\<rparr>)) sw in
      and_then (each (reclaim_entry ctx dry sv) (listing_entries (sv_listing sv)) sw1) (\<lambda>sw2.
      let sw3 = (case sv_substore sv of None \<Rightarrow> sw2 | Some sub \<Rightarrow> on_report (add_sub (fst (sub True dry))) sw2) in
      and_then (poll ctx sw3) (\<lambda>sw4.
        Inr (if dry then sw4 else sw4\<lparr>sw_removed := sw_removed sw4 @ [sv_path sv @ ''.root'', sv_path sv]\<rparr>))))"

definition candidate_of :: "store_view \<Rightarrow> nat \<Rightarrow> dir_entry \<Rightarrow> sweep \<Rightarrow> sweep" where
  "candidate_of sv i e sw =
     (case record_file e of
        None \<Rightarrow> sw
      | Some (n, Info_Fault f) \<Rightarrow> on_report (skipping (if f = Not_Exist then 0 else 1)) sw
      | Some (n, Info sz time) \<Rightarrow>
          (on_report (using_bytes sz) sw)\<lparr>sw_candidates := sw_candidates sw @
             [\<lparr>ca_store = i, ca_name = n, ca_path = file_path sv n, ca_size = sz, ca_time = time\<rparr>]\<rparr>)"

definition sweep_live :: "ctx \<Rightarrow> bool \<Rightarrow> store_view \<Rightarrow> sweep \<Rightarrow> stopped + sweep" where
  "sweep_live ctx dry sv sw =
     (let i = length (sw_live sw);
          sub = map_option (\<lambda>s. s False dry) (sv_substore sv);
          hook = (case sub of None \<Rightarrow> None | Some (_, h) \<Rightarrow> h);
          sw1 = on_report (skipping (listing_skip (sv_listing sv))) (sw\<lparr>sw_live := sw_live sw @ [(sv, hook)]\<rparr>);
          sw2 = fold (candidate_of sv i) (listing_entries (sv_listing sv)) sw1
      in poll ctx (case sub of None \<Rightarrow> sw2 | Some (su, _) \<Rightarrow> on_report (add_sub su) sw2))"

definition sweep_store :: "ctx \<Rightarrow> prune_options \<Rightarrow> store_view \<Rightarrow> sweep \<Rightarrow> stopped + sweep" where
  "sweep_store ctx opts sv sw =
     and_then (poll ctx sw) (\<lambda>sw.
       case sv_lock sv of
         Contended \<Rightarrow>
           let (used, skipped) = measure_dir (sv_listing sv) in
           Inr (on_report (\<lambda>r. skipping skipped (using_bytes used (r\<lparr>pr_busy_stores := pr_busy_stores r + 1\<rparr>))) sw)
       | Lock_Failed \<Rightarrow> Inr (on_report (skipping 1) sw)
       | Locked \<Rightarrow>
           if abandoned (po_active_roots opts) sv then sweep_abandoned ctx (po_dry_run opts) sv sw
           else sweep_live ctx (po_dry_run opts) sv sw)"

section \<open>Eviction\<close>

text \<open>The second loop: oldest first until the bound holds; a store whose lock fails is left.\<close>

record eviction =
  ev_sweep :: sweep
  ev_busy :: "nat list"
  ev_evicted :: "candidate list"

definition evicting :: "int \<Rightarrow> int \<Rightarrow> prune_report \<Rightarrow> prune_report" where
  "evicting bytes files r =
     r\<lparr>pr_reclaimed := pr_reclaimed r + bytes, pr_remaining := pr_remaining r - bytes,
       pr_removed_files := pr_removed_files r + files\<rparr>"

definition live_at :: "sweep \<Rightarrow> candidate \<Rightarrow> store_view \<times> evict_hook option" where
  "live_at sw f = sw_live sw ! ca_store f"

definition evict_remove :: "bool \<Rightarrow> candidate \<Rightarrow> sweep \<Rightarrow> sweep" where
  "evict_remove dry f sw =
     on_report (evicting (ca_size f) 1) (if dry then sw else sw\<lparr>sw_removed := sw_removed sw @ [ca_path f]\<rparr>)"

definition evict_sub :: "sub_report \<Rightarrow> sweep \<Rightarrow> sweep" where
  "evict_sub su sw = on_report (\<lambda>r. skipping (su_skipped su) (evicting (su_reclaimed su) (su_removed su) r)) sw"

text \<open>One candidate below the bound's reach: Inl when the hook met the context's end.\<close>

definition evict_one :: "ctx \<Rightarrow> bool \<Rightarrow> candidate \<Rightarrow> eviction \<Rightarrow> (eviction \<times> string) + eviction" where
  "evict_one ctx dry f ev =
     (let sw = ev_sweep ev; sv = fst (live_at sw f) in
      case sv_relock sv (ca_name f) of
        Contended \<Rightarrow> Inr (ev\<lparr>ev_busy := ca_store f # ev_busy ev,
           ev_sweep := on_report (\<lambda>r. r\<lparr>pr_busy_stores := pr_busy_stores r + 1\<rparr>) sw\<rparr>)
      | Lock_Failed \<Rightarrow> Inr (ev\<lparr>ev_busy := ca_store f # ev_busy ev, ev_sweep := on_report (skipping 1) sw\<rparr>)
      | Locked \<Rightarrow>
          if \<not> dry \<and> \<not> remove_ok (sv_remove sv (ca_name f)) then Inr (ev\<lparr>ev_sweep := on_report (skipping 1) sw\<rparr>)
          else
            let sw1 = evict_remove dry f sw; ev1 = ev\<lparr>ev_evicted := ev_evicted ev @ [f]\<rparr> in
            case snd (live_at sw f) of
              None \<Rightarrow> Inr (ev1\<lparr>ev_sweep := sw1\<rparr>)
            | Some hook \<Rightarrow>
                let (su, failed) = hook (ca_name f) dry; sw2 = evict_sub su sw1 in
                if failed then
                  let sw3 = sw2\<lparr>sw_polls := Suc (sw_polls sw2)\<rparr> in
                  case ctx (sw_polls sw2) of
                    None \<Rightarrow> Inr (ev1\<lparr>ev_sweep := sw3\<rparr>)
                  | Some e \<Rightarrow> Inl (ev1\<lparr>ev_sweep := sw3\<rparr>, e)
                else Inr (ev1\<lparr>ev_sweep := sw2\<rparr>))"

fun evict :: "ctx \<Rightarrow> bool \<Rightarrow> int \<Rightarrow> candidate list \<Rightarrow> eviction \<Rightarrow> (eviction \<times> string) + eviction" where
  "evict ctx dry bound [] ev = Inr ev"
| "evict ctx dry bound (f # fs) ev =
     (let sw = ev_sweep ev; sw1 = sw\<lparr>sw_polls := Suc (sw_polls sw)\<rparr>; ev1 = ev\<lparr>ev_sweep := sw1\<rparr> in
      case ctx (sw_polls sw) of
        Some e \<Rightarrow> Inl (ev1, e)
      | None \<Rightarrow>
          if pr_remaining (sw_report sw1) \<le> bound then Inr ev1
          else if ca_store f \<in> set (ev_busy ev1) then evict ctx dry bound fs ev1
          else case evict_one ctx dry f ev1 of Inl stop \<Rightarrow> Inl stop | Inr ev2 \<Rightarrow> evict ctx dry bound fs ev2)"

definition eviction_order :: "candidate list \<Rightarrow> candidate list" where
  "eviction_order = sort_key (\<lambda>f. (ca_time f, ca_path f))"

section \<open>The pass\<close>

record pass =
  ps_report :: prune_report
  ps_error :: "string option"
  ps_removed :: "string list"
  ps_evicted :: "candidate list"

definition start_sweep :: "string \<Rightarrow> nat \<Rightarrow> sweep" where
  "start_sweep root polls =
     \<lparr>sw_report = empty_report root, sw_polls = polls, sw_live = [], sw_candidates = [], sw_removed = []\<rparr>"

definition pass_of :: "sweep \<Rightarrow> string option \<Rightarrow> candidate list \<Rightarrow> pass" where
  "pass_of sw err evicted =
     \<lparr>ps_report = sw_report sw, ps_error = err, ps_removed = sw_removed sw, ps_evicted = evicted\<rparr>"

definition evict_phase :: "ctx \<Rightarrow> prune_options \<Rightarrow> sweep \<Rightarrow> pass" where
  "evict_phase ctx opts sw =
     (let sw1 = on_report settle sw in
      if po_max_bytes opts < 0 \<or> pr_remaining (sw_report sw1) \<le> po_max_bytes opts
      then pass_of sw1 (ctx (sw_polls sw1)) []
      else case evict ctx (po_dry_run opts) (po_max_bytes opts) (eviction_order (sw_candidates sw1))
                  \<lparr>ev_sweep = sw1, ev_busy = [], ev_evicted = []\<rparr> of
             Inl (ev, e) \<Rightarrow> pass_of (ev_sweep ev) (Some e) (ev_evicted ev)
           | Inr ev \<Rightarrow> pass_of (ev_sweep ev) (ctx (sw_polls (ev_sweep ev))) (ev_evicted ev))"

text \<open>\<open>PruneKind\<close> over the answer of \<open>Root\<close> and of \<open>ListStores\<close>.\<close>

definition prune_kind :: "ctx \<Rightarrow> string + string \<Rightarrow> string + store_view list \<Rightarrow> prune_options \<Rightarrow> pass" where
  "prune_kind ctx root stores opts =
     (case ctx 0 of
        Some e \<Rightarrow> pass_of (start_sweep [] 1) (Some e) []
      | None \<Rightarrow>
          (case root of
             Inl e \<Rightarrow> pass_of (start_sweep [] 1) (Some e) []
           | Inr path \<Rightarrow>
               (case stores of
                  Inl e \<Rightarrow> pass_of (start_sweep path 1) (Some e) []
                | Inr svs \<Rightarrow>
                    (case each (sweep_store ctx opts) svs (start_sweep path 1) of
                       Inl (sw, e) \<Rightarrow> pass_of sw (Some e) []
                     | Inr sw \<Rightarrow> evict_phase ctx opts sw))))"

section \<open>The account\<close>

definition accounted :: "prune_report \<Rightarrow> bool" where
  "accounted r \<longleftrightarrow> pr_remaining r = pr_used r - pr_reclaimed r"

definition stops_accounted :: "stopped + sweep \<Rightarrow> bool" where
  "stops_accounted m \<longleftrightarrow> (case m of Inl (sw, _) \<Rightarrow> accounted (sw_report sw) | Inr _ \<Rightarrow> True)"

lemma sweep_fields [simp]:
  "sw_report (on_report f sw) = f (sw_report sw)" "sw_polls (on_report f sw) = sw_polls sw"
  "sw_live (on_report f sw) = sw_live sw" "sw_candidates (on_report f sw) = sw_candidates sw"
  "sw_removed (on_report f sw) = sw_removed sw"
  by (simp_all add: on_report_def)

lemma settle_accounted [simp]: "accounted (settle r)"
  by (simp add: accounted_def settle_def)

lemma poll_stops [simp]: "stops_accounted (poll ctx sw)"
  by (simp add: stops_accounted_def poll_def Let_def split: option.split)

lemma Inr_stops [simp]: "stops_accounted (Inr sw)"
  by (simp add: stops_accounted_def)

lemma and_then_stops:
  "stops_accounted m \<Longrightarrow> (\<And>sw. m = Inr sw \<Longrightarrow> stops_accounted (f sw)) \<Longrightarrow> stops_accounted (and_then m f)"
  by (cases m) (simp_all add: and_then_def)

lemma each_stops: "(\<And>x sw. stops_accounted (f x sw)) \<Longrightarrow> stops_accounted (each f xs sw)"
  by (induction xs arbitrary: sw) (simp_all add: and_then_stops)

lemma reclaim_entry_stops: "stops_accounted (reclaim_entry ctx dry sv e sw)"
  unfolding reclaim_entry_def by (rule and_then_stops) (simp_all add: Let_def split: option.split prod.split file_info.split)

lemma sweep_store_stops: "stops_accounted (sweep_store ctx opts sv sw)"
proof -
  have live: "stops_accounted (sweep_live ctx dry sv sw)" for dry sw by (simp add: sweep_live_def Let_def)
  have gone: "stops_accounted (sweep_abandoned ctx dry sv sw)" for dry sw
    unfolding sweep_abandoned_def Let_def
    by (intro and_then_stops each_stops reclaim_entry_stops poll_stops) simp_all
  show ?thesis unfolding sweep_store_def
    by (rule and_then_stops) (simp_all add: live gone split: lock_answer.split prod.split)
qed

lemma accounted_evicting: "accounted r \<Longrightarrow> accounted (evicting b n r)"
  by (simp add: accounted_def evicting_def)

lemma accounted_skipping [simp]: "accounted (skipping n r) = accounted r"
  by (simp add: accounted_def skipping_def)

definition ev_accounted :: "(eviction \<times> string) + eviction \<Rightarrow> bool" where
  "ev_accounted m \<longleftrightarrow> (case m of Inl (ev, _) \<Rightarrow> accounted (sw_report (ev_sweep ev)) | Inr ev \<Rightarrow> accounted (sw_report (ev_sweep ev)))"

lemma evict_one_accounted:
  "accounted (sw_report (ev_sweep ev)) \<Longrightarrow> ev_accounted (evict_one ctx dry f ev)"
  by (simp add: evict_one_def ev_accounted_def Let_def evict_remove_def evict_sub_def accounted_evicting
      accounted_def [of "_\<lparr>pr_busy_stores := _\<rparr>"] split: lock_answer.split option.split prod.split)
    (simp add: accounted_def)

lemma evict_accounted: "accounted (sw_report (ev_sweep ev)) \<Longrightarrow> ev_accounted (evict ctx dry bound fs ev)"
proof (induction fs arbitrary: ev)
  case (Cons f fs)
  let ?ev1 = "ev\<lparr>ev_sweep := (ev_sweep ev)\<lparr>sw_polls := Suc (sw_polls (ev_sweep ev))\<rparr>\<rparr>"
  have acc: "accounted (sw_report (ev_sweep ?ev1))" using Cons.prems by simp
  note one = evict_one_accounted [OF acc, of ctx dry f]
  show ?case
  proof (cases "evict_one ctx dry f ?ev1")
    case (Inl s)
    with one acc Cons.IH [OF acc] show ?thesis by (simp add: Let_def ev_accounted_def split: option.split)
  next
    case (Inr ev2)
    with one have "accounted (sw_report (ev_sweep ev2))" by (simp add: ev_accounted_def)
    with Inr acc Cons.IH [OF acc] Cons.IH [of ev2] show ?thesis by (simp add: Let_def ev_accounted_def split: option.split)
  qed
qed (simp add: ev_accounted_def)

text \<open>The account of a retention pass. However a pass ends, complete, cancelled at any poll or
  refused by the file system, its report balances: the bytes remaining are those used less
  those reclaimed.\<close>

theorem retention_account_balances:
  "pr_remaining (ps_report (prune_kind ctx root stores opts))
     = pr_used (ps_report (prune_kind ctx root stores opts)) - pr_reclaimed (ps_report (prune_kind ctx root stores opts))"
proof -
  have start: "accounted (sw_report (start_sweep path n))" for path n
    by (simp add: accounted_def start_sweep_def empty_report_def)
  have "accounted (ps_report (evict_phase ctx opts sw))" for sw
    using evict_accounted [of "\<lparr>ev_sweep = on_report settle sw, ev_busy = [], ev_evicted = []\<rparr>" ctx "po_dry_run opts"
        "po_max_bytes opts" "eviction_order (sw_candidates sw)"]
    by (auto simp: evict_phase_def Let_def pass_of_def ev_accounted_def split: sum.split)
  moreover have "accounted (sw_report a)" if "each (sweep_store ctx opts) svs sw = Inl (a, e)" for svs sw a e
    using each_stops [of "sweep_store ctx opts" svs sw, OF sweep_store_stops] that by (simp add: stops_accounted_def)
  ultimately have "accounted (ps_report (prune_kind ctx root stores opts))"
    using start by (auto simp: prune_kind_def pass_of_def split: option.split sum.split)
  then show ?thesis by (simp only: accounted_def)
qed

section \<open>What a pass removes\<close>

definition abandoned_paths :: "string list \<Rightarrow> store_view list \<Rightarrow> string set" where
  "abandoned_paths active svs =
     (\<Union>sv \<in> {sv \<in> set svs. sv_lock sv = Locked \<and> abandoned active sv}.
        {sv_path sv @ ''.root'', sv_path sv} \<union> {file_path sv n | n. json_name n})"

definition removes_in :: "string set \<Rightarrow> stopped + sweep \<Rightarrow> bool" where
  "removes_in A m \<longleftrightarrow> (case m of Inl (sw, _) \<Rightarrow> set (sw_removed sw) \<subseteq> A | Inr sw \<Rightarrow> set (sw_removed sw) \<subseteq> A)"

lemma removes_in_Inr [simp]: "removes_in A (Inr sw) \<longleftrightarrow> set (sw_removed sw) \<subseteq> A"
  by (simp add: removes_in_def)

lemma removes_poll [simp]: "removes_in A (poll ctx sw) \<longleftrightarrow> set (sw_removed sw) \<subseteq> A"
  by (simp add: removes_in_def poll_def Let_def split: option.split)

lemma removes_and_then:
  "removes_in A m \<Longrightarrow> (\<And>sw. set (sw_removed sw) \<subseteq> A \<Longrightarrow> removes_in A (f sw)) \<Longrightarrow> removes_in A (and_then m f)"
  by (cases m) (simp_all add: and_then_def removes_in_def)

lemma removes_each:
  assumes "\<And>x sw. x \<in> set xs \<Longrightarrow> set (sw_removed sw) \<subseteq> A \<Longrightarrow> removes_in A (f x sw)" and "set (sw_removed sw) \<subseteq> A"
  shows "removes_in A (each f xs sw)"
  using assms by (induction xs arbitrary: sw) (simp_all add: removes_and_then)

lemma removes_reclaim:
  assumes "dry \<or> {file_path sv n | n. json_name n} \<subseteq> A" and "set (sw_removed sw) \<subseteq> A"
  shows "removes_in A (reclaim_entry ctx dry sv e sw)"
  unfolding reclaim_entry_def
proof (rule removes_and_then)
  fix sw :: sweep assume "set (sw_removed sw) \<subseteq> A"
  with assms(1) show "removes_in A (case record_file e of None \<Rightarrow> Inr sw
      | Some (n, Info_Fault f) \<Rightarrow> Inr (on_report (skipping (if f = Not_Exist then 0 else 1)) sw)
      | Some (n, Info sz _) \<Rightarrow>
          let sw1 = on_report (using_bytes sz) sw in
          if dry then Inr (on_report (reclaiming sz 1) sw1)
          else if remove_ok (sv_remove sv n)
          then Inr (on_report (reclaiming sz 1) (sw1\<lparr>sw_removed := sw_removed sw1 @ [file_path sv n]\<rparr>))
          else Inr (on_report (skipping 1) sw1))"
    by (cases e) (auto simp: record_file_def Let_def split: file_info.split)
qed (simp add: assms(2))

lemma candidates_frame:
  "sw_removed (fold (candidate_of sv i) es sw) = sw_removed sw"
  by (rule fold_field_frame) (simp add: candidate_of_def split: option.split prod.split file_info.split)

lemma removes_store:
  assumes "sv \<in> set svs" and "set (sw_removed sw) \<subseteq> A"
    and "po_dry_run opts \<or> abandoned_paths (po_active_roots opts) svs \<subseteq> A"
  shows "removes_in A (sweep_store ctx opts sv sw)"
  unfolding sweep_store_def
proof (rule removes_and_then)
  fix sw :: sweep assume sw: "set (sw_removed sw) \<subseteq> A"
  have live: "removes_in A (sweep_live ctx (po_dry_run opts) sv sw)"
    using sw by (simp add: sweep_live_def Let_def candidates_frame split: option.split prod.split)
  have gone: "removes_in A (sweep_abandoned ctx (po_dry_run opts) sv sw)"
    if "sv_lock sv = Locked" "abandoned (po_active_roots opts) sv"
  proof -
    have paths: "po_dry_run opts \<or> {sv_path sv @ ''.root'', sv_path sv} \<union> {file_path sv n | n. json_name n} \<subseteq> A"
      using assms(1,3) that unfolding abandoned_paths_def by blast
    have reclaim: "removes_in A (reclaim_entry ctx (po_dry_run opts) sv e sw)" if "set (sw_removed sw) \<subseteq> A" for e sw
      by (rule removes_reclaim [OF _ that]) (use paths in blast)
    show ?thesis unfolding sweep_abandoned_def Let_def
      by (intro removes_and_then removes_each reclaim) (use sw paths in \<open>simp_all split: option.split\<close>, blast?)
  qed
  show "removes_in A (case sv_lock sv of
      Locked \<Rightarrow> if abandoned (po_active_roots opts) sv then sweep_abandoned ctx (po_dry_run opts) sv sw
                else sweep_live ctx (po_dry_run opts) sv sw
    | Contended \<Rightarrow> let (used, skipped) = measure_dir (sv_listing sv) in
        Inr (on_report (\<lambda>r. skipping skipped (using_bytes used (r\<lparr>pr_busy_stores := pr_busy_stores r + 1\<rparr>))) sw)
    | Lock_Failed \<Rightarrow> Inr (on_report (skipping 1) sw))"
    using sw live gone by (simp split: lock_answer.split prod.split)
qed (simp add: assms(2))

text \<open>The eviction removes what it lists, and a preview removes nothing.\<close>

definition ev_removes :: "bool \<Rightarrow> string set \<Rightarrow> eviction \<Rightarrow> bool" where
  "ev_removes dry A ev \<longleftrightarrow>
     set (sw_removed (ev_sweep ev)) \<subseteq> A \<union> (if dry then {} else ca_path ` set (ev_evicted ev))"

lemma evict_one_removes:
  assumes "ev_removes dry A ev"
  shows "case evict_one ctx dry f ev of Inl (ev', _) \<Rightarrow> ev_removes dry A ev' | Inr ev' \<Rightarrow> ev_removes dry A ev'"
  using assms
  by (cases dry) (auto simp: evict_one_def ev_removes_def Let_def evict_remove_def evict_sub_def
      split: lock_answer.split option.split prod.split)

lemma evict_removes:
  "ev_removes dry A ev \<Longrightarrow>
     case evict ctx dry bound fs ev of Inl (ev', _) \<Rightarrow> ev_removes dry A ev' | Inr ev' \<Rightarrow> ev_removes dry A ev'"
proof (induction fs arbitrary: ev)
  case Nil
  then show ?case by (simp only: evict.simps sum.case)
next
  case (Cons f fs)
  let ?ev1 = "ev\<lparr>ev_sweep := (ev_sweep ev)\<lparr>sw_polls := Suc (sw_polls (ev_sweep ev))\<rparr>\<rparr>"
  have rem: "ev_removes dry A ?ev1" using Cons.prems by (cases dry) (simp_all add: ev_removes_def)
  note one = evict_one_removes [OF rem, of ctx f]
  show ?case
  proof (cases "evict_one ctx dry f ?ev1")
    case (Inl s)
    with one rem Cons.IH [OF rem] show ?thesis by (simp add: Let_def split: option.split prod.splits)
  next
    case (Inr ev2)
    with one rem Cons.IH [OF rem] Cons.IH [of ev2] show ?thesis by (simp add: Let_def split: option.split)
  qed
qed

lemma pass_removes:
  assumes A: "po_dry_run opts \<or> abandoned_paths (po_active_roots opts) svs \<subseteq> A"
  shows "set (ps_removed (prune_kind ctx root (Inr svs) opts))
    \<subseteq> A \<union> (if po_dry_run opts then {} else ca_path ` set (ps_evicted (prune_kind ctx root (Inr svs) opts)))"
proof -
  have sweep: "removes_in A (each (sweep_store ctx opts) svs (start_sweep path n))" for path n
    by (rule removes_each) (simp_all add: removes_store [OF _ _ A] start_sweep_def)
  have phase: "set (ps_removed (evict_phase ctx opts sw))
      \<subseteq> A \<union> (if po_dry_run opts then {} else ca_path ` set (ps_evicted (evict_phase ctx opts sw)))"
    if "set (sw_removed sw) \<subseteq> A" for sw
  proof -
    have "ev_removes (po_dry_run opts) A \<lparr>ev_sweep = on_report settle sw, ev_busy = [], ev_evicted = []\<rparr>"
      using that by (simp add: ev_removes_def)
    from evict_removes [OF this, of ctx "po_max_bytes opts" "eviction_order (sw_candidates sw)"] that
    show ?thesis by (auto simp: evict_phase_def Let_def pass_of_def ev_removes_def split: sum.splits if_splits)
  qed
  show ?thesis
  proof (cases "ctx 0")
    case (Some e)
    then show ?thesis by (simp add: prune_kind_def pass_of_def start_sweep_def)
  next
    case ctx: None
    show ?thesis
    proof (cases root)
      case (Inl e)
      with ctx show ?thesis by (simp add: prune_kind_def pass_of_def start_sweep_def)
    next
      case (Inr path)
      show ?thesis
      proof (cases "each (sweep_store ctx opts) svs (start_sweep path 1)")
        case (Inl s)
        with sweep [of path 1] ctx Inr show ?thesis by (cases s) (auto simp: prune_kind_def pass_of_def removes_in_def)
      next
        case sw: (Inr sw)
        with sweep [of path 1] have "set (sw_removed sw) \<subseteq> A" by (simp add: removes_in_def)
        from phase [OF this] sw ctx Inr show ?thesis by (cases "po_dry_run opts") (simp_all add: prune_kind_def)
      qed
    qed
  qed
qed

text \<open>What a retention pass may delete. Every path a pass removes is the record file, root note
  or directory of an abandoned store it locked, or a file it evicted under the byte bound; a
  dry run removes nothing at all; and without a bound no live store loses a file.\<close>

theorem retention_removes_only:
  "set (ps_removed (prune_kind ctx root (Inr svs) opts))
     \<subseteq> (if po_dry_run opts then {}
        else abandoned_paths (po_active_roots opts) svs \<union> ca_path ` set (ps_evicted (prune_kind ctx root (Inr svs) opts)))
   \<and> (ps_evicted (prune_kind ctx root (Inr svs) opts) = [] \<or> 0 \<le> po_max_bytes opts)"
proof
  show "set (ps_removed (prune_kind ctx root (Inr svs) opts))
     \<subseteq> (if po_dry_run opts then {}
        else abandoned_paths (po_active_roots opts) svs \<union> ca_path ` set (ps_evicted (prune_kind ctx root (Inr svs) opts)))"
    using pass_removes [of opts svs "{}" ctx root]
      pass_removes [of opts svs "abandoned_paths (po_active_roots opts) svs" ctx root] by (cases "po_dry_run opts") simp_all
  show "ps_evicted (prune_kind ctx root (Inr svs) opts) = [] \<or> 0 \<le> po_max_bytes opts"
    by (auto simp: prune_kind_def evict_phase_def pass_of_def Let_def split: option.split sum.split)
qed

section \<open>What the bound evicts\<close>

text \<open>
  The candidates the pass can evict at all, in order: those of a store up to the first one whose
  lock fails, but for those the file system refuses to remove.
\<close>

fun evictable :: "bool \<Rightarrow> sweep \<Rightarrow> nat list \<Rightarrow> candidate list \<Rightarrow> candidate list" where
  "evictable dry sw busy [] = []"
| "evictable dry sw busy (f # fs) =
     (let sv = fst (live_at sw f) in
      if ca_store f \<in> set busy then evictable dry sw busy fs
      else if sv_relock sv (ca_name f) \<noteq> Locked then evictable dry sw (ca_store f # busy) fs
      else if \<not> dry \<and> \<not> remove_ok (sv_remove sv (ca_name f)) then evictable dry sw busy fs
      else f # evictable dry sw busy fs)"

text \<open>What evicting one frees: the file, and what its hook reclaims beside it.\<close>

definition frees :: "bool \<Rightarrow> sweep \<Rightarrow> candidate \<Rightarrow> int" where
  "frees dry sw f =
     ca_size f + (case snd (live_at sw f) of None \<Rightarrow> 0 | Some hook \<Rightarrow> su_reclaimed (fst (hook (ca_name f) dry)))"

text \<open>The shortest prefix that brings the bytes under the bound, or all of them.\<close>

definition sheds :: "('a \<Rightarrow> int) \<Rightarrow> int \<Rightarrow> int \<Rightarrow> 'a list \<Rightarrow> 'a list \<Rightarrow> bool" where
  "sheds w bound tot es out \<longleftrightarrow>
     (\<exists>n \<le> length es. out = take n es
        \<and> (tot - sum_list (map w out) \<le> bound \<or> n = length es)
        \<and> (\<forall>m < n. bound < tot - sum_list (map w (take m es))))"

lemma sheds_Nil_iff: "sheds w bound tot [] out \<longleftrightarrow> out = []"
  by (auto simp: sheds_def)

lemma sheds_stop: "tot \<le> bound \<Longrightarrow> sheds w bound tot es []"
  unfolding sheds_def by (rule exI [of _ 0]) simp

lemma sheds_Cons:
  assumes "bound < tot" and "sheds w bound (tot - w f) es out"
  shows "sheds w bound tot (f # es) (f # out)"
proof -
  from assms(2) obtain n where n: "n \<le> length es" "out = take n es"
    "tot - w f - sum_list (map w out) \<le> bound \<or> n = length es"
    "\<forall>m < n. bound < tot - w f - sum_list (map w (take m es))" by (auto simp: sheds_def)
  have "bound < tot - sum_list (map w (take m (f # es)))" if "m < Suc n" for m
    using that assms(1) n(4) by (cases m) auto
  with n show ?thesis unfolding sheds_def by (intro exI [of _ "Suc n"]) auto
qed

text \<open>The live stores are fixed while the second loop runs.\<close>

lemma evict_one_live:
  "evict_one ctx dry f ev = Inr ev' \<Longrightarrow> sw_live (ev_sweep ev') = sw_live (ev_sweep ev)"
  by (auto simp: evict_one_def Let_def evict_remove_def evict_sub_def
      split: lock_answer.splits option.splits prod.splits if_splits)

lemma live_at_cong: "sw_live sw = sw_live sw' \<Longrightarrow> live_at sw f = live_at sw' f"
  by (simp add: live_at_def)

lemma evictable_cong:
  "sw_live sw = sw_live sw' \<Longrightarrow> evictable dry sw busy fs = evictable dry sw' busy fs"
  by (induction fs arbitrary: busy) (auto simp: Let_def live_at_def)

lemma frees_cong: "sw_live sw = sw_live sw' \<Longrightarrow> frees dry sw = frees dry sw'"
  by (simp add: frees_def live_at_def fun_eq_iff)

text \<open>One candidate, in an uncancelled pass.\<close>

definition evict_effect :: "bool \<Rightarrow> candidate \<Rightarrow> eviction \<Rightarrow> eviction \<Rightarrow> bool" where
  "evict_effect dry f ev ev' \<longleftrightarrow>
     (let sv = fst (live_at (ev_sweep ev) f); left = pr_remaining (sw_report (ev_sweep ev)) in
      if sv_relock sv (ca_name f) \<noteq> Locked
      then ev_busy ev' = ca_store f # ev_busy ev \<and> ev_evicted ev' = ev_evicted ev
        \<and> pr_remaining (sw_report (ev_sweep ev')) = left
      else if \<not> dry \<and> \<not> remove_ok (sv_remove sv (ca_name f))
      then ev_busy ev' = ev_busy ev \<and> ev_evicted ev' = ev_evicted ev
        \<and> pr_remaining (sw_report (ev_sweep ev')) = left
      else ev_busy ev' = ev_busy ev \<and> ev_evicted ev' = ev_evicted ev @ [f]
        \<and> pr_remaining (sw_report (ev_sweep ev')) = left - frees dry (ev_sweep ev) f)"

lemma evict_effect_polls:
  "evict_effect dry f (ev\<lparr>ev_sweep := (ev_sweep ev)\<lparr>sw_polls := n\<rparr>\<rparr>) ev' = evict_effect dry f ev ev'"
  by (simp add: evict_effect_def live_at_def frees_def)

lemma evict_one_runs:
  assumes ctx: "\<And>n. ctx n = None"
  obtains ev' where "evict_one ctx dry f ev = Inr ev'" and "evict_effect dry f ev ev'"
proof -
  let ?sv = "fst (live_at (ev_sweep ev) f)"
  consider (busy) "sv_relock ?sv (ca_name f) = Contended" | (failed) "sv_relock ?sv (ca_name f) = Lock_Failed"
    | (refused) "sv_relock ?sv (ca_name f) = Locked" "\<not> dry \<and> \<not> remove_ok (sv_remove ?sv (ca_name f))"
    | (plain) "sv_relock ?sv (ca_name f) = Locked" "dry \<or> remove_ok (sv_remove ?sv (ca_name f))" "snd (live_at (ev_sweep ev) f) = None"
    | (hooked) h where "sv_relock ?sv (ca_name f) = Locked" "dry \<or> remove_ok (sv_remove ?sv (ca_name f))"
        "snd (live_at (ev_sweep ev) f) = Some h"
    by (cases "sv_relock ?sv (ca_name f)"; cases "snd (live_at (ev_sweep ev) f)") blast+
  then show ?thesis
  proof cases
    case busy
    then show ?thesis
      by (intro that [of "ev\<lparr>ev_busy := ca_store f # ev_busy ev,
          ev_sweep := on_report (\<lambda>r. r\<lparr>pr_busy_stores := pr_busy_stores r + 1\<rparr>) (ev_sweep ev)\<rparr>"])
        (simp_all add: evict_one_def evict_effect_def Let_def)
  next
    case failed
    then show ?thesis
      by (intro that [of "ev\<lparr>ev_busy := ca_store f # ev_busy ev, ev_sweep := on_report (skipping 1) (ev_sweep ev)\<rparr>"])
        (simp_all add: evict_one_def evict_effect_def Let_def skipping_def)
  next
    case refused
    then show ?thesis
      by (intro that [of "ev\<lparr>ev_sweep := on_report (skipping 1) (ev_sweep ev)\<rparr>"])
        (simp_all add: evict_one_def evict_effect_def Let_def skipping_def)
  next
    case plain
    have "evict_one ctx dry f ev = Inr (ev\<lparr>ev_evicted := ev_evicted ev @ [f], ev_sweep := evict_remove dry f (ev_sweep ev)\<rparr>)"
      using plain by (auto simp: evict_one_def Let_def)
    with plain show ?thesis
      by (intro that) (auto simp: evict_remove_def evicting_def frees_def evict_effect_def Let_def)
  next
    case hooked
    obtain su fl where h: "h (ca_name f) dry = (su, fl)" by (cases "h (ca_name f) dry")
    let ?sw = "evict_sub su (evict_remove dry f (ev_sweep ev))"
    let ?sw' = "if fl then ?sw\<lparr>sw_polls := Suc (sw_polls ?sw)\<rparr> else ?sw"
    have "evict_one ctx dry f ev = Inr (ev\<lparr>ev_evicted := ev_evicted ev @ [f], ev_sweep := ?sw'\<rparr>)"
      using hooked by (auto simp: evict_one_def Let_def h ctx)
    moreover have "pr_remaining (sw_report ?sw') = pr_remaining (sw_report (ev_sweep ev)) - frees dry (ev_sweep ev) f"
      using hooked by (simp add: evict_sub_def evict_remove_def evicting_def skipping_def frees_def h)
    ultimately show ?thesis using hooked by (intro that) (auto simp: evict_effect_def Let_def)
  qed
qed

lemma evict_runs:
  assumes ctx: "\<And>n. ctx n = None"
  shows "\<exists>ev' out. evict ctx dry bound fs ev = Inr ev' \<and> ev_evicted ev' = ev_evicted ev @ out
    \<and> sheds (frees dry (ev_sweep ev)) bound (pr_remaining (sw_report (ev_sweep ev))) (evictable dry (ev_sweep ev) (ev_busy ev) fs) out
    \<and> pr_remaining (sw_report (ev_sweep ev'))
        = pr_remaining (sw_report (ev_sweep ev)) - sum_list (map (frees dry (ev_sweep ev)) out)"
proof (induction fs arbitrary: ev)
  case Nil
  then show ?case by (auto simp: sheds_Nil_iff)
next
  case (Cons f fs)
  let ?ev1 = "ev\<lparr>ev_sweep := (ev_sweep ev)\<lparr>sw_polls := Suc (sw_polls (ev_sweep ev))\<rparr>\<rparr>"
  let ?rem = "pr_remaining (sw_report (ev_sweep ev))"
  have same: "evictable dry (ev_sweep ?ev1) = evictable dry (ev_sweep ev)" "frees dry (ev_sweep ?ev1) = frees dry (ev_sweep ev)"
    "live_at (ev_sweep ?ev1) = live_at (ev_sweep ev)"
    by (intro ext evictable_cong frees_cong live_at_cong; simp)+
  consider (done_) "?rem \<le> bound" | (busy) "bound < ?rem" "ca_store f \<in> set (ev_busy ev)"
    | (attempt) "bound < ?rem" "ca_store f \<notin> set (ev_busy ev)" by linarith
  then show ?case
  proof cases
    case done_
    then have "evict ctx dry bound (f # fs) ev = Inr ?ev1" by (simp add: ctx Let_def)
    with sheds_stop [OF done_] show ?thesis by (intro exI [of _ ?ev1] exI [of _ "[]"]) simp
  next
    case busy
    then have "evict ctx dry bound (f # fs) ev = evict ctx dry bound fs ?ev1" by (simp add: ctx Let_def)
    moreover have "evictable dry (ev_sweep ev) (ev_busy ev) (f # fs) = evictable dry (ev_sweep ev) (ev_busy ev) fs"
      using busy by (simp add: Let_def)
    moreover have "ev_busy ?ev1 = ev_busy ev" "ev_evicted ?ev1 = ev_evicted ev" "pr_remaining (sw_report (ev_sweep ?ev1)) = ?rem"
      by simp_all
    ultimately show ?thesis using Cons.IH [of ?ev1, unfolded same] by presburger
  next
    case attempt
    obtain ev2 where one: "evict_one ctx dry f ?ev1 = Inr ev2" and "evict_effect dry f ?ev1 ev2"
      using ctx by (rule evict_one_runs [where ctx = ctx and dry = dry and f = f and ev = ?ev1])
    note eff = this(2) [unfolded evict_effect_polls, unfolded evict_effect_def Let_def]
    have run: "evict ctx dry bound (f # fs) ev = evict ctx dry bound fs ev2" using attempt one by (simp add: ctx Let_def)
    have live: "sw_live (ev_sweep ev2) = sw_live (ev_sweep ev)" using evict_one_live [OF one] by simp
    have same2: "evictable dry (ev_sweep ev2) = evictable dry (ev_sweep ev)" "frees dry (ev_sweep ev2) = frees dry (ev_sweep ev)"
      by (intro ext evictable_cong frees_cong live)+
    from Cons.IH [of ev2, unfolded same2] obtain ev' out where IH: "evict ctx dry bound fs ev2 = Inr ev'"
      "ev_evicted ev' = ev_evicted ev2 @ out"
      "sheds (frees dry (ev_sweep ev)) bound (pr_remaining (sw_report (ev_sweep ev2))) (evictable dry (ev_sweep ev) (ev_busy ev2) fs) out"
      "pr_remaining (sw_report (ev_sweep ev')) = pr_remaining (sw_report (ev_sweep ev2)) - sum_list (map (frees dry (ev_sweep ev)) out)"
      by blast
    show ?thesis
    proof (cases "sv_relock (fst (live_at (ev_sweep ev) f)) (ca_name f) \<noteq> Locked
        \<or> (\<not> dry \<and> \<not> remove_ok (sv_remove (fst (live_at (ev_sweep ev) f)) (ca_name f)))")
      case True
      with eff IH attempt run show ?thesis
        by (intro exI [of _ ev'] exI [of _ out]) (auto simp: Let_def split: if_splits)
    next
      case False
      with eff IH(3) sheds_Cons [OF attempt(1)] have
        "sheds (frees dry (ev_sweep ev)) bound ?rem (f # evictable dry (ev_sweep ev) (ev_busy ev) fs) (f # out)" by auto
      with False eff IH attempt run show ?thesis
        by (intro exI [of _ ev'] exI [of _ "f # out"]) (auto simp: Let_def)
    qed
  qed
qed

section \<open>The uncancelled pass\<close>

definition uncancelled :: ctx where
  "uncancelled = (\<lambda>n. None)"

lemma poll_uncancelled [simp]: "poll uncancelled sw = Inr (sw\<lparr>sw_polls := Suc (sw_polls sw)\<rparr>)"
  by (simp add: poll_def uncancelled_def Let_def)

lemma and_then_Inr [simp]: "and_then (Inr sw) f = f sw"
  by (simp add: and_then_def)

definition live_store :: "string list \<Rightarrow> store_view \<Rightarrow> bool" where
  "live_store active sv \<longleftrightarrow> sv_lock sv = Locked \<and> \<not> abandoned active sv"

definition entry_candidates :: "store_view \<Rightarrow> nat \<Rightarrow> dir_entry \<Rightarrow> candidate list" where
  "entry_candidates sv i e =
     (case record_file e of
        Some (n, Info sz time) \<Rightarrow> [\<lparr>ca_store = i, ca_name = n, ca_path = file_path sv n, ca_size = sz, ca_time = time\<rparr>]
      | _ \<Rightarrow> [])"

definition store_candidates :: "nat \<times> store_view \<Rightarrow> candidate list" where
  "store_candidates isv = concat (map (entry_candidates (snd isv) (fst isv)) (listing_entries (sv_listing (snd isv))))"

text \<open>Every record file of a live store, once.\<close>

definition live_candidates :: "string list \<Rightarrow> store_view list \<Rightarrow> candidate list" where
  "live_candidates active svs = concat (map store_candidates (enumerate 0 (filter (live_store active) svs)))"

lemma candidates_fold:
  "sw_candidates (fold (candidate_of sv i) es sw) = sw_candidates sw @ concat (map (entry_candidates sv i) es)"
  "sw_live (fold (candidate_of sv i) es sw) = sw_live sw"
proof -
  have one: "sw_candidates (candidate_of sv i e sw) = sw_candidates sw @ entry_candidates sv i e"
    "sw_live (candidate_of sv i e sw) = sw_live sw" for e sw
    by (simp_all add: candidate_of_def entry_candidates_def split: option.split prod.split file_info.split)
  show "sw_candidates (fold (candidate_of sv i) es sw) = sw_candidates sw @ concat (map (entry_candidates sv i) es)"
    by (induction es arbitrary: sw) (simp_all add: one)
  show "sw_live (fold (candidate_of sv i) es sw) = sw_live sw"
    by (rule fold_field_frame) (rule one)
qed

lemma reclaim_runs:
  "\<exists>sw'. each (reclaim_entry uncancelled dry sv) es sw = Inr sw' \<and> sw_live sw' = sw_live sw \<and> sw_candidates sw' = sw_candidates sw"
proof (induction es arbitrary: sw)
  case (Cons e es)
  have "\<exists>sw1. reclaim_entry uncancelled dry sv e sw = Inr sw1 \<and> sw_live sw1 = sw_live sw \<and> sw_candidates sw1 = sw_candidates sw"
    by (auto simp: reclaim_entry_def Let_def split: option.split prod.split file_info.split)
  then obtain sw1 where sw1: "reclaim_entry uncancelled dry sv e sw = Inr sw1"
    "sw_live sw1 = sw_live sw" "sw_candidates sw1 = sw_candidates sw" by blast
  from Cons.IH [of sw1] show ?case by (auto simp: sw1)
qed simp

lemma store_runs:
  "\<exists>sw'. sweep_store uncancelled opts sv sw = Inr sw'
    \<and> map fst (sw_live sw') = map fst (sw_live sw) @ (if live_store (po_active_roots opts) sv then [sv] else [])
    \<and> sw_candidates sw' = sw_candidates sw
        @ (if live_store (po_active_roots opts) sv then store_candidates (length (sw_live sw), sv) else [])"
proof -
  let ?sw = "sw\<lparr>sw_polls := Suc (sw_polls sw)\<rparr>" and ?dry = "po_dry_run opts"
  consider (busy) "sv_lock sv = Contended" | (failed) "sv_lock sv = Lock_Failed"
    | (gone) "sv_lock sv = Locked" "abandoned (po_active_roots opts) sv"
    | (live) "sv_lock sv = Locked" "\<not> abandoned (po_active_roots opts) sv" by (cases "sv_lock sv") blast+
  then show ?thesis
  proof cases
    case gone
    let ?sw1 = "on_report (\<lambda>r. skipping (listing_skip (sv_listing sv)) (r\<lparr>pr_abandoned_stores := pr_abandoned_stores r + 1\<rparr>)) ?sw"
    from reclaim_runs [of ?dry sv "listing_entries (sv_listing sv)" ?sw1] obtain sw2 where
      "each (reclaim_entry uncancelled ?dry sv) (listing_entries (sv_listing sv)) ?sw1 = Inr sw2"
      "sw_live sw2 = sw_live sw" "sw_candidates sw2 = sw_candidates sw" by auto
    with gone show ?thesis
      by (auto simp: sweep_store_def sweep_abandoned_def Let_def live_store_def split: option.split)
  next
    case live
    then show ?thesis
      by (auto simp: sweep_store_def sweep_live_def Let_def live_store_def store_candidates_def candidates_fold
          split: option.split prod.split)
  qed (auto simp: sweep_store_def live_store_def split: prod.split)
qed

lemma sweep_runs:
  "\<exists>sw. each (sweep_store uncancelled opts) svs (start_sweep path n) = Inr sw
    \<and> sw_candidates sw = live_candidates (po_active_roots opts) svs"
proof -
  let ?live = "filter (live_store (po_active_roots opts))"
  have "\<exists>sw'. each (sweep_store uncancelled opts) svs sw = Inr sw'
      \<and> sw_candidates sw' = sw_candidates sw @ concat (map store_candidates (enumerate (length (sw_live sw)) (?live svs)))" for sw
  proof (induction svs arbitrary: sw)
    case (Cons sv svs)
    from store_runs [of opts sv sw] obtain sw1 where
      run: "sweep_store uncancelled opts sv sw = Inr sw1" and
      live: "map fst (sw_live sw1) = map fst (sw_live sw) @ (if live_store (po_active_roots opts) sv then [sv] else [])" and
      cands: "sw_candidates sw1 = sw_candidates sw
        @ (if live_store (po_active_roots opts) sv then store_candidates (length (sw_live sw), sv) else [])" by blast
    from arg_cong [OF live, of length]
    have len: "length (sw_live sw1) = length (sw_live sw) + (if live_store (po_active_roots opts) sv then 1 else 0)" by simp
    from Cons.IH [of sw1] show ?case by (auto simp: run cands len)
  qed simp
  from this [of "start_sweep path n"] show ?thesis by (simp add: start_sweep_def live_candidates_def)
qed

text \<open>The byte bound. A pass nothing cancels succeeds. Under a bound it evicts, from the record
  files of the live stores ordered by age, the shortest run of the evictable ones that
  brings the retained bytes down to the bound, and all of them if none does: a file is
  evicted only while the bytes are above the bound, never before an older one it could
  evict, and the report counts what each eviction freed.\<close>

theorem retention_evicts_oldest:
  "case each (sweep_store uncancelled opts) svs (start_sweep path 1) of
     Inl _ \<Rightarrow> False
   | Inr sw \<Rightarrow>
       let p = prune_kind uncancelled (Inr path) (Inr svs) opts; dry = po_dry_run opts;
           kept = pr_used (sw_report sw) - pr_reclaimed (sw_report sw);
           es = evictable dry sw [] (eviction_order (live_candidates (po_active_roots opts) svs)) in
       ps_error p = None
       \<and> (if po_max_bytes opts < 0 then ps_evicted p = [] else sheds (frees dry sw) (po_max_bytes opts) kept es (ps_evicted p))
       \<and> pr_remaining (ps_report p) = kept - sum_list (map (frees dry sw) (ps_evicted p))"
proof -
  let ?dry = "po_dry_run opts" and ?bound = "po_max_bytes opts"
  from sweep_runs [of opts svs path 1] obtain sw where
    sw: "each (sweep_store uncancelled opts) svs (start_sweep path 1) = Inr sw"
    and cands: "sw_candidates sw = live_candidates (po_active_roots opts) svs" by blast
  let ?kept = "pr_used (sw_report sw) - pr_reclaimed (sw_report sw)"
  let ?es = "evictable ?dry sw [] (eviction_order (live_candidates (po_active_roots opts) svs))"
  have never: "\<And>n. uncancelled n = None" by (simp add: uncancelled_def)
  have run: "prune_kind uncancelled (Inr path) (Inr svs) opts = evict_phase uncancelled opts sw"
    using sw by (simp add: prune_kind_def never)
  let ?ev = "\<lparr>ev_sweep = on_report settle sw, ev_busy = [], ev_evicted = []\<rparr>"
  have same: "evictable ?dry (ev_sweep ?ev) [] = evictable ?dry sw []" "frees ?dry (ev_sweep ?ev) = frees ?dry sw"
    by (intro ext evictable_cong frees_cong; simp)+
  have kept: "pr_remaining (sw_report (ev_sweep ?ev)) = ?kept" by (simp add: settle_def)
  show ?thesis
  proof (cases "?bound < 0 \<or> ?kept \<le> ?bound")
    case True
    then have "evict_phase uncancelled opts sw = pass_of (on_report settle sw) None []"
      by (simp add: evict_phase_def settle_def Let_def never)
    with True show ?thesis using sheds_stop [of ?kept ?bound "frees ?dry sw" ?es]
      unfolding sw sum.case Let_def run by (auto simp: pass_of_def settle_def)
  next
    case False
    from evict_runs [of uncancelled ?dry ?bound "eviction_order (sw_candidates sw)" ?ev, OF never, unfolded kept same]
    obtain ev' out where ev': "evict uncancelled ?dry ?bound (eviction_order (sw_candidates sw)) ?ev = Inr ev'"
      "ev_evicted ev' = out" "sheds (frees ?dry sw) ?bound ?kept (evictable ?dry sw (ev_busy ?ev) (eviction_order (sw_candidates sw))) out"
      "pr_remaining (sw_report (ev_sweep ev')) = ?kept - sum_list (map (frees ?dry sw) out)"
      using same by auto
    have "evict_phase uncancelled opts sw = pass_of (ev_sweep ev') None out"
      using False ev'(1,2) by (simp add: evict_phase_def settle_def Let_def never on_report_def)
    with False ev'(3,4) show ?thesis unfolding sw sum.case Let_def run by (simp add: cands pass_of_def)
  qed
qed

section \<open>The preview\<close>

text \<open>A store that refuses no removal, and whose substore previews what it then does.\<close>

definition hooks_agree :: "evict_hook option \<Rightarrow> evict_hook option \<Rightarrow> bool" where
  "hooks_agree = rel_option (\<lambda>h h'. \<forall>n. h n True = h' n False)"

definition agreeable :: "store_view \<Rightarrow> bool" where
  "agreeable sv \<longleftrightarrow>
     (\<forall>n. remove_ok (sv_remove sv n))
     \<and> (case sv_substore sv of None \<Rightarrow> True
        | Some sub \<Rightarrow> \<forall>gone. fst (sub gone True) = fst (sub gone False) \<and> hooks_agree (snd (sub gone True)) (snd (sub gone False)))"

text \<open>Two sweeps that differ only in what they removed and in their hooks' mode.\<close>

definition live_agree :: "store_view \<times> evict_hook option \<Rightarrow> store_view \<times> evict_hook option \<Rightarrow> bool" where
  "live_agree l l' \<longleftrightarrow> fst l = fst l' \<and> agreeable (fst l) \<and> hooks_agree (snd l) (snd l')"

definition alike :: "sweep \<Rightarrow> sweep \<Rightarrow> bool" where
  "alike sw sw' \<longleftrightarrow>
     sw_report sw = sw_report sw' \<and> sw_polls sw = sw_polls sw' \<and> sw_candidates sw = sw_candidates sw'
     \<and> list_all2 live_agree (sw_live sw) (sw_live sw')"

definition steps_alike :: "stopped + sweep \<Rightarrow> stopped + sweep \<Rightarrow> bool" where
  "steps_alike = rel_sum (rel_prod alike (=)) alike"

lemma steps_alike_simps [simp]:
  "steps_alike (Inr sw) (Inr sw') = alike sw sw'" "steps_alike (Inl s) (Inl s') = rel_prod alike (=) s s'"
  "\<not> steps_alike (Inl s) (Inr sw')" "\<not> steps_alike (Inr sw) (Inl s')"
  by (simp_all add: steps_alike_def)

lemma alike_report [intro]: "alike sw sw' \<Longrightarrow> alike (on_report f sw) (on_report f sw')"
  by (simp add: alike_def)

lemma alike_removed [intro]: "alike sw sw' \<Longrightarrow> alike sw (sw'\<lparr>sw_removed := rs\<rparr>)"
  by (simp add: alike_def)

lemma alike_polls [intro]: "alike sw sw' \<Longrightarrow> alike (sw\<lparr>sw_polls := n\<rparr>) (sw'\<lparr>sw_polls := n\<rparr>)"
  by (simp add: alike_def)

lemma poll_alike: "alike sw sw' \<Longrightarrow> steps_alike (poll ctx sw) (poll ctx sw')"
  by (auto simp: poll_def Let_def alike_def split: option.split)

lemma and_then_alike:
  "steps_alike m m' \<Longrightarrow> (\<And>sw sw'. alike sw sw' \<Longrightarrow> steps_alike (f sw) (f' sw')) \<Longrightarrow> steps_alike (and_then m f) (and_then m' f')"
  by (cases m; cases m') (auto simp: and_then_def)

lemma each_alike:
  "(\<And>x sw sw'. x \<in> set xs \<Longrightarrow> alike sw sw' \<Longrightarrow> steps_alike (f x sw) (f' x sw')) \<Longrightarrow> alike sw sw'
     \<Longrightarrow> steps_alike (each f xs sw) (each f' xs sw')"
  by (induction xs arbitrary: sw sw') (auto intro!: and_then_alike)

lemma reclaim_alike:
  assumes "agreeable sv" and "alike sw sw'"
  shows "steps_alike (reclaim_entry ctx True sv e sw) (reclaim_entry ctx False sv e sw')"
  unfolding reclaim_entry_def
proof (rule and_then_alike [OF poll_alike [OF assms(2)]])
  fix sw sw' assume "alike sw sw'"
  moreover have "remove_ok (sv_remove sv n)" for n using assms(1) by (simp add: agreeable_def)
  ultimately show "steps_alike
      (case record_file e of None \<Rightarrow> Inr sw
       | Some (n, Info_Fault f) \<Rightarrow> Inr (on_report (skipping (if f = Not_Exist then 0 else 1)) sw)
       | Some (n, Info sz x) \<Rightarrow> let sw1 = on_report (using_bytes sz) sw in
           if True then Inr (on_report (reclaiming sz 1) sw1)
           else if remove_ok (sv_remove sv n)
                then Inr (on_report (reclaiming sz 1) (sw1\<lparr>sw_removed := sw_removed sw1 @ [file_path sv n]\<rparr>))
                else Inr (on_report (skipping 1) sw1))
      (case record_file e of None \<Rightarrow> Inr sw'
       | Some (n, Info_Fault f) \<Rightarrow> Inr (on_report (skipping (if f = Not_Exist then 0 else 1)) sw')
       | Some (n, Info sz x) \<Rightarrow> let sw1 = on_report (using_bytes sz) sw' in
           if False then Inr (on_report (reclaiming sz 1) sw1)
           else if remove_ok (sv_remove sv n)
                then Inr (on_report (reclaiming sz 1) (sw1\<lparr>sw_removed := sw_removed sw1 @ [file_path sv n]\<rparr>))
                else Inr (on_report (skipping 1) sw1))"
    by (auto simp: Let_def split: option.split prod.split file_info.split)
qed

lemma candidate_alike: "alike sw sw' \<Longrightarrow> alike (candidate_of sv i e sw) (candidate_of sv i e sw')"
  by (auto simp: candidate_of_def alike_def split: option.split prod.split file_info.split)

lemma candidates_alike: "alike sw sw' \<Longrightarrow> alike (fold (candidate_of sv i) es sw) (fold (candidate_of sv i) es sw')"
  by (induction es arbitrary: sw sw') (auto dest: candidate_alike)

lemma sweep_live_alike:
  assumes "agreeable sv" and "alike sw sw'"
  shows "steps_alike (sweep_live ctx True sv sw) (sweep_live ctx False sv sw')"
proof -
  have len: "length (sw_live sw) = length (sw_live sw')" using assms(2) by (auto simp: alike_def dest: list_all2_lengthD)
  have start: "alike (sw\<lparr>sw_live := sw_live sw @ [(sv, h)]\<rparr>) (sw'\<lparr>sw_live := sw_live sw' @ [(sv, h')]\<rparr>)"
    if "hooks_agree h h'" for h h'
    using assms that by (auto simp: alike_def live_agree_def intro: list_all2_appendI)
  show ?thesis
  proof (cases "sv_substore sv")
    case None
    have "hooks_agree None None" by (simp add: hooks_agree_def)
    from start [OF this] show ?thesis unfolding sweep_live_def Let_def None len
      by (intro poll_alike) (auto intro!: candidates_alike)
  next
    case (Some sub)
    obtain su h su' h' where sub: "sub False True = (su, h)" "sub False False = (su', h')"
      by (cases "sub False True"; cases "sub False False")
    from assms(1) Some have "fst (sub False True) = fst (sub False False) \<and> hooks_agree (snd (sub False True)) (snd (sub False False))"
      unfolding agreeable_def by simp
    with sub have agree: "su = su'" "hooks_agree h h'" by simp_all
    show ?thesis unfolding sweep_live_def Let_def Some len option.map sub agree(1) option.case prod.case
      by (intro poll_alike alike_report candidates_alike start agree(2))
  qed
qed

lemma sweep_store_alike:
  assumes agree: "agreeable sv" and "alike sw sw'"
  shows "steps_alike (sweep_store ctx (opts\<lparr>po_dry_run := True\<rparr>) sv sw) (sweep_store ctx (opts\<lparr>po_dry_run := False\<rparr>) sv sw')"
  unfolding sweep_store_def
proof (rule and_then_alike [OF poll_alike [OF assms(2)]], goal_cases)
  case (1 sw sw')
  have gone: "steps_alike (sweep_abandoned ctx True sv sw) (sweep_abandoned ctx False sv sw')"
  proof -
    have sub: "alike (case sv_substore sv of None \<Rightarrow> sw | Some sub \<Rightarrow> on_report (add_sub (fst (sub True True))) sw)
        (case sv_substore sv of None \<Rightarrow> sw' | Some sub \<Rightarrow> on_report (add_sub (fst (sub True False))) sw')"
      if "alike sw sw'" for sw sw'
      using that agree by (auto simp: agreeable_def split: option.split)
    show ?thesis unfolding sweep_abandoned_def Let_def
      by (intro and_then_alike each_alike reclaim_alike [OF agree] poll_alike sub alike_report 1) auto
  qed
  with 1 sweep_live_alike [OF agree 1, of ctx] show ?case
    by (auto split: lock_answer.split prod.split)
qed

definition ev_alike :: "eviction \<Rightarrow> eviction \<Rightarrow> bool" where
  "ev_alike ev ev' \<longleftrightarrow> alike (ev_sweep ev) (ev_sweep ev') \<and> ev_busy ev = ev_busy ev' \<and> ev_evicted ev = ev_evicted ev'"

definition evs_alike :: "(eviction \<times> string) + eviction \<Rightarrow> (eviction \<times> string) + eviction \<Rightarrow> bool" where
  "evs_alike = rel_sum (rel_prod ev_alike (=)) ev_alike"

lemma evict_one_alike:
  assumes al: "ev_alike ev ev'" and idx: "ca_store f < length (sw_live (ev_sweep ev))"
  shows "evs_alike (evict_one ctx True f ev) (evict_one ctx False f ev')"
proof -
  let ?sw = "ev_sweep ev" and ?sw' = "ev_sweep ev'"
  from al idx have "live_agree (live_at ?sw f) (live_at ?sw' f)"
    by (auto simp: ev_alike_def alike_def live_at_def list_all2_conv_all_nth)
  then have sv: "fst (live_at ?sw f) = fst (live_at ?sw' f)" and ok: "\<And>n. remove_ok (sv_remove (fst (live_at ?sw' f)) n)"
    and hk: "hooks_agree (snd (live_at ?sw f)) (snd (live_at ?sw' f))"
    by (auto simp: live_agree_def agreeable_def)
  have rm: "alike (evict_remove True f ?sw) (evict_remove False f ?sw')"
    using al by (auto simp: evict_remove_def ev_alike_def)
  show ?thesis
  proof (cases "sv_relock (fst (live_at ?sw' f)) (ca_name f)")
    case Locked
    show ?thesis
    proof (cases "snd (live_at ?sw f)")
      case None
      with hk have "snd (live_at ?sw' f) = None" by (simp add: hooks_agree_def)
      with None Locked ok sv rm al show ?thesis by (simp add: evict_one_def Let_def evs_alike_def ev_alike_def)
    next
      case (Some h)
      with hk obtain h' where h': "snd (live_at ?sw' f) = Some h'" "\<And>n. h n True = h' n False"
        by (auto simp: hooks_agree_def option_rel_Some1)
      obtain su fl where su: "h' (ca_name f) False = (su, fl)" by (cases "h' (ca_name f) False")
      from rm have rm2: "alike (evict_sub su (evict_remove True f ?sw)) (evict_sub su (evict_remove False f ?sw'))"
        by (auto simp: evict_sub_def)
      then have "sw_polls (evict_sub su (evict_remove True f ?sw)) = sw_polls (evict_sub su (evict_remove False f ?sw'))"
        by (simp add: alike_def)
      with Some h' Locked ok sv rm2 al su show ?thesis
        by (auto simp: evict_one_def Let_def evs_alike_def ev_alike_def split: option.split)
    qed
  qed (use sv al in \<open>auto simp: evict_one_def Let_def evs_alike_def ev_alike_def\<close>)
qed

lemma evict_alike:
  assumes "ev_alike ev ev'" and "\<forall>f \<in> set fs. ca_store f < length (sw_live (ev_sweep ev))"
  shows "evs_alike (evict ctx True bound fs ev) (evict ctx False bound fs ev')"
  using assms
proof (induction fs arbitrary: ev ev')
  case Nil
  then show ?case by (simp add: evs_alike_def)
next
  case (Cons f fs)
  let ?tick = "\<lambda>ev. ev\<lparr>ev_sweep := (ev_sweep ev)\<lparr>sw_polls := Suc (sw_polls (ev_sweep ev))\<rparr>\<rparr>"
  from Cons.prems(1) have polls: "sw_polls (ev_sweep ev) = sw_polls (ev_sweep ev')" and busy: "ev_busy ev = ev_busy ev'"
    and rep: "sw_report (ev_sweep ev) = sw_report (ev_sweep ev')" and tick: "ev_alike (?tick ev) (?tick ev')"
    by (auto simp: ev_alike_def alike_def)
  from evict_one_alike [OF tick, of f ctx] Cons.prems(2)
  have one: "evs_alike (evict_one ctx True f (?tick ev)) (evict_one ctx False f (?tick ev'))" by simp
  have rest: "evs_alike (evict ctx True bound fs (?tick ev)) (evict ctx False bound fs (?tick ev'))"
    using Cons.prems(2) by (intro Cons.IH tick) simp
  have next_: "evs_alike (evict ctx True bound fs e2) (evict ctx False bound fs e2')"
    if "evict_one ctx True f (?tick ev) = Inr e2" "evict_one ctx False f (?tick ev') = Inr e2'" for e2 e2'
  proof (rule Cons.IH)
    from one that show "ev_alike e2 e2'" by (simp add: evs_alike_def)
    from evict_one_live [OF that(1)] Cons.prems(2) show "\<forall>f \<in> set fs. ca_store f < length (sw_live (ev_sweep e2))" by simp
  qed
  show ?case
  proof (cases "ctx (sw_polls (ev_sweep ev'))")
    case (Some e)
    with tick show ?thesis by (simp add: Let_def polls evs_alike_def)
  next
    case None
    show ?thesis
    proof (cases "pr_remaining (sw_report (ev_sweep ev')) \<le> bound \<or> ca_store f \<in> set (ev_busy ev')")
      case True
      with None tick rest show ?thesis by (auto simp: Let_def polls rep busy evs_alike_def)
    next
      case False
      have l: "evict ctx True bound (f # fs) ev = (case evict_one ctx True f (?tick ev) of Inl s \<Rightarrow> Inl s | Inr e2 \<Rightarrow> evict ctx True bound fs e2)"
        using None False by (simp add: Let_def polls rep busy)
      have r: "evict ctx False bound (f # fs) ev' = (case evict_one ctx False f (?tick ev') of Inl s \<Rightarrow> Inl s | Inr e2 \<Rightarrow> evict ctx False bound fs e2)"
        using None False by (simp add: Let_def)
      show ?thesis unfolding l r using one next_
        by (cases "evict_one ctx True f (?tick ev)"; cases "evict_one ctx False f (?tick ev')") (auto simp: evs_alike_def)
    qed
  qed
qed

text \<open>Every candidate belongs to a live store of the sweep.\<close>

definition indexed :: "sweep \<Rightarrow> bool" where
  "indexed sw \<longleftrightarrow> (\<forall>f \<in> set (sw_candidates sw). ca_store f < length (sw_live sw))"

definition steps_indexed :: "stopped + sweep \<Rightarrow> bool" where
  "steps_indexed m \<longleftrightarrow> (case m of Inl _ \<Rightarrow> True | Inr sw \<Rightarrow> indexed sw)"

lemma steps_indexed_Inr [simp]: "steps_indexed (Inr sw) = indexed sw"
  by (simp add: steps_indexed_def)

lemma indexed_frame [simp]:
  "indexed (on_report f sw) = indexed sw" "indexed (sw\<lparr>sw_polls := n\<rparr>) = indexed sw" "indexed (sw\<lparr>sw_removed := rs\<rparr>) = indexed sw"
  by (simp_all add: indexed_def)

lemma poll_indexed: "indexed sw \<Longrightarrow> steps_indexed (poll ctx sw)"
  by (simp add: poll_def Let_def steps_indexed_def split: option.split)

lemma and_then_indexed:
  "steps_indexed m \<Longrightarrow> (\<And>sw. indexed sw \<Longrightarrow> steps_indexed (f sw)) \<Longrightarrow> steps_indexed (and_then m f)"
  by (cases m) (simp_all add: and_then_def steps_indexed_def)

lemma each_indexed:
  "(\<And>x sw. indexed sw \<Longrightarrow> steps_indexed (f x sw)) \<Longrightarrow> indexed sw \<Longrightarrow> steps_indexed (each f xs sw)"
  by (induction xs arbitrary: sw) (auto intro: and_then_indexed)

lemma reclaim_indexed: "indexed sw \<Longrightarrow> steps_indexed (reclaim_entry ctx dry sv e sw)"
  unfolding reclaim_entry_def
  by (rule and_then_indexed [OF poll_indexed]) (auto simp: Let_def split: option.split prod.split file_info.split)

lemma store_indexed: "indexed sw \<Longrightarrow> steps_indexed (sweep_store ctx opts sv sw)"
  unfolding sweep_store_def
proof (rule and_then_indexed [OF poll_indexed], assumption)
  fix sw :: sweep
  assume sw: "indexed sw"
  let ?i = "length (sw_live sw)"
  have "ca_store f = ?i" if "f \<in> set (entry_candidates sv ?i e)" for f e
    using that by (auto simp: entry_candidates_def split: option.splits file_info.splits)
  then have cand: "indexed (fold (candidate_of sv ?i) es (on_report g (sw\<lparr>sw_live := sw_live sw @ [l]\<rparr>)))" for es g l
    using sw by (fastforce simp: indexed_def candidates_fold)
  have live: "steps_indexed (sweep_live ctx dry sv sw)" for dry
    unfolding sweep_live_def Let_def by (rule poll_indexed) (simp add: cand split: option.split prod.split)
  have gone: "steps_indexed (sweep_abandoned ctx dry sv sw)" for dry
    unfolding sweep_abandoned_def Let_def
    by (intro and_then_indexed each_indexed reclaim_indexed poll_indexed) (use sw in \<open>simp_all split: option.split\<close>)
  show "steps_indexed (case sv_lock sv of
      Locked \<Rightarrow> if abandoned (po_active_roots opts) sv then sweep_abandoned ctx (po_dry_run opts) sv sw
                else sweep_live ctx (po_dry_run opts) sv sw
    | Contended \<Rightarrow> let (used, skipped) = measure_dir (sv_listing sv) in
        Inr (on_report (\<lambda>r. skipping skipped (using_bytes used (r\<lparr>pr_busy_stores := pr_busy_stores r + 1\<rparr>))) sw)
    | Lock_Failed \<Rightarrow> Inr (on_report (skipping 1) sw))"
    using sw live gone by (simp split: lock_answer.split prod.split)
qed

text \<open>The preview is the pass. Over stores that refuse no removal and whose substores preview
  what they then do, a dry run reports exactly what the reclamation with the same options
  reports, cancelled or not: every count, the same error, and the same files to evict.\<close>

theorem retention_preview_faithful:
  assumes "list_all agreeable svs"
  shows "ps_report (prune_kind ctx root (Inr svs) (opts\<lparr>po_dry_run := True\<rparr>)) = ps_report (prune_kind ctx root (Inr svs) (opts\<lparr>po_dry_run := False\<rparr>))
    \<and> ps_error (prune_kind ctx root (Inr svs) (opts\<lparr>po_dry_run := True\<rparr>)) = ps_error (prune_kind ctx root (Inr svs) (opts\<lparr>po_dry_run := False\<rparr>))
    \<and> ps_evicted (prune_kind ctx root (Inr svs) (opts\<lparr>po_dry_run := True\<rparr>)) = ps_evicted (prune_kind ctx root (Inr svs) (opts\<lparr>po_dry_run := False\<rparr>))"
proof -
  let ?D = "opts\<lparr>po_dry_run := True\<rparr>" and ?R = "opts\<lparr>po_dry_run := False\<rparr>"
  let ?same = "\<lambda>p p'. ps_report p = ps_report p' \<and> ps_error p = ps_error p' \<and> ps_evicted p = ps_evicted p'"
  have phase: "?same (evict_phase ctx ?D sw) (evict_phase ctx ?R sw')" if al: "alike sw sw'" and ix: "indexed sw" for sw sw'
  proof -
    let ?ev = "\<lambda>sw. \<lparr>ev_sweep = on_report settle sw, ev_busy = [], ev_evicted = []\<rparr>"
    let ?fs = "eviction_order (sw_candidates sw)"
    have ev: "ev_alike (?ev sw) (?ev sw')" using al by (auto simp: ev_alike_def)
    have "\<forall>f \<in> set ?fs. ca_store f < length (sw_live (ev_sweep (?ev sw)))"
      using ix by (simp add: indexed_def eviction_order_def)
    from evict_alike [OF ev this, of ctx "po_max_bytes opts"]
    have run: "evs_alike (evict ctx True (po_max_bytes opts) ?fs (?ev sw)) (evict ctx False (po_max_bytes opts) ?fs (?ev sw'))" .
    from al have eq: "sw_report sw = sw_report sw'" "sw_polls sw = sw_polls sw'" "sw_candidates sw = sw_candidates sw'"
      by (auto simp: alike_def)
    show ?thesis
    proof (cases "po_max_bytes opts < 0 \<or> pr_remaining (settle (sw_report sw')) \<le> po_max_bytes opts")
      case True
      then show ?thesis by (auto simp: evict_phase_def Let_def pass_of_def eq)
    next
      case False
      have fin: "?same (case m of Inl (ev, e) \<Rightarrow> pass_of (ev_sweep ev) (Some e) (ev_evicted ev)
            | Inr ev \<Rightarrow> pass_of (ev_sweep ev) (ctx (sw_polls (ev_sweep ev))) (ev_evicted ev))
          (case m' of Inl (ev, e) \<Rightarrow> pass_of (ev_sweep ev) (Some e) (ev_evicted ev)
            | Inr ev \<Rightarrow> pass_of (ev_sweep ev) (ctx (sw_polls (ev_sweep ev))) (ev_evicted ev))"
        if "evs_alike m m'" for m m'
        using that by (cases m; cases m') (auto simp: evs_alike_def ev_alike_def alike_def pass_of_def)
      from fin [OF run] False show ?thesis by (simp add: evict_phase_def Let_def eq)
    qed
  qed
  have sweep: "steps_alike (each (sweep_store ctx ?D) svs (start_sweep path 1)) (each (sweep_store ctx ?R) svs (start_sweep path 1))" for path
  proof (rule each_alike)
    show "alike (start_sweep path 1) (start_sweep path 1)" by (simp add: alike_def start_sweep_def)
  qed (use assms in \<open>simp add: sweep_store_alike list_all_iff\<close>)
  have ix: "steps_indexed (each (sweep_store ctx ?D) svs (start_sweep path 1))" for path
    by (rule each_indexed [OF store_indexed]) (simp_all add: indexed_def start_sweep_def)
  have "?same (prune_kind ctx (Inr path) (Inr svs) ?D) (prune_kind ctx (Inr path) (Inr svs) ?R)" if "ctx 0 = None" for path
  proof (cases "each (sweep_store ctx ?D) svs (start_sweep path 1)")
    case (Inl s)
    with sweep [of path] obtain s' where "each (sweep_store ctx ?R) svs (start_sweep path 1) = Inl s'" "rel_prod alike (=) s s'"
      by (cases "each (sweep_store ctx ?R) svs (start_sweep path 1)") auto
    with Inl that show ?thesis by (cases s; cases s') (auto simp: prune_kind_def pass_of_def alike_def)
  next
    case (Inr sw)
    with sweep [of path] obtain sw' where sw': "each (sweep_store ctx ?R) svs (start_sweep path 1) = Inr sw'" "alike sw sw'"
      by (cases "each (sweep_store ctx ?R) svs (start_sweep path 1)") auto
    from ix [of path] Inr have "indexed sw" by simp
    from phase [OF sw'(2) this] Inr sw'(1) that show ?thesis by (simp add: prune_kind_def)
  qed
  then show ?thesis by (cases "ctx 0"; cases root) (simp_all add: prune_kind_def)
qed

definition sample_store :: store_view where
  "sample_store = \<lparr>sv_path = ''/c/a'', sv_lock = Locked, sv_coord = ''/w'', sv_stat = No_Fault,
     sv_listing = Listing [Plain_File ''new.json'' (Info 30 9), Plain_File ''old.json'' (Info 20 4), Plain_File ''.tmp'' (Info 7 1)] No_Fault,
     sv_remove = (\<lambda>_. No_Fault), sv_substore = None, sv_relock = (\<lambda>_. Locked)\<rparr>"

definition sample_options :: "bool \<Rightarrow> prune_options" where
  "sample_options dry = \<lparr>po_max_bytes = 35, po_dry_run = dry, po_active_roots = []\<rparr>"

lemma sample_pass: "map ca_name (ps_evicted (prune_kind (\<lambda>_. None) (Inr ''/c'') (Inr [sample_store]) (sample_options False))) = [''old.json'']"
  by code_simp

lemma retention_preview_faithful_witness:
  "list_all agreeable [sample_store]
   \<and> ps_report (prune_kind (\<lambda>_. None) (Inr ''/c'') (Inr [sample_store]) ((sample_options True)\<lparr>po_dry_run := True\<rparr>))
     = ps_report (prune_kind (\<lambda>_. None) (Inr ''/c'') (Inr [sample_store]) ((sample_options True)\<lparr>po_dry_run := False\<rparr>))"
proof -
  have "list_all agreeable [sample_store]" by (simp add: agreeable_def sample_store_def remove_ok_def)
  with retention_preview_faithful [OF this, of "\<lambda>_. None" "Inr ''/c''" "sample_options True"] show ?thesis by blast
qed

end
