(* ===== verification/Gaps.thy ===== *)
theory Gaps
  imports Author Coverage Compile
begin

text \<open>
  The gap lifecycle of \<open>internal/author/gap.go\<close> (declaring, retracting, firing, pruning), the
  vocabulary of \<open>internal/author/vocabulary.go\<close>, the updates and their priors of
  \<open>internal/author/author.go\<close>, and the attestation verbs of
  \<open>internal/author/attest_requirement.go\<close>. The compiled corpus and the loaded store are the
  outcomes of their reads. Presence of the two booleans of a manual condition is not
  modelled: an absent one is false.
\<close>

section \<open>Updates\<close>

record update =
  up_path :: string
  up_content :: "string option"
  up_prior :: "string option"
  up_prior_absent :: bool
  up_document :: bool

definition raw_files :: "store \<Rightarrow> (string \<times> string) list" where
  "raw_files st =
     map (\<lambda>f. (bf_path f, bf_raw f)) (st_bindings st) @ map (\<lambda>f. (gf_path f, gf_raw f)) (st_gaps st)
     @ map (\<lambda>f. (af_path f, af_raw f)) (st_attestations st)
     @ (case st_tombstones_raw st of None \<Rightarrow> [] | Some raw \<Rightarrow> [(''.stipulator/tombstones.textproto'', raw)])"

definition stamp_prior :: "store \<Rightarrow> update \<Rightarrow> update" where
  "stamp_prior st up =
     (case map_of (rev (raw_files st)) (up_path up) of
        Some raw \<Rightarrow> up\<lparr>up_prior := Some raw\<rparr>
      | None \<Rightarrow> up\<lparr>up_prior_absent := True\<rparr>)"

lemma stamp_path [simp]: "up_path (stamp_prior st up) = up_path up" "up_content (stamp_prior st up) = up_content up"
  by (simp_all add: stamp_prior_def split: option.split)

definition stamp_priors :: "store \<Rightarrow> update list \<Rightarrow> update list" where
  "stamp_priors st ups = map (stamp_prior st) ups"

definition sort_updates :: "update list \<Rightarrow> update list" where
  "sort_updates ups = sort_key up_path ups"

definition write_to :: "string \<Rightarrow> string \<Rightarrow> update" where
  "write_to path content = \<lparr>up_path = path, up_content = Some content, up_prior = None, up_prior_absent = False, up_document = False\<rparr>"

definition delete_at :: "string \<Rightarrow> update" where
  "delete_at path = \<lparr>up_path = path, up_content = None, up_prior = None, up_prior_absent = False, up_document = False\<rparr>"

section \<open>The vocabulary\<close>

definition parse_role :: "(nat \<Rightarrow> bool) \<Rightarrow> string \<Rightarrow> string + binding_role" where
  "parse_role tbl s =
     (if s = [] then Inr ROLE_UNSPECIFIED
      else if s = ''implements'' then Inr ROLE_IMPLEMENTS
      else if s = ''tests'' then Inr ROLE_TESTS
      else if s = ''proves'' then Inr ROLE_PROVES
      else Inl (''unknown role '' @ quote tbl s @ '' (implements, tests, or proves)''))"

definition excuse_of :: "string \<Rightarrow> gap_excuse option" where
  "excuse_of n =
     (if n = ''uncovered'' then Some EXCUSE_UNCOVERED else if n = ''stale'' then Some EXCUSE_STALE
      else if n = ''broken'' then Some EXCUSE_BROKEN else None)"

fun new_excuses :: "(nat \<Rightarrow> bool) \<Rightarrow> string list \<Rightarrow> string + gap_excuse list" where
  "new_excuses tbl [] = Inr []"
| "new_excuses tbl (n # ns) =
     (case excuse_of n of
        None \<Rightarrow> Inl (''unknown excuse class '' @ quote tbl n @ '' (uncovered, stale, broken)'')
      | Some x \<Rightarrow> (case new_excuses tbl ns of Inl e \<Rightarrow> Inl e | Inr xs \<Rightarrow> Inr (x # xs)))"

definition excuse_label :: "gap_excuse \<Rightarrow> string" where
  "excuse_label x =
     (case x of EXCUSE_UNCOVERED \<Rightarrow> ''uncovered'' | EXCUSE_STALE \<Rightarrow> ''stale'' | EXCUSE_BROKEN \<Rightarrow> ''broken''
      | _ \<Rightarrow> excuse_string x)"

definition excuses_label :: "gap_excuse list \<Rightarrow> string" where
  "excuses_label xs = (if xs = [] then ''uncovered (default)'' else join (map excuse_label xs) '', '')"

definition new_landing ::
  "string \<Rightarrow> string \<Rightarrow> string \<Rightarrow> bool \<Rightarrow> bool \<Rightarrow> string + landing_condition option" where
  "new_landing covered exists manual fired contradicted =
     (if length (filter (\<lambda>v. v \<noteq> []) [covered, exists, manual]) > 1
      then Inl ''conflicting landing conditions: give exactly one of covered, exists, manual''
      else if fired \<and> manual = []
      then Inl ''fired accompanies a manual condition (fire an existing gap with the fired flag alone)''
      else if contradicted \<and> manual = []
      then Inl ''contradicted accompanies a manual condition: a contradicted letter has no coverage-defined terminal, name the condition that lands it''
      else if covered \<noteq> [] then Inr (Some (LC_Covered covered))
      else if exists \<noteq> [] then Inr (Some (LC_Exists exists))
      else if manual \<noteq> []
      then Inr (Some (LC_Manual \<lparr>mc_condition = manual, mc_fired = fired, mc_contradicted = contradicted\<rparr>))
      else Inr None)"

definition landing_string :: "landing_condition option \<Rightarrow> string" where
  "landing_string lc =
     (case lc of
        None \<Rightarrow> ''none''
      | Some (LC_Covered t) \<Rightarrow> ''covered('' @ t @ '')''
      | Some (LC_Exists t) \<Rightarrow> ''exists('' @ t @ '')''
      | Some (LC_Manual m) \<Rightarrow>
          ''manual('' @ mc_condition m @ '')''
          @ concat (map (\<lambda>flag. '' ['' @ flag @ '']'') (manual_flags (mc_contradicted m) (mc_fired m)))
      | Some LC_Unset \<Rightarrow> ''none'')"

definition self_sentinel :: string where
  "self_sentinel = ''self''"

section \<open>Declaring a gap\<close>

text \<open>\<open>compileClean\<close> over the compilation's outcome.\<close>

definition compile_clean :: "string + spec option \<times> diagnostic list \<Rightarrow> string + spec option" where
  "compile_clean out =
     (case out of Inl e \<Rightarrow> Inl e
      | Inr (sp, ds) \<Rightarrow>
          if refusal ds \<noteq> [] then Inl (''corpus does not compile: '' @ refusal ds) else Inr sp)"

definition gap_path :: "(nat \<Rightarrow> nat) \<Rightarrow> string \<Rightarrow> string" where
  "gap_path lt rid = ''.stipulator/gaps/'' @ trim_prefix (go_lower lt rid) ''req-'' @ ''.textproto''"

fun excuse_number :: "gap_excuse \<Rightarrow> int" where
  "excuse_number EXCUSE_UNSPECIFIED = 0"
| "excuse_number EXCUSE_UNCOVERED = 1"
| "excuse_number EXCUSE_STALE = 2"
| "excuse_number EXCUSE_BROKEN = 3"
| "excuse_number (EXCUSE_NUM n) = n"

fun excuse_fault :: "gap_excuse list \<Rightarrow> gap_excuse list \<Rightarrow> string option" where
  "excuse_fault seen [] = None"
| "excuse_fault seen (x # xs) =
     (if x \<noteq> EXCUSE_UNCOVERED \<and> x \<noteq> EXCUSE_STALE \<and> x \<noteq> EXCUSE_BROKEN
      then Some ''excuse classes are uncovered, stale, or broken''
      else if x \<in> set seen then Some (''excuse class '' @ excuse_label x @ '' repeats'')
      else excuse_fault (x # seen) xs)"

text \<open>The machine-evaluable target of a condition, with its form.\<close>

definition landing_target :: "landing_condition option \<Rightarrow> (string \<times> string) option" where
  "landing_target lc =
     (case lc of Some (LC_Covered t) \<Rightarrow> Some (''covered'', t) | Some (LC_Exists t) \<Rightarrow> Some (''exists'', t) | _ \<Rightarrow> None)"

definition resolve_self :: "string \<Rightarrow> landing_condition option \<Rightarrow> landing_condition option" where
  "resolve_self rid lc =
     (case lc of Some (LC_Covered t) \<Rightarrow> Some (LC_Covered (if t = self_sentinel then rid else t)) | _ \<Rightarrow> lc)"

text \<open>The record standing for a requirement: the last file that names it.\<close>

definition prior_gap :: "store \<Rightarrow> string \<Rightarrow> gap_file option" where
  "prior_gap st rid = find (\<lambda>gf. g_requirement_id (gf_gap gf) = rid) (rev (st_gaps st))"

definition keep_fired :: "gap option \<Rightarrow> landing_condition option \<Rightarrow> landing_condition option" where
  "keep_fired prior lc =
     (case (lc, Option.bind prior (\<lambda>p. lc_manual (g_lands p))) of
        (Some (LC_Manual m), Some pm) \<Rightarrow>
          if mc_condition m = mc_condition pm \<and> mc_fired pm then Some (LC_Manual (m\<lparr>mc_fired := True\<rparr>)) else lc
      | _ \<Rightarrow> lc)"

record gap_decl =
  de_update :: update
  de_prior :: "gap option"
  de_notes :: "string list"
  de_gap :: gap

definition restamp_note :: "string \<Rightarrow> gap option \<Rightarrow> string \<Rightarrow> string list" where
  "restamp_note rid prior hash =
     (case prior of
        Some p \<Rightarrow>
          if g_content_hash p \<noteq> [] \<and> g_content_hash p \<noteq> hash
          then [rid @ '': consent re-stamped '' @ em_dash @ '' the requirement'' @ [CHR 39] @ ''s text changed since the prior declaration'']
          else []
      | None \<Rightarrow> [])"

text \<open>The declared gap: consenting to the current text, excuses in order, a firing kept.\<close>

definition declared_gap :: "hashes \<Rightarrow> gap \<Rightarrow> landing_condition option \<Rightarrow> gap option \<Rightarrow> gap" where
  "declared_gap h g lands prior =
     g\<lparr>g_lands := keep_fired prior lands, g_excuses := sort_key excuse_number (g_excuses g),
       g_content_hash := map_get (h_content h) (g_requirement_id g),
       g_source_hash := map_get (h_source h) (g_requirement_id g)\<rparr>"

definition gap_record ::
  "(nat \<Rightarrow> bool) \<Rightarrow> (nat \<Rightarrow> nat) \<Rightarrow> store \<Rightarrow> hashes \<Rightarrow> gap \<Rightarrow> landing_condition option \<Rightarrow> string list
     \<Rightarrow> string + gap_decl" where
  "gap_record tbl lt st h g lands notes =
     (let rid = g_requirement_id g; file = prior_gap st rid; prior = map_option gf_gap file;
          made = declared_gap h g lands prior;
          path = (case file of None \<Rightarrow> gap_path lt rid | Some f \<Rightarrow> gf_path f);
          raw = (case file of None \<Rightarrow> [] | Some f \<Rightarrow> gf_raw f) in
      case excuse_fault [] (g_excuses g) of
        Some e \<Rightarrow> Inl e
      | None \<Rightarrow>
          (case (if file = None then find (\<lambda>f. gf_path f = path) (st_gaps st) else None) of
             Some f \<Rightarrow> Inl (path @ '' holds a gap for '' @ g_requirement_id (gf_gap f) @ ''; refusing to overwrite'')
           | None \<Rightarrow>
               (case render_gap_file tbl \<lparr>gf_path = path, gf_raw = raw, gf_gap = made\<rparr> of
                  Inl e \<Rightarrow> Inl e
                | Inr content \<Rightarrow>
                    Inr \<lparr>de_update = stamp_prior st (write_to path content), de_prior = prior,
                         de_notes = notes @ restamp_note rid prior (g_content_hash made), de_gap = made\<rparr>)))"

definition gap_over ::
  "(nat \<Rightarrow> bool) \<Rightarrow> (nat \<Rightarrow> nat) \<Rightarrow> spec \<Rightarrow> store \<Rightarrow> gap \<Rightarrow> string + gap_decl" where
  "gap_over tbl lt sp st g =
     (let h = hashes_of sp; rid = g_requirement_id g; lands = resolve_self rid (g_lands g); target = landing_target lands in
      if \<not> known h rid then Inl (''requirement '' @ rid @ '' is not in the corpus'')
      else if g_reason g = [] then Inl ''a reason is required''
      else if lands = None then Inl ''a landing condition is required''
      else case target of
        Some (form, t) \<Rightarrow>
          if \<not> valid_id t
          then Inl (form @ ''('' @ t @ '') does not match the requirement identifier grammar; a prose condition belongs in manual'')
          else gap_record tbl lt st h g lands
            (if known h t then [] else
               [rid @ '': '' @ form @ ''('' @ t @ '') names no current requirement '' @ em_dash
                @ '' the condition waits for it to exist; retract and redeclare if this is a typo''])
      | None \<Rightarrow> gap_record tbl lt st h g lands [])"

definition named_gap :: "string \<Rightarrow> landing_condition option \<Rightarrow> gap_excuse list \<Rightarrow> string \<Rightarrow> gap" where
  "named_gap reason lands excuses rid =
     \<lparr>g_requirement_id = rid, g_reason = reason, g_lands = lands, g_excuses = excuses,
      g_content_hash = [], g_source_hash = []\<rparr>"

definition change_notes :: "string \<Rightarrow> bool \<Rightarrow> gap_decl \<Rightarrow> string list" where
  "change_notes rid want_unfired d =
     (case de_prior d of
        Some p \<Rightarrow>
          if g_lands p \<noteq> g_lands (de_gap d)
          then [rid @ '': landing retargeted '' @ landing_string (g_lands p) @ '' -> '' @ landing_string (g_lands (de_gap d))]
          else if g_excuses p \<noteq> g_excuses (de_gap d)
          then [rid @ '': excuses rescoped '' @ excuses_label (g_excuses p) @ '' -> '' @ excuses_label (g_excuses (de_gap d))]
          else if want_unfired \<and> lc_fired (g_lands (de_gap d))
          then [rid @ '': fired state preserved (unfire requires a changed condition, or retract and redeclare)'']
          else []
      | None \<Rightarrow>
          if want_unfired \<and> lc_fired (g_lands (de_gap d))
          then [rid @ '': fired state preserved (unfire requires a changed condition, or retract and redeclare)'']
          else [])"

fun declare_all ::
  "(string \<Rightarrow> string + gap_decl) \<Rightarrow> bool \<Rightarrow> string list \<Rightarrow> string list \<Rightarrow> string + gap_decl list \<times> string list" where
  "declare_all over want_unfired seen [] = Inr ([], [])"
| "declare_all over want_unfired seen (rid # rids) =
     (case over rid of
        Inl e \<Rightarrow> Inl e
      | Inr d \<Rightarrow>
          if up_path (de_update d) \<in> set seen then Inl (''requirement '' @ rid @ '' repeats in the list'')
          else (case declare_all over want_unfired (up_path (de_update d) # seen) rids of
                  Inl e \<Rightarrow> Inl e
                | Inr (ds, notes) \<Rightarrow> Inr (d # ds, de_notes d @ change_notes rid want_unfired d @ notes)))"

definition at_least_one :: string where
  "at_least_one = ''at least one requirement is required''"

definition declare_gaps ::
  "(nat \<Rightarrow> bool) \<Rightarrow> (nat \<Rightarrow> nat) \<Rightarrow> string + spec \<Rightarrow> string + store \<Rightarrow> string list \<Rightarrow> string
     \<Rightarrow> landing_condition option \<Rightarrow> gap_excuse list \<Rightarrow> string + update list \<times> string list" where
  "declare_gaps tbl lt corpus loaded rids reason lands excuses =
     (if rids = [] then Inl at_least_one
      else case corpus of Inl e \<Rightarrow> Inl e | Inr sp \<Rightarrow>
      case loaded of Inl e \<Rightarrow> Inl e | Inr st \<Rightarrow>
      case declare_all (\<lambda>rid. gap_over tbl lt sp st (named_gap reason lands excuses rid))
             (lc_has_manual lands \<and> \<not> lc_fired lands) [] rids of
        Inl e \<Rightarrow> Inl e
      | Inr (ds, notes) \<Rightarrow> Inr (sort_updates (map de_update ds), sort notes))"

section \<open>Retracting, firing, pruning\<close>

definition files_naming :: "store \<Rightarrow> string \<Rightarrow> gap_file list" where
  "files_naming st rid = filter (\<lambda>gf. g_requirement_id (gf_gap gf) = rid) (st_gaps st)"

fun retract_all :: "store \<Rightarrow> string list \<Rightarrow> string list \<Rightarrow> string + update list" where
  "retract_all st seen [] = Inr []"
| "retract_all st seen (rid # rids) =
     (if rid \<in> set seen then Inl (''requirement '' @ rid @ '' repeats in the list'')
      else if files_naming st rid = [] then Inl (''no gap record names '' @ rid @ ''; nothing to retract'')
      else case retract_all st (rid # seen) rids of
             Inl e \<Rightarrow> Inl e
           | Inr ups \<Rightarrow> Inr (map (\<lambda>gf. delete_at (gf_path gf)) (files_naming st rid) @ ups))"

definition retract_gaps :: "string + store \<Rightarrow> string list \<Rightarrow> string + update list" where
  "retract_gaps loaded rids =
     (if rids = [] then Inl at_least_one
      else case loaded of Inl e \<Rightarrow> Inl e | Inr st \<Rightarrow>
      case retract_all st [] rids of Inl e \<Rightarrow> Inl e | Inr ups \<Rightarrow> Inr (stamp_priors st (sort_updates ups)))"

definition fired_gap :: "gap \<Rightarrow> gap" where
  "fired_gap g =
     (case g_lands g of Some (LC_Manual m) \<Rightarrow> g\<lparr>g_lands := Some (LC_Manual (m\<lparr>mc_fired := True\<rparr>))\<rparr> | _ \<Rightarrow> g)"

fun fire_files :: "(nat \<Rightarrow> bool) \<Rightarrow> string \<Rightarrow> gap_file list \<Rightarrow> string + update list" where
  "fire_files tbl rid [] = Inr []"
| "fire_files tbl rid (gf # gfs) =
     (if \<not> lc_has_manual (g_lands (gf_gap gf))
      then Inl (rid @ [CHR 39] @ ''s landing condition is '' @ landing_string (g_lands (gf_gap gf))
             @ '', not manual; only a manual condition fires'')
      else case render_gap_file tbl (gf\<lparr>gf_gap := fired_gap (gf_gap gf)\<rparr>) of
             Inl e \<Rightarrow> Inl e
           | Inr content \<Rightarrow>
               (case fire_files tbl rid gfs of Inl e \<Rightarrow> Inl e | Inr ups \<Rightarrow> Inr (write_to (gf_path gf) content # ups)))"

fun fire_all :: "(nat \<Rightarrow> bool) \<Rightarrow> hashes \<Rightarrow> store \<Rightarrow> string list \<Rightarrow> string list \<Rightarrow> string + update list" where
  "fire_all tbl h st seen [] = Inr []"
| "fire_all tbl h st seen (rid # rids) =
     (if rid \<in> set seen then Inl (''requirement '' @ rid @ '' repeats in the list'')
      else if \<not> known h rid then Inl (rid @ '' is not in the corpus; a dangling gap'' @ [CHR 39] @ ''s repair is retraction, not firing'')
      else case fire_files tbl rid (files_naming st rid) of
             Inl e \<Rightarrow> Inl e
           | Inr ups \<Rightarrow>
               if files_naming st rid = [] then Inl (''no gap record names '' @ rid @ ''; declare it before firing'')
               else (case fire_all tbl h st (rid # seen) rids of Inl e \<Rightarrow> Inl e | Inr rest \<Rightarrow> Inr (ups @ rest)))"

definition fire_gaps :: "(nat \<Rightarrow> bool) \<Rightarrow> string + spec \<Rightarrow> string + store \<Rightarrow> string list \<Rightarrow> string + update list" where
  "fire_gaps tbl corpus loaded rids =
     (if rids = [] then Inl at_least_one
      else case corpus of Inl e \<Rightarrow> Inl e | Inr sp \<Rightarrow>
      case loaded of Inl e \<Rightarrow> Inl e | Inr st \<Rightarrow>
      case fire_all tbl (hashes_of sp) st [] rids of Inl e \<Rightarrow> Inl e | Inr ups \<Rightarrow> Inr (stamp_priors st (sort_updates ups)))"

definition prune_where :: "(string \<Rightarrow> bool) \<Rightarrow> store \<Rightarrow> update list" where
  "prune_where P st =
     stamp_priors st (sort_updates (map (\<lambda>gf. delete_at (gf_path gf)) (filter (\<lambda>gf. P (g_requirement_id (gf_gap gf))) (st_gaps st))))"

definition prune_dangling_gaps :: "store \<Rightarrow> hashes \<Rightarrow> update list" where
  "prune_dangling_gaps st h = prune_where (\<lambda>rid. \<not> known h rid) st"

definition prune_resolved_gaps :: "store \<Rightarrow> string set \<Rightarrow> update list" where
  "prune_resolved_gaps st ids = prune_where (\<lambda>rid. rid \<in> ids) st"

section \<open>Attestations\<close>

definition attestation_path :: "(nat \<Rightarrow> nat) \<Rightarrow> string \<Rightarrow> string" where
  "attestation_path lt rid = ''.stipulator/attestations/'' @ trim_prefix (go_lower lt rid) ''req-'' @ ''.textproto''"

definition raw_of :: "store \<Rightarrow> string \<Rightarrow> string" where
  "raw_of st path = (case find (\<lambda>af. af_path af = path) (st_attestations st) of None \<Rightarrow> [] | Some af \<Rightarrow> af_raw af)"

text \<open>The last record of the requirement, with its file's path.\<close>

definition prior_attestation :: "store \<Rightarrow> string \<Rightarrow> (string \<times> attestation) option" where
  "prior_attestation st rid = find (\<lambda>pa. a_requirement_id (snd pa) = rid) (rev (attested_of st))"

definition cell_words :: "clause_kind \<Rightarrow> keyword \<Rightarrow> string" where
  "cell_words kind kw =
     ''('' @ kind_name kind @ '', ''
     @ map (\<lambda>c. if c = CHR ''_'' then CHR '' '' else c) (trim_prefix (keyword_string kw) ''KEYWORD_'') @ '')''"

definition attest_refusal :: "policy option \<Rightarrow> clause_kind \<Rightarrow> keyword \<Rightarrow> string" where
  "attest_refusal pol kind kw =
     (let hint = (if overridden pol kind kw \<or> kind_hint kind kw = [] then [] else ''; '' @ kind_hint kind kw) in
      ''the '' @ cell_words kind kw @ '' cell never admits attestation '' @ em_dash @ '' it '' @ required_evidence pol kind kw
      @ ''; an attestation that can never render is refused, not recorded'' @ hint)"

definition attest_requirement ::
  "(nat \<Rightarrow> bool) \<Rightarrow> (nat \<Rightarrow> nat) \<Rightarrow> string + spec \<Rightarrow> string + manifest \<Rightarrow> string + store \<Rightarrow> string \<Rightarrow> string
     \<Rightarrow> string + update \<times> attestation option" where
  "attest_requirement tbl lt corpus mf loaded rid reason =
     (if reason = [] then Inl ''an attestation without reasoning is not evidence; give --reason''
      else case corpus of Inl e \<Rightarrow> Inl e | Inr sp \<Rightarrow>
      case by_id sp rid of None \<Rightarrow> Inl (''requirement '' @ rid @ '' is not in the corpus'') | Some r \<Rightarrow>
      case mf of Inl e \<Rightarrow> Inl e | Inr m \<Rightarrow>
      case policy_from_manifest m of Inl e \<Rightarrow> Inl e | Inr pol \<Rightarrow>
      if \<not> admits_attestation (Some pol) (req_kind r) (req_keyword r)
      then Inl (attest_refusal (Some pol) (req_kind r) (req_keyword r))
      else case loaded of Inl e \<Rightarrow> Inl e | Inr st \<Rightarrow>
        let prior = prior_attestation st rid;
            path = (case prior of None \<Rightarrow> attestation_path lt rid | Some (p, _) \<Rightarrow> p);
            kept = filter (\<lambda>a. a_requirement_id a \<noteq> rid)
                     (concat (map af_set (filter (\<lambda>af. af_path af = path) (st_attestations st))));
            a = \<lparr>a_requirement_id = rid, a_content_hash = req_content_hash r, a_source_hash = req_source_hash r, a_reason = reason\<rparr>
        in case render_attestation_file tbl \<lparr>af_path = path, af_raw = raw_of st path, af_set = kept @ [a]\<rparr> of
             Inl e \<Rightarrow> Inl e
           | Inr content \<Rightarrow> Inr (stamp_prior st (write_to path content), map_option snd prior))"

fun retract_in :: "(nat \<Rightarrow> bool) \<Rightarrow> store \<Rightarrow> string \<Rightarrow> attestation_file list \<Rightarrow> string + update \<times> attestation" where
  "retract_in tbl st rid [] = Inl (''no attestation records '' @ rid @ ''; nothing to retract'')"
| "retract_in tbl st rid (af # afs) =
     (let hits = filter (\<lambda>a. a_requirement_id a = rid) (af_set af); kept = filter (\<lambda>a. a_requirement_id a \<noteq> rid) (af_set af) in
      if hits = [] then retract_in tbl st rid afs
      else if kept = [] then Inr (stamp_prior st (delete_at (af_path af)), last hits)
      else case render_attestation_file tbl (af\<lparr>af_set := kept\<rparr>) of
             Inl e \<Rightarrow> Inl e
           | Inr content \<Rightarrow> Inr (stamp_prior st (write_to (af_path af) content), last hits))"

definition retract_attestation :: "(nat \<Rightarrow> bool) \<Rightarrow> string + store \<Rightarrow> string \<Rightarrow> string + update \<times> attestation" where
  "retract_attestation tbl loaded rid =
     (case loaded of Inl e \<Rightarrow> Inl e | Inr st \<Rightarrow> retract_in tbl st rid (st_attestations st))"

section \<open>A declaration is born valid\<close>

definition excuse_classes :: "gap_excuse set" where
  "excuse_classes = {EXCUSE_UNCOVERED, EXCUSE_STALE, EXCUSE_BROKEN}"

lemma excuse_fault_none:
  "excuse_fault seen xs = None \<longleftrightarrow> distinct xs \<and> set xs \<inter> set seen = {} \<and> set xs \<subseteq> excuse_classes"
  by (induction seen xs rule: excuse_fault.induct) (auto simp: excuse_classes_def)

lemma keep_fired_shape:
  "keep_fired prior lc = lc \<or> (\<exists>m. lc = Some (LC_Manual m) \<and> keep_fired prior lc = Some (LC_Manual (m\<lparr>mc_fired := True\<rparr>)))"
  by (auto simp: keep_fired_def split: option.splits landing_condition.splits)

lemma keep_fired_none [simp]: "keep_fired prior lc = None \<longleftrightarrow> lc = None"
  using keep_fired_shape [of prior lc] by auto

lemma keep_fired_target [simp]: "landing_target (keep_fired prior lc) = landing_target lc"
  using keep_fired_shape [of prior lc] by (auto simp: landing_target_def)

lemma lc_manual_iff: "lc_manual lc = Some m \<longleftrightarrow> lc = Some (LC_Manual m)"
  by (auto elim: lc_manual.elims)

lemma keep_fired_keeps:
  assumes "lc_manual (g_lands p) = Some pm" and "mc_fired pm"
    and "lc_manual (keep_fired (Some p) lc) = Some m" and "mc_condition m = mc_condition pm"
  shows "mc_fired m"
proof -
  from keep_fired_shape [of "Some p" lc] assms(3) obtain m0 where m0: "lc = Some (LC_Manual m0)"
    by (auto simp: lc_manual_iff)
  show ?thesis
  proof (cases "mc_condition m0 = mc_condition pm")
    case True
    with assms m0 show ?thesis by (auto simp: keep_fired_def)
  next
    case False
    with assms m0 show ?thesis by (auto simp: keep_fired_def)
  qed
qed

text \<open>Where the record lands: in the file that stands for the requirement, or in a path no file has.\<close>

definition lands_at :: "store \<Rightarrow> string \<Rightarrow> string \<Rightarrow> gap option \<Rightarrow> bool" where
  "lands_at st rid path prior \<longleftrightarrow>
     (case files_naming st rid of
        [] \<Rightarrow> prior = None \<and> path \<notin> gf_path ` set (st_gaps st)
      | fs \<Rightarrow> prior = Some (gf_gap (last fs)) \<and> path = gf_path (last fs))"

lemma find_first: "find P ys = (if filter P ys = [] then None else Some (hd (filter P ys)))"
  by (induction ys) auto

lemma find_rev_last: "find P (rev xs) = (case filter P xs of [] \<Rightarrow> None | ys \<Rightarrow> Some (last ys))"
  unfolding find_first rev_filter [symmetric] by (simp add: hd_rev split: list.split)

lemma prior_gap_last: "prior_gap st rid = (case files_naming st rid of [] \<Rightarrow> None | fs \<Rightarrow> Some (last fs))"
  unfolding prior_gap_def files_naming_def by (rule find_rev_last)

definition fired_kept :: "gap option \<Rightarrow> gap \<Rightarrow> bool" where
  "fired_kept prior g \<longleftrightarrow>
     (\<forall>p pm m. prior = Some p \<and> lc_manual (g_lands p) = Some pm \<and> mc_fired pm \<and> lc_manual (g_lands g) = Some m
        \<and> mc_condition m = mc_condition pm \<longrightarrow> mc_fired m)"

definition born_valid :: "hashes \<Rightarrow> store \<Rightarrow> gap \<Rightarrow> gap_decl \<Rightarrow> bool" where
  "born_valid h st g d \<longleftrightarrow>
     (let made = de_gap d in
      gap_ok h made \<and> g_requirement_id made = g_requirement_id g \<and> g_reason made = g_reason g
      \<and> Some (g_content_hash made) = h_content h (g_requirement_id g)
      \<and> g_source_hash made = map_get (h_source h) (g_requirement_id g)
      \<and> sorted (map excuse_number (g_excuses made)) \<and> distinct (g_excuses made)
      \<and> set (g_excuses made) = set (g_excuses g) \<and> set (g_excuses g) \<subseteq> excuse_classes
      \<and> (case landing_target (g_lands made) of None \<Rightarrow> True | Some (_, t) \<Rightarrow> valid_id t)
      \<and> lands_at st (g_requirement_id g) (up_path (de_update d)) (de_prior d)
      \<and> fired_kept (de_prior d) made)"

lemma gap_record_born_valid:
  assumes "gap_record tbl lt st h g lands extra = Inr d"
    and "known h (g_requirement_id g)" and "g_requirement_id g \<noteq> []" and "g_reason g \<noteq> []" and "lands \<noteq> None"
    and "case landing_target lands of None \<Rightarrow> True | Some (_, t) \<Rightarrow> valid_id t"
  shows "born_valid h st g d"
proof -
  let ?rid = "g_requirement_id g" and ?file = "prior_gap st (g_requirement_id g)"
  let ?path = "case ?file of None \<Rightarrow> gap_path lt ?rid | Some f \<Rightarrow> gf_path f"
  let ?made = "declared_gap h g lands (map_option gf_gap ?file)"
  from assms(1) have ex: "excuse_fault [] (g_excuses g) = None"
    and free: "?file = None \<Longrightarrow> find (\<lambda>f. gf_path f = ?path) (st_gaps st) = None"
    and d: "de_gap d = ?made" "de_prior d = map_option gf_gap ?file" "up_path (de_update d) = ?path"
    by (auto simp: gap_record_def Let_def write_to_def split: option.splits sum.splits if_splits)
  from ex have xs: "distinct (g_excuses g)" "set (g_excuses g) \<subseteq> excuse_classes"
    using excuse_fault_none [of "[]" "g_excuses g"] by auto
  have at: "lands_at st ?rid ?path (map_option gf_gap ?file)"
    using free by (auto simp: lands_at_def prior_gap_last find_None_iff split: list.split)
  have "fired_kept (map_option gf_gap ?file) ?made"
    unfolding fired_kept_def using keep_fired_keeps by (auto simp: declared_gap_def)
  moreover have "gap_ok h ?made" using assms by (simp add: gap_ok_def declared_gap_def)
  moreover have "Some (map_get (h_content h) ?rid) = h_content h ?rid"
    using assms(2) by (auto simp: known_def map_get_def)
  ultimately show ?thesis
    using assms(6) xs at unfolding born_valid_def Let_def d by (simp add: declared_gap_def)
qed

text \<open>C37: a gap is born valid. A declaration that goes through records a gap the hygiene accepts: for
  a requirement of the corpus, with its reason and a landing condition whose machine target
  can name a requirement, with distinct excuse classes in order, consenting to exactly the
  current text; it lands in the file that stands for the requirement, or in a path that
  holds no other record; and an unchanged manual condition that had fired stays fired.\<close>

theorem gap_born_valid:
  assumes "g_requirement_id g \<noteq> []"
  shows "case gap_over tbl lt sp st g of Inl _ \<Rightarrow> True | Inr d \<Rightarrow> born_valid (hashes_of sp) st g d"
proof (cases "gap_over tbl lt sp st g")
  case (Inr d)
  let ?h = "hashes_of sp" and ?lands = "resolve_self (g_requirement_id g) (g_lands g)"
  from Inr have ok: "known ?h (g_requirement_id g)" "g_reason g \<noteq> []" "?lands \<noteq> None"
    "case landing_target ?lands of None \<Rightarrow> True | Some (_, t) \<Rightarrow> valid_id t"
    by (auto simp: gap_over_def Let_def split: if_splits option.splits)
  from Inr obtain extra where "gap_record tbl lt st ?h g ?lands extra = Inr d"
    by (auto simp: gap_over_def Let_def split: if_splits option.splits prod.splits)
  from gap_record_born_valid [OF this ok(1) assms ok(2-4)] Inr show ?thesis by simp
qed simp

text \<open>A corpus of one requirement and a gap ahead of its coverage.\<close>

definition one_requirement :: spec where
  "one_requirement =
     \<lparr>spec_requirements =
        [\<lparr>req_id = ''REQ-a'', req_kind = CK_BEHAVIOR, req_keyword = KW_MUST, req_text = ''t'',
          req_content_hash = ''h1'', req_source = ''s'', req_source_hash = ''h2'',
          req_location = \<lparr>loc_document = ''a.md'', loc_section_path = [], loc_line = 1\<rparr>, req_clauses = [], req_pointers = []\<rparr>],
      spec_terms = [], spec_notes = [], spec_annotations = [], spec_edges = [], spec_documents = []\<rparr>"

definition no_records :: store where
  "no_records = \<lparr>st_bindings = [], st_gaps = [], st_attestations = [], st_tombstones = [],
     st_tombstones_raw = None, st_allow_whole = False\<rparr>"

definition ahead_gap :: gap where
  "ahead_gap = named_gap ''later'' (Some (LC_Covered ''self'')) [EXCUSE_BROKEN, EXCUSE_UNCOVERED] ''REQ-a''"

lemma render_fresh: "render_preserving_header path [] body = Inr body"
proof -
  have "comment_outside_header [] = 0" "unlines (header_lines []) = []" by code_simp+
  then show ?thesis by (simp add: render_preserving_header_def)
qed

lemma one_known: "known (hashes_of one_requirement) ''REQ-a''" by (simp add: known_hashes_of one_requirement_def)

lemma gap_born_valid_witness:
  "g_requirement_id ahead_gap \<noteq> [] \<and> \<not> isl (gap_over (\<lambda>_. False) (\<lambda>c. c) one_requirement no_records ahead_gap)
   \<and> (case gap_over (\<lambda>_. False) (\<lambda>c. c) one_requirement no_records ahead_gap of
        Inl _ \<Rightarrow> True | Inr d \<Rightarrow> born_valid (hashes_of one_requirement) no_records ahead_gap d)"
proof -
  have ne: "g_requirement_id ahead_gap \<noteq> []" by (simp add: ahead_gap_def named_gap_def)
  have vid: "valid_id ''REQ-a''" by code_simp
  have "\<not> isl (gap_over (\<lambda>_. False) (\<lambda>c. c) one_requirement no_records ahead_gap)"
    using one_known vid
    by (simp add: gap_over_def gap_record_def ahead_gap_def named_gap_def resolve_self_def self_sentinel_def landing_target_def
        no_records_def prior_gap_def render_gap_file_def render_fresh Let_def excuse_fault_none excuse_classes_def)
  with ne gap_born_valid [OF ne] show ?thesis by blast
qed

section \<open>Batches\<close>

lemma ex_list_all2_Cons:
  assumes "\<And>y. R x y \<longleftrightarrow> y = d"
  shows "(\<exists>ds. list_all2 R (x # xs) ds \<and> Q ds) \<longleftrightarrow> (\<exists>ds. list_all2 R xs ds \<and> Q (d # ds))"
  using assms by (auto simp: list_all2_Cons1)

lemma declare_all_iff:
  "(\<exists>r. declare_all over unf seen rids = Inr r) \<longleftrightarrow>
     (\<exists>ds. list_all2 (\<lambda>rid d. over rid = Inr d) rids ds
        \<and> distinct (map (\<lambda>d. up_path (de_update d)) ds) \<and> (\<lambda>d. up_path (de_update d)) ` set ds \<inter> set seen = {})"
proof (induction rids arbitrary: seen)
  case (Cons rid rids)
  show ?case
  proof (cases "over rid")
    case (Inl e)
    then show ?thesis by (auto simp: list_all2_Cons1)
  next
    case (Inr d)
    let ?p = "up_path (de_update d)"
    have "(\<exists>r. declare_all over unf seen (rid # rids) = Inr r)
        \<longleftrightarrow> ?p \<notin> set seen \<and> (\<exists>r. declare_all over unf (?p # seen) rids = Inr r)"
      using Inr by (auto split: sum.split)
    also have "\<dots> \<longleftrightarrow> (\<exists>ds. list_all2 (\<lambda>rid d. over rid = Inr d) rids ds
        \<and> distinct (map (\<lambda>d. up_path (de_update d)) (d # ds)) \<and> (\<lambda>d. up_path (de_update d)) ` set (d # ds) \<inter> set seen = {})"
      unfolding Cons.IH [of "?p # seen"] by auto
    also have "\<dots> \<longleftrightarrow> (\<exists>ds. list_all2 (\<lambda>rid d. over rid = Inr d) (rid # rids) ds
        \<and> distinct (map (\<lambda>d. up_path (de_update d)) ds) \<and> (\<lambda>d. up_path (de_update d)) ` set ds \<inter> set seen = {})"
      by (rule ex_list_all2_Cons [symmetric]) (use Inr in auto)
    finally show ?thesis .
  qed
qed simp

lemma declare_all_updates:
  "declare_all over unf seen rids = Inr (ds, ns) \<Longrightarrow> list_all2 (\<lambda>rid d. over rid = Inr d) rids ds"
  by (induction rids arbitrary: seen ds ns) (auto split: sum.splits if_splits prod.splits)

lemma declare_gaps_parts:
  assumes "rids \<noteq> []"
  shows "declare_gaps tbl lt (Inr sp) (Inr st) rids reason lands excuses =
     (case declare_all (\<lambda>rid. gap_over tbl lt sp st (named_gap reason lands excuses rid))
             (lc_has_manual lands \<and> \<not> lc_fired lands) [] rids of
        Inl e \<Rightarrow> Inl e
      | Inr (ds, ns) \<Rightarrow> Inr (sort_updates (map de_update ds), sort ns))"
  using assms by (simp add: declare_gaps_def split: sum.split)

text \<open>A bulk declaration is all or nothing. It is refused exactly when the list is empty, one
  requirement's own declaration is refused, or two of them would write one file; otherwise
  its updates are, in path order, exactly those of the single declarations.\<close>

theorem declare_gaps_all_or_nothing:
  "case declare_gaps tbl lt (Inr sp) (Inr st) rids reason lands excuses of
     Inl _ \<Rightarrow> (rids \<noteq> [] \<and>
       (\<exists>ds. list_all2 (\<lambda>rid d. gap_over tbl lt sp st (named_gap reason lands excuses rid) = Inr d) rids ds
            \<and> distinct (map (\<lambda>d. up_path (de_update d)) ds))) = False
   | Inr (ups, ns) \<Rightarrow> rids \<noteq> [] \<and> sorted (map up_path ups) \<and> sorted ns \<and>
       (\<exists>ds. list_all2 (\<lambda>rid d. gap_over tbl lt sp st (named_gap reason lands excuses rid) = Inr d) rids ds
          \<and> distinct (map up_path ups) \<and> mset ups = mset (map de_update ds))"
proof (cases "rids = []")
  case False
  let ?over = "\<lambda>rid. gap_over tbl lt sp st (named_gap reason lands excuses rid)"
  let ?unf = "lc_has_manual lands \<and> \<not> lc_fired lands"
  show ?thesis
  proof (cases "declare_all ?over ?unf [] rids")
    case (Inl e)
    then have "\<not> (\<exists>ds. list_all2 (\<lambda>rid d. ?over rid = Inr d) rids ds \<and> distinct (map (\<lambda>d. up_path (de_update d)) ds))"
      using declare_all_iff [of ?over ?unf "[]" rids] by simp
    then show ?thesis
      unfolding declare_gaps_parts [OF False] Inl sum.case by blast
  next
    case (Inr r)
    obtain ds ns where r: "r = (ds, ns)" by (cases r)
    from Inr declare_all_iff [of ?over ?unf "[]" rids] obtain ds'
      where ds': "list_all2 (\<lambda>rid d. ?over rid = Inr d) rids ds'" "distinct (map (\<lambda>d. up_path (de_update d)) ds')"
      by auto
    have ds: "list_all2 (\<lambda>rid d. ?over rid = Inr d) rids ds"
      using declare_all_updates Inr unfolding r by blast
    with ds'(1) have "ds' = ds" by (auto simp: list_all2_conv_all_nth intro!: nth_equalityI)
    moreover have "mset (map up_path (sort_updates (map de_update ds))) = mset (map (\<lambda>d. up_path (de_update d)) ds)"
      by (simp add: sort_updates_def multiset.map_comp o_def)
    ultimately have "distinct (map up_path (sort_updates (map de_update ds)))"
      using ds'(2) by (metis mset_eq_imp_distinct_iff)
    then show ?thesis
      unfolding declare_gaps_parts [OF False] Inr r using False ds
      by (auto simp: sort_updates_def)
  qed
qed (simp add: declare_gaps_def)

lemma retract_all_iff:
  "(\<exists>ups. retract_all st seen rids = Inr ups)
     \<longleftrightarrow> distinct rids \<and> set rids \<inter> set seen = {} \<and> list_all (\<lambda>rid. files_naming st rid \<noteq> []) rids"
proof (induction rids arbitrary: seen)
  case (Cons rid rids)
  have "(\<exists>ups. retract_all st seen (rid # rids) = Inr ups)
      \<longleftrightarrow> rid \<notin> set seen \<and> files_naming st rid \<noteq> [] \<and> (\<exists>ups. retract_all st (rid # seen) rids = Inr ups)"
    by (auto split: sum.split)
  with Cons.IH [of "rid # seen"] show ?case by auto
qed simp

lemma retract_all_updates:
  "retract_all st seen rids = Inr ups
     \<Longrightarrow> ups = concat (map (\<lambda>rid. map (\<lambda>gf. delete_at (gf_path gf)) (files_naming st rid)) rids)"
  by (induction rids arbitrary: seen ups) (auto split: sum.splits if_splits)

text \<open>Retraction is all or nothing and deletes exactly what it names. It succeeds precisely on a
  non-empty list without repeats of which every requirement has a gap record, in the corpus
  or not; its updates are then deletions only, in path order, of exactly the files that name
  a listed requirement.\<close>

theorem retract_gaps_exact:
  "case retract_gaps (Inr st) rids of
     Inl _ \<Rightarrow> (rids \<noteq> [] \<and> distinct rids \<and> list_all (\<lambda>rid. files_naming st rid \<noteq> []) rids) = False
   | Inr ups \<Rightarrow>
       rids \<noteq> [] \<and> distinct rids \<and> list_all (\<lambda>rid. files_naming st rid \<noteq> []) rids
       \<and> sorted (map up_path ups) \<and> list_all (\<lambda>u. up_content u = None) ups
       \<and> set (map up_path ups) = gf_path ` {gf \<in> set (st_gaps st). g_requirement_id (gf_gap gf) \<in> set rids}"
proof (cases "retract_all st [] rids")
  case (Inl e)
  with retract_all_iff [of st "[]" rids] show ?thesis by (auto simp: retract_gaps_def list_all_iff)
next
  case (Inr ups)
  have set_eq: "set (map up_path ups) = gf_path ` {gf \<in> set (st_gaps st). g_requirement_id (gf_gap gf) \<in> set rids}"
    unfolding retract_all_updates [OF Inr] by (fastforce simp: files_naming_def delete_at_def image_iff)
  have "list_all (\<lambda>u. up_content u = None) ups"
    unfolding retract_all_updates [OF Inr] by (auto simp: list_all_iff delete_at_def)
  moreover have "map up_path (stamp_priors st (sort_updates ups)) = map up_path (sort_key up_path ups)"
    by (simp add: stamp_priors_def sort_updates_def o_def)
  ultimately show ?thesis
    using Inr retract_all_iff [of st "[]" rids] set_eq
    by (auto simp: retract_gaps_def stamp_priors_def sort_updates_def list_all_iff o_def)
qed

end
