(* ===== verification/GoPath.thy ===== *)
theory GoPath
  imports GoStd
begin

text \<open>
  The lexical path functions of Go's \<open>path\<close> and \<open>path/filepath\<close> on a slash system: Clean,
  Dir and IsLocal, with what the confinement of writes needs of them: the segments of a
  clean path, and that walking up a path by Dir comes to an end.
\<close>

section \<open>Cleaning\<close>

abbreviation slash :: string where "slash \<equiv> ''/''"

definition path_segs :: "string \<Rightarrow> string list" where
  "path_segs p = filter (\<lambda>s. s \<noteq> [] \<and> s \<noteq> ''.'') (split_on CHR ''/'' p)"

fun clean_stack :: "bool \<Rightarrow> string list \<Rightarrow> string list \<Rightarrow> string list" where
  "clean_stack rooted stk [] = rev stk"
| "clean_stack rooted stk (s # ss) =
     (if s \<noteq> ''..'' then clean_stack rooted (s # stk) ss
      else case stk of
        [] \<Rightarrow> clean_stack rooted (if rooted then [] else [s]) ss
      | t # ts \<Rightarrow> if t = ''..'' then clean_stack rooted (s # stk) ss else clean_stack rooted ts ss)"

definition path_clean :: "string \<Rightarrow> string" where
  "path_clean p =
     (let rooted = has_prefix p slash; out = join (clean_stack rooted [] (path_segs p)) slash in
      if p = [] then ''.'' else if rooted then slash @ out else if out = [] then ''.'' else out)"

definition upto_last_slash :: "string \<Rightarrow> string" where
  "upto_last_slash p = rev (dropWhile (\<lambda>c. c \<noteq> CHR ''/'') (rev p))"

definition path_dir :: "string \<Rightarrow> string" where
  "path_dir p = path_clean (upto_last_slash p)"

definition is_local :: "string \<Rightarrow> bool" where
  "is_local p \<longleftrightarrow>
     (let q = (if list_ex (\<lambda>s. s = ''.'' \<or> s = ''..'') (split_on CHR ''/'' p) then path_clean p else p) in
      \<not> has_prefix p slash \<and> p \<noteq> [] \<and> q \<noteq> ''..'' \<and> \<not> has_prefix q ''../'')"

definition path_join :: "string \<Rightarrow> string \<Rightarrow> string" where
  "path_join a b =
     (if a = [] \<and> b = [] then [] else path_clean (join (filter (\<lambda>s. s \<noteq> []) [a, b]) slash))"

section \<open>The segments of a clean path\<close>

text \<open>A cleaned stack climbs first, and only where the path is not rooted, and then descends.\<close>

definition climbs :: "bool \<Rightarrow> string list \<Rightarrow> bool" where
  "climbs rooted xs \<longleftrightarrow>
     (\<exists>k ws. xs = replicate k ''..'' @ ws \<and> ''..'' \<notin> set ws \<and> (rooted \<longrightarrow> k = 0))"

definition plain_seg :: "string \<Rightarrow> bool" where
  "plain_seg s \<longleftrightarrow> s \<noteq> [] \<and> s \<noteq> ''.'' \<and> CHR ''/'' \<notin> set s"

lemma climbs_snoc:
  assumes "climbs rooted xs" and "s \<noteq> ''..''"
  shows "climbs rooted (xs @ [s])"
proof -
  from assms(1) obtain k ws where "xs = replicate k ''..'' @ ws" "''..'' \<notin> set ws" "rooted \<longrightarrow> k = 0"
    by (auto simp: climbs_def)
  with assms(2) show ?thesis unfolding climbs_def by (intro exI [of _ k] exI [of _ "ws @ [s]"]) auto
qed

lemma climbs_butlast: "climbs rooted (xs @ [t]) \<Longrightarrow> t \<noteq> ''..'' \<Longrightarrow> climbs rooted xs"
proof -
  assume c: "climbs rooted (xs @ [t])" and t: "t \<noteq> ''..''"
  then obtain k ws where ws: "xs @ [t] = replicate k ''..'' @ ws" "''..'' \<notin> set ws" "rooted \<longrightarrow> k = 0"
    by (auto simp: climbs_def)
  show ?thesis
  proof (cases ws rule: rev_cases)
    case Nil
    with ws(1) have "t \<in> set (replicate k ''..'')" by (metis append_Nil2 in_set_conv_decomp)
    with t show ?thesis by (auto split: if_splits)
  next
    case (snoc ys y)
    with ws show ?thesis unfolding climbs_def by (auto intro!: exI [of _ k] exI [of _ ys])
  qed
qed

lemma climbs_up: "climbs rooted (xs @ [''..'']) \<Longrightarrow> climbs rooted (xs @ [''..'', ''..''])"
proof -
  assume "climbs rooted (xs @ [''..''])"
  then obtain k ws where ws: "xs @ [''..''] = replicate k ''..'' @ ws" "''..'' \<notin> set ws" "rooted \<longrightarrow> k = 0"
    by (auto simp: climbs_def)
  have "ws = []" using ws(1,2) by (cases ws rule: rev_cases) auto
  with ws have "k \<noteq> 0" "xs @ [''..'', ''..''] = replicate (Suc k) ''..''"
    by (cases k; simp add: replicate_append_same [symmetric])+
  with ws(3) show ?thesis unfolding climbs_def by (intro exI [of _ "Suc k"] exI [of _ "[]"]) auto
qed

lemma clean_stack_climbs: "climbs rooted (rev stk) \<Longrightarrow> climbs rooted (clean_stack rooted stk ss)"
proof (induction rooted stk ss rule: clean_stack.induct)
  case (2 rooted stk s ss)
  show ?case
  proof (cases "s = ''..''")
    case False
    with 2 climbs_snoc show ?thesis by simp
  next
    case True
    have top: "climbs rooted (rev (if rooted then [] else [''..'']))"
      by (auto simp: climbs_def intro!: exI [of _ 1])
    show ?thesis
    proof (cases stk)
      case Nil
      with 2(2) True top show ?thesis by (cases rooted) simp_all
    next
      case (Cons t ts)
      with 2 True climbs_up [of rooted "rev ts"] climbs_butlast [of rooted "rev ts" t] show ?thesis by auto
    qed
  qed
qed simp

lemma clean_stack_segs: "set (clean_stack rooted stk ss) \<subseteq> set stk \<union> set ss"
  by (induction rooted stk ss rule: clean_stack.induct) (auto split: list.splits if_splits)

lemma path_segs_plain: "list_all plain_seg (path_segs p)"
  using split_on_lines_clean [of _ "CHR ''/''" p] by (auto simp: path_segs_def plain_seg_def list_all_iff)

lemma split_on_join:
  assumes "xs \<noteq> []" and "list_all (\<lambda>x. d \<notin> set x) xs"
  shows "split_on d (join xs [d]) = xs"
  using assms
proof (induction xs rule: induct_list012)
  case (3 x y ys)
  then show ?case by (simp add: split_on_append)
qed auto


lemma path_clean_cases:
  obtains "path_clean p = ''.''"
  | xs where "path_clean p = slash @ join xs slash" "list_all plain_seg xs" "''..'' \<notin> set xs"
  | k ws where "path_clean p = join (replicate k ''..'' @ ws) slash" "replicate k ''..'' @ ws \<noteq> []"
      "list_all plain_seg ws" "''..'' \<notin> set ws"
proof -
  let ?r = "has_prefix p slash"
  let ?xs = "clean_stack ?r [] (path_segs p)"
  have "climbs ?r ?xs" by (rule clean_stack_climbs) (auto simp: climbs_def)
  then obtain k ws where xs: "?xs = replicate k ''..'' @ ws" "''..'' \<notin> set ws" "?r \<longrightarrow> k = 0"
    by (auto simp: climbs_def)
  have "list_all plain_seg ?xs"
    using clean_stack_segs [of ?r "[]" "path_segs p"] path_segs_plain [of p] by (auto simp: list_all_iff)
  then have plain: "list_all plain_seg ws" using xs(1) by simp
  show thesis
  proof (cases "p = []")
    case True
    then show thesis using that(1) by (simp add: path_clean_def)
  next
    case False
    show thesis
    proof (cases ?r)
      case True
      with False xs plain show thesis using that(2) [of ws] by (simp add: path_clean_def Let_def)
    next
      case nr: False
      show thesis
      proof (cases "?xs = []")
        case True
        with False nr show thesis using that(1) by (simp add: path_clean_def Let_def)
      next
        case ne: False
        have "join ?xs slash \<noteq> []"
        proof -
          from ne obtain x ys where "?xs = x # ys" by (cases ?xs) auto
          moreover have "x \<noteq> []" using \<open>list_all plain_seg ?xs\<close> calculation by (simp add: plain_seg_def)
          ultimately show ?thesis by (cases ys) auto
        qed
        with False nr ne xs plain show thesis using that(3) [of k ws] by (simp add: path_clean_def Let_def)
      qed
    qed
  qed
qed

text \<open>A clean path that begins with a plain segment never climbs: every segment of it is a name.\<close>

lemma clean_path_descends:
  assumes "path_clean p = p" and "split_on CHR ''/'' p = x # xs" and "x \<noteq> ''..''" and "x \<noteq> ''.''" and "x \<noteq> []"
  shows "list_all (\<lambda>s. plain_seg s \<and> s \<noteq> ''..'') (x # xs)"
proof (cases p rule: path_clean_cases)
  case 1
  then have p: "p = ''.''" using assms(1) by simp
  from assms(2,4) show ?thesis unfolding p by simp
next
  case (2 ys)
  then have p: "p = CHR ''/'' # join ys slash" using assms(1) by simp
  from assms(2,5) show ?thesis unfolding p by simp
next
  case (3 k ws)
  have "list_all (\<lambda>x. CHR ''/'' \<notin> set x) (replicate k ''..'' @ ws)"
    using 3(3) by (auto simp: list_all_iff plain_seg_def dest: in_set_replicate [THEN iffD1])
  from split_on_join [OF 3(2) this] have "split_on CHR ''/'' p = replicate k ''..'' @ ws"
    using 3(1) assms(1) by simp
  with assms(2,3) have "x # xs = ws" by (cases k) auto
  with 3(3,4) show ?thesis by (auto simp: list_all_iff)
qed

section \<open>Walking up\<close>

definition seg_len :: "string list \<Rightarrow> nat" where
  "seg_len xs = sum_list (map (\<lambda>s. Suc (length s)) xs)"

lemma seg_len_simps [simp]:
  "seg_len [] = 0" "seg_len (x # xs) = Suc (length x) + seg_len xs" "seg_len (xs @ ys) = seg_len xs + seg_len ys"
  "seg_len (rev xs) = seg_len xs"
  by (simp_all add: seg_len_def flip: rev_map)

lemma seg_len_filter: "seg_len (filter P xs) \<le> seg_len xs"
  by (induction xs) auto

lemma length_join: "xs \<noteq> [] \<Longrightarrow> Suc (length (join xs slash)) = seg_len xs"
  by (induction xs rule: induct_list012) auto

lemma seg_len_split: "seg_len (split_on d s) = Suc (length s)"
  by (induction s) (auto split: list.split)

lemma seg_len_clean_stack: "seg_len (clean_stack rooted stk ss) \<le> seg_len stk + seg_len ss"
  by (induction rooted stk ss rule: clean_stack.induct) (auto split: list.splits if_splits)

lemma split_on_snoc: "split_on d (s @ [d]) = split_on d s @ [[]]"
  by (induction s) (auto split: list.splits)

lemma path_clean_shorter:
  assumes "path_clean (s @ slash) \<noteq> ''.''" and "s \<noteq> []"
  shows "length (path_clean (s @ slash)) \<le> length s"
proof -
  let ?p = "s @ slash" and ?r = "has_prefix (s @ slash) slash"
  let ?xs = "clean_stack ?r [] (path_segs ?p)"
  from assms(2) obtain c cs where s: "s = c # cs" by (cases s) auto
  have segs: "path_segs ?p = path_segs s" by (simp add: path_segs_def split_on_snoc)
  have "seg_len (path_segs s) \<le> (if ?r then length s else Suc (length s))"
  proof (cases "c = CHR ''/''")
    case True
    with seg_len_filter [of "\<lambda>x. x \<noteq> [] \<and> x \<noteq> ''.''" "split_on CHR ''/'' cs"] show ?thesis
      by (simp add: path_segs_def s seg_len_split)
  next
    case False
    with seg_len_filter [of "\<lambda>x. x \<noteq> [] \<and> x \<noteq> ''.''" "split_on CHR ''/'' s"] show ?thesis
      unfolding path_segs_def seg_len_split by (simp add: s)
  qed
  then have len: "seg_len ?xs \<le> (if ?r then length s else Suc (length s))"
    using seg_len_clean_stack [of ?r "[]" "path_segs ?p"] segs by (auto split: if_splits)
  show ?thesis
  proof (cases "?xs = []")
    case True
    with assms show ?thesis by (auto simp: path_clean_def Let_def s)
  next
    case False
    from length_join [OF this] len assms show ?thesis by (auto simp: path_clean_def Let_def split: if_splits)
  qed
qed

definition path_size :: "string \<Rightarrow> nat" where
  "path_size p = (if p = ''.'' then 0 else Suc (length p))"

lemma upto_last_slash_cases: "upto_last_slash p = [] \<or> (\<exists>s t. upto_last_slash p = s @ slash \<and> p = s @ slash @ t)"
proof -
  let ?d = "dropWhile (\<lambda>c. c \<noteq> CHR ''/'') (rev p)"
  show ?thesis
  proof (cases ?d)
    case Nil
    then show ?thesis by (simp add: upto_last_slash_def)
  next
    case (Cons c cs)
    then have "c = CHR ''/''" using hd_dropWhile [of "\<lambda>c. c \<noteq> CHR ''/''" "rev p"] by simp
    moreover have "p = rev ?d @ rev (takeWhile (\<lambda>c. c \<noteq> CHR ''/'') (rev p))"
      unfolding rev_append [symmetric] takeWhile_dropWhile_id by simp
    ultimately have "upto_last_slash p = rev cs @ slash" "p = rev cs @ slash @ rev (takeWhile (\<lambda>c. c \<noteq> CHR ''/'') (rev p))"
      unfolding upto_last_slash_def Cons by simp_all
    then show ?thesis by blast
  qed
qed

lemma path_dir_climbs: "path_dir p \<noteq> p \<Longrightarrow> path_size (path_dir p) < path_size p"
proof -
  assume ne: "path_dir p \<noteq> p"
  have dot: "path_dir ''.'' = ''.''" by code_simp
  show ?thesis
  proof (cases "path_dir p = ''.''")
    case True
    with ne dot show ?thesis by (auto simp: path_size_def)
  next
    case False
    then have "upto_last_slash p \<noteq> []" by (auto simp: path_dir_def path_clean_def)
    then obtain s t where st: "upto_last_slash p = s @ slash" "p = s @ slash @ t"
      using upto_last_slash_cases by blast
    have p: "p \<noteq> ''.''" using ne dot by auto
    show ?thesis
    proof (cases s)
      case Nil
      have root: "path_clean slash = slash" by code_simp
      with Nil st ne have "t \<noteq> []" by (auto simp: path_dir_def)
      with Nil st root p False show ?thesis by (auto simp: path_dir_def path_size_def)
    next
      case (Cons c cs)
      then have "length (path_dir p) \<le> length s"
        using path_clean_shorter [of s] False st by (simp add: path_dir_def)
      with st(2) p False show ?thesis by (simp add: path_size_def)
    qed
  qed
qed

end
