(* ===== verification/Apply.thy ===== *)
theory Apply
  imports Gaps GoPath
begin

text \<open>
  The one writer of record updates, \<open>internal/recordapply/recordapply.go\<close>: the confinement of
  every path, the compare-and-swap precondition against the live tree, the staging of every
  write before the first rename, the exclusive creation of a file read as absent, and the
  deletions last. The tree maps clean paths to contents; the dot-temps of staged writes stand beside it.
  What the operating system answers, and what other processes do between two steps, is the
  record \<open>seam\<close>. The test harness's injected stager and remover are left out.
\<close>

section \<open>The tree and the seam\<close>

type_synonym files = "string \<rightharpoonup> string"

record disk =
  dk_files :: files
  dk_temps :: "string list"

record seam =
  sm_documents :: "string + string list"
  sm_exists :: "string \<Rightarrow> bool"
  sm_resolve :: "string \<Rightarrow> string + string"
  sm_read :: "string \<Rightarrow> string option"
  sm_stage :: "string \<Rightarrow> string option"
  sm_reserve :: "string \<Rightarrow> string option"
  sm_stat :: "string \<Rightarrow> string option"
  sm_close :: "string \<Rightarrow> string option"
  sm_rename :: "string \<Rightarrow> string option"
  sm_unseen :: "string \<Rightarrow> bool"
  sm_unreserve :: "string \<Rightarrow> string option"
  sm_remove :: "string \<Rightarrow> string option"
  sm_before :: "string \<Rightarrow> files \<Rightarrow> files"
  sm_window :: "string \<Rightarrow> string option"

section \<open>Admission\<close>

definition within :: "string \<Rightarrow> string \<Rightarrow> bool" where
  "within p base \<longleftrightarrow> p = base \<or> has_prefix p (base @ slash)"

definition record_home :: string where
  "record_home = ''.stipulator''"

definition admit_write :: "(nat \<Rightarrow> bool) \<Rightarrow> seam \<Rightarrow> string \<Rightarrow> bool \<Rightarrow> string option" where
  "admit_write tbl sm path document =
     (if \<not> is_local path then Some (''path '' @ quote tbl path @ '' escapes the corpus root'')
      else if path \<noteq> path_clean path then Some (''path '' @ quote tbl path @ '' is not a clean path'')
      else if has_prefix path (record_home @ slash) then None
      else if \<not> document
      then Some (''path '' @ quote tbl path @ '' is outside .stipulator/ (the record stores are written nowhere else)'')
      else case sm_documents sm of
        Inl e \<Rightarrow> Some (''document rewrite of '' @ quote tbl path @ '': '' @ e)
      | Inr docs \<Rightarrow>
          if path \<in> set docs then None
          else Some (''path '' @ quote tbl path @ '' is not a corpus document (enforcement pointers are rewritten in corpus documents and nothing else)''))"

function deepest :: "(string \<Rightarrow> bool) \<Rightarrow> string \<Rightarrow> string option" where
  "deepest ok p =
     (if ok p then Some p else if path_dir p = p then None else deepest ok (path_dir p))"
  by pat_completeness auto
termination by (relation "measure (\<lambda>(ok, p). path_size p)") (auto simp: path_dir_climbs)

declare deepest.simps [simp del]

definition confined_on_disk :: "(nat \<Rightarrow> bool) \<Rightarrow> string \<Rightarrow> seam \<Rightarrow> string \<Rightarrow> bool \<Rightarrow> string option" where
  "confined_on_disk tbl root sm path document =
     (case sm_resolve sm root of
        Inl e \<Rightarrow> Some (''corpus root '' @ root @ '': '' @ e)
      | Inr real \<Rightarrow>
          (case deepest (sm_exists sm) (path_join root path) of
             None \<Rightarrow> Some (''path '' @ quote tbl path @ '' has no existing ancestor under '' @ root @ '' (confinement)'')
           | Some existing \<Rightarrow>
               let home = (if document \<or> \<not> within existing (path_join root record_home) then real
                           else path_join real record_home) in
               case sm_resolve sm existing of
                 Inl e \<Rightarrow> Some (''path '' @ quote tbl path @ '' cannot be resolved for the confinement judgment: '' @ e)
               | Inr resolved_path \<Rightarrow>
                   if within resolved_path home then None
                   else Some (''path '' @ quote tbl path @ '' resolves to '' @ resolved_path @ '', outside '' @ home
                          @ '' (a symlink the write would follow); refusing the write'')))"

definition rewrites_document :: "update \<Rightarrow> bool" where
  "rewrites_document up \<longleftrightarrow> up_content up \<noteq> None \<and> up_document up"

fun admit_all :: "(nat \<Rightarrow> bool) \<Rightarrow> string \<Rightarrow> seam \<Rightarrow> string list \<Rightarrow> update list \<Rightarrow> string option" where
  "admit_all tbl root sm seen [] = None"
| "admit_all tbl root sm seen (up # ups) =
     (if up_path up \<in> set seen then Some (''batch names '' @ up_path up @ '' twice; refusing the ambiguous apply'')
      else case admit_write tbl sm (up_path up) (rewrites_document up) of Some e \<Rightarrow> Some e | None \<Rightarrow>
      case confined_on_disk tbl root sm (up_path up) (rewrites_document up) of Some e \<Rightarrow> Some e | None \<Rightarrow>
      admit_all tbl root sm (up_path up # seen) ups)"

section \<open>The precondition\<close>

definition appeared :: "string \<Rightarrow> string" where
  "appeared path = path @ '' appeared since the operation ran; re-run against the current tree''"

definition check_prior :: "seam \<Rightarrow> files \<Rightarrow> update \<Rightarrow> string option" where
  "check_prior sm tree up =
     (if up_prior up = None \<and> \<not> up_prior_absent up
      then Some (up_path up @ '' carries no precondition; the computing operation failed to stamp what it read'')
      else case sm_read sm (up_path up) of Some e \<Rightarrow> Some e | None \<Rightarrow>
      case tree (up_path up) of
        None \<Rightarrow>
          if \<not> up_prior_absent up \<and> up_prior up \<noteq> None
          then Some (up_path up @ '' vanished since the operation read it; re-run against the current tree'')
          else None
      | Some current \<Rightarrow>
          if up_prior_absent up then Some (appeared (up_path up))
          else if up_prior up \<noteq> Some current
          then Some (up_path up @ '' changed since the operation read it (a concurrent write?); re-run against the current tree'')
          else None)"

fun first_fault :: "('a \<Rightarrow> string option) \<Rightarrow> 'a list \<Rightarrow> string option" where
  "first_fault f [] = None"
| "first_fault f (x # xs) = (case f x of Some e \<Rightarrow> Some e | None \<Rightarrow> first_fault f xs)"

section \<open>Staging and committing\<close>

record staged =
  sg_path :: string
  sg_content :: string
  sg_create :: bool

definition discard :: "staged \<Rightarrow> disk \<Rightarrow> disk" where
  "discard w d = d\<lparr>dk_temps := remove1 (sg_path w) (dk_temps d)\<rparr>"

fun stage_all :: "seam \<Rightarrow> update list \<Rightarrow> disk \<Rightarrow> staged list \<times> string option \<times> disk" where
  "stage_all sm [] d = ([], None, d)"
| "stage_all sm (up # ups) d =
     (case up_content up of
        None \<Rightarrow> stage_all sm ups d
      | Some content \<Rightarrow>
          (case sm_stage sm (up_path up) of
             Some e \<Rightarrow> ([], Some e, d)
           | None \<Rightarrow>
               let (ws, err, d') = stage_all sm ups (d\<lparr>dk_temps := up_path up # dk_temps d\<rparr>) in
               (\<lparr>sg_path = up_path up, sg_content = content, sg_create = up_prior_absent up\<rparr> # ws, err, d')))"

definition stands_note :: "string \<Rightarrow> string \<Rightarrow> string" where
  "stands_note fault path = fault @ '' (an empty reservation stands at '' @ path"

text \<open>Undoing a reservation, unless another writer took the name over meanwhile.\<close>

definition unreserve :: "seam \<Rightarrow> string \<Rightarrow> string \<Rightarrow> files \<Rightarrow> string \<times> files" where
  "unreserve sm path fault tree =
     (if sm_unseen sm path then (fault, tree)
      else case sm_window sm path of
        Some foreign \<Rightarrow> (fault, tree(path \<mapsto> foreign))
      | None \<Rightarrow>
          (case sm_unreserve sm path of
             Some e \<Rightarrow> (stands_note fault path @ '': '' @ e @ '')'', tree)
           | None \<Rightarrow> (fault, tree(path := None))))"

text \<open>The tree a commit leaves and its fault; the staged temp is consumed by the rename alone.\<close>

definition commit_tree :: "seam \<Rightarrow> staged \<Rightarrow> files \<Rightarrow> string option \<times> files" where
  "commit_tree sm w tree =
     (let path = sg_path w in
      if \<not> sg_create w
      then (case sm_rename sm path of Some e \<Rightarrow> (Some e, tree) | None \<Rightarrow> (None, tree(path \<mapsto> sg_content w)))
      else if tree path \<noteq> None then (Some (appeared path), tree)
      else case sm_reserve sm path of Some e \<Rightarrow> (Some e, tree) | None \<Rightarrow>
      let reserved = tree(path \<mapsto> []) in
      case sm_stat sm path of Some e \<Rightarrow> (Some (stands_note e path @ '')''), reserved) | None \<Rightarrow>
      case sm_close sm path of Some e \<Rightarrow> map_prod Some id (unreserve sm path e reserved) | None \<Rightarrow>
      case sm_rename sm path of
        Some e \<Rightarrow> map_prod Some id (unreserve sm path e reserved)
      | None \<Rightarrow> (None, reserved(path \<mapsto> sg_content w)))"

definition commit :: "seam \<Rightarrow> staged \<Rightarrow> disk \<Rightarrow> string option \<times> disk" where
  "commit sm w d =
     (let (err, tree) = commit_tree sm w (sm_before sm (sg_path w) (dk_files d)) in
      (err, if err = None then discard w (d\<lparr>dk_files := tree\<rparr>) else d\<lparr>dk_files := tree\<rparr>))"

fun commit_all :: "seam \<Rightarrow> staged list \<Rightarrow> disk \<Rightarrow> string list \<times> staged list \<times> string option \<times> disk" where
  "commit_all sm [] d = ([], [], None, d)"
| "commit_all sm (w # ws) d =
     (case commit sm w d of
        (Some e, d') \<Rightarrow> ([], w # ws, Some e, d')
      | (None, d') \<Rightarrow> (case commit_all sm ws d' of (done0, rest, err, d'') \<Rightarrow> (sg_path w # done0, rest, err, d'')))"

definition remove_file :: "seam \<Rightarrow> string \<Rightarrow> disk \<Rightarrow> string option \<times> disk" where
  "remove_file sm path d =
     (let d' = d\<lparr>dk_files := sm_before sm path (dk_files d)\<rparr> in
      case sm_remove sm path of
        Some e \<Rightarrow> (Some e, d')
      | None \<Rightarrow>
          (case dk_files d' path of
             None \<Rightarrow> (Some (''remove '' @ path @ '': no such file or directory''), d')
           | Some _ \<Rightarrow> (None, d'\<lparr>dk_files := (dk_files d')(path := None)\<rparr>)))"

fun remove_all_files :: "seam \<Rightarrow> string list \<Rightarrow> disk \<Rightarrow> string list \<times> string option \<times> disk" where
  "remove_all_files sm [] d = ([], None, d)"
| "remove_all_files sm (p # ps) d =
     (case remove_file sm p d of
        (Some e, d') \<Rightarrow> ([], Some e, d')
      | (None, d') \<Rightarrow> (case remove_all_files sm ps d' of (done0, err, d'') \<Rightarrow> (p # done0, err, d'')))"

section \<open>Apply\<close>

record apply_result =
  ar_wrote :: "string list"
  ar_deleted :: "string list"
  ar_error :: "string option"
  ar_disk :: disk

definition landed_line :: "apply_result \<Rightarrow> string" where
  "landed_line r =
     (let parts = (if ar_wrote r = [] then [] else [''wrote '' @ join (ar_wrote r) '', ''])
                @ (if ar_deleted r = [] then [] else [''deleted '' @ join (ar_deleted r) '', '']) in
      if parts = [] then [] else ''landed before the fault: '' @ join parts ''; '')"

definition apply_batch :: "(nat \<Rightarrow> bool) \<Rightarrow> string \<Rightarrow> seam \<Rightarrow> update list \<Rightarrow> disk \<Rightarrow> apply_result" where
  "apply_batch tbl root sm ups d =
     (let refuse = (\<lambda>e. \<lparr>ar_wrote = [], ar_deleted = [], ar_error = Some e, ar_disk = d\<rparr>) in
      case admit_all tbl root sm [] ups of Some e \<Rightarrow> refuse e | None \<Rightarrow>
      case first_fault (check_prior sm (dk_files d)) ups of Some e \<Rightarrow> refuse e | None \<Rightarrow>
      case stage_all sm ups d of
        (ws, Some e, d1) \<Rightarrow> \<lparr>ar_wrote = [], ar_deleted = [], ar_error = Some e, ar_disk = fold discard ws d1\<rparr>
      | (ws, None, d1) \<Rightarrow>
          (case commit_all sm ws d1 of
             (wrote, rest, Some e, d2) \<Rightarrow>
               \<lparr>ar_wrote = wrote, ar_deleted = [], ar_error = Some e, ar_disk = fold discard rest d2\<rparr>
           | (wrote, rest, None, d2) \<Rightarrow>
               (case remove_all_files sm (map up_path (filter (\<lambda>u. up_content u = None) ups)) d2 of
                  (deleted, err, d3) \<Rightarrow>
                    \<lparr>ar_wrote = wrote, ar_deleted = deleted, ar_error = err, ar_disk = d3\<rparr>)))"


section \<open>What a batch lands\<close>

text \<open>The order of landing: the writes of the batch, then its deletions.\<close>

definition landing_order :: "update list \<Rightarrow> update list" where
  "landing_order ups = filter (\<lambda>u. up_content u \<noteq> None) ups @ filter (\<lambda>u. up_content u = None) ups"

definition land :: "update \<Rightarrow> files \<Rightarrow> files" where
  "land u tree = tree(up_path u := up_content u)"

definition staged_of :: "update \<Rightarrow> staged list" where
  "staged_of u =
     (case up_content u of None \<Rightarrow> []
      | Some c \<Rightarrow> [\<lparr>sg_path = up_path u, sg_content = c, sg_create = up_prior_absent u\<rparr>])"

text \<open>No other process writes to the tree while the batch lands.\<close>

definition undisturbed :: "seam \<Rightarrow> bool" where
  "undisturbed sm \<longleftrightarrow> (\<forall>p tree. sm_before sm p tree = tree) \<and> (\<forall>p. sm_window sm p = None)"

lemma discard_files [simp]: "dk_files (fold discard ws d) = dk_files d"
  by (induction ws arbitrary: d) (simp_all add: discard_def)

lemma discard_temps [simp]: "mset (dk_temps (fold discard ws d)) = mset (dk_temps d) - mset (map sg_path ws)"
  by (induction ws arbitrary: d) (simp_all add: discard_def)

lemma stage_all_effect:
  "stage_all sm ups d = (ws, err, d') \<Longrightarrow>
     dk_files d' = dk_files d \<and> mset (dk_temps d') = mset (map sg_path ws) + mset (dk_temps d)
     \<and> (err = None \<longrightarrow> ws = concat (map staged_of ups))"
  by (induction ups arbitrary: d ws d')
     (fastforce simp: staged_of_def Let_def split: option.splits prod.splits)+

lemma staged_paths: "map sg_path (concat (map staged_of ups)) = map up_path (filter (\<lambda>u. up_content u \<noteq> None) ups)"
  by (induction ups) (auto simp: staged_of_def)

lemma commit_temps:
  "commit sm w d = (err, d') \<Longrightarrow>
     mset (dk_temps d') = (if err = None then mset (dk_temps d) - {#sg_path w#} else mset (dk_temps d))"
  by (auto simp: commit_def discard_def Let_def split: prod.splits if_splits)

lemma commit_all_effect:
  "commit_all sm ws d = (landed, rest, err, d') \<Longrightarrow>
     map sg_path ws = landed @ map sg_path rest \<and> mset (dk_temps d') = mset (dk_temps d) - mset landed
     \<and> (err = None) = (rest = [])"
proof (induction ws arbitrary: d landed rest err d')
  case (Cons w ws)
  obtain e d1 where c: "commit sm w d = (e, d1)" by fastforce
  obtain l r e2 d2 where r: "commit_all sm ws d1 = (l, r, e2, d2)" by (metis prod_cases4)
  from Cons.prems Cons.IH [OF r] commit_temps [OF c] c r show ?case
    by (cases e) auto
qed auto

lemma remove_all_effect:
  "remove_all_files sm ps d = (landed, err, d') \<Longrightarrow>
     (\<exists>rest. ps = landed @ rest \<and> (err = None) = (rest = [])) \<and> dk_temps d' = dk_temps d"
proof (induction ps arbitrary: d landed err d')
  case (Cons p ps)
  obtain e d1 where c: "remove_file sm p d = (e, d1)" by fastforce
  then have t: "dk_temps d1 = dk_temps d" by (auto simp: remove_file_def Let_def split: option.splits)
  obtain l e2 d2 where r: "remove_all_files sm ps d1 = (l, e2, d2)" by (metis prod_cases3)
  from Cons.prems Cons.IH [OF r] t c r show ?case by (cases e) auto
qed auto

definition removals :: "update list \<Rightarrow> string list" where
  "removals ups = map up_path (filter (\<lambda>u. up_content u = None) ups)"

definition refused :: "string \<Rightarrow> disk \<Rightarrow> apply_result" where
  "refused e d = \<lparr>ar_wrote = [], ar_deleted = [], ar_error = Some e, ar_disk = d\<rparr>"

text \<open>The four ways a batch goes.\<close>

lemma apply_batch_cases:
  obtains (Refused) e where "apply_batch tbl root sm ups d = refused e d" "ups \<noteq> []"
  | (Unstaged) ws e d1 where "stage_all sm ups d = (ws, Some e, d1)" "ups \<noteq> []"
      "apply_batch tbl root sm ups d = refused e (fold discard ws d1)"
  | (Stopped) ws d1 wrote rest e d2 where "stage_all sm ups d = (ws, None, d1)"
      "commit_all sm ws d1 = (wrote, rest, Some e, d2)"
      "first_fault (check_prior sm (dk_files d)) ups = None" "admit_all tbl root sm [] ups = None"
      "apply_batch tbl root sm ups d
         = \<lparr>ar_wrote = wrote, ar_deleted = [], ar_error = Some e, ar_disk = fold discard rest d2\<rparr>"
  | (Deleting) ws d1 wrote d2 deleted err d3 where "stage_all sm ups d = (ws, None, d1)"
      "commit_all sm ws d1 = (wrote, [], None, d2)" "remove_all_files sm (removals ups) d2 = (deleted, err, d3)"
      "first_fault (check_prior sm (dk_files d)) ups = None" "admit_all tbl root sm [] ups = None"
      "apply_batch tbl root sm ups d
         = \<lparr>ar_wrote = wrote, ar_deleted = deleted, ar_error = err, ar_disk = d3\<rparr>"
proof -
  obtain ws e1 d1 where st: "stage_all sm ups d = (ws, e1, d1)" by (metis prod_cases3)
  obtain wrote rest e2 d2 where co: "commit_all sm ws d1 = (wrote, rest, e2, d2)" by (metis prod_cases4)
  obtain deleted e3 d3 where rm: "remove_all_files sm (removals ups) d2 = (deleted, e3, d3)" by (metis prod_cases3)
  note unfold = apply_batch_def Let_def st co rm refused_def removals_def [symmetric]
  show thesis
  proof (cases "admit_all tbl root sm [] ups")
    case (Some e)
    then show thesis using Refused [of e] by (cases "ups = []") (simp_all add: unfold)
  next
    case adm: None
    show thesis
    proof (cases "first_fault (check_prior sm (dk_files d)) ups")
      case (Some e)
      with adm show thesis using Refused [of e] by (cases "ups = []") (simp_all add: unfold)
    next
      case pri: None
      show thesis
      proof (cases e1)
        case (Some e)
        with st have "ups \<noteq> []" by auto
        with adm pri st Some show thesis using Unstaged [of ws e d1] by (simp add: unfold)
      next
        case e1: None
        show thesis
        proof (cases e2)
          case (Some e)
          with adm pri st co e1 show thesis using Stopped [of ws d1 wrote rest e d2] by (simp add: unfold)
        next
          case None
          with commit_all_effect [OF co] have "rest = []" by simp
          with adm pri st co e1 rm None show thesis
            using Deleting [of ws d1 wrote d2 deleted e3 d3] by (simp add: unfold)
        qed
      qed
    qed
  qed
qed

text \<open>What a batch reports is what it did, in landing order. Whatever the operating system
  answers and whatever other processes do, the paths an apply reports are a run from the
  start of the writes followed by the deletions, the whole of it precisely when there is no error; no
  deletion lands before every write has; and no staged temporary is left behind.\<close>

theorem apply_reports_exact:
  "let r = apply_batch tbl root sm ups d; order = map up_path (landing_order ups) in
     (\<exists>rest. order = ar_wrote r @ ar_deleted r @ rest \<and> (ar_error r = None) = (rest = []))
     \<and> (ar_deleted r = [] \<or> ar_wrote r = map up_path (filter (\<lambda>u. up_content u \<noteq> None) ups))
     \<and> mset (dk_temps (ar_disk r)) = mset (dk_temps d)"
proof (cases rule: apply_batch_cases [of tbl root sm ups d])
  case (Refused e)
  moreover have "landing_order ups \<noteq> []" using Refused(2) by (cases ups) (auto simp: landing_order_def)
  ultimately show ?thesis by (simp add: refused_def Let_def)
next
  case (Unstaged ws e d1)
  moreover have "landing_order ups \<noteq> []" using Unstaged(2) by (cases ups) (auto simp: landing_order_def)
  ultimately show ?thesis using stage_all_effect [OF Unstaged(1)] by (simp add: refused_def Let_def)
next
  case (Stopped ws d1 wrote rest e d2)
  from stage_all_effect [OF Stopped(1)] have st: "ws = concat (map staged_of ups)"
    "mset (dk_temps d1) = mset (map sg_path ws) + mset (dk_temps d)" by auto
  from commit_all_effect [OF Stopped(2)] have co: "map sg_path ws = wrote @ map sg_path rest" "rest \<noteq> []"
    "mset (dk_temps d2) = mset (dk_temps d1) - mset wrote" by auto
  from co(1) have "map up_path (landing_order ups) = wrote @ map sg_path rest @ removals ups"
    unfolding st(1) staged_paths by (simp add: landing_order_def removals_def)
  moreover have "mset (dk_temps (fold discard rest d2)) = mset (dk_temps d)" using st(2) co(1,3) by simp
  ultimately show ?thesis using co(2) unfolding Stopped Let_def by auto
next
  case (Deleting ws d1 wrote d2 deleted err d3)
  from stage_all_effect [OF Deleting(1)] have st: "ws = concat (map staged_of ups)"
    "mset (dk_temps d1) = mset (map sg_path ws) + mset (dk_temps d)" by auto
  from commit_all_effect [OF Deleting(2)] have co: "map sg_path ws = wrote"
    "mset (dk_temps d2) = mset (dk_temps d1) - mset wrote" by auto
  from remove_all_effect [OF Deleting(3)] obtain rest where rm: "removals ups = deleted @ rest"
    "(err = None) = (rest = [])" "dk_temps d3 = dk_temps d2" by auto
  have w: "wrote = map up_path (filter (\<lambda>u. up_content u \<noteq> None) ups)" using co(1) unfolding st(1) staged_paths by simp
  with rm(1) have "map up_path (landing_order ups) = wrote @ deleted @ rest"
    by (simp add: landing_order_def removals_def)
  moreover have "mset (dk_temps d3) = mset (dk_temps d)" using st(2) co rm(3) by simp
  ultimately show ?thesis using w rm(2) unfolding Deleting Let_def by auto
qed

section \<open>What a batch does to the tree\<close>

definition put :: "staged \<Rightarrow> files \<Rightarrow> files" where
  "put w tree = tree(sg_path w \<mapsto> sg_content w)"

definition reserves :: "staged list \<Rightarrow> files \<Rightarrow> files \<Rightarrow> bool" where
  "reserves rest tree tree' \<longleftrightarrow> (\<exists>w ws. rest = w # ws \<and> sg_create w \<and> tree' = tree(sg_path w \<mapsto> []))"

lemma commit_undisturbed:
  assumes "undisturbed sm" and "commit sm w d = (err, d')"
  shows "if err = None then dk_files d' = put w (dk_files d)
         else dk_files d' = dk_files d \<or> reserves (w # ws) (dk_files d) (dk_files d')"
proof -
  have undo: "tree path = None \<Longrightarrow> tree(path \<mapsto> [], path := None) = tree" for tree :: files and path by auto
  have un: "snd (unreserve sm p f (tree(p \<mapsto> []))) = tree \<or> snd (unreserve sm p f (tree(p \<mapsto> []))) = tree(p \<mapsto> [])"
    if "tree p = None" for p f tree
    using assms(1) undo [of tree p, OF that] by (auto simp: unreserve_def undisturbed_def split: option.split)
  from assms(1) have b: "sm_before sm p t = t" for p t by (simp add: undisturbed_def)
  let ?t = "commit_tree sm w (dk_files d)"
  from assms(2) have e: "err = fst ?t" and f: "dk_files d' = snd ?t"
    by (auto simp: commit_def b discard_def Let_def split: prod.splits if_splits)
  have "if fst ?t = None then snd ?t = put w (dk_files d)
        else snd ?t = dk_files d \<or> reserves (w # ws) (dk_files d) (snd ?t)"
    using un by (auto simp: commit_tree_def Let_def put_def reserves_def split: option.split)
  then show ?thesis using e f by simp
qed

lemma commit_all_undisturbed:
  assumes "undisturbed sm"
  shows "commit_all sm ws d = (landed, rest, err, d') \<Longrightarrow>
     \<exists>pre. ws = pre @ rest \<and> landed = map sg_path pre
       \<and> (if err = None then dk_files d' = fold put pre (dk_files d)
          else dk_files d' = fold put pre (dk_files d) \<or> reserves rest (fold put pre (dk_files d)) (dk_files d'))"
proof (induction ws arbitrary: d landed rest err d')
  case (Cons w ws)
  obtain e d1 where c: "commit sm w d = (e, d1)" by fastforce
  obtain l r e2 d2 where r: "commit_all sm ws d1 = (l, r, e2, d2)" by (metis prod_cases4)
  show ?case
  proof (cases e)
    case None
    from Cons.IH [OF r] obtain pre where "ws = pre @ r" "l = map sg_path pre"
      "if e2 = None then dk_files d2 = fold put pre (dk_files d1)
       else dk_files d2 = fold put pre (dk_files d1) \<or> reserves r (fold put pre (dk_files d1)) (dk_files d2)"
      by blast
    with Cons.prems None c r commit_undisturbed [OF assms c] show ?thesis
      by (intro exI [of _ "w # pre"]) (cases err; auto)
  next
    case (Some x)
    with Cons.prems c commit_undisturbed [OF assms c, of ws] show ?thesis by auto
  qed
qed auto

lemma remove_all_undisturbed:
  assumes "undisturbed sm"
  shows "remove_all_files sm ps d = (landed, err, d') \<Longrightarrow>
     dk_files d' = fold (\<lambda>p tree. tree(p := None)) landed (dk_files d)"
proof (induction ps arbitrary: d landed err d')
  case (Cons p ps)
  obtain e d1 where c: "remove_file sm p d = (e, d1)" by fastforce
  then have t: "dk_files d1 = (if e = None then (dk_files d)(p := None) else dk_files d)"
    using assms by (auto simp: remove_file_def undisturbed_def Let_def split: option.splits)
  obtain l e2 d2 where r: "remove_all_files sm ps d1 = (l, e2, d2)" by (metis prod_cases3)
  from Cons.prems Cons.IH [OF r] t c r show ?case by (cases e) auto
qed auto

lemma fold_put_land: "fold put (concat (map staged_of us)) tree = fold land (filter (\<lambda>u. up_content u \<noteq> None) us) tree"
  by (induction us arbitrary: tree) (auto simp: staged_of_def put_def land_def)

lemma fold_land_removals:
  "list_all (\<lambda>u. up_content u = None) us \<Longrightarrow> fold land us tree = fold (\<lambda>p tree. tree(p := None)) (map up_path us) tree"
  by (induction us arbitrary: tree) (auto simp: land_def)

text \<open>The staged form of a list of writes: one to one.\<close>

lemma staged_writes:
  "concat (map staged_of ups) = pre @ rest \<Longrightarrow>
     \<exists>us vs. filter (\<lambda>u. up_content u \<noteq> None) ups = us @ vs \<and> concat (map staged_of us) = pre \<and> concat (map staged_of vs) = rest"
proof (induction ups arbitrary: pre)
  case (Cons u ups)
  show ?case
  proof (cases "up_content u")
    case None
    with Cons show ?thesis by (simp add: staged_of_def)
  next
    case (Some c)
    then obtain w where w: "staged_of u = [w]" by (simp add: staged_of_def)
    show ?thesis
    proof (cases pre)
      case Nil
      have "concat (map staged_of (filter (\<lambda>u. up_content u \<noteq> None) ups)) = concat (map staged_of ups)"
        by (induction ups) (auto simp: staged_of_def)
      with Nil Cons.prems Some w show ?thesis
        by (intro exI [of _ "[]"] exI [of _ "filter (\<lambda>u. up_content u \<noteq> None) (u # ups)"]) simp
    next
      case (Cons w' pre')
      with Cons.prems w have "concat (map staged_of ups) = pre' @ rest" "w' = w" by auto
      with Cons.IH obtain us vs where "filter (\<lambda>u. up_content u \<noteq> None) ups = us @ vs"
        "concat (map staged_of us) = pre'" "concat (map staged_of vs) = rest" by blast
      with Cons Some w \<open>w' = w\<close> show ?thesis by (intro exI [of _ "u # us"] exI [of _ vs]) simp
    qed
  qed
qed simp

definition landed_count :: "apply_result \<Rightarrow> nat" where
  "landed_count r = length (ar_wrote r) + length (ar_deleted r)"

text \<open>A standing reservation: the empty file of an exclusive create whose rename never came.\<close>

definition reservation_of :: "update list \<Rightarrow> files \<Rightarrow> files \<Rightarrow> bool" where
  "reservation_of rest tree tree' \<longleftrightarrow>
     (\<exists>u us. rest = u # us \<and> up_prior_absent u \<and> up_content u \<noteq> None \<and> tree' = tree(up_path u \<mapsto> []))"

lemma reserves_staged:
  "concat (map staged_of vs) = rest \<Longrightarrow> list_all (\<lambda>u. up_content u \<noteq> None) vs \<Longrightarrow> reserves rest tree tree'
     \<Longrightarrow> reservation_of (vs @ ys) tree tree'"
  by (cases vs) (auto simp: reserves_def reservation_of_def staged_of_def)

text \<open>C12: what a batch does to the tree. With no other process writing meanwhile, the tree after an
  apply is the tree before with exactly the reported updates made, in landing order, so the
  whole batch or, after a fault, a reported run of it; beyond that only one thing can be left, the empty
  reservation of the file whose creation failed.\<close>

theorem apply_lands_exact:
  assumes "undisturbed sm"
  shows "let r = apply_batch tbl root sm ups d; k = landed_count r;
             tree = fold land (take k (landing_order ups)) (dk_files d) in
           dk_files (ar_disk r) = tree \<or> reservation_of (drop k (landing_order ups)) tree (dk_files (ar_disk r))"
proof (cases rule: apply_batch_cases [of tbl root sm ups d])
  case (Refused e)
  then show ?thesis by (simp add: refused_def landed_count_def Let_def)
next
  case (Unstaged ws e d1)
  then show ?thesis using stage_all_effect [OF Unstaged(1)] by (simp add: refused_def landed_count_def Let_def)
next
  case (Stopped ws d1 wrote rest e d2)
  from stage_all_effect [OF Stopped(1)] have st: "ws = concat (map staged_of ups)" "dk_files d1 = dk_files d" by auto
  from commit_all_undisturbed [OF assms Stopped(2)] obtain pre where pre: "ws = pre @ rest" "wrote = map sg_path pre"
    and f: "dk_files d2 = fold put pre (dk_files d) \<or> reserves rest (fold put pre (dk_files d)) (dk_files d2)"
    using st(2) by auto
  from staged_writes [of ups pre rest] st(1) pre(1) obtain us vs where
    us: "filter (\<lambda>u. up_content u \<noteq> None) ups = us @ vs" "concat (map staged_of us) = pre" "concat (map staged_of vs) = rest"
    by auto
  have some: "list_all (\<lambda>u. up_content u \<noteq> None) (us @ vs)" unfolding us(1) [symmetric] by (simp add: list_all_iff)
  then have keep: "filter (\<lambda>u. up_content u \<noteq> None) us = us" by (simp add: list_all_iff)
  have wrote: "wrote = map up_path us" using staged_paths [of us] pre(2) us(2) keep by simp
  have tree: "fold put pre (dk_files d) = fold land us (dk_files d)"
    using fold_put_land [of us "dk_files d"] us(2) keep by simp
  have order: "take (length us) (landing_order ups) = us"
    "drop (length us) (landing_order ups) = vs @ filter (\<lambda>u. up_content u = None) ups"
    unfolding landing_order_def us(1) by simp_all
  show ?thesis
    using f reserves_staged [OF us(3)] some
    unfolding Stopped Let_def landed_count_def by (auto simp: wrote order tree)
next
  case (Deleting ws d1 wrote d2 deleted err d3)
  from stage_all_effect [OF Deleting(1)] have st: "ws = concat (map staged_of ups)" "dk_files d1 = dk_files d" by auto
  from commit_all_undisturbed [OF assms Deleting(2)] have co: "wrote = map sg_path ws" "dk_files d2 = fold put ws (dk_files d)"
    using st(2) by auto
  from remove_all_effect [OF Deleting(3)] obtain rest where rm: "removals ups = deleted @ rest" by auto
  let ?ws = "filter (\<lambda>u. up_content u \<noteq> None) ups" and ?ds = "filter (\<lambda>u. up_content u = None) ups"
  have wrote: "wrote = map up_path ?ws" using co(1) unfolding st(1) staged_paths .
  have del: "deleted = map up_path (take (length deleted) ?ds)"
    using rm unfolding removals_def by (metis append_eq_conv_conj take_map)
  have "take (length ?ws + length deleted) (landing_order ups) = ?ws @ take (length deleted) ?ds"
    by (simp add: landing_order_def)
  moreover have "dk_files d3 = fold land (take (length deleted) ?ds) (fold land ?ws (dk_files d))"
  proof -
    have "list_all (\<lambda>u. up_content u = None) (take (length deleted) ?ds)" by (auto simp: list_all_iff dest: in_set_takeD)
    from fold_land_removals [OF this] del show ?thesis
      using remove_all_undisturbed [OF assms Deleting(3)] unfolding co(2) st(1) fold_put_land by simp
  qed
  ultimately show ?thesis unfolding Deleting Let_def landed_count_def by (simp add: wrote)
qed

text \<open>A calm machine: nothing fails and nobody else writes.\<close>

definition calm :: seam where
  "calm = \<lparr>sm_documents = Inr [], sm_exists = (\<lambda>_. True), sm_resolve = Inr, sm_read = (\<lambda>_. None), sm_stage = (\<lambda>_. None),
     sm_reserve = (\<lambda>_. None), sm_stat = (\<lambda>_. None), sm_close = (\<lambda>_. None), sm_rename = (\<lambda>_. None),
     sm_unseen = (\<lambda>_. False), sm_unreserve = (\<lambda>_. None), sm_remove = (\<lambda>_. None),
     sm_before = (\<lambda>_ tree. tree), sm_window = (\<lambda>_. None)\<rparr>"

definition two_updates :: "update list" where
  "two_updates =
     [(delete_at ''.stipulator/gaps/b.textproto'')\<lparr>up_prior := Some ''old''\<rparr>,
      (write_to ''.stipulator/gaps/a.textproto'' ''new'')\<lparr>up_prior_absent := True\<rparr>]"

lemma apply_lands_exact_witness:
  "undisturbed calm \<and>
   (let r = apply_batch (\<lambda>_. False) ''/r'' calm two_updates \<lparr>dk_files = [''.stipulator/gaps/b.textproto'' \<mapsto> ''old''], dk_temps = []\<rparr>;
        k = landed_count r;
        tree = fold land (take k (landing_order two_updates)) [''.stipulator/gaps/b.textproto'' \<mapsto> ''old''] in
    dk_files (ar_disk r) = tree \<or> reservation_of (drop k (landing_order two_updates)) tree (dk_files (ar_disk r)))"
proof
  show q: "undisturbed calm" by (simp add: undisturbed_def calm_def)
  show "let r = apply_batch (\<lambda>_. False) ''/r'' calm two_updates \<lparr>dk_files = [''.stipulator/gaps/b.textproto'' \<mapsto> ''old''], dk_temps = []\<rparr>;
        k = landed_count r;
        tree = fold land (take k (landing_order two_updates)) [''.stipulator/gaps/b.textproto'' \<mapsto> ''old''] in
    dk_files (ar_disk r) = tree \<or> reservation_of (drop k (landing_order two_updates)) tree (dk_files (ar_disk r))"
    using apply_lands_exact [OF q, of "\<lambda>_. False" "''/r''" two_updates
        "\<lparr>dk_files = [''.stipulator/gaps/b.textproto'' \<mapsto> ''old''], dk_temps = []\<rparr>"] by simp
qed

section \<open>A moved target refuses the batch\<close>

definition as_read :: "store \<Rightarrow> files \<Rightarrow> string \<Rightarrow> bool" where
  "as_read st tree p \<longleftrightarrow> tree p = map_of (rev (raw_files st)) p"

definition stamped_by :: "store \<Rightarrow> update \<Rightarrow> bool" where
  "stamped_by st u \<longleftrightarrow> (\<exists>v. up_prior v = None \<and> \<not> up_prior_absent v \<and> u = stamp_prior st v)"

lemma check_prior_stamped: "stamped_by st u \<Longrightarrow> check_prior sm tree u = None \<Longrightarrow> as_read st tree (up_path u)"
proof -
  assume "stamped_by st u" and ok: "check_prior sm tree u = None"
  then obtain v where v: "up_prior v = None" "\<not> up_prior_absent v" "u = stamp_prior st v" by (auto simp: stamped_by_def)
  show ?thesis
    using ok v
    by (cases "map_of (rev (raw_files st)) (up_path v)")
       (auto simp: check_prior_def as_read_def stamp_prior_def split: option.splits if_splits)
qed

lemma first_fault_none: "first_fault f xs = None \<longleftrightarrow> list_all (\<lambda>x. f x = None) xs"
  by (induction xs) (auto split: option.split)

definition untouched :: "apply_result \<Rightarrow> disk \<Rightarrow> bool" where
  "untouched r d \<longleftrightarrow> ar_wrote r = [] \<and> ar_deleted r = [] \<and> ar_error r \<noteq> None \<and> dk_files (ar_disk r) = dk_files d"

lemma moved_untouched:
  assumes "list_all (stamped_by st) ups" and "\<not> list_all (\<lambda>u. as_read st (dk_files d) (up_path u)) ups"
  shows "untouched (apply_batch tbl root sm ups d) d"
proof (cases rule: apply_batch_cases [of tbl root sm ups d])
  case (Refused e)
  then show ?thesis by (simp add: untouched_def refused_def)
next
  case (Unstaged ws e d1)
  then show ?thesis using stage_all_effect [OF Unstaged(1)] by (simp add: untouched_def refused_def)
next
  case (Stopped ws d1 wrote rest e d2)
  then show ?thesis using assms check_prior_stamped by (fastforce simp: first_fault_none list_all_iff)
next
  case (Deleting ws d1 wrote d2 deleted err d3)
  then show ?thesis using assms check_prior_stamped by (fastforce simp: first_fault_none list_all_iff)
qed

lemma fresh_updates [simp]:
  "up_prior (write_to p c) = None" "\<not> up_prior_absent (write_to p c)"
  "up_prior (delete_at p) = None" "\<not> up_prior_absent (delete_at p)"
  by (simp_all add: write_to_def delete_at_def)

lemma gap_over_stamped: "gap_over tbl lt sp st g = Inr d \<Longrightarrow> stamped_by st (de_update d)"
  unfolding stamped_by_def
  by (auto simp: gap_over_def gap_record_def Let_def split: if_splits option.splits prod.splits sum.splits
      intro!: exI [of _ "write_to _ _"])

lemma declare_gaps_stamped:
  assumes "declare_gaps tbl lt corpus (Inr st) rids reason lands excuses = Inr (ups, ns)"
  shows "list_all (stamped_by st) ups"
proof -
  from assms obtain sp ds where "declare_all (\<lambda>rid. gap_over tbl lt sp st (named_gap reason lands excuses rid))
      (lc_has_manual lands \<and> \<not> lc_fired lands) [] rids = Inr ds" and ups: "ups = sort_updates (map de_update (fst ds))"
    by (auto simp: declare_gaps_def split: if_splits sum.splits prod.splits)
  then have "list_all2 (\<lambda>rid d. gap_over tbl lt sp st (named_gap reason lands excuses rid) = Inr d) rids (fst ds)"
    by (cases ds) (auto dest: declare_all_updates)
  then have "stamped_by st (de_update d)" if "d \<in> set (fst ds)" for d
    using that gap_over_stamped by (fastforce simp: list_all2_conv_all_nth in_set_conv_nth)
  then show ?thesis unfolding ups by (auto simp: list_all_iff sort_updates_def)
qed

lemma retract_gaps_stamped:
  assumes "retract_gaps (Inr st) rids = Inr ups"
  shows "list_all (stamped_by st) ups"
proof -
  from assms obtain us where us: "retract_all st [] rids = Inr us" and ups: "ups = stamp_priors st (sort_updates us)"
    by (auto simp: retract_gaps_def split: if_splits sum.splits)
  have "up_prior v = None \<and> \<not> up_prior_absent v" if "v \<in> set us" for v
    using that unfolding retract_all_updates [OF us] by auto
  then show ?thesis unfolding ups stamp_priors_def
    by (auto simp: list_all_iff sort_updates_def stamped_by_def)
qed

text \<open>C13: a batch of gap declarations or of gap retractions clobbers no concurrent write. Such a batch,
  computed over the records a load read, lands nothing at all once any of its targets no
  longer reads as that load read it (changed, vanished or appeared meanwhile), whatever the
  machine answers: the tree stays as it is and the batch is refused.\<close>

theorem moved_target_refused:
  "(case declare_gaps tbl lt corpus (Inr st) rids reason lands excuses of
      Inl _ \<Rightarrow> True
    | Inr (ups, ns) \<Rightarrow> if list_all (\<lambda>u. as_read st (dk_files d) (up_path u)) ups then True
        else untouched (apply_batch tbl root sm ups d) d)
   \<and> (case retract_gaps (Inr st) rids of
      Inl _ \<Rightarrow> True
    | Inr ups \<Rightarrow> if list_all (\<lambda>u. as_read st (dk_files d) (up_path u)) ups then True
        else untouched (apply_batch tbl root sm ups d) d)"
  by (auto split: sum.split intro: moved_untouched declare_gaps_stamped retract_gaps_stamped)

section \<open>Writes are confined\<close>

definition record_path :: "string \<Rightarrow> bool" where
  "record_path p \<longleftrightarrow>
     hd (split_on CHR ''/'' p) = record_home \<and> list_all (\<lambda>s. plain_seg s \<and> s \<noteq> ''..'') (split_on CHR ''/'' p)"

definition document_path :: "seam \<Rightarrow> update \<Rightarrow> bool" where
  "document_path sm u \<longleftrightarrow>
     rewrites_document u \<and> (case sm_documents sm of Inl _ \<Rightarrow> False | Inr docs \<Rightarrow> up_path u \<in> set docs)
     \<and> \<not> has_prefix (up_path u) slash \<and> ''..'' \<notin> set (split_on CHR ''/'' (up_path u))"

definition resolves_inside :: "string \<Rightarrow> seam \<Rightarrow> update \<Rightarrow> bool" where
  "resolves_inside root sm u \<longleftrightarrow>
     (\<exists>real existing target. sm_resolve sm root = Inr real
        \<and> deepest (sm_exists sm) (path_join root (up_path u)) = Some existing \<and> sm_resolve sm existing = Inr target
        \<and> within target (if rewrites_document u \<or> \<not> within existing (path_join root record_home) then real
                         else path_join real record_home))"

lemma local_clean_no_climb:
  assumes "is_local p" and "path_clean p = p"
  shows "''..'' \<notin> set (split_on CHR ''/'' p)"
proof (cases p rule: path_clean_cases)
  case 1
  then have p: "p = ''.''" using assms(2) by simp
  show ?thesis unfolding p by simp
next
  case (2 xs)
  then show ?thesis using assms by (auto simp: is_local_def)
next
  case (3 k ws)
  have "list_all (\<lambda>x. CHR ''/'' \<notin> set x) (replicate k ''..'' @ ws)"
    using 3(3) by (auto simp: list_all_iff plain_seg_def dest: in_set_replicate [THEN iffD1])
  from split_on_join [OF 3(2) this] have segs: "split_on CHR ''/'' p = replicate k ''..'' @ ws"
    using 3(1) assms(2) by simp
  show ?thesis
  proof (cases k)
    case 0
    with segs 3(4) show ?thesis by simp
  next
    case (Suc j)
    have p: "p = join (''..'' # replicate j ''..'' @ ws) slash" using 3(1) assms(2) Suc by simp
    have "p = ''..'' \<or> has_prefix p ''../''"
      unfolding p by (cases "replicate j ''..'' @ ws") simp_all
    moreover have "list_ex (\<lambda>s. s = ''.'' \<or> s = ''..'') (split_on CHR ''/'' p)" unfolding segs Suc by simp
    ultimately show ?thesis using assms by (simp add: is_local_def)
  qed
qed

lemma admit_write_path:
  assumes "admit_write tbl sm (up_path u) (rewrites_document u) = None"
  shows "record_path (up_path u) \<or> document_path sm u"
proof -
  let ?p = "up_path u"
  from assms have loc: "is_local ?p" and cl: "path_clean ?p = ?p"
    and which: "has_prefix ?p (record_home @ slash) \<or>
      rewrites_document u \<and> (case sm_documents sm of Inl _ \<Rightarrow> False | Inr docs \<Rightarrow> ?p \<in> set docs)"
    by (auto simp: admit_write_def split: if_splits sum.splits)
  from which show ?thesis
  proof
    assume "has_prefix ?p (record_home @ slash)"
    then obtain r where r: "?p = record_home @ CHR ''/'' # r" by (auto simp: has_prefix_iff)
    have "split_on CHR ''/'' ?p = record_home # split_on CHR ''/'' r"
      unfolding r by (rule split_on_append) (simp add: record_home_def)
    with clean_path_descends [OF cl this] show ?thesis by (simp add: record_path_def record_home_def)
  next
    assume "rewrites_document u \<and> (case sm_documents sm of Inl _ \<Rightarrow> False | Inr docs \<Rightarrow> ?p \<in> set docs)"
    with loc local_clean_no_climb [OF loc cl] show ?thesis by (simp add: document_path_def is_local_def Let_def)
  qed
qed

lemma run_paths: "map up_path (filter P ups) = ps @ rest \<Longrightarrow> set ps \<subseteq> up_path ` set ups"
  by (drule arg_cong [of _ _ set]) auto

lemma confined_resolves:
  assumes "confined_on_disk tbl root sm (up_path u) (rewrites_document u) = None"
  shows "resolves_inside root sm u"
proof -
  from assms obtain real existing target where
    "sm_resolve sm root = Inr real" "deepest (sm_exists sm) (path_join root (up_path u)) = Some existing"
    "sm_resolve sm existing = Inr target"
    "within target (if rewrites_document u \<or> \<not> within existing (path_join root record_home) then real
                    else path_join real record_home)"
    unfolding confined_on_disk_def Let_def by (auto split: option.splits sum.splits if_splits)
  then show ?thesis unfolding resolves_inside_def by blast
qed

lemma admit_all_each:
  "admit_all tbl root sm seen ups = None \<Longrightarrow> u \<in> set ups \<Longrightarrow>
     admit_write tbl sm (up_path u) (rewrites_document u) = None
     \<and> confined_on_disk tbl root sm (up_path u) (rewrites_document u) = None"
  by (induction ups arbitrary: seen) (auto split: if_splits option.splits)

lemma admit_all_paths:
  assumes "admit_all tbl root sm seen ups = None" and "u \<in> set ups"
  shows "(record_path (up_path u) \<or> document_path sm u) \<and> resolves_inside root sm u"
  using admit_all_each [OF assms] admit_write_path confined_resolves by blast

text \<open>C14: every write is confined. A path an apply reports, written or deleted, is one of the
  batch's, and it is a path of plain names under the record home, or a corpus document the
  update was marked to rewrite that does not climb; and its deepest existing ancestor, symbolic
  links resolved, lies under the resolved root or record home.\<close>

theorem writes_confined:
  "let r = apply_batch tbl root sm ups d in
     list_all (\<lambda>p. \<exists>u. u \<in> set ups \<and> up_path u = p \<and> (record_path p \<or> document_path sm u) \<and> resolves_inside root sm u)
       (ar_wrote r @ ar_deleted r)"
proof (cases rule: apply_batch_cases [of tbl root sm ups d])
  case (Refused e)
  then show ?thesis by (simp add: refused_def)
next
  case (Unstaged ws e d1)
  then show ?thesis by (simp add: refused_def)
next
  case (Stopped ws d1 wrote rest e d2)
  from stage_all_effect [OF Stopped(1)] commit_all_effect [OF Stopped(2)]
  have "map up_path (filter (\<lambda>u. up_content u \<noteq> None) ups) = wrote @ map sg_path rest" using staged_paths [of ups] by simp
  from run_paths [OF this] admit_all_paths [OF Stopped(4)] show ?thesis unfolding Stopped Let_def by (fastforce simp: list_all_iff)
next
  case (Deleting ws d1 wrote d2 deleted err d3)
  from stage_all_effect [OF Deleting(1)] commit_all_effect [OF Deleting(2)]
  have "map up_path (filter (\<lambda>u. up_content u \<noteq> None) ups) = wrote @ []" using staged_paths [of ups] by simp
  from run_paths [OF this] have "set wrote \<subseteq> up_path ` set ups" .
  moreover from remove_all_effect [OF Deleting(3)] have "set deleted \<subseteq> up_path ` set ups"
    unfolding removals_def using run_paths by blast
  ultimately show ?thesis using admit_all_paths [OF Deleting(5)] unfolding Deleting Let_def
    by (fastforce simp: list_all_iff)
qed

end
