(* ===== verification/Check.thy ===== *)
theory Check
  imports Gate Accept
begin

text \<open>
  The unified check, \<open>internal/check\<close>: the preparation from the held inputs
  (\<open>prepare.go\<close>), the verification ladder (\<open>ladder.go\<close>), the scopes, and \<open>Run\<close> (\<open>check.go\<close>),
  which composes compilation, hygiene, verification and coverage into one verdict. What the
  Go backend answers (the captured policy, the backends, a witness run, the static policy
  load) is the record \<open>check_env\<close>; the context is the answer of its n-th poll. The advisory
  messages stay the type \<open>'m\<close>, unread.
\<close>

section \<open>Preparation\<close>

text \<open>A nil message reads as the empty one; a store not loaded is never read.\<close>

definition empty_spec :: spec where
  "empty_spec = \<lparr>spec_requirements = [], spec_terms = [], spec_notes = [], spec_annotations = [],
     spec_edges = [], spec_documents = []\<rparr>"

definition empty_store :: store where
  "empty_store = \<lparr>st_bindings = [], st_gaps = [], st_attestations = [], st_tombstones = [],
     st_tombstones_raw = None, st_allow_whole = False\<rparr>"

record prepared =
  pp_spec :: spec
  pp_diagnostics :: "diagnostic list"
  pp_store :: store
  pp_manifest :: "manifest option"
  pp_policy :: "policy option"
  pp_hygiene :: "problem list"

definition compile_problem :: "diagnostic \<Rightarrow> problem" where
  "compile_problem d =
     Problem (dg_document d @ '':'' @ format_int (dg_line d))
       (if dg_remedy d then ''remedy: '' @ dg_message d else dg_message d)"

definition compile_problems :: "prepared \<Rightarrow> problem list" where
  "compile_problems p = map compile_problem (faults (pp_diagnostics p))"

definition prepare ::
  "string + spec option \<times> diagnostic list \<Rightarrow> string + store \<Rightarrow> string + manifest \<Rightarrow> string + prepared" where
  "prepare compiled loaded mf =
     (case compiled of Inl e \<Rightarrow> Inl e | Inr (spo, ds) \<Rightarrow>
      let sp = (case spo of None \<Rightarrow> empty_spec | Some sp \<Rightarrow> sp) in
      if diag_errors ds \<noteq> []
      then Inr \<lparr>pp_spec = sp, pp_diagnostics = ds, pp_store = empty_store, pp_manifest = None, pp_policy = None, pp_hygiene = []\<rparr>
      else case loaded of Inl e \<Rightarrow> Inl e | Inr st \<Rightarrow>
      case mf of Inl e \<Rightarrow> Inl e | Inr m \<Rightarrow>
      case policy_from_manifest m of Inl e \<Rightarrow> Inl e | Inr pol \<Rightarrow>
      Inr \<lparr>pp_spec = sp, pp_diagnostics = ds, pp_store = st, pp_manifest = Some m, pp_policy = Some pol,
        pp_hygiene = hygiene sp st\<rparr>)"

definition known_ids :: "spec \<Rightarrow> string list \<Rightarrow> string option" where
  "known_ids sp ids =
     (let unknown = filter (\<lambda>i. \<not> known (hashes_of sp) i) ids in
      if unknown = [] then None
      else Some (''unknown requirement identifier(s): '' @ join unknown '', ''
             @ '' (gate view=full lists the corpus'' @ [CHR 39] @ ''s requirement identifiers)''))"

section \<open>Scopes\<close>

type_synonym subject = "string \<times> string"

text \<open>A witness symbol splits at its last dot, where that is not its first byte.\<close>

definition subject_of :: "string \<Rightarrow> subject list" where
  "subject_of s =
     (let pkg = rev (drop 1 (dropWhile (\<lambda>c. c \<noteq> CHR ''.'') (rev s))) in
      if pkg = [] then [] else [(pkg, after_last CHR ''.'' s)])"

definition scope_subjects ::
  "(nat \<Rightarrow> bool) \<Rightarrow> spec \<Rightarrow> store \<Rightarrow> string list \<Rightarrow> string + subject list" where
  "scope_subjects tbl sp st ids =
     (case find (\<lambda>i. \<not> known (hashes_of sp) i) ids of
        Some i \<Rightarrow> Inl (''unknown requirement identifier '' @ quote tbl i @ '' in ids scope'')
      | None \<Rightarrow>
          Inr (concat (map (\<lambda>b. if b_requirement_id b \<in> set ids \<and> tests_or_proves (b_role b)
                                then subject_of (b_symbol b) else []) (store_bindings st))))"

definition gap_ids :: "spec \<Rightarrow> store \<Rightarrow> string list" where
  "gap_ids sp st =
     sort (nub (filter (known (hashes_of sp))
       (concat (map (\<lambda>gf. g_requirement_id (gf_gap gf)
                  # (case g_lands (gf_gap gf) of Some (LC_Covered t) \<Rightarrow> (if t = [] then [] else [t]) | _ \<Rightarrow> []))
          (st_gaps st)))))"

definition gap_scope :: "(nat \<Rightarrow> bool) \<Rightarrow> spec \<Rightarrow> store \<Rightarrow> string + subject list \<times> string list" where
  "gap_scope tbl sp st =
     (case scope_subjects tbl sp st (gap_ids sp st) of Inl e \<Rightarrow> Inl e | Inr scope \<Rightarrow> Inr (scope, gap_ids sp st))"

definition scoped_gate_passes :: "'m coverage_report \<Rightarrow> bool" where
  "scoped_gate_passes cov \<longleftrightarrow>
     list_all (\<lambda>v. v \<in> set (map rr_id (filter rr_scope_blocked (cr_requirements cov)))) (cr_violations cov)"

section \<open>The ladder\<close>

text \<open>A run's counts beside its outcomes; the outcome map as the entries of its walk.\<close>

record 'm run_counts =
  rc_walk :: "(string \<times> test_outcome) list"
  rc_uncached :: int
  rc_ran :: int
  rc_fresh :: int
  rc_degraded :: string
  rc_executed_reasons :: "string \<rightharpoonup> string"
  rc_uncacheable_reasons :: "string \<rightharpoonup> string"
  rc_accounts :: "'m list"

type_synonym 'm witness_run = "'m test_run \<times> 'm run_counts"

type_synonym backends = "(string \<times> backend) list"

record ('r) ladder_deps =
  ld_symbols :: "verr + string list"
  ld_backends :: "string list \<Rightarrow> verr + backends"
  ld_run :: "(backends \<Rightarrow> verr + 'r) option"

definition accounted_err :: "verr \<Rightarrow> string list \<Rightarrow> verr" where
  "accounted_err e ns = (case with_notices (Some e) ns of Some e' \<Rightarrow> e' | None \<Rightarrow> e)"

definition ladder ::
  "('r \<Rightarrow> 'm test_run) \<Rightarrow> spec \<Rightarrow> store \<Rightarrow> bool \<Rightarrow> 'r ladder_deps \<Rightarrow> verr + 'm report \<times> 'r option" where
  "ladder outcomes sp st witnessed d =
     (case ld_symbols d of Inl e \<Rightarrow> Inl e | Inr syms \<Rightarrow>
      case ld_backends d syms of Inl e \<Rightarrow> Inl e | Inr bs \<Rightarrow>
      let account = close_backends bs; rep = resolve sp st (map_of bs) witnessed;
          finish = (\<lambda>tr. (correlate rep st (map_option outcomes tr))\<lparr>rp_resolution_notices := account\<rparr>) in
      case ld_run d of
        None \<Rightarrow> Inr (finish None, None)
      | Some f \<Rightarrow>
          (case f bs of
             Inl e \<Rightarrow> Inl (accounted_err e account)
           | Inr tr \<Rightarrow> Inr (finish (Some tr), Some tr)))"

section \<open>The check\<close>

record 'm execution_report =
  xr_dispositions :: "health list"
  xr_diagnostics :: "'m list"
  xr_timing :: "'m option"

definition suite_healthy :: "'m execution_report option \<Rightarrow> bool" where
  "suite_healthy rep =
     (case rep of None \<Rightarrow> False
      | Some r \<Rightarrow> xr_dispositions r \<noteq> [] \<and> list_all (\<lambda>h. h = HEALTH_HEALTHY) (xr_dispositions r))"

record 'm check_result =
  ck_passed :: bool
  ck_compile_problems :: "problem list"
  ck_policy_problem :: "problem option"
  ck_policy_notices :: "string list"
  ck_resolution_notices :: "string list"
  ck_execution :: "'m execution_report option"
  ck_health_judged :: bool
  ck_scope_partial :: bool
  ck_scope_ids :: "string list"
  ck_executed :: "32 word"
  ck_served :: "32 word"
  ck_outside :: "32 word"
  ck_uncacheable :: "32 word"
  ck_selection_problem :: string
  ck_executed_reasons :: "string \<rightharpoonup> string"
  ck_uncacheable_reasons :: "string \<rightharpoonup> string"
  ck_degraded :: string
  ck_accounts :: "'m list"
  ck_diagnostics :: "'m list"
  ck_timing :: "'m option"
  ck_cache_load :: "'m option"
  ck_verify :: "'m report option"
  ck_coverage :: "'m coverage_report option"
  ck_residue :: "string list"

definition empty_result :: "'m check_result" where
  "empty_result = \<lparr>ck_passed = False, ck_compile_problems = [], ck_policy_problem = None, ck_policy_notices = [],
     ck_resolution_notices = [], ck_execution = None, ck_health_judged = False, ck_scope_partial = False,
     ck_scope_ids = [], ck_executed = 0, ck_served = 0, ck_outside = 0, ck_uncacheable = 0,
     ck_selection_problem = [], ck_executed_reasons = Map.empty, ck_uncacheable_reasons = Map.empty,
     ck_degraded = [], ck_accounts = [], ck_diagnostics = [], ck_timing = None, ck_cache_load = None,
     ck_verify = None, ck_coverage = None, ck_residue = []\<rparr>"

record ('c, 'm) check_env =
  ce_static :: "verr option"
  ce_capture :: "verr + 'c"
  ce_configure :: "'c \<Rightarrow> bool \<Rightarrow> subject list option \<Rightarrow> verr + 'c"
  ce_notices :: "'c \<Rightarrow> string list"
  ce_symbols :: "'c \<Rightarrow> verr + string list"
  ce_backends :: "string list \<Rightarrow> verr + backends"
  ce_execute :: "'c \<Rightarrow> backends \<Rightarrow> verr + 'm execution_report option \<times> 'm witness_run"
  ce_serve :: "'c \<Rightarrow> subject list option \<Rightarrow> backends \<Rightarrow> verr + 'm witness_run"

fun err_text :: "verr \<Rightarrow> string" where
  "err_text (Plain m) = m"
| "err_text (Wrapped m e) = m"
| "err_text (Accounted e ns) = err_text e"
| "err_text (Recorded e) = err_text e"

fun is_record_fault :: "verr \<Rightarrow> bool" where
  "is_record_fault (Plain m) = False"
| "is_record_fault (Wrapped m e) = is_record_fault e"
| "is_record_fault (Accounted e ns) = is_record_fault e"
| "is_record_fault (Recorded e) = True"

definition policy_path :: string where
  "policy_path = ''.stipulator/policy.textproto''"

definition record_problem :: "verr \<Rightarrow> 'm check_result \<Rightarrow> verr + 'm check_result" where
  "record_problem e res =
     (let res1 = (if notices_of (Some e) = [] then res else res\<lparr>ck_resolution_notices := notices_of (Some e)\<rparr>) in
      if \<not> is_record_fault e then Inl e
      else Inr (res1\<lparr>ck_policy_problem := Some (Problem policy_path (err_text e))\<rparr>))"

text \<open>The wire form of the composed reports drops the advisory rows the result itself carries.\<close>

definition verify_section :: "'m report \<Rightarrow> 'm report" where
  "verify_section vr = vr\<lparr>rp_diagnostics := [], rp_cache_load := None, rp_timing := None\<rparr>"

definition residue_of :: "'m coverage_report \<Rightarrow> string list" where
  "residue_of cov = map gr_path (filter (\<lambda>g. gr_state g = Gap_Resolved) (cr_gaps cov))"

definition conclude ::
  "(nat \<Rightarrow> bool) \<Rightarrow> prepared \<Rightarrow> bool \<Rightarrow> string list \<Rightarrow> 'm report \<Rightarrow> bool \<Rightarrow> 'm execution_report option
     \<Rightarrow> 'm check_result \<Rightarrow> 'm check_result" where
  "conclude tbl p full ids vr witnessed rep res =
     (let cov = evaluate tbl (pp_spec p) vr (pp_store p) witnessed (pp_policy p);
          residue = (if ids = [] \<and> witnessed then residue_of cov else []);
          observed_red = (ck_diagnostics res \<noteq> [] \<or> (case rep of None \<Rightarrow> False | Some r \<Rightarrow> xr_diagnostics r \<noteq> []))
      in res\<lparr>ck_verify := Some (verify_section vr), ck_coverage := Some (cov\<lparr>cr_cache_load := None\<rparr>),
             ck_residue := residue,
             ck_passed := (rp_problems vr = [] \<and> ck_policy_problem res = None
               \<and> (if full then suite_healthy rep else True) \<and> \<not> observed_red
               \<and> (if ids = [] then gate_passes cov else scoped_gate_passes cov) \<and> residue = [])\<rparr>)"

definition selection_problem :: "'m witness_run \<Rightarrow> string" where
  "selection_problem wr =
     (let tr = fst wr; rc = snd wr in
      if rc_fresh rc = 0 \<and> granted (rc_walk rc) = 0 \<and> 0 < tr_outside_policy tr
      then ''the witness-eligible selection covered no expected witness: '' @ format_int (tr_outside_policy tr)
         @ '' expected witnesses are outside it - witness evidence derives only from race: true invocations or explicit plain_witness: true admissions''
      else [])"

definition timed :: "'m witness_run \<Rightarrow> 'm execution_report option \<Rightarrow> 'm execution_report option" where
  "timed wr rep =
     (case rep of None \<Rightarrow> None
      | Some r \<Rightarrow> Some (if xr_timing r = None then r\<lparr>xr_timing := tr_timing (fst wr)\<rparr> else r))"

definition run_fields ::
  "bool \<Rightarrow> string list \<Rightarrow> bool \<Rightarrow> 'm execution_report option \<Rightarrow> 'm witness_run \<Rightarrow> 'm check_result \<Rightarrow> 'm check_result" where
  "run_fields full ids scoped rep wr res =
     (let tr = fst wr; rc = snd wr;
          res1 = (if full then res\<lparr>ck_execution := timed wr rep, ck_health_judged := True\<rparr>
                  else let res0 = (if scoped then res\<lparr>ck_scope_partial := True, ck_scope_ids := ids\<rparr> else res) in
                    res0\<lparr>ck_served := word_of_int (rc_fresh rc), ck_diagnostics := tr_diagnostics tr, ck_timing := tr_timing tr\<rparr>)
      in res1\<lparr>ck_executed := word_of_int (rc_ran rc), ck_cache_load := tr_cache_load tr,
             ck_outside := word_of_int (tr_outside_policy tr), ck_accounts := rc_accounts rc,
             ck_selection_problem := selection_problem wr, ck_uncacheable := word_of_int (rc_uncached rc),
             ck_uncacheable_reasons := rc_uncacheable_reasons rc, ck_executed_reasons := rc_executed_reasons rc,
             ck_degraded := rc_degraded rc\<rparr>)"

definition check_witnessed ::
  "(nat \<Rightarrow> bool) \<Rightarrow> ('c, 'm) check_env \<Rightarrow> prepared \<Rightarrow> bool \<Rightarrow> string list \<Rightarrow> subject list option
     \<Rightarrow> verr + 'm check_result" where
  "check_witnessed tbl env p full ids scope =
     (case ce_capture env of Inl e \<Rightarrow> record_problem e empty_result | Inr pc0 \<Rightarrow>
      case ce_configure env pc0 full scope of Inl e \<Rightarrow> Inl e | Inr pc \<Rightarrow>
      let res = empty_result\<lparr>ck_policy_notices := ce_notices env pc\<rparr>;
          serve = (\<lambda>bs. case ce_serve env pc scope bs of Inl e \<Rightarrow> Inl e | Inr wr \<Rightarrow> Inr (None, wr)) in
      case ladder (fst \<circ> snd) (pp_spec p) (pp_store p) True
             \<lparr>ld_symbols = ce_symbols env pc, ld_backends = ce_backends env,
              ld_run = Some (if full then ce_execute env pc else serve)\<rparr> of
        Inl e \<Rightarrow> record_problem e res
      | Inr (vr, None) \<Rightarrow> Inr res
      | Inr (vr, Some (rep, wr)) \<Rightarrow>
          Inr (conclude tbl p full ids vr True (timed wr rep)
                 (run_fields full ids (scope \<noteq> None) rep wr (res\<lparr>ck_resolution_notices := rp_resolution_notices vr\<rparr>))))"

text \<open>The witness-free form, under records that fail hygiene: no capture, no child process.\<close>

definition check_records ::
  "(nat \<Rightarrow> bool) \<Rightarrow> verr option \<Rightarrow> prepared \<Rightarrow> bool \<Rightarrow> string list \<Rightarrow> verr + 'm check_result" where
  "check_records tbl static p full ids =
     (let vr = run (pp_spec p) (pp_store p) Map.empty None in
      case static of
        None \<Rightarrow> Inr (conclude tbl p full ids vr False None empty_result)
      | Some e \<Rightarrow>
          if is_record_fault e
          then Inr (conclude tbl p full ids vr False None
                 (empty_result\<lparr>ck_policy_problem := Some (Problem policy_path (err_text e))\<rparr>))
          else Inl e)"

definition compact :: "string list \<Rightarrow> string list" where
  "compact ids = remdups_adj (sort ids)"

definition check ::
  "(nat \<Rightarrow> bool) \<Rightarrow> (nat \<Rightarrow> string option) \<Rightarrow> ('c, 'm) check_env \<Rightarrow> string + prepared \<Rightarrow> bool \<Rightarrow> string list
     \<Rightarrow> verr + 'm check_result" where
  "check tbl ctx env prep full ids =
     (case ctx 0 of Some e \<Rightarrow> Inl (Plain e) | None \<Rightarrow>
      if full \<and> ids \<noteq> [] then Inl (Plain ''ids scoping composes with the default witness-evidence class only - suite judgment executes the whole policy by definition'')
      else case prep of Inl e \<Rightarrow> Inl (Plain e) | Inr p \<Rightarrow>
      case ctx 1 of Some e \<Rightarrow> Inl (Plain e) | None \<Rightarrow>
      if compile_problems p \<noteq> [] then Inr (empty_result\<lparr>ck_compile_problems := compile_problems p\<rparr>)
      else case (if ids = [] then Inr None else map_sum id Some (scope_subjects tbl (pp_spec p) (pp_store p) (compact ids))) of
        Inl e \<Rightarrow> Inl (Plain e)
      | Inr scope \<Rightarrow>
          if pp_hygiene p = [] then check_witnessed tbl env p full (compact ids) scope
          else check_records tbl (ce_static env) p full (compact ids))"


section \<open>The verdict\<close>

text \<open>The terms of the verdict, read off the result a consumer holds.\<close>

definition verdict_terms :: "bool \<Rightarrow> bool \<Rightarrow> 'm check_result \<Rightarrow> bool" where
  "verdict_terms full scoped res \<longleftrightarrow>
     ck_compile_problems res = [] \<and> ck_policy_problem res = None
     \<and> (case ck_verify res of None \<Rightarrow> False | Some vr \<Rightarrow> rp_problems vr = [])
     \<and> (case ck_coverage res of None \<Rightarrow> False
         | Some cov \<Rightarrow> if scoped then scoped_gate_passes cov else gate_passes cov)
     \<and> (if full then suite_healthy (ck_execution res) else True)
     \<and> ck_diagnostics res = [] \<and> (case ck_execution res of None \<Rightarrow> True | Some r \<Rightarrow> xr_diagnostics r = [])
     \<and> ck_residue res = []"

lemma compact_nil [simp]: "compact ids = [] \<longleftrightarrow> ids = []"
  by (simp add: compact_def) (metis length_0_conv length_sort)

lemma compact_empty [simp]: "compact [] = []"
  by (simp add: compact_def)

lemma record_problem_result:
  "record_problem e res0 = Inr res \<Longrightarrow> \<not> ck_passed res0 \<Longrightarrow> ck_verify res0 = None \<Longrightarrow>
     \<not> ck_passed res \<and> ck_policy_problem res \<noteq> None \<and> ck_verify res = None"
  by (auto simp: record_problem_def Let_def split: if_splits)

lemma conclude_verdict:
  assumes "ck_compile_problems res = []" and "ck_execution res = rep"
  shows "ck_passed (conclude tbl p full ids vr w rep res) \<longleftrightarrow>
     verdict_terms full (ids \<noteq> []) (conclude tbl p full ids vr w rep res)"
  using assms
  by (auto simp: conclude_def verdict_terms_def Let_def verify_section_def gate_passes_def scoped_gate_passes_def
      split: option.split)

lemma run_fields_kept [simp]:
  "ck_compile_problems (run_fields full ids scoped rep wr res) = ck_compile_problems res"
  "ck_policy_problem (run_fields full ids scoped rep wr res) = ck_policy_problem res"
  "ck_execution (run_fields full ids scoped rep wr res) = (if full then timed wr rep else ck_execution res)"
  by (simp_all add: run_fields_def Let_def)

lemma empty_result_fields [simp]:
  "\<not> ck_passed empty_result" "ck_compile_problems empty_result = []" "ck_policy_problem empty_result = None"
  "ck_execution empty_result = None" "ck_verify empty_result = None" "ck_coverage empty_result = None"
  "ck_diagnostics empty_result = []"
  by (simp_all add: empty_result_def)

text \<open>What a witnessed pass concludes from.\<close>

lemma check_witnessed_result:
  fixes res :: "'m check_result"
  assumes "check_witnessed tbl env p full ids scope = Inr res"
  obtains (Policy) "ck_policy_problem res \<noteq> None" "\<not> ck_passed res" "ck_verify res = None"
  | (Judged) vr rep and wr :: "'m witness_run" and res0 bs where "vr = (correlate (resolve (pp_spec p) (pp_store p) (map_of bs) True) (pp_store p) (Some (fst wr)))
        \<lparr>rp_resolution_notices := close_backends bs\<rparr>"
      "res = conclude tbl p full ids vr True rep res0" "ck_compile_problems res0 = []" "ck_execution res0 = rep"
      "ck_policy_problem res0 = None"
proof -
  show thesis
  proof (cases "ce_capture env")
    case (Inl e)
    with assms have "record_problem e empty_result = Inr res" by (simp add: check_witnessed_def)
    from record_problem_result [OF this] show thesis using Policy by simp
  next
    case cap: (Inr pc0)
    show thesis
    proof (cases "ce_configure env pc0 full scope")
      case (Inl e)
      with assms cap show thesis by (simp add: check_witnessed_def)
    next
      case con: (Inr pc)
      let ?res = "empty_result\<lparr>ck_policy_notices := ce_notices env pc\<rparr>"
      let ?serve = "\<lambda>bs. case ce_serve env pc scope bs of Inl e \<Rightarrow> Inl e | Inr x \<Rightarrow> Inr (None, x)"
      let ?f = "if full then ce_execute env pc else ?serve"
      let ?L = "ladder (fst \<circ> snd) (pp_spec p) (pp_store p) True
             \<lparr>ld_symbols = ce_symbols env pc, ld_backends = ce_backends env, ld_run = Some ?f\<rparr>"
      note unfold = check_witnessed_def cap con Let_def
      show thesis
      proof (cases ?L)
        case (Inl e)
        with assms have "record_problem e ?res = Inr res" by (simp add: unfold)
        from record_problem_result [OF this] show thesis using Policy by simp
      next
        case (Inr out)
        then obtain bs rep wr where f: "?f bs = Inr (rep, wr)" and out: "out =
            ((correlate (resolve (pp_spec p) (pp_store p) (map_of bs) True) (pp_store p) (Some (fst wr)))
               \<lparr>rp_resolution_notices := close_backends bs\<rparr>, Some (rep, wr))"
          by (auto simp: ladder_def Let_def split: sum.splits)
        have rep: "\<not> full \<Longrightarrow> rep = None" using f by (auto split: sum.splits)
        have ex: "timed wr None = None" by (simp add: timed_def)
        let ?vr = "fst out"
        let ?res0 = "run_fields full ids (scope \<noteq> None) rep wr (?res\<lparr>ck_resolution_notices := rp_resolution_notices ?vr\<rparr>)"
        have "res = conclude tbl p full ids ?vr True (timed wr rep) ?res0"
          using assms Inr out by (simp add: unfold)
        moreover have "ck_execution ?res0 = timed wr rep" using rep ex by (cases full) simp_all
        ultimately show thesis using Judged [of ?vr bs wr "timed wr rep" ?res0] out by simp
      qed
    qed
  qed
qed

lemma check_records_result:
  assumes "check_records tbl static p full ids = Inr res"
  obtains res0 where "res = conclude tbl p full ids (run (pp_spec p) (pp_store p) Map.empty None) False None res0"
    "ck_compile_problems res0 = []" "ck_execution res0 = None" "(ck_policy_problem res0 = None) = (static = None)"
  using assms by (auto simp: check_records_def Let_def split: option.splits if_splits)

lemma check_result_cases:
  assumes "check tbl ctx env prep full ids = Inr res"
  obtains (Uncompiled) p where "prep = Inr p" "compile_problems p \<noteq> []"
      "res = empty_result\<lparr>ck_compile_problems := compile_problems p\<rparr>"
  | (Witnessed) p scope where "prep = Inr p" "compile_problems p = []" "pp_hygiene p = []"
      "check_witnessed tbl env p full (compact ids) scope = Inr res"
  | (Unhygienic) p where "prep = Inr p" "compile_problems p = []" "pp_hygiene p \<noteq> []"
      "check_records tbl (ce_static env) p full (compact ids) = Inr res"
  using assms by (auto simp: check_def split: option.splits sum.splits if_splits)

text \<open>C2: the one verdict. A check passes exactly when, of the result it returns, there are no
  compile problems, no policy problem and no verification problem, the coverage gate passes
  (for a scoped check: but for requirements blocked on the scope boundary alone), the suite is
  healthy where health was asked for, no failure was observed, and no resolved gap is left.\<close>

theorem check_verdict_exact:
  "case check tbl ctx env prep full ids of
     Inl _ \<Rightarrow> True
   | Inr res \<Rightarrow> ck_passed res \<longleftrightarrow> verdict_terms full (ids \<noteq> []) res"
proof (cases "check tbl ctx env prep full ids")
  case (Inr res)
  have "ck_passed res \<longleftrightarrow> verdict_terms full (ids \<noteq> []) res"
    using Inr
  proof (cases rule: check_result_cases)
    case (Uncompiled p)
    then show ?thesis by (simp add: verdict_terms_def)
  next
    case (Witnessed p scope)
    from Witnessed(4) show ?thesis
    proof (cases rule: check_witnessed_result)
      case Policy
      then show ?thesis by (auto simp: verdict_terms_def)
    next
      case (Judged vr rep wr res0 bs)
      from conclude_verdict [OF Judged(3,4)] show ?thesis unfolding Judged(2) by simp
    qed
  next
    case (Unhygienic p)
    from Unhygienic(4) obtain res0 where r: "res = conclude tbl p full (compact ids) (run (pp_spec p) (pp_store p) Map.empty None) False None res0"
      "ck_compile_problems res0 = []" "ck_execution res0 = None" by (rule check_records_result)
    from conclude_verdict [OF r(2,3)] show ?thesis unfolding r(1) by simp
  qed
  with Inr show ?thesis by simp
qed simp


lemma check_records_fails:
  fixes res :: "'m check_result"
  assumes "check_records tbl static p full ids = Inr res" and "hygiene (pp_spec p) (pp_store p) \<noteq> []"
  shows "\<not> ck_passed res"
proof -
  let ?vr = "run (pp_spec p) (pp_store p) Map.empty None :: 'm report"
  from assms(1) obtain res0 where r: "res = conclude tbl p full ids ?vr False None res0" by (rule check_records_result)
  have "rp_problems ?vr \<noteq> []"
    using assms(2) by (simp add: run_def correlate_def resolve_bare_problems)
  then show ?thesis unfolding r by (simp add: conclude_def Let_def)
qed

section \<open>What a passing check means\<close>

lemma faults_nil: "map compile_problem (faults ds) = [] \<longleftrightarrow> diag_errors ds = []"
  by (auto simp: faults_def diag_errors_def filter_empty_conv)

lemma verify_section_bucket [simp]:
  "final_bucket sp (verify_section vr) st w pol r = final_bucket sp vr st w pol r"
  "excused_requirement sp (verify_section vr) st r b = excused_requirement sp vr st r b"
  by (simp_all add: final_bucket_def gather_def bound_ids_def excused_requirement_def stale_fact_def verify_section_def)

definition passing_tree :: "(nat \<Rightarrow> bool) \<Rightarrow> spec \<Rightarrow> store \<Rightarrow> 'm report \<Rightarrow> policy \<Rightarrow> bool" where
  "passing_tree tbl sp st vr pol \<longleftrightarrow>
     records_ok sp st \<and> rp_problems vr = []
     \<and> list_all (\<lambda>r. let b = final_bucket sp vr st True (Some pol) r in
          red b = (red b \<and> excused_requirement sp vr st r b)) (spec_requirements sp)
     \<and> list_all (\<lambda>gf. gr_state (gap_report_row (buckets_of (judged tbl sp vr st True (Some pol))) (hashes_of sp) gf) \<noteq> Gap_Resolved)
         (st_gaps st)"

lemma verify_section_buckets [simp]:
  "buckets_of (judged tbl sp (verify_section vr) st w pol) = buckets_of (judged tbl sp vr st w pol)"
  by (simp add: judged_def gather_def verify_section_def)

lemma conclude_passes:
  assumes "ck_passed (conclude tbl p full [] vr True rep res)" and "distinct (map req_id (spec_requirements (pp_spec p)))"
    and "pp_policy p = Some pol" and "pp_hygiene p = []" and "pp_hygiene p = hygiene (pp_spec p) (pp_store p)"
  shows "passing_tree tbl (pp_spec p) (pp_store p) (verify_section vr) pol"
proof -
  let ?cov = "evaluate tbl (pp_spec p) vr (pp_store p) True (Some pol)"
  from assms(1,3) have c: "rp_problems vr = []" "gate_passes ?cov" "residue_of ?cov = []"
    by (auto simp: conclude_def Let_def split: if_splits)
  from gate_violations [OF assms(2)] c(2)
  have "\<forall>r\<in>set (spec_requirements (pp_spec p)). red (final_bucket (pp_spec p) vr (pp_store p) True (Some pol) r) \<longrightarrow>
      excused_requirement (pp_spec p) vr (pp_store p) r (final_bucket (pp_spec p) vr (pp_store p) True (Some pol) r)"
    by blast
  then have red: "list_all (\<lambda>r. let b = final_bucket (pp_spec p) vr (pp_store p) True (Some pol) r in
      red b = (red b \<and> excused_requirement (pp_spec p) vr (pp_store p) r b)) (spec_requirements (pp_spec p))"
    unfolding Let_def list_all_iff by blast
  have res: "list_all (\<lambda>gf. gr_state (gap_report_row (buckets_of (judged tbl (pp_spec p) vr (pp_store p) True (Some pol)))
      (hashes_of (pp_spec p)) gf) \<noteq> Gap_Resolved) (st_gaps (pp_store p))"
    using c(3) by (auto simp: residue_of_def evaluate_def Let_def filter_empty_conv list_all_iff)
  have "records_ok (pp_spec p) (pp_store p)" using assms(4,5) by (simp add: hygiene_records)
  with c(1) red res show ?thesis
    by (simp only: passing_tree_def verify_section_bucket verify_section_buckets) (simp add: verify_section_def)
qed

text \<open>C1: a passing check means what it says, end to end. If a whole-tree check, default or full, over
  the compilation and the loaded records passes, then the corpus compiled: every document
  reads, and the corpus is clean; the records are well-formed against it; the verification report has no
  problem; every requirement the policy leaves red, by the evidence gathered in this very
  run, is excused by a live gap; and no gap that has resolved is still recorded.\<close>

theorem check_pass_sound:
  "case check tbl ctx env (prepare (compile tx (Inr lint) (Inr ps) (Inr rs) rd extract) loaded mf) full [] of
     Inl _ \<Rightarrow> True
   | Inr res \<Rightarrow> if \<not> ck_passed res then True else
       \<exists>sp ds st m pol vr. compile tx (Inr lint) (Inr ps) (Inr rs) rd extract = Inr (Some sp, ds)
         \<and> loaded = Inr st \<and> mf = Inr m \<and> policy_from_manifest m = Inr pol \<and> ck_verify res = Some vr
         \<and> list_all (sound_read rd extract) ps
         \<and> clean_corpus (tx_lower tx) (lowered tx rs) (map (extracted rd extract) ps)
         \<and> passing_tree tbl sp st vr pol"
proof (cases "check tbl ctx env (prepare (compile tx (Inr lint) (Inr ps) (Inr rs) rd extract) loaded mf) full []")
  case (Inr res)
  let ?C = "compile tx (Inr lint) (Inr ps) (Inr rs) rd extract"
  have "\<exists>sp ds st m pol vr. ?C = Inr (Some sp, ds) \<and> loaded = Inr st \<and> mf = Inr m \<and> policy_from_manifest m = Inr pol
      \<and> ck_verify res = Some vr \<and> list_all (sound_read rd extract) ps
      \<and> clean_corpus (tx_lower tx) (lowered tx rs) (map (extracted rd extract) ps) \<and> passing_tree tbl sp st vr pol"
    if pass: "ck_passed res"
    using Inr
  proof (cases rule: check_result_cases)
    case (Uncompiled p)
    with pass show ?thesis by simp
  next
    case (Unhygienic p)
    from check_records_fails [OF Unhygienic(4)] pass have "hygiene (pp_spec p) (pp_store p) = []" by blast
    moreover have "pp_hygiene p = [] \<or> pp_hygiene p = hygiene (pp_spec p) (pp_store p)"
      using Unhygienic(1) by (auto simp: prepare_def Let_def split: sum.splits if_splits)
    ultimately show ?thesis using Unhygienic(3) by simp
  next
    case (Witnessed p scope)
    from Witnessed(2) have noerr: "diag_errors (pp_diagnostics p) = []" unfolding compile_problems_def faults_nil .
    from Witnessed(1) noerr obtain spo ds st m pol where C: "?C = Inr (spo, ds)" and l: "loaded = Inr st" "mf = Inr m"
      "policy_from_manifest m = Inr pol" and ds: "diag_errors ds = []"
      and p: "p = \<lparr>pp_spec = (case spo of None \<Rightarrow> empty_spec | Some sp \<Rightarrow> sp), pp_diagnostics = ds, pp_store = st,
        pp_manifest = Some m, pp_policy = Some pol,
        pp_hygiene = hygiene (case spo of None \<Rightarrow> empty_spec | Some sp \<Rightarrow> sp) st\<rparr>"
      by (auto simp: prepare_def Let_def split: sum.splits if_splits)
    obtain sp where spo: "spo = Some sp"
      using C ds by (auto simp: compile_def Let_def split: sum.splits prod.splits if_splits)
    with C have comp: "?C = Inr (Some sp, ds)" by simp
    then have ok: "list_all (sound_read rd extract) ps"
      "clean_corpus (tx_lower tx) (lowered tx rs) (map (extracted rd extract) ps)"
      "sp = fst (resolve_docs tx (lowered tx rs) (map (extracted rd extract) ps))"
      unfolding compile_accepted_iff by auto
    from accepted_kept [OF ok(2)] have dist: "distinct (map req_id (spec_requirements sp))"
      unfolding ok(3) [symmetric] by (simp add: corpus_kept_def Let_def)
    from Witnessed(4) show ?thesis
    proof (cases rule: check_witnessed_result)
      case Policy
      with pass show ?thesis by simp
    next
      case (Judged vr rep wr res0 bs)
      have "passing_tree tbl sp st (verify_section vr) pol"
        using conclude_passes [of tbl p full vr rep res0 pol] pass Judged(2) dist Witnessed(3) by (simp add: p spo)
      moreover have "ck_verify res = Some (verify_section vr)" by (simp add: Judged(2) conclude_def Let_def)
      ultimately show ?thesis using comp l ok(1,2) by blast
    qed
  qed
  with Inr show ?thesis by auto
qed simp


section \<open>Decided before any child process\<close>

lemma prepared_hygiene:
  "prepare compiled loaded mf = Inr p \<Longrightarrow> pp_hygiene p = [] \<or> pp_hygiene p = hygiene (pp_spec p) (pp_store p)"
  by (auto simp: prepare_def Let_def split: sum.splits if_splits)

definition held_inputs_decide :: "string + prepared \<Rightarrow> bool" where
  "held_inputs_decide prep \<longleftrightarrow>
     (case prep of Inl _ \<Rightarrow> True | Inr p \<Rightarrow> compile_problems p \<noteq> [] \<or> pp_hygiene p \<noteq> [])"

text \<open>C15: refusals come before any child process. When the preparation fails, the corpus does not
  compile, or the records fail hygiene, the check is the same whatever the policy capture, the
  backends and a witness run would have answered: all it reads of the outside is the static
  load of the policy record. And then it never passes.\<close>

theorem check_without_children:
  "if held_inputs_decide (prepare compiled loaded mf)
   then check tbl ctx env (prepare compiled loaded mf) full ids
          = check tbl ctx (env'\<lparr>ce_static := ce_static env\<rparr>) (prepare compiled loaded mf) full ids
     \<and> (case check tbl ctx env (prepare compiled loaded mf) full ids of Inl _ \<Rightarrow> True | Inr res \<Rightarrow> \<not> ck_passed res)
   else True"
proof (cases "prepare compiled loaded mf")
  case (Inr p)
  note hyg = prepared_hygiene [OF Inr]
  have same: "check tbl ctx env (Inr p) full ids = check tbl ctx (env'\<lparr>ce_static := ce_static env\<rparr>) (Inr p) full ids"
    if "held_inputs_decide (Inr p)"
    using that unfolding held_inputs_decide_def check_def
    by (cases "compile_problems p = []"; cases "ctx 0"; cases "ctx 1") (auto split: sum.split)
  have fails: "\<not> ck_passed res" if h: "held_inputs_decide (Inr p)" and r: "check tbl ctx env (Inr p) full ids = Inr res" for res
    using r
  proof (cases rule: check_result_cases)
    case (Unhygienic q)
    with hyg check_records_fails [OF Unhygienic(4)] show ?thesis by auto
  qed (use h in \<open>auto simp: held_inputs_decide_def\<close>)
  show ?thesis using same fails unfolding Inr by (auto split: sum.split)
qed (auto simp: check_def split: option.split)

text \<open>The witness-free form. Under records that fail hygiene the check still renders the whole
  judgment from the records: its verification section holds exactly the hygiene's problems, its
  coverage section is the evaluation without a witness, nothing executed or was served, and a
  fault of the policy record is reported beside both sections; only an operational fault of
  that read is an error.\<close>

theorem check_records_exact:
  "case check_records tbl static p full ids :: verr + 'm check_result of
     Inl e \<Rightarrow> static = Some e \<and> \<not> is_record_fault e
   | Inr res \<Rightarrow>
       (ck_policy_problem res = None) = (static = None)
       \<and> (case ck_verify res of None \<Rightarrow> False | Some vr \<Rightarrow> rp_problems vr = hygiene (pp_spec p) (pp_store p))
       \<and> (case ck_coverage res of None \<Rightarrow> False | Some cov \<Rightarrow>
            cr_violations cov = cr_violations (evaluate tbl (pp_spec p)
              (run (pp_spec p) (pp_store p) Map.empty None :: 'm report) (pp_store p) False (pp_policy p)))
       \<and> ck_executed res = 0 \<and> ck_served res = 0 \<and> ck_execution res = None \<and> ck_residue res = []"
proof -
  have res: "rp_problems (verify_section (run (pp_spec p) (pp_store p) Map.empty None)) = hygiene (pp_spec p) (pp_store p)"
    by (simp add: verify_section_def run_def correlate_def resolve_bare_problems)
  show ?thesis
    by (auto simp: check_records_def Let_def conclude_def res empty_result_def split: option.split)
qed

section \<open>The scope of a gap evaluation\<close>

lemma nub_set: "set (nub xs) = set xs" and nub_distinct: "distinct (nub xs)"
  by (induction xs) auto

definition gap_targets :: "gap \<Rightarrow> string set" where
  "gap_targets g =
     insert (g_requirement_id g) (case g_lands g of Some (LC_Covered t) \<Rightarrow> {t} - {[]} | _ \<Rightarrow> {})"

text \<open>A gap evaluation is scoped to exactly what it reads. The derivation never refuses; its
  identifiers are, each once and in order, the corpus requirements some gap names or waits on; its
  subjects are exactly the split symbols of their tests and proves bindings.\<close>

theorem gap_scope_exact:
  "case gap_scope tbl sp st of
     Inl _ \<Rightarrow> False
   | Inr (scope, ids) \<Rightarrow>
       sorted ids \<and> distinct ids
       \<and> set ids = {i. known (hashes_of sp) i \<and> (\<exists>gf\<in>set (st_gaps st). i \<in> gap_targets (gf_gap gf))}
       \<and> set scope = (\<Union>b\<in>{b \<in> set (store_bindings st). b_requirement_id b \<in> set ids \<and> tests_or_proves (b_role b)}.
           set (subject_of (b_symbol b)))"
proof -
  have ids: "set (gap_ids sp st) = {i. known (hashes_of sp) i \<and> (\<exists>gf\<in>set (st_gaps st). i \<in> gap_targets (gf_gap gf))}"
  proof -
    have "set (g_requirement_id g # (case g_lands g of Some (LC_Covered t) \<Rightarrow> (if t = [] then [] else [t]) | _ \<Rightarrow> []))
        = gap_targets g" for g
      by (auto simp: gap_targets_def split: option.split landing_condition.split)
    then show ?thesis by (auto simp: gap_ids_def nub_set simp del: list.set)
  qed
  have "find (\<lambda>i. \<not> known (hashes_of sp) i) (gap_ids sp st) = None"
    unfolding find_None_iff using ids by auto
  then show ?thesis
    unfolding gap_scope_def scope_subjects_def
    using ids by (auto simp: gap_ids_def nub_distinct split: if_splits)
qed

end
