(* ===== verification/Prune.thy ===== *)
theory Prune
  imports Check Gaps Retention
begin

text \<open>
  The verification pass behind the verbs, \<open>internal/verifyrun\<close>, and the core of the prune verb,
  \<open>internal/prune/prune.go\<close>: the whole-tree and the scoped pass, the gap listing, the dangling
  repair, the evaluation of resolved gaps, the collection of the witness store and the global
  cache bound. What a face supplies (the preparation, the policy capture, the backends, the
  witness run) is the record \<open>verb_deps\<close>; the caches are their answers. The sums of bytes are
  kept at their 64 bits where the global bound is split.
\<close>

section \<open>The verification pass\<close>

record ('c, 'm) verb_deps =
  vd_prepare :: "verr + prepared"
  vd_capture :: "verr + 'c option"
  vd_configure :: "'c \<Rightarrow> bool \<Rightarrow> subject list option \<Rightarrow> verr + 'c"
  vd_symbols :: "store \<Rightarrow> 'c option \<Rightarrow> verr + string list"
  vd_backends :: "string list \<Rightarrow> verr + backends"
  vd_run :: "'c option \<Rightarrow> subject list option \<Rightarrow> string \<Rightarrow> backends \<Rightarrow> verr + 'm witness_run"

definition verify_pass ::
  "('c, 'm) verb_deps \<Rightarrow> bool \<Rightarrow> string list \<Rightarrow> verr + prepared \<times> 'm report \<times> 'm witness_run option" where
  "verify_pass d no_test ids =
     (case vd_prepare d of Inl e \<Rightarrow> Inl e | Inr p \<Rightarrow>
      case (if ids = [] then None else known_ids (pp_spec p) ids) of Some e \<Rightarrow> Inl (Plain e) | None \<Rightarrow>
      if pp_hygiene p \<noteq> [] then Inr (p, run (pp_spec p) (pp_store p) Map.empty None, None)
      else case (if no_test then Inr None else vd_capture d) of Inl e \<Rightarrow> Inl e | Inr pc \<Rightarrow>
      map_sum id (Pair p) (ladder fst (pp_spec p) (pp_store p) (\<not> no_test)
        \<lparr>ld_symbols = vd_symbols d (pp_store p) pc, ld_backends = vd_backends d,
         ld_run = (if no_test then None else Some (vd_run d pc None []))\<rparr>))"

definition captured ::
  "('c, 'm) verb_deps \<Rightarrow> subject list \<Rightarrow> verr + 'c option" where
  "captured d scope =
     (if scope = [] then Inr None
      else case vd_capture d of Inl e \<Rightarrow> Inl e | Inr None \<Rightarrow> Inr None
      | Inr (Some pc) \<Rightarrow> map_sum id Some (vd_configure d pc False (Some scope)))"

definition scoped_pass ::
  "('c, 'm) verb_deps \<Rightarrow> prepared \<Rightarrow> subject list \<Rightarrow> string \<Rightarrow> verr + 'm report \<times> 'm witness_run option" where
  "scoped_pass d p scope why =
     (case captured d scope of Inl e \<Rightarrow> Inl e | Inr pc \<Rightarrow>
      ladder fst (pp_spec p) (pp_store p) (scope \<noteq> [])
        \<lparr>ld_symbols = vd_symbols d (pp_store p) pc, ld_backends = vd_backends d,
         ld_run = (if scope = [] then None else Some (vd_run d pc (Some scope) why))\<rparr>)"

definition gapped_line :: "string list \<Rightarrow> string" where
  "gapped_line ids = ''scoped to '' @ format_int (int (length ids)) @ '' gapped requirements''"

definition gaps_pass ::
  "(nat \<Rightarrow> bool) \<Rightarrow> ('c, 'm) verb_deps \<Rightarrow> verr + prepared \<times> ('m report \<times> 'm coverage_report) option" where
  "gaps_pass tbl d =
     (case vd_prepare d of Inl e \<Rightarrow> Inl e | Inr p \<Rightarrow>
      if st_gaps (pp_store p) = [] then Inr (p, None)
      else case gap_scope tbl (pp_spec p) (pp_store p) of Inl e \<Rightarrow> Inl (Plain e) | Inr (scope, ids) \<Rightarrow>
      case scoped_pass d p scope (gapped_line ids) of Inl e \<Rightarrow> Inl e | Inr (rep, tr) \<Rightarrow>
      Inr (p, Some (rep, evaluate tbl (pp_spec p) rep (pp_store p) (tr \<noteq> None) (pp_policy p))))"

text \<open>A refusal over problems carries them; any other error is a fault.\<close>

datatype refusal = Fault verr | Problems "problem list" "string list"

definition refusal_text :: "refusal \<Rightarrow> string" where
  "refusal_text r =
     (case r of Fault e \<Rightarrow> err_text e
      | Problems ps ns \<Rightarrow> ''verification problems ('' @ format_int (int (length ps)) @ ''); fix them first'')"

definition refuse_problems :: "problem list \<Rightarrow> refusal option" where
  "refuse_problems ps = (if ps = [] then None else Some (Problems ps []))"

definition refuse_report :: "'m report \<Rightarrow> refusal option" where
  "refuse_report rep = (if rp_problems rep = [] then None else Some (Problems (rp_problems rep) (rp_resolution_notices rep)))"

section \<open>The gap listing\<close>

datatype listed_state = Listed_Dangling | Listed gap_state

record gap_listing =
  gl_path :: string
  gl_requirement_id :: string
  gl_state :: listed_state
  gl_reason :: string
  gl_condition :: string
  gl_fired :: bool
  gl_contradicted :: bool
  gl_stale_consent :: bool

definition gaps_proto :: "'m coverage_report \<Rightarrow> gap_listing list" where
  "gaps_proto cov =
     map (\<lambda>g. \<lparr>gl_path = gr_path g, gl_requirement_id = gr_requirement_id g, gl_state = Listed (gr_state g),
       gl_reason = gr_reason g, gl_condition = gr_condition g, gl_fired = gr_fired g,
       gl_contradicted = gr_contradicted g, gl_stale_consent = gr_stale_consent g\<rparr>) (cr_gaps cov)"

definition dangling_row :: "gap_file \<Rightarrow> gap_listing" where
  "dangling_row gf =
     \<lparr>gl_path = gf_path gf, gl_requirement_id = g_requirement_id (gf_gap gf), gl_state = Listed_Dangling,
      gl_reason = g_reason (gf_gap gf), gl_condition = condition_text (g_lands (gf_gap gf)),
      gl_fired = lc_fired (g_lands (gf_gap gf)), gl_contradicted = lc_contradicted (g_lands (gf_gap gf)),
      gl_stale_consent = False\<rparr>"

definition gap_rows :: "spec \<Rightarrow> store \<Rightarrow> 'm coverage_report \<Rightarrow> gap_listing list \<times> nat" where
  "gap_rows sp st cov =
     (let dangling = map dangling_row (filter (\<lambda>gf. \<not> known (hashes_of sp) (g_requirement_id (gf_gap gf))) (st_gaps st)) in
      (dangling @ filter (\<lambda>g. known (hashes_of sp) (gl_requirement_id g)) (gaps_proto cov), length dangling))"

definition misreport_caveat :: "int \<Rightarrow> string \<Rightarrow> string" where
  "misreport_caveat n what =
     format_int n @ '' verification '' @ (if n = 1 then ''problem'' else ''problems'') @ '': '' @ what
       @ '' may misreport '' @ em_dash @ '' run '' @ remedy_verify"

section \<open>The prune verb\<close>

record prune_mode =
  pm_check :: bool
  pm_no_test :: bool
  pm_dangling :: bool
  pm_store :: bool

definition validate_mode :: "prune_mode \<Rightarrow> string option" where
  "validate_mode m =
     (if pm_store m \<and> (pm_check m \<or> pm_dangling m \<or> pm_no_test m)
      then Some ''prune: store composes with no other prune mode or flag'' else None)"

definition prune_dangling :: "string + spec \<Rightarrow> string + store \<Rightarrow> string + update list" where
  "prune_dangling corpus loaded =
     (case corpus of Inl e \<Rightarrow> Inl e | Inr sp \<Rightarrow>
      case loaded of Inl e \<Rightarrow> Inl e | Inr st \<Rightarrow> Inr (prune_dangling_gaps st (hashes_of sp)))"

record 'm resolved_gaps =
  rv_cache_load :: "'m option"
  rv_gaps :: nat
  rv_evaluated :: bool
  rv_served :: int
  rv_executed :: int
  rv_notices :: "string list"
  rv_prunes :: "update list"

definition nothing_resolved :: "'m resolved_gaps" where
  "nothing_resolved = \<lparr>rv_cache_load = None, rv_gaps = 0, rv_evaluated = False, rv_served = 0, rv_executed = 0,
     rv_notices = [], rv_prunes = []\<rparr>"

definition resolved_line :: "'m resolved_gaps \<Rightarrow> string" where
  "resolved_line r =
     ''evaluated '' @ format_int (int (rv_gaps r)) @ '' gap records: '' @ format_int (rv_served r)
       @ '' witnesses served, '' @ format_int (rv_executed r) @ '' executed''"

definition resolved_ids :: "'m coverage_report \<Rightarrow> string set" where
  "resolved_ids cov = set (map gr_requirement_id (filter (\<lambda>g. gr_state g = Gap_Resolved) (cr_gaps cov)))"

definition prune_evaluate ::
  "(nat \<Rightarrow> bool) \<Rightarrow> ('c, 'm) verb_deps \<Rightarrow> bool \<Rightarrow> refusal + 'm resolved_gaps" where
  "prune_evaluate tbl d no_test =
     (case vd_prepare d of Inl e \<Rightarrow> Inl (Fault e) | Inr p \<Rightarrow>
      if st_gaps (pp_store p) = [] then Inr nothing_resolved
      else case refuse_problems (pp_hygiene p) of Some r \<Rightarrow> Inl r | None \<Rightarrow>
      case (if no_test then Inr ([], []) else gap_scope tbl (pp_spec p) (pp_store p)) of
        Inl e \<Rightarrow> Inl (Fault (Plain e))
      | Inr (scope, ids) \<Rightarrow>
      case scoped_pass d p scope (if no_test then [] else gapped_line ids) of Inl e \<Rightarrow> Inl (Fault e) | Inr (rep, tr) \<Rightarrow>
      case serving_class_required (map_option fst tr) of Some e \<Rightarrow> Inl (Fault (Plain e)) | None \<Rightarrow>
      case refuse_report rep of Some r \<Rightarrow> Inl r | None \<Rightarrow>
      let cov = evaluate tbl (pp_spec p) rep (pp_store p) (tr \<noteq> None) (pp_policy p) in
      Inr \<lparr>rv_cache_load = rp_cache_load rep, rv_gaps = length (st_gaps (pp_store p)), rv_evaluated = True,
           rv_served = (case tr of None \<Rightarrow> 0 | Some wr \<Rightarrow> rc_fresh (snd wr)),
           rv_executed = (case tr of None \<Rightarrow> 0 | Some wr \<Rightarrow> rc_ran (snd wr)),
           rv_notices = rp_resolution_notices rep,
           rv_prunes = prune_resolved_gaps (pp_store p) (resolved_ids cov)\<rparr>)"

section \<open>The stores\<close>

record store_result =
  sr_removed :: int
  sr_kept :: int
  sr_resolutions :: "(int \<times> int) option"

definition live_tests :: "store \<Rightarrow> string set" where
  "live_tests st = set (map b_symbol (filter (\<lambda>b. b_role b = ROLE_TESTS) (store_bindings st)))"

text \<open>The two collections answer with their counts and a fault; a policy that cannot be captured
  keeps every coordinate.\<close>

definition store_gc ::
  "string + store \<Rightarrow> verr + 'c option \<Rightarrow> ('c \<Rightarrow> string \<Rightarrow> bool)
     \<Rightarrow> ((string \<Rightarrow> string \<Rightarrow> bool) \<Rightarrow> (string \<Rightarrow> bool) option \<Rightarrow> int \<times> int \<times> string option)
     \<Rightarrow> (store \<Rightarrow> 'c \<Rightarrow> int \<times> int \<times> string option) \<Rightarrow> store_result \<times> string option" where
  "store_gc loaded capture digests gc gc_resolutions =
     (case loaded of Inl e \<Rightarrow> (\<lparr>sr_removed = 0, sr_kept = 0, sr_resolutions = None\<rparr>, Some e) | Inr st \<Rightarrow>
      let pc = (case capture of Inr (Some pc) \<Rightarrow> Some pc | _ \<Rightarrow> None);
          live = (\<lambda>pkg test. pkg @ ''.'' @ test \<in> live_tests st) in
      case gc live (map_option digests pc) of (removed, standing, err) \<Rightarrow>
      let out = \<lparr>sr_removed = removed, sr_kept = standing, sr_resolutions = None\<rparr> in
      case (err, pc) of
        (None, Some c) \<Rightarrow>
          (case gc_resolutions st c of (rr, rk, rerr) \<Rightarrow> (out\<lparr>sr_resolutions := Some (rr, rk)\<rparr>, rerr))
      | _ \<Rightarrow> (out, err))"

definition store_lines :: "bool \<Rightarrow> store_result \<Rightarrow> string list" where
  "store_lines partial r =
     (if partial then [''store gc: completed prefix; unexamined records are not counted as kept''] else [])
     @ [''store gc: '' @ format_int (sr_removed r) @ '' record variant(s) removed, '' @ format_int (sr_kept r) @ '' kept'']
     @ (case sr_resolutions r of None \<Rightarrow> []
        | Some (removed, standing) \<Rightarrow>
            [''store gc: '' @ format_int removed @ '' resolution record(s) removed, '' @ format_int standing @ '' kept''])"

section \<open>The global cache bound\<close>

definition wrap64 :: "int \<Rightarrow> int" where
  "wrap64 x = (x + 2 ^ 63) mod 2 ^ 64 - 2 ^ 63"

text \<open>Go's integer division truncates toward zero.\<close>

definition go_div :: "int \<Rightarrow> int \<Rightarrow> int" where
  "go_div a b = sgn a * sgn b * (\<bar>a\<bar> div \<bar>b\<bar>)"

text \<open>The limits of the witness and of the resolution stores, from the bytes each would keep.\<close>

definition cache_limits :: "int \<Rightarrow> int \<Rightarrow> int \<Rightarrow> int \<times> int" where
  "cache_limits bound w r =
     (if bound < 0 then (-1, -1)
      else let total_bytes = wrap64 (w + r) in
        if total_bytes > bound
        then let res_max = go_div (wrap64 (bound * r)) total_bytes in (wrap64 (bound - res_max), res_max)
        else (bound, bound))"

record cache_options =
  co_max_bytes :: int
  co_use_default :: bool
  co_memo_max_bytes :: int
  co_include_memos :: bool
  co_dry_run :: bool
  co_active_roots :: "string list"

record memo_report =
  mp_used :: int
  mp_reclaimed :: int
  mp_remaining :: int

record cache_report =
  cp_witnesses :: prune_report
  cp_resolutions :: prune_report
  cp_memos :: memo_report

definition empty_cache_report :: cache_report where
  "empty_cache_report = \<lparr>cp_witnesses = empty_report [], cp_resolutions = empty_report [],
     cp_memos = \<lparr>mp_used = 0, mp_reclaimed = 0, mp_remaining = 0\<rparr>\<rparr>"

definition used_bytes :: "cache_report \<Rightarrow> int" where
  "used_bytes r = wrap64 (wrap64 (pr_used (cp_witnesses r) + pr_used (cp_resolutions r)) + mp_used (cp_memos r))"

definition reclaimed_bytes :: "cache_report \<Rightarrow> int" where
  "reclaimed_bytes r =
     wrap64 (wrap64 (pr_reclaimed (cp_witnesses r) + pr_reclaimed (cp_resolutions r)) + mp_reclaimed (cp_memos r))"

definition remaining_bytes :: "cache_report \<Rightarrow> int" where
  "remaining_bytes r =
     wrap64 (wrap64 (pr_remaining (cp_witnesses r) + pr_remaining (cp_resolutions r)) + mp_remaining (cp_memos r))"

text \<open>What the stores answer: the first number is the call, a preview or the pass itself.\<close>

record cache_seam =
  cs_configured :: int
  cs_default_memo :: int
  cs_witnesses :: "nat \<Rightarrow> prune_options \<Rightarrow> prune_report \<times> string option"
  cs_resolutions :: "nat \<Rightarrow> prune_options \<Rightarrow> prune_report \<times> string option"
  cs_memos :: "int \<Rightarrow> memo_report \<times> string option"

definition preview :: "cache_options \<Rightarrow> prune_options" where
  "preview co = \<lparr>po_max_bytes = -1, po_dry_run = True, po_active_roots = co_active_roots co\<rparr>"

text \<open>The bytes each kind would keep, or the report and the fault of the preview.\<close>

definition previewed :: "cache_seam \<Rightarrow> cache_options \<Rightarrow> cache_report \<times> string + int \<times> int" where
  "previewed sm co =
     (case cs_witnesses sm 0 (preview co) of
        (w, Some e) \<Rightarrow> Inl (empty_cache_report\<lparr>cp_witnesses := w\<rparr>, e)
      | (w, None) \<Rightarrow>
          (case cs_resolutions sm 0 (preview co) of
             (r, Some e) \<Rightarrow> Inl (empty_cache_report\<lparr>cp_witnesses := w, cp_resolutions := r\<rparr>, e)
           | (r, None) \<Rightarrow> Inr (pr_remaining w, pr_remaining r)))"

definition reclaim :: "cache_seam \<Rightarrow> cache_options \<Rightarrow> int \<times> int \<Rightarrow> cache_report \<times> string option" where
  "reclaim sm co limits =
     (let opts = (\<lambda>limit. \<lparr>po_max_bytes = limit, po_dry_run = co_dry_run co, po_active_roots = co_active_roots co\<rparr>) in
      case cs_witnesses sm 1 (opts (fst limits)) of
        (w, Some e) \<Rightarrow> (empty_cache_report\<lparr>cp_witnesses := w\<rparr>, Some e)
      | (w, None) \<Rightarrow>
          (case cs_resolutions sm 1 (opts (snd limits)) of
             (r, Some e) \<Rightarrow> (empty_cache_report\<lparr>cp_witnesses := w, cp_resolutions := r\<rparr>, Some e)
           | (r, None) \<Rightarrow>
               let out = empty_cache_report\<lparr>cp_witnesses := w, cp_resolutions := r\<rparr> in
               if co_include_memos co \<and> \<not> co_dry_run co
               then (case cs_memos sm (if co_memo_max_bytes co = 0 then cs_default_memo sm else co_memo_max_bytes co) of
                       (m, err) \<Rightarrow> (out\<lparr>cp_memos := m\<rparr>, err))
               else (out, None)))"

definition prune_global_cache :: "cache_seam \<Rightarrow> cache_options \<Rightarrow> cache_report \<times> string option" where
  "prune_global_cache sm co =
     (let bound = (if co_use_default co then cs_configured sm else co_max_bytes co) in
      case (if bound < 0 then Inr (0, 0) else previewed sm co) of
        Inl (rep, e) \<Rightarrow> (rep, Some e)
      | Inr (w, r) \<Rightarrow> reclaim sm co (cache_limits bound w r))"

section \<open>What an evaluation deletes\<close>

definition gap_resolved ::
  "(nat \<Rightarrow> bool) \<Rightarrow> spec \<Rightarrow> 'm report \<Rightarrow> store \<Rightarrow> bool \<Rightarrow> policy option \<Rightarrow> gap \<Rightarrow> bool" where
  "gap_resolved tbl sp rep st w pol g \<longleftrightarrow>
     gap_state_of (buckets_of (judged tbl sp rep st w pol)) (hashes_of sp) g = Gap_Resolved"

lemma resolved_ids_evaluate:
  "resolved_ids (evaluate tbl sp rep st w pol)
     = {g_requirement_id (gf_gap gf) | gf. gf \<in> set (st_gaps st) \<and> gap_resolved tbl sp rep st w pol (gf_gap gf)}"
proof -
  have "cr_gaps (evaluate tbl sp rep st w pol) = map (gap_report_row (buckets_of (judged tbl sp rep st w pol)) (hashes_of sp)) (st_gaps st)"
    by (simp add: evaluate_def Let_def)
  then show ?thesis
    by (auto simp: resolved_ids_def filter_map o_def gap_report_row_def gap_resolved_def image_def)
qed

lemma resolved_ids_own:
  assumes "distinct (map (g_requirement_id \<circ> gf_gap) (st_gaps st))" and "gf \<in> set (st_gaps st)"
  shows "g_requirement_id (gf_gap gf) \<in> resolved_ids (evaluate tbl sp rep st w pol)
    \<longleftrightarrow> gap_resolved tbl sp rep st w pol (gf_gap gf)"
proof -
  have "gf' = gf" if "gf' \<in> set (st_gaps st)" "g_requirement_id (gf_gap gf') = g_requirement_id (gf_gap gf)" for gf'
    using assms that by (simp add: distinct_map inj_on_def)
  with assms(2) show ?thesis unfolding resolved_ids_evaluate by (auto dest: sym)
qed

lemma prune_where_updates:
  "set (map up_path (prune_where P st)) = gf_path ` {gf \<in> set (st_gaps st). P (g_requirement_id (gf_gap gf))}"
  "list_all (\<lambda>u. up_content u = None) (prune_where P st)"
  by (auto simp: prune_where_def stamp_priors_def sort_updates_def delete_at_def list_all_iff image_iff)

lemma ladder_judged:
  "ladder f sp st w d = Inr (rep, tr) \<Longrightarrow> (tr = None) = (ld_run d = None)"
  by (auto simp: ladder_def Let_def split: sum.splits option.splits)

text \<open>The report and the run an evaluation reads.\<close>

definition evaluated_from ::
  "(nat \<Rightarrow> bool) \<Rightarrow> ('c, 'm) verb_deps \<Rightarrow> prepared \<Rightarrow> bool \<Rightarrow> 'm report \<Rightarrow> 'm witness_run option \<Rightarrow> bool" where
  "evaluated_from tbl d p no_test rep tr \<longleftrightarrow>
     (\<exists>scope ids why. (if no_test then scope = [] else gap_scope tbl (pp_spec p) (pp_store p) = Inr (scope, ids))
        \<and> scoped_pass d p scope why = Inr (rep, tr))
     \<and> rp_problems rep = [] \<and> (if no_test then tr = None else True)
     \<and> pred_option (\<lambda>wr. tr_selective_serving (fst wr)) tr"

lemma prune_evaluate_cases:
  fixes res :: "'m resolved_gaps"
  assumes "prune_evaluate tbl d no_test = Inr res"
  obtains (Nothing) p where "vd_prepare d = Inr p" "st_gaps (pp_store p) = []" "res = nothing_resolved"
  | (Evaluated) p and rep :: "'m report" and tr :: "'m witness_run option" where "vd_prepare d = Inr p"
      "st_gaps (pp_store p) \<noteq> []" "pp_hygiene p = []" "evaluated_from tbl d p no_test rep tr" "rv_evaluated res"
      "rv_prunes res = prune_resolved_gaps (pp_store p)
         (resolved_ids (evaluate tbl (pp_spec p) rep (pp_store p) (tr \<noteq> None) (pp_policy p)))"
proof -
  from assms obtain p where p: "vd_prepare d = Inr p" by (auto simp: prune_evaluate_def split: sum.splits)
  show thesis
  proof (cases "st_gaps (pp_store p) = []")
    case True
    with assms p show thesis using Nothing by (simp add: prune_evaluate_def)
  next
    case False
    with assms p obtain scope ids rep and tr :: "'m witness_run option" where hyg: "pp_hygiene p = []"
      and scope: "(if no_test then Inr ([], []) else gap_scope tbl (pp_spec p) (pp_store p)) = Inr (scope, ids)"
      and pass: "scoped_pass d p scope (if no_test then [] else gapped_line ids) = Inr (rep, tr)"
      and serving: "serving_class_required (map_option fst tr) = None" and rep: "rp_problems rep = []"
      and res: "rv_evaluated res" "rv_prunes res = prune_resolved_gaps (pp_store p)
         (resolved_ids (evaluate tbl (pp_spec p) rep (pp_store p) (tr \<noteq> None) (pp_policy p)))"
      by (auto simp: prune_evaluate_def refuse_problems_def refuse_report_def Let_def
          split: sum.splits option.splits prod.splits if_split_asm)
    have "if no_test then tr = None else True"
      using scope pass by (auto simp: scoped_pass_def dest: ladder_judged split: sum.splits)
    moreover have "pred_option (\<lambda>wr. tr_selective_serving (fst wr)) tr"
      using serving by (auto simp: serving_class_required_def split: option.splits if_splits)
    moreover have "\<exists>scope ids why. (if no_test then scope = [] else gap_scope tbl (pp_spec p) (pp_store p) = Inr (scope, ids))
        \<and> scoped_pass d p scope why = Inr (rep, tr)"
      using scope pass by (cases no_test) auto
    ultimately have "evaluated_from tbl d p no_test rep tr" using rep unfolding evaluated_from_def by blast
    with Evaluated p False hyg res show thesis by blast
  qed
qed

lemma prepared_records:
  "prepare compiled loaded mf = Inr p \<Longrightarrow> pp_hygiene p = [] \<Longrightarrow> st_gaps (pp_store p) \<noteq> [] \<Longrightarrow>
     records_ok (pp_spec p) (pp_store p)"
  by (auto simp: prepare_def Let_def empty_store_def hygiene_records [symmetric] split: sum.splits if_splits)

definition prepared_by :: "('c, 'm) verb_deps \<Rightarrow> string + prepared \<Rightarrow> ('c, 'm) verb_deps" where
  "prepared_by d prep = d\<lparr>vd_prepare := map_sum Plain id prep\<rparr>"

text \<open>C17: an evaluation deletes exactly the gaps its own pass resolves. Over the records a preparation
  loaded, an evaluation that goes through on a store with gaps found the records well-formed, had
  its evidence from a pass without problems, and its updates are the deletions of exactly those
  gap files whose own gap is resolved in that pass; without gaps nothing is run and nothing
  deleted. The evidence the code accepts is a run of the serving class, which executes the stale
  remainder of the scoped witnesses, or no run at all: always none under the records-only form,
  and none when no bound witness is in scope. The specification (REQ-gap-resolved-pruned,
  REQ-evidence-inspection) asks instead for recorded evidence taken without executing
  witnesses and lets missing evidence authorize no deletion.\<close>

theorem prune_evaluate_exact:
  "case prune_evaluate tbl (prepared_by d (prepare compiled loaded mf)) no_test of
     Inl _ \<Rightarrow> True
   | Inr res \<Rightarrow>
       (case prepare compiled loaded mf of Inl _ \<Rightarrow> False | Inr p \<Rightarrow>
          if st_gaps (pp_store p) = [] then res = nothing_resolved
          else records_ok (pp_spec p) (pp_store p)
            \<and> (\<exists>rep tr. evaluated_from tbl (prepared_by d (prepare compiled loaded mf)) p no_test rep tr
                \<and> list_all (\<lambda>u. up_content u = None) (rv_prunes res)
                \<and> set (map up_path (rv_prunes res)) = gf_path ` {gf \<in> set (st_gaps (pp_store p)).
                    gap_resolved tbl (pp_spec p) rep (pp_store p) (tr \<noteq> None) (pp_policy p) (gf_gap gf)}))"
proof (cases "prune_evaluate tbl (prepared_by d (prepare compiled loaded mf)) no_test")
  case (Inr res)
  then show ?thesis
  proof (cases rule: prune_evaluate_cases)
    case (Nothing p)
    then have "prepare compiled loaded mf = Inr p" by (cases "prepare compiled loaded mf") (auto simp: prepared_by_def)
    with Inr Nothing show ?thesis by simp
  next
    case (Evaluated p rep tr)
    then have prep: "prepare compiled loaded mf = Inr p" by (cases "prepare compiled loaded mf") (auto simp: prepared_by_def)
    from prepared_records [OF prep Evaluated(3,2)] have ok: "records_ok (pp_spec p) (pp_store p)" .
    then have "distinct (map (g_requirement_id \<circ> gf_gap) (st_gaps (pp_store p)))" by (simp add: records_ok_def)
    from resolved_ids_own [OF this] have "set (map up_path (rv_prunes res)) = gf_path ` {gf \<in> set (st_gaps (pp_store p)).
        gap_resolved tbl (pp_spec p) rep (pp_store p) (tr \<noteq> None) (pp_policy p) (gf_gap gf)}"
      unfolding Evaluated(6) prune_resolved_gaps_def prune_where_updates(1) by (intro arg_cong [where f = "image gf_path"]) blast
    moreover have "list_all (\<lambda>u. up_content u = None) (rv_prunes res)"
      unfolding Evaluated(6) prune_resolved_gaps_def by (rule prune_where_updates)
    ultimately show ?thesis using Inr prep ok Evaluated(2,4) by auto
  qed
qed simp

section \<open>After the deletions\<close>

text \<open>The records a load reads once the updates have landed.\<close>

definition after_prune :: "store \<Rightarrow> update list \<Rightarrow> store" where
  "after_prune st ups = st\<lparr>st_gaps := filter (\<lambda>gf. gf_path gf \<notin> set (map up_path ups)) (st_gaps st)\<rparr>"

lemma after_prune_fields [simp]:
  "st_bindings (after_prune st ups) = st_bindings st"
  "st_attestations (after_prune st ups) = st_attestations st"
  "st_allow_whole (after_prune st ups) = st_allow_whole st"
  "store_bindings (after_prune st ups) = store_bindings st"
  by (simp_all add: after_prune_def store_bindings_def)

lemma after_prune_gaps:
  assumes "distinct (map gf_path (st_gaps st))"
  shows "st_gaps (after_prune st (prune_resolved_gaps st R))
    = filter (\<lambda>gf. g_requirement_id (gf_gap gf) \<notin> R) (st_gaps st)"
proof -
  have "gf_path gf \<in> gf_path ` {gf \<in> set (st_gaps st). g_requirement_id (gf_gap gf) \<in> R}
      \<longleftrightarrow> g_requirement_id (gf_gap gf) \<in> R" if "gf \<in> set (st_gaps st)" for gf
    using assms that by (auto simp: distinct_map dest: inj_onD)
  then show ?thesis
    unfolding after_prune_def prune_resolved_gaps_def prune_where_updates by (simp cong: filter_cong)
qed

lemma after_prune_judged [simp]:
  "judged tbl sp rep (after_prune st ups) w pol = judged tbl sp rep st w pol"
  "final_bucket sp rep (after_prune st ups) w pol r = final_bucket sp rep st w pol r"
  "dangling_ids sp (after_prune st ups) = dangling_ids sp st"
proof -
  have d: "dangling_pointers sp (after_prune st ups) = dangling_pointers sp st"
    by (simp add: dangling_pointers_def req_dangling_def [abs_def] pointer_members_def)
  show "judged tbl sp rep (after_prune st ups) w pol = judged tbl sp rep st w pol"
    "final_bucket sp rep (after_prune st ups) w pol r = final_bucket sp rep st w pol r"
    "dangling_ids sp (after_prune st ups) = dangling_ids sp st"
    by (simp_all add: judged_def final_bucket_def gather_def dangling_ids_def d)
qed

lemma after_prune_subset: "set (st_gaps (after_prune st ups)) \<subseteq> set (st_gaps st)"
  by (auto simp: after_prune_def)

lemma after_prune_records:
  assumes "records_ok sp st"
  shows "records_ok sp (after_prune st ups)"
proof -
  have "list_all (attestation_ok (hashes_of sp) (set (map (g_requirement_id \<circ> gf_gap) (st_gaps (after_prune st ups)))))
      (concat (map af_set (st_attestations st)))"
    using assms after_prune_subset [of st ups]
    by (fastforce simp: records_ok_def list_all_iff attestation_ok_def)
  moreover have "list_all (gap_ok (hashes_of sp)) (map gf_gap (st_gaps (after_prune st ups)))"
    using assms after_prune_subset [of st ups] by (fastforce simp: records_ok_def list_all_iff)
  moreover have "distinct (map (g_requirement_id \<circ> gf_gap) (st_gaps (after_prune st ups)))"
    using assms by (simp add: records_ok_def after_prune_def distinct_map_filter)
  ultimately show ?thesis using assms by (simp add: records_ok_def)
qed

text \<open>A requirement left red has no resolved gap, so its gaps all stay.\<close>

lemma red_gaps_stay:
  assumes "distinct (map req_id (spec_requirements sp))" and "r \<in> set (spec_requirements sp)"
    and "red (final_bucket sp rep st w pol r)"
  shows "req_id r \<notin> resolved_ids (evaluate tbl sp rep st w pol)"
proof
  assume "req_id r \<in> resolved_ids (evaluate tbl sp rep st w pol)"
  then obtain g where "gap_resolved tbl sp rep st w pol g" "g_requirement_id g = req_id r"
    unfolding resolved_ids_evaluate by auto
  then have "final_bucket sp rep st w pol r \<in> {Covered, Exempt}"
    using judged_bucket [OF assms(1,2), of tbl rep st w pol]
    by (auto simp: gap_resolved_def gap_state_of_def Let_def split: if_splits)
  with assms(3) show False by auto
qed

lemma excused_after:
  assumes "\<And>gf. gf \<in> set (st_gaps st) \<Longrightarrow> g_requirement_id (gf_gap gf) = req_id r \<Longrightarrow> gf \<in> set (st_gaps st')"
    and "set (st_gaps st') \<subseteq> set (st_gaps st)" and "dangling_ids sp st' = dangling_ids sp st"
  shows "excused_requirement sp rep st' r b = excused_requirement sp rep st r b"
  using assms unfolding excused_requirement_def by blast

lemma prepared_distinct:
  assumes "prepare (compile tx (Inr lint) (Inr ps) (Inr rs) rd extract) loaded mf = Inr p" and "st_gaps (pp_store p) \<noteq> []"
  shows "distinct (map req_id (spec_requirements (pp_spec p)))"
proof -
  from assms obtain spo ds where c: "compile tx (Inr lint) (Inr ps) (Inr rs) rd extract = Inr (spo, ds)"
      "diag_errors ds = []" "pp_spec p = (case spo of None \<Rightarrow> empty_spec | Some sp \<Rightarrow> sp)"
    by (auto simp: prepare_def Let_def empty_store_def split: sum.splits if_splits)
  from c(1,2) obtain sp where sp: "spo = Some sp"
    by (auto simp: compile_def Let_def split: sum.splits prod.splits if_splits)
  with c(1) have "clean_corpus (tx_lower tx) (lowered tx rs) (map (extracted rd extract) ps)"
      "sp = fst (resolve_docs tx (lowered tx rs) (map (extracted rd extract) ps))"
    by (simp_all add: compile_accepted_iff)
  with accepted_kept [of tx "lowered tx rs" "map (extracted rd extract) ps"] c(3) sp show ?thesis
    by (simp add: corpus_kept_def Let_def)
qed

lemma pruned_evaluation:
  fixes sp rep w pol tbl st
  defines "R \<equiv> resolved_ids (evaluate tbl sp rep st w pol)"
  assumes "distinct (map req_id (spec_requirements sp))" and "distinct (map gf_path (st_gaps st))"
  defines "st' \<equiv> after_prune st (prune_resolved_gaps st R)"
  shows "cr_violations (evaluate tbl sp rep st' w pol) = cr_violations (evaluate tbl sp rep st w pol)"
    and "map (\<lambda>q. (rr_id q, rr_bucket q)) (cr_requirements (evaluate tbl sp rep st' w pol))
       = map (\<lambda>q. (rr_id q, rr_bucket q)) (cr_requirements (evaluate tbl sp rep st w pol))"
    and "residue_of (evaluate tbl sp rep st' w pol) = []"
proof -
  have gaps: "st_gaps st' = filter (\<lambda>gf. g_requirement_id (gf_gap gf) \<notin> R) (st_gaps st)"
    unfolding st'_def by (rule after_prune_gaps [OF assms(3)])
  have "excused_requirement sp rep st' r b = excused_requirement sp rep st r b"
    if "r \<in> set (spec_requirements sp)" "red (final_bucket sp rep st w pol r)" for r b
  proof (rule excused_after)
    show "dangling_ids sp st' = dangling_ids sp st" by (simp add: st'_def)
  qed (use red_gaps_stay [OF assms(2) that, of tbl] in \<open>auto simp: gaps R_def\<close>)
  then show "cr_violations (evaluate tbl sp rep st' w pol) = cr_violations (evaluate tbl sp rep st w pol)"
    unfolding gate_violations [OF assms(2), THEN conjunct1]
    by (auto simp: st'_def intro!: arg_cong [where f = sort] arg_cong [where f = "map req_id"] filter_cong)
  show "map (\<lambda>q. (rr_id q, rr_bucket q)) (cr_requirements (evaluate tbl sp rep st' w pol))
       = map (\<lambda>q. (rr_id q, rr_bucket q)) (cr_requirements (evaluate tbl sp rep st w pol))"
    unfolding evaluate_rows_eq [OF assms(2)] by (simp add: st'_def)
  have "resolved_ids (evaluate tbl sp rep st' w pol) \<subseteq> R"
    using gaps unfolding R_def resolved_ids_evaluate by (auto simp: gap_resolved_def st'_def)
  moreover have "resolved_ids (evaluate tbl sp rep st' w pol) \<inter> R = {}"
    unfolding resolved_ids_evaluate by (auto simp: gaps)
  ultimately have "resolved_ids (evaluate tbl sp rep st' w pol) = {}" by blast
  then show "residue_of (evaluate tbl sp rep st' w pol) = []"
    by (simp add: residue_of_def resolved_ids_def)
qed

text \<open>The requirements with a deleted gap file.\<close>

definition lost_gap :: "store \<Rightarrow> update list \<Rightarrow> string \<Rightarrow> bool" where
  "lost_gap st ups rid \<longleftrightarrow>
     (\<exists>gf\<in>set (st_gaps st). g_requirement_id (gf_gap gf) = rid \<and> gf_path gf \<in> set (map up_path ups))"

lemma lost_gap_pruned:
  assumes "distinct (map gf_path (st_gaps st))"
  shows "lost_gap st (prune_resolved_gaps st R) rid
    \<longleftrightarrow> rid \<in> R \<and> (\<exists>gf\<in>set (st_gaps st). g_requirement_id (gf_gap gf) = rid)"
proof -
  have "gf_path gf \<in> gf_path ` {gf \<in> set (st_gaps st). g_requirement_id (gf_gap gf) \<in> R}
      \<longleftrightarrow> g_requirement_id (gf_gap gf) \<in> R" if "gf \<in> set (st_gaps st)" for gf
    using assms that by (auto simp: distinct_map dest: inj_onD)
  then show ?thesis unfolding lost_gap_def prune_resolved_gaps_def prune_where_updates by blast
qed

lemma resolved_bucket:
  assumes "distinct (map req_id (spec_requirements sp))" and "r \<in> set (spec_requirements sp)"
    and "req_id r \<in> resolved_ids (evaluate tbl sp rep st w pol)"
  shows "final_bucket sp rep st w pol r \<in> {Covered, Exempt}"
proof -
  from assms(3) obtain g where "gap_resolved tbl sp rep st w pol g" "g_requirement_id g = req_id r"
    unfolding resolved_ids_evaluate by auto
  then show ?thesis
    using judged_bucket [OF assms(1,2), of tbl rep st w pol]
    by (auto simp: gap_resolved_def gap_state_of_def Let_def split: if_splits)
qed

text \<open>Under any other evidence a pruned store violates where the store did, and where a red
  requirement lost its gap.\<close>

lemma pruned_violations:
  fixes R :: "string set"
  assumes "distinct (map req_id (spec_requirements sp))" and "distinct (map gf_path (st_gaps st))"
  defines "ups \<equiv> prune_resolved_gaps st R"
  shows "set (cr_violations (evaluate tbl sp rep (after_prune st ups) w pol))
    = set (cr_violations (evaluate tbl sp rep st w pol))
      \<union> {req_id r | r. r \<in> set (spec_requirements sp) \<and> red (final_bucket sp rep st w pol r) \<and> lost_gap st ups (req_id r)}"
proof -
  let ?st' = "after_prune st ups"
  have gaps: "st_gaps ?st' = filter (\<lambda>gf. g_requirement_id (gf_gap gf) \<notin> R) (st_gaps st)"
    unfolding ups_def by (rule after_prune_gaps [OF assms(2)])
  have "\<not> excused_requirement sp rep ?st' r b \<longleftrightarrow> \<not> excused_requirement sp rep st r b \<or> lost_gap st ups (req_id r)" for r b
  proof (cases "lost_gap st ups (req_id r)")
    case True
    then have "req_id r \<in> R" unfolding ups_def lost_gap_pruned [OF assms(2)] by blast
    then have "\<not> (\<exists>gf\<in>set (st_gaps ?st'). g_requirement_id (gf_gap gf) = req_id r)" by (auto simp: gaps)
    then have "\<not> excused_requirement sp rep ?st' r b" by (auto simp: excused_requirement_def)
    with True show ?thesis by simp
  next
    case False
    then have "gf \<in> set (st_gaps ?st')" if "gf \<in> set (st_gaps st)" "g_requirement_id (gf_gap gf) = req_id r" for gf
      using that unfolding ups_def lost_gap_pruned [OF assms(2)] by (auto simp: gaps [unfolded ups_def])
    with False show ?thesis
      using excused_after [of st r ?st' sp rep b] by (simp add: after_prune_subset)
  qed
  then show ?thesis unfolding gate_violations [OF assms(1), THEN conjunct1] by auto
qed

definition prune_judged ::
  "(nat \<Rightarrow> bool) \<Rightarrow> spec \<Rightarrow> policy option \<Rightarrow> store \<Rightarrow> update list \<Rightarrow> 'm report \<Rightarrow> bool \<Rightarrow> bool" where
  "prune_judged tbl sp pol st ups rep w \<longleftrightarrow>
     (let cov = evaluate tbl sp rep st w pol; cov' = evaluate tbl sp rep (after_prune st ups) w pol in
      cr_violations cov' = cr_violations cov
      \<and> map (\<lambda>q. (rr_id q, rr_bucket q)) (cr_requirements cov') = map (\<lambda>q. (rr_id q, rr_bucket q)) (cr_requirements cov)
      \<and> residue_of cov' = [])
     \<and> list_all (\<lambda>r. if lost_gap st ups (req_id r) then final_bucket sp rep st w pol r \<in> {Covered, Exempt} else True)
         (spec_requirements sp)"

definition judged_elsewhere ::
  "(nat \<Rightarrow> bool) \<Rightarrow> spec \<Rightarrow> policy option \<Rightarrow> store \<Rightarrow> update list \<Rightarrow> 'm report \<Rightarrow> bool \<Rightarrow> bool" where
  "judged_elsewhere tbl sp pol st ups rep w \<longleftrightarrow>
     (let cov = evaluate tbl sp rep st w pol; cov' = evaluate tbl sp rep (after_prune st ups) w pol in
      map (\<lambda>q. (rr_id q, rr_bucket q)) (cr_requirements cov') = map (\<lambda>q. (rr_id q, rr_bucket q)) (cr_requirements cov)
      \<and> set (cr_violations cov') = set (cr_violations cov)
          \<union> {req_id r | r. r \<in> set (spec_requirements sp) \<and> red (final_bucket sp rep st w pol r) \<and> lost_gap st ups (req_id r)})"

lemma pruned_judged:
  assumes "distinct (map req_id (spec_requirements sp))" and "distinct (map gf_path (st_gaps st))"
  shows "prune_judged tbl sp pol st (prune_resolved_gaps st (resolved_ids (evaluate tbl sp rep st w pol))) rep w"
    and "judged_elsewhere tbl sp pol st (prune_resolved_gaps st R) rep' w'"
proof -
  have "final_bucket sp rep st w pol r \<in> {Covered, Exempt}"
    if "r \<in> set (spec_requirements sp)"
      "lost_gap st (prune_resolved_gaps st (resolved_ids (evaluate tbl sp rep st w pol))) (req_id r)" for r
    using resolved_bucket [OF assms(1) that(1)] that(2) unfolding lost_gap_pruned [OF assms(2)] by blast
  then show "prune_judged tbl sp pol st (prune_resolved_gaps st (resolved_ids (evaluate tbl sp rep st w pol))) rep w"
    using pruned_evaluation [OF assms, of tbl rep w pol] by (simp add: prune_judged_def Let_def list_all_iff)
  show "judged_elsewhere tbl sp pol st (prune_resolved_gaps st R) rep' w'"
    using pruned_violations [OF assms, of tbl rep' R w' pol] by (simp add: judged_elsewhere_def Let_def evaluate_rows_eq [OF assms(1)])
qed

lemma prune_keeps_verdict:
  assumes prep_eq: "prep = prepare (compile tx (Inr lint) (Inr ps) (Inr rs) rd extract) loaded mf"
  shows "case prune_evaluate tbl (prepared_by d prep) no_test of
     Inl _ \<Rightarrow> True
   | Inr res \<Rightarrow>
       (case prep of Inl _ \<Rightarrow> False | Inr p \<Rightarrow>
          let sp = pp_spec p; st = pp_store p; pol = pp_policy p; ups = rv_prunes res in
          if rv_evaluated res \<and> distinct (map gf_path (st_gaps st))
          then records_ok sp (after_prune st ups)
            \<and> (\<exists>rep tr. evaluated_from tbl (prepared_by d prep) p no_test rep tr \<and> prune_judged tbl sp pol st ups rep (tr \<noteq> None))
            \<and> judged_elsewhere tbl sp pol st ups later witnessed
          else True)"
proof (cases "prune_evaluate tbl (prepared_by d prep) no_test")
  case (Inr res)
  then show ?thesis
  proof (cases rule: prune_evaluate_cases)
    case (Nothing p)
    then have "prep = Inr p" by (cases prep) (auto simp: prepared_by_def)
    with Inr Nothing show ?thesis by (simp add: nothing_resolved_def)
  next
    case (Evaluated p rep tr)
    then have prep: "prep = Inr p" by (cases prep) (auto simp: prepared_by_def)
    from prep Evaluated(2,3) have ok: "records_ok (pp_spec p) (pp_store p)" unfolding prep_eq by (blast intro: prepared_records)
    from prep Evaluated(2) have dist: "distinct (map req_id (spec_requirements (pp_spec p)))"
      unfolding prep_eq by (rule prepared_distinct)
    have "records_ok (pp_spec p) (after_prune (pp_store p) (rv_prunes res))" by (rule after_prune_records [OF ok])
    moreover have "prune_judged tbl (pp_spec p) (pp_policy p) (pp_store p) (rv_prunes res) rep (tr \<noteq> None)
        \<and> judged_elsewhere tbl (pp_spec p) (pp_policy p) (pp_store p) (rv_prunes res) later witnessed"
      if "distinct (map gf_path (st_gaps (pp_store p)))"
      unfolding Evaluated(6) by (intro conjI pruned_judged [OF dist that])
    ultimately show ?thesis
      unfolding Inr sum.case unfolding prep sum.case Let_def using Evaluated(4) [unfolded prep] by (split if_split) blast
  qed
qed simp

text \<open>C16: pruning changes no verdict over the evidence it read, and what it can change over other
  evidence. When the files of a store are distinct and an evaluation over a compiled
  corpus goes through, then on the store with its deletions made the records are still
  well-formed; the report and the witness flag of that pass judged again give every
  requirement the bucket it had and the gate the violations it had, and leave no resolved
  gap behind; every requirement that lost a gap was Covered or Exempt in it. Over any other
  report and flag, such as those of a later witnessed run, every bucket is
  again the same, and the gate violates exactly where it did and at the requirements that are
  red there and lost a gap.\<close>

theorem prune_preserves_gate:
  "let prep = prepare (compile tx (Inr lint) (Inr ps) (Inr rs) rd extract) loaded mf in
   case prune_evaluate tbl (prepared_by d prep) no_test of
     Inl _ \<Rightarrow> True
   | Inr res \<Rightarrow>
       (case prep of Inl _ \<Rightarrow> False | Inr p \<Rightarrow>
          let sp = pp_spec p; st = pp_store p; pol = pp_policy p; ups = rv_prunes res in
          if rv_evaluated res \<and> distinct (map gf_path (st_gaps st))
          then records_ok sp (after_prune st ups)
            \<and> (\<exists>rep tr. evaluated_from tbl (prepared_by d prep) p no_test rep tr \<and> prune_judged tbl sp pol st ups rep (tr \<noteq> None))
            \<and> judged_elsewhere tbl sp pol st ups later witnessed
          else True)"
  unfolding Let_def [of "prepare _ _ _"] by (rule prune_keeps_verdict) simp

text \<open>A records-only prune can cost a gap its excuse. The policy admits a static binding, the bound test
  fails, and a gap declares the requirement broken. Judged without a run the requirement is covered,
  so the gap counts as resolved and is deleted; the witnessed gate passed before and fails after.\<close>

definition static_policy :: policy where
  "static_policy = \<lparr>pl_overrides = [((CK_BEHAVIOR, KW_MUST), ME_STATIC)], pl_allow_whole = False\<rparr>"

lemma static_buckets:
  "final_bucket cov_spec (cov_report oc) (cov_store gs) w (Some static_policy) cov_req
     = (if w \<and> (oc = TestFailed \<or> oc = TestNotRun) then Broken else Covered)"
proof -
  have "static_row (cov_result oc)" by (simp add: static_row_def cov_result_def)
  then have "policy_satisfied cov_spec (cov_report oc) w (Some static_policy) cov_req"
    using cov_grants [of oc]
    by (simp add: policy_satisfied_def cov_facts satisfied_def minimum_def static_policy_def granted_evidence_def
        allow_whole_of_def reaches_def cov_report_def)
  moreover have "minimum (Some static_policy) (req_kind cov_req) (req_keyword cov_req) \<noteq> Some ME_EXEMPT"
    by (simp add: cov_facts minimum_def static_policy_def)
  ultimately show ?thesis
    using final_bucket_covered [of "Some static_policy" cov_req cov_spec "cov_report oc" "cov_store gs" w]
      final_bucket_hygiene(1) [of cov_spec "cov_report oc" "cov_store gs" w "Some static_policy" cov_req]
    unfolding cov_broken by (cases w) (auto simp: cov_stale)
qed

lemma untested_prune_loses_excuse:
  "let st = cov_store [cov_gap ''g'' [EXCUSE_BROKEN]];
       judge = (\<lambda>oc w st. evaluate (\<lambda>_. False) cov_spec (cov_report oc) st w (Some static_policy));
       ups = prune_resolved_gaps st (resolved_ids (judge TestNotRun False st)) in
   set (map up_path ups) = {''g''}
   \<and> cr_violations (judge TestFailed True st) = []
   \<and> cr_violations (judge TestFailed True (after_prune st ups)) = [''REQ-a'']"
proof -
  let ?g = "cov_gap ''g'' [EXCUSE_BROKEN]" and ?w = "Some static_policy"
  let ?st = "cov_store [?g]"
  let ?R = "resolved_ids (evaluate (\<lambda>_. False) cov_spec (cov_report TestNotRun) ?st False ?w)"
  have "gap_resolved (\<lambda>_. False) cov_spec (cov_report TestNotRun) ?st False ?w (gf_gap ?g)"
    using judged_bucket [OF cov_facts(1,2), of "\<lambda>_. False" "cov_report TestNotRun" ?st False ?w]
    by (simp add: gap_resolved_def gap_state_of_def Let_def static_buckets cov_facts(3) cov_gap_def manual_unfired_def)
  then have R: "?R = {''REQ-a''}" unfolding resolved_ids_evaluate by (auto simp: cov_store_def cov_gap_def)
  have files: "distinct (map gf_path (st_gaps ?st))" by (simp add: cov_store_def)
  have rid: "g_requirement_id (gf_gap ?g) = ''REQ-a''" "gf_path ?g = ''g''" "st_gaps ?st = [?g]"
    by (simp_all add: cov_gap_def cov_store_def)
  have paths: "set (map up_path (prune_resolved_gaps ?st ?R)) = {''g''}"
    unfolding prune_resolved_gaps_def prune_where_updates(1) R by (auto simp: rid)
  note exact = gate_violations [OF cov_facts(1), of "\<lambda>_. False" "cov_report TestFailed" _ True ?w, THEN conjunct1]
  have "excused_requirement cov_spec (cov_report TestFailed) ?st cov_req Broken"
    using cov_stale cov_facts(7) by (simp add: excused_requirement_def cov_store_def cov_gap_def excuse_set_def
        cov_facts(3) gap_drifted_def)
  then have "cr_violations (evaluate (\<lambda>_. False) cov_spec (cov_report TestFailed) ?st True ?w) = []"
    unfolding exact by (simp add: cov_facts static_buckets)
  moreover have "st_gaps (after_prune ?st (prune_resolved_gaps ?st ?R)) = []"
    unfolding after_prune_gaps [OF files] R by (simp add: rid)
  then have "\<not> excused_requirement cov_spec (cov_report TestFailed) (after_prune ?st (prune_resolved_gaps ?st ?R)) cov_req Broken"
    using cov_stale by (simp add: excused_requirement_def)
  then have "cr_violations (evaluate (\<lambda>_. False) cov_spec (cov_report TestFailed) (after_prune ?st (prune_resolved_gaps ?st ?R)) True ?w)
      = [''REQ-a'']"
    unfolding exact by (simp add: cov_facts static_buckets)
  ultimately show ?thesis using paths by (simp add: Let_def)
qed

section \<open>The listing\<close>

text \<open>The gap listing shows every record once. Its rows are exactly the gap records of the
  store, each once, dangling rows first, as many as the dangling count says: a row is dangling
  precisely when the corpus lacks its requirement, and every other row is the evaluation's.\<close>

theorem gap_rows_exact:
  "case gap_rows sp st (evaluate tbl sp rep st w pol) of (rows, n) \<Rightarrow>
     mset (map (\<lambda>g. (gl_path g, gl_requirement_id g)) rows) = mset (map (\<lambda>gf. (gf_path gf, g_requirement_id (gf_gap gf))) (st_gaps st))
     \<and> list_all (\<lambda>g. gl_state g = Listed_Dangling \<and> \<not> known (hashes_of sp) (gl_requirement_id g)) (take n rows)
     \<and> list_all (\<lambda>g. gl_state g \<noteq> Listed_Dangling \<and> known (hashes_of sp) (gl_requirement_id g)) (drop n rows)
     \<and> n = length (filter (\<lambda>gf. \<not> known (hashes_of sp) (g_requirement_id (gf_gap gf))) (st_gaps st))"
proof -
  let ?k = "\<lambda>gf. known (hashes_of sp) (g_requirement_id (gf_gap gf))"
  let ?key = "\<lambda>gf. (gf_path gf, g_requirement_id (gf_gap gf))"
  have proto: "filter (\<lambda>g. known (hashes_of sp) (gl_requirement_id g)) (gaps_proto (evaluate tbl sp rep st w pol))
      = map (\<lambda>gf. \<lparr>gl_path = gf_path gf, gl_requirement_id = g_requirement_id (gf_gap gf),
          gl_state = Listed (gap_state_of (buckets_of (judged tbl sp rep st w pol)) (hashes_of sp) (gf_gap gf)),
          gl_reason = g_reason (gf_gap gf), gl_condition = condition_text (g_lands (gf_gap gf)),
          gl_fired = lc_fired (g_lands (gf_gap gf)), gl_contradicted = lc_contradicted (g_lands (gf_gap gf)),
          gl_stale_consent = gap_drifted (hashes_of sp) (gf_gap gf)\<rparr>) (filter ?k (st_gaps st))"
    by (simp add: gaps_proto_def evaluate_def Let_def filter_map o_def gap_report_row_def)
  have "mset (map ?key (filter (\<lambda>gf. \<not> ?k gf) (st_gaps st))) + mset (map ?key (filter ?k (st_gaps st)))
      = mset (map ?key (st_gaps st))"
    by (simp add: image_mset_union [symmetric] union_commute multiset_partition [symmetric] del: image_mset_union)
  then show ?thesis
    by (auto simp: gap_rows_def Let_def proto dangling_row_def o_def list_all_iff multiset.map_comp)
qed

section \<open>The split of the global bound\<close>

lemma wrap64_id: "- (2 ^ 63) \<le> x \<Longrightarrow> x < 2 ^ 63 \<Longrightarrow> wrap64 x = x"
  by (simp add: wrap64_def)

lemma wrap64_range: "- (2 ^ 63) \<le> wrap64 x" "wrap64 x < 2 ^ 63"
  by (simp_all add: wrap64_def)

lemma wrap64_le: "0 \<le> x \<Longrightarrow> wrap64 x \<le> x"
  by (cases "x < 2 ^ 63") (use wrap64_range(2) [of x] in \<open>simp_all add: wrap64_id\<close>)

lemma wrap64_second_half: "2 ^ 63 \<le> x \<Longrightarrow> x < 2 ^ 64 \<Longrightarrow> wrap64 x = x - 2 ^ 64"
proof -
  assume x: "2 ^ 63 \<le> x" "x < 2 ^ 64"
  have "(x - 2 ^ 63 + 2 ^ 64) mod 2 ^ 64 = (x - 2 ^ 63) mod 2 ^ 64" by (rule mod_add_self2)
  then have "(x + 2 ^ 63) mod 2 ^ 64 = (x - 2 ^ 63) mod 2 ^ 64" by (simp add: add.commute)
  also have "\<dots> = x - 2 ^ 63" using x by (intro mod_pos_pos_trivial) auto
  finally show ?thesis by (simp add: wrap64_def)
qed

lemma go_div_nonneg: "0 \<le> a \<Longrightarrow> 0 < b \<Longrightarrow> go_div a b = a div b"
  by (cases "a = 0") (simp_all add: go_div_def)

lemma go_div_neg: "a < 0 \<Longrightarrow> 0 < b \<Longrightarrow> go_div a b = - (- a div b)"
  by (simp add: go_div_def)

text \<open>What the two kinds keep together, when each keeps at most its limit.\<close>

definition kept_at_most :: "int \<Rightarrow> int \<Rightarrow> int" where
  "kept_at_most limit bytes = (if limit < 0 then bytes else min limit bytes)"

definition kept_together :: "int \<Rightarrow> int \<Rightarrow> int \<Rightarrow> int" where
  "kept_together bound w r =
     kept_at_most (fst (cache_limits bound w r)) w + kept_at_most (snd (cache_limits bound w r)) r"

lemma cache_limits_over:
  assumes "0 \<le> bound" "bound < w + r" "w + r < 2 ^ 63"
  shows "cache_limits bound w r =
    (let res = go_div (wrap64 (bound * r)) (w + r) in (wrap64 (bound - res), res))"
proof -
  have "wrap64 (w + r) = w + r" by (rule wrap64_id) (use assms in linarith)+
  with assms show ?thesis by (simp add: cache_limits_def Let_def)
qed

lemma limits_kept:
  assumes "0 \<le> bound" "0 \<le> w" "0 \<le> r" "w + r < 2 ^ 63" "bound < w + r" "- (w + r) < wrap64 (bound * r)"
  shows "kept_together bound w r \<le> bound"
proof -
  let ?p = "wrap64 (bound * r)" and ?res = "go_div (wrap64 (bound * r)) (w + r)"
  have res: "0 \<le> ?res" "?res \<le> bound"
  proof -
    have "0 \<le> ?res \<and> ?res \<le> bound"
    proof (cases "0 \<le> ?p")
      case True
      have "bound * r \<le> bound * (w + r)" using assms by (simp add: mult_left_mono)
      with wrap64_le [of "bound * r"] assms have "?p \<le> bound * (w + r)" by simp
      then have "?p div (w + r) \<le> bound * (w + r) div (w + r)" using assms by (intro zdiv_mono1) auto
      with True assms show ?thesis by (simp add: go_div_nonneg pos_imp_zdiv_nonneg_iff)
    next
      case False
      then have "- ?p div (w + r) = 0" using assms by (intro div_pos_pos_trivial) auto
      with False assms show ?thesis by (simp add: go_div_neg)
    qed
    then show "0 \<le> ?res" "?res \<le> bound" by auto
  qed
  moreover have "wrap64 (bound - ?res) = bound - ?res" by (rule wrap64_id) (use assms res in linarith)+
  ultimately show ?thesis by (auto simp: kept_together_def kept_at_most_def cache_limits_over [OF assms(1,5,4)] Let_def)
qed

lemma limits_lost:
  assumes "0 \<le> bound" "0 \<le> w" "0 \<le> r" "w + r < 2 ^ 63" "bound < w + r" "wrap64 (bound * r) \<le> - (w + r)"
  shows "snd (cache_limits bound w r) < 0" and "bound < kept_together bound w r" and "r \<le> kept_together bound w r"
proof -
  let ?p = "wrap64 (bound * r)" and ?res = "go_div (wrap64 (bound * r)) (w + r)"
  have pos: "?p < 0" "0 < w + r" using assms by linarith+
  have "(w + r) div (w + r) \<le> - ?p div (w + r)" using assms by (intro zdiv_mono1) auto
  with pos have res: "?res \<le> - 1" by (simp add: go_div_neg)
  have wit: "wrap64 (bound - ?res) < 0 \<or> bound < wrap64 (bound - ?res)"
  proof (cases "bound - ?res < 2 ^ 63")
    case True
    then have "wrap64 (bound - ?res) = bound - ?res" by (intro wrap64_id) (use assms res in linarith)+
    with res show ?thesis by simp
  next
    case False
    have "- ?p * 1 \<le> - ?p * (w + r)" using pos by (intro mult_left_mono) auto
    then have "- ?p div (w + r) \<le> - ?p * (w + r) div (w + r)" using pos by (intro zdiv_mono1) auto
    also have "- ?p * (w + r) div (w + r) = - ?p" using pos by (intro nonzero_mult_div_cancel_right) auto
    finally have "- ?p div (w + r) \<le> - ?p" .
    moreover have "- ?p \<le> 2 ^ 63" using wrap64_range(1) [of "bound * r"] by linarith
    ultimately have "- ?res \<le> 2 ^ 63" using pos by (simp add: go_div_neg)
    with assms have "bound - ?res < 2 ^ 64" by simp
    with False have "wrap64 (bound - ?res) = bound - ?res - 2 ^ 64" by (intro wrap64_second_half) auto
    with \<open>bound - ?res < 2 ^ 64\<close> show ?thesis by simp
  qed
  note limits = cache_limits_over [OF assms(1,5,4)]
  from res show "snd (cache_limits bound w r) < 0" by (simp add: limits Let_def)
  from res wit assms show "bound < kept_together bound w r" "r \<le> kept_together bound w r"
    by (auto simp: kept_together_def kept_at_most_def limits Let_def)
qed

lemma limits_under:
  assumes "0 \<le> bound" "0 \<le> w" "0 \<le> r" "w + r < 2 ^ 63" "w + r \<le> bound"
  shows "kept_together bound w r \<le> bound"
proof -
  have "wrap64 (w + r) = w + r" by (rule wrap64_id) (use assms in linarith)+
  with assms have "cache_limits bound w r = (bound, bound)" by (simp add: cache_limits_def)
  with assms show ?thesis by (simp add: kept_together_def kept_at_most_def)
qed

text \<open>C36: exactly when the split keeps the global bound. For a bound and store sizes in the range of
  a 64-bit integer, the two limits together keep at most the bound unless the stores exceed it and
  the wrapped 64-bit product of the bound and the resolution bytes is at most the negated total;
  in that case the resolution stores get a negative limit, which disables their bound, and more
  than the bound is kept. A product below 2^63 never wraps, so
  the default bound of 2 GiB holds while the resolution stores take less than 4 GiB;
  from there, as long as the product and the total stay within 2^64, the resolution
  stores keep all their bytes, at least twice the bound; at 8 GiB the product wraps to
  zero and the bound holds again.\<close>

theorem global_bound_split:
  "(if 0 \<le> bound \<and> 0 \<le> w \<and> 0 \<le> r \<and> bound < 2 ^ 63 \<and> w + r < 2 ^ 63
    then (kept_together bound w r \<le> bound \<longleftrightarrow> \<not> (bound < w + r \<and> wrap64 (bound * r) \<le> - (w + r)))
      \<and> (if bound < kept_together bound w r then snd (cache_limits bound w r) < 0 else True)
      \<and> (if bound * r < 2 ^ 63 then kept_together bound w r \<le> bound else True)
      \<and> (if r < 2 ^ 32 then kept_together default_max_bytes w r \<le> default_max_bytes else True)
      \<and> (if 2 ^ 32 \<le> r \<and> default_max_bytes * r + (w + r) \<le> 2 ^ 64
         then snd (cache_limits default_max_bytes w r) < 0 \<and> 2 * default_max_bytes \<le> kept_together default_max_bytes w r
         else True)
    else True)
   \<and> kept_together default_max_bytes 0 (2 ^ 33) = 0"
proof -
  have exact: "kept_together b w r \<le> b \<longleftrightarrow> \<not> (b < w + r \<and> wrap64 (b * r) \<le> - (w + r))"
    "b < kept_together b w r \<Longrightarrow> snd (cache_limits b w r) < 0"
    "b * r < 2 ^ 63 \<Longrightarrow> kept_together b w r \<le> b"
    if "0 \<le> b" "0 \<le> w" "0 \<le> r" "w + r < 2 ^ 63" for b
  proof -
    show one: "kept_together b w r \<le> b \<longleftrightarrow> \<not> (b < w + r \<and> wrap64 (b * r) \<le> - (w + r))"
      using limits_kept [OF that] limits_lost(2) [OF that] limits_under [OF that] by linarith
    show "snd (cache_limits b w r) < 0" if "b < kept_together b w r"
      using one that limits_lost(1) [OF \<open>0 \<le> b\<close> \<open>0 \<le> w\<close> \<open>0 \<le> r\<close> \<open>w + r < 2 ^ 63\<close>] by linarith
    assume "b * r < 2 ^ 63"
    moreover have "0 \<le> b * r" using that by simp
    ultimately have "wrap64 (b * r) = b * r" by (intro wrap64_id) linarith+
    with one \<open>0 \<le> b * r\<close> that show "kept_together b w r \<le> b" by linarith
  qed
  have big: "snd (cache_limits default_max_bytes w r) < 0 \<and> 2 * default_max_bytes \<le> kept_together default_max_bytes w r"
    if r: "0 \<le> w" "w + r < 2 ^ 63" "2 ^ 32 \<le> r" "default_max_bytes * r + (w + r) \<le> 2 ^ 64"
  proof -
    have "wrap64 (default_max_bytes * r) = default_max_bytes * r - 2 ^ 64"
      by (rule wrap64_second_half) (use r in \<open>simp_all add: default_max_bytes_def\<close>)
    then have "wrap64 (default_max_bytes * r) \<le> - (w + r)" using r(4) by linarith
    with limits_lost [of default_max_bytes w r] r show ?thesis by (simp add: default_max_bytes_def)
  qed
  have "kept_together default_max_bytes 0 (2 ^ 33) = 0"
    by (simp add: kept_together_def kept_at_most_def cache_limits_def default_max_bytes_def wrap64_def go_div_def)
  moreover have "default_max_bytes * r < 2 ^ 63" if "r < 2 ^ 32" using that by (simp add: default_max_bytes_def)
  moreover have "0 \<le> default_max_bytes" by (simp add: default_max_bytes_def)
  ultimately show ?thesis using exact [of bound] exact(3) [of default_max_bytes] big by auto
qed

end
