(* ===== verification/Converter.thy ===== *)
theory Converter
  imports GoStd "HOL-Library.Multiset"
begin

text \<open>
  The streaming conversion of test output to events,
  \<open>internal/backends/golang/internal/test2json/test2json.go\<close>: the line buffers, the framing and
  escape marks, the stack of pending reports, and the writer. What the code takes from outside
  is the record \<open>tools\<close>: the case tables, float parsing, the clock, and what the n-th write to the
  underlying stream answers. An event is the message before its JSON encoding. A line buffer
  that neither holds nor frees a byte would loop; \<open>lb_write\<close> stops there, and a buffer of four
  bytes or more is never in that state.
\<close>

section \<open>Events and state\<close>

record ('t, 'f) event =
  ev_time :: "'t option"
  ev_action :: string
  ev_package :: string
  ev_test :: string
  ev_elapsed :: "'f option"
  ev_output :: "string option"
  ev_output_type :: string
  ev_key :: string
  ev_value :: string
  ev_path :: string

definition bare_event :: "string \<Rightarrow> ('t, 'f) event" where
  "bare_event action = \<lparr>ev_time = None, ev_action = action, ev_package = [], ev_test = [], ev_elapsed = None,
     ev_output = None, ev_output_type = [], ev_key = [], ev_value = [], ev_path = []\<rparr>"

definition output_event :: "string \<Rightarrow> string \<Rightarrow> ('t, 'f) event" where
  "output_event out typ = (bare_event ''output'')\<lparr>ev_output := Some out, ev_output_type := typ\<rparr>"

record line_buffer =
  lb_bytes :: string
  lb_mid :: bool
  lb_escaped :: bool
  lb_scanned :: nat

record ('t, 'f) converter =
  cv_err :: "string option"
  cv_closed :: bool
  cv_test_name :: string
  cv_report :: "('t, 'f) event list"
  cv_result :: string
  cv_input :: line_buffer
  cv_output :: line_buffer
  cv_mark_framing :: bool
  cv_mark_err_end :: bool
  cv_mark_escape :: bool
  cv_is_framing :: bool
  cv_events :: "('t, 'f) event list"
  cv_writes :: nat

record ('t, 'f) tools =
  tk_package :: string
  tk_stamp :: bool
  tk_in_cap :: nat
  tk_out_cap :: nat
  tk_lower :: "nat \<Rightarrow> nat"
  tk_is_lower :: "nat \<Rightarrow> bool"
  tk_float :: "string \<Rightarrow> 'f option"
  tk_clock :: "nat \<Rightarrow> 't"
  tk_since :: "nat \<Rightarrow> 'f"
  tk_fault :: "nat \<Rightarrow> string option"

section \<open>Line buffers\<close>

definition mark_framing :: char where "mark_framing = CHR 0x16"
definition mark_err_begin :: char where "mark_err_begin = CHR 0x0F"
definition mark_err_end :: char where "mark_err_end = CHR 0x0E"
definition mark_escape :: char where "mark_escape = CHR 0x1B"
definition newline :: char where "newline = CHR 0x0A"

fun scan_eol :: "bool \<Rightarrow> nat \<Rightarrow> bool \<Rightarrow> string \<Rightarrow> (nat \<times> nat) option \<times> bool \<times> nat" where
  "scan_eol mid i escaped [] = (None, escaped, i)"
| "scan_eol mid i escaped (c # cs) =
     (if c = newline then (Some (i, 1), False, Suc i)
      else if escaped then scan_eol mid (Suc i) False cs
      else if c = mark_escape then scan_eol mid (Suc i) True cs
      else if c = mark_framing \<and> (0 < i \<or> mid) then (Some (i, 0), False, Suc i)
      else scan_eol mid (Suc i) False cs)"

definition index_eol :: "line_buffer \<Rightarrow> (nat \<times> nat) option \<times> bool \<times> nat" where
  "index_eol lb = scan_eol (lb_mid lb) (lb_scanned lb) (lb_escaped lb) (drop (lb_scanned lb) (lb_bytes lb))"

definition is_benchmark_name :: "(nat \<Rightarrow> bool) \<Rightarrow> string \<Rightarrow> bool" where
  "is_benchmark_name low b \<longleftrightarrow>
     has_prefix b ''Benchmark''
     \<and> (length b = length ''Benchmark'' \<or> \<not> low (fst (decode_rune (drop (length ''Benchmark'') b))))"

text \<open>The benchmark name, its padding and its tab, at the head of a line still open.\<close>

definition benchmark_head :: "(nat \<Rightarrow> bool) \<Rightarrow> string \<Rightarrow> nat option" where
  "benchmark_head low b =
     (let name = takeWhile (\<lambda>c. c \<noteq> CHR 0x09) b in
      if length name < length b \<and> is_benchmark_name low (rev (dropWhile (\<lambda>c. c = CHR '' '') (rev name)))
      then Some (Suc (length name)) else None)"

definition continuation :: "char \<Rightarrow> bool" where
  "continuation c \<longleftrightarrow> 128 \<le> byte_val c \<and> byte_val c < 192"

text \<open>The bytes the lead byte asks for, as far as the test of its top bits says.\<close>

definition lead_width :: "char \<Rightarrow> nat" where
  "lead_width c =
     (let v = byte_val c in
      if 192 \<le> v \<and> v < 224 then 2 else if 224 \<le> v \<and> v < 240 then 3 else if 240 \<le> v \<and> v < 248 then 4 else 0)"

definition trim_utf8 :: "string \<Rightarrow> nat" where
  "trim_utf8 b =
     (case find (\<lambda>i. i \<le> length b \<and> \<not> continuation (b ! (length b - i))) [1, 2, 3] of
        None \<Rightarrow> length b
      | Some i \<Rightarrow> if i < lead_width (b ! (length b - i)) then length b - i else length b)"

lemma scan_eol_bounds:
  "scan_eol mid i escaped cs = (r, e, n) \<Longrightarrow>
     n \<le> i + length cs \<and> (r = None \<longrightarrow> n = i + length cs)
     \<and> (case r of None \<Rightarrow> True | Some (j, w) \<Rightarrow> i \<le> j \<and> j + w \<le> i + length cs \<and> j < i + length cs \<and> (0 < j + w \<or> mid))"
  by (induction mid i escaped cs arbitrary: r e n rule: scan_eol.induct) (auto split: if_splits option.splits)

lemma index_eol_bounds:
  assumes "index_eol lb = (Some (j, w), e, n)"
  shows "j + w \<le> length (lb_bytes lb)" and "0 < j + w \<or> lb_mid lb" and "lb_bytes lb \<noteq> []"
  using scan_eol_bounds [OF assms [unfolded index_eol_def]] by auto

lemma index_eol_progress:
  assumes "(Some (j, w), e, n) = index_eol lb" and "lb_bytes lb \<noteq> []"
  shows "2 * (length (lb_bytes lb) - (j + w)) < 2 * length (lb_bytes lb) + (if lb_mid lb then 1 else 0)"
  using index_eol_bounds [OF assms(1) [symmetric]] assms(2) by (cases "j + w") auto

function lb_lines ::
  "(nat \<Rightarrow> bool) \<Rightarrow> (string \<Rightarrow> 's \<Rightarrow> 's) \<Rightarrow> (string \<Rightarrow> 's \<Rightarrow> 's) \<Rightarrow> line_buffer \<Rightarrow> 's \<Rightarrow> line_buffer \<times> 's" where
  "lb_lines low line part lb s =
     (if lb_bytes lb = [] then (lb, s)
      else case index_eol lb of
        (None, e, n) \<Rightarrow>
          let lb1 = lb\<lparr>lb_escaped := e, lb_scanned := n\<rparr> in
          (case (if lb_mid lb then None else benchmark_head low (lb_bytes lb)) of
             None \<Rightarrow> (lb1, s)
           | Some k \<Rightarrow>
               (lb1\<lparr>lb_bytes := drop k (lb_bytes lb), lb_mid := True, lb_scanned := n - k\<rparr>, part (take k (lb_bytes lb)) s))
      | (Some (j, w), e, n) \<Rightarrow>
          lb_lines low line part
            (lb\<lparr>lb_bytes := drop (j + w) (lb_bytes lb), lb_mid := False, lb_escaped := e, lb_scanned := 0\<rparr>)
            ((if lb_mid lb then part else line) (take (j + w) (lb_bytes lb)) s))"
  by pat_completeness auto
termination
proof (relation "measure (\<lambda>(low, line, part, lb, s). 2 * length (lb_bytes lb) + (if lb_mid lb then 1 else 0))", goal_cases)
  case (2 low line part lb s)
  then show ?case by (auto dest: index_eol_progress)
qed auto

declare lb_lines.simps [simp del]

function lb_write ::
  "(nat \<Rightarrow> bool) \<Rightarrow> nat \<Rightarrow> (string \<Rightarrow> 's \<Rightarrow> 's) \<Rightarrow> (string \<Rightarrow> 's \<Rightarrow> 's) \<Rightarrow> line_buffer \<Rightarrow> string \<Rightarrow> 's
     \<Rightarrow> line_buffer \<times> 's" where
  "lb_write low cap line part lb b s =
     (let m = min (cap - length (lb_bytes lb)) (length b) in
      if m = 0 then (lb, s)
      else let full = lb_bytes lb @ take m b;
               (lb1, s1) = lb_lines low line part (lb\<lparr>lb_bytes := full\<rparr>) s;
               t = trim_utf8 (lb_bytes lb1);
               (lb2, s2) = (if length (lb_bytes lb1) = length full \<and> length full = cap
                 then (lb1\<lparr>lb_bytes := drop t (lb_bytes lb1), lb_scanned := lb_scanned lb1 - t, lb_mid := True\<rparr>,
                       part (take t (lb_bytes lb1)) s1)
                 else (lb1, s1))
           in lb_write low cap line part lb2 (drop m b) s2)"
  by pat_completeness auto
termination by (relation "measure (\<lambda>(low, cap, line, part, lb, b, s). length b)") auto

declare lb_write.simps [simp del]

definition lb_flush :: "(string \<Rightarrow> 's \<Rightarrow> 's) \<Rightarrow> line_buffer \<Rightarrow> 's \<Rightarrow> line_buffer \<times> 's" where
  "lb_flush part lb s =
     (if lb_bytes lb = [] then (lb, s) else (lb\<lparr>lb_bytes := [], lb_scanned := 0\<rparr>, part (lb_bytes lb) s))"

section \<open>Writing events\<close>

definition write_event ::
  "('t, 'f) tools \<Rightarrow> ('t, 'f) event \<Rightarrow> ('t, 'f) converter \<Rightarrow> ('t, 'f) converter" where
  "write_event tk e c =
     (if cv_err c \<noteq> None then c
      else let e1 = e\<lparr>ev_package := tk_package tk,
                 ev_time := (if tk_stamp tk then Some (tk_clock tk (cv_writes c)) else None),
                 ev_test := (if ev_test e = [] then cv_test_name c else ev_test e)\<rparr>;
               c1 = c\<lparr>cv_writes := Suc (cv_writes c)\<rparr>
           in case tk_fault tk (cv_writes c) of
                None \<Rightarrow> c1\<lparr>cv_events := cv_events c @ [e1]\<rparr>
              | Some m \<Rightarrow> c1\<lparr>cv_err := Some m\<rparr>)"

text \<open>The scan of an output piece: \<open>pre\<close> is what of it stands before the next byte.\<close>

function split_output ::
  "('t, 'f) tools \<Rightarrow> string \<Rightarrow> string \<Rightarrow> string \<Rightarrow> ('t, 'f) converter \<Rightarrow> ('t, 'f) converter" where
  "split_output tk typ pre [] c = (if pre = [] then c else write_event tk (output_event pre typ) c)"
| "split_output tk typ pre (x # xs) c =
     (if cv_mark_escape c then split_output tk typ (pre @ [x]) xs (c\<lparr>cv_mark_escape := False\<rparr>)
      else if x = mark_escape then split_output tk typ pre xs (c\<lparr>cv_mark_escape := True\<rparr>)
      else if x = mark_err_begin
      then split_output tk ''error'' [] xs
             ((if pre = [] then c else write_event tk (output_event pre typ) c)\<lparr>cv_mark_err_end := True\<rparr>)
      else if x = mark_err_end
      then let line = (if has_prefix xs [newline] then pre @ [newline] else pre) in
           split_output tk [] [] (trim_prefix xs [newline])
             ((write_event tk (output_event line typ) c)\<lparr>cv_mark_err_end := False\<rparr>)
      else split_output tk typ (pre @ [x]) xs c)"
  by pat_completeness auto
termination
  by (relation "measure (\<lambda>(tk, typ, pre, xs, c). length xs)") (auto simp: trim_prefix_def)

definition write_output :: "('t, 'f) tools \<Rightarrow> string \<Rightarrow> ('t, 'f) converter \<Rightarrow> ('t, 'f) converter" where
  "write_output tk out c =
     split_output tk (if cv_is_framing c then ''frame'' else if cv_mark_err_end c then ''error-continue'' else [])
       [] out c"

definition out_write :: "('t, 'f) tools \<Rightarrow> string \<Rightarrow> ('t, 'f) converter \<Rightarrow> ('t, 'f) converter" where
  "out_write tk b c =
     (case lb_write (tk_is_lower tk) (tk_out_cap tk) (write_output tk) (write_output tk) (cv_output c) b c of
        (lb, c1) \<Rightarrow> c1\<lparr>cv_output := lb\<rparr>)"

definition out_flush :: "('t, 'f) tools \<Rightarrow> ('t, 'f) converter \<Rightarrow> ('t, 'f) converter" where
  "out_flush tk c = (case lb_flush (write_output tk) (cv_output c) c of (lb, c1) \<Rightarrow> c1\<lparr>cv_output := lb\<rparr>)"

definition write_framing :: "('t, 'f) tools \<Rightarrow> string \<Rightarrow> ('t, 'f) converter \<Rightarrow> ('t, 'f) converter" where
  "write_framing tk line c = (out_write tk line (c\<lparr>cv_is_framing := True\<rparr>))\<lparr>cv_is_framing := False\<rparr>"

text \<open>The pending reports at the depth or deeper, innermost first.\<close>

definition flush_report :: "('t, 'f) tools \<Rightarrow> nat \<Rightarrow> ('t, 'f) converter \<Rightarrow> ('t, 'f) converter" where
  "flush_report tk depth c =
     fold (write_event tk) (rev (drop depth (cv_report c)))
       (c\<lparr>cv_test_name := [], cv_report := take depth (cv_report c)\<rparr>)"

section \<open>Input lines\<close>

definition cut :: "string \<Rightarrow> string \<times> string" where
  "cut s = (case cut_at '' '' s of (a, None) \<Rightarrow> (a, []) | (a, Some r) \<Rightarrow> (a, r))"

definition trim_eol :: "string \<Rightarrow> string" where
  "trim_eol line = (if has_suffix line [newline] then trim_suffix (trim_suffix line [newline]) [CHR 0x0D] else line)"

definition updates :: "string list" where
  "updates = [''=== RUN   '', ''=== PAUSE '', ''=== CONT  '', ''=== NAME  '', ''=== PASS  '', ''=== FAIL  '',
     ''=== SKIP  '', ''=== ATTR  '', ''=== ARTIFACTS '']"

definition reports :: "string list" where
  "reports = [''--- PASS: '', ''--- FAIL: '', ''--- SKIP: '', ''--- BENCH: '']"

function unindent :: "string \<Rightarrow> nat \<times> string" where
  "unindent line =
     (if has_prefix line ''    '' then (case unindent (drop 4 line) of (n, r) \<Rightarrow> (Suc n, r)) else (0, line))"
  by pat_completeness auto
termination by (relation "measure length") (auto simp: has_prefix_iff)

declare unindent.simps [simp del]

text \<open>Action and name of a directive line.\<close>

definition directive :: "('t, 'f) tools \<Rightarrow> string \<Rightarrow> string \<times> string" where
  "directive tk line =
     (case cut (drop 4 line) of (action, name) \<Rightarrow>
        (go_lower (tk_lower tk) (trim_suffix action '':''), trim_space name))"

definition report_event :: "('t, 'f) tools \<Rightarrow> string \<Rightarrow> ('t, 'f) event" where
  "report_event tk line =
     (case directive tk line of (action, name) \<Rightarrow>
      case cut_at '' ('' name of
        (a, None) \<Rightarrow> (bare_event action)\<lparr>ev_test := name\<rparr>
      | (a, Some r) \<Rightarrow>
          (bare_event action)\<lparr>ev_test := a,
             ev_elapsed := (if has_suffix name ''s)'' \<and> tk_stamp tk then tk_float tk (take (length r - 2) r) else None)\<rparr>)"

definition report_line ::
  "('t, 'f) tools \<Rightarrow> bool \<Rightarrow> string \<Rightarrow> nat \<Rightarrow> string \<Rightarrow> ('t, 'f) converter \<Rightarrow> ('t, 'f) converter" where
  "report_line tk saw orig indent line c =
     (if length (cv_report c) < indent then out_write tk orig c
      else let e = report_event tk line; c1 = flush_report tk indent (c\<lparr>cv_mark_framing := saw\<rparr>) in
        write_framing tk orig (c1\<lparr>cv_test_name := ev_test e, cv_report := cv_report c1 @ [e]\<rparr>))"

text \<open>The test an update names and its event.\<close>

definition update_event :: "string \<Rightarrow> string \<Rightarrow> string \<times> ('t, 'f) event" where
  "update_event action name =
     (if action = ''artifacts'' then (case cut name of (n, p) \<Rightarrow> (n, (bare_event action)\<lparr>ev_path := p\<rparr>))
      else if action = ''attr''
      then (case cut name of (n, rest) \<Rightarrow>
            case cut rest of (k, v) \<Rightarrow> (n, (bare_event action)\<lparr>ev_key := k, ev_value := v\<rparr>))
      else (name, bare_event action))"

definition update_line ::
  "('t, 'f) tools \<Rightarrow> bool \<Rightarrow> string \<Rightarrow> ('t, 'f) converter \<Rightarrow> ('t, 'f) converter" where
  "update_line tk saw line c =
     (case directive tk line of (action, name) \<Rightarrow>
      case update_event action name of (test, e) \<Rightarrow>
      let c1 = (flush_report tk 0 (c\<lparr>cv_mark_framing := saw\<rparr>))\<lparr>cv_test_name := test\<rparr> in
      if action = ''name'' then c1
      else if action = ''pause'' then write_event tk e (write_framing tk line c1)
      else write_framing tk line (write_event tk e c1))"

definition plain_line :: "('t, 'f) tools \<Rightarrow> string \<Rightarrow> nat \<Rightarrow> ('t, 'f) converter \<Rightarrow> ('t, 'f) converter" where
  "plain_line tk line indent c =
     out_write tk line
       (if 0 < indent \<and> indent \<le> length (cv_report c) then c\<lparr>cv_test_name := ev_test (cv_report c ! (indent - 1))\<rparr> else c)"

definition directive_line ::
  "('t, 'f) tools \<Rightarrow> bool \<Rightarrow> string \<Rightarrow> ('t, 'f) converter \<Rightarrow> ('t, 'f) converter" where
  "directive_line tk saw line c =
     (if list_ex (has_prefix line) updates then update_line tk saw line c
      else case unindent line of (indent, rest) \<Rightarrow>
        if list_ex (has_prefix rest) reports then report_line tk saw line indent rest c
        else plain_line tk line indent c)"

definition big_fail_prefix :: string where
  "big_fail_prefix = ''FAIL'' @ [CHR 0x09]"

definition final_line ::
  "('t, 'f) tools \<Rightarrow> bool \<Rightarrow> string \<Rightarrow> string \<Rightarrow> ('t, 'f) converter \<Rightarrow> ('t, 'f) converter" where
  "final_line tk saw line verdict c =
     (write_framing tk line ((flush_report tk 0 c)\<lparr>cv_test_name := [], cv_mark_framing := saw\<rparr>))\<lparr>cv_result := verdict\<rparr>"

text \<open>The line without its framing mark, with the spaces an emptied name line may have lost.\<close>

definition unmarked :: "string \<Rightarrow> string" where
  "unmarked line =
     (let l = (if hd line = mark_framing then tl line else line) in
      if trim_eol l = ''=== NAME'' then ''=== NAME  '' @ [newline] else l)"

definition handle_line :: "('t, 'f) tools \<Rightarrow> string \<Rightarrow> ('t, 'f) converter \<Rightarrow> ('t, 'f) converter" where
  "handle_line tk line0 c0 =
     (if line0 = [] then c0
      else if cv_mark_framing c0 \<and> hd line0 \<noteq> mark_framing then out_write tk line0 c0
      else let saw = (hd line0 = mark_framing);
               c = (if saw then out_flush tk c0 else c0);
               line = unmarked line0; trim = trim_eol line
           in if trim = ''PASS'' then final_line tk saw line ''pass'' c
              else if trim = ''FAIL'' \<or> has_prefix trim big_fail_prefix then final_line tk saw line ''fail'' c
              else directive_line tk saw line
                (if has_prefix line (''?   '' @ [CHR 0x09]) \<and> has_suffix trim (CHR 0x09 # ''[no test files]'') \<and> cv_report c = []
                 then c\<lparr>cv_result := ''skip''\<rparr> else c))"

section \<open>The converter\<close>

definition empty_buffer :: line_buffer where
  "empty_buffer = \<lparr>lb_bytes = [], lb_mid = False, lb_escaped = False, lb_scanned = 0\<rparr>"

definition new_converter :: "('t, 'f) tools \<Rightarrow> ('t, 'f) converter" where
  "new_converter tk = write_event tk (bare_event ''start'')
     \<lparr>cv_err = None, cv_closed = False, cv_test_name = [], cv_report = [], cv_result = [], cv_input = empty_buffer,
      cv_output = empty_buffer, cv_mark_framing = False, cv_mark_err_end = False, cv_mark_escape = False,
      cv_is_framing = False, cv_events = [], cv_writes = 0\<rparr>"

definition write_bytes ::
  "('t, 'f) tools \<Rightarrow> string \<Rightarrow> ('t, 'f) converter \<Rightarrow> nat \<times> string option \<times> ('t, 'f) converter" where
  "write_bytes tk b c =
     (if cv_closed c then (0, Some ''io: read/write on closed pipe'', c)
      else if cv_err c \<noteq> None then (0, cv_err c, c)
      else case lb_write (tk_is_lower tk) (tk_in_cap tk) (handle_line tk) (out_write tk) (cv_input c) b c of
        (lb, c1) \<Rightarrow> (length b, cv_err c1, c1\<lparr>cv_input := lb\<rparr>))"

definition in_flush :: "('t, 'f) tools \<Rightarrow> ('t, 'f) converter \<Rightarrow> ('t, 'f) converter" where
  "in_flush tk c = (case lb_flush (out_write tk) (cv_input c) c of (lb, c1) \<Rightarrow> c1\<lparr>cv_input := lb\<rparr>)"

definition close_converter :: "('t, 'f) tools \<Rightarrow> ('t, 'f) converter \<Rightarrow> string option \<times> ('t, 'f) converter" where
  "close_converter tk c =
     (if cv_closed c then (cv_err c, c)
      else let c1 = flush_report tk 0 (out_flush tk (in_flush tk (c\<lparr>cv_closed := True\<rparr>)));
               e = (bare_event (cv_result c1))\<lparr>ev_elapsed := (if tk_stamp tk then Some (tk_since tk (cv_writes c1)) else None)\<rparr>;
               c2 = (if cv_result c1 = [] then c1 else write_event tk e c1)
           in (cv_err c2, c2))"

definition convert :: "('t, 'f) tools \<Rightarrow> string list \<Rightarrow> ('t, 'f) converter" where
  "convert tk chunks = snd (close_converter tk (fold (\<lambda>b c. snd (snd (write_bytes tk b c))) chunks (new_converter tk)))"

section \<open>A line buffer consumes what it is given\<close>

lemma trim_utf8_bounds: "trim_utf8 b \<le> length b" "4 \<le> length b \<Longrightarrow> 0 < trim_utf8 b"
  by (auto simp: trim_utf8_def)

text \<open>
  A sink of pieces: what a callback does with a piece no longer than the buffer composes along
  the stream. Then what the buffer hands on is what it was given, in order.
\<close>

locale piece_sink =
  fixes line :: "string \<Rightarrow> 's \<Rightarrow> 's" and part :: "string \<Rightarrow> 's \<Rightarrow> 's"
    and took :: "'s \<Rightarrow> string \<Rightarrow> 's \<Rightarrow> bool" and cap :: nat
  assumes took_none: "took s [] s"
    and took_more: "took s a t \<Longrightarrow> took t b u \<Longrightarrow> took s (a @ b) u"
    and line_took: "length b \<le> cap \<Longrightarrow> took s b (line b s)"
    and part_took: "length b \<le> cap \<Longrightarrow> took s b (part b s)"
begin

lemma lines_took:
  "lb_lines low line part lb s = (lb', s') \<Longrightarrow> length (lb_bytes lb) \<le> cap \<Longrightarrow>
     \<exists>x. lb_bytes lb = x @ lb_bytes lb' \<and> took s x s'"
proof (induction "2 * length (lb_bytes lb) + (if lb_mid lb then 1 else 0)" arbitrary: lb s rule: less_induct)
  case less
  obtain r e n where i: "index_eol lb = (r, e, n)" by (metis prod_cases3)
  show ?case
  proof (cases "lb_bytes lb = []")
    case True
    with less.prems took_none show ?thesis by (simp add: lb_lines.simps)
  next
    case False
    show ?thesis
    proof (cases r)
      case None
      let ?k = "if lb_mid lb then None else benchmark_head low (lb_bytes lb)"
      show ?thesis
      proof (cases ?k)
        case None
        with less.prems(1) i \<open>r = None\<close> False took_none show ?thesis by (auto simp: lb_lines.simps Let_def)
      next
        case (Some k)
        with less.prems(1) i \<open>r = None\<close> False have "lb_bytes lb' = drop k (lb_bytes lb)" "s' = part (take k (lb_bytes lb)) s"
          by (auto simp: lb_lines.simps Let_def split: if_splits)
        moreover have "took s (take k (lb_bytes lb)) (part (take k (lb_bytes lb)) s)"
          using less.prems(2) by (intro part_took) auto
        ultimately show ?thesis by (metis append_take_drop_id)
      qed
    next
      case (Some jw)
      then obtain j w where r: "r = Some (j, w)" by (cases jw) auto
      let ?x = "take (j + w) (lb_bytes lb)"
      let ?lb = "lb\<lparr>lb_bytes := drop (j + w) (lb_bytes lb), lb_mid := False, lb_escaped := e, lb_scanned := 0\<rparr>"
      let ?s = "(if lb_mid lb then part else line) ?x s"
      from less.prems(1) i r False have step: "lb_lines low line part ?lb ?s = (lb', s')"
        by (subst (asm) lb_lines.simps) simp
      have "2 * length (lb_bytes ?lb) + (if lb_mid ?lb then 1 else 0) < 2 * length (lb_bytes lb) + (if lb_mid lb then 1 else 0)"
        using index_eol_progress [of j w e n lb] i r False by simp
      moreover have "length (lb_bytes ?lb) \<le> cap" using less.prems(2) by simp
      ultimately obtain y where y: "drop (j + w) (lb_bytes lb) = y @ lb_bytes lb'" "took ?s y s'"
        using less.hyps [OF _ step] by auto
      have "took s ?x ?s" using less.prems(2) line_took part_took by auto
      from took_more [OF this y(2)] y(1) show ?thesis by (metis append_assoc append_take_drop_id)
    qed
  qed
qed

lemma write_took:
  "lb_write low cap line part lb b s = (lb', s') \<Longrightarrow> 4 \<le> cap \<Longrightarrow> length (lb_bytes lb) < cap \<Longrightarrow>
     length (lb_bytes lb') < cap \<and> (\<exists>x. lb_bytes lb @ b = x @ lb_bytes lb' \<and> took s x s')"
proof (induction "length b" arbitrary: lb b s rule: less_induct)
  case less
  show ?case
  proof (cases "b = []")
    case True
    with less.prems took_none show ?thesis by (auto simp: lb_write.simps)
  next
    case False
    obtain m where m_def: "m = min (cap - length (lb_bytes lb)) (length b)" by blast
    have m: "0 < m" "m \<le> length b" using False less.prems(3) by (auto simp: m_def)
    let ?full = "lb_bytes lb @ take m b"
    obtain lb1 s1 where l: "lb_lines low line part (lb\<lparr>lb_bytes := ?full\<rparr>) s = (lb1, s1)" by fastforce
    have full: "length ?full \<le> cap" using less.prems(3) by (auto simp: m_def)
    from lines_took [OF l] full obtain x where x: "?full = x @ lb_bytes lb1" "took s x s1" by auto
    let ?t = "trim_utf8 (lb_bytes lb1)"
    obtain stuck where stuck_def: "stuck \<longleftrightarrow> length (lb_bytes lb1) = length ?full \<and> length ?full = cap" by blast
    let ?lb2 = "if stuck then lb1\<lparr>lb_bytes := drop ?t (lb_bytes lb1), lb_scanned := lb_scanned lb1 - ?t, lb_mid := True\<rparr> else lb1"
    let ?s2 = "if stuck then part (take ?t (lb_bytes lb1)) s1 else s1"
    have two: "length (lb_bytes ?lb2) < cap \<and> (\<exists>y. ?full = y @ lb_bytes ?lb2 \<and> took s y ?s2)"
    proof (cases stuck)
      case True
      then have len: "length (lb_bytes lb1) = cap" by (simp add: stuck_def)
      have "took s1 (take ?t (lb_bytes lb1)) ?s2" using True len by (simp add: part_took)
      from took_more [OF x(2) this] have "took s (x @ take ?t (lb_bytes lb1)) ?s2" .
      moreover have "?full = (x @ take ?t (lb_bytes lb1)) @ lb_bytes ?lb2" using x(1) True by simp
      moreover have "length (lb_bytes ?lb2) < cap"
        using True trim_utf8_bounds(2) [of "lb_bytes lb1"] len less.prems(2) by simp
      ultimately show ?thesis by blast
    next
      case False
      moreover have "length (lb_bytes lb1) \<le> length ?full" using x(1) by (metis length_append le_add2)
      ultimately have "length (lb_bytes lb1) < cap" using full by (auto simp: stuck_def)
      with False x show ?thesis by auto
    qed
    then obtain y where y: "?full = y @ lb_bytes ?lb2" "took s y ?s2" by blast
    have step: "lb_write low cap line part ?lb2 (drop m b) ?s2 = (lb', s')"
      using less.prems(1) m(1) l
      by (subst (asm) lb_write.simps) (auto simp: Let_def m_def [symmetric] stuck_def split: if_splits)
    have "length (drop m b) < length b" using m by simp
    from less.hyps [OF this step less.prems(2)] two obtain z where
      z: "length (lb_bytes lb') < cap" "lb_bytes ?lb2 @ drop m b = z @ lb_bytes lb'" "took ?s2 z s'" by blast
    have "lb_bytes lb @ b = (y @ z) @ lb_bytes lb'"
      using y(1) z(2) by (metis append.assoc append_take_drop_id)
    with z(1) took_more [OF y(2) z(3)] show ?thesis by blast
  qed
qed

lemma flush_took:
  "lb_flush part lb s = (lb', s') \<Longrightarrow> length (lb_bytes lb) \<le> cap \<Longrightarrow> lb_bytes lb' = [] \<and> took s (lb_bytes lb) s'"
  by (auto simp: lb_flush_def took_none part_took split: if_splits)

end

section \<open>The text of the events\<close>

text \<open>The text of a byte stream: its error marks dropped, an escape dropped and what it escapes kept.\<close>

fun elide :: "bool \<Rightarrow> string \<Rightarrow> string" where
  "elide escaped [] = []"
| "elide escaped (c # cs) =
     (if escaped then c # elide False cs
      else if c = mark_escape then elide True cs
      else if c = mark_err_begin \<or> c = mark_err_end then elide False cs
      else c # elide False cs)"

fun escaping :: "bool \<Rightarrow> string \<Rightarrow> bool" where
  "escaping escaped [] = escaped"
| "escaping escaped (c # cs) = escaping (\<not> escaped \<and> c = mark_escape) cs"

lemma elide_append: "elide e (xs @ ys) = elide e xs @ elide (escaping e xs) ys"
  by (induction e xs rule: elide.induct) (auto simp: mark_err_begin_def mark_err_end_def mark_escape_def)

lemma escaping_append: "escaping e (xs @ ys) = escaping (escaping e xs) ys"
  by (induction e xs rule: escaping.induct) auto

definition event_text :: "('t, 'f) event \<Rightarrow> string" where
  "event_text e = (case ev_output e of None \<Rightarrow> [] | Some t \<Rightarrow> t)"

definition stream_text :: "('t, 'f) converter \<Rightarrow> string" where
  "stream_text c = concat (map event_text (cv_events c))"

definition sound_writer :: "('t, 'f) tools \<Rightarrow> bool" where
  "sound_writer tk \<longleftrightarrow> tk_fault tk = (\<lambda>_. None)"

definition events_within :: "('t, 'f) tools \<Rightarrow> ('t, 'f) converter \<Rightarrow> bool" where
  "events_within tk c \<longleftrightarrow> list_all (\<lambda>e. length (event_text e) \<le> tk_out_cap tk) (cv_events c)"

text \<open>What no output piece changes.\<close>

definition same_frame :: "('t, 'f) converter \<Rightarrow> ('t, 'f) converter \<Rightarrow> bool" where
  "same_frame c d \<longleftrightarrow>
     cv_closed d = cv_closed c \<and> cv_test_name d = cv_test_name c \<and> cv_report d = cv_report c
     \<and> cv_result d = cv_result c \<and> cv_input d = cv_input c \<and> cv_output d = cv_output c
     \<and> cv_mark_framing d = cv_mark_framing c \<and> cv_is_framing d = cv_is_framing c"

lemma write_event_frame [simp]:
  "cv_closed (write_event tk e c) = cv_closed c" "cv_test_name (write_event tk e c) = cv_test_name c"
  "cv_report (write_event tk e c) = cv_report c" "cv_result (write_event tk e c) = cv_result c"
  "cv_input (write_event tk e c) = cv_input c" "cv_output (write_event tk e c) = cv_output c"
  "cv_mark_framing (write_event tk e c) = cv_mark_framing c" "cv_is_framing (write_event tk e c) = cv_is_framing c"
  "cv_mark_escape (write_event tk e c) = cv_mark_escape c" "cv_mark_err_end (write_event tk e c) = cv_mark_err_end c"
  by (auto simp: write_event_def Let_def split: option.split)

lemma write_event_text:
  assumes "sound_writer tk" and "cv_err c = None"
  shows "cv_err (write_event tk e c) = None" and "stream_text (write_event tk e c) = stream_text c @ event_text e"
    and "events_within tk (write_event tk e c) = (events_within tk c \<and> length (event_text e) \<le> tk_out_cap tk)"
  using assms
  by (simp_all add: write_event_def sound_writer_def stream_text_def event_text_def events_within_def Let_def)

lemma event_text_simps [simp]:
  "event_text (output_event out typ) = out" "event_text (bare_event a) = []"
  by (simp_all add: event_text_def output_event_def bare_event_def)

lemma split_output_text:
  assumes "sound_writer tk" and "cv_err c = None"
  shows "cv_err (split_output tk kind pre xs c) = None
    \<and> stream_text (split_output tk kind pre xs c) = stream_text c @ pre @ elide (cv_mark_escape c) xs
    \<and> cv_mark_escape (split_output tk kind pre xs c) = escaping (cv_mark_escape c) xs
    \<and> same_frame c (split_output tk kind pre xs c)
    \<and> (length (pre @ xs) \<le> tk_out_cap tk \<longrightarrow> events_within tk c \<longrightarrow> events_within tk (split_output tk kind pre xs c))"
  using assms
proof (induction "length xs" arbitrary: kind pre xs c rule: less_induct)
  case less
  show ?case
  proof (cases xs)
    case Nil
    with less.prems show ?thesis by (simp add: write_event_text same_frame_def)
  next
    case (Cons x ys)
    note IH = less.hyps [OF _ less.prems(1)]
    have shorter: "length ys < length xs" using Cons by simp
    show ?thesis
    proof (cases "\<not> cv_mark_escape c \<and> x = mark_err_end")
      case True
      obtain line rest where line_def: "line = (if has_prefix ys [newline] then pre @ [newline] else pre)"
        and rest_def: "rest = trim_prefix ys [newline]" by blast
      have split: "line @ rest = pre @ ys" "length rest \<le> length ys" "elide False ys = drop (length pre) line @ elide False rest"
        "escaping False ys = escaping False rest" "length line \<le> length (pre @ xs)" "take (length pre) line = pre"
        using Cons by (auto simp: line_def rest_def trim_prefix_def has_prefix_iff newline_def mark_escape_def mark_err_begin_def mark_err_end_def)
      let ?c = "(write_event tk (output_event line kind) c)\<lparr>cv_mark_err_end := False\<rparr>"
      have c: "cv_err ?c = None" "stream_text ?c = stream_text c @ line" "cv_mark_escape ?c = False" "same_frame c ?c"
        "events_within tk ?c = (events_within tk c \<and> length line \<le> tk_out_cap tk)"
        using write_event_text [OF less.prems, of "output_event line kind"] True
        by (simp_all add: stream_text_def events_within_def same_frame_def)
      have eq: "split_output tk kind pre xs c = split_output tk [] [] rest ?c"
        using True Cons by (simp add: Let_def line_def rest_def mark_err_begin_def mark_err_end_def mark_escape_def)
      have "line = pre @ drop (length pre) line" using split(6) by (metis append_take_drop_id)
      then have strm: "stream_text c @ line @ elide False rest = stream_text c @ pre @ elide False xs"
        using True Cons split(3) by (auto simp: mark_err_end_def mark_escape_def)
      have esc: "escaping (cv_mark_escape c) xs = escaping False rest"
        using True Cons split(4) by (simp add: mark_err_end_def mark_escape_def)
      from IH [of rest ?c "[]" "[]"] shorter split(2,5) c strm esc True Cons show ?thesis
        unfolding eq by (auto simp: same_frame_def)
    next
      case notend: False
      consider (escaped) "cv_mark_escape c" | (escape) "\<not> cv_mark_escape c" "x = mark_escape"
        | (begin0) "\<not> cv_mark_escape c" "x = mark_err_begin" "x \<noteq> mark_escape"
        | (plain) "\<not> cv_mark_escape c" "x \<noteq> mark_escape" "x \<noteq> mark_err_begin" "x \<noteq> mark_err_end"
        using notend by (auto simp: mark_err_begin_def mark_escape_def)
      then show ?thesis
      proof cases
        case escaped
        have frame: "stream_text (c\<lparr>cv_mark_escape := False\<rparr>) = stream_text c"
          "events_within tk (c\<lparr>cv_mark_escape := False\<rparr>) = events_within tk c"
          by (simp_all add: stream_text_def events_within_def)
        from IH [of ys "c\<lparr>cv_mark_escape := False\<rparr>" kind "pre @ [x]"] shorter less.prems(2) escaped Cons frame
        show ?thesis by (simp add: same_frame_def)
      next
        case escape
        have frame: "stream_text (c\<lparr>cv_mark_escape := True\<rparr>) = stream_text c"
          "events_within tk (c\<lparr>cv_mark_escape := True\<rparr>) = events_within tk c"
          by (simp_all add: stream_text_def events_within_def)
        from IH [of ys "c\<lparr>cv_mark_escape := True\<rparr>" kind pre] shorter less.prems(2) escape Cons frame
        show ?thesis by (simp add: same_frame_def)
      next
        case begin0
        let ?c = "(if pre = [] then c else write_event tk (output_event pre kind) c)\<lparr>cv_mark_err_end := True\<rparr>"
        have c: "cv_err ?c = None" "stream_text ?c = stream_text c @ pre" "cv_mark_escape ?c = False" "same_frame c ?c"
          "events_within tk ?c = (events_within tk c \<and> (pre = [] \<or> length pre \<le> tk_out_cap tk))"
          using write_event_text [OF less.prems, of "output_event pre kind"] less.prems(2) begin0
          by (simp_all add: stream_text_def events_within_def same_frame_def)
        have eq: "split_output tk kind pre xs c = split_output tk ''error'' [] ys ?c" using begin0 Cons by simp
        from IH [of ys ?c "''error''" "[]"] shorter c begin0 Cons show ?thesis
          unfolding eq by (auto simp: same_frame_def)
      next
        case plain
        from IH [of ys c kind "pre @ [x]"] shorter less.prems(2) plain Cons show ?thesis by simp
      qed
    qed
  qed
qed

text \<open>A piece written to the output: its text is emitted, and nothing else changes.\<close>

definition emits :: "('t, 'f) tools \<Rightarrow> ('t, 'f) converter \<Rightarrow> string \<Rightarrow> ('t, 'f) converter \<Rightarrow> bool" where
  "emits tk c b d \<longleftrightarrow>
     (sound_writer tk \<and> cv_err c = None \<longrightarrow>
        cv_err d = None \<and> stream_text d = stream_text c @ elide (cv_mark_escape c) b
        \<and> cv_mark_escape d = escaping (cv_mark_escape c) b \<and> same_frame c d
        \<and> (events_within tk c \<longrightarrow> events_within tk d))"

interpretation outbuf: piece_sink "write_output tk" "write_output tk" "emits tk" "tk_out_cap tk"
  for tk :: "('t, 'f) tools"
proof unfold_locales
  fix s t u :: "('t, 'f) converter" and a b :: string
  show "emits tk s [] s" by (simp add: emits_def same_frame_def)
  show "emits tk s a t \<Longrightarrow> emits tk t b u \<Longrightarrow> emits tk s (a @ b) u"
    by (simp add: emits_def elide_append escaping_append same_frame_def)
  show "length b \<le> tk_out_cap tk \<Longrightarrow> emits tk s b (write_output tk b s)"
    using split_output_text [of tk s _ "[]" b] by (simp add: emits_def write_output_def)
qed

text \<open>The whole text a converter stands for, were \<open>ys\<close> to follow on the output.\<close>

definition view :: "('t, 'f) converter \<Rightarrow> string \<Rightarrow> string" where
  "view c ys = stream_text c @ elide (cv_mark_escape c) (lb_bytes (cv_output c) @ ys)"

definition ready :: "('t, 'f) tools \<Rightarrow> ('t, 'f) converter \<Rightarrow> bool" where
  "ready tk c \<longleftrightarrow>
     sound_writer tk \<and> 4 \<le> tk_out_cap tk \<and> cv_err c = None \<and> length (lb_bytes (cv_output c)) < tk_out_cap tk
     \<and> list_all (\<lambda>e. event_text e = []) (cv_report c) \<and> events_within tk c"

definition passes :: "('t, 'f) tools \<Rightarrow> ('t, 'f) converter \<Rightarrow> string \<Rightarrow> ('t, 'f) converter \<Rightarrow> bool" where
  "passes tk c ks d \<longleftrightarrow> (ready tk c \<longrightarrow> ready tk d \<and> (\<forall>ys. view d ys = view c (ks @ ys)) \<and> cv_input d = cv_input c
     \<and> cv_closed d = cv_closed c)"

lemma passes_none [intro, simp]: "passes tk c [] c"
  by (simp add: passes_def)

lemma passes_more: "passes tk c a d \<Longrightarrow> passes tk d b e \<Longrightarrow> passes tk c (a @ b) e"
  by (simp add: passes_def)

lemmas passes_then = passes_more [where a = "[]", simplified] and passes_last = passes_more [where b = "[]", simplified]

lemma passes_fields:
  "passes tk c [] (c\<lparr>cv_test_name := n\<rparr>)" "passes tk c [] (c\<lparr>cv_result := r\<rparr>)"
  "passes tk c [] (c\<lparr>cv_mark_framing := m\<rparr>)" "passes tk c [] (c\<lparr>cv_is_framing := m\<rparr>)"
  by (simp_all add: passes_def ready_def view_def stream_text_def events_within_def)

lemma passes_reports:
  "list_all (\<lambda>e. event_text e = []) es \<Longrightarrow> passes tk c [] (c\<lparr>cv_report := es\<rparr>)"
  by (simp add: passes_def ready_def view_def stream_text_def events_within_def)

lemma passes_event: "event_text e = [] \<Longrightarrow> passes tk c [] (write_event tk e c)"
  by (auto simp: passes_def ready_def view_def write_event_text)

lemma passes_out_write: "passes tk c b (out_write tk b c)"
proof (cases "ready tk c")
  case True
  then have r: "sound_writer tk" "4 \<le> tk_out_cap tk" "cv_err c = None" "length (lb_bytes (cv_output c)) < tk_out_cap tk"
    "list_all (\<lambda>e. event_text e = []) (cv_report c)" "events_within tk c" by (simp_all add: ready_def)
  obtain lb d where w: "lb_write (tk_is_lower tk) (tk_out_cap tk) (write_output tk) (write_output tk) (cv_output c) b c = (lb, d)"
    by fastforce
  from outbuf.write_took [OF w r(2,4)] obtain x where x: "length (lb_bytes lb) < tk_out_cap tk"
    "lb_bytes (cv_output c) @ b = x @ lb_bytes lb" "emits tk c x d" by blast
  from x(3) r(1,3,6) have d: "cv_err d = None" "stream_text d = stream_text c @ elide (cv_mark_escape c) x"
    "cv_mark_escape d = escaping (cv_mark_escape c) x" "same_frame c d" "events_within tk d" by (auto simp: emits_def)
  have "view (d\<lparr>cv_output := lb\<rparr>) ys = view c (b @ ys)" for ys
  proof -
    have "view (d\<lparr>cv_output := lb\<rparr>) ys = stream_text d @ elide (cv_mark_escape d) (lb_bytes lb @ ys)"
      by (simp add: view_def stream_text_def)
    also have "\<dots> = stream_text c @ elide (cv_mark_escape c) (x @ lb_bytes lb @ ys)"
      by (simp only: d(2,3) elide_append append_assoc)
    also have "x @ lb_bytes lb @ ys = lb_bytes (cv_output c) @ b @ ys"
      using x(2) by (metis append_assoc)
    finally show ?thesis by (simp add: view_def)
  qed
  moreover have "ready tk (d\<lparr>cv_output := lb\<rparr>)"
    using r x(1) d by (simp add: ready_def events_within_def same_frame_def)
  ultimately show ?thesis using w d(4) by (simp add: passes_def out_write_def same_frame_def)
qed (simp add: passes_def)

lemma passes_out_flush: "passes tk c [] (out_flush tk c)"
proof (cases "ready tk c")
  case True
  then have r: "sound_writer tk" "4 \<le> tk_out_cap tk" "cv_err c = None" "length (lb_bytes (cv_output c)) < tk_out_cap tk"
    "list_all (\<lambda>e. event_text e = []) (cv_report c)" "events_within tk c" by (simp_all add: ready_def)
  obtain lb d where w: "lb_flush (write_output tk) (cv_output c) c = (lb, d)" by fastforce
  from outbuf.flush_took [OF w] r(4) have x: "lb_bytes lb = []" "emits tk c (lb_bytes (cv_output c)) d" by auto
  from x(2) r(1,3,6) have d: "cv_err d = None" "stream_text d = stream_text c @ elide (cv_mark_escape c) (lb_bytes (cv_output c))"
    "cv_mark_escape d = escaping (cv_mark_escape c) (lb_bytes (cv_output c))" "same_frame c d" "events_within tk d"
    by (auto simp: emits_def)
  have "view (d\<lparr>cv_output := lb\<rparr>) ys = view c ys" for ys
    using d(2,3) x(1) by (simp add: view_def stream_text_def elide_append)
  moreover have "ready tk (d\<lparr>cv_output := lb\<rparr>)"
    using r x(1) d by (simp add: ready_def events_within_def same_frame_def)
  ultimately show ?thesis using w d(4) by (simp add: passes_def out_flush_def same_frame_def)
qed (simp add: passes_def)

lemma out_flush_empty: "lb_bytes (cv_output (out_flush tk c)) = []"
  by (auto simp: out_flush_def lb_flush_def)

lemma passes_framing: "passes tk c line (write_framing tk line c)"
  unfolding write_framing_def
  by (rule passes_last [OF passes_then [OF passes_fields(4) passes_out_write] passes_fields(4)])

lemma passes_events:
  "list_all (\<lambda>e. event_text e = []) es \<Longrightarrow> passes tk c [] (fold (write_event tk) es c)"
  by (induction es arbitrary: c) (auto intro: passes_then passes_event)

lemma passes_flush_report: "passes tk c [] (flush_report tk depth c)"
proof (cases "ready tk c")
  case True
  then have "list_all (\<lambda>e. event_text e = []) (rev (drop depth (cv_report c)))" "list_all (\<lambda>e. event_text e = []) (take depth (cv_report c))"
    by (auto simp: ready_def list_all_iff dest: in_set_dropD in_set_takeD)
  moreover have "c\<lparr>cv_test_name := [], cv_report := r\<rparr> = (c\<lparr>cv_test_name := []\<rparr>)\<lparr>cv_report := r\<rparr>" for r by simp
  ultimately show ?thesis
    unfolding flush_report_def by (metis passes_then passes_fields(1) passes_reports passes_events)
qed (simp add: passes_def)

section \<open>What becomes of an input line\<close>

definition name_line :: "string \<Rightarrow> bool" where
  "name_line piece \<longleftrightarrow> has_prefix (unmarked piece) ''=== NAME  ''"

text \<open>A piece is kept as it is, or without its framing mark, or it is a name line and dropped.\<close>

definition kept_of :: "string \<Rightarrow> string \<Rightarrow> bool" where
  "kept_of piece keep \<longleftrightarrow> keep = piece \<or> piece = mark_framing # keep \<or> (keep = [] \<and> name_line piece)"

lemma lower_words:
  "go_lower lt ''RUN'' = ''run''" "go_lower lt ''PAUSE'' = ''pause''" "go_lower lt ''CONT'' = ''cont''"
  "go_lower lt ''NAME'' = ''name''" "go_lower lt ''PASS'' = ''pass''" "go_lower lt ''FAIL'' = ''fail''"
  "go_lower lt ''SKIP'' = ''skip''" "go_lower lt ''ATTR'' = ''attr''" "go_lower lt ''ARTIFACTS'' = ''artifacts''"
  by (simp_all add: go_lower_def lower_byte_def byte_val_def char_of_def bit_simps)

lemma update_action:
  "fst (directive tk (''=== NAME  '' @ r)) = ''name''"
  "list_ex (has_prefix line) updates \<Longrightarrow> fst (directive tk line) = ''name'' \<Longrightarrow> has_prefix line ''=== NAME  ''"
  by (auto simp: updates_def directive_def cut_def trim_suffix_def has_suffix_def lower_words has_prefix_iff split: prod.splits)

lemma update_event_text: "event_text (snd (update_event action name)) = []"
  by (auto simp: update_event_def event_text_def bare_event_def split: prod.splits)

lemma report_event_text: "event_text (report_event tk line) = []"
  by (auto simp: report_event_def event_text_def bare_event_def split: prod.splits option.splits)

lemma passes_update_line:
  fixes c :: "('t, 'f) converter"
  shows "passes tk c (if fst (directive tk line) = ''name'' then [] else line) (update_line tk saw line c)"
proof -
  obtain action name where d: "directive tk line = (action, name)" by fastforce
  obtain test and e :: "('t, 'f) event" where u: "update_event action name = (test, e)" by fastforce
  have e: "event_text e = []" by (metis u update_event_text snd_conv)
  let ?c = "(flush_report tk 0 (c\<lparr>cv_mark_framing := saw\<rparr>))\<lparr>cv_test_name := test\<rparr>"
  have c: "passes tk c [] ?c"
    by (rule passes_then [OF passes_fields(3) passes_then [OF passes_flush_report passes_fields(1)]])
  show ?thesis
    unfolding update_line_def d u prod.case Let_def fst_conv
    using c passes_then [OF c passes_last [OF passes_framing passes_event [OF e]]]
      passes_then [OF c passes_then [OF passes_event [OF e] passes_framing]] by auto
qed

lemma passes_report_line: "passes tk c orig (report_line tk saw orig indent line c)"
proof (cases "ready tk c \<and> \<not> length (cv_report c) < indent")
  case True
  let ?e = "report_event tk line"
  let ?c = "flush_report tk indent (c\<lparr>cv_mark_framing := saw\<rparr>)"
  have c: "passes tk c [] ?c" by (rule passes_then [OF passes_fields(3) passes_flush_report])
  then have "ready tk ?c" using True by (simp add: passes_def)
  then have "list_all (\<lambda>e. event_text e = []) (cv_report ?c @ [?e])" by (simp add: ready_def report_event_text)
  from passes_reports [OF this] have "passes tk (?c\<lparr>cv_test_name := ev_test ?e\<rparr>) [] (?c\<lparr>cv_test_name := ev_test ?e, cv_report := cv_report ?c @ [?e]\<rparr>)"
    by simp
  from passes_then [OF passes_then [OF c passes_then [OF passes_fields(1) this]] passes_framing] True
  show ?thesis by (simp add: report_line_def Let_def)
next
  case False
  then show ?thesis
    by (cases "length (cv_report c) < indent") (simp_all add: report_line_def passes_out_write, simp add: passes_def)
qed

lemma passes_plain_line: "passes tk c line (plain_line tk line indent c)"
  using passes_then [OF passes_fields(1) passes_out_write] by (auto simp: plain_line_def passes_out_write)

lemma passes_directive_line:
  obtains keep where "passes tk c keep (directive_line tk saw line c)" "keep = line \<or> (keep = [] \<and> has_prefix line ''=== NAME  '')"
proof (cases "list_ex (has_prefix line) updates")
  case True
  then have eq: "directive_line tk saw line c = update_line tk saw line c" by (simp add: directive_line_def)
  show thesis
    by (rule that [of "if fst (directive tk line) = ''name'' then [] else line"])
      (auto simp: eq passes_update_line intro: update_action(2) [OF True])
next
  case False
  have "passes tk c line (directive_line tk saw line c)"
    using False by (simp add: directive_line_def passes_report_line passes_plain_line split: prod.split)
  then show thesis by (rule that) simp
qed

lemma passes_final_line: "passes tk c line (final_line tk saw line verdict c)"
proof -
  have "passes tk c [] ((flush_report tk 0 c)\<lparr>cv_test_name := [], cv_mark_framing := saw\<rparr>)"
    by (rule passes_then [OF passes_flush_report passes_then [OF passes_fields(1) passes_fields(3)]])
  from passes_last [OF passes_then [OF this passes_framing] passes_fields(2)] show ?thesis by (simp add: final_line_def)
qed

lemma passes_handle_line: "\<exists>keep. kept_of line keep \<and> passes tk c keep (handle_line tk line c)"
proof -
  consider (empty) "line = []" | (ordinary) "line \<noteq> []" "cv_mark_framing c" "hd line \<noteq> mark_framing"
    | (framed) "line \<noteq> []" "\<not> (cv_mark_framing c \<and> hd line \<noteq> mark_framing)" by blast
  then show ?thesis
  proof cases
    case empty
    then show ?thesis by (auto simp: handle_line_def kept_of_def intro: exI [of _ "[]"])
  next
    case ordinary
    then show ?thesis by (auto simp: handle_line_def kept_of_def passes_out_write intro: exI [of _ line])
  next
    case framed
    let ?saw = "hd line = mark_framing" and ?l = "unmarked line"
    let ?c = "if ?saw then out_flush tk c else c"
    have c: "passes tk c [] ?c" by (simp add: passes_out_flush)
    have kept: "?l = line \<or> line = mark_framing # ?l \<or> ?l = ''=== NAME  '' @ [newline]"
      using framed(1) by (cases line) (auto simp: unmarked_def Let_def)
    have notname: "\<not> (trim_eol ?l = ''PASS'' \<or> trim_eol ?l = ''FAIL'' \<or> has_prefix (trim_eol ?l) big_fail_prefix)"
      if "?l = ''=== NAME  '' @ [newline]"
      using that by (simp add: trim_eol_def has_suffix_def trim_suffix_def big_fail_prefix_def newline_def)
    show ?thesis
    proof (cases "trim_eol ?l = ''PASS'' \<or> trim_eol ?l = ''FAIL'' \<or> has_prefix (trim_eol ?l) big_fail_prefix")
      case True
      then have "kept_of line ?l" using kept notname by (auto simp: kept_of_def)
      moreover have "passes tk c ?l (handle_line tk line c)"
        using framed True passes_then [OF c passes_final_line] by (auto simp: handle_line_def Let_def)
      ultimately show ?thesis by blast
    next
      case False
      let ?skip = "has_prefix ?l (''?   '' @ [CHR 0x09]) \<and> has_suffix (trim_eol ?l) (CHR 0x09 # ''[no test files]'') \<and> cv_report ?c = []"
      let ?d = "if ?skip then ?c\<lparr>cv_result := ''skip''\<rparr> else ?c"
      have d: "passes tk c [] ?d" using passes_then [OF c passes_fields(2)] c by auto
      have eq: "handle_line tk line c = directive_line tk ?saw ?l ?d"
        using framed False by (cases ?saw) (simp_all add: handle_line_def Let_def)
      obtain keep where keep: "passes tk ?d keep (directive_line tk ?saw ?l ?d)"
        "keep = ?l \<or> (keep = [] \<and> has_prefix ?l ''=== NAME  '')" by (rule passes_directive_line)
      show ?thesis
      proof (cases "?l = ''=== NAME  '' @ [newline]")
        case True
        have "list_ex (has_prefix ?l) updates" unfolding True by (simp add: updates_def)
        with passes_update_line [of tk ?d ?l ?saw] update_action(1) [of tk "[newline]"] True
        have "passes tk ?d [] (directive_line tk ?saw ?l ?d)" by (simp add: directive_line_def)
        with d have "passes tk c [] (handle_line tk line c)" unfolding eq by (rule passes_then)
        moreover have "kept_of line []" using True by (simp add: kept_of_def name_line_def)
        ultimately show ?thesis by blast
      next
        case False
        with kept keep(2) have "kept_of line keep" by (auto simp: kept_of_def name_line_def)
        with passes_then [OF d keep(1)] show ?thesis unfolding eq by blast
      qed
    qed
  qed
qed

section \<open>The whole conversion\<close>

definition takes :: "('t, 'f) tools \<Rightarrow> ('t, 'f) converter \<Rightarrow> string \<Rightarrow> ('t, 'f) converter \<Rightarrow> bool" where
  "takes tk c b d \<longleftrightarrow>
     (\<exists>pieces keeps. concat pieces = b \<and> list_all2 kept_of pieces keeps \<and> passes tk c (concat keeps) d)"

lemma takes_more:
  assumes "takes tk s a t" and "takes tk t b u"
  shows "takes tk s (a @ b) u"
proof -
  from assms obtain ps ks qs ms where p: "concat ps = a" "list_all2 kept_of ps ks" "passes tk s (concat ks) t"
    and q: "concat qs = b" "list_all2 kept_of qs ms" "passes tk t (concat ms) u" by (auto simp: takes_def)
  have "concat (ps @ qs) = a @ b \<and> list_all2 kept_of (ps @ qs) (ks @ ms) \<and> passes tk s (concat (ks @ ms)) u"
    using p(1,2) q(1,2) passes_more [OF p(3) q(3)] by (simp add: list_all2_appendI)
  then show ?thesis unfolding takes_def by blast
qed

interpretation inbuf: piece_sink "handle_line tk" "out_write tk" "takes tk" "tk_in_cap tk"
  for tk :: "('t, 'f) tools"
proof unfold_locales
  fix s t u :: "('t, 'f) converter" and a b :: string
  show "takes tk s [] s" unfolding takes_def by (intro exI [of _ "[]"]) simp
  show "takes tk s a t \<Longrightarrow> takes tk t b u \<Longrightarrow> takes tk s (a @ b) u"
    by (rule takes_more)
  show "length b \<le> tk_in_cap tk \<Longrightarrow> takes tk s b (handle_line tk b s)"
  proof -
    obtain keep where "kept_of b keep" "passes tk s keep (handle_line tk b s)" using passes_handle_line by blast
    then show "takes tk s b (handle_line tk b s)"
      unfolding takes_def by (intro exI [of _ "[b]"] exI [of _ "[keep]"]) simp
  qed
  show "length b \<le> tk_in_cap tk \<Longrightarrow> takes tk s b (out_write tk b s)"
    unfolding takes_def by (intro exI [of _ "[b]"]) (simp add: kept_of_def passes_out_write)
qed

definition converted :: "('t, 'f) tools \<Rightarrow> string \<Rightarrow> ('t, 'f) converter \<Rightarrow> bool" where
  "converted tk b c \<longleftrightarrow>
     ready tk c \<and> (\<exists>pieces keeps. concat pieces = b \<and> list_all2 kept_of pieces keeps
       \<and> (\<forall>ys. view c ys = elide False (concat keeps @ ys)))"

lemma converted_more: "converted tk a c \<Longrightarrow> takes tk c b d \<Longrightarrow> converted tk (a @ b) d"
proof -
  assume a: "converted tk a c" and b: "takes tk c b d"
  from a obtain ps ks where p: "ready tk c" "concat ps = a" "list_all2 kept_of ps ks"
    "\<And>ys. view c ys = elide False (concat ks @ ys)" by (auto simp: converted_def)
  from b obtain qs ms where q: "concat qs = b" "list_all2 kept_of qs ms" "passes tk c (concat ms) d"
    by (auto simp: takes_def)
  from p(1) q(3) have d: "ready tk d" "\<And>ys. view d ys = view c (concat ms @ ys)" by (auto simp: passes_def)
  have "concat (ps @ qs) = a @ b \<and> list_all2 kept_of (ps @ qs) (ks @ ms)
      \<and> (\<forall>ys. view d ys = elide False (concat (ks @ ms) @ ys))"
    using p(2,3,4) q(1,2) d(2) by (simp add: list_all2_appendI)
  with d(1) show "converted tk (a @ b) d" unfolding converted_def by blast
qed

lemma input_frame [simp]:
  "view (c\<lparr>cv_input := lb\<rparr>) = view c" "ready tk (c\<lparr>cv_input := lb\<rparr>) = ready tk c"
  "view (c\<lparr>cv_closed := b\<rparr>) = view c" "ready tk (c\<lparr>cv_closed := b\<rparr>) = ready tk c"
  by (simp_all add: fun_eq_iff view_def stream_text_def ready_def events_within_def)

lemma takes_frame: "takes tk c b d \<Longrightarrow> ready tk c \<Longrightarrow> cv_input d = cv_input c \<and> cv_closed d = cv_closed c \<and> ready tk d"
  by (auto simp: takes_def passes_def)

text \<open>A converter in the course of its writes: what it consumed is converted, the rest is buffered.\<close>

definition feeding :: "('t, 'f) tools \<Rightarrow> string \<Rightarrow> ('t, 'f) converter \<Rightarrow> bool" where
  "feeding tk b c \<longleftrightarrow>
     \<not> cv_closed c \<and> length (lb_bytes (cv_input c)) < tk_in_cap tk
     \<and> (\<exists>x. b = x @ lb_bytes (cv_input c) \<and> converted tk x c)"

lemma feeding_write:
  assumes "4 \<le> tk_in_cap tk" and "feeding tk a c"
  shows "feeding tk (a @ b) (snd (snd (write_bytes tk b c)))"
proof -
  obtain lb d where w: "lb_write (tk_is_lower tk) (tk_in_cap tk) (handle_line tk) (out_write tk) (cv_input c) b c = (lb, d)"
    by fastforce
  from assms(2) obtain x where c: "\<not> cv_closed c" "length (lb_bytes (cv_input c)) < tk_in_cap tk"
    "a = x @ lb_bytes (cv_input c)" "converted tk x c" by (auto simp: feeding_def)
  from inbuf.write_took [OF w assms(1) c(2)] obtain y where y: "length (lb_bytes lb) < tk_in_cap tk"
    "lb_bytes (cv_input c) @ b = y @ lb_bytes lb" "takes tk c y d" by blast
  from c(4) have r: "ready tk c" by (simp add: converted_def)
  then have "cv_err c = None" by (simp add: ready_def)
  with w c(1) have eq: "snd (snd (write_bytes tk b c)) = d\<lparr>cv_input := lb\<rparr>" by (simp add: write_bytes_def)
  have "converted tk (x @ y) (d\<lparr>cv_input := lb\<rparr>)"
    using converted_more [OF c(4) y(3)] by (simp add: converted_def)
  moreover have "a @ b = (x @ y) @ lb_bytes lb" using c(3) y(2) by simp
  ultimately show ?thesis
    using y(1) takes_frame [OF y(3) r] c(1) by (auto simp: feeding_def eq)
qed

lemma feeding_new:
  assumes "sound_writer tk" and "4 \<le> tk_in_cap tk" and "4 \<le> tk_out_cap tk"
  shows "feeding tk [] (new_converter tk)"
proof -
  let ?c = "\<lparr>cv_err = None, cv_closed = False, cv_test_name = [], cv_report = [], cv_result = [], cv_input = empty_buffer,
      cv_output = empty_buffer, cv_mark_framing = False, cv_mark_err_end = False, cv_mark_escape = False,
      cv_is_framing = False, cv_events = [], cv_writes = 0\<rparr> :: ('a, 'b) converter"
  have "ready tk ?c" using assms by (simp add: ready_def empty_buffer_def events_within_def)
  moreover have "view ?c ys = elide False ys" for ys by (simp add: view_def stream_text_def empty_buffer_def)
  ultimately have "converted tk [] ?c" unfolding converted_def by (intro conjI exI [of _ "[]"]) simp_all
  moreover have "takes tk ?c [] (new_converter tk)"
    unfolding takes_def new_converter_def by (intro exI [of _ "[]"]) (simp add: passes_event)
  ultimately have "converted tk [] (new_converter tk)" by (metis converted_more append_Nil)
  then show ?thesis using assms by (simp add: feeding_def new_converter_def empty_buffer_def)
qed

lemma feeding_all:
  "4 \<le> tk_in_cap tk \<Longrightarrow> feeding tk a c \<Longrightarrow>
     feeding tk (a @ concat chunks) (fold (\<lambda>b c. snd (snd (write_bytes tk b c))) chunks c)"
proof (induction chunks arbitrary: a c)
  case (Cons b chunks)
  from Cons.IH [OF Cons.prems(1) feeding_write [OF Cons.prems]] show ?case by simp
qed simp

lemma close_converted:
  assumes "feeding tk b c"
  shows "converted tk b (snd (close_converter tk c)) \<and> lb_bytes (cv_output (snd (close_converter tk c))) = []
    \<and> cv_report (snd (close_converter tk c)) = []"
proof -
  from assms obtain x where c: "\<not> cv_closed c" "length (lb_bytes (cv_input c)) < tk_in_cap tk"
    "b = x @ lb_bytes (cv_input c)" "converted tk x c" by (auto simp: feeding_def)
  let ?c0 = "c\<lparr>cv_closed := True\<rparr>"
  have c0: "converted tk x ?c0" using c(4) by (simp add: converted_def)
  obtain lb d where f: "lb_flush (out_write tk) (cv_input ?c0) ?c0 = (lb, d)" by fastforce
  from inbuf.flush_took [OF f] c(2) have d: "takes tk ?c0 (lb_bytes (cv_input c)) d" by simp
  let ?d = "d\<lparr>cv_input := lb\<rparr>"
  have in_flush: "in_flush tk ?c0 = ?d" using f by (simp add: in_flush_def)
  have "converted tk b ?d" using converted_more [OF c0 d] c(3) by (simp add: converted_def)
  moreover have none: "passes tk p [] q \<Longrightarrow> takes tk p [] q" for p q :: "('a, 'b) converter"
    unfolding takes_def by (intro exI [of _ "[]"]) simp
  let ?e = "flush_report tk 0 (out_flush tk ?d)"
  have "passes tk ?d [] ?e" by (rule passes_then [OF passes_out_flush passes_flush_report])
  ultimately have e: "converted tk b ?e" using converted_more none by (metis append_Nil2)
  have fe: "lb_bytes (cv_output ?e) = []" "cv_report ?e = []"
  proof -
    have "cv_output (fold (write_event tk) es k) = cv_output k \<and> cv_report (fold (write_event tk) es k) = cv_report k"
      for es and k :: "('a, 'b) converter" by (induction es arbitrary: k) simp_all
    then show "lb_bytes (cv_output ?e) = []" "cv_report ?e = []" by (simp_all add: flush_report_def out_flush_empty)
  qed
  let ?t = "(bare_event (cv_result ?e))\<lparr>ev_elapsed := (if tk_stamp tk then Some (tk_since tk (cv_writes ?e)) else None)\<rparr>"
  have "passes tk ?e [] (write_event tk ?t ?e)" by (rule passes_event) (simp add: event_text_def bare_event_def)
  then have "converted tk b (write_event tk ?t ?e)" using converted_more [OF e] none by (metis append_Nil2)
  with e fe c(1) show ?thesis by (simp add: close_converter_def Let_def in_flush)
qed

text \<open>C27: no output is lost. Over a writer that takes every event, with buffers of four bytes or
  more, the texts of the emitted events are, in order, the bytes written, however they were
  chunked, less the framing and error marks and the lines that only name a test: the input
  falls into pieces, each kept as it is, kept without its leading framing mark, or a dropped name
  line, and the text is the kept bytes with their escapes undone. No event is longer than
  the output buffer, and no parsed report is left pending.\<close>

theorem conversion_loses_nothing:
  "if sound_writer tk \<and> 4 \<le> tk_in_cap tk \<and> 4 \<le> tk_out_cap tk
   then let c = convert tk chunks in
     (\<exists>pieces keeps. concat pieces = concat chunks \<and> list_all2 kept_of pieces keeps \<and> stream_text c = elide False (concat keeps))
     \<and> events_within tk c \<and> cv_report c = []
   else True"
proof -
  have "(\<exists>pieces keeps. concat pieces = concat chunks \<and> list_all2 kept_of pieces keeps \<and> stream_text (convert tk chunks) = elide False (concat keeps))
     \<and> events_within tk (convert tk chunks) \<and> cv_report (convert tk chunks) = []"
    if tk: "sound_writer tk" "4 \<le> tk_in_cap tk" "4 \<le> tk_out_cap tk"
  proof -
    have "feeding tk (concat chunks) (fold (\<lambda>b c. snd (snd (write_bytes tk b c))) chunks (new_converter tk))"
      using feeding_all [OF tk(2) feeding_new [OF tk]] by simp
    from close_converted [OF this] have c: "converted tk (concat chunks) (convert tk chunks)"
      "lb_bytes (cv_output (convert tk chunks)) = []" "cv_report (convert tk chunks) = []" by (simp_all add: convert_def)
    then have "stream_text (convert tk chunks) = view (convert tk chunks) []" by (simp add: view_def)
    with c show ?thesis unfolding converted_def ready_def by (metis append_Nil2)
  qed
  then show ?thesis by (simp add: Let_def)
qed

section \<open>A failing writer\<close>

text \<open>The writes answered so far: all without a fault, or all but the last, whose fault stays.\<close>

definition writer_ok :: "('t, 'f) tools \<Rightarrow> ('t, 'f) converter \<Rightarrow> bool" where
  "writer_ok tk c \<longleftrightarrow>
     list_all (\<lambda>n. tk_fault tk n = None) [0..<length (cv_events c)]
     \<and> (case cv_err c of None \<Rightarrow> cv_writes c = length (cv_events c) | Some m \<Rightarrow> tk_fault tk (length (cv_events c)) = Some m)"

lemma writer_event: "writer_ok tk c \<Longrightarrow> writer_ok tk (write_event tk e c)"
  by (auto simp: writer_ok_def write_event_def Let_def split: option.splits)

lemma writer_fields:
  "writer_ok tk (c\<lparr>cv_test_name := n\<rparr>) = writer_ok tk c" "writer_ok tk (c\<lparr>cv_result := r\<rparr>) = writer_ok tk c"
  "writer_ok tk (c\<lparr>cv_mark_framing := m\<rparr>) = writer_ok tk c" "writer_ok tk (c\<lparr>cv_is_framing := m\<rparr>) = writer_ok tk c"
  "writer_ok tk (c\<lparr>cv_report := es\<rparr>) = writer_ok tk c" "writer_ok tk (c\<lparr>cv_output := lb\<rparr>) = writer_ok tk c"
  "writer_ok tk (c\<lparr>cv_input := lb\<rparr>) = writer_ok tk c" "writer_ok tk (c\<lparr>cv_closed := m\<rparr>) = writer_ok tk c"
  "writer_ok tk (c\<lparr>cv_mark_escape := m\<rparr>) = writer_ok tk c" "writer_ok tk (c\<lparr>cv_mark_err_end := m\<rparr>) = writer_ok tk c"
  by (simp_all add: writer_ok_def split: option.split)

lemma lb_lines_keeps:
  assumes "\<And>b s. P s \<Longrightarrow> P (line b s)" and "\<And>b s. P s \<Longrightarrow> P (part b s)"
  shows "P s \<Longrightarrow> P (snd (lb_lines low line part lb s))"
  using assms
proof (induction low line part lb s rule: lb_lines.induct)
  case (1 low line part lb s)
  show ?case
    using 1 by (subst lb_lines.simps) (auto simp: Let_def split: option.split prod.split)
qed

lemma lb_write_keeps:
  assumes "\<And>b s. P s \<Longrightarrow> P (line b s)" and "\<And>b s. P s \<Longrightarrow> P (part b s)"
  shows "P s \<Longrightarrow> P (snd (lb_write low cap line part lb b s))"
  using assms
proof (induction "length b" arbitrary: lb b s rule: less_induct)
  case less
  let ?m = "min (cap - length (lb_bytes lb)) (length b)"
  show ?case
  proof (cases "?m = 0")
    case True
    then show ?thesis using less.prems(1) by (subst lb_write.simps) (simp add: Let_def)
  next
    case False
    obtain lb1 s1 where l: "lb_lines low line part (lb\<lparr>lb_bytes := lb_bytes lb @ take ?m b\<rparr>) s = (lb1, s1)" by fastforce
    have s1: "P s1" using lb_lines_keeps [of P line part s low "lb\<lparr>lb_bytes := lb_bytes lb @ take ?m b\<rparr>"] less.prems l by simp
    have "length (drop ?m b) < length b" using False by simp
    note IH = less.hyps [OF this _ less.prems(2,3)]
    show ?thesis
      using False l s1 IH less.prems(1,3) by (subst lb_write.simps) (simp add: Let_def)
  qed
qed

lemma writer_split: "writer_ok tk c \<Longrightarrow> writer_ok tk (split_output tk kind pre xs c)"
  by (induction tk kind pre xs c rule: split_output.induct) (auto simp: Let_def writer_fields writer_event)

lemma writer_out_write: "writer_ok tk c \<Longrightarrow> writer_ok tk (out_write tk b c)"
  using lb_write_keeps [of "writer_ok tk" "write_output tk" "write_output tk" c "tk_is_lower tk" "tk_out_cap tk" "cv_output c" b]
  by (auto simp: out_write_def write_output_def writer_split writer_fields split: prod.split)

lemma writer_out_flush: "writer_ok tk c \<Longrightarrow> writer_ok tk (out_flush tk c)"
  by (auto simp: out_flush_def lb_flush_def write_output_def writer_split writer_fields)

lemma writer_flush_report: "writer_ok tk c \<Longrightarrow> writer_ok tk (flush_report tk depth c)"
proof -
  have "writer_ok tk c \<Longrightarrow> writer_ok tk (fold (write_event tk) es c)" for es and c
    by (induction es arbitrary: c) (auto simp: writer_event)
  then show "writer_ok tk c \<Longrightarrow> writer_ok tk (flush_report tk depth c)" by (simp add: flush_report_def writer_fields)
qed

lemmas writer_keeps = writer_fields writer_event writer_out_write writer_out_flush writer_flush_report write_framing_def

lemma writer_handle_line: "writer_ok tk c \<Longrightarrow> writer_ok tk (handle_line tk line c)"
  by (simp add: handle_line_def final_line_def directive_line_def update_line_def report_line_def plain_line_def
      writer_keeps Let_def split: prod.split)

lemma writer_write_bytes: "writer_ok tk c \<Longrightarrow> writer_ok tk (snd (snd (write_bytes tk b c)))"
  using lb_write_keeps [of "writer_ok tk" "handle_line tk" "out_write tk" c "tk_is_lower tk" "tk_in_cap tk" "cv_input c" b]
  by (auto simp: write_bytes_def writer_handle_line writer_keeps split: prod.split)

lemma writer_close: "writer_ok tk c \<Longrightarrow> writer_ok tk (snd (close_converter tk c))"
  by (auto simp: close_converter_def in_flush_def lb_flush_def writer_keeps Let_def)

lemma closed_closes: "cv_closed (snd (close_converter tk c))"
proof -
  have ev: "cv_closed (fold (write_event tk) es k) = cv_closed k" for es and k :: "('a, 'b) converter"
    by (induction es arbitrary: k) simp_all
  have so: "cv_closed (split_output tk kind pre xs k) = cv_closed k" for kind pre xs and k :: "('a, 'b) converter"
    by (induction tk kind pre xs k rule: split_output.induct) (auto simp: Let_def)
  have ow: "cv_closed (out_write tk b k)" if "cv_closed k" for b and k :: "('a, 'b) converter"
    using lb_write_keeps [of cv_closed "write_output tk" "write_output tk" k "tk_is_lower tk" "tk_out_cap tk" "cv_output k" b] that
    by (auto simp: out_write_def write_output_def so split: prod.split)
  show ?thesis
    by (auto simp: close_converter_def Let_def flush_report_def ev out_flush_def in_flush_def lb_flush_def write_output_def so ow)
qed

text \<open>A fault of the writer ends the stream. Whatever the writer answers, the events are those of
  the writes before its first fault, in an unbroken run; that fault is the error of the
  conversion; and a closed converter takes no more input, keeps its events and answers the same error.\<close>

theorem writer_fault_final:
  "let c = convert tk chunks in
     list_all (\<lambda>n. tk_fault tk n = None) [0..<length (cv_events c)]
     \<and> (case cv_err c of None \<Rightarrow> cv_writes c = length (cv_events c) | Some m \<Rightarrow> tk_fault tk (length (cv_events c)) = Some m)
     \<and> write_bytes tk b c = (0, Some ''io: read/write on closed pipe'', c) \<and> close_converter tk c = (cv_err c, c)"
proof -
  have "writer_ok tk (new_converter tk)"
    unfolding new_converter_def by (rule writer_event) (simp add: writer_ok_def)
  then have "writer_ok tk (fold (\<lambda>b c. snd (snd (write_bytes tk b c))) chunks (new_converter tk))"
    by (rule fold_invariant_all) (rule writer_write_bytes)
  then have "writer_ok tk (convert tk chunks)" unfolding convert_def by (rule writer_close)
  moreover have "cv_closed (convert tk chunks)" unfolding convert_def by (rule closed_closes)
  ultimately show ?thesis by (simp add: Let_def writer_ok_def write_bytes_def close_converter_def)
qed

end
