(* ===== verification/Stream.thy ===== *)
theory Stream
  imports Detect Proto
begin

text \<open>
  One package's command stream, \<open>internal/backends/golang/execute.go\<close>: the bounded buffer of a
  diagnostic, the events of the stream, the state \<open>parseTestStream\<close> folds them into, and the
  recognition of a test binary's deadline panic. The JSON decoder is outside: a stream is the
  events it decodes and how the decoding ends. The state's maps from test names are partial
  functions; the maps that only ever hold \<open>true\<close> are sets. A time is its nanoseconds,
  \<^const>\<open>None\<close> the zero time.
\<close>

section \<open>Bounded text\<close>

definition failure_output_cap :: nat where "failure_output_cap = 65536"
definition remainder_share :: nat where "remainder_share = failure_output_cap div 4"
definition roster_share :: nat where "roster_share = failure_output_cap div 4"

text \<open>The cut: back from the limit to the nearest byte that starts a rune.\<close>

fun back_off :: "string \<Rightarrow> nat \<Rightarrow> nat" where
  "back_off s 0 = 0"
| "back_off s (Suc n) = (if rune_start (s ! Suc n) then Suc n else back_off s n)"

definition cut_at_rune :: "string \<Rightarrow> nat \<Rightarrow> string" where
  "cut_at_rune s limit = (if length s \<le> limit then s else take (back_off s limit) s)"

record bounded_buffer =
  bb_text :: string
  bb_truncated :: bool

definition bb_new :: bounded_buffer where
  "bb_new = \<lparr>bb_text = [], bb_truncated = False\<rparr>"

definition bb_write :: "string \<Rightarrow> bounded_buffer \<Rightarrow> bounded_buffer" where
  "bb_write s bb =
     (let room = failure_output_cap - length (bb_text bb) in
      if room = 0 then bb\<lparr>bb_truncated := bb_truncated bb \<or> s \<noteq> []\<rparr>
      else if room < length s
      then \<lparr>bb_text = bb_text bb @ cut_at_rune s room, bb_truncated = True\<rparr>
      else bb\<lparr>bb_text := bb_text bb @ s\<rparr>)"

definition bb_empty :: "bounded_buffer \<Rightarrow> bool" where
  "bb_empty bb \<longleftrightarrow> bb_text bb = [] \<and> \<not> bb_truncated bb"

definition bb_mark :: "bool \<Rightarrow> bounded_buffer \<Rightarrow> bounded_buffer" where
  "bb_mark b bb = bb\<lparr>bb_truncated := bb_truncated bb \<or> b\<rparr>"

text \<open>The names a roster shows within its budget: the text, how many, and whether one was cut.\<close>

fun roster_names :: "nat \<Rightarrow> bool \<Rightarrow> nat \<Rightarrow> string list \<Rightarrow> string \<times> nat \<times> bool" where
  "roster_names budget first used [] = ([], 0, False)"
| "roster_names budget first used (name # names) =
     (let sep = (if first then [] else '', '') in
      if budget < used + length sep + length name
      then (if first then (cut_at_rune name budget, 1, True) else ([], 0, False))
      else case roster_names budget False (used + length sep + length name) names of
             (t, k, b) \<Rightarrow> (sep @ name @ t, Suc k, b))"

definition format_bounded_roster :: "string \<Rightarrow> string list \<Rightarrow> string \<times> bool" where
  "format_bounded_roster lead names =
     (if names = [] then ([], False)
      else case roster_names (roster_share - length lead) True 0 names of
        (t, k, b) \<Rightarrow>
          if k < length names
          then (lead @ t @ '' (+'' @ format_uint (length names - k) @ '' more omitted)'', True)
          else (lead @ t, b))"

section \<open>Events and results\<close>

record test_event =
  te_time :: "int option"
  te_action :: string
  te_test :: string
  te_elapsed :: int
  te_output :: string
  te_failed_build :: string

datatype stream_end = Stream_EOF | Stream_Bad string string

datatype result_outcome = OUTCOME_UNSPECIFIED | OUTCOME_NOT_RUN | OUTCOME_PASSED | OUTCOME_FAILED
  | OUTCOME_SKIPPED | OUTCOME_NUM int

record producer =
  pd_invocation :: string
  pd_process_id :: int
  pd_ordinal :: int

record test_result =
  xt_package :: string
  xt_test :: string
  xt_outcome :: result_outcome
  xt_producer :: "producer option"
  xt_registrations :: "string list"

record failure_diagnostic =
  fd_invocation :: string
  fd_package :: string
  fd_test :: string
  fd_disposition :: health
  fd_output :: string
  fd_truncated :: bool

record test_timing =
  tt_test :: string
  tt_outcome :: result_outcome
  tt_elapsed :: int
  tt_running_at_abort :: bool

record stream_state =
  ss_terminal :: string
  ss_failed_build :: bool
  ss_events :: nat
  ss_malformed :: string
  ss_post_terminal :: bool
  ss_saw_abort :: bool
  ss_binary_timeout :: string
  ss_roster :: "string list"
  ss_roster_open :: bool
  ss_pkg_output :: bounded_buffer
  ss_per_test :: "string \<rightharpoonup> bounded_buffer"
  ss_started :: "string set"
  ss_start_order :: "string list"
  ss_regs :: "string \<rightharpoonup> string list"
  ss_start_times :: "string \<rightharpoonup> int"
  ss_timings :: "test_timing list"
  ss_tests :: "test_result list"
  ss_diags :: "failure_diagnostic list"

definition stream_new :: stream_state where
  "stream_new =
     \<lparr>ss_terminal = [], ss_failed_build = False, ss_events = 0, ss_malformed = [], ss_post_terminal = False,
      ss_saw_abort = False, ss_binary_timeout = [], ss_roster = [], ss_roster_open = False,
      ss_pkg_output = bb_new, ss_per_test = Map.empty, ss_started = {}, ss_start_order = [], ss_regs = Map.empty,
      ss_start_times = Map.empty, ss_timings = [], ss_tests = [], ss_diags = []\<rparr>"

definition outcome_of_action :: "string \<Rightarrow> result_outcome" where
  "outcome_of_action action =
     (if action = ''pass'' then OUTCOME_PASSED else if action = ''fail'' then OUTCOME_FAILED else OUTCOME_SKIPPED)"

section \<open>What the output says\<close>

definition contains :: "string \<Rightarrow> string \<Rightarrow> bool" where
  "contains s sub \<longleftrightarrow> snd (cut_at sub s) \<noteq> None"

definition is_abort_output :: "string \<Rightarrow> bool" where
  "is_abort_output s \<longleftrightarrow> contains s ''panic: '' \<or> contains s ''fatal error: ''"

text \<open>\<open>stipulator:covers (REQ(-[a-z0-9]+)+)\\b\<close> at a position: the length of the identifier.\<close>

definition covers_marker :: string where
  "covers_marker = ''stipulator:covers ''"

definition covers_id :: "string \<Rightarrow> nat option" where
  "covers_id s =
     (if has_prefix s ''REQ'' then
        let gs = id_groups (length s) (drop 3 s); n = 3 + sum_list gs in
        if gs \<noteq> [] \<and> boundary (Some (s ! (n - 1))) (drop n s) then Some n
        else if length gs \<ge> 2 then Some (3 + sum_list (butlast gs))
        else None
      else None)"

definition covers_token :: "char option \<Rightarrow> string \<Rightarrow> nat option" where
  "covers_token prev s =
     (if has_prefix s covers_marker
      then map_option ((+) (length covers_marker)) (covers_id (drop (length covers_marker) s)) else None)"

definition find_covers :: "string \<Rightarrow> string list" where
  "find_covers s = map (drop (length covers_marker)) (find_all covers_token None s)"

text \<open>\<open>strings.Lines\<close>, each line without its newline.\<close>

definition text_lines :: "string \<Rightarrow> string list" where
  "text_lines s = (let ls = split_on (CHR 0x0A) s in if last ls = [] then butlast ls else ls)"

text \<open>\<open>\\s\<close> of Go's \<open>regexp\<close>.\<close>

definition re_space :: "char \<Rightarrow> bool" where
  "re_space c \<longleftrightarrow> byte_val c \<in> {9, 10, 12, 13, 32}"

definition timeout_match :: "string \<Rightarrow> string option" where
  "timeout_match line =
     (if has_prefix line ''panic: test timed out after '' then
        let d = takeWhile (\<lambda>c. \<not> re_space c) (drop (length ''panic: test timed out after '') line)
        in if d = [] then None else Some d
      else None)"

definition roster_match :: "string \<Rightarrow> string option" where
  "roster_match line =
     (case line of t1 # t2 # rest \<Rightarrow>
        let name = takeWhile (\<lambda>c. \<not> re_space c) rest in
        if t1 = CHR 0x09 \<and> t2 = CHR 0x09 \<and> name \<noteq> [] \<and> has_prefix (drop (length name) rest) '' (''
        then Some name else None
      | _ \<Rightarrow> None)"

definition scan_line :: "string \<Rightarrow> stream_state \<Rightarrow> stream_state" where
  "scan_line line st =
     (if ss_binary_timeout st = [] then
        (if has_prefix line ''panic: test timed out'' then
           (case timeout_match line of Some d \<Rightarrow> st\<lparr>ss_binary_timeout := d\<rparr> | None \<Rightarrow> st)
         else st)
      else if line = CHR 0x09 # ''running tests:'' then st\<lparr>ss_roster_open := True\<rparr>
      else if ss_roster_open st then
        (case roster_match line of
           Some name \<Rightarrow> st\<lparr>ss_roster := ss_roster st @ [name]\<rparr>
         | None \<Rightarrow> if has_prefix line ''goroutine '' then st\<lparr>ss_roster_open := False\<rparr> else st)
      else st)"

definition scan_timeout_dump :: "string \<Rightarrow> stream_state \<Rightarrow> stream_state" where
  "scan_timeout_dump s st = fold scan_line (text_lines s) st"

section \<open>The parse\<close>

definition package_event :: "test_event \<Rightarrow> stream_state \<Rightarrow> stream_state" where
  "package_event e st =
     (if te_action e = ''output'' then st\<lparr>ss_pkg_output := bb_write (te_output e) (ss_pkg_output st)\<rparr>
      else if te_action e \<in> {''pass'', ''fail'', ''skip''}
      then st\<lparr>ss_terminal := te_action e, ss_failed_build := ss_failed_build st \<or> te_failed_build e \<noteq> []\<rparr>
      else st)"

definition run_event :: "test_event \<Rightarrow> stream_state \<Rightarrow> stream_state" where
  "run_event e st =
     (let t = te_test e in
      st\<lparr>ss_start_order := (if t \<notin> ss_started st \<and> ss_per_test st t = None then ss_start_order st @ [t] else ss_start_order st),
         ss_started := insert t (ss_started st),
         ss_start_times := (if te_time e \<noteq> None \<and> ss_start_times st t = None then (ss_start_times st)(t := te_time e)
                            else ss_start_times st)\<rparr>)"

definition output_step :: "test_event \<Rightarrow> stream_state \<Rightarrow> stream_state" where
  "output_step e st =
     (let t = te_test e;
          bb = (case ss_per_test st t of Some bb \<Rightarrow> bb | None \<Rightarrow> bb_new);
          found = find_covers (te_output e) in
      st\<lparr>ss_start_order := (if ss_per_test st t = None \<and> t \<notin> ss_started st then ss_start_order st @ [t] else ss_start_order st),
         ss_per_test := (ss_per_test st)(t \<mapsto> bb_write (te_output e) bb),
         ss_regs := (if found = [] then ss_regs st
                     else (ss_regs st)(t \<mapsto> (case ss_regs st t of None \<Rightarrow> found | Some rs \<Rightarrow> rs @ found)))\<rparr>)"

definition event_elapsed :: "test_event \<Rightarrow> int option \<Rightarrow> int" where
  "event_elapsed e start =
     (if te_elapsed e \<noteq> 0 then te_elapsed e
      else case (start, te_time e) of
        (Some a, Some b) \<Rightarrow> if a < b then min (b - a) (2 ^ 63 - 1) else 0
      | _ \<Rightarrow> 0)"

definition terminal_event ::
  "string \<Rightarrow> string \<Rightarrow> producer option \<Rightarrow> test_event \<Rightarrow> stream_state \<Rightarrow> stream_state" where
  "terminal_event inv_name pkg pd e st =
     (let t = te_test e;
          regs = (case ss_regs st t of None \<Rightarrow> [] | Some rs \<Rightarrow> rs);
          result = \<lparr>xt_package = pkg, xt_test = t, xt_outcome = outcome_of_action (te_action e), xt_producer = pd,
                    xt_registrations = remdups_adj (sort regs)\<rparr>;
          timing = \<lparr>tt_test = t, tt_outcome = outcome_of_action (te_action e),
                    tt_elapsed = event_elapsed e (ss_start_times st t), tt_running_at_abort = False\<rparr>;
          bb = (case ss_per_test st t of Some bb \<Rightarrow> bb | None \<Rightarrow> bb_new);
          diag = \<lparr>fd_invocation = inv_name, fd_package = pkg, fd_test = t, fd_disposition = HEALTH_TEST_FAILED,
                  fd_output = bb_text bb, fd_truncated = bb_truncated bb\<rparr> in
      st\<lparr>ss_started := ss_started st - {t},
         ss_regs := (if regs = [] then ss_regs st else (ss_regs st)(t := None)),
         ss_tests := ss_tests st @ [result],
         ss_timings := ss_timings st @ [timing],
         ss_start_times := (ss_start_times st)(t := None),
         ss_diags := (if te_action e = ''fail'' then ss_diags st @ [diag] else ss_diags st),
         ss_per_test := (ss_per_test st)(t := None)\<rparr>)"

definition parse_event ::
  "string \<Rightarrow> string \<Rightarrow> producer option \<Rightarrow> test_event \<Rightarrow> stream_state \<Rightarrow> stream_state" where
  "parse_event inv_name pkg pd e st0 =
     (let st1 = st0\<lparr>ss_events := Suc (ss_events st0), ss_post_terminal := ss_post_terminal st0 \<or> ss_terminal st0 \<noteq> []\<rparr>;
          st = (if te_action e = ''output''
                then scan_timeout_dump (te_output e) (st1\<lparr>ss_saw_abort := ss_saw_abort st1 \<or> is_abort_output (te_output e)\<rparr>)
                else st1) in
      if te_action e = ''build-output'' then st\<lparr>ss_pkg_output := bb_write (te_output e) (ss_pkg_output st)\<rparr>
      else if te_action e = ''build-fail'' then st\<lparr>ss_failed_build := True\<rparr>
      else if te_test e = [] then package_event e st
      else if te_action e = ''run'' then run_event e st
      else if te_action e = ''output'' then output_step e st
      else if te_action e \<in> {''pass'', ''fail'', ''skip''} then terminal_event inv_name pkg pd e st
      else st)"

definition parse_test_stream ::
  "string \<Rightarrow> string \<Rightarrow> producer option \<Rightarrow> test_event list \<Rightarrow> stream_end \<Rightarrow> stream_state" where
  "parse_test_stream inv_name pkg pd es ending =
     (let st = fold (parse_event inv_name pkg pd) es stream_new in
      case ending of
        Stream_EOF \<Rightarrow> st
      | Stream_Bad err rest \<Rightarrow>
          st\<lparr>ss_malformed := bb_text (bb_write (take failure_output_cap rest)
               (bb_write ''; unparsed remainder: '' (bb_write err bb_new)))\<rparr>)"

definition started_tests :: "stream_state \<Rightarrow> string list" where
  "started_tests st = filter (\<lambda>name. name \<in> ss_started st) (ss_start_order st)"

definition collect_test_timings :: "int \<Rightarrow> stream_state option \<Rightarrow> test_timing list" where
  "collect_test_timings aborted_at ost =
     (case ost of None \<Rightarrow> []
      | Some st \<Rightarrow> ss_timings st @ map (\<lambda>name.
          \<lparr>tt_test = name, tt_outcome = OUTCOME_NOT_RUN,
           tt_elapsed = (case ss_start_times st name of
                           None \<Rightarrow> 0 | Some a \<Rightarrow> if a < aborted_at then min (aborted_at - a) (2 ^ 63 - 1) else 0),
           tt_running_at_abort = True\<rparr>) (started_tests st))"

section \<open>Bounded text: bounds and truncation\<close>

lemma back_off_le: "back_off s n \<le> n"
  by (induction s n rule: back_off.induct) auto

lemma cut_at_rune_length: "length (cut_at_rune s n) \<le> n"
  using back_off_le [of s n] by (auto simp: cut_at_rune_def)

lemma cut_at_rune_short [simp]: "length s \<le> n \<Longrightarrow> cut_at_rune s n = s"
  by (simp add: cut_at_rune_def)

text \<open>What a buffer holds after a run of writes.\<close>

definition retained :: "string list \<Rightarrow> bounded_buffer" where
  "retained ws = fold bb_write ws bb_new"

lemma retained_snoc [simp]: "retained (ws @ [w]) = bb_write w (retained ws)"
  by (simp add: retained_def)

lemma retained_Nil [simp]: "retained [] = bb_new"
  by (simp add: retained_def)

lemma retained_exact:
  "length (bb_text (retained ws)) \<le> failure_output_cap
   \<and> bb_truncated (retained ws) = (failure_output_cap < length (concat ws))
   \<and> (bb_truncated (retained ws) \<or> bb_text (retained ws) = concat ws)"
proof (induction ws rule: rev_induct)
  case Nil
  then show ?case by (simp add: bb_new_def)
next
  case (snoc w ws)
  let ?room = "failure_output_cap - length (bb_text (retained ws))"
  have "length (cut_at_rune w ?room) \<le> ?room" by (rule cut_at_rune_length)
  with snoc.IH show ?case by (auto simp: bb_write_def Let_def)
qed

lemma bb_write_bound:
  "length (bb_text bb) \<le> failure_output_cap \<Longrightarrow> length (bb_text (bb_write s bb)) \<le> failure_output_cap"
  using cut_at_rune_length [of s "failure_output_cap - length (bb_text bb)"] by (auto simp: bb_write_def Let_def)

lemma roster_names_exact:
  "roster_names budget first used names = (t, k, b) \<Longrightarrow> used \<le> budget \<Longrightarrow> (first \<Longrightarrow> used = 0) \<Longrightarrow>
     k \<le> length names \<and> used + length t \<le> budget \<and> (first \<and> names \<noteq> [] \<longrightarrow> 0 < k)
     \<and> (\<not> b \<longrightarrow> t = (if first \<or> k = 0 then [] else '', '') @ join (take k names) '', '')
     \<and> ((k < length names \<or> b)
        = (budget < used + length ((if first \<or> names = [] then [] else '', '') @ join names '', '')))"
proof (induction names arbitrary: first used t k b)
  case Nil
  then show ?case by simp
next
  case (Cons name names)
  let ?sep = "if first then [] else '', ''"
  show ?case
  proof (cases "budget < used + length ?sep + length name")
    case True
    have "length name \<le> length (join (name # names) '', '')" by (cases names) auto
    with True Cons.prems cut_at_rune_length [of name budget] show ?thesis
      by (auto simp: Let_def split: if_splits)
  next
    case False
    obtain t' k' b' where r: "roster_names budget False (used + length ?sep + length name) names = (t', k', b')"
      by (metis prod_cases3)
    have e: "t = ?sep @ name @ t'" "k = Suc k'" "b = b'" using Cons.prems(1) False r by (auto simp: Let_def)
    have "used + length ?sep + length name \<le> budget" using False by simp
    from Cons.IH [OF r this] have IH:
      "k' \<le> length names" "used + length ?sep + length name + length t' \<le> budget"
      "\<not> b' \<longrightarrow> t' = (if k' = 0 then [] else '', '') @ join (take k' names) '', ''"
      "(k' < length names \<or> b') = (budget < used + length ?sep + length name
          + length ((if names = [] then [] else '', '') @ join names '', ''))" by auto
    have j: "join (name # ns) '', '' = name @ (if ns = [] then [] else '', '' @ join ns '', '')" for ns
      by (cases ns) auto
    from IH e show ?thesis by (cases names) (auto simp: j)
  qed
qed

section \<open>The parse against the events\<close>

text \<open>The events of a test since it last ended, and the output among them.\<close>

definition ends_action :: "test_event \<Rightarrow> bool" where
  "ends_action e \<longleftrightarrow> te_action e \<in> {''pass'', ''fail'', ''skip''}"

definition ends_test :: "test_event \<Rightarrow> bool" where
  "ends_test e \<longleftrightarrow> te_test e \<noteq> [] \<and> ends_action e"

definition ends_package :: "test_event \<Rightarrow> bool" where
  "ends_package e \<longleftrightarrow> te_test e = [] \<and> ends_action e"

definition since_ended :: "string \<Rightarrow> test_event list \<Rightarrow> test_event list" where
  "since_ended t es = rev (takeWhile (\<lambda>e. \<not> ends_action e) (rev (filter (\<lambda>e. te_test e = t) es)))"

definition own_output :: "string \<Rightarrow> test_event list \<Rightarrow> string list" where
  "own_output t es = map te_output (filter (\<lambda>e. te_action e = ''output'') (since_ended t es))"

definition named_result :: "string \<Rightarrow> producer option \<Rightarrow> test_event list \<Rightarrow> test_event \<Rightarrow> test_result" where
  "named_result pkg pd es e =
     \<lparr>xt_package = pkg, xt_test = te_test e, xt_outcome = outcome_of_action (te_action e), xt_producer = pd,
      xt_registrations = remdups_adj (sort (concat (map find_covers (own_output (te_test e) es))))\<rparr>"

definition failure_of :: "string \<Rightarrow> string \<Rightarrow> test_event list \<Rightarrow> test_event \<Rightarrow> failure_diagnostic" where
  "failure_of inv_name pkg es e =
     \<lparr>fd_invocation = inv_name, fd_package = pkg, fd_test = te_test e, fd_disposition = HEALTH_TEST_FAILED,
      fd_output = bb_text (retained (own_output (te_test e) es)),
      fd_truncated = bb_truncated (retained (own_output (te_test e) es))\<rparr>"

text \<open>For each event that satisfies \<open>q\<close>, in order, \<open>f\<close> of the events before it and of itself.\<close>

definition at_events :: "(test_event \<Rightarrow> bool) \<Rightarrow> (test_event list \<Rightarrow> test_event \<Rightarrow> 'r) \<Rightarrow> test_event list \<Rightarrow> 'r list" where
  "at_events q f es = concat (map (\<lambda>k. if q (es ! k) then [f (take k es) (es ! k)] else []) [0..<length es])"

lemma at_events_Nil [simp]: "at_events q f [] = []"
  by (simp add: at_events_def)

lemma at_events_snoc [simp]: "at_events q f (es @ [e]) = at_events q f es @ (if q e then [f es e] else [])"
proof -
  have "concat (map (\<lambda>k. if q ((es @ [e]) ! k) then [f (take k (es @ [e])) ((es @ [e]) ! k)] else []) [0..<length es])
      = concat (map (\<lambda>k. if q (es ! k) then [f (take k es) (es ! k)] else []) [0..<length es])"
    by (intro arg_cong [where f = concat] map_cong) (auto simp: nth_append)
  then show ?thesis by (simp add: at_events_def)
qed

lemma since_ended_snoc [simp]:
  "since_ended t (es @ [e]) =
     (if te_test e \<noteq> t then since_ended t es else if ends_action e then [] else since_ended t es @ [e])"
  by (simp add: since_ended_def)

lemma own_output_snoc [simp]:
  "own_output t (es @ [e]) =
     (if te_test e \<noteq> t then own_output t es else if ends_action e then []
      else own_output t es @ (if te_action e = ''output'' then [te_output e] else []))"
  by (simp add: own_output_def)

lemma own_output_Nil [simp]: "own_output t [] = []"
  by (simp add: own_output_def since_ended_def)

text \<open>A fold of line scans leaves every field alone but the three it is about.\<close>

lemma scan_line_frame [simp]:
  "ss_terminal (scan_line l st) = ss_terminal st" "ss_failed_build (scan_line l st) = ss_failed_build st"
  "ss_events (scan_line l st) = ss_events st" "ss_malformed (scan_line l st) = ss_malformed st"
  "ss_post_terminal (scan_line l st) = ss_post_terminal st" "ss_saw_abort (scan_line l st) = ss_saw_abort st"
  "ss_pkg_output (scan_line l st) = ss_pkg_output st" "ss_per_test (scan_line l st) = ss_per_test st"
  "ss_started (scan_line l st) = ss_started st" "ss_start_order (scan_line l st) = ss_start_order st"
  "ss_regs (scan_line l st) = ss_regs st" "ss_start_times (scan_line l st) = ss_start_times st"
  "ss_timings (scan_line l st) = ss_timings st" "ss_tests (scan_line l st) = ss_tests st"
  "ss_diags (scan_line l st) = ss_diags st"
  by (simp_all add: scan_line_def split: option.split)

lemma scan_dump_frame [simp]:
  "ss_terminal (scan_timeout_dump s st) = ss_terminal st" "ss_failed_build (scan_timeout_dump s st) = ss_failed_build st"
  "ss_events (scan_timeout_dump s st) = ss_events st" "ss_malformed (scan_timeout_dump s st) = ss_malformed st"
  "ss_post_terminal (scan_timeout_dump s st) = ss_post_terminal st" "ss_saw_abort (scan_timeout_dump s st) = ss_saw_abort st"
  "ss_pkg_output (scan_timeout_dump s st) = ss_pkg_output st" "ss_per_test (scan_timeout_dump s st) = ss_per_test st"
  "ss_started (scan_timeout_dump s st) = ss_started st" "ss_start_order (scan_timeout_dump s st) = ss_start_order st"
  "ss_regs (scan_timeout_dump s st) = ss_regs st" "ss_start_times (scan_timeout_dump s st) = ss_start_times st"
  "ss_timings (scan_timeout_dump s st) = ss_timings st" "ss_tests (scan_timeout_dump s st) = ss_tests st"
  "ss_diags (scan_timeout_dump s st) = ss_diags st"
  unfolding scan_timeout_dump_def by (rule fold_field_frame, simp)+

lemmas step_defs = package_event_def run_event_def output_step_def terminal_event_def

definition regs_at :: "stream_state \<Rightarrow> string \<Rightarrow> string list" where
  "regs_at st t = (case ss_regs st t of None \<Rightarrow> [] | Some rs \<Rightarrow> rs)"

definition buffer_at :: "stream_state \<Rightarrow> string \<Rightarrow> bounded_buffer" where
  "buffer_at st t = (case ss_per_test st t of None \<Rightarrow> bb_new | Some bb \<Rightarrow> bb)"

lemma parse_step_buffers:
  "t \<noteq> [] \<Longrightarrow> buffer_at (parse_event i p pd e st) t =
     (if te_test e \<noteq> t then buffer_at st t else if ends_action e then bb_new
      else if te_action e = ''output'' then bb_write (te_output e) (buffer_at st t) else buffer_at st t)"
  by (auto simp: parse_event_def buffer_at_def step_defs ends_action_def Let_def)

lemma parse_step_regs:
  "t \<noteq> [] \<Longrightarrow> regs_at (parse_event i p pd e st) t =
     (if te_test e \<noteq> t then regs_at st t else if ends_action e then []
      else if te_action e = ''output'' then regs_at st t @ find_covers (te_output e) else regs_at st t)"
  by (auto simp: parse_event_def regs_at_def step_defs ends_action_def Let_def split: option.splits)

lemma parse_step_lists:
  "ss_tests (parse_event i p pd e st) = ss_tests st @
     (if ends_test e then [\<lparr>xt_package = p, xt_test = te_test e, xt_outcome = outcome_of_action (te_action e), xt_producer = pd,
                            xt_registrations = remdups_adj (sort (regs_at st (te_test e)))\<rparr>] else [])"
  "ss_diags (parse_event i p pd e st) = ss_diags st @
     (if ends_test e \<and> te_action e = ''fail''
      then [\<lparr>fd_invocation = i, fd_package = p, fd_test = te_test e, fd_disposition = HEALTH_TEST_FAILED,
             fd_output = bb_text (buffer_at st (te_test e)), fd_truncated = bb_truncated (buffer_at st (te_test e))\<rparr>] else [])"
  by (auto simp: parse_event_def regs_at_def buffer_at_def step_defs ends_test_def ends_action_def Let_def split: option.splits)

lemma parse_fold:
  shows "ss_tests (fold (parse_event i p pd) es stream_new) = at_events ends_test (named_result p pd) es"
    and "ss_diags (fold (parse_event i p pd) es stream_new)
       = at_events (\<lambda>e. ends_test e \<and> te_action e = ''fail'') (failure_of i p) es"
    and "t \<noteq> [] \<Longrightarrow> buffer_at (fold (parse_event i p pd) es stream_new) t = retained (own_output t es)"
    and "t \<noteq> [] \<Longrightarrow> regs_at (fold (parse_event i p pd) es stream_new) t = concat (map find_covers (own_output t es))"
proof -
  let ?st = "\<lambda>es. fold (parse_event i p pd) es stream_new"
  have "(\<forall>t. t \<noteq> [] \<longrightarrow> buffer_at (?st es) t = retained (own_output t es)
                 \<and> regs_at (?st es) t = concat (map find_covers (own_output t es)))
      \<and> ss_tests (?st es) = at_events ends_test (named_result p pd) es
      \<and> ss_diags (?st es) = at_events (\<lambda>e. ends_test e \<and> te_action e = ''fail'') (failure_of i p) es"
  proof (induction es rule: rev_induct)
    case Nil
    then show ?case by (simp add: stream_new_def buffer_at_def regs_at_def)
  next
    case (snoc e es)
    then show ?case
      by (simp add: parse_step_buffers parse_step_regs parse_step_lists named_result_def failure_of_def ends_test_def)
  qed
  then show "ss_tests (?st es) = at_events ends_test (named_result p pd) es"
    "ss_diags (?st es) = at_events (\<lambda>e. ends_test e \<and> te_action e = ''fail'') (failure_of i p) es"
    "t \<noteq> [] \<Longrightarrow> buffer_at (?st es) t = retained (own_output t es)"
    "t \<noteq> [] \<Longrightarrow> regs_at (?st es) t = concat (map find_covers (own_output t es))"
    by simp_all
qed

lemma at_events_all2:
  assumes "\<And>es e. q e \<Longrightarrow> P (f es e) (g es e)"
  shows "list_all2 P (at_events q f es) (at_events q g es)"
  by (induction es rule: rev_induct) (auto intro!: list_all2_appendI assms)

lemma at_events_set: "x \<in> set (at_events q f es) \<Longrightarrow> \<exists>k < length es. q (es ! k) \<and> x = f (take k es) (es ! k)"
  by (auto simp: at_events_def split: if_splits)

lemma parse_test_stream_frame [simp]:
  "ss_tests (parse_test_stream i p pd es ending) = ss_tests (fold (parse_event i p pd) es stream_new)"
  "ss_diags (parse_test_stream i p pd es ending) = ss_diags (fold (parse_event i p pd) es stream_new)"
  "ss_terminal (parse_test_stream i p pd es ending) = ss_terminal (fold (parse_event i p pd) es stream_new)"
  "ss_post_terminal (parse_test_stream i p pd es ending) = ss_post_terminal (fold (parse_event i p pd) es stream_new)"
  "ss_events (parse_test_stream i p pd es ending) = ss_events (fold (parse_event i p pd) es stream_new)"
  "ss_failed_build (parse_test_stream i p pd es ending) = ss_failed_build (fold (parse_event i p pd) es stream_new)"
  "ss_saw_abort (parse_test_stream i p pd es ending) = ss_saw_abort (fold (parse_event i p pd) es stream_new)"
  "ss_started (parse_test_stream i p pd es ending) = ss_started (fold (parse_event i p pd) es stream_new)"
  "ss_start_order (parse_test_stream i p pd es ending) = ss_start_order (fold (parse_event i p pd) es stream_new)"
  "ss_per_test (parse_test_stream i p pd es ending) = ss_per_test (fold (parse_event i p pd) es stream_new)"
  by (simp_all add: parse_test_stream_def Let_def split: stream_end.split)

text \<open>C19: the parse is the events, test by test. Each event that ends a named test yields one
  result, in stream order, with the outcome the event states and, sorted and once each, the
  requirement registrations found in the output of that test since it last ended; each failing end
  yields one diagnostic for that test, whose text is that output when it fits in 64 KiB, is never
  longer, and is marked truncated exactly when it does not fit.\<close>

theorem parse_results_exact:
  "let st = parse_test_stream inv_name pkg pd es ending;
       failed = (\<lambda>e. ends_test e \<and> te_action e = ''fail'') in
     ss_tests st = at_events ends_test (named_result pkg pd) es
     \<and> map fd_test (ss_diags st) = at_events failed (\<lambda>_ e. te_test e) es
     \<and> list_all2 (\<lambda>d out. length (fd_output d) \<le> 65536 \<and> fd_truncated d = (65536 < length out)
                      \<and> fd_output d = (if 65536 < length out then fd_output d else out))
         (ss_diags st) (at_events failed (\<lambda>before e. concat (own_output (te_test e) before)) es)"
proof -
  let ?failed = "\<lambda>e. ends_test e \<and> te_action e = ''fail''"
  have names: "map fd_test (at_events q (failure_of inv_name pkg) es) = at_events q (\<lambda>_ e. te_test e) es" for q
    by (induction es rule: rev_induct) (auto simp: failure_of_def)
  have "list_all2 (\<lambda>d out. length (fd_output d) \<le> 65536 \<and> fd_truncated d = (65536 < length out)
                      \<and> fd_output d = (if 65536 < length out then fd_output d else out))
         (at_events ?failed (failure_of inv_name pkg) es) (at_events ?failed (\<lambda>before e. concat (own_output (te_test e) before)) es)"
    using retained_exact by (intro at_events_all2) (auto simp: failure_of_def failure_output_cap_def)
  then show ?thesis by (simp add: parse_fold(1,2) names)
qed

section \<open>The package's own verdict\<close>

lemma parse_step_package:
  "ss_events (parse_event i p pd e st) = Suc (ss_events st)"
  "ss_post_terminal (parse_event i p pd e st) = (ss_post_terminal st \<or> ss_terminal st \<noteq> [])"
  "ss_terminal (parse_event i p pd e st) = (if ends_package e then te_action e else ss_terminal st)"
  "ss_saw_abort (parse_event i p pd e st) = (ss_saw_abort st \<or> te_action e = ''output'' \<and> is_abort_output (te_output e))"
  "ss_failed_build (parse_event i p pd e st)
     = (ss_failed_build st \<or> te_action e = ''build-fail'' \<or> ends_package e \<and> te_failed_build e \<noteq> [])"
  by (auto simp: parse_event_def step_defs ends_package_def ends_action_def Let_def)

lemma parse_package:
  "ss_events (fold (parse_event i p pd) es stream_new) = length es"
  "ss_terminal (fold (parse_event i p pd) es stream_new)
     = (case rev (filter ends_package es) of [] \<Rightarrow> [] | e # _ \<Rightarrow> te_action e)"
  "ss_post_terminal (fold (parse_event i p pd) es stream_new) = list_ex ends_package (butlast es)"
  "ss_saw_abort (fold (parse_event i p pd) es stream_new)
     = list_ex (\<lambda>e. te_action e = ''output'' \<and> is_abort_output (te_output e)) es"
  "ss_failed_build (fold (parse_event i p pd) es stream_new)
     = list_ex (\<lambda>e. te_action e = ''build-fail'' \<or> ends_package e \<and> te_failed_build e \<noteq> []) es"
proof (induction es rule: rev_induct)
  case (snoc e es)
  have acts: "te_action x \<noteq> []" if "ends_package x" for x using that by (auto simp: ends_package_def ends_action_def)
  have none: "(case rev (filter ends_package es) of [] \<Rightarrow> [] | x # _ \<Rightarrow> te_action x) \<noteq> [] \<longleftrightarrow> list_ex ends_package es"
  proof (cases "rev (filter ends_package es)")
    case Nil
    then show ?thesis by (auto simp: filter_empty_conv list_ex_iff)
  next
    case (Cons x xs)
    then have "x \<in> set (filter ends_package es)" by (metis list.set_intros(1) set_rev)
    then have "ends_package x" "x \<in> set es" by simp_all
    with acts [of x] show ?thesis by (auto simp: list_ex_iff Cons)
  qed
  have ex: "list_ex ends_package es \<longleftrightarrow> list_ex ends_package (butlast es) \<or> list_ex ends_package es"
    by (auto simp: list_ex_iff dest: in_set_butlastD)
  { case 1 then show ?case using snoc by (simp add: parse_step_package) }
  { case 2 then show ?case using snoc by (simp add: parse_step_package) }
  { case 3 then show ?case using snoc none ex by (simp add: parse_step_package) }
  { case 4 then show ?case using snoc by (simp add: parse_step_package) }
  { case 5 then show ?case using snoc by (simp add: parse_step_package) }
qed (simp_all add: stream_new_def)

lemma malformed_iff: "ss_malformed (parse_test_stream i p pd es ending) = [] \<longleftrightarrow> ending = Stream_EOF"
proof (cases ending)
  case Stream_EOF
  have "ss_malformed (parse_event i p pd e st) = ss_malformed st" for e st
    by (auto simp: parse_event_def step_defs Let_def)
  then have "ss_malformed (fold (parse_event i p pd) es stream_new) = ss_malformed stream_new"
    by (intro fold_field_frame) simp
  with Stream_EOF show ?thesis by (simp add: parse_test_stream_def stream_new_def)
next
  case (Stream_Bad err rest)
  have keep: "bb_text bb \<noteq> [] \<Longrightarrow> bb_text (bb_write s bb) \<noteq> []" for s bb by (auto simp: bb_write_def Let_def)
  have fresh: "bb_text bb = [] \<Longrightarrow> bb_text (bb_write ''; unparsed remainder: '' bb) \<noteq> []" for bb
    by (simp add: bb_write_def failure_output_cap_def Let_def)
  have "bb_text (bb_write ''; unparsed remainder: '' (bb_write err bb_new)) \<noteq> []"
    using keep fresh by blast
  from keep [OF this] Stream_Bad show ?thesis by (simp add: parse_test_stream_def)
qed

section \<open>The deadline panic in pieces\<close>

lemma split_on_across: "split_on d (a @ d # b) = split_on d a @ split_on d b"
proof (induction a)
  case (Cons c a)
  then show ?case using split_on_nonempty [of d a] by (auto split: list.splits simp del: split_on_nonempty)
qed simp

lemma text_lines_append: "text_lines (a @ CHR 0x0A # b) = text_lines (a @ [CHR 0x0A]) @ text_lines b"
  using split_on_across [of "CHR 0x0A" a b] split_on_across [of "CHR 0x0A" a "[]"]
  by (simp add: text_lines_def Let_def butlast_append last_append)

lemma contains_iff: "sub \<noteq> [] \<Longrightarrow> contains s sub \<longleftrightarrow> (\<exists>u v. s = u @ sub @ v)"
proof (induction s)
  case Nil
  then show ?case by (simp add: contains_def)
next
  case (Cons c s)
  have "contains (c # s) sub \<longleftrightarrow> has_prefix (c # s) sub \<or> contains s sub"
    by (simp add: contains_def split: prod.split)
  also have "\<dots> \<longleftrightarrow> (\<exists>v. c # s = sub @ v) \<or> (\<exists>u v. s = u @ sub @ v)" using Cons by (simp add: has_prefix_iff)
  also have "\<dots> \<longleftrightarrow> (\<exists>u v. c # s = u @ sub @ v)" by (auto simp: Cons_eq_append_conv)
  finally show ?case .
qed

lemma contains_across:
  assumes "sub \<noteq> []" and "n \<notin> set sub"
  shows "contains (a @ n # b) sub \<longleftrightarrow> contains (a @ [n]) sub \<or> contains b sub"
proof
  assume "contains (a @ n # b) sub"
  then obtain u v where e: "a @ n # b = u @ sub @ v" using assms by (auto simp: contains_iff)
  then consider r where "a = u @ r" "r @ n # b = sub @ v" | r where "u = a @ r" "n # b = r @ sub @ v"
    by (auto simp: append_eq_append_conv2)
  then show "contains (a @ [n]) sub \<or> contains b sub"
  proof cases
    case 1
    then obtain q where "sub = r @ q \<and> n # b = q @ v \<or> r = sub @ q \<and> v = q @ n # b"
      by (auto simp: append_eq_append_conv2)
    moreover have "\<not> (sub = r @ q \<and> n # b = q @ v \<and> q \<noteq> [])" using assms(2) by (cases q) auto
    ultimately have "\<exists>q. r = sub @ q" by (metis append_Nil2)
    then have "\<exists>w. a @ [n] = u @ sub @ w" using 1(1) by auto
    then show ?thesis unfolding contains_iff [OF assms(1)] by blast
  next
    case 2
    show ?thesis
    proof (cases r)
      case Nil
      then show ?thesis using 2(2) assms by (cases sub) auto
    next
      case (Cons x xs)
      then show ?thesis using 2(2) assms(1) by (auto simp: contains_iff)
    qed
  qed
next
  assume "contains (a @ [n]) sub \<or> contains b sub"
  then show "contains (a @ n # b) sub"
  proof
    assume "contains (a @ [n]) sub"
    then obtain u v where "a @ [n] = u @ sub @ v" using assms(1) by (auto simp: contains_iff)
    then have "a @ n # b = u @ sub @ (v @ b)" by (metis append.assoc append_Cons append_Nil)
    then show ?thesis unfolding contains_iff [OF assms(1)] by blast
  next
    assume "contains b sub"
    then obtain u v where "b = u @ sub @ v" using assms(1) by (auto simp: contains_iff)
    then have "a @ n # b = (a @ n # u) @ sub @ v" by simp
    then show ?thesis using assms(1) by (metis contains_iff)
  qed
qed

text \<open>What an abort left in the state: the flag, the printed deadline, and the roster.\<close>

definition abort_facts :: "stream_state \<Rightarrow> bool \<times> string \<times> string list \<times> bool" where
  "abort_facts st = (ss_saw_abort st, ss_binary_timeout st, ss_roster st, ss_roster_open st)"

fun scan_fact :: "string \<Rightarrow> bool \<times> string \<times> string list \<times> bool \<Rightarrow> bool \<times> string \<times> string list \<times> bool" where
  "scan_fact l (saw, limit, names, open) =
     (if limit = [] then
        (if has_prefix l ''panic: test timed out'' then
           (case timeout_match l of Some d \<Rightarrow> (saw, d, names, open) | None \<Rightarrow> (saw, limit, names, open))
         else (saw, limit, names, open))
      else if l = CHR 0x09 # ''running tests:'' then (saw, limit, names, True)
      else if open then
        (case roster_match l of
           Some name \<Rightarrow> (saw, limit, names @ [name], open)
         | None \<Rightarrow> (saw, limit, names, \<not> has_prefix l ''goroutine ''))
      else (saw, limit, names, open))"

lemma scan_line_facts: "abort_facts (scan_line l st) = scan_fact l (abort_facts st)"
  by (simp add: abort_facts_def scan_line_def split: option.split)

lemma scan_lines_facts:
  "abort_facts st = abort_facts st' \<Longrightarrow> abort_facts (fold scan_line ls st) = abort_facts (fold scan_line ls st')"
  by (induction ls arbitrary: st st') (simp_all add: scan_line_facts)

lemma parse_step_abort:
  "abort_facts (parse_event i p pd e st) =
     (if te_action e = ''output''
      then abort_facts (scan_timeout_dump (te_output e) (st\<lparr>ss_saw_abort := ss_saw_abort st \<or> is_abort_output (te_output e)\<rparr>))
      else abort_facts st)"
proof -
  have r: "abort_facts (package_event e s) = abort_facts s" "abort_facts (run_event e s) = abort_facts s"
    "abort_facts (output_step e s) = abort_facts s" "abort_facts (terminal_event i p pd e s) = abort_facts s" for s
    by (simp_all add: abort_facts_def step_defs Let_def)
  have "abort_facts (scan_timeout_dump out (s\<lparr>ss_events := n, ss_post_terminal := b, ss_saw_abort := x\<rparr>))
      = abort_facts (scan_timeout_dump out (s\<lparr>ss_saw_abort := x\<rparr>))" for out s n b x
    unfolding scan_timeout_dump_def by (rule scan_lines_facts) (simp add: abort_facts_def)
  moreover have "abort_facts (s\<lparr>ss_pkg_output := o'\<rparr>) = abort_facts s" "abort_facts (s\<lparr>ss_failed_build := True\<rparr>) = abort_facts s"
    "abort_facts (s\<lparr>ss_events := n, ss_post_terminal := b\<rparr>) = abort_facts s" for s o' n b
    by (simp_all add: abort_facts_def)
  ultimately show ?thesis by (simp add: parse_event_def Let_def r)
qed

lemma panic_cut:
  "abort_facts (parse_event inv_name pkg pd (e\<lparr>te_output := a @ nl @ b\<rparr>) st)
   = abort_facts (parse_event inv_name pkg pd (e\<lparr>te_output := b\<rparr>) (parse_event inv_name pkg pd (e\<lparr>te_output := a @ nl\<rparr>) st))"
proof -
  have abort: "is_abort_output (a @ CHR 0x0A # b) \<longleftrightarrow> is_abort_output (a @ [CHR 0x0A]) \<or> is_abort_output b"
    using contains_across [of "''panic: ''" "CHR 0x0A" a b] contains_across [of "''fatal error: ''" "CHR 0x0A" a b]
    by (auto simp: is_abort_output_def)
  let ?p = "\<lambda>out. parse_event inv_name pkg pd (e\<lparr>te_output := out\<rparr>)"
  let ?s = "\<lambda>out st. st\<lparr>ss_saw_abort := ss_saw_abort st \<or> is_abort_output out\<rparr>"
  have "abort_facts (?p b (?p (a @ [CHR 0x0A]) st)) = abort_facts (?p (a @ CHR 0x0A # b) st)" if out: "te_action e = ''output''"
  proof -
    have first: "abort_facts (?p (a @ [CHR 0x0A]) st) = abort_facts (fold scan_line (text_lines (a @ [CHR 0x0A])) (?s (a @ [CHR 0x0A]) st))"
      using out by (simp add: parse_step_abort scan_timeout_dump_def)
    have flag: "abort_facts (s\<lparr>ss_saw_abort := ss_saw_abort s \<or> x\<rparr>) = abort_facts (s'\<lparr>ss_saw_abort := ss_saw_abort s' \<or> x\<rparr>)"
      if "abort_facts s = abort_facts s'" for s s' x using that by (simp add: abort_facts_def)
    have push: "abort_facts ((fold scan_line ls s)\<lparr>ss_saw_abort := y\<rparr>) = abort_facts (fold scan_line ls (s\<lparr>ss_saw_abort := y\<rparr>))"
      for ls s y
    proof (induction ls arbitrary: s)
      case (Cons l ls)
      have "abort_facts ((scan_line l s)\<lparr>ss_saw_abort := y\<rparr>) = abort_facts (scan_line l (s\<lparr>ss_saw_abort := y\<rparr>))"
        by (simp add: scan_line_def abort_facts_def split: option.split)
      from scan_lines_facts [OF this, of ls] Cons show ?case by simp
    qed simp
    have "abort_facts (?p b (?p (a @ [CHR 0x0A]) st))
        = abort_facts (fold scan_line (text_lines b) (?s b (?p (a @ [CHR 0x0A]) st)))"
      using out by (simp add: parse_step_abort scan_timeout_dump_def)
    also have "\<dots> = abort_facts (fold scan_line (text_lines b)
        (?s b (fold scan_line (text_lines (a @ [CHR 0x0A])) (?s (a @ [CHR 0x0A]) st))))"
      by (rule scan_lines_facts, rule flag, rule first)
    also have "\<dots> = abort_facts (fold scan_line (text_lines b) (fold scan_line (text_lines (a @ [CHR 0x0A])) (?s (a @ CHR 0x0A # b) st)))"
      by (rule scan_lines_facts) (simp add: abort push fold_field_frame [where g = ss_saw_abort] disj_assoc)
    also have "\<dots> = abort_facts (?p (a @ CHR 0x0A # b) st)"
      using out by (simp add: parse_step_abort scan_timeout_dump_def text_lines_append [of a b])
    finally show ?thesis .
  qed
  then show ?thesis by (cases "te_action e = ''output''") (simp_all add: nl_def parse_step_abort)
qed

text \<open>The events that deliver whole lines and a last piece, one event for each.\<close>

definition line_by_line :: "string list \<Rightarrow> string \<Rightarrow> string list" where
  "line_by_line ls b = map (\<lambda>l. l @ nl) ls @ [b]"

lemma line_by_line_simps:
  "line_by_line [] b = [b]" "line_by_line (l # ls) b = (l @ nl) # line_by_line ls b"
  "concat (line_by_line (l # ls) b) = l @ nl @ concat (line_by_line ls b)"
  by (simp_all add: line_by_line_def)

text \<open>C34: a deadline panic reads the same however its whole lines are grouped into events. Delivering
  pieces that each end in a newline, and a last piece of any form, as one event or each as its own
  leaves the abort flag, the deadline the panic printed and the roster of running tests the
  same. A cut inside a line can lose it: the panic line in two halves sets no abort flag.\<close>

theorem panic_chunking:
  "let parse = (\<lambda>out. parse_event inv_name pkg pd (e\<lparr>te_output := out\<rparr>)) in
     abort_facts (fold parse (line_by_line pieces b) st) = abort_facts (parse (concat (line_by_line pieces b)) st)
     \<and> (if te_action e = ''output''
        then ss_saw_abort (parse ''panic: test timed out'' stream_new)
          \<and> \<not> ss_saw_abort (fold parse [''pan'', ''ic: test timed out''] stream_new)
        else True)"
proof -
  let ?p = "\<lambda>out. parse_event inv_name pkg pd (e\<lparr>te_output := out\<rparr>)"
  have "abort_facts (fold ?p (line_by_line pieces b) st) = abort_facts (?p (concat (line_by_line pieces b)) st)"
  proof (induction pieces arbitrary: st)
    case (Cons l ls)
    then show ?case by (simp add: line_by_line_simps panic_cut)
  qed (simp add: line_by_line_simps)
  moreover have saw: "te_action e = ''output'' \<Longrightarrow>
      ss_saw_abort (?p out s) = (ss_saw_abort s \<or> is_abort_output out)" for out s
  proof -
    assume "te_action e = ''output''"
    then have "fst (abort_facts (?p out s))
        = fst (abort_facts (scan_timeout_dump out (s\<lparr>ss_saw_abort := ss_saw_abort s \<or> is_abort_output out\<rparr>)))"
      by (simp add: parse_step_abort)
    then show ?thesis by (simp add: abort_facts_def)
  qed
  moreover have "is_abort_output ''panic: test timed out''" "\<not> is_abort_output ''pan''" "\<not> is_abort_output ''ic: test timed out''"
    "\<not> ss_saw_abort stream_new"
    by code_simp+
  ultimately show ?thesis by (simp add: Let_def)
qed

section \<open>The tests a cut-off stream left\<close>

text \<open>A test is unfinished when it ran since it last ended.\<close>

definition unfinished :: "test_event list \<Rightarrow> string \<Rightarrow> bool" where
  "unfinished es t \<longleftrightarrow> t \<noteq> [] \<and> list_ex (\<lambda>e. te_action e = ''run'') (since_ended t es)"

lemma since_ended_Nil [simp]: "since_ended t [] = []"
  by (simp add: since_ended_def)

lemma parse_step_started:
  "ss_started (parse_event i p pd e st) =
     (if te_test e = [] then ss_started st else if te_action e = ''run'' then insert (te_test e) (ss_started st)
      else if ends_action e then ss_started st - {te_test e} else ss_started st)"
  "ss_started st \<union> dom (ss_per_test st) \<subseteq> set (ss_start_order st) \<Longrightarrow>
     ss_started (parse_event i p pd e st) \<union> dom (ss_per_test (parse_event i p pd e st))
       \<subseteq> set (ss_start_order (parse_event i p pd e st))"
  by (auto simp: parse_event_def step_defs ends_action_def Let_def split: if_splits)

lemma parse_started:
  "ss_started (fold (parse_event i p pd) es stream_new) = {t. unfinished es t}
   \<and> ss_started (fold (parse_event i p pd) es stream_new) \<union> dom (ss_per_test (fold (parse_event i p pd) es stream_new))
       \<subseteq> set (ss_start_order (fold (parse_event i p pd) es stream_new))"
proof (induction es rule: rev_induct)
  case Nil
  then show ?case by (simp add: stream_new_def unfinished_def)
next
  case (snoc e es)
  let ?st = "fold (parse_event i p pd) es stream_new"
  have "ss_started (parse_event i p pd e ?st) = {t. unfinished (es @ [e]) t}"
    unfolding parse_step_started(1) conjunct1 [OF snoc.IH] by (auto simp: unfinished_def ends_action_def)
  with parse_step_started(2) [OF conjunct2 [OF snoc.IH], of i p pd e] show ?case by simp
qed

lemma started_listed: "set (started_tests (parse_test_stream i p pd es ending)) = {t. unfinished es t}"
  using parse_started [of i p pd es] by (auto simp: started_tests_def)

text \<open>A test that ends and starts again, as under a repeat count, is listed twice.\<close>

lemma restart_listed_twice:
  "let ev = (\<lambda>action. \<lparr>te_time = None, te_action = action, te_test = ''TestA'', te_elapsed = 0, te_output = [], te_failed_build = []\<rparr>) in
   started_tests (parse_test_stream ''unit'' ''p'' None [ev ''run'', ev ''pass'', ev ''run''] Stream_EOF) = [''TestA'', ''TestA'']"
  by code_simp

section \<open>Registrations in the output\<close>

definition id_seg :: "string \<Rightarrow> bool" where
  "id_seg g \<longleftrightarrow> g \<noteq> [] \<and> list_all lower_alnum g"

definition id_text :: "string list \<Rightarrow> string" where
  "id_text gs = ''REQ'' @ concat (map ((#) CHR ''-'') gs)"

lemma lower_alnum_word: "lower_alnum c \<Longrightarrow> re_word c"
  by (auto simp: lower_alnum_def re_word_def Let_def)

lemma take_lower: "list_all lower_alnum g \<Longrightarrow> \<not> lower_alnum c \<Longrightarrow> takeWhile lower_alnum (g @ c # r) = g"
  by (induction g) auto

lemma id_groups_all:
  "list_all id_seg gs \<Longrightarrow> length gs < n \<Longrightarrow> \<not> lower_alnum c \<Longrightarrow> c \<noteq> CHR ''-'' \<Longrightarrow>
     id_groups n (concat (map ((#) CHR ''-'') gs) @ c # r) = map (\<lambda>g. Suc (length g)) gs"
proof (induction gs arbitrary: n)
  case Nil
  then show ?case by (cases n) auto
next
  case (Cons g gs)
  have hyphen: "\<not> lower_alnum CHR ''-''" by code_simp
  obtain m where n: "n = Suc m" using Cons.prems(2) by (cases n) auto
  have "\<exists>d q. concat (map ((#) CHR ''-'') gs) @ c # r = d # q \<and> \<not> lower_alnum d"
    using Cons.prems(3) hyphen by (cases gs) auto
  then obtain d q where dq: "concat (map ((#) CHR ''-'') gs) @ c # r = d # q" "\<not> lower_alnum d" by blast
  have g: "takeWhile lower_alnum (g @ d # q) = g" using Cons.prems(1) dq(2) by (intro take_lower) (auto simp: id_seg_def)
  have "id_groups m (d # q) = map (\<lambda>g. Suc (length g)) gs"
    using Cons.IH [of m] Cons.prems n dq(1) by simp
  then show ?case using g Cons.prems(1) by (simp add: n dq(1) id_seg_def Let_def)
qed

lemma covers_id_exact:
  assumes "list_all id_seg gs" and "gs \<noteq> []"
  shows "covers_id (id_text gs @ CHR 0x0A # r) = Some (length (id_text gs))"
proof -
  let ?body = "concat (map ((#) CHR ''-'') gs)" and ?s = "id_text gs @ CHR 0x0A # r"
  have nl: "\<not> lower_alnum (CHR 0x0A)" "\<not> re_word (CHR 0x0A)" by code_simp+
  have len: "length ?body = sum_list (map (\<lambda>g. Suc (length g)) gs)"
    by (induction gs) auto
  have "length gs \<le> length ?body" by (induction gs) auto
  then have "length gs < length ?s" by (simp add: id_text_def)
  then have groups: "id_groups (length ?s) (drop 3 ?s) = map (\<lambda>g. Suc (length g)) gs"
    using id_groups_all [OF assms(1), of "length ?s" "CHR 0x0A" r] nl by (simp add: id_text_def)
  let ?n = "3 + sum_list (map (\<lambda>g. Suc (length g)) gs)"
  have n: "?n = length (id_text gs)" by (simp add: id_text_def len)
  obtain init g where gs: "gs = init @ [g]" using assms(2) by (metis rev_exhaust)
  then have g: "g \<noteq> []" "lower_alnum (last g)" using assms(1) by (auto simp: id_seg_def list_all_iff)
  have "id_text gs = (''REQ'' @ concat (map ((#) CHR ''-'') init) @ CHR ''-'' # butlast g) @ [last g]"
    using g(1) by (simp add: id_text_def gs)
  then have "last (id_text gs) = last g" by (metis last_snoc)
  moreover have "id_text gs \<noteq> []" by (simp add: id_text_def)
  ultimately have "?s ! (?n - 1) = last g" by (simp add: n nth_append last_conv_nth)
  then have "boundary (Some (?s ! (?n - 1))) (drop ?n ?s)"
    using lower_alnum_word [OF g(2)] nl(2) by (simp add: boundary_def n)
  moreover have "has_prefix ?s ''REQ''" by (simp add: id_text_def has_prefix_iff)
  ultimately show ?thesis unfolding covers_id_def Let_def groups using assms(2) n by simp
qed

lemma find_all_skip:
  "(\<And>k q. k < length pre \<Longrightarrow> m q (drop k pre @ s) = None) \<Longrightarrow>
     find_all m prev (pre @ s) = find_all m (if pre = [] then prev else Some (last pre)) s"
proof (induction pre arbitrary: prev)
  case (Cons c pre)
  have "m prev (c # pre @ s) = None" using Cons.prems [of 0 prev] by simp
  moreover have "m q (drop k pre @ s) = None" if "k < length pre" for k q using Cons.prems [of "Suc k" q] that by simp
  ultimately show ?case using Cons.IH by simp
qed simp

lemma find_all_hit:
  "m q s = Some (Suc n) \<Longrightarrow> s = c # cs \<Longrightarrow>
     find_all m q s = take (Suc n) s # find_all m (Some (last (take (Suc n) s))) (drop n cs)"
  by simp

text \<open>C35: a registration printed by the helper is found again. A line that ends in the marker and a
  requirement identifier, where no marker starts earlier, yields that identifier and no other, whatever
  the test log put in front of it.\<close>

theorem covers_found:
  "if list_all id_seg gs \<and> gs \<noteq> [] \<and> \<not> contains (pre @ butlast covers_marker) covers_marker
   then find_covers (pre @ covers_marker @ id_text gs @ nl) = [id_text gs] else True"
proof -
  have "find_covers (pre @ covers_marker @ id_text gs @ nl) = [id_text gs]"
    if gs: "list_all id_seg gs" "gs \<noteq> []" and pre: "\<not> contains (pre @ butlast covers_marker) covers_marker"
  proof -
    let ?s = "covers_marker @ id_text gs @ nl"
    have ne: "covers_marker \<noteq> []" by (simp add: covers_marker_def)
    have "covers_token q (drop k pre @ ?s) = None" if k: "k < length pre" for k q
    proof (rule ccontr)
      assume "covers_token q (drop k pre @ ?s) \<noteq> None"
      then have "has_prefix (drop k pre @ ?s) covers_marker" by (simp add: covers_token_def split: if_splits)
      then obtain v where v: "drop k pre @ ?s = covers_marker @ v" by (auto simp: has_prefix_iff)
      let ?w = "drop k pre @ butlast covers_marker"
      have long: "length covers_marker \<le> length ?w" using k ne by (cases covers_marker) auto
      have "take (length ?w) (drop k pre @ ?s) = ?w" by (simp add: butlast_conv_take)
      then have "take (length covers_marker) ?w = covers_marker"
        using long v by (metis append_eq_conv_conj min.absorb1 take_take)
      then have "pre @ butlast covers_marker = take k pre @ covers_marker @ drop (length covers_marker) ?w"
        by (metis append.assoc append_take_drop_id)
      with pre show False unfolding contains_iff [OF ne] by blast
    qed
    from find_all_skip [where m = covers_token and prev = None, OF this]
    have skip: "find_all covers_token None (pre @ ?s) = find_all covers_token (if pre = [] then None else Some (last pre)) ?s" by blast
    have tok: "covers_token q ?s = Some (length covers_marker + length (id_text gs))" for q
      using covers_id_exact [OF gs, of "[]"] by (simp add: covers_token_def nl_def)
    have one: "find_all covers_token q [CHR 0x0A] = []" for q by (simp add: covers_token_def covers_marker_def)
    obtain c cs where s: "?s = c # cs" by (cases ?s) (auto simp: covers_marker_def)
    have len: "length covers_marker + length (id_text gs) = Suc (length covers_marker + length (id_text gs) - 1)"
      using ne by (cases covers_marker) auto
    have "find_all covers_token q ?s = [covers_marker @ id_text gs]" for q
    proof -
      have t: "take (length covers_marker + length (id_text gs)) ?s = covers_marker @ id_text gs"
        "drop (length covers_marker + length (id_text gs)) ?s = nl" by simp_all
      have d: "drop (length covers_marker + length (id_text gs) - 1) cs = [CHR 0x0A]"
        using t(2) s len by (metis drop_Suc_Cons nl_def)
      have m: "covers_token q ?s = Some (Suc (length covers_marker + length (id_text gs) - 1))" using tok [of q] len by simp
      show ?thesis unfolding find_all_hit [where m = covers_token, OF m s] d one len [symmetric] t(1) ..
    qed
    with skip show ?thesis by (simp add: find_covers_def)
  qed
  then show ?thesis by simp
qed

end
