(* ===== verification/Utf8.thy ===== *)
theory Utf8
  imports GoStd
begin

text \<open>
  Valid UTF-8 under the operations the executor applies to process output: concatenation, a cut at
  the start of a rune, a split at an ASCII byte, and the scrub of invalid bytes.
\<close>

section \<open>One rune\<close>

text \<open>The bytes of one rune: its first starts it, the others do not, and it decodes whatever follows.\<close>

definition rune_bytes :: "string \<Rightarrow> nat \<Rightarrow> bool" where
  "rune_bytes p r \<longleftrightarrow>
     p \<noteq> [] \<and> rune_start (hd p) \<and> list_all (\<lambda>c. \<not> rune_start c) (tl p)
     \<and> (\<forall>t. decode_rune (p @ t) = (r, length p)) \<and> \<not> (r = rune_error \<and> length p = 1)"

lemma cont_not_start: "cont lo hi c \<Longrightarrow> 0x80 \<le> lo \<Longrightarrow> hi \<le> 0xBF \<Longrightarrow> \<not> rune_start c"
  by (auto simp: cont_def rune_start_def)

lemma decode_one:
  assumes d: "decode_rune (c # cs) = (r, w)" and ok: "\<not> (r = rune_error \<and> w = 1)"
  shows "\<exists>p t. c # cs = p @ t \<and> length p = w \<and> rune_bytes p r"
proof -
  let ?b = "byte_val c"
  consider "?b < 0x80" | "0x80 \<le> ?b \<and> ?b < 0xC2" | "0xC2 \<le> ?b \<and> ?b < 0xE0" | "0xE0 \<le> ?b \<and> ?b < 0xF0"
    | "0xF0 \<le> ?b \<and> ?b < 0xF5" | "0xF5 \<le> ?b" by linarith
  then show ?thesis
  proof cases
    case 1
    then have "decode_rune ([c] @ t) = (?b, 1)" for t by (simp add: decode_rune.simps)
    moreover from 1 d have "r = ?b" "w = 1" by (simp_all add: decode_rune.simps)
    moreover have "rune_start c" using 1 by (simp add: rune_start_def)
    moreover have "?b \<noteq> rune_error" using 1 by (simp add: rune_error_def)
    ultimately show ?thesis by (intro exI [of _ "[c]"] exI [of _ cs]) (simp add: rune_bytes_def)
  next
    case 2
    then show ?thesis using d ok by (simp add: decode_rune.simps)
  next
    case 3
    then have st: "rune_start c" by (simp add: rune_start_def)
    obtain c1 t where cs: "cs = c1 # t" using 3 d ok by (cases cs) (simp_all add: decode_rune.simps)
    have k: "cont 0x80 0xBF c1" using 3 d ok by (simp add: decode_rune.simps cs split: if_splits)
    have r: "r = (?b - 0xC0) * 64 + (byte_val c1 - 0x80)" "w = 2" using 3 d k by (simp_all add: decode_rune.simps cs)
    have "decode_rune ([c, c1] @ u) = (r, 2)" for u using 3 k r by (simp add: decode_rune.simps)
    with st k r show ?thesis
      by (intro exI [of _ "[c, c1]"] exI [of _ t]) (simp add: rune_bytes_def cs cont_not_start)
  next
    case 4
    then have st: "rune_start c" by (simp add: rune_start_def)
    obtain c1 c2 t where cs: "cs = c1 # c2 # t"
      using 4 d ok by (cases cs; cases "tl cs") (simp_all add: decode_rune.simps)
    have k: "cont (if ?b = 0xE0 then 0xA0 else 0x80) (if ?b = 0xED then 0x9F else 0xBF) c1" "cont 0x80 0xBF c2"
      using 4 d ok by (simp_all only: cs decode_rune.simps Let_def list.case if_False if_True not_less [symmetric] prod.inject
          split: if_splits) simp_all
    have r: "r = (?b - 0xE0) * 4096 + (byte_val c1 - 0x80) * 64 + (byte_val c2 - 0x80)" "w = 3"
      using 4 d k by (simp_all add: decode_rune.simps cs)
    have "decode_rune ([c, c1, c2] @ u) = (r, 3)" for u using 4 k r by (simp add: decode_rune.simps)
    moreover have "\<not> rune_start c1" using k(1) by (rule cont_not_start) simp_all
    ultimately show ?thesis using st k r
      by (intro exI [of _ "[c, c1, c2]"] exI [of _ t]) (simp add: rune_bytes_def cs cont_not_start)
  next
    case 5
    then have st: "rune_start c" by (simp add: rune_start_def)
    obtain c1 c2 c3 t where cs: "cs = c1 # c2 # c3 # t"
      using 5 d ok by (cases cs; cases "tl cs"; cases "tl (tl cs)") (simp_all add: decode_rune.simps)
    have k: "cont (if ?b = 0xF0 then 0x90 else 0x80) (if ?b = 0xF4 then 0x8F else 0xBF) c1" "cont 0x80 0xBF c2" "cont 0x80 0xBF c3"
      using 5 d ok by (simp_all only: cs decode_rune.simps Let_def list.case if_False if_True not_less [symmetric] prod.inject
          split: if_splits) simp_all
    have r: "r = (?b - 0xF0) * 262144 + (byte_val c1 - 0x80) * 4096 + (byte_val c2 - 0x80) * 64 + (byte_val c3 - 0x80)" "w = 4"
      using 5 d k by (simp_all add: decode_rune.simps cs)
    have "decode_rune ([c, c1, c2, c3] @ u) = (r, 4)" for u using 5 k r by (simp add: decode_rune.simps)
    moreover have "\<not> rune_start c1" using k(1) by (rule cont_not_start) simp_all
    ultimately show ?thesis using st k r
      by (intro exI [of _ "[c, c1, c2, c3]"] exI [of _ t]) (simp add: rune_bytes_def cs cont_not_start)
  next
    case 6
    then show ?thesis using d ok by (simp add: decode_rune.simps)
  qed
qed

section \<open>Valid strings\<close>

lemma valid_Nil [simp]: "valid_utf8 []"
  by (simp add: valid_utf8_def)

text \<open>A valid string is empty or one rune in front of a valid string.\<close>

lemma valid_step:
  assumes "valid_utf8 s" and "s \<noteq> []"
  shows "\<exists>p t r. s = p @ t \<and> rune_bytes p r \<and> valid_utf8 t"
proof -
  obtain c cs where s: "s = c # cs" using assms(2) by (cases s) auto
  obtain r w where d: "decode_rune (c # cs) = (r, w)" by fastforce
  have parts: "rune_parts (c # cs) = (r, take w (c # cs)) # rune_parts (drop w (c # cs))"
    by (subst rune_parts.simps(2)) (simp add: d)
  from assms(1) have ok: "\<not> (r = rune_error \<and> length (take w (c # cs)) = 1)" and rest: "valid_utf8 (drop w (c # cs))"
    unfolding valid_utf8_def s parts by simp_all
  have "\<not> (r = rune_error \<and> w = 1)" using ok by auto
  from decode_one [OF d this] obtain p t where p: "c # cs = p @ t" "length p = w" "rune_bytes p r" by blast
  then have "drop w (c # cs) = t" by simp
  with p rest s show ?thesis by blast
qed

lemma valid_cons: "rune_bytes p r \<Longrightarrow> valid_utf8 (p @ t) \<longleftrightarrow> valid_utf8 t"
proof -
  assume p: "rune_bytes p r"
  then obtain c cs where c: "p = c # cs" by (cases p) (auto simp: rune_bytes_def)
  have d: "decode_rune (c # cs @ t) = (r, length p)" using p c by (auto simp: rune_bytes_def)
  have "rune_parts (c # cs @ t) = (r, p) # rune_parts t"
    by (subst rune_parts.simps(2)) (simp add: d c)
  with p c show ?thesis unfolding valid_utf8_def by (simp add: rune_bytes_def)
qed

lemma valid_induct [consumes 1, case_names empty rune]:
  assumes "valid_utf8 s" and "P []" and "\<And>p r t. rune_bytes p r \<Longrightarrow> valid_utf8 t \<Longrightarrow> P t \<Longrightarrow> P (p @ t)"
  shows "P s"
  using assms(1)
proof (induction "length s" arbitrary: s rule: less_induct)
  case less
  show ?case
  proof (cases "s = []")
    case False
    from valid_step [OF less.prems this] obtain p t r where s: "s = p @ t" "rune_bytes p r" "valid_utf8 t" by blast
    then have "length t < length s" by (cases p) (auto simp: rune_bytes_def)
    from less.hyps [OF this s(3)] s assms(3) show ?thesis by blast
  qed (simp add: assms(2))
qed

lemma valid_append: "valid_utf8 a \<Longrightarrow> valid_utf8 b \<Longrightarrow> valid_utf8 (a @ b)"
  by (induction a rule: valid_induct) (simp_all add: valid_cons)

lemma valid_concat: "list_all valid_utf8 ss \<Longrightarrow> valid_utf8 (concat ss)"
  by (induction ss) (auto intro: valid_append)

text \<open>A cut before a byte that starts a rune, or at the end, leaves both parts valid.\<close>

lemma valid_split:
  "valid_utf8 s \<Longrightarrow> n \<le> length s \<Longrightarrow> (n < length s \<Longrightarrow> rune_start (s ! n)) \<Longrightarrow>
     valid_utf8 (take n s) \<and> valid_utf8 (drop n s)"
proof (induction s arbitrary: n rule: valid_induct)
  case (rune p r t)
  show ?case
  proof (cases "n < length p")
    case True
    show ?thesis
    proof (cases n)
      case 0
      with rune show ?thesis by (simp add: valid_cons)
    next
      case (Suc k)
      have "(p @ t) ! n = tl p ! k" "k < length (tl p)" using True Suc by (auto simp: nth_append nth_tl)
      moreover have "n < length (p @ t)" using True by simp
      ultimately have "rune_start (tl p ! k)" using rune.prems(2) by metis
      with \<open>k < length (tl p)\<close> rune.hyps(1) show ?thesis by (auto simp: rune_bytes_def list_all_iff)
    qed
  next
    case False
    have "valid_utf8 (take (n - length p) t) \<and> valid_utf8 (drop (n - length p) t)"
      using rune.prems False by (intro rune.IH) (auto simp: nth_append)
    with False rune.hyps(1) show ?thesis by (simp add: valid_cons)
  qed
qed simp

definition ascii :: "char \<Rightarrow> bool" where
  "ascii c \<longleftrightarrow> byte_val c < 0x80"

lemma ascii_bytes: "ascii c \<Longrightarrow> rune_bytes [c] (byte_val c)"
  by (auto simp: ascii_def rune_bytes_def rune_start_def rune_error_def decode_rune.simps)

lemma ascii_start: "ascii c \<Longrightarrow> rune_start c"
  by (simp add: ascii_def rune_start_def)

lemma valid_ascii_cons: "ascii c \<Longrightarrow> valid_utf8 (c # s) \<longleftrightarrow> valid_utf8 s"
  using valid_cons [OF ascii_bytes, of c s] by simp

lemma valid_ascii: "list_all ascii s \<Longrightarrow> valid_utf8 s"
  by (induction s) (simp_all add: valid_ascii_cons)

lemma valid_at_ascii: "ascii c \<Longrightarrow> valid_utf8 (a @ c # b) \<Longrightarrow> valid_utf8 a \<and> valid_utf8 b"
  using valid_split [of "a @ c # b" "length a"] by (auto simp: ascii_start valid_ascii_cons)

lemma valid_digits: "valid_utf8 (format_uint n)"
proof (rule valid_ascii)
  show "list_all ascii (format_uint n)"
    using format_uint_digits [of n] by (auto simp: list_all_iff is_digit_def ascii_def)
qed

lemma valid_lines: "ascii d \<Longrightarrow> valid_utf8 s \<Longrightarrow> list_all valid_utf8 (split_on d s)"
proof (induction "length s" arbitrary: s rule: less_induct)
  case less
  show ?case
  proof (cases "d \<in> set s")
    case True
    then obtain a b where s: "s = a @ d # b" "d \<notin> set a" by (meson split_list_first)
    with valid_at_ascii less.prems have "valid_utf8 a" "valid_utf8 b" by blast+
    with less.hyps [of b] less.prems s show ?thesis by (simp add: split_on_append)
  qed (simp add: less.prems)
qed

lemma valid_takeWhile:
  assumes "\<And>c. \<not> q c \<Longrightarrow> ascii c" and "valid_utf8 s"
  shows "valid_utf8 (takeWhile q s)"
proof (cases "dropWhile q s")
  case Nil
  then show ?thesis using assms(2) by (metis append_Nil2 takeWhile_dropWhile_id)
next
  case (Cons c r)
  then have "\<not> q c" by (metis dropWhile_eq_Cons_conv)
  with assms Cons valid_at_ascii show ?thesis by (metis takeWhile_dropWhile_id)
qed

text \<open>The runes a string decodes to are valid one by one, but for the invalid bytes.\<close>

lemma parts_valid: "(r, bs) \<in> set (rune_parts s) \<Longrightarrow> \<not> (r = rune_error \<and> length bs = 1) \<Longrightarrow> valid_utf8 bs"
proof (induction s rule: rune_parts.induct)
  case (2 c cs)
  obtain r' w where d: "decode_rune (c # cs) = (r', w)" by fastforce
  have parts: "rune_parts (c # cs) = (r', take w (c # cs)) # rune_parts (drop w (c # cs))"
    by (subst rune_parts.simps(2)) (simp add: d)
  show ?case
  proof (cases "(r, bs) \<in> set (rune_parts (drop w (c # cs)))")
    case True
    with 2 d show ?thesis by metis
  next
    case False
    with 2(2) parts have rb: "r = r'" "bs = take w (c # cs)" by auto
    have "\<not> (r' = rune_error \<and> w = 1)" using 2(3) rb by auto
    from decode_one [OF d this] obtain p t where p: "c # cs = p @ t" "length p = w" "rune_bytes p r'" by blast
    then have "bs = p" using rb by (metis append_eq_conv_conj)
    with p(3) valid_cons [of p r' "[]"] show ?thesis by simp
  qed
qed simp

end
