(* ===== verification/Execute.thy ===== *)
theory Execute
  imports Stream Utf8
begin

text \<open>
  The verdict on one package's process and on an invocation, \<open>internal/backends/golang\<close>:
  \<open>execute.go\<close> (the residue a run leaves, its classification, its completion under an expired
  envelope, a package in its slot, the assembly of an invocation, the cause a report names),
  \<open>nativeexecution.go\<close> (the native run of a package), \<open>retainedrun.go\<close> (the projection of an owned process), \<open>observe.go\<close> (why an observation is incomplete) and
  \<open>selection.go\<close> (the isolation pass). Processes and clocks are outside: a process is the
  record of how it ended, an error its text and, when it is an exit, its code. Duration
  parsing is the parameter \<open>dur\<close>, and \<open>tbl\<close> is the printable table of \<open>%q\<close>.
\<close>

section \<open>Runs\<close>

record wait_err =
  we_text :: string
  we_exit :: "int option"

datatype 'c evidence = Completed_Evidence 'c | Incomplete_Evidence string

record 'c observation =
  ob_producer :: "producer option"
  ob_package :: string
  ob_evidence :: "'c evidence"

datatype package_state = STATE_NEVER_STARTED | STATE_CANCELLED | STATE_SKIPPED | STATE_COMPLETED | STATE_FAILED

record package_timing =
  pt_invocation :: string
  pt_package :: string
  pt_solo_test :: string
  pt_admission_origin :: string
  pt_queue_wait :: int
  pt_build_elapsed :: int
  pt_binary_elapsed :: int
  pt_total_elapsed :: int
  pt_state :: package_state
  pt_tests :: "test_timing list"

record 'c package_run =
  pr_pkg :: string
  pr_solo :: string
  pr_disposition :: health
  pr_aborted :: "string list"
  pr_residue :: "bounded_buffer option"
  pr_producer :: "producer option"
  pr_obs :: "'c observation option"
  pr_tests :: "test_result list"
  pr_diags :: "failure_diagnostic list"
  pr_held_by :: string
  pr_admission_origin :: string
  pr_queue_wait :: int
  pr_build_elapsed :: int
  pr_binary_elapsed :: int
  pr_total_elapsed :: int
  pr_no_test_files :: bool
  pr_test_timings :: "test_timing list"
  pr_timing :: "package_timing option"

definition blank_run :: "string \<Rightarrow> 'c package_run" where
  "blank_run pkg =
     \<lparr>pr_pkg = pkg, pr_solo = [], pr_disposition = HEALTH_UNSPECIFIED, pr_aborted = [], pr_residue = None,
      pr_producer = None, pr_obs = None, pr_tests = [], pr_diags = [], pr_held_by = [], pr_admission_origin = [],
      pr_queue_wait = 0, pr_build_elapsed = 0, pr_binary_elapsed = 0, pr_total_elapsed = 0, pr_no_test_files = False,
      pr_test_timings = [], pr_timing = None\<rparr>"

text \<open>The resolved configuration a report carries, as the normalized invocation holds it.\<close>

record go_config =
  gc_toolchain :: string
  gc_goos :: string
  gc_goarch :: string
  gc_cgo_enabled :: bool
  gc_goflags :: string
  gc_goexperiment :: string
  gc_workspace_on :: bool
  gc_race :: bool
  gc_plain_witness :: bool
  gc_linker_assignments :: "string list"
  gc_input_files :: "string list"

record invocation =
  ni_name :: string
  ni_timeout :: string
  ni_args :: "string list"
  ni_toolchain :: string
  ni_goos :: string
  ni_goarch :: string
  ni_cgo_enabled :: bool
  ni_goflags :: string
  ni_goexperiment :: string
  ni_workspace_on :: bool
  ni_race :: bool
  ni_plain_witness :: bool
  ni_linker_assignments :: "string list"
  ni_input_files :: "string list"

definition resolved_config :: "invocation \<Rightarrow> go_config" where
  "resolved_config n =
     \<lparr>gc_toolchain = ni_toolchain n, gc_goos = ni_goos n, gc_goarch = ni_goarch n, gc_cgo_enabled = ni_cgo_enabled n,
      gc_goflags = ni_goflags n, gc_goexperiment = ni_goexperiment n, gc_workspace_on = ni_workspace_on n,
      gc_race = ni_race n, gc_plain_witness = ni_plain_witness n, gc_linker_assignments = ni_linker_assignments n,
      gc_input_files = ni_input_files n\<rparr>"

section \<open>The bound the record declares\<close>

fun last_timeout :: "string \<Rightarrow> string list \<Rightarrow> string" where
  "last_timeout bound [] = bound"
| "last_timeout bound (a # rest) =
     (if \<not> has_prefix a ''-'' then last_timeout bound rest
      else let arg = trim_prefix (trim_prefix a ''-'') ''-'' in
        if has_prefix arg ''test.timeout='' then last_timeout (trim_prefix arg ''test.timeout='') rest
        else if arg = ''test.timeout'' \<and> rest \<noteq> [] then last_timeout (hd rest) (tl rest)
        else last_timeout bound rest)"

definition declared_binary_bound :: "(string \<Rightarrow> int option) \<Rightarrow> invocation \<Rightarrow> string" where
  "declared_binary_bound dur n =
     (let bound = last_timeout [] (ni_args n) in
      case dur bound of None \<Rightarrow> [] | Some d \<Rightarrow> if d \<le> 0 then [] else bound)"

section \<open>The residue of a run\<close>

definition replacement :: string where
  "replacement = [CHR 0xEF, CHR 0xBF, CHR 0xBD]"

text \<open>\<open>strings.ToValidUTF8\<close>: each run of invalid bytes becomes one replacement.\<close>

fun scrub :: "bool \<Rightarrow> (nat \<times> string) list \<Rightarrow> string" where
  "scrub bad [] = []"
| "scrub bad ((r, bs) # ps) =
     (if r = rune_error \<and> length bs = 1 then (if bad then [] else replacement) @ scrub True ps
      else bs @ scrub False ps)"

definition to_valid_utf8 :: "string \<Rightarrow> string" where
  "to_valid_utf8 s = scrub False (rune_parts s)"

definition bb_section :: "string \<Rightarrow> bounded_buffer \<Rightarrow> bounded_buffer" where
  "bb_section s out = bb_write s (if bb_empty out then out else bb_write nl out)"

definition residue_remainder :: "stream_state \<Rightarrow> bounded_buffer \<Rightarrow> bounded_buffer" where
  "residue_remainder st out =
     (if ss_malformed st = [] then out
      else let scrubbed = to_valid_utf8 (ss_malformed st); remainder = cut_at_rune scrubbed remainder_share in
           bb_write remainder (bb_mark (length remainder < length scrubbed) (bb_section ''malformed stream: '' out)))"

definition residue_buffer :: "string \<Rightarrow> bounded_buffer \<Rightarrow> bounded_buffer \<Rightarrow> bounded_buffer" where
  "residue_buffer title bb out = bb_mark (bb_truncated bb) (bb_write (bb_text bb) (bb_section title out))"

definition residue_aborted :: "stream_state \<Rightarrow> string \<Rightarrow> bounded_buffer \<Rightarrow> bounded_buffer" where
  "residue_aborted st name out =
     (case ss_per_test st name of
        None \<Rightarrow> out
      | Some bb \<Rightarrow> if name \<notin> ss_started st \<or> bb_empty bb then out
                   else residue_buffer (''--- aborted: '' @ name @ '' ---'' @ nl) bb out)"

definition run_residue :: "stream_state \<Rightarrow> bounded_buffer \<Rightarrow> wait_err option \<Rightarrow> string \<Rightarrow> bounded_buffer" where
  "run_residue st stderr wait head =
     (let o1 = (if head = [] then bb_new else bb_section head bb_new);
          o2 = residue_remainder st o1;
          o3 = (if bb_empty (ss_pkg_output st) then o2 else residue_buffer (''package output:'' @ nl) (ss_pkg_output st) o2);
          o4 = fold (residue_aborted st) (ss_start_order st) o3;
          o5 = (if bb_empty stderr then o4
                else residue_buffer (''stderr:'' @ nl) (stderr\<lparr>bb_text := to_valid_utf8 (bb_text stderr)\<rparr>) o4)
      in case wait of None \<Rightarrow> o5 | Some e \<Rightarrow> bb_section (''process exit: '' @ we_text e) o5)"

section \<open>The classification\<close>

definition package_diag :: "string \<Rightarrow> string \<Rightarrow> health \<Rightarrow> bounded_buffer \<Rightarrow> failure_diagnostic" where
  "package_diag inv_name pkg d out =
     \<lparr>fd_invocation = inv_name, fd_package = pkg, fd_test = [], fd_disposition = d,
      fd_output = bb_text out, fd_truncated = bb_truncated out\<rparr>"

definition failed_compilation :: "stream_state \<Rightarrow> wait_err option \<Rightarrow> bool" where
  "failed_compilation st wait \<longleftrightarrow>
     ss_failed_build st
     \<and> (case wait of None \<Rightarrow> False | Some e \<Rightarrow> (case we_exit e of None \<Rightarrow> False | Some code \<Rightarrow> 0 < code))"

text \<open>The refusals, in order; none refuses a stream that can be judged.\<close>

definition stream_refusal :: "stream_state \<Rightarrow> wait_err option \<Rightarrow> string option" where
  "stream_refusal st wait =
     (if ss_malformed st \<noteq> [] then Some ''go test -json stream carried unparseable output''
      else if ss_events st = 0 then Some ''go test -json produced no events; a silent command stream is refused''
      else if ss_terminal st = [] \<and> \<not> failed_compilation st wait
      then Some ''go test -json stream ended without a terminal package event''
      else if ss_post_terminal st
      then Some ''go test -json stream carried events after the terminal package event; a stream that outlives its own verdict is refused''
      else if ss_terminal st \<in> {''pass'', ''skip''} \<and> wait \<noteq> None
      then Some ''go test exited with failure despite a passing stream''
      else None)"

definition deadline_head :: "stream_state \<Rightarrow> string \<Rightarrow> string \<times> bool" where
  "deadline_head st bound =
     (let head = ''test binary timeout '' @ bound @ '' exhausted before the package completed ''
            @ em_dash @ '' the budget is the red fact, not the running tests'';
          names = (if ss_roster st = [] then started_tests st else ss_roster st) in
      if names = [] then (head, False)
      else case format_bounded_roster (nl @ ''running when the budget expired: '') names of
             (line, marked) \<Rightarrow> (head @ line, marked))"

definition classify_run ::
  "string \<Rightarrow> string \<Rightarrow> stream_state \<Rightarrow> wait_err option \<Rightarrow> bounded_buffer \<Rightarrow> string \<Rightarrow> 'c package_run" where
  "classify_run inv_name pkg st wait stderr bound =
     (let run = (blank_run pkg)\<lparr>pr_tests := ss_tests st, pr_diags := ss_diags st\<rparr>;
          judged = (\<lambda>d out. run\<lparr>pr_disposition := d, pr_diags := ss_diags st @ [package_diag inv_name pkg d out]\<rparr>) in
      case stream_refusal st wait of
        Some reason \<Rightarrow> judged HEALTH_DEGRADED (run_residue st stderr wait reason)
      | None \<Rightarrow>
          if ss_terminal st \<in> {''pass'', ''skip''} then run\<lparr>pr_disposition := HEALTH_HEALTHY\<rparr>
          else let deadline = ss_binary_timeout st \<noteq> [] \<and> bound \<noteq> [] \<and> \<not> ss_failed_build st;
                   d = (if ss_failed_build st then HEALTH_BUILD_FAILED
                        else if deadline then HEALTH_TIMEOUT else HEALTH_TEST_FAILED)
               in case (if deadline then deadline_head st bound else ([], False)) of
                    (head, marked) \<Rightarrow> judged d (bb_mark marked (run_residue st stderr wait head)))"

definition degraded_run :: "string \<Rightarrow> string \<Rightarrow> string \<Rightarrow> bool \<Rightarrow> 'c package_run" where
  "degraded_run inv_name pkg reason truncated =
     (blank_run pkg)\<lparr>pr_disposition := HEALTH_DEGRADED,
        pr_diags := [package_diag inv_name pkg HEALTH_DEGRADED \<lparr>bb_text = reason, bb_truncated = truncated\<rparr>]\<rparr>"

section \<open>Completion\<close>

definition timing_state :: "bool \<Rightarrow> 'c package_run \<Rightarrow> package_state" where
  "timing_state cancelled r =
     (let d = pr_disposition r in
      if pr_producer r = None \<and> pr_build_elapsed r = 0
         \<and> (cancelled \<or> d = HEALTH_UNSPECIFIED \<or> d = HEALTH_TIMEOUT \<or> pr_held_by r \<noteq> []) then STATE_NEVER_STARTED
      else if cancelled \<or> d = HEALTH_UNSPECIFIED \<or> d = HEALTH_TIMEOUT then STATE_CANCELLED
      else if d = HEALTH_HEALTHY \<and> pr_no_test_files r then STATE_SKIPPED
      else if d = HEALTH_HEALTHY then STATE_COMPLETED
      else STATE_FAILED)"

definition build_timing_diagnostic :: "string \<Rightarrow> bool \<Rightarrow> 'c package_run \<Rightarrow> 'c package_run" where
  "build_timing_diagnostic inv_name cancelled r =
     (if pr_timing r \<noteq> None then r
      else r\<lparr>pr_timing := Some
        \<lparr>pt_invocation = inv_name, pt_package = pr_pkg r, pt_solo_test = pr_solo r,
         pt_admission_origin = (if pr_admission_origin r \<noteq> [] then pr_admission_origin r else pr_held_by r),
         pt_queue_wait = pr_queue_wait r, pt_build_elapsed = pr_build_elapsed r, pt_binary_elapsed = pr_binary_elapsed r,
         pt_total_elapsed = pr_total_elapsed r, pt_state = timing_state cancelled r, pt_tests = pr_test_timings r\<rparr>\<rparr>)"

definition incomplete_observation :: "string \<Rightarrow> producer \<Rightarrow> string \<Rightarrow> 'c observation" where
  "incomplete_observation pkg pd reason =
     \<lparr>ob_producer = Some pd, ob_package = pkg, ob_evidence = Incomplete_Evidence reason\<rparr>"

definition held_by_prefix :: string where
  "held_by_prefix = ''held by the memory term: ''"

definition cut_off_text :: "invocation \<Rightarrow> 'c package_run \<Rightarrow> bounded_buffer" where
  "cut_off_text n r =
     (let o1 = bb_write (''invocation timeout '' @ ni_timeout n @ '' expired before the package completed'') bb_new;
          o2 = (if pr_held_by r = [] then o1 else bb_write (pr_held_by r) (bb_write (nl @ held_by_prefix) o1));
          o3 = (if pr_aborted r = [] then o2
                else case format_bounded_roster (nl @ ''started but unfinished: '') (pr_aborted r) of
                       (line, marked) \<Rightarrow> bb_mark marked (bb_write line o2))
      in case pr_residue r of
           None \<Rightarrow> o3
         | Some bb \<Rightarrow> if bb_empty bb then o3 else bb_mark (bb_truncated bb) (bb_write (bb_text bb) (bb_write nl o3)))"

definition finalize_run ::
  "(nat \<Rightarrow> bool) \<Rightarrow> invocation \<Rightarrow> bool \<Rightarrow> string \<Rightarrow> 'c package_run \<Rightarrow> string + 'c package_run" where
  "finalize_run tbl n timed_out solo r =
     (if pr_disposition r \<noteq> HEALTH_UNSPECIFIED then Inr (build_timing_diagnostic (ni_name n) False r)
      else if \<not> timed_out
      then Inl (''invocation '' @ quote tbl (ni_name n) @ '': package '' @ pr_pkg r
                @ '' ended without a terminal disposition outside timeout and cancellation'')
      else let d = (package_diag (ni_name n) (pr_pkg r) HEALTH_TIMEOUT (cut_off_text n r))\<lparr>fd_test := solo\<rparr> in
        Inr (build_timing_diagnostic (ni_name n) True
          (r\<lparr>pr_disposition := HEALTH_TIMEOUT, pr_diags := pr_diags r @ [d],
             pr_obs := (case pr_producer r of
                None \<Rightarrow> pr_obs r
              | Some pd \<Rightarrow> Some (incomplete_observation (pr_pkg r) pd
                  (''invocation timeout '' @ ni_timeout n @ '' expired before the process completed'')))\<rparr>)))"

section \<open>Folding runs into a report\<close>

record process_outcome =
  po_package :: string
  po_test :: string
  po_disposition :: health
  po_producer :: "producer option"

record 'c selection_result =
  sr_tests :: "test_result list"
  sr_diagnostics :: "failure_diagnostic list"
  sr_observations :: "'c observation list"
  sr_processes :: "process_outcome list"
  sr_timing :: "package_timing list"

record 'c package_unit =
  pu_pkg :: string
  pu_run :: "'c package_run"
  pu_solos :: "'c package_run list"

definition selection_new :: "'c selection_result" where
  "selection_new = \<lparr>sr_tests = [], sr_diagnostics = [], sr_observations = [], sr_processes = [], sr_timing = []\<rparr>"

definition absorb_run :: "string \<Rightarrow> 'c package_run \<Rightarrow> 'c selection_result \<Rightarrow> 'c selection_result" where
  "absorb_run pkg r res =
     \<lparr>sr_tests = sr_tests res @ pr_tests r,
      sr_diagnostics = sr_diagnostics res @ pr_diags r,
      sr_observations = sr_observations res @ (case pr_obs r of None \<Rightarrow> [] | Some ob \<Rightarrow> [ob]),
      sr_processes = sr_processes res @
        [\<lparr>po_package = pkg, po_test = pr_solo r, po_disposition = pr_disposition r, po_producer = pr_producer r\<rparr>],
      sr_timing = sr_timing res @ (case pr_timing r of None \<Rightarrow> [] | Some t \<Rightarrow> [t])\<rparr>"

definition absorb :: "'c package_unit \<Rightarrow> 'c selection_result \<Rightarrow> 'c selection_result" where
  "absorb u res = fold (absorb_run (pu_pkg u)) (pu_solos u) (absorb_run (pu_pkg u) (pu_run u) res)"

definition disposition_rank :: "health \<Rightarrow> nat" where
  "disposition_rank d =
     (case d of HEALTH_TIMEOUT \<Rightarrow> 4 | HEALTH_DEGRADED \<Rightarrow> 3 | HEALTH_BUILD_FAILED \<Rightarrow> 2 | HEALTH_TEST_FAILED \<Rightarrow> 1 | _ \<Rightarrow> 0)"

definition worse_disposition :: "health \<Rightarrow> health \<Rightarrow> health" where
  "worse_disposition a b = (if disposition_rank a < disposition_rank b then b else a)"

record package_health =
  ph_package :: string
  ph_disposition :: health

record invocation_health =
  ih_invocation :: string
  ih_disposition :: health
  ih_packages :: "package_health list"
  ih_go :: go_config

text \<open>The first run that cannot be completed ends the pass with its error.\<close>

fun finalize_all ::
  "(nat \<Rightarrow> bool) \<Rightarrow> invocation \<Rightarrow> bool \<Rightarrow> 'c package_run list \<Rightarrow> 'c selection_result \<Rightarrow> string + 'c selection_result" where
  "finalize_all tbl n timed_out [] res = Inr res"
| "finalize_all tbl n timed_out (r # rs) res =
     (case finalize_run tbl n timed_out [] r of
        Inl e \<Rightarrow> Inl e
      | Inr r' \<Rightarrow> finalize_all tbl n timed_out rs (absorb \<lparr>pu_pkg = pr_pkg r', pu_run = r', pu_solos = []\<rparr> res))"

definition assemble_invocation ::
  "(nat \<Rightarrow> bool) \<Rightarrow> invocation \<Rightarrow> 'c package_run list \<Rightarrow> bool \<Rightarrow> string + (invocation_health \<times> 'c selection_result)" where
  "assemble_invocation tbl n runs timed_out =
     (case finalize_all tbl n timed_out runs selection_new of
        Inl e \<Rightarrow> Inl e
      | Inr res \<Rightarrow>
          let ps = filter (\<lambda>p. po_test p = []) (sr_processes res) in
          Inr (\<lparr>ih_invocation = ni_name n,
                ih_disposition = fold (\<lambda>p d. worse_disposition d (po_disposition p)) ps HEALTH_HEALTHY,
                ih_packages = map (\<lambda>p. \<lparr>ph_package = po_package p, ph_disposition = po_disposition p\<rparr>) ps,
                ih_go = resolved_config n\<rparr>, res))"

section \<open>An owned process\<close>

record retained_result =
  rr_producer :: "producer option"
  rr_stream :: "stream_state option"
  rr_harness_terminal :: string
  rr_binary_state :: "(bool \<times> int) option"
  rr_binary_err :: "wait_err option"
  rr_conversion_err :: "string option"
  rr_profile_err :: "string option"
  rr_ownership_err :: "string option"
  rr_interrupted :: bool

text \<open>A process state is whether it exited and its code; \<open>errors.Join\<close>, and what \<open>%v\<close> prints of it.\<close>

definition exit_code :: "bool \<times> int \<Rightarrow> int" where
  "exit_code s = (if fst s then snd s else - 1)"

definition join_errs :: "string option list \<Rightarrow> string option" where
  "join_errs es = (case [m. Some m \<leftarrow> es] of [] \<Rightarrow> None | ms \<Rightarrow> Some (join ms nl))"

definition show_err :: "string option \<Rightarrow> string" where
  "show_err e = (case e of None \<Rightarrow> ''<nil>'' | Some m \<Rightarrow> m)"

definition harness_complete :: "retained_result \<Rightarrow> bool" where
  "harness_complete r \<longleftrightarrow>
     (case (rr_binary_state r, rr_stream r) of
        (Some s, Some st) \<Rightarrow>
          \<not> rr_interrupted r \<and> fst s \<and> rr_ownership_err r = None \<and> rr_conversion_err r = None
          \<and> ss_malformed st = [] \<and> \<not> ss_post_terminal st \<and> \<not> ss_saw_abort st \<and> ss_started st = {}
          \<and> (rr_harness_terminal r = ''pass'' \<and> exit_code s = 0 \<and> rr_binary_err r = None
             \<or> rr_harness_terminal r = ''fail'' \<and> exit_code s = 1)
      | _ \<Rightarrow> False)"

definition classify_retained ::
  "(string \<Rightarrow> int option) \<Rightarrow> int \<Rightarrow> invocation \<Rightarrow> string \<Rightarrow> retained_result \<Rightarrow> 'c package_run" where
  "classify_retained dur now n pkg r =
     (case rr_stream r of
        None \<Rightarrow>
          if rr_interrupted r then blank_run pkg
          else degraded_run (ni_name n) pkg (''starting retained execution: ''
                 @ show_err (join_errs [map_option we_text (rr_binary_err r), rr_conversion_err r])) False
      | Some st0 \<Rightarrow>
          if rr_interrupted r
          then (blank_run pkg)\<lparr>pr_producer := rr_producer r, pr_aborted := started_tests st0,
                 pr_test_timings := collect_test_timings now (Some st0),
                 pr_residue := Some (run_residue st0 bb_new (rr_binary_err r) [])\<rparr>
          else
            let st1 = (case join_errs [rr_ownership_err r, rr_conversion_err r, rr_profile_err r] of
                         None \<Rightarrow> st0
                       | Some m \<Rightarrow> st0\<lparr>ss_malformed := ''retained output processing: '' @ m @ ''; '' @ ss_malformed st0\<rparr>);
                st = (case rr_binary_state r of
                        None \<Rightarrow> st1\<lparr>ss_malformed := ''test binary did not start: '' @ show_err (map_option we_text (rr_binary_err r))\<rparr>
                      | Some s \<Rightarrow> st1\<lparr>ss_terminal := (if fst s \<and> snd s = 0 then ''pass'' else ''fail'')\<rparr>)
            in (classify_run (ni_name n) pkg st (rr_binary_err r) bb_new (declared_binary_bound dur n))
                 \<lparr>pr_producer := rr_producer r, pr_aborted := started_tests st0,
                  pr_test_timings := collect_test_timings now (Some st0)\<rparr>)"

section \<open>One package of an invocation\<close>

text \<open>What the build of a package left, and what the steps of its native run answer, in the order the
  code takes them. The lease of the observation and its closing are left out: they touch the
  observation of the run only.\<close>

record build_result =
  bl_err :: "wait_err option"
  bl_stream :: "stream_state option"
  bl_stderr :: bounded_buffer
  bl_no_test_files :: bool

record native_steps =
  ns_built :: build_result
  ns_cut_off :: bool
  ns_coverage_err :: "string option"
  ns_environment_err :: "string option"
  ns_runtime_err :: "(string \<times> bool) option"
  ns_inputs_err :: "string option"
  ns_identity :: producer
  ns_output :: "(test_event list \<times> stream_end) option"
  ns_result :: retained_result
  ns_build_elapsed :: int
  ns_binary_elapsed :: int
  ns_total_elapsed :: int

definition native_producer :: "invocation \<Rightarrow> native_steps \<Rightarrow> producer" where
  "native_producer n s = (ns_identity s)\<lparr>pd_invocation := ni_name n\<rparr>"

text \<open>The retained run: its stream is the parse of the events its output converts to.\<close>

definition native_result :: "invocation \<Rightarrow> string \<Rightarrow> native_steps \<Rightarrow> retained_result" where
  "native_result n pkg s =
     (ns_result s)\<lparr>rr_producer := map_option (\<lambda>_. native_producer n s) (rr_producer (ns_result s)),
        rr_stream := map_option (\<lambda>(es, ending). parse_test_stream (ni_name n) pkg (Some (native_producer n s)) es ending)
          (ns_output s)\<rparr>"

definition run_native_package ::
  "(string \<Rightarrow> int option) \<Rightarrow> int \<Rightarrow> invocation \<Rightarrow> string \<Rightarrow> native_steps \<Rightarrow> 'c package_run" where
  "run_native_package dur now n pkg s =
     (let b = ns_built s; refused = (\<lambda>reason. degraded_run (ni_name n) pkg reason False);
          run = (if ns_cut_off s then blank_run pkg
            else case bl_err b of
              Some err \<Rightarrow>
                (case bl_stream b of
                   Some st \<Rightarrow> classify_run (ni_name n) pkg st (Some err) (bl_stderr b) []
                 | None \<Rightarrow> refused (''retained compilation: '' @ we_text err))
            | None \<Rightarrow>
                if bl_no_test_files b
                then (case ns_coverage_err s of
                        Some e \<Rightarrow> refused e
                      | None \<Rightarrow> (blank_run pkg)\<lparr>pr_no_test_files := True, pr_disposition := HEALTH_HEALTHY\<rparr>)
                else case ns_environment_err s of Some e \<Rightarrow> refused e | None \<Rightarrow>
                case ns_runtime_err s of Some (e, ended) \<Rightarrow> if ended then blank_run pkg else refused e | None \<Rightarrow>
                case ns_inputs_err s of Some e \<Rightarrow> refused e | None \<Rightarrow>
                  let r = native_result n pkg s;
                      run = (classify_retained dur now n pkg r)\<lparr>pr_binary_elapsed := ns_binary_elapsed s\<rparr>
                  in (case rr_producer r of None \<Rightarrow> run
                      | Some pd \<Rightarrow> run\<lparr>pr_obs := Some (incomplete_observation pkg pd ''native observation awaits closing'')\<rparr>))
      in run\<lparr>pr_build_elapsed := ns_build_elapsed s, pr_total_elapsed := ns_total_elapsed s\<rparr>)"

text \<open>How a package left its slot: refused with the whole invocation, for its coverage output, its flags
  or the memory of the shared build; held back with it; refused or never admitted on its own; or
  run.\<close>

datatype slot =
    Turned_Away string
  | Held_Back string
  | Refused string int
  | Unadmitted string int
  | Admitted native_steps int string

definition slot_run :: "(string \<Rightarrow> int option) \<Rightarrow> int \<Rightarrow> invocation \<Rightarrow> string \<times> slot \<Rightarrow> 'c package_run" where
  "slot_run dur now n ps =
     (case ps of (pkg, sl) \<Rightarrow>
      case sl of
        Turned_Away reason \<Rightarrow> degraded_run (ni_name n) pkg reason False
      | Held_Back held \<Rightarrow> (blank_run pkg)\<lparr>pr_held_by := held\<rparr>
      | Refused refusal wait \<Rightarrow>
          (degraded_run (ni_name n) pkg (''memory: '' @ refusal) False)
            \<lparr>pr_queue_wait := wait, pr_admission_origin := ''memory: '' @ refusal\<rparr>
      | Unadmitted held wait \<Rightarrow> (blank_run pkg)\<lparr>pr_held_by := held, pr_queue_wait := wait, pr_admission_origin := held\<rparr>
      | Admitted s wait origin \<Rightarrow>
          (run_native_package dur now n pkg s)\<lparr>pr_queue_wait := wait, pr_admission_origin := origin\<rparr>)"

text \<open>Why an observation is incomplete, empty when the harness ended on its own account.\<close>

definition health_string :: "health \<Rightarrow> string" where
  "health_string d =
     (case d of HEALTH_UNSPECIFIED \<Rightarrow> ''HEALTH_DISPOSITION_UNSPECIFIED'' | HEALTH_HEALTHY \<Rightarrow> ''HEALTH_DISPOSITION_HEALTHY''
      | HEALTH_TEST_FAILED \<Rightarrow> ''HEALTH_DISPOSITION_TEST_FAILED'' | HEALTH_BUILD_FAILED \<Rightarrow> ''HEALTH_DISPOSITION_BUILD_FAILED''
      | HEALTH_TIMEOUT \<Rightarrow> ''HEALTH_DISPOSITION_TIMEOUT'' | HEALTH_DEGRADED \<Rightarrow> ''HEALTH_DISPOSITION_DEGRADED''
      | HEALTH_NUM i \<Rightarrow> format_int i)"

definition incomplete_observation_reason :: "stream_state \<Rightarrow> wait_err option \<Rightarrow> health \<Rightarrow> string" where
  "incomplete_observation_reason st wait d =
     (let failed = d = HEALTH_TEST_FAILED \<and> ss_terminal st = ''fail'' in
      if d \<noteq> HEALTH_HEALTHY \<and> \<not> failed
      then ''package disposed '' @ health_string d @ '', not HEALTHY; the testlog flush is unproven''
      else if ss_terminal st \<noteq> ''pass'' \<and> \<not> failed then ''no test process ran (terminal '' @ ss_terminal st @ '')''
      else if ss_saw_abort st then ''abort output observed in the stream; the testlog flush cannot be trusted''
      else if started_tests st \<noteq> [] then ''tests started but unfinished; the process died before its testlog flushed''
      else if failed then
        (if (case wait of None \<Rightarrow> True | Some e \<Rightarrow> we_exit e \<noteq> Some 1)
         then ''failing test process has no ordinary exit status 1''
         else if list_ex (\<lambda>t. xt_outcome t = OUTCOME_FAILED) (ss_tests st) then []
         else ''failing process has no completed failing test; the testlog flush is unproven'')
      else case wait of Some e \<Rightarrow> ''process exited with failure: '' @ we_text e | None \<Rightarrow> [])"

section \<open>The cause a report names\<close>

definition package_reason_bound :: nat where "package_reason_bound = 200"

definition term_lead :: string where "term_lead = ''one package estimated at ''"

definition bounded_reason :: "string \<Rightarrow> string" where
  "bounded_reason line =
     (if has_prefix line (''memory: '' @ term_lead) \<or> has_prefix line (held_by_prefix @ term_lead)
      then (case cut_at ''; '' line of
              (head, Some rest) \<Rightarrow> head @ ''; '' @ cut_at_rune rest package_reason_bound
            | _ \<Rightarrow> cut_at_rune line package_reason_bound)
      else cut_at_rune line package_reason_bound)"

definition package_reason :: "failure_diagnostic list \<Rightarrow> string \<Rightarrow> string \<Rightarrow> health \<Rightarrow> string" where
  "package_reason diags inv_name pkg d =
     (case rev (filter (\<lambda>x. fd_invocation x = inv_name \<and> fd_package x = pkg \<and> fd_test x = [] \<and> fd_disposition x = d) diags) of
        [] \<Rightarrow> []
      | own # _ \<Rightarrow>
          if d = HEALTH_DEGRADED then bounded_reason (fst (cut_at nl (fd_output own)))
          else if d = HEALTH_TIMEOUT then
            (case snd (cut_at nl (fd_output own)) of
               None \<Rightarrow> []
             | Some rest \<Rightarrow> let line = fst (cut_at nl rest) in
                 if has_prefix line held_by_prefix then bounded_reason line else [])
          else [])"

section \<open>The isolation pass\<close>

definition top_name :: "string \<Rightarrow> string" where
  "top_name t = takeWhile (\<lambda>c. c \<noteq> CHR ''/'') t"

definition denied_tests :: "'c package_run \<Rightarrow> string list \<Rightarrow> string list" where
  "denied_tests r selected =
     (if pr_disposition r \<notin> {HEALTH_TEST_FAILED, HEALTH_DEGRADED, HEALTH_TIMEOUT} then []
      else let tops = filter (\<lambda>t. xt_test t = top_name (xt_test t)) (pr_tests r);
               terminal = map xt_test tops;
               passed = map xt_test (filter (\<lambda>t. xt_outcome t = OUTCOME_PASSED) tops);
               failed = map xt_test (filter (\<lambda>t. xt_outcome t = OUTCOME_FAILED) tops);
               denied = map top_name (pr_aborted r) @ passed @ filter (\<lambda>s. s \<notin> set terminal) selected
           in sort (remdups (filter (\<lambda>s. s \<notin> set failed) denied)))"

text \<open>The names a package's own process runs, and those planned to run alone.\<close>

definition plan_selection :: "(string \<Rightarrow> bool) option \<Rightarrow> string list \<Rightarrow> string list \<times> string list" where
  "plan_selection solo names =
     (case solo of
        None \<Rightarrow> (names, [])
      | Some is_solo \<Rightarrow>
          if length names \<le> 1 then (names, [])
          else let solos = filter is_solo names;
                   fuzzes = filter (\<lambda>n. \<not> is_solo n \<and> has_prefix n ''Fuzz'') names;
                   batch = filter (\<lambda>n. \<not> is_solo n \<and> \<not> has_prefix n ''Fuzz'') names;
                   mixed = batch \<noteq> [] \<and> fuzzes \<noteq> [];
                   solos' = (if mixed then solos @ fuzzes else solos);
                   batch' = (if mixed then batch else batch @ fuzzes)
               in if solos' = [] then (names, [])
                  else if batch' \<noteq> [] then (batch', solos')
                  else (take 1 solos', drop 1 solos'))"

text \<open>
  The re-runs, in order. Whether the envelope has expired before a re-run and after it, and whether the
  caller has cancelled, are what the contexts answer for the k-th: the parameter \<open>ctx\<close>.
\<close>

fun run_solos ::
  "(nat \<Rightarrow> bool) \<Rightarrow> invocation \<Rightarrow> (nat \<Rightarrow> bool \<times> bool \<times> bool) \<Rightarrow> (nat \<Rightarrow> string \<Rightarrow> 'c package_run) \<Rightarrow> string \<Rightarrow> nat
     \<Rightarrow> string list \<Rightarrow> 'c package_run list \<times> string option" where
  "run_solos tbl n ctx spawn pkg k [] = ([], None)"
| "run_solos tbl n ctx spawn pkg k (name # names) =
     (case ctx k of (expired, cancelled, expired') \<Rightarrow>
      let solo = (if expired then blank_run pkg else spawn k name)\<lparr>pr_solo := name\<rparr> in
      if cancelled then ([build_timing_diagnostic (ni_name n) True solo], None)
      else case finalize_run tbl n expired' name solo of
             Inl e \<Rightarrow> ([solo], Some e)
           | Inr solo' \<Rightarrow>
               (case run_solos tbl n ctx spawn pkg (Suc k) names of (rs, err) \<Rightarrow> (solo' # rs, err)))"

definition in_slot ::
  "(nat \<Rightarrow> bool) \<Rightarrow> invocation \<Rightarrow> bool \<Rightarrow> (nat \<Rightarrow> bool \<times> bool \<times> bool) \<Rightarrow> (nat \<Rightarrow> string \<Rightarrow> 'c package_run)
     \<Rightarrow> string \<Rightarrow> string list \<Rightarrow> string list \<Rightarrow> 'c package_run \<Rightarrow> 'c package_unit \<times> string option" where
  "in_slot tbl n timed_out ctx spawn pkg selected planned run =
     (case finalize_run tbl n timed_out [] run of
        Inl e \<Rightarrow> (\<lparr>pu_pkg = pkg, pu_run = run, pu_solos = []\<rparr>, Some e)
      | Inr r \<Rightarrow>
          let denied = (if pr_producer r = None then []
                        else denied_tests r selected @ (if pr_disposition r = HEALTH_BUILD_FAILED then [] else planned))
          in case run_solos tbl n ctx spawn pkg 0 denied of
               (solos, err) \<Rightarrow> (\<lparr>pu_pkg = pkg, pu_run = r, pu_solos = solos\<rparr>, err))"

section \<open>The verdict against the events\<close>

lemma package_diag_fields [simp]:
  "fd_test (package_diag i p d out) = []" "fd_disposition (package_diag i p d out) = d"
  "fd_invocation (package_diag i p d out) = i" "fd_package (package_diag i p d out) = p"
  "fd_output (package_diag i p d out) = bb_text out" "fd_truncated (package_diag i p d out) = bb_truncated out"
  by (simp_all add: package_diag_def)

lemma blank_run_fields [simp]:
  "pr_tests (blank_run p) = []" "pr_diags (blank_run p) = []" "pr_disposition (blank_run p) = HEALTH_UNSPECIFIED"
  "pr_pkg (blank_run p) = p" "pr_producer (blank_run p) = None" "pr_solo (blank_run p) = []"
  by (simp_all add: blank_run_def)

lemma last_terminal:
  "(case rev (filter q es) of [] \<Rightarrow> [] | e # _ \<Rightarrow> f e) = (if list_ex q es then f (last (filter q es)) else [])"
  by (cases "rev (filter q es)") (auto simp: filter_empty_conv list_ex_iff last_rev rev_swap)

lemma only_at_end:
  assumes "list_ex q es" and "\<not> list_ex q (butlast es)"
  shows "es \<noteq> [] \<and> q (last es) \<and> filter q es = [last es]"
  using assms by (cases es rule: rev_cases) (auto simp: list_ex_iff filter_empty_conv)

text \<open>The stream's own verdict: its only package end, its last event.\<close>

definition own_verdict :: "test_event list \<Rightarrow> string option" where
  "own_verdict es =
     (if es \<noteq> [] \<and> ends_package (last es) \<and> \<not> list_ex ends_package (butlast es) then Some (te_action (last es)) else None)"

definition names_failed_build :: "test_event list \<Rightarrow> bool" where
  "names_failed_build es \<longleftrightarrow> list_ex (\<lambda>e. te_action e = ''build-fail'' \<or> ends_package e \<and> te_failed_build e \<noteq> []) es"

definition ordinary_failure :: "wait_err option \<Rightarrow> bool" where
  "ordinary_failure wait \<longleftrightarrow>
     (case wait of None \<Rightarrow> False | Some e \<Rightarrow> (case we_exit e of None \<Rightarrow> False | Some code \<Rightarrow> 0 < code))"

lemma parsed_end:
  "ss_terminal (parse_test_stream i p pd es ending)
     = (if list_ex ends_package es then te_action (last (filter ends_package es)) else [])"
  "list_ex ends_package es \<Longrightarrow> te_action (last (filter ends_package es)) \<in> {''pass'', ''fail'', ''skip''}"
proof -
  show "ss_terminal (parse_test_stream i p pd es ending)
     = (if list_ex ends_package es then te_action (last (filter ends_package es)) else [])"
    by (simp add: parse_package last_terminal)
  assume "list_ex ends_package es"
  then have "filter ends_package es \<noteq> []" by (auto simp: list_ex_iff filter_empty_conv)
  then have "last (filter ends_package es) \<in> set (filter ends_package es)" by (rule last_in_set)
  then show "te_action (last (filter ends_package es)) \<in> {''pass'', ''fail'', ''skip''}"
    by (auto simp: ends_package_def ends_action_def)
qed

lemma refusal_parsed:
  "stream_refusal (parse_test_stream i p pd es ending) wait = None \<longleftrightarrow>
     ending = Stream_EOF \<and> es \<noteq> []
     \<and> (case own_verdict es of
          Some action \<Rightarrow> action = ''fail'' \<or> wait = None
        | None \<Rightarrow> \<not> list_ex ends_package es \<and> names_failed_build es \<and> ordinary_failure wait)"
proof -
  let ?st = "parse_test_stream i p pd es ending"
  have facts: "failed_compilation ?st wait = (names_failed_build es \<and> ordinary_failure wait)"
    "(ss_malformed ?st = []) = (ending = Stream_EOF)" "(ss_events ?st = 0) = (es = [])"
    "ss_post_terminal ?st = list_ex ends_package (butlast es)"
    by (simp_all add: failed_compilation_def names_failed_build_def ordinary_failure_def parse_package malformed_iff)
  show ?thesis
  proof (cases "list_ex ends_package es")
    case True
    show ?thesis
    proof (cases "list_ex ends_package (butlast es)")
      case post: True
      then have "own_verdict es = None" by (simp add: own_verdict_def)
      with post True parsed_end(2) [OF True] show ?thesis
        unfolding stream_refusal_def facts parsed_end(1) by auto
    next
      case False
      note end_ = only_at_end [OF True False]
      then have "own_verdict es = Some (te_action (last es))" using False by (simp add: own_verdict_def)
      with False True parsed_end(2) [OF True] end_ show ?thesis
        unfolding stream_refusal_def facts parsed_end(1) by auto
    qed
  next
    case False
    then have "own_verdict es = None" "\<not> list_ex ends_package (butlast es)"
      by (auto simp: own_verdict_def list_ex_iff dest: in_set_butlastD)
    with False show ?thesis unfolding stream_refusal_def facts parsed_end(1) by auto
  qed
qed

lemma refused_disposition:
  "stream_refusal st wait \<noteq> None \<Longrightarrow> pr_disposition (classify_run i p st wait stderr bound) = HEALTH_DEGRADED"
  by (auto simp: classify_run_def Let_def)

lemma judged_disposition:
  "stream_refusal st wait = None \<Longrightarrow> pr_disposition (classify_run i p st wait stderr bound) =
     (if ss_terminal st \<in> {''pass'', ''skip''} then HEALTH_HEALTHY
      else if ss_failed_build st then HEALTH_BUILD_FAILED
      else if ss_binary_timeout st \<noteq> [] \<and> bound \<noteq> [] then HEALTH_TIMEOUT else HEALTH_TEST_FAILED)"
  by (auto simp: classify_run_def Let_def split: prod.split)

lemma classify_run_tests [simp]: "pr_tests (classify_run i p st wait stderr bound) = ss_tests st"
  by (auto simp: classify_run_def Let_def split: option.split prod.split)

lemma classify_run_diags:
  "\<exists>own. pr_diags (classify_run i p st wait stderr bound) = ss_diags st @ own
     \<and> length own = (if pr_disposition (classify_run i p st wait stderr bound) = HEALTH_HEALTHY then 0 else 1)
     \<and> list_all (\<lambda>d. fd_package d = p \<and> fd_test d = []
          \<and> fd_disposition d = pr_disposition (classify_run i p st wait stderr bound)) own"
  by (auto simp: classify_run_def Let_def split: option.split prod.split)

text \<open>C18: the verdict on a package's process, from its events and its exit. It is healthy exactly
  when the stream decodes to its end, its one package-level end is its last event and is a pass or a
  skip, and the process exited clean; a failing end is a build failure when the stream names one,
  the declared deadline when the runtime's panic printed one and the record declares one, else a
  test failure; a compiler failure with an ordinary exit stands in for a missing end; anything
  else is degraded. The outcomes are the stream's own in every case, and every verdict but
  healthy adds one diagnostic, naming the package and the verdict.\<close>

theorem verdict_exact:
  "let st = parse_test_stream inv_name pkg pd es ending;
       run = classify_run inv_name pkg st wait stderr bound in
     pr_disposition run =
       (if (case ending of Stream_EOF \<Rightarrow> es = [] | _ \<Rightarrow> True) then HEALTH_DEGRADED
        else case own_verdict es of
          Some action \<Rightarrow>
            if action \<noteq> ''fail'' then (if wait = None then HEALTH_HEALTHY else HEALTH_DEGRADED)
            else if names_failed_build es then HEALTH_BUILD_FAILED
            else if ss_binary_timeout st \<noteq> [] \<and> bound \<noteq> [] then HEALTH_TIMEOUT
            else HEALTH_TEST_FAILED
        | None \<Rightarrow>
            if \<not> list_ex ends_package es \<and> names_failed_build es \<and> ordinary_failure wait
            then HEALTH_BUILD_FAILED else HEALTH_DEGRADED)
     \<and> pr_tests run = at_events ends_test (named_result pkg pd) es
     \<and> (\<exists>own. pr_diags run = ss_diags st @ own \<and> length own = (if pr_disposition run = HEALTH_HEALTHY then 0 else 1)
          \<and> list_all (\<lambda>d. fd_package d = pkg \<and> fd_test d = [] \<and> fd_disposition d = pr_disposition run) own)"
proof -
  let ?st = "parse_test_stream inv_name pkg pd es ending"
  let ?run = "classify_run inv_name pkg ?st wait stderr bound"
  let ?d = "if (case ending of Stream_EOF \<Rightarrow> es = [] | _ \<Rightarrow> True) then HEALTH_DEGRADED
        else case own_verdict es of
          Some action \<Rightarrow>
            if action \<noteq> ''fail'' then (if wait = None then HEALTH_HEALTHY else HEALTH_DEGRADED)
            else if names_failed_build es then HEALTH_BUILD_FAILED
            else if ss_binary_timeout ?st \<noteq> [] \<and> bound \<noteq> [] then HEALTH_TIMEOUT
            else HEALTH_TEST_FAILED
        | None \<Rightarrow>
            if \<not> list_ex ends_package es \<and> names_failed_build es \<and> ordinary_failure wait
            then HEALTH_BUILD_FAILED else HEALTH_DEGRADED"
  have own: "te_action (last es) \<in> {''pass'', ''fail'', ''skip''} \<and> ss_terminal ?st = te_action (last es) \<and> action = te_action (last es)"
    if "own_verdict es = Some action" for action
  proof -
    have e: "es \<noteq> []" "ends_package (last es)" "\<not> list_ex ends_package (butlast es)" "action = te_action (last es)"
      using that by (auto simp: own_verdict_def split: if_splits)
    then have ex: "list_ex ends_package es" by (auto simp: list_ex_iff)
    from only_at_end [OF ex e(3)] ex e show ?thesis
      by (auto simp: parse_package last_terminal ends_package_def ends_action_def)
  qed
  have none: "ss_terminal ?st = []" if "\<not> list_ex ends_package es"
    using that by (simp add: parse_package last_terminal)
  have fb: "ss_failed_build ?st = names_failed_build es" by (simp add: parse_package names_failed_build_def)
  have "pr_disposition ?run = ?d"
  proof (cases "stream_refusal ?st wait")
    case None
    note ok = None [unfolded refusal_parsed]
    show ?thesis
    proof (cases "own_verdict es")
      case None
      with ok have "\<not> list_ex ends_package es" by simp
      with None ok none fb show ?thesis unfolding judged_disposition [OF \<open>stream_refusal ?st wait = None\<close>] by simp
    next
      case (Some action)
      with ok own [OF Some] fb show ?thesis unfolding judged_disposition [OF \<open>stream_refusal ?st wait = None\<close>] by auto
    qed
  next
    case (Some reason)
    then have bad: "stream_refusal ?st wait \<noteq> None" by simp
    note no = bad [unfolded refusal_parsed]
    show ?thesis unfolding refused_disposition [OF bad]
      using no own by (cases "own_verdict es"; cases ending) auto
  qed
  moreover have "\<exists>own. pr_diags ?run = ss_diags ?st @ own \<and> length own = (if pr_disposition ?run = HEALTH_HEALTHY then 0 else 1)
          \<and> list_all (\<lambda>d. fd_package d = pkg \<and> fd_test d = [] \<and> fd_disposition d = pr_disposition ?run) own"
    by (rule classify_run_diags)
  ultimately show ?thesis by (simp add: Let_def parse_fold(1))
qed

section \<open>An invocation is its worst package\<close>

definition final_disposition :: "'c package_run \<Rightarrow> health" where
  "final_disposition r = (if pr_disposition r = HEALTH_UNSPECIFIED then HEALTH_TIMEOUT else pr_disposition r)"

lemma timing_frame [simp]:
  "pr_pkg (build_timing_diagnostic i b r) = pr_pkg r" "pr_solo (build_timing_diagnostic i b r) = pr_solo r"
  "pr_disposition (build_timing_diagnostic i b r) = pr_disposition r" "pr_tests (build_timing_diagnostic i b r) = pr_tests r"
  "pr_producer (build_timing_diagnostic i b r) = pr_producer r" "pr_aborted (build_timing_diagnostic i b r) = pr_aborted r"
  "pr_diags (build_timing_diagnostic i b r) = pr_diags r"
  by (simp_all add: build_timing_diagnostic_def)

lemma finalize_ok:
  assumes "finalize_run tbl n timed_out solo r = Inr r'"
  shows "pr_pkg r' = pr_pkg r" and "pr_solo r' = pr_solo r" and "pr_disposition r' = final_disposition r"
    and "pr_tests r' = pr_tests r" and "pr_producer r' = pr_producer r" and "pr_aborted r' = pr_aborted r"
    and "timed_out \<or> pr_disposition r \<noteq> HEALTH_UNSPECIFIED"
  using assms by (auto simp: finalize_run_def final_disposition_def Let_def split: if_splits)

lemma finalize_fails:
  "finalize_run tbl n timed_out solo r = Inl e \<Longrightarrow> pr_disposition r = HEALTH_UNSPECIFIED \<and> \<not> timed_out"
  by (auto simp: finalize_run_def Let_def split: if_splits)

definition outcome_row :: "'c package_run \<Rightarrow> process_outcome" where
  "outcome_row r = \<lparr>po_package = pr_pkg r, po_test = pr_solo r, po_disposition = final_disposition r, po_producer = pr_producer r\<rparr>"

lemma finalize_all_ok:
  "finalize_all tbl n timed_out rs res = Inr res' \<Longrightarrow>
     sr_processes res' = sr_processes res @ map outcome_row rs \<and> sr_tests res' = sr_tests res @ concat (map pr_tests rs)
     \<and> (timed_out \<or> list_all (\<lambda>r. pr_disposition r \<noteq> HEALTH_UNSPECIFIED) rs)"
proof (induction rs arbitrary: res)
  case (Cons r rs)
  then obtain r' where f: "finalize_run tbl n timed_out [] r = Inr r'"
    and rest: "finalize_all tbl n timed_out rs (absorb \<lparr>pu_pkg = pr_pkg r', pu_run = r', pu_solos = []\<rparr> res) = Inr res'"
    by (auto split: sum.splits)
  show ?case using Cons.IH [OF rest] finalize_ok [OF f]
    by (auto simp: absorb_def absorb_run_def outcome_row_def)
qed simp

lemma finalize_all_fails:
  "finalize_all tbl n timed_out rs res = Inl e \<Longrightarrow> \<not> timed_out \<and> list_ex (\<lambda>r. pr_disposition r = HEALTH_UNSPECIFIED) rs"
  by (induction rs arbitrary: res) (auto split: sum.splits dest: finalize_fails)

lemma worst_fold:
  "disposition_rank (fold (\<lambda>d w. worse_disposition w d) ds a) = Max (insert (disposition_rank a) (disposition_rank ` set ds))
   \<and> fold (\<lambda>d w. worse_disposition w d) ds a \<in> insert a (set ds)
   \<and> (disposition_rank (fold (\<lambda>d w. worse_disposition w d) ds a) = disposition_rank a
        \<longrightarrow> fold (\<lambda>d w. worse_disposition w d) ds a = a)"
proof (induction ds arbitrary: a)
  case (Cons d ds)
  have rank: "disposition_rank (worse_disposition a d) = max (disposition_rank a) (disposition_rank d)"
    by (simp add: worse_disposition_def)
  have "Max (insert (disposition_rank (worse_disposition a d)) (disposition_rank ` set ds))
      = Max (insert (disposition_rank a) (disposition_rank ` set (d # ds)))"
    unfolding rank by (cases "ds = []") (simp_all add: max.assoc)
  moreover have "disposition_rank a \<le> disposition_rank (worse_disposition a d)" by (simp add: worse_disposition_def)
  moreover have "disposition_rank (worse_disposition a d) \<le> Max (insert (disposition_rank (worse_disposition a d)) (disposition_rank ` set ds))"
    by simp
  moreover have "worse_disposition a d \<in> {a, d}" by (simp add: worse_disposition_def)
  moreover have "disposition_rank (worse_disposition a d) = disposition_rank a \<Longrightarrow> worse_disposition a d = a"
    by (auto simp: worse_disposition_def split: if_splits)
  ultimately show ?case using Cons [of "worse_disposition a d"] by auto
qed simp

lemma assemble_names:
  "assemble_invocation tbl n runs timed_out = Inr (h, res) \<Longrightarrow> ih_invocation h = ni_name n \<and> ih_go h = resolved_config n"
  by (auto simp: assemble_invocation_def Let_def split: sum.splits)

lemma assemble_facts:
  "case assemble_invocation tbl n runs timed_out of
     Inl e \<Rightarrow> \<not> timed_out \<and> list_ex (\<lambda>r. pr_disposition r = HEALTH_UNSPECIFIED) runs
   | Inr (h, res) \<Rightarrow>
       let own = filter (\<lambda>r. pr_solo r = []) runs; ds = map final_disposition own in
       (if timed_out then True else list_all (\<lambda>r. pr_disposition r \<noteq> HEALTH_UNSPECIFIED) runs)
       \<and> ih_packages h = map (\<lambda>r. \<lparr>ph_package = pr_pkg r, ph_disposition = final_disposition r\<rparr>) own
       \<and> disposition_rank (ih_disposition h) = Max (insert 0 (set (map disposition_rank ds)))
       \<and> ih_disposition h \<in> insert HEALTH_HEALTHY (set ds)
       \<and> (ih_disposition h = HEALTH_HEALTHY) = list_all (\<lambda>d. disposition_rank d = 0) ds
       \<and> sr_tests res = concat (map pr_tests runs)"
proof (cases "finalize_all tbl n timed_out runs selection_new")
  case (Inl e)
  with finalize_all_fails [OF Inl] show ?thesis by (simp add: assemble_invocation_def)
next
  case (Inr res)
  note ok = finalize_all_ok [OF Inr]
  let ?own = "filter (\<lambda>r. pr_solo r = []) runs" let ?ds = "map final_disposition ?own"
  have procs: "filter (\<lambda>p. po_test p = []) (sr_processes res) = map outcome_row ?own"
    using ok by (simp add: selection_new_def filter_map comp_def outcome_row_def)
  let ?w = "fold (\<lambda>d w. worse_disposition w d) ?ds HEALTH_HEALTHY"
  have f: "fold (\<lambda>p d. worse_disposition d (po_disposition p)) (map outcome_row ?own) HEALTH_HEALTHY = ?w"
    by (simp add: fold_map comp_def outcome_row_def)
  have zero: "disposition_rank HEALTH_HEALTHY = 0" by (simp add: disposition_rank_def)
  note w = worst_fold [of ?ds HEALTH_HEALTHY, unfolded zero]
  have "?w = HEALTH_HEALTHY \<longleftrightarrow> disposition_rank ?w = 0" using w zero by metis
  also have "\<dots> \<longleftrightarrow> list_all (\<lambda>d. disposition_rank d = 0) ?ds"
    using w by (simp add: Max_eq_iff list_all_iff)
  finally have "?w = HEALTH_HEALTHY \<longleftrightarrow> list_all (\<lambda>d. disposition_rank d = 0) ?ds" .
  moreover have "assemble_invocation tbl n runs timed_out =
     Inr (\<lparr>ih_invocation = ni_name n, ih_disposition = ?w,
           ih_packages = map (\<lambda>p. \<lparr>ph_package = po_package p, ph_disposition = po_disposition p\<rparr>) (map outcome_row ?own),
           ih_go = resolved_config n\<rparr>, res)"
    by (simp only: assemble_invocation_def Inr sum.case Let_def procs f)
  ultimately show ?thesis using ok w by (auto simp: Let_def outcome_row_def selection_new_def image_image)
qed

text \<open>C22: an invocation is disposed as its worst package. Its report lists the packages in order with
  their verdicts, a cut-off one as a timeout; its own disposition has the highest rank among
  them and is one of them or healthy, and it is healthy exactly when none ranks above healthy; no test
  outcome is lost. It fails only where a run ended without a verdict and no envelope expired.\<close>

theorem invocation_is_worst_package:
  "case assemble_invocation tbl n runs timed_out of
     Inl e \<Rightarrow> \<not> timed_out \<and> list_ex (\<lambda>r. pr_disposition r = HEALTH_UNSPECIFIED) runs
   | Inr (h, res) \<Rightarrow>
       let own = filter (\<lambda>r. pr_solo r = []) runs; ds = map final_disposition own in
       (if timed_out then True else list_all (\<lambda>r. pr_disposition r \<noteq> HEALTH_UNSPECIFIED) runs)
       \<and> ih_packages h = map (\<lambda>r. \<lparr>ph_package = pr_pkg r, ph_disposition = final_disposition r\<rparr>) own
       \<and> disposition_rank (ih_disposition h) = Max (insert 0 (set (map disposition_rank ds)))
       \<and> ih_disposition h \<in> insert HEALTH_HEALTHY (set ds)
       \<and> (ih_disposition h = HEALTH_HEALTHY) = list_all (\<lambda>d. disposition_rank d = 0) ds
       \<and> sr_tests res = concat (map pr_tests runs)"
  by (rule assemble_facts)

section \<open>An owned process\<close>

lemma retained_facts:
  "let run = classify_retained dur now n pkg r in
     (pr_disposition run = HEALTH_HEALTHY) =
       (case (rr_stream r, rr_binary_state r) of
          (Some st, Some s) \<Rightarrow>
            \<not> rr_interrupted r \<and> fst s \<and> snd s = 0 \<and> rr_binary_err r = None
            \<and> rr_ownership_err r = None \<and> rr_conversion_err r = None \<and> rr_profile_err r = None
            \<and> ss_malformed st = [] \<and> ss_events st \<noteq> 0 \<and> \<not> ss_post_terminal st
        | _ \<Rightarrow> False)
     \<and> (pr_disposition run = HEALTH_DEGRADED) =
       (\<not> rr_interrupted r \<and>
        (case (rr_stream r, rr_binary_state r) of
           (Some st, Some s) \<Rightarrow>
             \<not> (rr_ownership_err r = None \<and> rr_conversion_err r = None \<and> rr_profile_err r = None
                \<and> ss_malformed st = [] \<and> ss_events st \<noteq> 0 \<and> \<not> ss_post_terminal st
                \<and> (if fst s \<and> snd s = 0 then rr_binary_err r = None else True))
         | _ \<Rightarrow> True))
     \<and> (if harness_complete r
        then (pr_disposition run = HEALTH_DEGRADED) =
          (\<not> (rr_profile_err r = None \<and> (case rr_stream r of None \<Rightarrow> False | Some st \<Rightarrow> ss_events st \<noteq> 0)))
        else True)"
proof (cases "rr_stream r")
  case None
  then show ?thesis by (simp add: classify_retained_def harness_complete_def degraded_run_def split: option.split)
next
  case stream: (Some st0)
  show ?thesis
  proof (cases "rr_interrupted r")
    case True
    then show ?thesis using stream by (simp add: classify_retained_def harness_complete_def split: option.split)
  next
    case False
    let ?faults = "join_errs [rr_ownership_err r, rr_conversion_err r, rr_profile_err r]"
    have clean: "?faults = None \<longleftrightarrow> rr_ownership_err r = None \<and> rr_conversion_err r = None \<and> rr_profile_err r = None"
      by (simp add: join_errs_def split: option.split)
    let ?st1 = "case ?faults of None \<Rightarrow> st0
                       | Some m \<Rightarrow> st0\<lparr>ss_malformed := ''retained output processing: '' @ m @ ''; '' @ ss_malformed st0\<rparr>"
    have mal: "ss_malformed ?st1 = [] \<longleftrightarrow> ?faults = None \<and> ss_malformed st0 = []" by (simp split: option.split)
    have same: "ss_events ?st1 = ss_events st0" "ss_post_terminal ?st1 = ss_post_terminal st0" by (simp_all split: option.split)
    show ?thesis
    proof (cases "rr_binary_state r")
      case None
      let ?bad = "?st1\<lparr>ss_malformed := ''test binary did not start: '' @ show_err (map_option we_text (rr_binary_err r))\<rparr>"
      have "stream_refusal ?bad (rr_binary_err r) \<noteq> None" by (simp add: stream_refusal_def)
      then have "pr_disposition (classify_run (ni_name n) pkg ?bad (rr_binary_err r) bb_new (declared_binary_bound dur n) :: 'a package_run)
          = HEALTH_DEGRADED" by (rule refused_disposition)
      then have "pr_disposition (classify_retained dur now n pkg r :: 'a package_run) = HEALTH_DEGRADED"
        using stream False None by (simp add: classify_retained_def Let_def)
      then show ?thesis using stream None False by (simp add: harness_complete_def)
    next
      case (Some s)
      let ?st = "?st1\<lparr>ss_terminal := (if fst s \<and> snd s = 0 then ''pass'' else ''fail'')\<rparr>"
      let ?run = "classify_run (ni_name n) pkg ?st (rr_binary_err r) bb_new (declared_binary_bound dur n) :: 'a package_run"
      have run: "pr_disposition (classify_retained dur now n pkg r :: 'a package_run) = pr_disposition ?run"
        using stream False Some by (simp add: classify_retained_def Let_def)
      have ok: "stream_refusal ?st (rr_binary_err r) = None \<longleftrightarrow>
          ?faults = None \<and> ss_malformed st0 = [] \<and> ss_events st0 \<noteq> 0 \<and> \<not> ss_post_terminal st0
          \<and> (fst s \<and> snd s = 0 \<longrightarrow> rr_binary_err r = None)"
        by (auto simp: stream_refusal_def mal same)
      show ?thesis
      proof (cases "stream_refusal ?st (rr_binary_err r)")
        case None
        let ?d = "pr_disposition (classify_retained dur now n pkg r :: 'a package_run)"
        have "?d = HEALTH_HEALTHY \<longleftrightarrow> fst s \<and> snd s = 0" unfolding run judged_disposition [OF None] by simp
        moreover have "?d \<noteq> HEALTH_DEGRADED" unfolding run judged_disposition [OF None] by simp
        ultimately show ?thesis using None [unfolded ok] stream False Some clean unfolding Let_def by auto
      next
        case (Some reason)
        then have bad: "stream_refusal ?st (rr_binary_err r) \<noteq> None" by simp
        have "harness_complete r \<Longrightarrow> rr_profile_err r = None \<Longrightarrow> ss_events st0 \<noteq> 0 \<Longrightarrow> False"
          using bad [unfolded ok] stream \<open>rr_binary_state r = Some s\<close> by (auto simp: clean join_errs_def harness_complete_def exit_code_def split: if_splits)
        moreover have "pr_disposition (classify_retained dur now n pkg r :: 'a package_run) = HEALTH_DEGRADED"
          unfolding run using bad by (rule refused_disposition)
        ultimately show ?thesis using bad [unfolded ok] stream False \<open>rr_binary_state r = Some s\<close> clean
          unfolding Let_def by auto
      qed
    qed
  qed
qed

text \<open>C20: the health of an owned process is its exit. It is healthy exactly when the process was not
  interrupted, exited with code zero and no error, its output was owned, converted and merged
  without a fault, and its stream decoded, carried events and stopped at its own end; whatever
  terminal event it printed. It is degraded exactly when it was not interrupted and it never
  started, or one of those faults occurred, or its stream was refused, or its clean exit came with an
  error. A complete harness can still be degraded: exactly by a fault of the profile, which
  completion does not read, or by a stream without events.\<close>

theorem retained_health_exact:
  "let run = classify_retained dur now n pkg r in
     (pr_disposition run = HEALTH_HEALTHY) =
       (case (rr_stream r, rr_binary_state r) of
          (Some st, Some s) \<Rightarrow>
            \<not> rr_interrupted r \<and> fst s \<and> snd s = 0 \<and> rr_binary_err r = None
            \<and> rr_ownership_err r = None \<and> rr_conversion_err r = None \<and> rr_profile_err r = None
            \<and> ss_malformed st = [] \<and> ss_events st \<noteq> 0 \<and> \<not> ss_post_terminal st
        | _ \<Rightarrow> False)
     \<and> (pr_disposition run = HEALTH_DEGRADED) =
       (\<not> rr_interrupted r \<and>
        (case (rr_stream r, rr_binary_state r) of
           (Some st, Some s) \<Rightarrow>
             \<not> (rr_ownership_err r = None \<and> rr_conversion_err r = None \<and> rr_profile_err r = None
                \<and> ss_malformed st = [] \<and> ss_events st \<noteq> 0 \<and> \<not> ss_post_terminal st
                \<and> (if fst s \<and> snd s = 0 then rr_binary_err r = None else True))
         | _ \<Rightarrow> True))
     \<and> (if harness_complete r
        then (pr_disposition run = HEALTH_DEGRADED) =
          (\<not> (rr_profile_err r = None \<and> (case rr_stream r of None \<Rightarrow> False | Some st \<Rightarrow> ss_events st \<noteq> 0)))
        else True)"
  by (rule retained_facts)

section \<open>Isolation\<close>

lemma run_solos_ok:
  "run_solos tbl n ctx spawn pkg k names = (solos, None) \<Longrightarrow>
     list_all (\<lambda>j. \<not> fst (snd (ctx j))) [k..<k + length names] \<Longrightarrow>
     map pr_solo solos = names \<and> list_all (\<lambda>r. pr_disposition r \<noteq> HEALTH_UNSPECIFIED) solos
     \<and> list_all2 (\<lambda>j r. if fst (ctx j) then pr_disposition r = HEALTH_TIMEOUT \<and> pr_producer r = None else True)
         [k..<k + length names] solos"
proof (induction names arbitrary: k solos)
  case (Cons name names)
  obtain expired cancelled expired' where c: "ctx k = (expired, cancelled, expired')" by (metis prod_cases3)
  let ?solo = "(if expired then blank_run pkg else spawn k name)\<lparr>pr_solo := name\<rparr>"
  have up: "[k..<k + length (name # names)] = k # [Suc k..<Suc k + length names]" by (simp add: upt_rec)
  have "\<not> cancelled" using Cons.prems(2) c unfolding up by simp
  with Cons.prems(1) c obtain r rs where r: "finalize_run tbl n expired' name ?solo = Inr r"
    and rs: "run_solos tbl n ctx spawn pkg (Suc k) names = (rs, None)" and solos: "solos = r # rs"
    by (auto simp: Let_def split: sum.splits prod.splits)
  have IH: "map pr_solo rs = names \<and> list_all (\<lambda>r. pr_disposition r \<noteq> HEALTH_UNSPECIFIED) rs
     \<and> list_all2 (\<lambda>j r. if fst (ctx j) then pr_disposition r = HEALTH_TIMEOUT \<and> pr_producer r = None else True)
         [Suc k..<Suc k + length names] rs"
    using Cons.prems(2) unfolding up by (intro Cons.IH [OF rs]) simp
  have "pr_solo r = name" "pr_disposition r \<noteq> HEALTH_UNSPECIFIED"
    "expired \<Longrightarrow> pr_disposition r = HEALTH_TIMEOUT \<and> pr_producer r = None"
    using finalize_ok [OF r] by (auto simp: final_disposition_def split: if_splits)
  with IH c show ?case unfolding up solos by simp
qed simp

lemma denied_tests_exact:
  "sorted (denied_tests r selected)" "distinct (denied_tests r selected)"
  "set (denied_tests r selected) =
     (if pr_disposition r \<notin> {HEALTH_TEST_FAILED, HEALTH_DEGRADED, HEALTH_TIMEOUT} then {}
      else let tops = {x \<in> set (pr_tests r). xt_test x = top_name (xt_test x)} in
        (top_name ` set (pr_aborted r) \<union> {xt_test x | x. x \<in> tops \<and> xt_outcome x = OUTCOME_PASSED} \<union> (set selected - xt_test ` tops))
        - {xt_test x | x. x \<in> tops \<and> xt_outcome x = OUTCOME_FAILED})"
  by (auto simp: denied_tests_def Let_def)

text \<open>What a red process denied, from its run alone: a top-level test that did not fail, and that was cut
  off (itself or one of its subtests), or passed in the process that then died, or was selected and
  never ended.\<close>

definition ended_as :: "'c package_run \<Rightarrow> string \<Rightarrow> result_outcome \<Rightarrow> bool" where
  "ended_as r x oc \<longleftrightarrow> top_name x = x \<and> (\<exists>t\<in>set (pr_tests r). xt_test t = x \<and> xt_outcome t = oc)"

definition denied_outcome :: "'c package_run \<Rightarrow> string list \<Rightarrow> string \<Rightarrow> bool" where
  "denied_outcome r selected x \<longleftrightarrow>
     pr_disposition r \<in> {HEALTH_TEST_FAILED, HEALTH_DEGRADED, HEALTH_TIMEOUT}
     \<and> \<not> ended_as r x OUTCOME_FAILED
     \<and> ((\<exists>a\<in>set (pr_aborted r). top_name a = x) \<or> ended_as r x OUTCOME_PASSED
        \<or> x \<in> set selected \<and> \<not> (\<exists>oc. ended_as r x oc))"

lemma denied_tests_denied: "x \<in> set (denied_tests r selected) \<longleftrightarrow> denied_outcome r selected x"
  unfolding denied_tests_exact(3) by (auto simp: denied_outcome_def ended_as_def Let_def)

text \<open>C28: a red process denies no test its own outcome. Where the caller does not cancel and the pass
  completes, a package that ran has further processes, one each, for first exactly the top-level tests
  its red process denied, in order and once each, then those planned to run alone unless
  the build failed. Denied are the tests that did not fail in a process that was red (a test failure,
  a degraded run or a timeout) and that it cut off, or that passed in it and are voided, or that were
  selected and never ended. Each further process ends with a verdict, and one the spent
  envelope denied is a timeout that started no process. A package that never ran has none.\<close>

theorem isolation_exact:
  "case in_slot tbl n timed_out ctx spawn pkg selected planned run of (u, err) \<Rightarrow>
     \<exists>denied. sorted denied \<and> distinct denied \<and> (\<forall>x. (x \<in> set denied) = denied_outcome (pu_run u) selected x) \<and>
     (let r = pu_run u;
          names = (if pr_producer run = None then []
                   else denied @ (if pr_disposition r = HEALTH_BUILD_FAILED then [] else planned)) in
      if err = None \<and> list_all (\<lambda>j. \<not> fst (snd (ctx j))) [0..<length names]
      then pr_disposition r = final_disposition run \<and> map pr_solo (pu_solos u) = names
        \<and> list_all (\<lambda>s. pr_disposition s \<noteq> HEALTH_UNSPECIFIED) (pu_solos u)
        \<and> list_all2 (\<lambda>j s. if fst (ctx j) then pr_disposition s = HEALTH_TIMEOUT \<and> pr_producer s = None else True)
            [0..<length names] (pu_solos u)
      else True)"
proof -
  obtain u err where s: "in_slot tbl n timed_out ctx spawn pkg selected planned run = (u, err)" by fastforce
  let ?r = "pu_run u"
  let ?names = "if pr_producer run = None then []
                  else denied_tests ?r selected @ (if pr_disposition ?r = HEALTH_BUILD_FAILED then [] else planned)"
  have main: "pr_disposition ?r = final_disposition run \<and> map pr_solo (pu_solos u) = ?names
      \<and> list_all (\<lambda>s. pr_disposition s \<noteq> HEALTH_UNSPECIFIED) (pu_solos u)
      \<and> list_all2 (\<lambda>j s. if fst (ctx j) then pr_disposition s = HEALTH_TIMEOUT \<and> pr_producer s = None else True)
          [0..<length ?names] (pu_solos u)"
    if err: "err = None" and quiet: "list_all (\<lambda>j. \<not> fst (snd (ctx j))) [0..<length ?names]"
  proof -
    from s err obtain r where f: "finalize_run tbl n timed_out [] run = Inr r" by (auto simp: in_slot_def split: sum.splits)
    let ?d = "if pr_producer r = None then [] else denied_tests r selected @ (if pr_disposition r = HEALTH_BUILD_FAILED then [] else planned)"
    obtain solos e where rs: "run_solos tbl n ctx spawn pkg 0 ?d = (solos, e)" by fastforce
    with s f err have u: "u = \<lparr>pu_pkg = pkg, pu_run = r, pu_solos = solos\<rparr>" "e = None"
      by (auto simp: in_slot_def Let_def simp del: run_solos.simps)
    have d: "?names = ?d" using finalize_ok(5) [OF f] u by simp
    have q: "list_all (\<lambda>j. \<not> fst (snd (ctx j))) [0..<0 + length ?d]" using quiet unfolding d by simp
    show ?thesis unfolding d using run_solos_ok [OF rs [unfolded u(2)] q] finalize_ok(3) [OF f] u(1) by simp
  qed
  show ?thesis unfolding s prod.case
    using main denied_tests_exact(1,2) [of ?r selected] denied_tests_denied [of _ ?r selected]
    by (intro exI [of _ "denied_tests ?r selected"]) (simp add: Let_def)
qed

section \<open>The text a report carries\<close>

lemma cut_at_rune_valid: "valid_utf8 s \<Longrightarrow> valid_utf8 (cut_at_rune s n)"
proof -
  assume v: "valid_utf8 s"
  have start: "back_off s n = 0 \<or> rune_start (s ! back_off s n)" by (induction s n rule: back_off.induct) auto
  show ?thesis
  proof (cases "length s \<le> n \<or> back_off s n = 0")
    case True
    with v show ?thesis by (auto simp: cut_at_rune_def)
  next
    case False
    with valid_split [OF v, of "back_off s n"] start back_off_le [of s n] show ?thesis by (auto simp: cut_at_rune_def)
  qed
qed

definition bb_valid :: "bounded_buffer \<Rightarrow> bool" where
  "bb_valid bb \<longleftrightarrow> valid_utf8 (bb_text bb) \<and> length (bb_text bb) \<le> failure_output_cap"

lemma bb_valid_new [simp]: "bb_valid bb_new"
  by (simp add: bb_valid_def bb_new_def)

lemma bb_valid_write: "bb_valid bb \<Longrightarrow> valid_utf8 s \<Longrightarrow> bb_valid (bb_write s bb)"
  using bb_write_bound [of bb s] by (auto simp: bb_valid_def bb_write_def Let_def intro: valid_append cut_at_rune_valid)

lemma bb_valid_mark [simp]: "bb_valid (bb_mark b bb) = bb_valid bb"
  by (simp add: bb_valid_def bb_mark_def)

lemma valid_scrub: "list_all (\<lambda>(r, bs). \<not> (r = rune_error \<and> length bs = 1) \<longrightarrow> valid_utf8 bs) ps \<Longrightarrow> valid_utf8 (scrub bad ps)"
proof (induction bad ps rule: scrub.induct)
  case (2 bad r bs ps)
  have "valid_utf8 replacement"
    by (simp add: valid_utf8_def replacement_def rune_parts.simps decode_rune.simps byte_val_def cont_def rune_error_def)
  with 2 show ?case by (auto intro: valid_append)
qed simp

lemma valid_to_valid_utf8 [simp]: "valid_utf8 (to_valid_utf8 s)"
  unfolding to_valid_utf8_def by (rule valid_scrub) (auto simp: list_all_iff intro: parts_valid)

text \<open>The fixed texts are ASCII but for the dash.\<close>

lemma valid_fixed [simp]:
  "valid_utf8 nl" "valid_utf8 ''malformed stream: ''" "valid_utf8 (''package output:'' @ nl)" "valid_utf8 (''stderr:'' @ nl)"
  "valid_utf8 ''--- aborted: ''" "valid_utf8 ('' ---'' @ nl)" "valid_utf8 ''process exit: ''" "valid_utf8 '', ''"
  "valid_utf8 '' (+''" "valid_utf8 '' more omitted)''" "valid_utf8 (nl @ ''running when the budget expired: '')"
  "valid_utf8 ''test binary timeout ''" "valid_utf8 '' exhausted before the package completed ''"
  "valid_utf8 '' the budget is the red fact, not the running tests''"
  by (rule valid_ascii, code_simp)+

lemma valid_dash [simp]: "valid_utf8 em_dash"
  by (simp add: valid_utf8_def em_dash_def rune_parts.simps decode_rune.simps byte_val_def cont_def rune_error_def)

lemma bb_valid_section: "bb_valid bb \<Longrightarrow> valid_utf8 s \<Longrightarrow> bb_valid (bb_section s bb)"
  by (simp add: bb_section_def bb_valid_write)

lemma bb_valid_buffer: "bb_valid out \<Longrightarrow> valid_utf8 title \<Longrightarrow> valid_utf8 (bb_text bb) \<Longrightarrow> bb_valid (residue_buffer title bb out)"
  by (simp add: residue_buffer_def bb_valid_write bb_valid_section)

lemma roster_names_valid:
  "list_all valid_utf8 names \<Longrightarrow> roster_names budget first used names = (t, k, b) \<Longrightarrow> valid_utf8 t"
proof (induction names arbitrary: first used t k b)
  case (Cons name names)
  obtain t' k' b' where r: "roster_names budget False (used + length (if first then [] else '', '') + length name) names = (t', k', b')"
    by (metis prod_cases3)
  have "valid_utf8 t'" using Cons.IH [OF _ r] Cons.prems(1) by simp
  moreover have "valid_utf8 (if first then [] else '', '')" using valid_fixed(8) by simp
  ultimately have "valid_utf8 ((if first then [] else '', '') @ name @ t')" "valid_utf8 (cut_at_rune name budget)"
    using Cons.prems(1) by (auto intro!: valid_append cut_at_rune_valid simp del: append.simps)
  with Cons.prems(2) r show ?case by (auto simp: Let_def split: if_splits)
qed simp

lemma roster_valid:
  assumes "list_all valid_utf8 names" and "valid_utf8 lead"
  shows "valid_utf8 (fst (format_bounded_roster lead names))"
proof -
  obtain t k b where r: "roster_names (roster_share - length lead) True 0 names = (t, k, b)" by (metis prod_cases3)
  have "valid_utf8 t" by (rule roster_names_valid [OF assms(1) r])
  moreover have "valid_utf8 ('' (+'' @ format_uint (length names - k) @ '' more omitted)'')"
    by (intro valid_append valid_digits valid_fixed)
  ultimately have "valid_utf8 (lead @ t @ '' (+'' @ format_uint (length names - k) @ '' more omitted)'')" "valid_utf8 (lead @ t)"
    using assms(2) by (auto intro: valid_append simp del: append.simps)
  with r show ?thesis by (simp add: format_bounded_roster_def)
qed

text \<open>What the parse retains of valid events is valid and bounded.\<close>

definition diag_ok :: "failure_diagnostic \<Rightarrow> bool" where
  "diag_ok d \<longleftrightarrow> valid_utf8 (fd_output d) \<and> length (fd_output d) \<le> failure_output_cap"

definition texts_ok :: "stream_state \<Rightarrow> bool" where
  "texts_ok st \<longleftrightarrow>
     bb_valid (ss_pkg_output st) \<and> (\<forall>t bb. ss_per_test st t = Some bb \<longrightarrow> bb_valid bb)
     \<and> list_all valid_utf8 (ss_start_order st) \<and> list_all valid_utf8 (ss_roster st) \<and> list_all diag_ok (ss_diags st)"

definition event_ok :: "test_event \<Rightarrow> bool" where
  "event_ok e \<longleftrightarrow> valid_utf8 (te_output e) \<and> valid_utf8 (te_test e)"

lemma space_ascii: "re_space c \<Longrightarrow> ascii c"
  by (auto simp: re_space_def ascii_def)

lemma roster_match_valid: "valid_utf8 line \<Longrightarrow> roster_match line = Some name \<Longrightarrow> valid_utf8 name"
proof -
  assume v: "valid_utf8 line" and m: "roster_match line = Some name"
  from m obtain rest where l: "line = CHR 0x09 # CHR 0x09 # rest" and n: "name = takeWhile (\<lambda>c. \<not> re_space c) rest"
    by (auto simp: roster_match_def Let_def split: list.splits if_splits)
  have "ascii (CHR 0x09)" by code_simp
  with v l have "valid_utf8 rest" by (simp add: valid_ascii_cons)
  then show ?thesis unfolding n by (intro valid_takeWhile) (auto intro: space_ascii)
qed

lemma texts_ok_scan: "texts_ok st \<Longrightarrow> valid_utf8 s \<Longrightarrow> texts_ok (scan_timeout_dump s st)"
proof -
  assume st: "texts_ok st" and s: "valid_utf8 s"
  have "ascii (CHR 0x0A)" by code_simp
  from valid_lines [OF this s] have lines: "list_all valid_utf8 (text_lines s)"
    by (auto simp: text_lines_def Let_def list_all_iff dest: in_set_butlastD)
  have line: "texts_ok (scan_line l st')" if "texts_ok st'" "valid_utf8 l" for l st'
  proof -
    have "list_all valid_utf8 (ss_roster (scan_line l st'))"
      using that roster_match_valid [OF that(2)]
      by (auto simp: texts_ok_def scan_line_def split: option.split)
    with that(1) show ?thesis by (simp add: texts_ok_def)
  qed
  show ?thesis unfolding scan_timeout_dump_def
    by (rule fold_invariant_all [where P = texts_ok, OF st]) (use lines in \<open>auto simp: list_all_iff intro: line\<close>)
qed

lemma texts_ok_parse: "texts_ok st \<Longrightarrow> event_ok e \<Longrightarrow> texts_ok (parse_event i p pd e st)"
proof -
  assume st: "texts_ok st" and e: "event_ok e"
  let ?s = "if te_action e = ''output''
                then scan_timeout_dump (te_output e) (st\<lparr>ss_events := Suc (ss_events st),
                  ss_post_terminal := ss_post_terminal st \<or> ss_terminal st \<noteq> [],
                  ss_saw_abort := ss_saw_abort st \<or> is_abort_output (te_output e)\<rparr>)
                else st\<lparr>ss_events := Suc (ss_events st), ss_post_terminal := ss_post_terminal st \<or> ss_terminal st \<noteq> []\<rparr>"
  have "texts_ok (st\<lparr>ss_events := a, ss_post_terminal := b\<rparr>)" "texts_ok (st\<lparr>ss_events := a, ss_post_terminal := b, ss_saw_abort := c\<rparr>)"
    for a b c using st by (simp_all add: texts_ok_def)
  then have s: "texts_ok ?s" using e by (auto intro: texts_ok_scan simp: event_ok_def)
  have keep: "texts_ok (package_event e st')" "texts_ok (run_event e st')" "texts_ok (output_step e st')"
    "texts_ok (terminal_event i p pd e st')" "texts_ok (st'\<lparr>ss_failed_build := True\<rparr>)"
    "texts_ok (st'\<lparr>ss_pkg_output := bb_write (te_output e) (ss_pkg_output st')\<rparr>)" if "texts_ok st'" for st'
  proof -
    note t = that [unfolded texts_ok_def] and e' = e [unfolded event_ok_def]
    show "texts_ok (package_event e st')" using t e' by (auto simp: texts_ok_def package_event_def intro: bb_valid_write)
    show "texts_ok (run_event e st')" using t e' by (auto simp: texts_ok_def run_event_def Let_def)
    show "texts_ok (output_step e st')"
      using t e' by (auto simp: texts_ok_def output_step_def Let_def intro: bb_valid_write split: option.split)
    have bb: "bb_valid (case ss_per_test st' (te_test e) of None \<Rightarrow> bb_new | Some bb \<Rightarrow> bb)"
      using t by (auto split: option.split)
    then show "texts_ok (terminal_event i p pd e st')"
      using t unfolding texts_ok_def terminal_event_def Let_def by (auto simp: diag_ok_def bb_valid_def split: if_splits)
    show "texts_ok (st'\<lparr>ss_failed_build := True\<rparr>)" using t by (simp add: texts_ok_def)
    show "texts_ok (st'\<lparr>ss_pkg_output := bb_write (te_output e) (ss_pkg_output st')\<rparr>)"
      using t e' by (simp add: texts_ok_def bb_valid_write)
  qed
  show ?thesis unfolding parse_event_def Let_def using keep [OF s] s by (simp only: if_split) auto
qed

lemma texts_ok_stream: "list_all event_ok es \<Longrightarrow> texts_ok (parse_test_stream i p pd es ending)"
proof -
  assume es: "list_all event_ok es"
  have "texts_ok (fold (parse_event i p pd) es stream_new)"
    using es by (intro fold_invariant_all [where P = texts_ok] texts_ok_parse) (auto simp: texts_ok_def stream_new_def list_all_iff)
  then show ?thesis by (auto simp: parse_test_stream_def Let_def texts_ok_def split: stream_end.split)
qed

lemma either_way: "P x \<Longrightarrow> P y \<Longrightarrow> P (if b then x else y)"
  by simp

lemma residue_valid:
  assumes st: "texts_ok st" and hd: "valid_utf8 head" and wait: "case wait of None \<Rightarrow> True | Some e \<Rightarrow> valid_utf8 (we_text e)"
  shows "bb_valid (run_residue st stderr wait head)"
proof -
  note t = st [unfolded texts_ok_def]
  let ?o1 = "if head = [] then bb_new else bb_section head bb_new"
  let ?o3 = "if bb_empty (ss_pkg_output st) then residue_remainder st ?o1
     else residue_buffer (''package output:'' @ nl) (ss_pkg_output st) (residue_remainder st ?o1)"
  let ?o4 = "fold (residue_aborted st) (ss_start_order st) ?o3"
  have o1: "bb_valid ?o1" using hd by (simp add: bb_valid_section)
  have o2: "bb_valid (residue_remainder st ?o1)"
    using o1 by (simp add: residue_remainder_def Let_def bb_valid_write bb_valid_section cut_at_rune_valid)
  have "bb_valid (residue_buffer (''package output:'' @ nl) (ss_pkg_output st) (residue_remainder st ?o1))"
    using o2 t by (intro bb_valid_buffer valid_fixed) (auto simp: bb_valid_def)
  with o2 have o3: "bb_valid ?o3" by (simp only: split: if_split) blast
  have ab: "bb_valid (residue_aborted st name out)" if "bb_valid out" "name \<in> set (ss_start_order st)" for name out
  proof -
    have "valid_utf8 (''--- aborted: '' @ name @ '' ---'' @ nl)"
      using that(2) t by (intro valid_append valid_fixed) (auto simp: list_all_iff)
    from bb_valid_buffer [OF that(1) this]
    have "bb_valid (residue_buffer (''--- aborted: '' @ name @ '' ---'' @ nl) bb out)" if "ss_per_test st name = Some bb" for bb
      using t that by (simp add: bb_valid_def del: append.simps)
    with that(1) show ?thesis unfolding residue_aborted_def by (simp split: option.split del: append.simps)
  qed
  have o4: "bb_valid ?o4" by (rule fold_invariant_all [where P = bb_valid, OF o3]) (rule ab)
  have o5: "bb_valid (if bb_empty stderr then ?o4
      else residue_buffer (''stderr:'' @ nl) (stderr\<lparr>bb_text := to_valid_utf8 (bb_text stderr)\<rparr>) ?o4)"
    by (rule either_way [where P = bb_valid, OF o4 bb_valid_buffer [OF o4 valid_fixed(4)]]) simp
  have exit: "valid_utf8 (''process exit: '' @ we_text e)" if "wait = Some e" for e
    using wait that by (intro valid_append valid_fixed) simp
  show ?thesis unfolding run_residue_def Let_def
    using o5 exit by (cases wait) (auto simp del: append.simps intro: bb_valid_section)
qed

lemma deadline_head_valid: "texts_ok st \<Longrightarrow> valid_utf8 bound \<Longrightarrow> valid_utf8 (fst (deadline_head st bound))"
proof -
  assume st: "texts_ok st" and b: "valid_utf8 bound"
  let ?head = "''test binary timeout '' @ bound @ '' exhausted before the package completed ''
            @ em_dash @ '' the budget is the red fact, not the running tests''"
  let ?names = "if ss_roster st = [] then started_tests st else ss_roster st"
  have h: "valid_utf8 ?head" using b by (intro valid_append valid_fixed valid_dash)
  have "list_all valid_utf8 ?names" using st by (auto simp: texts_ok_def started_tests_def list_all_iff)
  from roster_valid [OF this valid_fixed(11)]
  have r: "valid_utf8 (?head @ fst (format_bounded_roster (nl @ ''running when the budget expired: '') ?names))"
    by (intro valid_append h)
  obtain line marked where l: "format_bounded_roster (nl @ ''running when the budget expired: '') ?names = (line, marked)" by fastforce
  have "fst (deadline_head st bound) = (if ?names = [] then ?head else ?head @ line)"
    unfolding deadline_head_def Let_def l by (simp only: split: if_split prod.split) simp
  with h r [unfolded l] show ?thesis by (simp only: fst_conv split: if_split) blast
qed

text \<open>The fixed reasons are ASCII.\<close>

lemma valid_reasons:
  "valid_utf8 ''go test -json stream carried unparseable output''"
  "valid_utf8 ''go test -json produced no events; a silent command stream is refused''"
  "valid_utf8 ''go test -json stream ended without a terminal package event''"
  "valid_utf8 ''go test -json stream carried events after the terminal package event; a stream that outlives its own verdict is refused''"
  "valid_utf8 ''go test exited with failure despite a passing stream''"
  by (rule valid_ascii, code_simp)+

lemma refusal_valid: "stream_refusal st wait = Some reason \<Longrightarrow> valid_utf8 reason"
proof -
  have "pred_option valid_utf8 (stream_refusal st wait)" unfolding stream_refusal_def
    by (intro either_way [where P = "pred_option valid_utf8"]) (simp_all only: option.pred_inject valid_reasons)
  then show "stream_refusal st wait = Some reason \<Longrightarrow> valid_utf8 reason" by simp
qed

text \<open>C29: a report can always carry the diagnostics. Whatever bytes a process wrote to its error
  stream and wherever its event stream broke off, each diagnostic of the verdict is at most
  64 KiB and valid UTF-8, given that the decoded events, the exit text and the declared bound are:
  no cut falls inside a character, and what is not decoded is scrubbed.\<close>

theorem diagnostics_well_formed:
  assumes "list_all event_ok es" and "case wait of None \<Rightarrow> True | Some e \<Rightarrow> valid_utf8 (we_text e)" and "valid_utf8 bound"
  shows "list_all (\<lambda>d. valid_utf8 (fd_output d) \<and> length (fd_output d) \<le> 65536)
     (pr_diags (classify_run inv_name pkg (parse_test_stream inv_name pkg pd es ending) wait stderr bound))"
proof -
  let ?st = "parse_test_stream inv_name pkg pd es ending"
  note st = texts_ok_stream [OF assms(1), of inv_name pkg pd ending]
  have own: "bb_valid (run_residue ?st stderr wait head)" if "valid_utf8 head" for head
    by (rule residue_valid [OF st that assms(2)])
  have fresh: "diag_ok (package_diag inv_name pkg d bb)" if "bb_valid bb" for d bb
    using that by (simp add: diag_ok_def bb_valid_def)
  have old: "list_all diag_ok (ss_diags ?st)" using st unfolding texts_ok_def by blast
  have "list_all diag_ok (pr_diags (classify_run inv_name pkg ?st wait stderr bound))"
  proof (cases "stream_refusal ?st wait")
    case (Some reason)
    with old own [OF refusal_valid [OF Some]] fresh show ?thesis by (simp add: classify_run_def Let_def)
  next
    case None
    let ?dl = "ss_binary_timeout ?st \<noteq> [] \<and> bound \<noteq> [] \<and> \<not> ss_failed_build ?st"
    obtain head marked where h: "(if ?dl then deadline_head ?st bound else ([], False)) = (head, marked)" by fastforce
    have "valid_utf8 head" using h deadline_head_valid [OF st assms(3)] by (auto split: if_splits)
    from fresh [of "bb_mark marked (run_residue ?st stderr wait head)"] own [OF this] old None h show ?thesis
      unfolding classify_run_def Let_def by simp
  qed
  then show ?thesis by (simp add: list_all_iff diag_ok_def failure_output_cap_def)
qed

text \<open>The theorem at a stream whose error output is a broken character.\<close>

lemma diagnostics_well_formed_witness:
  "list_all (\<lambda>d. valid_utf8 (fd_output d) \<and> length (fd_output d) \<le> 65536)
     (pr_diags (classify_run ''unit'' ''p'' (parse_test_stream ''unit'' ''p'' None [] Stream_EOF) None
        \<lparr>bb_text = [CHR 0xE2], bb_truncated = False\<rparr> []))"
  by (rule diagnostics_well_formed) simp_all

end
