(* ===== verification/Derive.thy ===== *)
theory Derive
  imports Execute Check
begin

text \<open>
  From processes to witnesses, \<open>internal/backends/golang\<close>: the assembly of a report from the
  invocations of a policy (\<open>executePolicy\<close> in \<open>execute.go\<close>) and the evidence view of one report
  (\<open>DeriveTestRun\<close> in \<open>derive.go\<close>). The obligation findings and the timing a report carries are
  passed along unread. The last section follows a witness back to the process that gave it, whatever became of the
  packages of the execution.
\<close>

section \<open>The report of a policy\<close>

record ('b, 'c, 'm) full_report =
  fr_invocations :: "invocation_health list"
  fr_tests :: "test_result list"
  fr_obligations :: "'b list"
  fr_diagnostics :: "failure_diagnostic list"
  fr_observations :: "'c observation list"
  fr_timing :: "'m option"

text \<open>
  An invocation is executed by \<open>assembleInvocation\<close> over the runs its packages gave; the first that
  fails ends the policy, and so does a caller that has cancelled by the end.
\<close>

type_synonym 'c executed = "invocation \<times> 'c package_run list \<times> bool"

fun execute_all ::
  "(nat \<Rightarrow> bool) \<Rightarrow> 'c executed list \<Rightarrow> ('b, 'c, 'm) full_report \<Rightarrow> string + ('b, 'c, 'm) full_report" where
  "execute_all tbl [] rep = Inr rep"
| "execute_all tbl ((n, runs, timed_out) # rest) rep =
     (case assemble_invocation tbl n runs timed_out of
        Inl e \<Rightarrow> Inl e
      | Inr (h, res) \<Rightarrow>
          execute_all tbl rest (rep\<lparr>fr_invocations := fr_invocations rep @ [h], fr_tests := fr_tests rep @ sr_tests res,
            fr_diagnostics := fr_diagnostics rep @ sr_diagnostics res,
            fr_observations := fr_observations rep @ sr_observations res\<rparr>))"

definition execute_policy ::
  "(nat \<Rightarrow> bool) \<Rightarrow> string option \<Rightarrow> 'b list \<Rightarrow> 'm option \<Rightarrow> 'c executed list \<Rightarrow> string + ('b, 'c, 'm) full_report" where
  "execute_policy tbl cancelled obligations timing parts =
     (case execute_all tbl parts \<lparr>fr_invocations = [], fr_tests = [], fr_obligations = obligations, fr_diagnostics = [],
             fr_observations = [], fr_timing = timing\<rparr> of
        Inl e \<Rightarrow> Inl e
      | Inr rep \<Rightarrow> (case cancelled of Some e \<Rightarrow> Inl e | None \<Rightarrow> Inr rep))"

text \<open>The report as the check reads it; \<open>msg\<close> embeds a diagnostic among the messages the check passes along.\<close>

definition check_report :: "(failure_diagnostic \<Rightarrow> 'm) \<Rightarrow> ('b, 'c, 'm) full_report \<Rightarrow> 'm execution_report" where
  "check_report msg rep =
     \<lparr>xr_dispositions = map ih_disposition (fr_invocations rep), xr_diagnostics = map msg (fr_diagnostics rep),
      xr_timing = fr_timing rep\<rparr>"

section \<open>The facts of an invocation\<close>

definition inv_pkg_key :: "string \<Rightarrow> string \<Rightarrow> string" where
  "inv_pkg_key inv_name pkg = inv_name @ CHR 0x00 # pkg"

record invocation_facts =
  if_race :: "string \<rightharpoonup> bool"
  if_plain :: "string \<rightharpoonup> bool"
  if_healthy :: "string set"

definition index_step :: "invocation_health \<Rightarrow> invocation_facts \<Rightarrow> invocation_facts" where
  "index_step h f =
     \<lparr>if_race = (if_race f)(ih_invocation h \<mapsto> gc_race (ih_go h)),
      if_plain = (if_plain f)(ih_invocation h \<mapsto> gc_plain_witness (ih_go h)),
      if_healthy = if_healthy f \<union> set (map (\<lambda>p. inv_pkg_key (ih_invocation h) (ph_package p))
        (filter (\<lambda>p. ph_disposition p = HEALTH_HEALTHY) (ih_packages h)))\<rparr>"

definition index_invocations :: "('b, 'c, 'm) full_report \<Rightarrow> invocation_facts" where
  "index_invocations rep = fold index_step (fr_invocations rep) \<lparr>if_race = Map.empty, if_plain = Map.empty, if_healthy = {}\<rparr>"

definition race_of :: "invocation_facts \<Rightarrow> string \<Rightarrow> bool" where
  "race_of f i = (if_race f i = Some True)"

definition plain_of :: "invocation_facts \<Rightarrow> string \<Rightarrow> bool" where
  "plain_of f i = (if_plain f i = Some True)"

section \<open>The evidence view\<close>

definition result_key :: "test_result \<Rightarrow> string" where
  "result_key row = xt_package row @ ''.'' @ xt_test row"

definition producing :: "test_result \<Rightarrow> string" where
  "producing row = (case xt_producer row of None \<Rightarrow> [] | Some pd \<Rightarrow> pd_invocation pd)"

definition row_granted :: "invocation_facts \<Rightarrow> test_result \<Rightarrow> bool" where
  "row_granted f row \<longleftrightarrow>
     xt_outcome row = OUTCOME_PASSED \<and> inv_pkg_key (producing row) (xt_package row) \<in> if_healthy f
     \<and> (race_of f (producing row) \<or> plain_of f (producing row))"

definition row_outcome :: "invocation_facts \<Rightarrow> test_result \<Rightarrow> test_outcome" where
  "row_outcome f row =
     (case xt_outcome row of
        OUTCOME_FAILED \<Rightarrow> TestFailed
      | OUTCOME_SKIPPED \<Rightarrow> TestSkipped
      | OUTCOME_PASSED \<Rightarrow> if row_granted f row then TestPassed else TestNotRun
      | _ \<Rightarrow> TestNotRun)"

definition executed_top_key :: "string \<Rightarrow> string \<Rightarrow> string option" where
  "executed_top_key pkg test =
     (let top = top_name test in if has_prefix top ''Example'' then None else Some (pkg @ ''.'' @ top))"

record derivation =
  dv_outcomes :: "string \<rightharpoonup> test_outcome"
  dv_granted_race :: "string set"
  dv_registrations :: "registration list"
  dv_ran_top :: "string set"

definition derive_row :: "invocation_facts \<Rightarrow> test_result \<Rightarrow> derivation \<Rightarrow> derivation" where
  "derive_row f row d =
     (let key = result_key row; x = row_outcome f row;
          old = (case dv_outcomes d key of None \<Rightarrow> TestNotRun | Some x \<Rightarrow> x) in
      \<lparr>dv_outcomes = (if x \<noteq> TestNotRun \<and> outcome_rank old < outcome_rank x then (dv_outcomes d)(key \<mapsto> x) else dv_outcomes d),
       dv_granted_race = (if row_granted f row \<and> race_of f (producing row) then insert key (dv_granted_race d) else dv_granted_race d),
       dv_registrations = dv_registrations d @
         map (\<lambda>req. \<lparr>rg_package = xt_package row, rg_test = xt_test row, rg_requirement = req\<rparr>) (xt_registrations row),
       dv_ran_top = (case executed_top_key (xt_package row) (xt_test row) of
          None \<Rightarrow> dv_ran_top d | Some k \<Rightarrow> insert k (dv_ran_top d))\<rparr>)"

definition derive_failure :: "failure_diagnostic \<Rightarrow> (string \<rightharpoonup> string) \<Rightarrow> (string \<rightharpoonup> string)" where
  "derive_failure d m =
     (if fd_test d = [] then m
      else let key = fd_package d @ ''.'' @ fd_test d in
        (case m key of None \<Rightarrow> m(key \<mapsto> fd_output d) | Some prev \<Rightarrow> m(key \<mapsto> prev @ nl @ fd_output d)))"

definition registration_key :: "registration \<Rightarrow> string \<times> string \<times> string" where
  "registration_key r = (rg_package r, rg_test r, rg_requirement r)"

definition sort_regs :: "registration list \<Rightarrow> registration list" where
  "sort_regs rs = remdups_adj (sort_key registration_key rs)"

record 'm derived =
  dd_run :: "'m test_run"
  dd_ran :: nat
  dd_failures :: "string \<rightharpoonup> string"

definition derive_test_run :: "('b, 'c, 'm) full_report \<Rightarrow> 'm derived" where
  "derive_test_run rep =
     (let f = index_invocations rep;
          d = fold (derive_row f) (fr_tests rep)
                \<lparr>dv_outcomes = Map.empty, dv_granted_race = {}, dv_registrations = [], dv_ran_top = {}\<rparr> in
      \<lparr>dd_run =
         \<lparr>tr_cache_load = None, tr_race_enabled = True,
          tr_plain_witness = {key. dv_outcomes d key = Some TestPassed \<and> key \<notin> dv_granted_race d},
          tr_outcomes = dv_outcomes d, tr_registrations = sort_regs (dv_registrations d),
          tr_outside_subjects = {}, tr_scope_skipped = {}, tr_no_outcome = Map.empty, tr_selective_serving = False,
          tr_outside_policy = 0, tr_diagnostics = [], tr_timing = fr_timing rep\<rparr>,
       dd_ran = card (dv_ran_top d),
       dd_failures = fold derive_failure (fr_diagnostics rep) Map.empty\<rparr>)"

section \<open>Outcomes by key\<close>

text \<open>The worst of a list of outcomes, a failure first, then a pass, then a skip.\<close>

definition worst :: "test_outcome list \<Rightarrow> test_outcome" where
  "worst os =
     (if TestFailed \<in> set os then TestFailed else if TestPassed \<in> set os then TestPassed
      else if TestSkipped \<in> set os then TestSkipped else TestNotRun)"

lemma worst_snoc:
  "worst (os @ [x]) = (if x \<noteq> TestNotRun \<and> outcome_rank (worst os) < outcome_rank x then x else worst os)"
  by (cases x) (auto simp: worst_def)

definition rows_at :: "string \<Rightarrow> test_result list \<Rightarrow> test_result list" where
  "rows_at key rows = filter (\<lambda>row. result_key row = key) rows"

definition value_at :: "(string \<rightharpoonup> test_outcome) \<Rightarrow> string \<Rightarrow> test_outcome" where
  "value_at m key = (case m key of None \<Rightarrow> TestNotRun | Some x \<Rightarrow> x)"

lemma rows_at_snoc [simp]: "rows_at key (rows @ [row]) = rows_at key rows @ (if result_key row = key then [row] else [])"
  by (simp add: rows_at_def)

definition derive_start :: derivation where
  "derive_start = \<lparr>dv_outcomes = Map.empty, dv_granted_race = {}, dv_registrations = [], dv_ran_top = {}\<rparr>"

lemma derive_row_at:
  "value_at (dv_outcomes (derive_row f row d)) key =
     (if result_key row = key \<and> row_outcome f row \<noteq> TestNotRun
         \<and> outcome_rank (value_at (dv_outcomes d) key) < outcome_rank (row_outcome f row)
      then row_outcome f row else value_at (dv_outcomes d) key)"
  "dv_outcomes d key \<noteq> Some TestNotRun \<Longrightarrow> dv_outcomes (derive_row f row d) key \<noteq> Some TestNotRun"
  "(key \<in> dv_granted_race (derive_row f row d))
     = (result_key row = key \<and> row_granted f row \<and> race_of f (producing row) \<or> key \<in> dv_granted_race d)"
  by (auto simp: derive_row_def value_at_def Let_def)

text \<open>The fold keeps, at each key, the worst outcome a row of that key has.\<close>

lemma derive_rows:
  "let d = fold (derive_row f) rows derive_start in
     value_at (dv_outcomes d) key = worst (map (row_outcome f) (rows_at key rows))
     \<and> dv_outcomes d key \<noteq> Some TestNotRun
     \<and> (key \<in> dv_granted_race d) = list_ex (\<lambda>row. row_granted f row \<and> race_of f (producing row)) (rows_at key rows)"
proof (induction rows rule: rev_induct)
  case Nil
  then show ?case by (simp add: rows_at_def value_at_def derive_start_def worst_def)
next
  case (snoc row rows)
  then show ?case by (auto simp: Let_def derive_row_at worst_snoc)
qed

lemma derive_collected:
  "dv_registrations (fold (derive_row f) rows d) = dv_registrations d @
     [\<lparr>rg_package = xt_package row, rg_test = xt_test row, rg_requirement = req\<rparr>. row \<leftarrow> rows, req \<leftarrow> xt_registrations row]"
  "dv_ran_top (fold (derive_row f) rows d) = dv_ran_top d \<union>
     set (concat (map (\<lambda>row. case executed_top_key (xt_package row) (xt_test row) of None \<Rightarrow> [] | Some k \<Rightarrow> [k]) rows))"
  by (induction rows arbitrary: d) (auto simp: derive_row_def Let_def split: option.split)

lemma registration_key_inj: "inj registration_key"
  by (rule injI) (simp add: registration_key_def)

lemma sort_regs_exact:
  "set (sort_regs rs) = set rs" "distinct (sort_regs rs)" "sorted (map registration_key (sort_regs rs))"
proof -
  show "set (sort_regs rs) = set rs" by (simp add: sort_regs_def)
  have s: "sorted (map registration_key (sort_key registration_key rs))" by simp
  have d: "sorted (map registration_key xs) \<Longrightarrow> sorted (map registration_key (remdups_adj xs)) \<and> distinct (remdups_adj xs)" for xs
  proof (induction xs rule: remdups_adj.induct)
    case (3 x y xs)
    show ?case
    proof (cases "x = y")
      case False
      have "registration_key x < registration_key z" if "z \<in> set (y # xs)" for z
      proof -
        have "registration_key x \<le> registration_key y" "registration_key y \<le> registration_key z" using 3(3) that by auto
        moreover have "registration_key x \<noteq> registration_key y" using False registration_key_inj by (auto dest: injD)
        ultimately show ?thesis by (metis order.strict_trans2 order.not_eq_order_implies_strict)
      qed
      with 3 False show ?thesis by (auto simp: less_imp_le)
    qed (use 3 in auto)
  qed auto
  from d [OF s] show "distinct (sort_regs rs)" "sorted (map registration_key (sort_regs rs))" by (simp_all add: sort_regs_def)
qed

lemma row_outcome_iff:
  "(row_outcome f r = TestFailed) = (xt_outcome r = OUTCOME_FAILED)"
  "(row_outcome f r = TestPassed) = row_granted f r"
  "(row_outcome f r = TestSkipped) = (xt_outcome r = OUTCOME_SKIPPED)"
  by (cases "xt_outcome r"; simp add: row_outcome_def row_granted_def)+

lemma worst_rows:
  "worst (map (row_outcome f) rows) =
     (if list_ex (\<lambda>r. xt_outcome r = OUTCOME_FAILED) rows then TestFailed
      else if list_ex (row_granted f) rows then TestPassed
      else if list_ex (\<lambda>r. xt_outcome r = OUTCOME_SKIPPED) rows then TestSkipped
      else TestNotRun)"
proof -
  have "x \<in> set (map (row_outcome f) rows) \<longleftrightarrow> list_ex (\<lambda>r. row_outcome f r = x) rows" for x
    by (auto simp: list_ex_iff)
  then show ?thesis by (simp only: worst_def row_outcome_iff)
qed

lemma derived_run:
  "tr_outcomes (dd_run (derive_test_run rep)) = dv_outcomes (fold (derive_row (index_invocations rep)) (fr_tests rep) derive_start)"
  "tr_plain_witness (dd_run (derive_test_run rep)) =
     {key. dv_outcomes (fold (derive_row (index_invocations rep)) (fr_tests rep) derive_start) key = Some TestPassed
           \<and> key \<notin> dv_granted_race (fold (derive_row (index_invocations rep)) (fr_tests rep) derive_start)}"
  "tr_registrations (dd_run (derive_test_run rep))
     = sort_regs (dv_registrations (fold (derive_row (index_invocations rep)) (fr_tests rep) derive_start))"
  by (simp_all add: derive_test_run_def derive_start_def Let_def)

lemma derived_outcome:
  "outcome_of (dd_run (derive_test_run rep)) key = worst (map (row_outcome (index_invocations rep)) (rows_at key (fr_tests rep)))"
  using derive_rows [of "index_invocations rep" "fr_tests rep" key]
  by (simp add: outcome_of_def value_at_def derived_run Let_def)

text \<open>C21: what a report proves of a test. Its outcome is failed when any of its results failed; else
  passed when one passed in a package that disposed healthy under an invocation with the race
  detector or an admitted plain tier; else skipped when one was skipped; else nothing, whatever
  passed elsewhere. The plain mark stands exactly on the passes no race invocation granted.
  The registrations are those of all results, sorted and once each.\<close>

theorem derive_outcome_exact:
  "let f = index_invocations rep; tr = dd_run (derive_test_run rep); rows = rows_at key (fr_tests rep) in
     outcome_of tr key =
       (if list_ex (\<lambda>r. xt_outcome r = OUTCOME_FAILED) rows then TestFailed
        else if list_ex (row_granted f) rows then TestPassed
        else if list_ex (\<lambda>r. xt_outcome r = OUTCOME_SKIPPED) rows then TestSkipped
        else TestNotRun)
     \<and> (key \<in> tr_plain_witness tr) =
         (outcome_of tr key = TestPassed \<and> \<not> list_ex (\<lambda>r. row_granted f r \<and> race_of f (producing r)) rows)
     \<and> set (tr_registrations tr) =
         {\<lparr>rg_package = xt_package r, rg_test = xt_test r, rg_requirement = req\<rparr> | r req. r \<in> set (fr_tests rep) \<and> req \<in> set (xt_registrations r)}
     \<and> distinct (tr_registrations tr) \<and> sorted (map registration_key (tr_registrations tr))"
proof -
  let ?f = "index_invocations rep" and ?rows = "rows_at key (fr_tests rep)"
  let ?d = "fold (derive_row ?f) (fr_tests rep) derive_start"
  note run = derived_run [of rep]
  note rows = derive_rows [of ?f "fr_tests rep" key, unfolded Let_def]
  note v = derived_outcome [of rep key]
  have p: "dv_outcomes ?d key = Some TestPassed \<longleftrightarrow> outcome_of (dd_run (derive_test_run rep)) key = TestPassed"
    by (simp add: outcome_of_def run split: option.split)
  have regs: "set (dv_registrations ?d) =
      {\<lparr>rg_package = xt_package r, rg_test = xt_test r, rg_requirement = req\<rparr> | r req. r \<in> set (fr_tests rep) \<and> req \<in> set (xt_registrations r)}"
    by (auto simp: derive_collected derive_start_def)
  show ?thesis using p rows v sort_regs_exact [of "dv_registrations ?d"] regs by (simp add: Let_def run worst_rows)
qed

section \<open>From a witness back to its process\<close>

lemma index_step_fields [simp]:
  "if_race (index_step h f) = (if_race f)(ih_invocation h \<mapsto> gc_race (ih_go h))"
  "if_plain (index_step h f) = (if_plain f)(ih_invocation h \<mapsto> gc_plain_witness (ih_go h))"
  "if_healthy (index_step h f) = if_healthy f \<union> {inv_pkg_key (ih_invocation h) (ph_package p) | p.
     p \<in> set (ih_packages h) \<and> ph_disposition p = HEALTH_HEALTHY}"
  by (auto simp: index_step_def)

lemma index_healthy:
  "if_healthy (fold index_step hs f) = if_healthy f \<union>
     {inv_pkg_key (ih_invocation h) (ph_package p) | h p. h \<in> set hs \<and> p \<in> set (ih_packages h) \<and> ph_disposition p = HEALTH_HEALTHY}"
  by (induction hs arbitrary: f) auto

lemma index_other:
  "i \<notin> ih_invocation ` set hs \<Longrightarrow> if_race (fold index_step hs f) i = if_race f i \<and> if_plain (fold index_step hs f) i = if_plain f i"
  by (induction hs arbitrary: f) auto

lemma index_own:
  "distinct (map ih_invocation hs) \<Longrightarrow> h \<in> set hs \<Longrightarrow>
     if_race (fold index_step hs f) (ih_invocation h) = Some (gc_race (ih_go h))
     \<and> if_plain (fold index_step hs f) (ih_invocation h) = Some (gc_plain_witness (ih_go h))"
proof (induction hs arbitrary: f)
  case (Cons x hs)
  show ?case
  proof (cases "h = x")
    case True
    then have "ih_invocation h \<notin> ih_invocation ` set hs" using Cons.prems by (auto simp: image_iff)
    from index_other [OF this, of "index_step x f"] True show ?thesis by simp
  qed (use Cons in simp)
qed simp

text \<open>A part of a policy's execution and what it reports.\<close>

definition part_reported :: "'c executed \<Rightarrow> invocation_health \<Rightarrow> bool" where
  "part_reported part h \<longleftrightarrow>
     (case part of (n, runs, timed_out) \<Rightarrow>
        ih_invocation h = ni_name n \<and> ih_go h = resolved_config n
        \<and> ih_packages h = map (\<lambda>r. \<lparr>ph_package = pr_pkg r, ph_disposition = final_disposition r\<rparr>) (filter (\<lambda>r. pr_solo r = []) runs)
        \<and> (ih_disposition h = HEALTH_HEALTHY)
            = list_all (\<lambda>r. disposition_rank (final_disposition r) = 0) (filter (\<lambda>r. pr_solo r = []) runs))"

lemma assembled_reported:
  "assemble_invocation tbl n runs timed_out = Inr (h, res) \<Longrightarrow>
     part_reported (n, runs, timed_out) h \<and> sr_tests res = concat (map pr_tests runs)"
  using assemble_facts [where tbl = tbl and n = n and runs = runs and timed_out = timed_out] assemble_names [of tbl n runs timed_out h res]
  by (simp add: part_reported_def Let_def list_all_iff)

lemma execute_all_reported:
  "execute_all tbl parts rep = Inr rep' \<Longrightarrow>
     \<exists>hs. fr_invocations rep' = fr_invocations rep @ hs \<and> list_all2 part_reported parts hs
       \<and> fr_tests rep' = fr_tests rep @ concat (map (\<lambda>(n, runs, t). concat (map pr_tests runs)) parts)"
proof (induction parts arbitrary: rep)
  case (Cons part rest)
  obtain n runs timed_out where part: "part = (n, runs, timed_out)" by (metis prod_cases3)
  with Cons.prems obtain h res where a: "assemble_invocation tbl n runs timed_out = Inr (h, res)"
    and e: "execute_all tbl rest (rep\<lparr>fr_invocations := fr_invocations rep @ [h], fr_tests := fr_tests rep @ sr_tests res,
            fr_diagnostics := fr_diagnostics rep @ sr_diagnostics res,
            fr_observations := fr_observations rep @ sr_observations res\<rparr>) = Inr rep'"
    by (auto split: sum.splits)
  from Cons.IH [OF e] obtain hs where hs: "fr_invocations rep' = (fr_invocations rep @ [h]) @ hs"
    "list_all2 part_reported rest hs"
    "fr_tests rep' = (fr_tests rep @ sr_tests res) @ concat (map (\<lambda>(n, runs, t). concat (map pr_tests runs)) rest)" by auto
  with assembled_reported [OF a] part show ?case by (intro exI [of _ "h # hs"]) simp
qed simp

text \<open>One execution of a policy: the invocations it runs, each with the packages in their slots and
  whether its envelope expired.\<close>

type_synonym invocation_run = "invocation \<times> (string \<times> slot) list \<times> bool"

definition executed_part :: "(string \<Rightarrow> int option) \<Rightarrow> int \<Rightarrow> invocation_run \<Rightarrow> 'c executed" where
  "executed_part dur now part = (case part of (n, ps, t) \<Rightarrow> (n, map (slot_run dur now n) ps, t))"

text \<open>The steps that reach the process of a package, those that find no test files, and those that end
  with the output of a failed build.\<close>

definition reached :: "native_steps \<Rightarrow> bool" where
  "reached s \<longleftrightarrow>
     \<not> ns_cut_off s \<and> bl_err (ns_built s) = None \<and> \<not> bl_no_test_files (ns_built s)
     \<and> ns_environment_err s = None \<and> ns_runtime_err s = None \<and> ns_inputs_err s = None"

definition untested :: "native_steps \<Rightarrow> bool" where
  "untested s \<longleftrightarrow>
     \<not> ns_cut_off s \<and> bl_err (ns_built s) = None \<and> bl_no_test_files (ns_built s) \<and> ns_coverage_err s = None"

definition build_rows :: "native_steps \<Rightarrow> test_result list" where
  "build_rows s =
     (if ns_cut_off s \<or> bl_err (ns_built s) = None then []
      else case bl_stream (ns_built s) of None \<Rightarrow> [] | Some st \<Rightarrow> ss_tests st)"

text \<open>The exit that makes a process healthy.\<close>

definition clean_exit :: "native_steps \<Rightarrow> bool" where
  "clean_exit s \<longleftrightarrow>
     (let r = ns_result s in
      reached s \<and> \<not> rr_interrupted r \<and> rr_binary_state r = Some (True, 0) \<and> rr_binary_err r = None
      \<and> rr_ownership_err r = None \<and> rr_conversion_err r = None \<and> rr_profile_err r = None
      \<and> (case ns_output s of None \<Rightarrow> False
         | Some (es, ending) \<Rightarrow> ending = Stream_EOF \<and> es \<noteq> [] \<and> \<not> list_ex ends_package (butlast es)))"

fun clean_slot :: "slot \<Rightarrow> bool" where
  "clean_slot (Admitted s wait origin) = clean_exit s"
| "clean_slot _ = False"

fun healthy_slot :: "slot \<Rightarrow> bool" where
  "healthy_slot (Admitted s wait origin) = (clean_exit s \<or> untested s)"
| "healthy_slot _ = False"

text \<open>The tests a process that was not interrupted ended with an action, by their key in a report, and
  those the output of a failed build names as failed.\<close>

fun ended_keys :: "string \<Rightarrow> string \<times> slot \<Rightarrow> string list" where
  "ended_keys action (pkg, Admitted s wait origin) =
     (if \<not> reached s \<or> rr_interrupted (ns_result s) then []
      else case ns_output s of None \<Rightarrow> []
      | Some (es, ending) \<Rightarrow> map (\<lambda>e. pkg @ ''.'' @ te_test e) (filter (\<lambda>e. ends_test e \<and> te_action e = action) es))"
| "ended_keys _ _ = []"

fun failed_build_keys :: "string \<times> slot \<Rightarrow> string list" where
  "failed_build_keys (pkg, Admitted s wait origin) = map result_key (filter (\<lambda>r. xt_outcome r = OUTCOME_FAILED) (build_rows s))"
| "failed_build_keys _ = []"

text \<open>What a policy guarantees of its invocations, and a build of its stream: names are not empty and
  hold no zero byte, packages are selected once, and no process produced the rows of a build.\<close>

definition sound_part :: "invocation_run \<Rightarrow> bool" where
  "sound_part part \<longleftrightarrow>
     (case part of (n, ps, t) \<Rightarrow>
        ni_name n \<noteq> [] \<and> CHR 0x00 \<notin> set (ni_name n) \<and> distinct (map fst ps)
        \<and> list_all (\<lambda>(pkg, sl). case sl of Admitted s wait origin \<Rightarrow> list_all (\<lambda>r. xt_producer r = None) (build_rows s) | _ \<Rightarrow> True) ps)"

lemma classify_fields:
  "pr_pkg (classify_run i q st w e b) = q" "pr_solo (classify_run i q st w e b) = []"
  "pr_pkg (degraded_run i q reason tr) = q" "pr_solo (degraded_run i q reason tr) = []"
  "pr_tests (degraded_run i q reason tr) = []" "pr_disposition (degraded_run i q reason tr) = HEALTH_DEGRADED"
  by (auto simp: classify_run_def degraded_run_def Let_def split: option.split prod.split)

lemma classify_retained_fields:
  "pr_pkg (classify_retained dur now n pkg r) = pkg" "pr_solo (classify_retained dur now n pkg r) = []"
  "pr_tests (classify_retained dur now n pkg r) =
     (case rr_stream r of None \<Rightarrow> [] | Some st \<Rightarrow> if rr_interrupted r then [] else ss_tests st)"
  by (simp_all add: classify_retained_def classify_fields Let_def split: option.split)

text \<open>The rows of a package in its slot.\<close>

fun slot_rows :: "invocation \<Rightarrow> string \<times> slot \<Rightarrow> test_result list" where
  "slot_rows n (pkg, Admitted s wait origin) =
     (if reached s
      then (case ns_output s of None \<Rightarrow> []
            | Some (es, ending) \<Rightarrow> if rr_interrupted (ns_result s) then []
                else ss_tests (parse_test_stream (ni_name n) pkg (Some (native_producer n s)) es ending))
      else build_rows s)"
| "slot_rows n _ = []"

lemma native_cases:
  fixes dur now n pkg s
  defines "outcome \<equiv> run_native_package dur now n pkg s :: 'c package_run"
  shows "pr_pkg outcome = pkg" "pr_solo outcome = []" "pr_tests outcome = slot_rows n (pkg, Admitted s wait origin)"
    and "reached s \<Longrightarrow> pr_disposition outcome = pr_disposition (classify_retained dur now n pkg (native_result n pkg s) :: 'c package_run)"
    and "untested s \<Longrightarrow> pr_disposition outcome = HEALTH_HEALTHY"
    and "\<not> reached s \<Longrightarrow> \<not> untested s \<Longrightarrow> pr_disposition outcome \<in> {HEALTH_UNSPECIFIED, HEALTH_DEGRADED, HEALTH_BUILD_FAILED, HEALTH_TEST_FAILED}"
proof -
  have built: "pr_disposition (classify_run i q st (Some err) e [] :: 'c package_run)
      \<in> {HEALTH_DEGRADED, HEALTH_BUILD_FAILED, HEALTH_TEST_FAILED}" for i q st err e
  proof (cases "stream_refusal st (Some err)")
    case None
    then have "ss_terminal st \<notin> {''pass'', ''skip''}" by (auto simp: stream_refusal_def split: if_splits)
    with judged_disposition [OF None, where 'a = 'c, of i q e "[]"] show ?thesis by auto
  qed (simp add: refused_disposition)
  note run = outcome_def run_native_package_def reached_def untested_def build_rows_def Let_def
  note splits = option.splits prod.splits if_splits
  show "pr_pkg outcome = pkg" "pr_solo outcome = []"
    by (auto simp: run classify_fields classify_retained_fields split: splits)
  show "pr_tests outcome = slot_rows n (pkg, Admitted s wait origin)"
    by (auto simp: run classify_fields classify_retained_fields native_result_def split: splits)
  show "reached s \<Longrightarrow> pr_disposition outcome = pr_disposition (classify_retained dur now n pkg (native_result n pkg s) :: 'c package_run)"
    by (auto simp: run split: splits)
  show "untested s \<Longrightarrow> pr_disposition outcome = HEALTH_HEALTHY" by (auto simp: run split: splits)
  show "\<not> reached s \<Longrightarrow> \<not> untested s \<Longrightarrow> pr_disposition outcome \<in> {HEALTH_UNSPECIFIED, HEALTH_DEGRADED, HEALTH_BUILD_FAILED, HEALTH_TEST_FAILED}"
    using built by (auto simp: run classify_fields split: splits)
qed

lemma slot_run_fields [simp]:
  "pr_pkg (slot_run dur now n p) = fst p" "pr_solo (slot_run dur now n p) = []"
  "pr_tests (slot_run dur now n p) = slot_rows n p"
proof -
  obtain pkg sl where p: "p = (pkg, sl)" by fastforce
  have "pr_pkg (slot_run dur now n p) = fst p \<and> pr_solo (slot_run dur now n p) = [] \<and> pr_tests (slot_run dur now n p) = slot_rows n p"
  proof (cases sl)
    case (Admitted s wait origin)
    then show ?thesis
      using native_cases(1,2) [of dur now n pkg s] native_cases(3) [of dur now n pkg s wait origin]
      by (simp add: p slot_run_def del: slot_rows.simps)
  qed (simp_all add: p slot_run_def classify_fields)
  then show "pr_pkg (slot_run dur now n p) = fst p" "pr_solo (slot_run dur now n p) = []"
    "pr_tests (slot_run dur now n p) = slot_rows n p" by blast+
qed

lemma classified_dispositions:
  "pr_disposition (classify_retained dur now n pkg r :: 'c package_run)
     \<in> {HEALTH_UNSPECIFIED, HEALTH_HEALTHY, HEALTH_DEGRADED, HEALTH_BUILD_FAILED, HEALTH_TIMEOUT, HEALTH_TEST_FAILED}"
proof -
  have "pr_disposition (classify_run i q st w s b :: 'c package_run)
      \<in> {HEALTH_HEALTHY, HEALTH_DEGRADED, HEALTH_BUILD_FAILED, HEALTH_TIMEOUT, HEALTH_TEST_FAILED}" for i q st w s b
    by (cases "stream_refusal st w") (auto simp: judged_disposition refused_disposition)
  then show ?thesis by (auto simp: classify_retained_def degraded_run_def Let_def split: option.split)
qed

lemma reached_healthy:
  assumes "reached s"
  shows "pr_disposition (classify_retained dur now n pkg (native_result n pkg s) :: 'c package_run) = HEALTH_HEALTHY \<longleftrightarrow> clean_exit s"
proof -
  have "ss_events stream_new = 0" by (simp add: stream_new_def)
  with retained_facts [of dur now n pkg "native_result n pkg s", unfolded Let_def, THEN conjunct1] assms
  show ?thesis
    by (auto simp: clean_exit_def native_result_def malformed_iff parse_package Let_def split: option.splits)
qed

lemma healthy_run:
  "final_disposition (slot_run dur now n p :: 'c package_run) = HEALTH_HEALTHY \<longleftrightarrow> healthy_slot (snd p)"
  "disposition_rank (final_disposition (slot_run dur now n p :: 'c package_run)) = 0 \<longleftrightarrow> healthy_slot (snd p)"
proof -
  let ?d = "pr_disposition (slot_run dur now n p :: 'c package_run)"
  have excl: "\<not> (reached s \<and> untested s)" for s by (auto simp: reached_def untested_def)
  have clean: "clean_exit s \<Longrightarrow> reached s" for s by (simp add: clean_exit_def Let_def)
  obtain pkg sl where p: "p = (pkg, sl)" by fastforce
  have "(?d = HEALTH_HEALTHY \<longleftrightarrow> healthy_slot (snd p)) \<and>
      ?d \<in> {HEALTH_UNSPECIFIED, HEALTH_HEALTHY, HEALTH_DEGRADED, HEALTH_BUILD_FAILED, HEALTH_TIMEOUT, HEALTH_TEST_FAILED}"
  proof (cases sl)
    case (Admitted s wait origin)
    have d: "?d = pr_disposition (run_native_package dur now n pkg s :: 'c package_run)" by (simp add: p Admitted slot_run_def)
    show ?thesis
    proof (cases "reached s")
      case True
      with excl have "\<not> untested s" by blast
      then show ?thesis
        unfolding d native_cases(4) [OF True]
        using reached_healthy [OF True, of dur now n pkg, where 'c = 'c]
          classified_dispositions [of dur now n pkg "native_result n pkg s", where 'c = 'c]
        by (simp add: p Admitted)
    next
      case False
      with clean have "\<not> clean_exit s" by blast
      then show ?thesis
        unfolding d using native_cases(5,6) [of s dur now n pkg, where 'c = 'c] False
        by (cases "untested s") (auto simp: p Admitted)
    qed
  qed (simp_all add: p slot_run_def classify_fields)
  then show "final_disposition (slot_run dur now n p :: 'c package_run) = HEALTH_HEALTHY \<longleftrightarrow> healthy_slot (snd p)"
    "disposition_rank (final_disposition (slot_run dur now n p :: 'c package_run)) = 0 \<longleftrightarrow> healthy_slot (snd p)"
    by (auto simp: final_disposition_def disposition_rank_def)
qed

lemma policy_reported:
  assumes "execute_policy tbl cancelled obligations timing (map (executed_part dur now :: _ \<Rightarrow> 'c executed) ps) = Inr rep"
  shows "list_all2 part_reported (map (executed_part dur now :: _ \<Rightarrow> 'c executed) ps) (fr_invocations rep)
    \<and> fr_tests rep = concat (map (\<lambda>(n, slots, t). concat (map (slot_rows n) slots)) ps)"
proof -
  from assms obtain rep' where "execute_all tbl (map (executed_part dur now :: _ \<Rightarrow> 'c executed) ps) \<lparr>fr_invocations = [], fr_tests = [],
      fr_obligations = obligations, fr_diagnostics = [], fr_observations = [], fr_timing = timing\<rparr> = Inr rep'" "rep = rep'"
    by (auto simp: execute_policy_def split: sum.splits option.splits)
  from execute_all_reported [OF this(1)] this(2) show ?thesis
    by (auto simp: comp_def executed_part_def split_beta intro!: arg_cong [where f = concat] map_cong)
qed

text \<open>A row with an outcome comes from an event of the package's own process, under its identity, or from
  the output of its failed build, under none.\<close>

lemma slot_row:
  assumes "r \<in> set (slot_rows n (pkg, sl))"
  obtains (Process) s wait origin es ending e where "sl = Admitted s wait origin" "reached s" "\<not> rr_interrupted (ns_result s)"
      "ns_output s = Some (es, ending)" "e \<in> set es" "ends_test e" "xt_package r = pkg" "xt_test r = te_test e"
      "xt_outcome r = outcome_of_action (te_action e)" "xt_producer r = Some (native_producer n s)"
  | (Build) s wait origin where "sl = Admitted s wait origin" "\<not> reached s" "r \<in> set (build_rows s)"
proof -
  from assms obtain s wait origin where sl: "sl = Admitted s wait origin" by (cases sl) auto
  show thesis
  proof (cases "reached s")
    case True
    with assms sl obtain out where "ns_output s = Some out" by (cases "ns_output s") auto
    then obtain es ending where out: "ns_output s = Some (es, ending)" by (cases out) simp
    with assms sl True have o': "ns_output s = Some (es, ending)" "\<not> rr_interrupted (ns_result s)"
      and "r \<in> set (ss_tests (parse_test_stream (ni_name n) pkg (Some (native_producer n s)) es ending))"
      by (auto split: if_splits)
    then have "r \<in> set (at_events ends_test (named_result pkg (Some (native_producer n s))) es)" by (simp add: parse_fold(1))
    from at_events_set [OF this] have "\<exists>e \<in> set es. ends_test e \<and> xt_package r = pkg \<and> xt_test r = te_test e
      \<and> xt_outcome r = outcome_of_action (te_action e) \<and> xt_producer r = Some (native_producer n s)"
      by (auto simp: named_result_def)
    then obtain e where "e \<in> set es" "ends_test e" "xt_package r = pkg" "xt_test r = te_test e"
      "xt_outcome r = outcome_of_action (te_action e)" "xt_producer r = Some (native_producer n s)" by blast
    with Process sl True o' show thesis by blast
  qed (use assms sl Build in auto)
qed

lemma event_row:
  assumes "e \<in> set es" and "ends_test e"
  shows "\<exists>r \<in> set (ss_tests (parse_test_stream i pkg pd es ending)).
    result_key r = pkg @ ''.'' @ te_test e \<and> xt_outcome r = outcome_of_action (te_action e)"
proof -
  obtain k where k: "k < length es" "es ! k = e" using assms(1) by (auto simp: in_set_conv_nth)
  have "named_result pkg pd (take k es) e \<in> set (at_events ends_test (named_result pkg pd) es)"
    using k assms(2) by (auto simp: at_events_def intro!: bexI [of _ k])
  then show ?thesis
    by (intro bexI [of _ "named_result pkg pd (take k es) e"])
       (simp_all add: parse_fold(1) named_result_def result_key_def)
qed

lemma failed_row:
  assumes "key \<in> set (ended_keys ''fail'' p) \<or> key \<in> set (failed_build_keys p)"
  shows "\<exists>r \<in> set (slot_rows n p). result_key r = key \<and> xt_outcome r = OUTCOME_FAILED"
proof -
  obtain pkg sl where p: "p = (pkg, sl)" by fastforce
  with assms obtain s wait origin where sl: "sl = Admitted s wait origin" by (cases sl) auto
  show ?thesis
  proof (cases "key \<in> set (ended_keys ''fail'' p)")
    case True
    then obtain es ending e where s: "reached s" "\<not> rr_interrupted (ns_result s)" "ns_output s = Some (es, ending)"
      and e: "e \<in> set es" "ends_test e" "te_action e = ''fail''" "key = pkg @ ''.'' @ te_test e"
      by (auto simp: p sl split: option.splits if_splits)
    from event_row [OF e(1,2), where i = "ni_name n" and pkg = pkg and pd = "Some (native_producer n s)" and ending = ending] s e(3,4)
    show ?thesis by (auto simp: p sl outcome_of_action_def)
  next
    case False
    with assms have "key \<in> set (failed_build_keys p)" by blast
    then obtain r where "r \<in> set (build_rows s)" "result_key r = key" "xt_outcome r = OUTCOME_FAILED" by (auto simp: p sl)
    moreover from this(1) have "\<not> reached s" by (auto simp: build_rows_def reached_def split: if_splits)
    ultimately show ?thesis by (auto simp: p sl)
  qed
qed

lemma sound_part_facts:
  assumes "list_all sound_part ps" and "(n, slots, t) \<in> set ps"
  shows "ni_name n \<noteq> []" and "CHR 0x00 \<notin> set (ni_name n)" and "distinct (map fst slots)"
    and "(pkg, Admitted s wait origin) \<in> set slots \<Longrightarrow> r \<in> set (build_rows s) \<Longrightarrow> xt_producer r = None"
proof -
  have s: "sound_part (n, slots, t)" using assms by (auto simp: list_all_iff)
  then show "ni_name n \<noteq> []" "CHR 0x00 \<notin> set (ni_name n)" "distinct (map fst slots)" by (simp_all add: sound_part_def)
  show "xt_producer r = None" if "(pkg, Admitted s wait origin) \<in> set slots" "r \<in> set (build_rows s)"
    using s that by (fastforce simp: sound_part_def list_all_iff)
qed

lemma parted_at: "d \<notin> set a \<Longrightarrow> d \<notin> set b \<Longrightarrow> a @ d # x = b @ d # y \<Longrightarrow> a = b \<and> x = y"
proof (induction a arbitrary: b)
  case Nil
  then show ?case by (cases b) auto
next
  case (Cons c a)
  then show ?case by (cases b) auto
qed

lemma same_fst: "distinct (map g xs) \<Longrightarrow> x \<in> set xs \<Longrightarrow> y \<in> set xs \<Longrightarrow> g x = g y \<Longrightarrow> x = y"
  by (auto simp: distinct_map inj_on_def)

text \<open>A granted row stands on a healthy package of an invocation under its producer's name.\<close>

lemma granted_invocation:
  assumes hs: "list_all2 part_reported (map (executed_part dur now :: _ \<Rightarrow> 'c executed) ps) (fr_invocations rep)"
    and sound: "list_all sound_part ps" and names: "distinct (map (\<lambda>(n, slots, t). ni_name n) ps)"
    and nul: "CHR 0x00 \<notin> set (producing r)" and g: "row_granted (index_invocations rep) r"
  obtains n slots t sl where "(n, slots, t) \<in> set ps" "producing r = ni_name n" "(xt_package r, sl) \<in> set slots"
    "healthy_slot sl" "ni_race n \<or> ni_plain_witness n"
proof -
  let ?hs = "fr_invocations rep" and ?f = "index_invocations rep"
  have nuls: "CHR 0x00 \<notin> set (ni_name (fst q))" if "q \<in> set ps" for q
    using sound_part_facts(2) [OF sound] that by (metis prod.collapse)
  have pair: "\<exists>q \<in> set ps. part_reported (executed_part dur now q :: 'c executed) h" if "h \<in> set ?hs" for h
  proof -
    from that obtain i where i: "i < length ?hs" "?hs ! i = h" by (auto simp: in_set_conv_nth)
    with hs have "part_reported (executed_part dur now (ps ! i) :: 'c executed) h" "i < length ps"
      by (auto simp: list_all2_conv_all_nth)
    then show ?thesis by (metis nth_mem)
  qed
  from g obtain h ph where h: "h \<in> set ?hs" "ph \<in> set (ih_packages h)" "ph_disposition ph = HEALTH_HEALTHY"
    and key: "inv_pkg_key (producing r) (xt_package r) = inv_pkg_key (ih_invocation h) (ph_package ph)"
    by (auto simp: row_granted_def index_invocations_def index_healthy)
  from pair [OF h(1)] obtain q where q: "q \<in> set ps" "part_reported (executed_part dur now q :: 'c executed) h" by blast
  obtain n slots t where q': "q = (n, slots, t)" by (metis prod_cases3)
  have ih: "ih_invocation h = ni_name n" "ih_go h = resolved_config n"
    "ih_packages h = map (\<lambda>p. \<lparr>ph_package = fst p, ph_disposition = final_disposition (slot_run dur now n p :: 'c package_run)\<rparr>) slots"
    using q(2) by (auto simp: part_reported_def executed_part_def q' filter_map comp_def)
  have eq: "producing r = ni_name n" "xt_package r = ph_package ph"
    using parted_at [of "CHR 0x00" "producing r" "ni_name n"] key nul nuls [OF q(1)]
    by (simp_all add: inv_pkg_key_def ih(1) q')
  from h(2,3) ih(3) obtain p where p: "p \<in> set slots" "fst p = ph_package ph" "healthy_slot (snd p)"
    using healthy_run(1) [where 'c = 'c] by auto
  have "map ih_invocation ?hs = map (\<lambda>(n, slots, t). ni_name n) ps"
  proof (rule nth_equalityI)
    show "length (map ih_invocation ?hs) = length (map (\<lambda>(n, slots, t). ni_name n) ps)"
      using list_all2_lengthD [OF hs] by simp
    fix i assume i: "i < length (map ih_invocation ?hs)"
    with hs have "part_reported (executed_part dur now (ps ! i) :: 'c executed) (?hs ! i)"
      by (auto simp: list_all2_conv_all_nth)
    then show "map ih_invocation ?hs ! i = map (\<lambda>(n, slots, t). ni_name n) ps ! i"
      using i list_all2_lengthD [OF hs] by (auto simp: part_reported_def executed_part_def split: prod.splits)
  qed
  with names have "distinct (map ih_invocation ?hs)" by simp
  from index_own [OF this h(1)] ih have "race_of ?f (ni_name n) = ni_race n" "plain_of ?f (ni_name n) = ni_plain_witness n"
    by (simp_all add: race_of_def plain_of_def index_invocations_def resolved_config_def)
  with g eq(1) have "ni_race n \<or> ni_plain_witness n" by (simp add: row_granted_def)
  with that [of n slots t "snd p"] q(1) q' eq p show thesis by (metis prod.collapse)
qed

text \<open>A granted row comes from a process with a clean exit in an eligible invocation.\<close>

lemma granted_origin:
  assumes hs: "list_all2 part_reported (map (executed_part dur now :: _ \<Rightarrow> 'c executed) ps) (fr_invocations rep)"
    and sound: "list_all sound_part ps" and names: "distinct (map (\<lambda>(n, slots, t). ni_name n) ps)"
    and part: "(n, slots, t) \<in> set ps" and p: "(pkg, sl) \<in> set slots"
    and r: "r \<in> set (slot_rows n (pkg, sl))" and g: "row_granted (index_invocations rep) r"
  shows "clean_slot sl \<and> (ni_race n \<or> ni_plain_witness n) \<and> result_key r \<in> set (ended_keys ''pass'' (pkg, sl))"
  using r
proof (cases rule: slot_row)
  case (Process s wait origin es ending e)
  have prod: "producing r = ni_name n" using Process(10) by (simp add: producing_def native_producer_def)
  then have "CHR 0x00 \<notin> set (producing r)" using sound_part_facts(2) [OF sound part] by simp
  from granted_invocation [OF hs sound names this g] obtain n' slots' t' sl' where q: "(n', slots', t') \<in> set ps"
    "producing r = ni_name n'" "(xt_package r, sl') \<in> set slots'" "healthy_slot sl'" "ni_race n' \<or> ni_plain_witness n'" .
  have "(n, slots, t) = (n', slots', t')" by (rule same_fst [OF names part q(1)]) (use prod q(2) in simp)
  with same_fst [OF sound_part_facts(3) [OF sound part] p, of "(xt_package r, sl')"] q(3) Process(7) have "sl' = sl" by simp
  with q(4) Process(1,2) have "clean_slot sl" by (auto simp: reached_def untested_def)
  moreover have "te_action e = ''pass''"
    using g Process(9) by (auto simp: row_granted_def outcome_of_action_def split: if_splits)
  then have "result_key r \<in> set (ended_keys ''pass'' (pkg, sl))"
    using Process by (auto simp: result_key_def)
  ultimately show ?thesis using q(5) \<open>(n, slots, t) = (n', slots', t')\<close> by simp
next
  case (Build s wait origin)
  have "producing r = []" using sound_part_facts(4) [OF sound part] p Build by (auto simp: producing_def)
  then have "CHR 0x00 \<notin> set (producing r)" by simp
  from granted_invocation [OF hs sound names this g] obtain n' slots' t' sl' where
    q: "(n', slots', t') \<in> set ps" "producing r = ni_name n'" "(xt_package r, sl') \<in> set slots'" "healthy_slot sl'"
      "ni_race n' \<or> ni_plain_witness n'" .
  with sound_part_facts(1) [OF sound q(1)] \<open>producing r = []\<close> show ?thesis by simp
qed

text \<open>C3: a witness stands on a process, whatever became of the packages. Over one execution of a
  policy, every package of every invocation was turned away with it, refused for memory, never admitted, cut off by
  the envelope, stopped at its build or its preparation, found to have no test files, or reached
  its process. When a test reads passed, some invocation that runs the race detector or is admitted plain has a
  package whose process exited clean, whole and with its one verdict last, and whose own stream
  says that test passed; and no process that ran to its end and no failed build, in any invocation, says it
  failed. And the suite the check judges is healthy exactly when there is an invocation and every
  package of every one either reached a process that exited clean or has no test files.
  The invocations carry the distinct, non-empty names a policy is validated to, without a zero byte, each
  selects a package once, and the rows of a build stream name no process.\<close>

theorem witness_stands_on_process:
  "case execute_policy tbl cancelled obligations timing (map (executed_part dur now :: _ \<Rightarrow> 'c executed) ps) of
     Inl _ \<Rightarrow> True
   | Inr rep \<Rightarrow>
       (if list_all sound_part ps \<and> distinct (map (\<lambda>(n, slots, t). ni_name n) ps)
            \<and> outcome_of (dd_run (derive_test_run rep)) key = TestPassed
        then list_ex (\<lambda>(n, slots, t). (ni_race n \<or> ni_plain_witness n)
                 \<and> list_ex (\<lambda>p. clean_slot (snd p) \<and> key \<in> set (ended_keys ''pass'' p)) slots) ps
             \<and> list_all (\<lambda>(n, slots, t). list_all (\<lambda>p. key \<notin> set (ended_keys ''fail'' p) \<and> key \<notin> set (failed_build_keys p)) slots) ps
        else True)
       \<and> suite_healthy (Some (check_report msg rep)) = (ps \<noteq> [] \<and> list_all (\<lambda>(n, slots, t). list_all (healthy_slot \<circ> snd) slots) ps)"
proof (cases "execute_policy tbl cancelled obligations timing (map (executed_part dur now :: _ \<Rightarrow> 'c executed) ps)")
  case (Inl e)
  then show ?thesis by simp
next
  case (Inr rep)
  note rep = policy_reported [OF Inr]
  let ?f = "index_invocations rep"
  have rows: "r \<in> set (fr_tests rep) \<longleftrightarrow> (\<exists>n slots t. (n, slots, t) \<in> set ps \<and> (\<exists>p \<in> set slots. r \<in> set (slot_rows n p)))" for r
    unfolding conjunct2 [OF rep] by (force simp: split_beta)
  have passed: "list_ex (\<lambda>(n, slots, t). (ni_race n \<or> ni_plain_witness n)
      \<and> list_ex (\<lambda>p. clean_slot (snd p) \<and> key \<in> set (ended_keys ''pass'' p)) slots) ps"
    if wf: "list_all sound_part ps" "distinct (map (\<lambda>(n, slots, t). ni_name n) ps)"
      and out: "outcome_of (dd_run (derive_test_run rep)) key = TestPassed"
  proof -
    from out obtain r where r: "r \<in> set (rows_at key (fr_tests rep))" "row_granted ?f r"
      by (auto simp: derived_outcome worst_rows list_ex_iff split: if_splits)
    then have r': "r \<in> set (fr_tests rep)" "result_key r = key" by (auto simp: rows_at_def)
    from r'(1) obtain n slots t pkg sl where o': "(n, slots, t) \<in> set ps" "(pkg, sl) \<in> set slots"
      "r \<in> set (slot_rows n (pkg, sl))" unfolding rows by auto
    from granted_origin [OF conjunct1 [OF rep] wf o' r(2)] o'(1,2) r'(2) show ?thesis
      by (auto simp: list_ex_iff split: prod.split intro!: bexI [of _ "(n, slots, t)"] bexI [of _ "(pkg, sl)"])
  qed
  have unfailed: "key \<notin> set (ended_keys ''fail'' p) \<and> key \<notin> set (failed_build_keys p)"
    if out: "outcome_of (dd_run (derive_test_run rep)) key = TestPassed"
      and o': "(n, slots, t) \<in> set ps" "p \<in> set slots" for n slots t p
  proof (rule ccontr)
    assume "\<not> ?thesis"
    then obtain r where r: "r \<in> set (slot_rows n p)" "result_key r = key" "xt_outcome r = OUTCOME_FAILED"
      using failed_row by blast
    have "r \<in> set (fr_tests rep)" unfolding rows using o' r(1) by blast
    with r(2) have "r \<in> set (rows_at key (fr_tests rep))" by (simp add: rows_at_def)
    with r(3) out show False by (auto simp: derived_outcome worst_rows list_ex_iff split: if_splits)
  qed
  have healthy: "suite_healthy (Some (check_report msg rep)) = (ps \<noteq> [] \<and> list_all (\<lambda>(n, slots, t). list_all (healthy_slot \<circ> snd) slots) ps)"
  proof -
    let ?H = "\<lambda>q. case q of (n, slots, t) \<Rightarrow> list_all (healthy_slot \<circ> snd) slots"
    have "(ih_disposition h = HEALTH_HEALTHY) = ?H q" if "part_reported (executed_part dur now q :: 'c executed) h" for q h
    proof -
      obtain n slots t where q: "q = (n, slots, t)" by (cases q)
      show ?thesis using that unfolding q
        by (simp add: part_reported_def executed_part_def filter_map comp_def list.pred_map healthy_run(2))
    qed
    then have all: "list_all2 (\<lambda>q h. (ih_disposition h = HEALTH_HEALTHY) = ?H q) ps (fr_invocations rep)"
      using conjunct1 [OF rep] by (auto simp: list_all2_map1 elim: list_all2_mono)
    have "(xs \<noteq> [] \<and> list_all (\<lambda>h. ih_disposition h = HEALTH_HEALTHY) xs) = (qs \<noteq> [] \<and> list_all ?H qs)"
      if "list_all2 (\<lambda>q h. (ih_disposition h = HEALTH_HEALTHY) = ?H q) qs xs" for qs xs
      using that by (induction rule: list_all2_induct) (auto simp: comp_def)
    from this [OF all] show ?thesis by (simp add: suite_healthy_def check_report_def list_all_iff)
  qed
  have "list_all (\<lambda>(n, slots, t). list_all (\<lambda>p. key \<notin> set (ended_keys ''fail'' p) \<and> key \<notin> set (failed_build_keys p)) slots) ps"
    if "outcome_of (dd_run (derive_test_run rep)) key = TestPassed"
    using unfailed [OF that] by (auto simp: list_all_iff)
  with Inr passed healthy show ?thesis by auto
qed

end
