(* ===== verification/Load.thy ===== *)
theory Load
  imports Hygiene GoPath
begin

text \<open>
  Reading the records off a tree: \<open>internal/recordfile\<close>, \<open>Load\<close>, \<open>LoadTombstones\<close> and
  \<open>eachTextproto\<close> of \<open>internal/records/records.go\<close>, \<open>LoadManifest\<close> of
  \<open>internal/corpus/corpus.go\<close>, and the overlay \<open>batchFS\<close> of \<open>internal/author/author.go\<close>. A file
  system answers the reads of a file and of a directory; the decoder of the text format is a
  parameter. The plain tree is the in-memory file system of \<open>testing/fstest\<close>.
\<close>

section \<open>File systems\<close>

text \<open>A fault that says the file does not exist, and any other.\<close>

datatype fs_fault = Not_Exist string | Fs_Fault string

fun fault_text :: "fs_fault \<Rightarrow> string" where
  "fault_text (Not_Exist e) = e"
| "fault_text (Fs_Fault e) = e"

fun wrap_fault :: "string \<Rightarrow> fs_fault \<Rightarrow> fs_fault" where
  "wrap_fault pre (Not_Exist e) = Not_Exist (pre @ e)"
| "wrap_fault pre (Fs_Fault e) = Fs_Fault (pre @ e)"

text \<open>The entries of a directory are its names in order, each with whether it is a directory.\<close>

record file_system =
  fs_read :: "string \<Rightarrow> fs_fault + string"
  fs_list :: "string \<Rightarrow> fs_fault + (string \<times> bool) list"

type_synonym plain_tree = "(string \<times> string) list"

definition below :: "string \<Rightarrow> plain_tree \<Rightarrow> string list" where
  "below d t = map (\<lambda>p. drop (length (d @ slash)) p) (filter (\<lambda>p. has_prefix p (d @ slash)) (map fst t))"

definition first_seg :: "string \<Rightarrow> string" where
  "first_seg p = takeWhile (\<lambda>c. c \<noteq> CHR ''/'') p"

definition tree_entries :: "plain_tree \<Rightarrow> string \<Rightarrow> (string \<times> bool) list" where
  "tree_entries t d =
     map (\<lambda>n. (n, list_ex (\<lambda>r. first_seg r = n \<and> CHR ''/'' \<in> set r) (below d t)))
       (sort (remdups (map first_seg (below d t))))"

definition tree_fs :: "plain_tree \<Rightarrow> file_system" where
  "tree_fs t =
     \<lparr>fs_read = (\<lambda>p. case map_of t p of Some raw \<Rightarrow> Inr raw | None \<Rightarrow> Inl (Not_Exist (''open '' @ p @ '': file does not exist''))),
      fs_list = (\<lambda>d. if tree_entries t d = [] then Inl (Not_Exist (''open '' @ d @ '': file does not exist''))
                     else Inr (tree_entries t d))\<rparr>"

section \<open>The overlay of a batch\<close>

definition merge_entries :: "(string \<times> bool) list \<Rightarrow> (string \<times> bool) list \<Rightarrow> (string \<times> bool) list" where
  "merge_entries bs ms =
     map (\<lambda>n. (n, the (map_of (rev (bs @ ms)) n))) (sort (remdups (map fst (bs @ ms))))"

definition overlay :: "file_system \<Rightarrow> plain_tree \<Rightarrow> file_system" where
  "overlay base mem =
     \<lparr>fs_read = (\<lambda>p. case map_of mem p of Some raw \<Rightarrow> Inr raw | None \<Rightarrow> fs_read base p),
      fs_list = (\<lambda>d.
        case fs_list base d of
          Inl (Fs_Fault e) \<Rightarrow> Inl (Fs_Fault e)
        | Inl (Not_Exist e) \<Rightarrow>
            (case fs_list (tree_fs mem) d of
               Inl (Fs_Fault e') \<Rightarrow> Inl (Fs_Fault e')
             | Inl (Not_Exist _) \<Rightarrow> Inl (Not_Exist e)
             | Inr ms \<Rightarrow> Inr (merge_entries [] ms))
        | Inr bs \<Rightarrow>
            (case fs_list (tree_fs mem) d of
               Inl (Fs_Fault e') \<Rightarrow> Inl (Fs_Fault e')
             | Inl (Not_Exist _) \<Rightarrow> Inr (merge_entries bs [])
             | Inr ms \<Rightarrow> Inr (merge_entries bs ms)))\<rparr>"

section \<open>Record files\<close>

definition read_record :: "file_system \<Rightarrow> string \<Rightarrow> fs_fault + string" where
  "read_record fs path =
     (case fs_read fs path of
        Inl f \<Rightarrow> Inl (wrap_fault (''reading '' @ path @ '': '') f)
      | Inr raw \<Rightarrow>
          if raw = []
          then Inl (Fs_Fault (path @ '' is empty: a record write'' @ [CHR 39] @ ''s reservation, left by a fault between its exclusive create and its rename or by another process'' @ [CHR 39] @ ''s write still in flight (no record is ever written empty); re-run the verb, and remove the file if it stays empty''))
          else Inr raw)"

definition bindings_dir :: string where "bindings_dir = ''.stipulator/bindings''"
definition gaps_dir :: string where "gaps_dir = ''.stipulator/gaps''"
definition attestations_dir :: string where "attestations_dir = ''.stipulator/attestations''"
definition tombstones_path :: string where "tombstones_path = ''.stipulator/tombstones.textproto''"
definition manifest_path :: string where "manifest_path = ''.stipulator/manifest.textproto''"

definition record_name :: "string \<Rightarrow> bool" where
  "record_name name = has_suffix name ''.textproto''"

text \<open>The visit of a directory: directories and hidden files are passed over, a stray file is an error.\<close>

fun each_entry ::
  "(nat \<Rightarrow> bool) \<Rightarrow> file_system \<Rightarrow> string \<Rightarrow> (string \<Rightarrow> string \<Rightarrow> string + 'a) \<Rightarrow> (string \<times> bool) list \<Rightarrow> string + 'a list" where
  "each_entry tbl fs dir parse [] = Inr []"
| "each_entry tbl fs dir parse ((name, is_dir) # es) =
     (if is_dir \<or> has_prefix name ''.'' then each_entry tbl fs dir parse es
      else if \<not> record_name name
      then Inl (dir @ '': unexpected file '' @ quote tbl name @ '' in a record directory (records are .textproto)'')
      else case read_record fs (path_join dir name) of Inl f \<Rightarrow> Inl (fault_text f)
      | Inr raw \<Rightarrow> (case parse (path_join dir name) raw of Inl e \<Rightarrow> Inl e
      | Inr x \<Rightarrow> (case each_entry tbl fs dir parse es of Inl e \<Rightarrow> Inl e | Inr xs \<Rightarrow> Inr (x # xs))))"

definition each_textproto ::
  "(nat \<Rightarrow> bool) \<Rightarrow> file_system \<Rightarrow> string \<Rightarrow> (string \<Rightarrow> string \<Rightarrow> string + 'a) \<Rightarrow> string + 'a list" where
  "each_textproto tbl fs dir parse =
     (case fs_list fs dir of
        Inl (Not_Exist _) \<Rightarrow> Inr []
      | Inl (Fs_Fault e) \<Rightarrow> Inl (''reading '' @ dir @ '': '' @ e)
      | Inr es \<Rightarrow> each_entry tbl fs dir parse es)"

section \<open>The store\<close>

datatype binding_layout = LAYOUT_UNSPECIFIED | LAYOUT_SEGMENT | LAYOUT_PER_REQUIREMENT | LAYOUT_NUM int

record full_manifest =
  fm_include :: "string list"
  fm_layout :: binding_layout
  fm_rest :: manifest

text \<open>The decoder of the text format, one reading per message.\<close>

record codec =
  cd_bindings :: "string \<Rightarrow> string + binding list"
  cd_gap :: "string \<Rightarrow> string + gap"
  cd_attestations :: "string \<Rightarrow> string + attestation list"
  cd_tombstones :: "string \<Rightarrow> string + string list"
  cd_manifest :: "string \<Rightarrow> string + full_manifest"

definition parsing :: "(string \<Rightarrow> string + 'a) \<Rightarrow> string \<Rightarrow> string \<Rightarrow> string + 'a" where
  "parsing decode path raw = (case decode raw of Inl e \<Rightarrow> Inl (''parsing '' @ path @ '': '' @ e) | Inr x \<Rightarrow> Inr x)"

definition parse_binding_file :: "codec \<Rightarrow> string \<Rightarrow> string \<Rightarrow> string + binding_file" where
  "parse_binding_file cd path raw =
     (case parsing (cd_bindings cd) path raw of Inl e \<Rightarrow> Inl e | Inr bs \<Rightarrow> Inr \<lparr>bf_path = path, bf_raw = raw, bf_set = bs\<rparr>)"

definition parse_gap_file :: "codec \<Rightarrow> string \<Rightarrow> string \<Rightarrow> string + gap_file" where
  "parse_gap_file cd path raw =
     (case parsing (cd_gap cd) path raw of Inl e \<Rightarrow> Inl e | Inr g \<Rightarrow> Inr \<lparr>gf_path = path, gf_raw = raw, gf_gap = g\<rparr>)"

definition parse_attestation_file :: "codec \<Rightarrow> string \<Rightarrow> string \<Rightarrow> string + attestation_file" where
  "parse_attestation_file cd path raw =
     (case parsing (cd_attestations cd) path raw of Inl e \<Rightarrow> Inl e
      | Inr s \<Rightarrow> Inr \<lparr>af_path = path, af_raw = raw, af_set = s\<rparr>)"

definition load_tombstones :: "codec \<Rightarrow> file_system \<Rightarrow> string + string list" where
  "load_tombstones cd fs =
     (case read_record fs tombstones_path of
        Inl (Not_Exist _) \<Rightarrow> Inr []
      | Inl (Fs_Fault e) \<Rightarrow> Inl e
      | Inr raw \<Rightarrow> parsing (cd_tombstones cd) tombstones_path raw)"

definition load :: "(nat \<Rightarrow> bool) \<Rightarrow> codec \<Rightarrow> file_system \<Rightarrow> string + store" where
  "load tbl cd fs =
     (case each_textproto tbl fs bindings_dir (parse_binding_file cd) of Inl e \<Rightarrow> Inl e
      | Inr bfs \<Rightarrow> (case each_textproto tbl fs gaps_dir (parse_gap_file cd) of Inl e \<Rightarrow> Inl e
      | Inr gfs \<Rightarrow> (case each_textproto tbl fs attestations_dir (parse_attestation_file cd) of Inl e \<Rightarrow> Inl e
      | Inr afs \<Rightarrow> (case load_tombstones cd fs of Inl e \<Rightarrow> Inl e
      | Inr tombs \<Rightarrow>
          Inr \<lparr>st_bindings = bfs, st_gaps = gfs, st_attestations = afs, st_tombstones = tombs,
               st_tombstones_raw = (case fs_read fs tombstones_path of Inl _ \<Rightarrow> None | Inr raw \<Rightarrow> Some raw),
               st_allow_whole = (case read_record fs manifest_path of Inl _ \<Rightarrow> False
                 | Inr raw \<Rightarrow> (case cd_manifest cd raw of Inl _ \<Rightarrow> False
                    | Inr m \<Rightarrow> mf_allow_whole_clause_claims (fm_rest m)))\<rparr>))))"

definition default_include :: string where "default_include = ''docs/specs/**/*.md''"

definition load_manifest :: "codec \<Rightarrow> file_system \<Rightarrow> string + full_manifest" where
  "load_manifest cd fs =
     (case read_record fs manifest_path of Inl f \<Rightarrow> Inl (fault_text f)
      | Inr raw \<Rightarrow> (case cd_manifest cd raw of
          Inl e \<Rightarrow> Inl (''parsing manifest '' @ manifest_path @ '': '' @ e)
        | Inr m \<Rightarrow> Inr (if fm_include m = [] then m\<lparr>fm_include := [default_include]\<rparr> else m)))"

section \<open>Paths of record files\<close>

lemma clean_stack_plain: "''..'' \<notin> set ss \<Longrightarrow> clean_stack rooted stk ss = rev stk @ ss"
  by (induction ss arbitrary: stk) auto

lemma path_clean_join:
  assumes "ds \<noteq> []" and "list_all plain_seg ds" and "''..'' \<notin> set ds"
  shows "path_clean (join ds slash) = join ds slash"
proof -
  obtain x xs where ds: "ds = x # xs" using assms(1) by (cases ds) auto
  have x: "x \<noteq> []" "CHR ''/'' \<notin> set x" using assms(2) by (auto simp: ds plain_seg_def)
  then obtain c cs where c: "x = c # cs" "c \<noteq> CHR ''/''" by (cases x) auto
  obtain r where r: "join ds slash = c # r" by (cases xs) (auto simp: ds c)
  have "list_all (\<lambda>y. CHR ''/'' \<notin> set y) ds" using assms(2) by (auto simp: list_all_iff plain_seg_def)
  with split_on_join [OF assms(1)] have "split_on CHR ''/'' (join ds slash) = ds" by simp
  moreover have "filter (\<lambda>s. s \<noteq> [] \<and> s \<noteq> ''.'') ds = ds" using assms(2) by (auto simp: filter_id_conv list_all_iff plain_seg_def)
  ultimately have "path_segs (join ds slash) = ds" by (simp add: path_segs_def)
  moreover have "\<not> has_prefix (join ds slash) slash" using c(2) by (simp add: r)
  ultimately show ?thesis using r by (simp add: path_clean_def Let_def clean_stack_plain [OF assms(3)])
qed

definition record_dirs :: "string list" where
  "record_dirs = [bindings_dir, gaps_dir, attestations_dir]"

text \<open>The name of a file a load visits: no separator, not hidden, of the record extension.\<close>

definition visible_name :: "string \<Rightarrow> bool" where
  "visible_name n \<longleftrightarrow> CHR ''/'' \<notin> set n \<and> \<not> has_prefix n ''.'' \<and> record_name n"

lemma record_name_nonempty: "record_name n \<Longrightarrow> n \<noteq> []"
  by (auto simp: record_name_def has_suffix_def)

lemma plain_name:
  assumes "CHR ''/'' \<notin> set n" "\<not> has_prefix n ''.''" "n \<noteq> []"
  shows "plain_seg n" "n \<noteq> ''..''"
  using assms by (auto simp: plain_seg_def)

lemma record_path:
  assumes "dir \<in> set record_dirs" and "CHR ''/'' \<notin> set n" "\<not> has_prefix n ''.''" "n \<noteq> []"
  shows "path_join dir n = dir @ slash @ n"
proof -
  obtain x where x: "dir = join [''.stipulator'', x] slash" "x \<in> {''bindings'', ''gaps'', ''attestations''}"
    using assms(1) by (auto simp: record_dirs_def bindings_dir_def gaps_dir_def attestations_dir_def)
  then have ne: "dir \<noteq> []" by auto
  have "join [dir, n] slash = join [''.stipulator'', x, n] slash" by (simp add: x(1))
  moreover have "path_clean (join [''.stipulator'', x, n] slash) = join [''.stipulator'', x, n] slash"
    by (rule path_clean_join) (use x(2) plain_name [OF assms(2-4)] in \<open>auto simp: plain_seg_def\<close>)
  ultimately show ?thesis using ne assms(4) by (simp add: path_join_def x(1))
qed

section \<open>The overlay reads as the tree the batch leaves\<close>

text \<open>A tree of files: no file is also a directory.\<close>

definition wf_tree :: "plain_tree \<Rightarrow> bool" where
  "wf_tree t \<longleftrightarrow> (\<forall>p \<in> set (map fst t). \<forall>q \<in> set (map fst t). \<not> has_prefix q (p @ slash))"

lemma below_append [simp]: "below d (s @ t) = below d s @ below d t"
  by (simp add: below_def)

lemma in_below: "r \<in> set (below d t) \<longleftrightarrow> d @ slash @ r \<in> fst ` set t"
proof -
  have "r \<in> set (below d t) \<longleftrightarrow> (\<exists>p \<in> fst ` set t. has_prefix p (d @ slash) \<and> r = drop (length (d @ slash)) p)"
    by (auto simp: below_def image_iff)
  also have "\<dots> \<longleftrightarrow> d @ slash @ r \<in> fst ` set t" by (force simp: has_prefix_iff)
  finally show ?thesis .
qed

lemma first_seg_split: "CHR ''/'' \<in> set r \<Longrightarrow> \<exists>u. r = first_seg r @ slash @ u"
proof -
  assume "CHR ''/'' \<in> set r"
  then have "dropWhile (\<lambda>c. c \<noteq> CHR ''/'') r \<noteq> []" by (simp add: dropWhile_eq_Nil_conv)
  then obtain c u where cu: "dropWhile (\<lambda>c. c \<noteq> CHR ''/'') r = c # u" by (cases "dropWhile (\<lambda>c. c \<noteq> CHR ''/'') r") auto
  from hd_dropWhile [of "\<lambda>c. c \<noteq> CHR ''/''" r] cu have "c = CHR ''/''" by simp
  moreover have "takeWhile (\<lambda>c. c \<noteq> CHR ''/'') r @ dropWhile (\<lambda>c. c \<noteq> CHR ''/'') r = r" by (rule takeWhile_dropWhile_id)
  ultimately have "r = first_seg r @ slash @ u" by (simp add: first_seg_def cu)
  then show ?thesis by blast
qed

lemma first_seg_whole: "CHR ''/'' \<notin> set r \<Longrightarrow> first_seg r = r"
  by (auto simp: first_seg_def takeWhile_eq_all_conv)

text \<open>One name below a directory of a tree is a file or a directory, never both.\<close>

lemma entry_kind:
  assumes "wf_tree t" and "r \<in> set (below d t)" "s \<in> set (below d t)" "first_seg r = first_seg s"
  shows "(CHR ''/'' \<in> set r) = (CHR ''/'' \<in> set s)"
proof (rule ccontr)
  assume "\<not> ?thesis"
  then obtain a b where ab: "a \<in> set (below d t)" "b \<in> set (below d t)" "first_seg a = first_seg b"
    "CHR ''/'' \<in> set b" "CHR ''/'' \<notin> set a" using assms(2-4) by metis
  from first_seg_split [OF ab(4)] obtain u where "b = a @ slash @ u" using ab(3,5) first_seg_whole by metis
  then have "d @ slash @ b = (d @ slash @ a) @ slash @ u" by simp
  then have "has_prefix (d @ slash @ b) ((d @ slash @ a) @ slash)" by (simp add: has_prefix_iff)
  moreover have "d @ slash @ a \<in> set (map fst t)" "d @ slash @ b \<in> set (map fst t)" using ab(1,2) unfolding in_below by auto
  ultimately show False using assms(1) unfolding wf_tree_def by blast
qed

lemma tree_entries_fst: "map fst (tree_entries t d) = sort (remdups (map first_seg (below d t)))"
  by (simp add: tree_entries_def comp_def)

lemma tree_entries_at:
  "map_of (tree_entries t d) n =
     (if n \<in> first_seg ` set (below d t)
      then Some (list_ex (\<lambda>r. first_seg r = n \<and> CHR ''/'' \<in> set r) (below d t)) else None)"
  by (auto simp: tree_entries_def map_of_map_keys map_of_map_restrict comp_def)

lemma tree_entries_Nil: "tree_entries t d = [] \<longleftrightarrow> below d t = []"
proof -
  have "set (map fst (tree_entries t d)) = first_seg ` set (below d t)" by (simp only: tree_entries_fst set_sort set_remdups set_map)
  then show ?thesis by (metis Nil_is_map_conv image_is_empty set_empty)
qed

lemma list_ex_class:
  assumes "r \<in> set xs" and "f r = n" and "\<And>s. s \<in> set xs \<Longrightarrow> f s = n \<Longrightarrow> C s = C r"
  shows "list_ex (\<lambda>s. f s = n \<and> C s) xs = C r"
  unfolding list_ex_iff using assms(1,2) assms(3) by metis

lemma merge_is_union:
  assumes "wf_tree (mem @ t)"
  shows "merge_entries (tree_entries t d) (tree_entries mem d) = tree_entries (mem @ t) d"
proof -
  let ?bs = "tree_entries t d" and ?ms = "tree_entries mem d"
  let ?ns = "sort (remdups (map fst (?bs @ ?ms)))"
  have "set (map fst (?bs @ ?ms)) = set (map first_seg (below d (mem @ t)))"
    by (simp only: map_append tree_entries_fst set_append set_sort set_remdups below_append) auto
  then have ns: "?ns = sort (remdups (map first_seg (below d (mem @ t))))"
    by (metis sorted_list_of_set_sort_remdups)
  have "the (map_of (rev (?bs @ ?ms)) n) = list_ex (\<lambda>r. first_seg r = n \<and> CHR ''/'' \<in> set r) (below d (mem @ t))"
    if "n \<in> first_seg ` set (below d (mem @ t))" for n
  proof -
    have rev: "map_of (rev (tree_entries x d)) = map_of (tree_entries x d)" for x
    proof -
      have "distinct (map fst (tree_entries x d))" unfolding tree_entries_fst by simp
      then show ?thesis by (intro iffD2 [OF map_of_inject_set]) (simp_all add: rev_map [symmetric])
    qed
    have "map_of (rev (?bs @ ?ms)) n = (case map_of ?ms n of None \<Rightarrow> map_of ?bs n | Some v \<Rightarrow> Some v)"
      by (simp add: map_add_def rev)
    moreover have kind: "\<And>r s. r \<in> set (below d (mem @ t)) \<Longrightarrow> s \<in> set (below d (mem @ t)) \<Longrightarrow> first_seg r = first_seg s
        \<Longrightarrow> (CHR ''/'' \<in> set r) = (CHR ''/'' \<in> set s)" by (rule entry_kind [OF assms])
    ultimately have m: "the (map_of (rev (?bs @ ?ms)) n) =
        (if n \<in> first_seg ` set (below d mem) then list_ex (\<lambda>r. first_seg r = n \<and> CHR ''/'' \<in> set r) (below d mem)
         else list_ex (\<lambda>r. first_seg r = n \<and> CHR ''/'' \<in> set r) (below d t))"
      using that by (auto simp: tree_entries_at)
    show ?thesis
    proof (cases "n \<in> first_seg ` set (below d mem)")
      case True
      then obtain r where r: "r \<in> set (below d mem)" "n = first_seg r" by auto
      have ex: "list_ex (\<lambda>r. first_seg r = n \<and> CHR ''/'' \<in> set r) xs = (CHR ''/'' \<in> set r)"
        if xs: "r \<in> set xs" "set xs \<subseteq> set (below d (mem @ t))" for xs
      proof (rule list_ex_class [where f = first_seg and C = "\<lambda>s. CHR ''/'' \<in> set s" and r = r])
        fix s assume "s \<in> set xs" "first_seg s = n"
        with xs r show "(CHR ''/'' \<in> set s) = (CHR ''/'' \<in> set r)" by (intro kind) blast+
      qed (use xs(1) r(2) in simp_all)
      have "list_ex (\<lambda>r. first_seg r = n \<and> CHR ''/'' \<in> set r) (below d (mem @ t)) = (CHR ''/'' \<in> set r)"
        "list_ex (\<lambda>r. first_seg r = n \<and> CHR ''/'' \<in> set r) (below d mem) = (CHR ''/'' \<in> set r)"
        by (rule ex, use r(1) in simp, simp)+
      then show ?thesis using True m by simp
    next
      case False
      then have "list_ex (\<lambda>r. first_seg r = n \<and> CHR ''/'' \<in> set r) (below d mem) = False" by (auto simp: list_ex_iff)
      then show ?thesis using False m by simp
    qed
  qed
  then show ?thesis unfolding merge_entries_def tree_entries_def [of "mem @ t"] ns by (auto intro!: map_cong)
qed

lemma merge_alone:
  assumes "wf_tree t"
  shows "merge_entries [] (tree_entries t d) = tree_entries t d" "merge_entries (tree_entries t d) [] = tree_entries t d"
proof -
  have "tree_entries [] d = []" by (simp add: tree_entries_Nil below_def)
  with merge_is_union [of t "[]" d] merge_is_union [of "[]" t d] assms
  show "merge_entries [] (tree_entries t d) = tree_entries t d" "merge_entries (tree_entries t d) [] = tree_entries t d" by simp_all
qed

lemma overlay_tree:
  assumes "wf_tree (mem @ t)"
  shows "overlay (tree_fs t) mem = tree_fs (mem @ t)"
proof -
  have "fs_list (overlay (tree_fs t) mem) d = fs_list (tree_fs (mem @ t)) d" for d
  proof -
    have wf: "wf_tree t" "wf_tree mem" using assms by (auto simp: wf_tree_def)
    have e: "tree_entries (mem @ t) d = [] \<longleftrightarrow> tree_entries mem d = [] \<and> tree_entries t d = []"
      by (simp add: tree_entries_Nil)
    have "tree_entries t d = [] \<Longrightarrow> tree_entries (mem @ t) d = tree_entries mem d"
      "tree_entries mem d = [] \<Longrightarrow> tree_entries (mem @ t) d = tree_entries t d"
      using merge_is_union [OF assms, of d] merge_alone [OF wf(1), of d] merge_alone [OF wf(2), of d] by simp_all
    then show ?thesis using e merge_is_union [OF assms, of d] merge_alone [OF wf(1), of d] merge_alone [OF wf(2), of d]
      by (auto simp: overlay_def tree_fs_def)
  qed
  moreover have "fs_read (overlay (tree_fs t) mem) p = fs_read (tree_fs (mem @ t)) p" for p
    by (auto simp: overlay_def tree_fs_def map_add_def split: option.split)
  ultimately show ?thesis by (auto intro!: file_system.equality)
qed

section \<open>Loading a plain tree\<close>

text \<open>The names a load reads in a directory, in order.\<close>

definition tree_names :: "plain_tree \<Rightarrow> string \<Rightarrow> string list" where
  "tree_names t d =
     filter (\<lambda>n. \<not> has_prefix n ''.'') (sort (remdups (filter (\<lambda>r. CHR ''/'' \<notin> set r) (below d t))))"

definition file_at :: "(string \<Rightarrow> string \<Rightarrow> string + 'a) \<Rightarrow> plain_tree \<Rightarrow> string \<Rightarrow> 'a option" where
  "file_at parse t path =
     (case map_of t path of None \<Rightarrow> None
      | Some raw \<Rightarrow> if raw = [] then None else (case parse path raw of Inl _ \<Rightarrow> None | Inr x \<Rightarrow> Some x))"

lemma each_entry_iff:
  "each_entry tbl fs dir parse es = Inr xs \<longleftrightarrow>
     list_all2 (\<lambda>n x. record_name n \<and> (\<exists>raw. read_record fs (path_join dir n) = Inr raw \<and> parse (path_join dir n) raw = Inr x))
       (map fst (filter (\<lambda>(n, is_dir). \<not> is_dir \<and> \<not> has_prefix n ''.'') es)) xs"
proof (induction es arbitrary: xs)
  case (Cons e es)
  obtain n k where e: "e = (n, k)" by fastforce
  have "each_entry tbl fs dir parse (e # es) = Inr xs \<longleftrightarrow>
      (if k \<or> has_prefix n ''.'' then each_entry tbl fs dir parse es = Inr xs
       else \<exists>y ys. xs = y # ys \<and> record_name n
         \<and> (\<exists>raw. read_record fs (path_join dir n) = Inr raw \<and> parse (path_join dir n) raw = Inr y)
         \<and> each_entry tbl fs dir parse es = Inr ys)"
    by (auto simp: e split: sum.splits)
  also have "\<dots> = list_all2 (\<lambda>n x. record_name n \<and> (\<exists>raw. read_record fs (path_join dir n) = Inr raw \<and> parse (path_join dir n) raw = Inr x))
       (map fst (filter (\<lambda>(n, is_dir). \<not> is_dir \<and> \<not> has_prefix n ''.'') (e # es))) xs"
    unfolding Cons.IH by (cases xs) (auto simp: e)
  finally show ?case .
qed auto

lemma tree_names_entries:
  assumes "wf_tree t"
  shows "map fst (filter (\<lambda>(n, is_dir). \<not> is_dir \<and> \<not> has_prefix n ''.'') (tree_entries t d)) = tree_names t d"
proof -
  let ?D = "\<lambda>n. list_ex (\<lambda>r. first_seg r = n \<and> CHR ''/'' \<in> set r) (below d t)"
  have "map fst (filter (\<lambda>(n, is_dir). \<not> is_dir \<and> \<not> has_prefix n ''.'') (tree_entries t d))
      = filter (\<lambda>n. \<not> ?D n \<and> \<not> has_prefix n ''.'') (sort (remdups (map first_seg (below d t))))"
    by (simp add: tree_entries_def filter_map comp_def)
  also have "\<dots> = filter (\<lambda>n. \<not> has_prefix n ''.'') (filter (\<lambda>n. \<not> ?D n) (sort (remdups (map first_seg (below d t)))))"
    by (simp add: conj_commute)
  also have "filter (\<lambda>n. \<not> ?D n) (sort (remdups (map first_seg (below d t)))) = sort (remdups (filter (\<lambda>r. CHR ''/'' \<notin> set r) (below d t)))"
  proof (rule sorted_distinct_set_unique)
    show "set (filter (\<lambda>n. \<not> ?D n) (sort (remdups (map first_seg (below d t))))) = set (sort (remdups (filter (\<lambda>r. CHR ''/'' \<notin> set r) (below d t))))"
    proof (rule set_eqI)
      fix n
      show "n \<in> set (filter (\<lambda>n. \<not> ?D n) (sort (remdups (map first_seg (below d t)))))
          \<longleftrightarrow> n \<in> set (sort (remdups (filter (\<lambda>r. CHR ''/'' \<notin> set r) (below d t))))"
      proof
        assume "n \<in> set (filter (\<lambda>n. \<not> ?D n) (sort (remdups (map first_seg (below d t)))))"
        then obtain r where r: "r \<in> set (below d t)" "n = first_seg r" "\<not> ?D n" by auto
        then have "CHR ''/'' \<notin> set r" by (auto simp: list_ex_iff)
        with r first_seg_whole show "n \<in> set (sort (remdups (filter (\<lambda>r. CHR ''/'' \<notin> set r) (below d t))))" by auto
      next
        assume "n \<in> set (sort (remdups (filter (\<lambda>r. CHR ''/'' \<notin> set r) (below d t))))"
        then have n: "n \<in> set (below d t)" "CHR ''/'' \<notin> set n" by auto
        then have "first_seg n = n" by (simp add: first_seg_whole)
        moreover have "\<not> ?D n"
        proof
          assume "?D n"
          then obtain s where "s \<in> set (below d t)" "first_seg s = n" "CHR ''/'' \<in> set s" by (auto simp: list_ex_iff)
          with entry_kind [OF assms n(1), of s] n(2) \<open>first_seg n = n\<close> show False by simp
        qed
        ultimately show "n \<in> set (filter (\<lambda>n. \<not> ?D n) (sort (remdups (map first_seg (below d t)))))" using n(1) by force
      qed
    qed
  qed (simp_all add: sorted_wrt_filter)
  finally show ?thesis by (simp add: tree_names_def)
qed

lemma tree_name_facts:
  assumes "n \<in> set (tree_names t d)"
  shows "CHR ''/'' \<notin> set n" "\<not> has_prefix n ''.''" "d @ slash @ n \<in> fst ` set t"
  using assms by (auto simp: tree_names_def in_below)

lemma tree_names_distinct: "distinct (tree_names t d)" "sorted (tree_names t d)"
  by (simp_all add: tree_names_def sorted_wrt_filter)

text \<open>A load of a tree reads each of those names.\<close>

lemma each_tree:
  assumes "wf_tree t" and "dir \<in> set record_dirs"
  shows "each_textproto tbl (tree_fs t) dir parse = Inr xs \<longleftrightarrow>
     list_all record_name (tree_names t dir)
     \<and> map (\<lambda>n. file_at parse t (dir @ slash @ n)) (tree_names t dir) = map Some xs"
proof -
  have "each_textproto tbl (tree_fs t) dir parse = Inr xs \<longleftrightarrow> each_entry tbl (tree_fs t) dir parse (tree_entries t dir) = Inr xs"
    by (auto simp: each_textproto_def tree_fs_def)
  also have "\<dots> \<longleftrightarrow> list_all2 (\<lambda>n x. record_name n \<and> (\<exists>raw. read_record (tree_fs t) (path_join dir n) = Inr raw \<and> parse (path_join dir n) raw = Inr x))
      (tree_names t dir) xs"
    unfolding each_entry_iff tree_names_entries [OF assms(1)] ..
  also have "\<dots> \<longleftrightarrow> list_all2 (\<lambda>n x. record_name n \<and> file_at parse t (dir @ slash @ n) = Some x) (tree_names t dir) xs"
  proof (rule list.rel_cong)
    fix n x assume "n \<in> set (tree_names t dir)"
    note f = tree_name_facts [OF this]
    show "(record_name n \<and> (\<exists>raw. read_record (tree_fs t) (path_join dir n) = Inr raw \<and> parse (path_join dir n) raw = Inr x))
        = (record_name n \<and> file_at parse t (dir @ slash @ n) = Some x)"
    proof (cases "record_name n")
      case True
      have p: "path_join dir n = dir @ slash @ n" by (rule record_path [OF assms(2) f(1,2) record_name_nonempty [OF True]])
      show ?thesis unfolding p by (auto simp: file_at_def read_record_def tree_fs_def split: option.splits sum.splits)
    qed simp
  qed simp_all
  also have "\<dots> \<longleftrightarrow> list_all record_name (tree_names t dir) \<and> map (\<lambda>n. file_at parse t (dir @ slash @ n)) (tree_names t dir) = map Some xs"
    by (auto simp: list_all2_conv_all_nth list_all_length list_eq_iff_nth_eq)
  finally show ?thesis .
qed

lemma record_dirs_apart:
  assumes "dir \<in> set record_dirs" "dir' \<in> set record_dirs" "dir \<noteq> dir'"
  shows "\<not> has_prefix (dir @ slash @ n) (dir' @ slash)"
  using assms by (auto simp: record_dirs_def bindings_dir_def gaps_dir_def attestations_dir_def)

lemma below_Cons: "below d ((p, c) # t) = (if has_prefix p (d @ slash) then drop (length (d @ slash)) p # below d t else below d t)"
  by (simp add: below_def)

text \<open>One more visible file: its directory gains its name, the others keep theirs.\<close>

lemma tree_names_add:
  assumes "dir \<in> set record_dirs" "dir' \<in> set record_dirs" and "visible_name n"
  shows "set (tree_names ((dir @ slash @ n, c) # t) dir') = (if dir' = dir then insert n (set (tree_names t dir')) else set (tree_names t dir'))"
    "dir' \<noteq> dir \<Longrightarrow> tree_names ((dir @ slash @ n, c) # t) dir' = tree_names t dir'"
    "n \<in> set (tree_names t dir) \<Longrightarrow> tree_names ((dir @ slash @ n, c) # t) dir = tree_names t dir"
proof -
  have own: "below dir ((dir @ slash @ n, c) # t) = n # below dir t" by (simp add: below_Cons has_prefix_iff)
  have other: "dir' \<noteq> dir \<Longrightarrow> below dir' ((dir @ slash @ n, c) # t) = below dir' t"
    using record_dirs_apart [OF assms(1,2), of n] by (simp add: below_Cons)
  show "dir' \<noteq> dir \<Longrightarrow> tree_names ((dir @ slash @ n, c) # t) dir' = tree_names t dir'"
    using other by (simp add: tree_names_def)
  then show "set (tree_names ((dir @ slash @ n, c) # t) dir') = (if dir' = dir then insert n (set (tree_names t dir')) else set (tree_names t dir'))"
    using assms(3) own by (cases "dir' = dir") (auto simp: tree_names_def visible_name_def)
  show "n \<in> set (tree_names t dir) \<Longrightarrow> tree_names ((dir @ slash @ n, c) # t) dir = tree_names t dir"
    using own by (auto simp: tree_names_def)
qed

section \<open>A store with one more write\<close>

definition set_at :: "codec \<Rightarrow> plain_tree \<Rightarrow> string \<Rightarrow> binding list" where
  "set_at cd t n =
     (case file_at (parse_binding_file cd) t (bindings_dir @ slash @ n) of None \<Rightarrow> [] | Some bf \<Rightarrow> bf_set bf)"

lemma mset_concat_map: "mset (concat xs) = sum_list (map mset xs)"
  by (induction xs) simp_all

lemma load_bindings:
  assumes "wf_tree t" and "load tbl cd (tree_fs t) = Inr st"
  shows "list_all record_name (tree_names t bindings_dir)"
    "map (\<lambda>n. file_at (parse_binding_file cd) t (bindings_dir @ slash @ n)) (tree_names t bindings_dir) = map Some (st_bindings st)"
    "mset (store_bindings st) = (\<Sum>n \<in> set (tree_names t bindings_dir). mset (set_at cd t n))"
proof -
  have "each_textproto tbl (tree_fs t) bindings_dir (parse_binding_file cd) = Inr (st_bindings st)"
    using assms(2) by (auto simp: load_def split: sum.splits)
  then show names: "list_all record_name (tree_names t bindings_dir)" and
    files: "map (\<lambda>n. file_at (parse_binding_file cd) t (bindings_dir @ slash @ n)) (tree_names t bindings_dir) = map Some (st_bindings st)"
    by (auto simp: each_tree [OF assms(1)] record_dirs_def)
  have "map bf_set (st_bindings st) = map (set_at cd t) (tree_names t bindings_dir)"
  proof -
    have "map bf_set (st_bindings st) = map (\<lambda>x. case x of None \<Rightarrow> [] | Some bf \<Rightarrow> bf_set bf) (map Some (st_bindings st))" by simp
    also have "\<dots> = map (set_at cd t) (tree_names t bindings_dir)" unfolding files [symmetric] by (simp add: set_at_def)
    finally show ?thesis .
  qed
  then have "mset (store_bindings st) = sum_list (map (\<lambda>n. mset (set_at cd t n)) (tree_names t bindings_dir))"
    unfolding store_bindings_def mset_concat_map by (simp add: comp_def)
  then show "mset (store_bindings st) = (\<Sum>n \<in> set (tree_names t bindings_dir). mset (set_at cd t n))"
    by (simp add: sum_list_distinct_conv_sum_set tree_names_distinct)
qed

lemma load_files:
  assumes "wf_tree t" and "load tbl cd (tree_fs t) = Inr st" and "bf \<in> set (st_bindings st)"
  obtains n where "n \<in> set (tree_names t bindings_dir)" "bf_path bf = bindings_dir @ slash @ n"
    "map_of t (bf_path bf) = Some (bf_raw bf)" "bf_set bf = set_at cd t n" "cd_bindings cd (bf_raw bf) = Inr (bf_set bf)" "bf_raw bf \<noteq> []"
proof -
  from assms(3) have "Some bf \<in> set (map Some (st_bindings st))" by simp
  then obtain n where n: "n \<in> set (tree_names t bindings_dir)" "file_at (parse_binding_file cd) t (bindings_dir @ slash @ n) = Some bf"
    unfolding load_bindings(2) [OF assms(1,2), symmetric] by auto
  from n(2) have "bf_path bf = bindings_dir @ slash @ n" "map_of t (bindings_dir @ slash @ n) = Some (bf_raw bf)"
    "cd_bindings cd (bf_raw bf) = Inr (bf_set bf)" "bf_raw bf \<noteq> []"
    by (auto simp: file_at_def parse_binding_file_def parsing_def split: option.splits if_splits sum.splits)
  with n show thesis by (intro that [of n]) (simp_all add: set_at_def)
qed

lemma load_names:
  assumes "wf_tree t" and "load tbl cd (tree_fs t) = Inr st" and "n \<in> set (tree_names t bindings_dir)"
  obtains bf where "bf \<in> set (st_bindings st)" "bf_path bf = bindings_dir @ slash @ n" "bf_set bf = set_at cd t n"
proof -
  from assms(3) have "file_at (parse_binding_file cd) t (bindings_dir @ slash @ n) \<in> set (map Some (st_bindings st))"
    unfolding load_bindings(2) [OF assms(1,2), symmetric] by simp
  then obtain bf where bf: "bf \<in> set (st_bindings st)" "file_at (parse_binding_file cd) t (bindings_dir @ slash @ n) = Some bf" by auto
  then have "bf_path bf = bindings_dir @ slash @ n"
    by (auto simp: file_at_def parse_binding_file_def parsing_def split: option.splits if_splits sum.splits)
  with bf show thesis by (intro that [of bf]) (simp_all add: set_at_def)
qed

text \<open>
  Writing one visible binding file: the load then succeeds, the claims of that file are those the
  decoder reads from it, and nothing else of the store changes.
\<close>

lemma load_write:
  assumes wf: "wf_tree ((bindings_dir @ slash @ n, c) # t)" and ld: "load tbl cd (tree_fs t) = Inr st"
    and n: "visible_name n" and c: "c \<noteq> []" "cd_bindings cd c = Inr bs"
  obtains bfs where "load tbl cd (tree_fs ((bindings_dir @ slash @ n, c) # t)) = Inr (st\<lparr>st_bindings := bfs\<rparr>)"
    "mset (concat (map bf_set bfs)) + (if n \<in> set (tree_names t bindings_dir) then mset (set_at cd t n) else {#}) = mset (store_bindings st) + mset bs"
proof -
  let ?p = "bindings_dir @ slash @ n" and ?t = "(bindings_dir @ slash @ n, c) # t"
  have wft: "wf_tree t" using wf by (auto simp: wf_tree_def)
  have dirs: "bindings_dir \<in> set record_dirs" "gaps_dir \<in> set record_dirs" "attestations_dir \<in> set record_dirs"
    "gaps_dir \<noteq> bindings_dir" "attestations_dir \<noteq> bindings_dir"
    by (simp_all add: record_dirs_def bindings_dir_def gaps_dir_def attestations_dir_def)
  have other: "map_of ?t (dir @ slash @ m) = map_of t (dir @ slash @ m)" if "dir \<in> {gaps_dir, attestations_dir}" for dir m
    using that by (auto simp: bindings_dir_def gaps_dir_def attestations_dir_def)
  have same: "each_textproto tbl (tree_fs ?t) dir parse = Inr xs \<longleftrightarrow> each_textproto tbl (tree_fs t) dir parse = Inr xs"
    if "dir \<in> {gaps_dir, attestations_dir}" for dir parse and xs :: "'z list"
  proof -
    have d: "dir \<in> set record_dirs" "dir \<noteq> bindings_dir" using that dirs by auto
    show ?thesis unfolding each_tree [OF wf d(1)] each_tree [OF wft d(1)] tree_names_add(2) [OF dirs(1) d(1) n d(2)]
      by (simp only: file_at_def other [OF that])
  qed
  have reg: "tombstones_path \<noteq> ?p" "manifest_path \<noteq> ?p" by (simp_all add: tombstones_path_def manifest_path_def bindings_dir_def)
  then have rd: "fs_read (tree_fs ?t) tombstones_path = fs_read (tree_fs t) tombstones_path"
    "fs_read (tree_fs ?t) manifest_path = fs_read (tree_fs t) manifest_path" by (simp_all add: tree_fs_def)
  have names: "set (tree_names ?t bindings_dir) = insert n (set (tree_names t bindings_dir))"
    using tree_names_add(1) [OF dirs(1) dirs(1) n, of c t] by simp
  have at: "file_at (parse_binding_file cd) ?t (bindings_dir @ slash @ m) =
      (if m = n then Some \<lparr>bf_path = ?p, bf_raw = c, bf_set = bs\<rparr> else file_at (parse_binding_file cd) t (bindings_dir @ slash @ m))" for m
    using c by (simp add: file_at_def parse_binding_file_def parsing_def)
  have here: "file_at (parse_binding_file cd) t (bindings_dir @ slash @ m) \<noteq> None" if "m \<in> set (tree_names t bindings_dir)" for m
  proof -
    from that have "file_at (parse_binding_file cd) t (bindings_dir @ slash @ m) \<in> set (map Some (st_bindings st))"
      unfolding load_bindings(2) [OF wft ld, symmetric] by simp
    then show ?thesis by auto
  qed
  define bfs where "bfs = map (\<lambda>m. the (file_at (parse_binding_file cd) ?t (bindings_dir @ slash @ m))) (tree_names ?t bindings_dir)"
  have "map (\<lambda>m. file_at (parse_binding_file cd) ?t (bindings_dir @ slash @ m)) (tree_names ?t bindings_dir) = map Some bfs"
    unfolding bfs_def map_map comp_def
  proof (rule map_cong [OF refl])
    fix m assume "m \<in> set (tree_names ?t bindings_dir)"
    then have "m = n \<or> m \<in> set (tree_names t bindings_dir)" unfolding names by simp
    then show "file_at (parse_binding_file cd) ?t (bindings_dir @ slash @ m) = Some (the (file_at (parse_binding_file cd) ?t (bindings_dir @ slash @ m)))"
      unfolding at using here [of m] by auto
  qed
  moreover have "list_all record_name (tree_names ?t bindings_dir)"
    using load_bindings(1) [OF wft ld] n unfolding list_all_iff names visible_name_def by blast
  ultimately have bind: "each_textproto tbl (tree_fs ?t) bindings_dir (parse_binding_file cd) = Inr bfs"
    using each_tree [OF wf dirs(1)] by blast
  have loaded: "load tbl cd (tree_fs ?t) = Inr (st\<lparr>st_bindings := bfs\<rparr>)"
  proof -
    from ld obtain gfs afs where g: "each_textproto tbl (tree_fs t) gaps_dir (parse_gap_file cd) = Inr gfs"
      "each_textproto tbl (tree_fs t) attestations_dir (parse_attestation_file cd) = Inr afs"
      by (auto simp: load_def split: sum.splits)
    then have g': "each_textproto tbl (tree_fs ?t) gaps_dir (parse_gap_file cd) = Inr gfs"
      "each_textproto tbl (tree_fs ?t) attestations_dir (parse_attestation_file cd) = Inr afs" using same by auto
    have tomb: "load_tombstones cd (tree_fs ?t) = load_tombstones cd (tree_fs t)"
      "read_record (tree_fs ?t) manifest_path = read_record (tree_fs t) manifest_path"
      by (simp_all only: load_tombstones_def read_record_def rd)
    from ld g show ?thesis unfolding load_def bind g' tomb rd by (auto split: sum.splits)
  qed
  from load_bindings(3) [OF wf loaded] have m: "mset (concat (map bf_set bfs)) = (\<Sum>m \<in> insert n (set (tree_names t bindings_dir)). mset (set_at cd ?t m))"
    unfolding names by (simp add: store_bindings_def)
  have st: "set_at cd ?t m = (if m = n then bs else set_at cd t m)" for m unfolding set_at_def at by simp
  have "mset (concat (map bf_set bfs)) = mset bs + (\<Sum>m \<in> set (tree_names t bindings_dir) - {n}. mset (set_at cd t m))"
    unfolding m st by (simp add: sum.insert_remove)
  moreover have "mset (store_bindings st) = (if n \<in> set (tree_names t bindings_dir) then mset (set_at cd t n) else {#})
      + (\<Sum>m \<in> set (tree_names t bindings_dir) - {n}. mset (set_at cd t m))"
    unfolding load_bindings(3) [OF wft ld] by (auto simp: sum.remove)
  ultimately have "mset (concat (map bf_set bfs)) + (if n \<in> set (tree_names t bindings_dir) then mset (set_at cd t n) else {#})
      = mset (store_bindings st) + mset bs" by simp
  with loaded show thesis by (rule that)
qed

end
