(* ===== verification/Bind.thy ===== *)
theory Bind
  imports Load Apply
begin

text \<open>
  Authoring claims, \<open>internal/author/author.go\<close>: one binding (bind), a batch of them over an
  overlay of their own pending writes (Binds), their removal (Unbind), the target file under the
  manifest's layout, and the scaffold of a manifest (Init); with the symbol sets of
  \<open>symbols.go\<close> and the shapes of \<open>pinshapes.go\<close>. The compiled corpus is a function of the file
  system it is compiled from, the backends are those of the verification.
\<close>

section \<open>The target file\<close>

record bind_request =
  bq_requirement :: string
  bq_symbol :: string
  bq_backend :: string
  bq_role :: binding_role
  bq_file :: string
  bq_clause :: string

text \<open>\<open>strings.Contains(clean, "..")\<close>.\<close>

fun has_dots :: "string \<Rightarrow> bool" where
  "has_dots (a # b # s) = (a = CHR ''.'' \<and> b = CHR ''.'' \<or> has_dots (b # s))"
| "has_dots _ = False"

definition explicit_ok :: "string \<Rightarrow> bool" where
  "explicit_ok file \<longleftrightarrow>
     path_clean file = file \<and> has_prefix file (bindings_dir @ slash) \<and> has_suffix file ''.textproto'' \<and> \<not> has_dots file"

definition binding_path :: "(nat \<Rightarrow> nat) \<Rightarrow> string \<Rightarrow> string" where
  "binding_path lt rid = path_join bindings_dir (trim_prefix (go_lower lt rid) ''req-'' @ ''.textproto'')"

definition default_binding_file :: "string \<Rightarrow> string" where
  "default_binding_file rid =
     (let segs = split_on CHR ''-'' rid;
          name = (if 2 \<le> length segs then segs ! 1 else ''bindings'') in
      path_join bindings_dir (name @ ''.textproto''))"

definition resolve_binding_file ::
  "(nat \<Rightarrow> nat) \<Rightarrow> codec \<Rightarrow> file_system \<Rightarrow> string \<Rightarrow> string \<Rightarrow> string + string" where
  "resolve_binding_file lt cd fs rid explicit =
     (if explicit \<noteq> [] \<and> \<not> explicit_ok explicit
      then Inl (''binding file must be a clean .textproto path under '' @ bindings_dir)
      else case load_manifest cd fs of Inl e \<Rightarrow> Inl e
      | Inr m \<Rightarrow>
          if fm_layout m = LAYOUT_PER_REQUIREMENT
          then let derived = binding_path lt rid in
            if explicit \<noteq> [] \<and> explicit \<noteq> derived
            then Inl (''manifest declares binding_layout: BINDING_LAYOUT_PER_REQUIREMENT; claim on '' @ rid
                   @ '' must use '' @ derived @ '', not '' @ explicit)
            else Inr derived
          else if explicit \<noteq> [] then Inr explicit
          else Inr (default_binding_file rid))"

section \<open>One claim\<close>

definition known_backends :: "string list" where
  "known_backends = [''go'', ''proto'']"

definition blank_binding :: binding where
  "blank_binding =
     \<lparr>b_requirement_id = [], b_content_hash = [], b_source_hash = [], b_backend = [], b_symbol = [],
      b_role = ROLE_UNSPECIFIED, b_shape_hash = [], b_clause = No_Clause\<rparr>"

definition role_name :: "(nat \<Rightarrow> nat) \<Rightarrow> binding_role \<Rightarrow> string" where
  "role_name lt r = go_lower lt (trim_prefix (role_string r) ''BINDING_ROLE_'')"

text \<open>The checks before a backend is asked: the requirement, the claim with its clause, the file.\<close>

definition bind_target ::
  "(nat \<Rightarrow> bool) \<Rightarrow> (nat \<Rightarrow> nat) \<Rightarrow> codec \<Rightarrow> string + spec \<Rightarrow> file_system \<Rightarrow> bind_request
     \<Rightarrow> string + requirement \<times> binding \<times> string" where
  "bind_target tbl lt cd corpus fs rq =
     (let rid = bq_requirement rq in
      case corpus of Inl e \<Rightarrow> Inl e
      | Inr sp \<Rightarrow> (case by_id sp rid of None \<Rightarrow> Inl (''requirement '' @ rid @ '' is not in the corpus'')
      | Some target \<Rightarrow> (case load_manifest cd fs of Inl e \<Rightarrow> Inl e
      | Inr m \<Rightarrow>
          if trim_space (bq_clause rq) = []
             \<and> requires_clause_scope (Some target) (bq_role rq) (mf_allow_whole_clause_claims (fm_rest m))
          then Inl (rid @ '' is clause-structured and requires a --clause (mcp: clause) scope for ''
                 @ role_name lt (bq_role rq) @ '' claims: '' @ clauses_offered (Some target))
          else case set_clause tbl blank_binding (bq_clause rq) of Inl e \<Rightarrow> Inl (''claim on '' @ rid @ '': '' @ e)
      | Inr made \<Rightarrow>
          if resolve_clause (Some target) made = None
          then Inl (rid @ '' declares no '' @ clause_name made @ '': '' @ clauses_offered (Some target))
          else if bq_role rq = ROLE_UNSPECIFIED then Inl ''a role is required (implements, tests, or proves)''
          else if bq_symbol rq = [] \<or> bq_backend rq = [] then Inl ''a backend and symbol are required''
          else if bq_backend rq \<notin> set known_backends
          then Inl (''unknown backend '' @ quote tbl (bq_backend rq) @ '' (go, proto)'')
          else case resolve_binding_file lt cd fs rid (bq_file rq) of Inl e \<Rightarrow> Inl e
      | Inr file \<Rightarrow> Inr (target, made, file))))"

text \<open>The backend's answer: the shape of the symbol, or why the claim cannot stand.\<close>

definition bind_shape :: "(string \<rightharpoonup> backend) \<Rightarrow> bind_request \<Rightarrow> string + string" where
  "bind_shape backends rq =
     (let symbol = bq_symbol rq; proves = (bq_role rq = ROLE_PROVES) in
      case backends (bq_backend rq) of
        None \<Rightarrow>
          if proves
          then Inl (''no '' @ bq_backend rq @ '' verifier is loaded to discharge '' @ symbol
                 @ '' as a proof; a proof claim that cannot be checked at write time is refused, not recorded'')
          else Inr []
      | Some be \<Rightarrow>
          (case be_resolve be symbol of
             Inl e \<Rightarrow> Inl (''resolving '' @ symbol @ '': '' @ e)
           | Inr (res, shape) \<Rightarrow>
               if res = NotFound then Inl (''symbol '' @ symbol @ '' not found'')
               else if res = GeneratedFile
               then Inl (''symbol '' @ symbol @ '' is declared in a generated file; bind the generating artifact instead'')
               else if proves \<and> \<not> (case be_classifier be of None \<Rightarrow> False | Some cl \<Rightarrow> cl symbol = AnalyzerProof)
               then Inl (''the '' @ bq_backend rq @ '' backend cannot discharge '' @ symbol
                      @ '' as a proof: bind an analyzer test (one invoking stipulate/structural), or use role tests'')
               else Inr shape))"

text \<open>The file that already holds a claim of the same identity, the first of them.\<close>

definition twin_file :: "requirement \<Rightarrow> binding \<Rightarrow> store \<Rightarrow> binding_file option" where
  "twin_file target b st =
     find (\<lambda>bf. list_ex (\<lambda>prior. claim_identity (Some target) prior = claim_identity (Some target) b) (bf_set bf)) (st_bindings st)"

definition claimed :: "bind_request \<Rightarrow> binding \<Rightarrow> binding" where
  "claimed rq made = made\<lparr>b_requirement_id := bq_requirement rq, b_backend := bq_backend rq,
     b_symbol := bq_symbol rq, b_role := bq_role rq\<rparr>"

definition stamped_claim :: "requirement \<Rightarrow> string \<Rightarrow> binding \<Rightarrow> binding" where
  "stamped_claim target shape b = b\<lparr>b_content_hash := req_content_hash target, b_source_hash := req_source_hash target, b_shape_hash := shape\<rparr>"

definition bind ::
  "(nat \<Rightarrow> bool) \<Rightarrow> (nat \<Rightarrow> nat) \<Rightarrow> codec \<Rightarrow> (file_system \<Rightarrow> string + spec) \<Rightarrow> (string \<rightharpoonup> backend) \<Rightarrow> file_system \<Rightarrow> bind_request
     \<Rightarrow> string + update" where
  "bind tbl lt cd compiled backends fs rq =
     (case bind_target tbl lt cd (compiled fs) fs rq of Inl e \<Rightarrow> Inl e
      | Inr (target, made, file) \<Rightarrow> (case bind_shape backends rq of Inl e \<Rightarrow> Inl e
      | Inr shape \<Rightarrow> (case load tbl cd fs of Inl e \<Rightarrow> Inl e
      | Inr st \<Rightarrow>
          let b = claimed rq made in
          (case twin_file target b st of
             Some bf \<Rightarrow> Inl (''identical binding already exists in '' @ bf_path bf)
           | None \<Rightarrow>
               (case add_binding tbl st file (stamped_claim target shape b) of
                  (st', Inl e) \<Rightarrow> Inl e
                | (st', Inr content) \<Rightarrow> Inr (stamp_prior st' (write_to file content)))))))"

section \<open>A batch\<close>

text \<open>
  The pending writes, latest first, are both the overlay the next claim is validated against and
  the updates of the batch.
\<close>

definition batch_tree :: "update list \<Rightarrow> plain_tree" where
  "batch_tree ups = map (\<lambda>u. (up_path u, case up_content u of None \<Rightarrow> [] | Some c \<Rightarrow> c)) ups"

fun bind_all ::
  "(file_system \<Rightarrow> bind_request \<Rightarrow> string + update) \<Rightarrow> file_system \<Rightarrow> nat \<Rightarrow> update list \<Rightarrow> bind_request list
     \<Rightarrow> string + update list" where
  "bind_all one fs i ups [] = Inr ups"
| "bind_all one fs i ups (rq # rqs) =
     (case one (overlay fs (batch_tree ups)) rq of
        Inl e \<Rightarrow> Inl (''claim '' @ format_uint (i + 1) @ '' ('' @ bq_requirement rq @ '' '' @ bq_symbol rq @ ''): '' @ e)
      | Inr up \<Rightarrow> bind_all one fs (i + 1) (up # ups) rqs)"

text \<open>The latest update of each path, by path, its prior read from the base store.\<close>

definition batch_updates :: "store \<Rightarrow> update list \<Rightarrow> update list" where
  "batch_updates base ups =
     (let latest = map_of (map (\<lambda>u. (up_path u, u)) ups);
          out = map (\<lambda>p. the (latest p)) (sort (remdups (map up_path ups))) in
      stamp_priors base (map (\<lambda>u. u\<lparr>up_prior := None, up_prior_absent := False\<rparr>) out))"

definition binds ::
  "(nat \<Rightarrow> bool) \<Rightarrow> (nat \<Rightarrow> nat) \<Rightarrow> codec \<Rightarrow> (file_system \<Rightarrow> string + spec) \<Rightarrow> (string \<rightharpoonup> backend) \<Rightarrow> file_system \<Rightarrow> bind_request list
     \<Rightarrow> string + update list" where
  "binds tbl lt cd compiled backends fs rqs =
     (if rqs = [] then Inl ''at least one claim is required''
      else case load tbl cd fs of Inl e \<Rightarrow> Inl e
      | Inr base \<Rightarrow> (case bind_all (bind tbl lt cd compiled backends) fs 0 [] rqs of Inl e \<Rightarrow> Inl e
      | Inr ups \<Rightarrow> Inr (batch_updates base ups)))"

section \<open>Removing claims\<close>

definition unbind_match :: "string \<Rightarrow> string \<Rightarrow> binding_role \<Rightarrow> string \<Rightarrow> binding \<Rightarrow> bool" where
  "unbind_match rid symbol role clause b \<longleftrightarrow>
     b_requirement_id b = rid \<and> (symbol = [] \<or> b_symbol b = symbol) \<and> (role = ROLE_UNSPECIFIED \<or> b_role b = role)
     \<and> (clause = [] \<or> clause_spelling b = clause)"

definition recorded_claims :: "(nat \<Rightarrow> nat) \<Rightarrow> store \<Rightarrow> string \<Rightarrow> string \<Rightarrow> string" where
  "recorded_claims lt st rid symbol =
     (let out = map (\<lambda>b. b_symbol b @ '' '' @ role_name lt (b_role b)
              @ (if clause_spelling b \<noteq> [] then '' clause '' @ clause_spelling b else '' (whole requirement)''))
            (filter (\<lambda>b. b_requirement_id b = rid \<and> (symbol = [] \<or> b_symbol b = symbol)) (store_bindings st)) in
      if out = [] then ''none'' else join (sort out) ''; '')"

text \<open>The generated \<open>BindingRole_name\<close>: an unnamed value has no name.\<close>

definition role_const :: "binding_role \<Rightarrow> string" where
  "role_const r = (case r of ROLE_NUM n \<Rightarrow> [] | _ \<Rightarrow> role_string r)"

definition removal_updates :: "store \<Rightarrow> removal \<Rightarrow> update list" where
  "removal_updates st r =
     concat (map (\<lambda>p. case rm_updates r p of None \<Rightarrow> [] | Some c \<Rightarrow> [write_to p c]) (remdups (map bf_path (st_bindings st))))
     @ map delete_at (rm_deletions r)"

definition unbind ::
  "(nat \<Rightarrow> bool) \<Rightarrow> (nat \<Rightarrow> nat) \<Rightarrow> codec \<Rightarrow> file_system \<Rightarrow> string \<Rightarrow> string \<Rightarrow> binding_role \<Rightarrow> string
     \<Rightarrow> string + update list \<times> nat" where
  "unbind tbl lt cd fs rid symbol role clause0 =
     (case load tbl cd fs of Inl e \<Rightarrow> Inl e
      | Inr st \<Rightarrow>
          let clause = trim_space clause0 in
          (case remove_bindings tbl st (unbind_match rid symbol role clause) of
             (st', Inl e) \<Rightarrow> Inl e
           | (st', Inr r) \<Rightarrow>
               if rm_removed r = 0
               then Inl (if clause \<noteq> []
                 then ''no binding matches '' @ rid @ '' + '' @ symbol @ '' ('' @ role_const role @ '') clause '' @ clause
                   @ ''; the recorded claims there are '' @ recorded_claims lt st' rid symbol
                 else ''no binding matches '' @ rid @ '' + '' @ symbol @ '' ('' @ role_const role
                   @ ''); verify view=bindings lists the recorded rows'')
               else Inr (stamp_priors st' (sort_updates (removal_updates st' r)), rm_removed r)))"

section \<open>The scaffold of a manifest\<close>

text \<open>The first argument is what Stat of the manifest answers.\<close>

definition init_manifest :: "(nat \<Rightarrow> bool) \<Rightarrow> fs_fault option \<Rightarrow> string + update" where
  "init_manifest tbl stat =
     (case stat of
        None \<Rightarrow> Inl (manifest_path @ '' already exists; this is already a stipulator repository'')
      | Some (Fs_Fault e) \<Rightarrow> Inl e
      | Some (Not_Exist _) \<Rightarrow>
          Inr ((write_to manifest_path (''# proto-file: proto/stipulator/v1/manifest.proto'' @ nl
            @ ''# proto-message: stipulator.v1.Manifest'' @ nl @ nl @ ''include: '' @ quote tbl default_include @ nl))
            \<lparr>up_prior_absent := True\<rparr>))"

section \<open>The symbols of an operation\<close>

definition sorted_symbols :: "string list \<Rightarrow> string list" where
  "sorted_symbols syms = sort (remdups syms)"

definition bind_symbols :: "bind_request list \<Rightarrow> string \<Rightarrow> string list" where
  "bind_symbols rqs backend = sorted_symbols (map bq_symbol (filter (\<lambda>rq. bq_backend rq = backend) rqs))"

definition pin_symbols :: "store \<Rightarrow> string \<Rightarrow> string set \<Rightarrow> string list" where
  "pin_symbols st backend wanted =
     sorted_symbols (map b_symbol (filter (\<lambda>b. b_requirement_id b \<in> wanted \<and> b_backend b = backend) (store_bindings st)))"

text \<open>The shapes of the wanted bindings and the faults reported, in visit order.\<close>

definition shape_step ::
  "(string \<rightharpoonup> backend) \<Rightarrow> binding \<Rightarrow> (string \<rightharpoonup> string) \<times> (string \<times> string) list \<Rightarrow> (string \<rightharpoonup> string) \<times> (string \<times> string) list" where
  "shape_step backends b acc =
     (case backends (b_backend b) of
        None \<Rightarrow> acc
      | Some be \<Rightarrow>
          (case be_resolve be (b_symbol b) of
             Inl e \<Rightarrow> (fst acc, snd acc @ [(b_symbol b, e)])
           | Inr (Resolved, shape) \<Rightarrow> ((fst acc)(shape_key (b_backend b) (b_symbol b) \<mapsto> shape), snd acc)
           | Inr _ \<Rightarrow> acc))"

definition resolve_shapes ::
  "store \<Rightarrow> (string \<rightharpoonup> backend) \<Rightarrow> string set option \<Rightarrow> (string \<rightharpoonup> string) \<times> (string \<times> string) list" where
  "resolve_shapes st backends wanted =
     fold (shape_step backends)
       (filter (\<lambda>b. case wanted of None \<Rightarrow> True | Some w \<Rightarrow> b_requirement_id b \<in> w) (store_bindings st)) (Map.empty, [])"

section \<open>What a binding claims\<close>

definition claim_of :: "(nat \<Rightarrow> bool) \<Rightarrow> spec \<Rightarrow> (string \<rightharpoonup> backend) \<Rightarrow> bind_request \<Rightarrow> binding option" where
  "claim_of tbl sp backends rq =
     (case by_id sp (bq_requirement rq) of None \<Rightarrow> None
      | Some target \<Rightarrow> (case set_clause tbl blank_binding (bq_clause rq) of Inl _ \<Rightarrow> None
      | Inr made \<Rightarrow> (case bind_shape backends rq of Inl _ \<Rightarrow> None
      | Inr shape \<Rightarrow> Some (stamped_claim target shape (claimed rq made)))))"

lemma claim_fields [simp]:
  "b_requirement_id (stamped_claim target shape (claimed rq made)) = bq_requirement rq"
  "b_backend (stamped_claim target shape (claimed rq made)) = bq_backend rq"
  "b_symbol (stamped_claim target shape (claimed rq made)) = bq_symbol rq"
  "b_role (stamped_claim target shape (claimed rq made)) = bq_role rq"
  "b_clause (stamped_claim target shape (claimed rq made)) = b_clause made"
  "b_content_hash (stamped_claim target shape b) = req_content_hash target"
  "b_source_hash (stamped_claim target shape b) = req_source_hash target"
  "b_shape_hash (stamped_claim target shape b) = shape"
  by (simp_all add: stamped_claim_def claimed_def)

text \<open>A claim that was bound, with every check it passed.\<close>

definition bound_over ::
  "(nat \<Rightarrow> bool) \<Rightarrow> (nat \<Rightarrow> nat) \<Rightarrow> codec \<Rightarrow> spec \<Rightarrow> (string \<rightharpoonup> backend) \<Rightarrow> file_system \<Rightarrow> store \<Rightarrow> bind_request \<Rightarrow> binding \<Rightarrow> string \<Rightarrow> bool" where
  "bound_over tbl lt cd sp backends fs st rq b file \<longleftrightarrow>
     claim_of tbl sp backends rq = Some b
     \<and> by_id sp (bq_requirement rq) \<noteq> None
     \<and> resolve_clause (by_id sp (bq_requirement rq)) b \<noteq> None
     \<and> \<not> (trim_space (bq_clause rq) = [] \<and> requires_clause_scope (by_id sp (bq_requirement rq)) (bq_role rq) (st_allow_whole st))
     \<and> bq_role rq \<noteq> ROLE_UNSPECIFIED \<and> bq_symbol rq \<noteq> [] \<and> bq_backend rq \<in> set known_backends
     \<and> resolve_binding_file lt cd fs (bq_requirement rq) (bq_file rq) = Inr file
     \<and> (\<forall>prior \<in> set (store_bindings st). claim_identity (by_id sp (bq_requirement rq)) prior \<noteq> claim_identity (by_id sp (bq_requirement rq)) b)"

lemma resolve_clause_by_scope: "b_clause b = b_clause b' \<Longrightarrow> resolve_clause req b = resolve_clause req b'"
  by (simp add: resolve_clause_def)

lemma claim_identity_by_fields:
  "b_requirement_id b = b_requirement_id b' \<Longrightarrow> b_backend b = b_backend b' \<Longrightarrow> b_symbol b = b_symbol b' \<Longrightarrow> b_role b = b_role b'
    \<Longrightarrow> b_clause b = b_clause b' \<Longrightarrow> claim_identity req b = claim_identity req b'"
  by (simp add: claim_identity_def claim_identity_at_def claim_clause_key_def clause_key_def resolve_clause_by_scope [of b b'] split: option.split)

lemma load_allow_whole:
  "load tbl cd fs = Inr st \<Longrightarrow> load_manifest cd fs = Inr m \<Longrightarrow> st_allow_whole st = mf_allow_whole_clause_claims (fm_rest m)"
  by (auto simp: load_def load_manifest_def split: sum.splits if_splits)

lemma bind_bound:
  assumes "bind tbl lt cd compiled backends fs rq = Inr up"
  obtains sp st b p st' content where "compiled fs = Inr sp" "load tbl cd fs = Inr st"
    "bound_over tbl lt cd sp backends fs st rq b p"
    "add_binding tbl st p b = (st', Inr content)" "up = stamp_prior st' (write_to p content)"
proof -
  from assms obtain target made p shape st st' content where a:
    "bind_target tbl lt cd (compiled fs) fs rq = Inr (target, made, p)" "bind_shape backends rq = Inr shape" "load tbl cd fs = Inr st"
    "twin_file target (claimed rq made) st = None" "add_binding tbl st p (stamped_claim target shape (claimed rq made)) = (st', Inr content)"
    "up = stamp_prior st' (write_to p content)"
    by (auto simp: bind_def Let_def split: sum.splits option.splits prod.splits)
  from a(1) obtain sp m where t: "compiled fs = Inr sp" "by_id sp (bq_requirement rq) = Some target" "load_manifest cd fs = Inr m"
    "\<not> (trim_space (bq_clause rq) = [] \<and> requires_clause_scope (Some target) (bq_role rq) (mf_allow_whole_clause_claims (fm_rest m)))"
    "set_clause tbl blank_binding (bq_clause rq) = Inr made" "resolve_clause (Some target) made \<noteq> None" "bq_role rq \<noteq> ROLE_UNSPECIFIED"
    "bq_symbol rq \<noteq> []" "bq_backend rq \<in> set known_backends" "resolve_binding_file lt cd fs (bq_requirement rq) (bq_file rq) = Inr p"
    by (auto simp: bind_target_def Let_def split: sum.splits option.splits if_splits)
  let ?b = "stamped_claim target shape (claimed rq made)"
  have "claim_identity (Some target) prior \<noteq> claim_identity (Some target) ?b" if "prior \<in> set (store_bindings st)" for prior
  proof -
    have "claim_identity (Some target) ?b = claim_identity (Some target) (claimed rq made)"
      by (rule claim_identity_by_fields) (simp_all add: stamped_claim_def)
    with that a(4) show ?thesis by (auto simp: twin_file_def find_None_iff list_ex_iff store_bindings_def)
  qed
  moreover have "resolve_clause (Some target) ?b = resolve_clause (Some target) made" by (rule resolve_clause_by_scope) simp
  ultimately have "bound_over tbl lt cd sp backends fs st rq ?b p"
    using t a(2) load_allow_whole [OF a(3) t(3)] by (simp add: bound_over_def claim_of_def)
  with a t show thesis by (intro that) auto
qed

section \<open>A bound claim is well-formed\<close>

lemma valid_id_no_bar: "valid_id s \<Longrightarrow> CHR ''|'' \<notin> set s"
proof -
  assume v: "valid_id s"
  have "list_all (\<lambda>c. c \<noteq> CHR ''|'') p" if "p \<in> set (split_on CHR ''-'' s)" for p
  proof -
    have "\<not> Records.lower_alnum (CHR ''|'')" by (simp add: Records.lower_alnum_def is_digit_def byte_val_def)
    then have "list_all (\<lambda>c. c \<noteq> CHR ''|'') q" if "alnum_run q" for q using that by (auto simp: alnum_run_def list_all_iff)
    moreover have "p = ''REQ'' \<or> alnum_run p"
      using v that by (cases "split_on CHR ''-'' s" rule: remdups_adj.cases) (auto simp: valid_id_def list_all_iff)
    ultimately show ?thesis by auto
  qed
  then have "list_all (\<lambda>c. c \<noteq> CHR ''|'') (join (split_on CHR ''-'' s) [CHR ''-''])" by (intro list_all_join) auto
  then show ?thesis unfolding join_split_on by (auto simp: list_all_iff)
qed

lemma bar_split: "CHR ''|'' \<notin> set a \<Longrightarrow> CHR ''|'' \<notin> set b \<Longrightarrow> a @ CHR ''|'' # x = b @ CHR ''|'' # y \<Longrightarrow> a = b"
  by (metis takeWhile_absent)

lemma identity_requirement:
  assumes "valid_id (b_requirement_id b)" "valid_id (b_requirement_id b')" and "claim_identity req b = claim_identity req' b'"
  shows "b_requirement_id b = b_requirement_id b'"
  using assms(3) bar_split [OF valid_id_no_bar [OF assms(1)] valid_id_no_bar [OF assms(2)]]
  by (simp add: claim_identity_def claim_identity_at_def)

definition valid_ids :: "spec \<Rightarrow> bool" where
  "valid_ids sp \<longleftrightarrow> list_all (\<lambda>r. valid_id (req_id r)) (spec_requirements sp)"

lemma valid_known: "valid_ids sp \<Longrightarrow> by_id sp rid \<noteq> None \<Longrightarrow> valid_id rid"
  unfolding by_id_dom valid_ids_def by (auto simp: list_all_iff)

lemma set_clause_unscoped:
  "set_clause tbl b text0 = Inr made \<Longrightarrow> (b_clause made = No_Clause) = (trim_space text0 = [])"
  by (auto simp: set_clause_def Let_def split: if_splits option.splits)

lemma bound_ok:
  assumes ids: "valid_ids sp" and ok: "records_ok sp st" and b: "bound_over tbl lt cd sp backends fs st rq b p"
  shows "claim_ok (by_id sp) (hashes_of sp) (st_allow_whole st) b"
    "hyg_identity (by_id sp) b \<notin> hyg_identity (by_id sp) ` set (store_bindings st)"
    "b \<notin> set (store_bindings st)"
proof -
  note B = b [unfolded bound_over_def]
  from B obtain target made shape where t: "by_id sp (bq_requirement rq) = Some target" "set_clause tbl blank_binding (bq_clause rq) = Inr made"
    "b = stamped_claim target shape (claimed rq made)"
    by (auto simp: claim_of_def split: option.splits sum.splits)
  have rid: "valid_id (bq_requirement rq)" using valid_known [OF ids] B by blast
  then have ne: "bq_requirement rq \<noteq> []" by (auto simp: valid_id_def)
  have known: "known (hashes_of sp) (bq_requirement rq)" unfolding known_hashes_of by_id_dom [symmetric] using B by blast
  have "resolve_clause (by_id sp (bq_requirement rq)) b = Some None \<Longrightarrow> trim_space (bq_clause rq) = []"
    using set_clause_unscoped [OF t(2)] by (auto simp: t(3) resolve_clause_def split: clause_scope.splits option.splits if_splits)
  with B ne known show "claim_ok (by_id sp) (hashes_of sp) (st_allow_whole st) b"
    by (auto simp: claim_ok_def t(3) known_backends_def)
  show fresh: "hyg_identity (by_id sp) b \<notin> hyg_identity (by_id sp) ` set (store_bindings st)"
  proof
    assume "hyg_identity (by_id sp) b \<in> hyg_identity (by_id sp) ` set (store_bindings st)"
    then obtain prior where p: "prior \<in> set (store_bindings st)" "hyg_identity (by_id sp) b = hyg_identity (by_id sp) prior" by auto
    have "claim_ok (by_id sp) (hashes_of sp) (st_allow_whole st) prior" using ok p(1) by (simp add: records_ok_def list_all_iff)
    then have "by_id sp (b_requirement_id prior) \<noteq> None" unfolding by_id_dom claim_ok_def known_hashes_of by blast
    then have "valid_id (b_requirement_id prior)" by (rule valid_known [OF ids])
    with p(2) rid have "b_requirement_id prior = bq_requirement rq"
      using identity_requirement [of b prior] by (simp add: hyg_identity_def t(3))
    then have "claim_identity (by_id sp (bq_requirement rq)) prior = claim_identity (by_id sp (bq_requirement rq)) b"
      using p(2) by (simp add: hyg_identity_def t(3))
    moreover have "\<forall>prior \<in> set (store_bindings st). claim_identity (by_id sp (bq_requirement rq)) prior \<noteq> claim_identity (by_id sp (bq_requirement rq)) b"
      using B by simp
    ultimately show False using p(1) by simp
  qed
  then show "b \<notin> set (store_bindings st)" by auto
qed

section \<open>Adding a claim to the store that was loaded\<close>

lemma add_in_files_facts:
  "add_in_files tbl bfs path b = Some (bfs', res) \<Longrightarrow>
     map (\<lambda>f. (bf_path f, bf_raw f)) bfs' = map (\<lambda>f. (bf_path f, bf_raw f)) bfs
     \<and> (\<forall>content. res = Inr content \<longrightarrow>
          (\<exists>bf \<in> set bfs. bf_path bf = path \<and> content = render_binding_set tbl (bf\<lparr>bf_set := bf_set bf @ [b]\<rparr>)))"
proof (induction bfs arbitrary: bfs' res)
  case (Cons bf bfs)
  show ?case
  proof (cases "bf_path bf = path")
    case True
    with Cons.prems show ?thesis by (auto simp: Let_def split: if_splits)
  next
    case False
    with Cons.prems obtain g where g: "add_in_files tbl bfs path b = Some (g, res)" "bfs' = bf # g"
      by (auto split: option.splits prod.splits)
    from Cons.IH [OF g(1)] g(2) show ?thesis by auto
  qed
qed simp

lemma add_in_files_none: "add_in_files tbl bfs path b = None \<longleftrightarrow> path \<notin> bf_path ` set bfs"
  by (induction bfs) (auto simp: Let_def split: option.splits prod.splits)

definition fresh_file :: "string \<Rightarrow> binding \<Rightarrow> binding_file" where
  "fresh_file path b =
     \<lparr>bf_path = path, bf_raw = default_header @ ''# proto-message: stipulator.v1.BindingSet'' @ nl, bf_set = [b]\<rparr>"

lemma add_binding_facts:
  assumes "add_binding tbl st path b = (st', Inr content)"
  shows "raw_files st' = raw_files st"
    "(\<exists>bf \<in> set (st_bindings st). bf_path bf = path \<and> content = render_binding_set tbl (bf\<lparr>bf_set := bf_set bf @ [b]\<rparr>))
     \<or> path \<notin> bf_path ` set (st_bindings st) \<and> content = render_binding_set tbl (fresh_file path b)"
proof -
  show "raw_files st' = raw_files st"
    using assms add_in_files_facts [of tbl "st_bindings st" path b]
    by (auto simp: add_binding_def raw_files_def split: option.splits prod.splits)
  show "(\<exists>bf \<in> set (st_bindings st). bf_path bf = path \<and> content = render_binding_set tbl (bf\<lparr>bf_set := bf_set bf @ [b]\<rparr>))
     \<or> path \<notin> bf_path ` set (st_bindings st) \<and> content = render_binding_set tbl (fresh_file path b)"
  proof (cases "add_in_files tbl (st_bindings st) path b")
    case None
    with assms show ?thesis by (auto simp: add_binding_def add_in_files_none fresh_file_def)
  next
    case (Some r)
    then obtain bfs' res where r: "add_in_files tbl (st_bindings st) path b = Some (bfs', res)" by (cases r) auto
    with assms have "res = Inr content" by (auto simp: add_binding_def)
    with conjunct2 [OF add_in_files_facts [OF r]] show ?thesis by blast
  qed
qed

lemma render_nonempty: "bf_set bf \<noteq> [] \<Longrightarrow> render_binding_set tbl bf \<noteq> []"
  by (cases "bf_set bf") (simp_all add: render_binding_set_def render_binding_def nl_def)

text \<open>
  What is asked of the decoder: a file rendered from distinct claims of a set reads back as those
  claims, whatever comment header it keeps.
\<close>

definition reads_back :: "codec \<Rightarrow> (nat \<Rightarrow> bool) \<Rightarrow> binding set \<Rightarrow> bool" where
  "reads_back cd tbl S \<longleftrightarrow>
     (\<forall>bf. set (bf_set bf) \<subseteq> S \<and> distinct (bf_set bf) \<and> bf_set bf \<noteq> [] \<longrightarrow> cd_bindings cd (render_binding_set tbl bf) = Inr (bf_set bf))"

text \<open>A file a load sees: directly in the directory, not hidden.\<close>

lemma reads_backD:
  assumes "reads_back cd tbl S" and "set (bf_set bf) \<subseteq> S" "distinct (bf_set bf)" "bf_set bf \<noteq> []"
  shows "cd_bindings cd (render_binding_set tbl bf) = Inr (bf_set bf)"
  using assms by (simp add: reads_back_def)

definition visible_file :: "string \<Rightarrow> bool" where
  "visible_file p \<longleftrightarrow> (\<exists>n. p = bindings_dir @ slash @ n \<and> visible_name n)"

lemma records_distinct:
  assumes "records_ok sp st"
  shows "distinct (store_bindings st)"
  using assms by (simp add: records_ok_def distinct_map)

text \<open>One claim bound over a loaded tree, and its write landed.\<close>

lemma bound_lands:
  assumes wf: "wf_tree ((p, content) # t)" and ld: "load tbl cd (tree_fs t) = Inr st" and ids: "valid_ids sp" and ok: "records_ok sp st"
    and b: "bound_over tbl lt cd sp backends fs st rq b p" and add: "add_binding tbl st p b = (st', Inr content)"
    and vis: "visible_file p" and dec: "reads_back cd tbl S" "set (store_bindings st) \<subseteq> S" "b \<in> S"
  obtains bfs where "load tbl cd (tree_fs ((p, content) # t)) = Inr (st\<lparr>st_bindings := bfs\<rparr>)"
    "mset (concat (map bf_set bfs)) = add_mset b (mset (store_bindings st))" "records_ok sp (st\<lparr>st_bindings := bfs\<rparr>)"
proof -
  obtain n where n: "p = bindings_dir @ slash @ n" "visible_name n" using vis by (auto simp: visible_file_def)
  have wft: "wf_tree t" using wf by (auto simp: wf_tree_def)
  have fresh: "b \<notin> set (store_bindings st)" "hyg_identity (by_id sp) b \<notin> hyg_identity (by_id sp) ` set (store_bindings st)"
    "claim_ok (by_id sp) (hashes_of sp) (st_allow_whole st) b" using bound_ok [OF ids ok b] by blast+
  obtain bs where bs: "content \<noteq> []" "cd_bindings cd content = Inr bs"
    "mset bs = (if n \<in> set (tree_names t bindings_dir) then add_mset b (mset (set_at cd t n)) else {#b#})"
  proof -
    consider bf where "bf \<in> set (st_bindings st)" "bf_path bf = p" "content = render_binding_set tbl (bf\<lparr>bf_set := bf_set bf @ [b]\<rparr>)"
      | "p \<notin> bf_path ` set (st_bindings st)" "content = render_binding_set tbl (fresh_file p b)"
      using add_binding_facts(2) [OF add] by blast
    then show thesis
    proof cases
      case 1
      have sub: "set (bf_set bf) \<subseteq> set (store_bindings st)" using 1(1) by (auto simp: store_bindings_def)
      have "distinct (bf_set bf)" using records_distinct [OF ok] 1(1) by (auto simp: store_bindings_def distinct_concat_iff)
      with sub fresh(1) dec have rd: "cd_bindings cd content = Inr (bf_set bf @ [b])"
        unfolding 1(3) using reads_backD [OF dec(1), of "bf\<lparr>bf_set := bf_set bf @ [b]\<rparr>"] by auto
      from load_files [OF wft ld 1(1)] obtain m where m: "m \<in> set (tree_names t bindings_dir)" "bf_path bf = bindings_dir @ slash @ m"
        "bf_set bf = set_at cd t m" by metis
      with 1(2) n(1) have "m = n" by simp
      with m rd show thesis using render_nonempty [of "bf\<lparr>bf_set := bf_set bf @ [b]\<rparr>" tbl] 1(3) by (intro that) auto
    next
      case 2
      have "cd_bindings cd content = Inr [b]" unfolding 2(2) using reads_backD [OF dec(1), of "fresh_file p b"] dec(3) by (simp add: fresh_file_def)
      moreover have "n \<notin> set (tree_names t bindings_dir)" using load_names [OF wft ld, of n] 2(1) n(1) by (metis image_eqI)
      ultimately show thesis using render_nonempty [of "fresh_file p b" tbl] 2(2) by (intro that) (auto simp: fresh_file_def)
    qed
  qed
  from load_write [OF wf [unfolded n(1)] ld n(2) bs(1,2)] obtain bfs where bfs:
    "load tbl cd (tree_fs ((p, content) # t)) = Inr (st\<lparr>st_bindings := bfs\<rparr>)"
    "mset (concat (map bf_set bfs)) + (if n \<in> set (tree_names t bindings_dir) then mset (set_at cd t n) else {#}) = mset (store_bindings st) + mset bs"
    unfolding n(1) by blast
  have m: "mset (concat (map bf_set bfs)) = add_mset b (mset (store_bindings st))" using bfs(2) bs(3) by (auto split: if_splits)
  have eq: "mset (map (hyg_identity (by_id sp)) (concat (map bf_set bfs))) = mset (map (hyg_identity (by_id sp)) (b # store_bindings st))"
    using m by simp
  have "distinct (map (hyg_identity (by_id sp)) (concat (map bf_set bfs)))"
    using mset_eq_imp_distinct_iff [OF eq] fresh(2) ok by (simp add: records_ok_def)
  moreover have "set (concat (map bf_set bfs)) = insert b (set (store_bindings st))"
    using m by (metis set_mset_add_mset_insert set_mset_mset)
  then have "list_all (claim_ok (by_id sp) (hashes_of sp) (st_allow_whole st)) (concat (map bf_set bfs))"
    using fresh(3) ok by (simp add: records_ok_def list_all_iff)
  ultimately have "records_ok sp (st\<lparr>st_bindings := bfs\<rparr>)" using ok by (simp add: records_ok_def store_bindings_def)
  with bfs(1) m show thesis by (rule that)
qed

section \<open>A batch lands whole\<close>

definition placeable :: "plain_tree \<Rightarrow> string \<Rightarrow> bool" where
  "placeable t p \<longleftrightarrow> visible_file p \<and> wf_tree ((p, []) # t)"

definition corpus_apart :: "(file_system \<Rightarrow> string + spec) \<Rightarrow> file_system \<Rightarrow> bool" where
  "corpus_apart compiled fs \<longleftrightarrow> (\<forall>mem. list_all visible_file (map fst mem) \<longrightarrow> compiled (overlay fs mem) = compiled fs)"

lemma visible_apart:
  assumes "visible_file p" "visible_file q"
  shows "\<not> has_prefix q (p @ slash)"
proof
  assume "has_prefix q (p @ slash)"
  then obtain r where r: "q = p @ slash @ r" by (auto simp: has_prefix_iff)
  obtain n m where "p = bindings_dir @ slash @ n" "q = bindings_dir @ slash @ m" "CHR ''/'' \<notin> set m"
    using assms by (auto simp: visible_file_def visible_name_def)
  with r have "m = n @ slash @ r" by simp
  with \<open>CHR ''/'' \<notin> set m\<close> show False by simp
qed

lemma wf_pending:
  assumes "wf_tree t" and "list_all (placeable t) (map fst mem)"
  shows "wf_tree (mem @ t)"
  unfolding wf_tree_def
proof (intro ballI)
  fix p q assume "p \<in> set (map fst (mem @ t))" "q \<in> set (map fst (mem @ t))"
  then consider "p \<in> set (map fst mem)" "q \<in> set (map fst mem)" | r where "r \<in> set (map fst mem)" "p \<in> insert r (set (map fst t))" "q \<in> insert r (set (map fst t))"
    | "p \<in> set (map fst t)" "q \<in> set (map fst t)" by auto
  then show "\<not> has_prefix q (p @ slash)"
  proof cases
    case 1
    then have "visible_file p" "visible_file q" using assms(2) unfolding list_all_iff placeable_def by blast+
    then show ?thesis by (rule visible_apart)
  next
    case 2
    then have "wf_tree ((r, []) # t)" using assms(2) unfolding list_all_iff placeable_def by blast
    moreover have "p \<in> set (map fst ((r, []) # t))" "q \<in> set (map fst ((r, []) # t))" using 2(2,3) by simp_all
    ultimately show ?thesis unfolding wf_tree_def by blast
  next
    case 3
    with assms(1) show ?thesis unfolding wf_tree_def by blast
  qed
qed

lemma visible_not_manifest: "visible_file p \<Longrightarrow> p \<noteq> manifest_path \<and> p \<noteq> tombstones_path"
  by (auto simp: visible_file_def bindings_dir_def manifest_path_def tombstones_path_def)

lemma manifest_apart:
  assumes "list_all visible_file (map fst mem)"
  shows "load_manifest cd (tree_fs (mem @ t)) = load_manifest cd (tree_fs t)"
proof -
  have "manifest_path \<notin> set (map fst mem)" using assms visible_not_manifest [of manifest_path] unfolding list_all_iff by blast
  then have "map_of mem manifest_path = None" by (simp add: map_of_eq_None_iff)
  then have "fs_read (tree_fs (mem @ t)) manifest_path = fs_read (tree_fs t) manifest_path"
    by (simp add: tree_fs_def map_add_def)
  then show ?thesis by (simp add: load_manifest_def read_record_def)
qed

lemma batch_paths [simp]: "map fst (batch_tree ups) = map up_path ups"
  by (simp add: batch_tree_def)

lemma bind_all_lands:
  assumes wft: "wf_tree t" and ids: "valid_ids sp" and apart: "corpus_apart compiled (tree_fs t)" and comp: "compiled (tree_fs t) = Inr sp"
    and dec: "reads_back cd tbl S"
    and run: "bind_all (bind tbl lt cd compiled backends) (tree_fs t) i ups rqs = Inr ups'"
    and ld: "load tbl cd (tree_fs (batch_tree ups @ t)) = Inr st" and ok: "records_ok sp st"
    and ups: "list_all (\<lambda>u. placeable t (up_path u) \<and> up_content u \<noteq> None) ups"
    and rqs: "list_all (\<lambda>rq. case resolve_binding_file lt cd (tree_fs t) (bq_requirement rq) (bq_file rq) of Inl _ \<Rightarrow> True | Inr p \<Rightarrow> placeable t p) rqs"
    and S: "set (store_bindings st) \<subseteq> S" "\<forall>rq \<in> set rqs. \<forall>b. claim_of tbl sp backends rq = Some b \<longrightarrow> b \<in> S"
  shows "\<exists>bs bfs. map (claim_of tbl sp backends) rqs = map Some bs
     \<and> load tbl cd (tree_fs (batch_tree ups' @ t)) = Inr (st\<lparr>st_bindings := bfs\<rparr>)
     \<and> mset (concat (map bf_set bfs)) = mset (store_bindings st) + mset bs
     \<and> records_ok sp (st\<lparr>st_bindings := bfs\<rparr>)
     \<and> list_all (\<lambda>u. placeable t (up_path u) \<and> up_content u \<noteq> None) ups'"
  using run ld ok ups rqs S
proof (induction rqs arbitrary: i ups st)
  case Nil
  then have "load tbl cd (tree_fs (batch_tree ups' @ t)) = Inr (st\<lparr>st_bindings := st_bindings st\<rparr>)"
    "mset (concat (map bf_set (st_bindings st))) = mset (store_bindings st) + mset []" by (simp_all add: store_bindings_def)
  with Nil show ?case by (intro exI [of _ "[]"] exI [of _ "st_bindings st"]) simp
next
  case (Cons rq rqs)
  let ?t = "batch_tree ups @ t"
  have vis: "list_all visible_file (map fst (batch_tree ups))" using Cons.prems(4) by (auto simp: list_all_iff placeable_def)
  have wf: "wf_tree ?t" by (rule wf_pending [OF wft]) (use Cons.prems(4) in \<open>auto simp: list_all_iff\<close>)
  have over: "overlay (tree_fs t) (batch_tree ups) = tree_fs ?t" by (rule overlay_tree [OF wf])
  from Cons.prems(1) obtain up where up: "bind tbl lt cd compiled backends (tree_fs ?t) rq = Inr up"
    "bind_all (bind tbl lt cd compiled backends) (tree_fs t) (i + 1) (up # ups) rqs = Inr ups'"
    by (auto simp: over split: sum.splits)
  from bind_bound [OF up(1)] obtain sp0 st0 b p st' content where b: "compiled (tree_fs ?t) = Inr sp0" "load tbl cd (tree_fs ?t) = Inr st0"
    "bound_over tbl lt cd sp0 backends (tree_fs ?t) st0 rq b p" "add_binding tbl st0 p b = (st', Inr content)"
    "up = stamp_prior st' (write_to p content)" by metis
  have "compiled (tree_fs ?t) = Inr sp" using apart vis comp unfolding corpus_apart_def over [symmetric] by metis
  with b(1,2) Cons.prems(2) have eq: "sp0 = sp" "st0 = st" by simp_all
  note bound = b(3) [unfolded eq] and add = b(4) [unfolded eq]
  have "resolve_binding_file lt cd (tree_fs t) (bq_requirement rq) (bq_file rq) = Inr p"
    using bound unfolding bound_over_def resolve_binding_file_def manifest_apart [OF vis, of cd t] by blast
  with Cons.prems(5) have p: "placeable t p" by simp
  have claim: "claim_of tbl sp backends rq = Some b" using bound by (simp add: bound_over_def)
  have pend: "batch_tree (up # ups) = (p, content) # batch_tree ups" by (simp add: b(5) batch_tree_def write_to_def)
  have wf': "wf_tree ((p, content) # ?t)"
    using wf_pending [OF wft, of "(p, content) # batch_tree ups"] p Cons.prems(4) by (auto simp: list_all_iff)
  have bS: "b \<in> S" using Cons.prems(7) claim by simp
  from bound_lands [OF wf' Cons.prems(2) ids Cons.prems(3) bound add _ dec Cons.prems(6) bS] p
  obtain bfs where bfs: "load tbl cd (tree_fs ((p, content) # ?t)) = Inr (st\<lparr>st_bindings := bfs\<rparr>)"
    "mset (concat (map bf_set bfs)) = add_mset b (mset (store_bindings st))" "records_ok sp (st\<lparr>st_bindings := bfs\<rparr>)"
    by (auto simp: placeable_def)
  let ?st = "st\<lparr>st_bindings := bfs\<rparr>"
  have m: "mset (store_bindings ?st) = add_mset b (mset (store_bindings st))" using bfs(2) by (simp add: store_bindings_def)
  then have sub: "set (store_bindings ?st) \<subseteq> S" using Cons.prems(6) bS by (metis insert_subset set_mset_add_mset_insert set_mset_mset)
  have ups1: "list_all (\<lambda>u. placeable t (up_path u) \<and> up_content u \<noteq> None) (up # ups)" using p Cons.prems(4) by (simp add: b(5) write_to_def)
  have "list_all (\<lambda>rq. case resolve_binding_file lt cd (tree_fs t) (bq_requirement rq) (bq_file rq) of Inl _ \<Rightarrow> True | Inr p \<Rightarrow> placeable t p) rqs"
    "\<forall>rq \<in> set rqs. \<forall>b. claim_of tbl sp backends rq = Some b \<longrightarrow> b \<in> S" using Cons.prems(5,7) by simp_all
  from Cons.IH [OF up(2) _ bfs(3) ups1 this(1) sub this(2)] bfs(1) obtain bs bfs' where ih:
    "map (claim_of tbl sp backends) rqs = map Some bs" "load tbl cd (tree_fs (batch_tree ups' @ t)) = Inr (?st\<lparr>st_bindings := bfs'\<rparr>)"
    "mset (concat (map bf_set bfs')) = mset (store_bindings ?st) + mset bs" "records_ok sp (?st\<lparr>st_bindings := bfs'\<rparr>)"
    "list_all (\<lambda>u. placeable t (up_path u) \<and> up_content u \<noteq> None) ups'"
    by (auto simp: pend)
  show ?case by (intro exI [of _ "b # bs"] exI [of _ bfs']) (use ih claim m in simp)
qed

section \<open>The updates of a batch\<close>

lemma tree_fs_cong:
  assumes "map_of s = map_of t"
  shows "tree_fs s = tree_fs t"
proof -
  have "set (map fst s) = set (map fst t)" using assms by (metis dom_map_of_conv_image_fst list.set_map)
  then have below: "set (below d s) = set (below d t)" for d by (auto simp: in_below)
  have "tree_entries s = tree_entries t"
  proof
    fix d
    have "sort (remdups (map first_seg (below d s))) = sort (remdups (map first_seg (below d t)))"
      using below [of d] by (metis sorted_list_of_set_sort_remdups list.set_map)
    moreover have "list_ex P (below d s) = list_ex P (below d t)" for P using below [of d] by (simp add: list_ex_iff)
    ultimately show "tree_entries s d = tree_entries t d" by (simp add: tree_entries_def)
  qed
  then show ?thesis using assms by (simp add: tree_fs_def cong: if_cong)
qed

lemma fold_land_at:
  "distinct (map up_path us) \<Longrightarrow>
     fold land us m p = (case map_of (map (\<lambda>u. (up_path u, u)) us) p of None \<Rightarrow> m p | Some u \<Rightarrow> up_content u)"
proof (induction us arbitrary: m)
  case (Cons u us)
  have "map_of (map (\<lambda>u. (up_path u, u)) us) (up_path u) = None"
    using Cons.prems by (auto simp: map_of_eq_None_iff)
  then show ?case using Cons by (auto simp: land_def split: option.split)
qed simp

lemma batch_updates_paths:
  "map up_path (batch_updates base ups) = sort (remdups (map up_path ups))"
proof -
  have "up_path (the (map_of (map (\<lambda>u. (up_path u, u)) ups) p)) = p" if "p \<in> up_path ` set ups" for p
  proof -
    from that have "map_of (map (\<lambda>u. (up_path u, u)) ups) p \<noteq> None" by (simp add: map_of_eq_None_iff image_image)
    then obtain u where "map_of (map (\<lambda>u. (up_path u, u)) ups) p = Some u" by blast
    then have "(p, u) \<in> set (map (\<lambda>u. (up_path u, u)) ups)" by (rule map_of_SomeD)
    then show ?thesis using \<open>map_of _ p = Some u\<close> by auto
  qed
  then have "map (\<lambda>p. up_path (the (map_of (map (\<lambda>u. (up_path u, u)) ups) p))) (sort (remdups (map up_path ups))) = sort (remdups (map up_path ups))"
    by (intro map_idI) simp
  then show ?thesis by (simp add: batch_updates_def stamp_priors_def comp_def Let_def)
qed

lemma batch_updates_latest:
  assumes "u \<in> set (batch_updates base ups)"
  obtains v where "map_of (map (\<lambda>u. (up_path u, u)) ups) (up_path u) = Some v" "v \<in> set ups"
    "u = stamp_prior base (v\<lparr>up_prior := None, up_prior_absent := False\<rparr>)" "up_path v = up_path u" "up_content v = up_content u"
proof -
  from assms obtain p where p: "p \<in> set (map up_path ups)"
    "u = stamp_prior base ((the (map_of (map (\<lambda>u. (up_path u, u)) ups) p))\<lparr>up_prior := None, up_prior_absent := False\<rparr>)"
    by (auto simp: batch_updates_def stamp_priors_def Let_def)
  then have "map_of (map (\<lambda>u. (up_path u, u)) ups) p \<noteq> None" by (auto simp: map_of_eq_None_iff image_iff)
  then obtain v where v: "map_of (map (\<lambda>u. (up_path u, u)) ups) p = Some v" by blast
  then have "v \<in> set ups" "up_path v = p" by (auto dest: map_of_SomeD)
  with p(2) v show thesis by (intro that [of v]) simp_all
qed

text \<open>Landing the updates of a batch leaves the tree its pending writes overlaid.\<close>

lemma batch_lands:
  assumes "list_all (\<lambda>u. up_content u \<noteq> None) ups"
  shows "fold land (batch_updates base ups) (map_of t) = map_of (batch_tree ups @ t)"
proof
  fix p
  let ?us = "batch_updates base ups"
  have d: "distinct (map up_path ?us)" by (simp add: batch_updates_paths)
  have tree: "map_of (batch_tree ups) p = map_option (\<lambda>u. case up_content u of None \<Rightarrow> [] | Some c \<Rightarrow> c) (map_of (map (\<lambda>u. (up_path u, u)) ups) p)"
    by (induction ups) (simp_all add: batch_tree_def)
  show "fold land ?us (map_of t) p = map_of (batch_tree ups @ t) p"
  proof (cases "map_of (map (\<lambda>u. (up_path u, u)) ?us) p")
    case None
    then have "p \<notin> set (map up_path ?us)" by (auto simp: map_of_eq_None_iff image_iff)
    then have "p \<notin> set (map up_path ups)" by (simp add: batch_updates_paths)
    then have "map_of (map (\<lambda>u. (up_path u, u)) ups) p = None" by (auto simp: map_of_eq_None_iff)
    then show ?thesis by (simp add: fold_land_at [OF d] None tree map_add_def)
  next
    case (Some u)
    then have u: "u \<in> set ?us" "up_path u = p" by (auto dest: map_of_SomeD)
    from batch_updates_latest [OF u(1)] obtain v where v: "map_of (map (\<lambda>u. (up_path u, u)) ups) p = Some v" "v \<in> set ups"
      "up_content v = up_content u" using u(2) by metis
    with assms have "up_content u \<noteq> None" unfolding list_all_iff by metis
    then obtain c where "up_content u = Some c" by blast
    with v Some show ?thesis by (simp add: fold_land_at [OF d] tree map_add_def)
  qed
qed

text \<open>The bytes a load keeps of each record file are those of the tree.\<close>

lemma each_raw:
  assumes "wf_tree t" "dir \<in> set record_dirs" "each_textproto tbl (tree_fs t) dir parse = Inr xs" "x \<in> set xs"
    and "\<And>p raw y. parse p raw = Inr y \<Longrightarrow> path_of y = p \<and> raw_of' y = raw"
  shows "map_of t (path_of x) = Some (raw_of' x)"
proof -
  have "Some x \<in> set (map Some xs)" using assms(4) by simp
  then obtain n where "file_at parse t (dir @ slash @ n) = Some x"
    using assms(3) unfolding each_tree [OF assms(1,2)] by (metis (mono_tags, lifting) in_set_conv_nth length_map nth_map)
  then show ?thesis using assms(5) by (auto simp: file_at_def split: option.splits if_splits sum.splits)
qed

lemma raw_files_read:
  assumes "wf_tree t" "load tbl cd (tree_fs t) = Inr st" "(p, raw) \<in> set (raw_files st)"
  shows "map_of t p = Some raw"
proof -
  from assms(2) obtain bfs gfs afs where l: "each_textproto tbl (tree_fs t) bindings_dir (parse_binding_file cd) = Inr bfs"
    "each_textproto tbl (tree_fs t) gaps_dir (parse_gap_file cd) = Inr gfs"
    "each_textproto tbl (tree_fs t) attestations_dir (parse_attestation_file cd) = Inr afs"
    "st_bindings st = bfs" "st_gaps st = gfs" "st_attestations st = afs"
    "st_tombstones_raw st = (case fs_read (tree_fs t) tombstones_path of Inl _ \<Rightarrow> None | Inr raw \<Rightarrow> Some raw)"
    by (auto simp: load_def split: sum.splits)
  have d: "bindings_dir \<in> set record_dirs" "gaps_dir \<in> set record_dirs" "attestations_dir \<in> set record_dirs" by (simp_all add: record_dirs_def)
  have "map_of t (bf_path x) = Some (bf_raw x)" if "x \<in> set bfs" for x
    by (rule each_raw [OF assms(1) d(1) l(1) that]) (auto simp: parse_binding_file_def split: sum.splits)
  moreover have "map_of t (gf_path x) = Some (gf_raw x)" if "x \<in> set gfs" for x
    by (rule each_raw [OF assms(1) d(2) l(2) that]) (auto simp: parse_gap_file_def split: sum.splits)
  moreover have "map_of t (af_path x) = Some (af_raw x)" if "x \<in> set afs" for x
    by (rule each_raw [OF assms(1) d(3) l(3) that]) (auto simp: parse_attestation_file_def split: sum.splits)
  moreover have "st_tombstones_raw st = Some r \<Longrightarrow> map_of t tombstones_path = Some r" for r
    by (auto simp: l(7) tree_fs_def split: option.splits)
  ultimately show ?thesis using assms(3) l(4-6) by (cases "st_tombstones_raw st") (auto simp: raw_files_def tombstones_path_def)
qed

text \<open>The prior of an update is what the tree holds at its path.\<close>

lemma prior_is_base:
  assumes "wf_tree t" "load tbl cd (tree_fs t) = Inr st" "visible_file (up_path u)" "up_prior u = None" "\<not> up_prior_absent u"
  shows "up_prior (stamp_prior st u) = map_of t (up_path u) \<and> up_prior_absent (stamp_prior st u) = (map_of t (up_path u) = None)"
proof (cases "map_of (rev (raw_files st)) (up_path u)")
  case None
  obtain n where n: "up_path u = bindings_dir @ slash @ n" "visible_name n" using assms(3) by (auto simp: visible_file_def)
  have "map_of t (up_path u) = None"
  proof (rule ccontr)
    assume "map_of t (up_path u) \<noteq> None"
    then have "up_path u \<in> fst ` set t" by (simp add: map_of_eq_None_iff)
    then have "n \<in> set (tree_names t bindings_dir)" using n by (auto simp: tree_names_def in_below visible_name_def)
    from load_names [OF assms(1,2) this] obtain bf where "bf \<in> set (st_bindings st)" "bf_path bf = up_path u" using n(1) by metis
    note bf = this
    have "(bf_path bf, bf_raw bf) \<in> set (map (\<lambda>f. (bf_path f, bf_raw f)) (st_bindings st))" using bf(1) by simp
    then have "(up_path u, bf_raw bf) \<in> set (raw_files st)" unfolding raw_files_def bf(2) by simp
    with None show False by (force simp: map_of_eq_None_iff)
  qed
  with None assms(4) show ?thesis by (simp add: stamp_prior_def)
next
  case (Some raw)
  then have "(up_path u, raw) \<in> set (raw_files st)" by (auto dest: map_of_SomeD)
  with raw_files_read [OF assms(1,2)] Some assms(5) show ?thesis by (simp add: stamp_prior_def)
qed

lemma binds_land:
  assumes wft: "wf_tree t" and ids: "valid_ids sp" and apart: "corpus_apart compiled (tree_fs t)" and comp: "compiled (tree_fs t) = Inr sp"
    and ld: "load tbl cd (tree_fs t) = Inr st" and clean: "hygiene sp st = []"
    and rqs: "list_all (\<lambda>rq. case resolve_binding_file lt cd (tree_fs t) (bq_requirement rq) (bq_file rq) of Inl _ \<Rightarrow> True | Inr p \<Rightarrow> placeable t p) rqs"
    and dec: "reads_back cd tbl (set (store_bindings st) \<union> {b. \<exists>rq \<in> set rqs. claim_of tbl sp backends rq = Some b})"
    and run: "binds tbl lt cd compiled backends (tree_fs t) rqs = Inr ups"
    and landed: "map_of t' = fold land ups (map_of t)"
  obtains bs bfs where "map (claim_of tbl sp backends) rqs = map Some bs"
    "load tbl cd (tree_fs t') = Inr (st\<lparr>st_bindings := bfs\<rparr>)"
    "mset (store_bindings (st\<lparr>st_bindings := bfs\<rparr>)) = mset (store_bindings st) + mset bs"
    "hygiene sp (st\<lparr>st_bindings := bfs\<rparr>) = []" "distinct (map up_path ups)"
    "list_all (\<lambda>u. up_prior u = map_of t (up_path u) \<and> up_prior_absent u = (map_of t (up_path u) = None)) ups"
proof -
  from run ld obtain ups' where ups': "bind_all (bind tbl lt cd compiled backends) (tree_fs t) 0 [] rqs = Inr ups'" "ups = batch_updates st ups'"
    by (auto simp: binds_def split: if_splits sum.splits)
  have "load tbl cd (tree_fs (batch_tree [] @ t)) = Inr st" using ld by (simp add: batch_tree_def)
  moreover have "records_ok sp st" using clean by (simp add: hygiene_records)
  ultimately obtain bs bfs where b: "map (claim_of tbl sp backends) rqs = map Some bs"
    "load tbl cd (tree_fs (batch_tree ups' @ t)) = Inr (st\<lparr>st_bindings := bfs\<rparr>)"
    "mset (concat (map bf_set bfs)) = mset (store_bindings st) + mset bs" "records_ok sp (st\<lparr>st_bindings := bfs\<rparr>)"
    "list_all (\<lambda>u. placeable t (up_path u) \<and> up_content u \<noteq> None) ups'"
    using bind_all_lands [OF wft ids apart comp dec ups'(1) _ _ _ rqs] by fastforce
  have "map_of t' = map_of (batch_tree ups' @ t)"
    unfolding landed ups'(2) by (rule batch_lands) (use b(5) in \<open>simp add: list_all_iff\<close>)
  then have t': "tree_fs t' = tree_fs (batch_tree ups' @ t)" by (rule tree_fs_cong)
  have "up_prior u = map_of t (up_path u) \<and> up_prior_absent u = (map_of t (up_path u) = None)" if "u \<in> set ups" for u
  proof -
    from batch_updates_latest [OF that [unfolded ups'(2)]] obtain v where v: "v \<in> set ups'"
      "u = stamp_prior st (v\<lparr>up_prior := None, up_prior_absent := False\<rparr>)" by metis
    with b(5) have "visible_file (up_path v)" by (auto simp: list_all_iff placeable_def)
    with prior_is_base [OF wft ld, of "v\<lparr>up_prior := None, up_prior_absent := False\<rparr>"] v(2) show ?thesis by simp
  qed
  with b t' show thesis by (intro that [of bs bfs]) (simp_all add: hygiene_records store_bindings_def list_all_iff ups'(2) batch_updates_paths)
qed

text \<open>C10: a batch of claims lands whole and keeps the records clean. Over a plain tree whose records pass
  hygiene, with every claim's file one a load sees, the updates of an accepted batch leave a tree
  that loads to the same store with exactly the requested claims added, one per request, and the
  records still pass hygiene; each update demands of its file what the tree held before the batch.\<close>

theorem binds_keep_clean:
  assumes "wf_tree t" and "valid_ids sp" and "corpus_apart compiled (tree_fs t)" and "compiled (tree_fs t) = Inr sp"
    and "load tbl cd (tree_fs t) = Inr st" and "hygiene sp st = []"
    and "list_all (\<lambda>rq. case resolve_binding_file lt cd (tree_fs t) (bq_requirement rq) (bq_file rq) of Inl _ \<Rightarrow> True | Inr p \<Rightarrow> placeable t p) rqs"
    and "reads_back cd tbl (set (store_bindings st) \<union> {b. \<exists>rq \<in> set rqs. claim_of tbl sp backends rq = Some b})"
    and "binds tbl lt cd compiled backends (tree_fs t) rqs = Inr ups"
    and "map_of t' = fold land ups (map_of t)"
  shows "\<exists>bs bfs. map (claim_of tbl sp backends) rqs = map Some bs
     \<and> load tbl cd (tree_fs t') = Inr (st\<lparr>st_bindings := bfs\<rparr>)
     \<and> mset (store_bindings (st\<lparr>st_bindings := bfs\<rparr>)) = mset (store_bindings st) + mset bs
     \<and> hygiene sp (st\<lparr>st_bindings := bfs\<rparr>) = [] \<and> distinct (map up_path ups)
     \<and> list_all (\<lambda>u. up_prior u = map_of t (up_path u) \<and> up_prior_absent u = (map_of t (up_path u) = None)) ups"
  using binds_land [OF assms] by metis

text \<open>A tree with a manifest, one claim, and a decoder that knows its rendering.\<close>

definition one_request :: bind_request where
  "one_request = \<lparr>bq_requirement = ''REQ-a'', bq_symbol = ''p.F'', bq_backend = ''go'', bq_role = ROLE_IMPLEMENTS, bq_file = [], bq_clause = []\<rparr>"

definition one_claim :: binding where
  "one_claim = the (claim_of (\<lambda>_. True) one_requirement Map.empty one_request)"

definition one_codec :: codec where
  "one_codec =
     \<lparr>cd_bindings = (\<lambda>raw. if has_suffix raw (render_binding (\<lambda>_. True) one_claim) then Inr [one_claim] else Inl ''not that claim''),
      cd_gap = (\<lambda>_. Inl []), cd_attestations = (\<lambda>_. Inl []), cd_tombstones = (\<lambda>_. Inl []),
      cd_manifest = (\<lambda>_. Inr \<lparr>fm_include = [], fm_layout = LAYOUT_SEGMENT, fm_rest = \<lparr>mf_policy = [], mf_allow_whole_clause_claims = False\<rparr>\<rparr>)\<rparr>"

definition one_tree :: plain_tree where
  "one_tree = [(manifest_path, ''m'')]"

definition one_store :: store where
  "one_store = \<lparr>st_bindings = [], st_gaps = [], st_attestations = [], st_tombstones = [], st_tombstones_raw = None, st_allow_whole = False\<rparr>"

definition one_update :: update where
  "one_update = (write_to ''.stipulator/bindings/a.textproto''
     (render_binding_set (\<lambda>_. True) (fresh_file ''.stipulator/bindings/a.textproto'' one_claim)))\<lparr>up_prior_absent := True\<rparr>"

lemma one_tree_dir: "d \<in> set record_dirs \<Longrightarrow> tree_entries one_tree d = []"
  unfolding tree_entries_Nil
  by (auto simp: below_def one_tree_def record_dirs_def manifest_path_def bindings_dir_def gaps_dir_def attestations_dir_def)

lemma one_dir: "d \<in> set record_dirs \<Longrightarrow> each_textproto tbl (tree_fs one_tree) d parse = Inr []"
  by (simp add: each_textproto_def tree_fs_def one_tree_dir)

lemma one_load: "load (\<lambda>_. True) one_codec (tree_fs one_tree) = Inr one_store"
proof -
  have r: "fs_read (tree_fs one_tree) tombstones_path = Inl (Not_Exist (''open '' @ tombstones_path @ '': file does not exist''))"
    "fs_read (tree_fs one_tree) manifest_path = Inr ''m''"
    by (simp_all add: tree_fs_def one_tree_def manifest_path_def tombstones_path_def)
  show ?thesis
    by (simp add: one_dir load_def load_tombstones_def read_record_def r record_dirs_def one_store_def one_codec_def)
qed

lemma one_manifest: "load_manifest one_codec (tree_fs one_tree) =
    Inr \<lparr>fm_include = [default_include], fm_layout = LAYOUT_SEGMENT, fm_rest = \<lparr>mf_policy = [], mf_allow_whole_clause_claims = False\<rparr>\<rparr>"
  by (simp add: load_manifest_def read_record_def tree_fs_def one_tree_def one_codec_def)

lemma one_path: "default_binding_file ''REQ-a'' = ''.stipulator/bindings/a.textproto''"
  by code_simp

lemma one_file: "resolve_binding_file id one_codec (tree_fs one_tree) ''REQ-a'' [] = Inr ''.stipulator/bindings/a.textproto''"
  by (simp add: resolve_binding_file_def one_manifest one_path)

lemma one_spec: "by_id one_requirement ''REQ-a'' = Some (hd (spec_requirements one_requirement))"
  by (simp add: by_id_def one_requirement_def)

lemma one_claim_of: "claim_of (\<lambda>_. True) one_requirement Map.empty one_request = Some one_claim"
  by (simp add: one_claim_def claim_of_def one_request_def one_spec set_clause_def bind_shape_def)

lemma one_wf: "wf_tree one_tree" "placeable one_tree ''.stipulator/bindings/a.textproto''"
proof -
  show "wf_tree one_tree" by (simp add: wf_tree_def one_tree_def manifest_path_def)
  have "visible_file ''.stipulator/bindings/a.textproto''"
    unfolding visible_file_def
    by (intro exI [of _ "''a.textproto''"]) (simp add: bindings_dir_def visible_name_def record_name_def has_suffix_def)
  then show "placeable one_tree ''.stipulator/bindings/a.textproto''"
    by (simp add: placeable_def wf_tree_def one_tree_def manifest_path_def)
qed

lemma one_binds: "binds (\<lambda>_. True) id one_codec (\<lambda>_. Inr one_requirement) Map.empty (tree_fs one_tree) [one_request] = Inr [one_update]"
proof -
  have "overlay (tree_fs one_tree) [] = tree_fs one_tree" using overlay_tree [of "[]" one_tree] one_wf(1) by simp
  moreover have "bind (\<lambda>_. True) id one_codec (\<lambda>_. Inr one_requirement) Map.empty (tree_fs one_tree) one_request = Inr one_update"
    using one_claim_of
    by (simp add: bind_def bind_target_def one_request_def one_spec one_manifest set_clause_def resolve_clause_def blank_binding_def requires_clause_scope_def
        tests_or_proves_def known_backends_def one_file bind_shape_def one_load one_store_def twin_file_def add_binding_def fresh_file_def
        stamp_prior_def raw_files_def claim_of_def one_update_def write_to_def Let_def)
  ultimately show ?thesis
    by (simp add: binds_def one_load batch_tree_def batch_updates_def Let_def one_update_def write_to_def stamp_priors_def stamp_prior_def
        raw_files_def one_store_def)
qed

lemma one_reads_back: "reads_back one_codec (\<lambda>_. True) {one_claim}"
proof -
  have "cd_bindings one_codec (render_binding_set (\<lambda>_. True) bf) = Inr (bf_set bf)"
    if "set (bf_set bf) \<subseteq> {one_claim}" "distinct (bf_set bf)" "bf_set bf \<noteq> []" for bf
  proof -
    have "bf_set bf = [one_claim]" using that by (cases "bf_set bf" rule: remdups_adj.cases) auto
    then show ?thesis by (simp add: one_codec_def render_binding_set_def has_suffix_def)
  qed
  then show ?thesis by (simp add: reads_back_def)
qed

lemma binds_keep_clean_witness:
  "\<exists>bfs. load (\<lambda>_. True) one_codec (tree_fs ((up_path one_update, the (up_content one_update)) # one_tree)) = Inr (one_store\<lparr>st_bindings := bfs\<rparr>)
     \<and> mset (store_bindings (one_store\<lparr>st_bindings := bfs\<rparr>)) = {#one_claim#}"
proof -
  let ?t = "(up_path one_update, the (up_content one_update)) # one_tree"
  have ids: "valid_ids one_requirement" by (simp add: valid_ids_def one_requirement_def) code_simp
  have apart: "corpus_apart (\<lambda>_. Inr one_requirement) (tree_fs one_tree)" by (simp add: corpus_apart_def)
  have clean: "hygiene one_requirement one_store = []" by (simp add: hygiene_records records_ok_def one_store_def store_bindings_def)
  have rqs: "list_all (\<lambda>rq. case resolve_binding_file id one_codec (tree_fs one_tree) (bq_requirement rq) (bq_file rq) of Inl _ \<Rightarrow> True | Inr p \<Rightarrow> placeable one_tree p) [one_request]"
    using one_file one_wf(2) by (simp add: one_request_def)
  have dec: "reads_back one_codec (\<lambda>_. True) (set (store_bindings one_store) \<union> {b. \<exists>rq \<in> set [one_request]. claim_of (\<lambda>_. True) one_requirement Map.empty rq = Some b})"
    using one_reads_back by (simp add: one_claim_of one_store_def store_bindings_def)
  have land: "map_of ?t = fold land [one_update] (map_of one_tree)" by (simp add: land_def one_update_def write_to_def)
  from binds_keep_clean [OF one_wf(1) ids apart refl one_load clean rqs dec one_binds land]
  show ?thesis by (auto simp: one_claim_of one_store_def store_bindings_def)
qed

section \<open>A file no load sees\<close>

text \<open>A path below the bindings directory that a load passes over: in a directory of its own, or hidden.\<close>

definition unseen_file :: "string \<Rightarrow> bool" where
  "unseen_file p \<longleftrightarrow> (\<exists>n. p = bindings_dir @ slash @ n \<and> (CHR ''/'' \<in> set n \<or> has_prefix n ''.''))"

lemma unseen_names:
  assumes "dir \<in> set record_dirs" "CHR ''/'' \<in> set n \<or> has_prefix n ''.''"
  shows "tree_names ((bindings_dir @ slash @ n, c) # t) dir = tree_names t dir"
proof (cases "dir = bindings_dir")
  case True
  have b: "below bindings_dir ((bindings_dir @ slash @ n, c) # t) = n # below bindings_dir t" by (simp add: below_Cons has_prefix_iff)
  have "tree_names ((bindings_dir @ slash @ n, c) # t) bindings_dir = tree_names t bindings_dir"
  proof (rule sorted_distinct_set_unique)
    show "set (tree_names ((bindings_dir @ slash @ n, c) # t) bindings_dir) = set (tree_names t bindings_dir)"
      using assms(2) unfolding tree_names_def b by auto
  qed (simp_all add: tree_names_distinct)
  then show ?thesis unfolding True .
next
  case False
  have "bindings_dir \<in> set record_dirs" by (simp add: record_dirs_def)
  from record_dirs_apart [OF this assms(1)] False show ?thesis by (simp add: tree_names_def below_Cons)
qed

lemma load_unseen:
  assumes wf: "wf_tree ((p, c) # t)" and ld: "load tbl cd (tree_fs t) = Inr st" and u: "unseen_file p"
  shows "load tbl cd (tree_fs ((p, c) # t)) = Inr st"
proof -
  obtain n where n: "p = bindings_dir @ slash @ n" "CHR ''/'' \<in> set n \<or> has_prefix n ''.''" using u by (auto simp: unseen_file_def)
  have wft: "wf_tree t" using wf by (auto simp: wf_tree_def)
  have at: "file_at parse ((p, c) # t) (dir @ slash @ m) = file_at parse t (dir @ slash @ m)"
    if "dir \<in> set record_dirs" "m \<in> set (tree_names t dir)" for dir m and parse :: "string \<Rightarrow> string \<Rightarrow> string + 'z"
  proof -
    have "p \<noteq> dir @ slash @ m"
      using n tree_name_facts(1,2) [OF that(2)] that(1)
      by (auto simp: record_dirs_def bindings_dir_def gaps_dir_def attestations_dir_def)
    then show ?thesis by (simp add: file_at_def)
  qed
  have same: "each_textproto tbl (tree_fs ((p, c) # t)) dir parse = Inr xs \<longleftrightarrow> each_textproto tbl (tree_fs t) dir parse = Inr xs"
    if d: "dir \<in> set record_dirs" for dir parse and xs :: "'z list"
  proof -
    have "map (\<lambda>m. file_at parse ((p, c) # t) (dir @ slash @ m)) (tree_names t dir) = map (\<lambda>m. file_at parse t (dir @ slash @ m)) (tree_names t dir)"
      by (rule map_cong [OF refl]) (rule at [OF d])
    moreover have "tree_names ((p, c) # t) dir = tree_names t dir" unfolding n(1) by (rule unseen_names [OF d n(2)])
    ultimately show ?thesis unfolding each_tree [OF wf d] each_tree [OF wft d] by (simp only:)
  qed
  have reg: "tombstones_path \<noteq> p" "manifest_path \<noteq> p" by (simp_all add: n tombstones_path_def manifest_path_def bindings_dir_def)
  then have rd: "fs_read (tree_fs ((p, c) # t)) tombstones_path = fs_read (tree_fs t) tombstones_path"
    "fs_read (tree_fs ((p, c) # t)) manifest_path = fs_read (tree_fs t) manifest_path" by (simp_all add: tree_fs_def)
  have tomb: "load_tombstones cd (tree_fs ((p, c) # t)) = load_tombstones cd (tree_fs t)"
    "read_record (tree_fs ((p, c) # t)) manifest_path = read_record (tree_fs t) manifest_path"
    by (simp_all only: load_tombstones_def read_record_def rd)
  from ld obtain bfs gfs afs where g: "each_textproto tbl (tree_fs t) bindings_dir (parse_binding_file cd) = Inr bfs"
    "each_textproto tbl (tree_fs t) gaps_dir (parse_gap_file cd) = Inr gfs"
    "each_textproto tbl (tree_fs t) attestations_dir (parse_attestation_file cd) = Inr afs"
    by (auto simp: load_def split: sum.splits)
  have d: "bindings_dir \<in> set record_dirs" "gaps_dir \<in> set record_dirs" "attestations_dir \<in> set record_dirs" by (simp_all add: record_dirs_def)
  have g': "each_textproto tbl (tree_fs ((p, c) # t)) bindings_dir (parse_binding_file cd) = Inr bfs"
    "each_textproto tbl (tree_fs ((p, c) # t)) gaps_dir (parse_gap_file cd) = Inr gfs"
    "each_textproto tbl (tree_fs ((p, c) # t)) attestations_dir (parse_attestation_file cd) = Inr afs"
    by (rule iffD2 [OF same [OF d(1)] g(1)], rule iffD2 [OF same [OF d(2)] g(2)], rule iffD2 [OF same [OF d(3)] g(3)])
  from ld g show ?thesis unfolding load_def g' tomb rd by (auto split: sum.splits)
qed

text \<open>Two claims for one such file in one batch, of which the second is all that is written.\<close>

lemma unseen_bound:
  assumes "unseen_file p" "wf_tree t" "load tbl cd (tree_fs t) = Inr st" and "add_binding tbl st p b = (st', Inr content)"
  shows "content = render_binding_set tbl (fresh_file p b)"
proof -
  have "p \<notin> bf_path ` set (st_bindings st)"
  proof
    assume "p \<in> bf_path ` set (st_bindings st)"
    then obtain bf where "bf \<in> set (st_bindings st)" "p = bf_path bf" by auto
    with load_files [OF assms(2,3)] obtain m where "m \<in> set (tree_names t bindings_dir)" "p = bindings_dir @ slash @ m" by metis
    with assms(1) show False using tree_name_facts(1,2) [of m t bindings_dir] by (auto simp: unseen_file_def)
  qed
  with add_binding_facts(2) [OF assms(4)] show ?thesis by blast
qed

text \<open>C31: a claim can be lost at its writing. \<open>resolveBindingFile\<close> admits an explicit file in a directory of its own
  below the bindings directory, or a hidden one, and no load visits either: two claims bound to
  such a file in one batch are both accepted, though alike, the batch writes the second alone, and
  the tree it leaves loads to the store there was before, with neither claim in it.\<close>

theorem unseen_file_loses_claims:
  assumes "wf_tree ((p, []) # t)" and "load tbl cd (tree_fs t) = Inr st" and "unseen_file p"
    and "\<forall>c. compiled (overlay (tree_fs t) [(p, c)]) = Inr sp" and "compiled (tree_fs t) = Inr sp"
    and "bq_file rq = p" "bq_file rq' = p" and "binds tbl lt cd compiled backends (tree_fs t) [rq, rq'] = Inr ups"
    and "map_of t' = fold land ups (map_of t)"
  shows "\<exists>b b'. claim_of tbl sp backends rq = Some b \<and> claim_of tbl sp backends rq' = Some b'
     \<and> map (\<lambda>u. (up_path u, up_content u)) ups = [(p, Some (render_binding_set tbl (fresh_file p b')))]
     \<and> load tbl cd (tree_fs t') = Inr st"
proof -
  have wf: "wf_tree ((p, c) # t)" for c using assms(1) by (simp add: wf_tree_def)
  have wft: "wf_tree t" using assms(1) by (auto simp: wf_tree_def)
  have over: "overlay (tree_fs t) [(p, c)] = tree_fs ((p, c) # t)" "overlay (tree_fs t) [] = tree_fs t" for c
    using overlay_tree [of "[(p, c)]" t] overlay_tree [of "[]" t] wf wft by simp_all
  have p: "p \<noteq> []" using assms(3) by (auto simp: unseen_file_def bindings_dir_def)
  have own: "q = p" if "resolve_binding_file lt cd fs rid p = Inr q" for fs rid q
    using that p by (auto simp: resolve_binding_file_def Let_def split: if_splits sum.splits)
  have loaded: "load tbl cd (tree_fs ((p, c) # t)) = Inr st" for c by (rule load_unseen [OF wf assms(2,3)])
  have step: "\<exists>b. claim_of tbl sp backends r = Some b \<and> up_path u = p \<and> up_content u = Some (render_binding_set tbl (fresh_file p b))"
    if u: "bind tbl lt cd compiled backends (tree_fs s) r = Inr u" "bq_file r = p" and s: "s = t \<or> (\<exists>c. s = (p, c) # t)" for u r s
  proof -
    have ld: "load tbl cd (tree_fs s) = Inr st" "compiled (tree_fs s) = Inr sp" "wf_tree s"
      using s assms(2,4,5) loaded wf wft over(1) by auto
    from bind_bound [OF u(1)] obtain b q st' content where b: "bound_over tbl lt cd sp backends (tree_fs s) st r b q"
      "add_binding tbl st q b = (st', Inr content)" "u = stamp_prior st' (write_to q content)" using ld by (metis sum.inject(2))
    have "q = p" using b(1) u(2) own by (auto simp: bound_over_def)
    with b unseen_bound [OF assms(3) ld(3,1)] show ?thesis by (auto simp: bound_over_def write_to_def)
  qed
  from assms(2,8) obtain us where us: "bind_all (bind tbl lt cd compiled backends) (tree_fs t) 0 [] [rq, rq'] = Inr us" "ups = batch_updates st us"
    by (auto simp: binds_def split: sum.splits)
  then obtain u1 u2 where u: "bind tbl lt cd compiled backends (tree_fs t) rq = Inr u1"
    "bind tbl lt cd compiled backends (overlay (tree_fs t) (batch_tree [u1])) rq' = Inr u2" "us = [u2, u1]"
    by (auto simp: batch_tree_def over(2) split: sum.splits)
  from step [OF u(1) assms(6)] obtain b where b: "claim_of tbl sp backends rq = Some b" "up_path u1 = p" by blast
  then obtain c where "batch_tree [u1] = [(p, c)]" by (simp add: batch_tree_def)
  with u(2) have "bind tbl lt cd compiled backends (tree_fs ((p, c) # t)) rq' = Inr u2" by (simp add: over(1))
  from step [OF this assms(7)] obtain b' where b': "claim_of tbl sp backends rq' = Some b'" "up_path u2 = p"
    "up_content u2 = Some (render_binding_set tbl (fresh_file p b'))" by blast
  have ups: "map (\<lambda>u. (up_path u, up_content u)) ups = [(p, Some (render_binding_set tbl (fresh_file p b')))]"
    using b(2) b' by (simp add: us(2) u(3) batch_updates_def stamp_priors_def Let_def)
  then obtain v where "ups = [v]" "up_path v = p" "up_content v = Some (render_binding_set tbl (fresh_file p b'))" by auto
  then have "map_of t' = map_of ((p, render_binding_set tbl (fresh_file p b')) # t)" using assms(9) by (simp add: land_def)
  then have "load tbl cd (tree_fs t') = Inr st" using tree_fs_cong loaded by metis
  then show ?thesis using b(1) b'(1) ups by (intro exI conjI)
qed

definition nested_file :: string where
  "nested_file = ''.stipulator/bindings/sub/x.textproto''"

definition nested_request :: bind_request where
  "nested_request = one_request\<lparr>bq_file := nested_file\<rparr>"

definition nested_update :: update where
  "nested_update = (write_to nested_file (render_binding_set (\<lambda>_. True) (fresh_file nested_file one_claim)))\<lparr>up_prior_absent := True\<rparr>"

lemma nested_facts:
  "explicit_ok nested_file" "unseen_file nested_file" "wf_tree ((nested_file, c) # one_tree)"
proof -
  show "explicit_ok nested_file" by code_simp
  show "unseen_file nested_file"
    unfolding unseen_file_def by (intro exI [of _ "''sub/x.textproto''"]) (simp add: nested_file_def bindings_dir_def)
  show "wf_tree ((nested_file, c) # one_tree)" by (simp add: wf_tree_def one_tree_def nested_file_def manifest_path_def)
qed

lemma nested_claim: "claim_of (\<lambda>_. True) one_requirement Map.empty nested_request = Some one_claim"
  using one_claim_of by (simp add: claim_of_def nested_request_def one_request_def one_spec claimed_def bind_shape_def set_clause_def)

lemma nested_binds:
  "binds (\<lambda>_. True) id one_codec (\<lambda>_. Inr one_requirement) Map.empty (tree_fs one_tree) [nested_request, nested_request] = Inr [nested_update]"
proof -
  have m: "load_manifest one_codec (tree_fs ((nested_file, c) # one_tree)) = load_manifest one_codec (tree_fs one_tree)" for c
    by (simp add: load_manifest_def read_record_def tree_fs_def nested_file_def manifest_path_def one_tree_def)
  have f: "resolve_binding_file id one_codec fs ''REQ-a'' nested_file = Inr nested_file"
    if "load_manifest one_codec fs = load_manifest one_codec (tree_fs one_tree)" for fs
    using nested_facts(1) by (simp add: resolve_binding_file_def that one_manifest) (simp add: nested_file_def)
  have ld: "load (\<lambda>_. True) one_codec (tree_fs ((nested_file, c) # one_tree)) = Inr one_store" for c
    by (rule load_unseen [OF nested_facts(3) one_load nested_facts(2)])
  have b: "bind (\<lambda>_. True) id one_codec (\<lambda>_. Inr one_requirement) Map.empty (tree_fs s) nested_request = Inr nested_update"
    if s: "s = one_tree \<or> (\<exists>c. s = (nested_file, c) # one_tree)" for s
  proof -
    have l: "load (\<lambda>_. True) one_codec (tree_fs s) = Inr one_store" "load_manifest one_codec (tree_fs s) = load_manifest one_codec (tree_fs one_tree)"
      using s ld one_load m by auto
    show ?thesis using nested_claim f [OF l(2)]
      by (simp add: bind_def bind_target_def nested_request_def one_request_def one_spec l one_manifest set_clause_def resolve_clause_def blank_binding_def
        requires_clause_scope_def tests_or_proves_def known_backends_def bind_shape_def one_store_def twin_file_def add_binding_def fresh_file_def
        stamp_prior_def raw_files_def claim_of_def nested_update_def write_to_def Let_def)
  qed
  have over: "overlay (tree_fs one_tree) [] = tree_fs one_tree" "overlay (tree_fs one_tree) [(nested_file, c)] = tree_fs ((nested_file, c) # one_tree)" for c
    using overlay_tree [of "[]" one_tree] overlay_tree [of "[(nested_file, c)]" one_tree] one_wf(1) nested_facts(3) [of c] by simp_all
  obtain c where t: "batch_tree [nested_update] = [(nested_file, c)]" by (simp add: batch_tree_def nested_update_def write_to_def)
  have "bind_all (bind (\<lambda>_. True) id one_codec (\<lambda>_. Inr one_requirement) Map.empty) (tree_fs one_tree) 0 [] [nested_request, nested_request]
      = Inr [nested_update, nested_update]"
    using b [of one_tree] b [of "(nested_file, c) # one_tree"] t by (simp add: over batch_tree_def)
  then show ?thesis
    by (simp add: binds_def one_load batch_updates_def Let_def stamp_priors_def stamp_prior_def raw_files_def one_store_def nested_update_def write_to_def)
qed

lemma unseen_file_loses_claims_witness:
  "load (\<lambda>_. True) one_codec (tree_fs ((nested_file, the (up_content nested_update)) # one_tree)) = Inr one_store"
proof -
  let ?t = "(nested_file, the (up_content nested_update)) # one_tree"
  have land: "map_of ?t = fold land [nested_update] (map_of one_tree)" by (simp add: land_def nested_update_def write_to_def)
  have f: "bq_file nested_request = nested_file" by (simp add: nested_request_def)
  have c: "\<forall>c. (\<lambda>_. Inr one_requirement) (overlay (tree_fs one_tree) [(nested_file, c)]) = Inr one_requirement" by simp
  from unseen_file_loses_claims [OF nested_facts(3) one_load nested_facts(2) c refl f f nested_binds land] show ?thesis by (elim exE conjE)
qed

section \<open>A claim is born valid\<close>

lemma hashes_by_id:
  "h_content (hashes_of sp) rid = map_option req_content_hash (by_id sp rid)"
  "h_source (hashes_of sp) rid = map_option req_source_hash (by_id sp rid)"
proof -
  have "\<lbrakk>\<And>i. h_content h i = map_option req_content_hash (m i); \<And>i. h_source h i = map_option req_source_hash (m i)\<rbrakk> \<Longrightarrow>
      h_content (fold (\<lambda>r h. h\<lparr>h_content := (h_content h)(req_id r \<mapsto> req_content_hash r), h_source := (h_source h)(req_id r \<mapsto> req_source_hash r)\<rparr>) rs h) rid
        = map_option req_content_hash (fold (\<lambda>r m. m(req_id r \<mapsto> r)) rs m rid)
      \<and> h_source (fold (\<lambda>r h. h\<lparr>h_content := (h_content h)(req_id r \<mapsto> req_content_hash r), h_source := (h_source h)(req_id r \<mapsto> req_source_hash r)\<rparr>) rs h) rid
        = map_option req_source_hash (fold (\<lambda>r m. m(req_id r \<mapsto> r)) rs m rid)" for rs h m
  proof (induction rs arbitrary: h m)
    case (Cons r rs)
    show ?case unfolding fold.simps comp_def by (rule Cons.IH) (simp_all add: Cons.prems)
  qed simp
  from this [of "\<lparr>h_content = Map.empty, h_source = Map.empty\<rparr>" Map.empty "spec_requirements sp"]
  show "h_content (hashes_of sp) rid = map_option req_content_hash (by_id sp rid)"
    "h_source (hashes_of sp) rid = map_option req_source_hash (by_id sp rid)"
    by (simp_all add: hashes_of_def by_id_def)
qed

text \<open>The row the verification gives a claim it was just bound over.\<close>

lemma bound_row:
  assumes b: "bound_over tbl lt cd sp backends fs st rq b p"
  shows "let row = snd (resolve_claim (hashes_of sp) backends w path b clause) in
     fst (resolve_claim (hashes_of sp) backends w path b clause) = []
     \<and> br_content_pinned row = (b_content_hash b \<noteq> []) \<and> \<not> br_rehash row
     \<and> br_resolution row \<in> {Resolved, Unverified} \<and> br_shape row \<noteq> ShapeMismatch"
    "b_role b = ROLE_PROVES \<Longrightarrow> \<exists>be cl. backends (b_backend b) = Some be \<and> be_classifier be = Some cl \<and> cl (b_symbol b) = AnalyzerProof"
proof -
  from b obtain target made shape where t: "by_id sp (bq_requirement rq) = Some target" "bind_shape backends rq = Inr shape"
    "b = stamped_claim target shape (claimed rq made)"
    by (auto simp: bound_over_def claim_of_def split: option.splits sum.splits)
  have judge: "judge (hashes_of sp) (bq_requirement rq) (req_content_hash target) (req_source_hash target)
      = (if req_content_hash target = [] then Consent_Stale else Consent_Current)"
    by (simp add: judge_def judge_consent_def map_get_def hashes_by_id t(1))
  have shape: "case backends (bq_backend rq) of None \<Rightarrow> True
      | Some be \<Rightarrow> (\<exists>res. be_resolve be (bq_symbol rq) = Inr (res, shape) \<and> res \<in> {Resolved, Unverified})"
  proof (cases "backends (bq_backend rq)")
    case (Some be)
    with t(2) obtain res sh where r: "be_resolve be (bq_symbol rq) = Inr (res, sh)"
      by (auto simp: bind_shape_def Let_def split: sum.splits)
    show ?thesis using t(2) by (cases res) (simp_all add: bind_shape_def Let_def Some r split: if_splits)
  qed simp
  then show "let row = snd (resolve_claim (hashes_of sp) backends w path b clause) in
     fst (resolve_claim (hashes_of sp) backends w path b clause) = []
     \<and> br_content_pinned row = (b_content_hash b \<noteq> []) \<and> \<not> br_rehash row
     \<and> br_resolution row \<in> {Resolved, Unverified} \<and> br_shape row \<noteq> ShapeMismatch"
    unfolding resolve_claim_def by (auto simp: t(3) judge Let_def consent_holds_def shape_of_def split: option.splits if_splits)
  show "b_role b = ROLE_PROVES \<Longrightarrow> \<exists>be cl. backends (b_backend b) = Some be \<and> be_classifier be = Some cl \<and> cl (b_symbol b) = AnalyzerProof"
    using t(2) by (auto simp: t(3) bind_shape_def Let_def split: option.splits sum.splits prod.splits if_splits)
qed

text \<open>C9: a claim is born valid. When bind goes through, the tree compiles and its records load, and the update
  writes the file of the layout with the claim at its end. The claim names a corpus requirement
  and a clause it declares; over clean records it passes hygiene and is no other record's twin;
  the verification gives it no problem: its content pin is current, its symbol not missing, its
  shape not mismatched; and a proof is one the loaded backend discharges.\<close>

theorem bind_born_valid:
  "case bind tbl lt cd compiled backends fs rq of Inl e \<Rightarrow> True
   | Inr up \<Rightarrow>
       (case (compiled fs, load tbl cd fs, claim_of tbl (projr (compiled fs)) backends rq) of
          (Inr sp, Inr st, Some b) \<Rightarrow>
            resolve_binding_file lt cd fs (bq_requirement rq) (bq_file rq) = Inr (up_path up)
            \<and> (\<exists>bf bs. up_content up = Some (render_binding_set tbl (bf\<lparr>bf_set := bs @ [b]\<rparr>))
                 \<and> (bs = [] \<or> (\<exists>old \<in> set (st_bindings st). bf_path old = up_path up \<and> bf_set old = bs \<and> bf_raw bf = bf_raw old)))
            \<and> b_requirement_id b = bq_requirement rq \<and> b_symbol b = bq_symbol rq \<and> b_backend b = bq_backend rq \<and> b_role b = bq_role rq
            \<and> (if valid_ids sp \<and> hygiene sp st = []
               then claim_ok (by_id sp) (hashes_of sp) (st_allow_whole st) b
                 \<and> hyg_identity (by_id sp) b \<notin> hyg_identity (by_id sp) ` set (store_bindings st)
               else True)
            \<and> (case resolve_claim (hashes_of sp) backends w (up_path up) b clause of
                 (problems, row) \<Rightarrow> problems = [] \<and> br_content_pinned row = (b_content_hash b \<noteq> []) \<and> \<not> br_rehash row
                   \<and> br_resolution row \<in> {Resolved, Unverified} \<and> br_shape row \<noteq> ShapeMismatch)
            \<and> (if b_role b = ROLE_PROVES
               then \<exists>be cl. backends (b_backend b) = Some be \<and> be_classifier be = Some cl \<and> cl (b_symbol b) = AnalyzerProof
               else True)
        | _ \<Rightarrow> False)"
proof (cases "bind tbl lt cd compiled backends fs rq")
  case (Inr up)
  from bind_bound [OF Inr] obtain sp st b p st' content where b: "compiled fs = Inr sp" "load tbl cd fs = Inr st"
    "bound_over tbl lt cd sp backends fs st rq b p" "add_binding tbl st p b = (st', Inr content)" "up = stamp_prior st' (write_to p content)" by metis
  have up: "up_path up = p" "up_content up = Some content" by (simp_all add: b(5) write_to_def)
  have claim: "claim_of tbl sp backends rq = Some b" using b(3) by (simp add: bound_over_def)
  then have fields: "b_requirement_id b = bq_requirement rq \<and> b_symbol b = bq_symbol rq \<and> b_backend b = bq_backend rq \<and> b_role b = bq_role rq"
    by (auto simp: claim_of_def split: option.splits sum.splits)
  have written: "\<exists>bf bs. up_content up = Some (render_binding_set tbl (bf\<lparr>bf_set := bs @ [b]\<rparr>))
      \<and> (bs = [] \<or> (\<exists>old \<in> set (st_bindings st). bf_path old = up_path up \<and> bf_set old = bs \<and> bf_raw bf = bf_raw old))"
    using add_binding_facts(2) [OF b(4)]
  proof (elim disjE bexE conjE)
    fix old assume "old \<in> set (st_bindings st)" "bf_path old = p" "content = render_binding_set tbl (old\<lparr>bf_set := bf_set old @ [b]\<rparr>)"
    then show ?thesis unfolding up by (intro exI [of _ old] exI [of _ "bf_set old"]) auto
  next
    assume "content = render_binding_set tbl (fresh_file p b)"
    then show ?thesis unfolding up by (intro exI [of _ "fresh_file p b"] exI [of _ "[]"]) (simp add: fresh_file_def)
  qed
  have ok: "if valid_ids sp \<and> hygiene sp st = []
      then claim_ok (by_id sp) (hashes_of sp) (st_allow_whole st) b \<and> hyg_identity (by_id sp) b \<notin> hyg_identity (by_id sp) ` set (store_bindings st)
      else True"
    using bound_ok [OF _ _ b(3)] by (auto simp: hygiene_records)
  have "resolve_binding_file lt cd fs (bq_requirement rq) (bq_file rq) = Inr (up_path up)" using b(3) by (simp add: bound_over_def up)
  with written ok fields bound_row [OF b(3)] show ?thesis
    by (simp add: Inr b(1,2) claim Let_def case_prod_beta)
qed simp

end
