(* ===== verification/Spec2Isabelle.thy ===== *)
theory Spec2Isabelle
  imports Gate Sink Accept Extract Supersede Retention Gaps Apply Check Prune Converter Execute Derive Bind
begin

text \<open>
  Stipulator keeps a specification written in markdown, the requirements compiled from it and
  the committed records (bindings, gaps, attestations) that say how each requirement is met.
  The development models its decision core, the Go code under \<open>src/internal\<close>, as functions
  of what that code reads: the compiler of the corpus, the record store and its pins, the
  hygiene and the verification of the records, the coverage judgment behind the gate, the
  authoring of gaps and attestations, and the machinery around them (diffs, bundles,
  progress, retention).

  Parts, in the order of the pipeline, each theory with the source it models:

  \<^item> \<open>Prelude\<close>, \<open>GoStd\<close>: shared lemmas; the functions of \<open>strings\<close>, \<open>strconv\<close>, \<open>path\<close> and
    \<open>utf8\<close> the code calls, over byte strings (a Go string is a \<open>string\<close>, one \<open>char\<close> per
    byte). Unicode case mapping, printability, NFC and SHA-256 are parameters.
  \<^item> \<open>Proto\<close>: the messages of \<open>proto/stipulator/v1\<close> the modelled code reads; open enums keep
    their unknown numbers.
  \<^item> \<open>Remedy\<close>: \<open>internal/remedy/remedy.go\<close>, the commands every finding names.
  \<^item> \<open>Canon\<close>, \<open>Detect\<close>: \<open>internal/canon\<close> and the token detection of \<open>internal/compile\<close>;
    the hashed preimage of a block sequence determines its parts.
  \<^item> \<open>Extract\<close>, \<open>Compile\<close>, \<open>Compiled\<close>, \<open>Accept\<close>, \<open>Supersede\<close>: \<open>internal/compile/extract.go\<close> and
    \<open>compile.go\<close>. \<open>extract_document\<close> refines a denotation of the blocks; \<open>compile\<close> returns a corpus
    precisely on \<open>clean_corpus\<close>, keeps every block with its content, and its references resolve; the supersede
    worklist computes connected components and empties.
  \<^item> \<open>Records\<close>, \<open>Author\<close>, \<open>Pin\<close>: \<open>internal/records\<close> (the store, clause scopes, claim identity, the
    machine-owned files, the pin pass). The locale \<open>pinned_record\<close> states the pin contract
    once for bindings, gaps and attestations. A pin pass never launders a stale consent.
  \<^item> \<open>Hygiene\<close>, \<open>Verify\<close>: \<open>internal/verify\<close>. Hygiene is exact (\<open>records_ok\<close>); Resolve and Correlate
    keep one row per claim; the tally, signatures and histograms are exact. A language backend
    is a record of the answers it gives.
  \<^item> \<open>Coverage\<close>, \<open>Evaluate\<close>, \<open>Gate\<close>: \<open>internal/coverage\<close>. The evaluation raises evidence flags and
    never lowers them (locale \<open>accumulating_flag\<close>); the violations are exactly the red
    requirements nothing excuses.
  \<^item> \<open>Gaps\<close>: \<open>internal/author\<close> (gaps, vocabulary, attestations): a gap is born valid, batches are
    all or nothing.
  \<^item> \<open>GoPath\<close>, \<open>Apply\<close>: \<open>path\<close> cleaning; \<open>internal/recordapply\<close>, the one writer of record files, over
    the answers of the operating system: a batch lands in order, a moved target refuses it, every
    write is confined.
  \<^item> \<open>Check\<close>: \<open>internal/check\<close>, which composes compilation, hygiene, verification and coverage
    into one verdict; what a passing check means, end to end.
  \<^item> \<open>Prune\<close>: \<open>internal/verifyrun\<close> and \<open>internal/prune\<close>, the pass behind the verbs and the deletion
    of resolved gaps, which changes no verdict over the evidence it read; what it can change over other
    evidence is stated beside it. The global cache bound is kept exactly off a stated wrap of \<open>int64\<close>.
  \<^item> \<open>Converter\<close>: \<open>internal/backends/golang/internal/test2json\<close>, the streaming conversion of a
    test's output to events: line buffers, marks, pending reports, the writer.
  \<^item> \<open>Stream\<close>, \<open>Utf8\<close>, \<open>Execute\<close>: the executor of \<open>internal/backends/golang\<close> (\<open>execute.go\<close>,
    \<open>nativeexecution.go\<close>, \<open>retainedrun.go\<close>, \<open>selection.go\<close>, \<open>observe.go\<close>): a process's event stream as the state it is
    parsed into, bounded diagnostics, a package in its slot, the verdict on a process and on an invocation, the isolation
    pass. The decoder, the processes and the clocks are inputs.
  \<^item> \<open>Derive\<close>: \<open>executePolicy\<close> and \<open>derive.go\<close>: the report of a policy and the evidence view the
    verification reads, followed back from a passed witness to the process that gave it, over executions in which packages
    are also refused, held, cut off, not built or without tests.
  \<^item> \<open>Load\<close>, \<open>Bind\<close>: the loading of records off a tree (\<open>internal/recordfile\<close>, \<open>Load\<close> of
    \<open>internal/records\<close>, the manifest of \<open>internal/corpus\<close>) and the binding ceremonies of
    \<open>internal/author/author.go\<close>. The overlay of a batch reads as the tree the batch leaves, so a batch
    lands whole and keeps clean records clean. The decoder is a parameter, asked only to read back what
    was rendered.
  \<^item> \<open>Diff\<close>, \<open>Bundle\<close>: \<open>internal/diff\<close>, \<open>internal/bundle\<close>. The bundle worklist refines the
    inductive relation \<open>needed\<close>; what a bundle closes over leaves supersedes targets out.
  \<^item> \<open>Progress\<close>, \<open>Sink\<close>: \<open>internal/progress\<close>. A reporter's calls as a fold over its state; the
    non-blocking sink as the step relation \<open>sender_step\<close> with its reachable states (locale
    \<open>emit_once\<close>). Times are integers of nanoseconds.
  \<^item> \<open>Retention\<close>: \<open>internal/recordstore/retention.go\<close>, the retention pass over the answers of the
    file system.

  State is passed explicitly, errors are values (\<open>Inl\<close>, the message), Go maps are partial
  functions, or entry lists in an arbitrary order where the code walks them. Every loop is a
  structural recursion or a recursion with a measure, so a result is always a result of the
  code; the one fuel is the input's length in \<open>GoStd\<close>'s trimming loop, which drops a byte a round
  (\<open>strip_fuel_done\<close>: then nothing is left to drop). Machine integers are words where a width shows in a result;
  counts of records and bytes that stay far below it are \<open>nat\<close> or \<open>int\<close>; the
  split of the global cache bound writes the wrap of \<open>int64\<close> out (\<open>wrap64\<close>).

  Not modelled: the rest of the Go backend (\<open>internal/backends/golang\<close>, which loads packages, hashes
  shapes and runs the toolchain; it is the parameter \<open>backend\<close>), the caches keyed by its
  fingerprints, the markdown profile over its third-party parser (the blocks it yields are the input
  of \<open>Extract\<close>), the parsing of record files by the protobuf library (a parameter of \<open>Load\<close>; elsewhere the loaded
  store is the input), the disposal and retargeting ceremonies, the execution policy, the command line
  and the MCP server, and git input. Generated code and
  tests are left aside.
\<close>

end
